(* ===== verification/OfsPrelude.thy ===== *)
theory OfsPrelude
  imports Main "HOL-Library.Word" "HOL-Library.List_Lexorder"
begin

text \<open>
  Shared vocabulary of the development: the C integer types, little endian byte lists,
  memory buffers with \<open>memcpy\<close>/\<open>memmove\<close>/\<open>memset\<close>, the error codes of
  \<open>include/ofs_globals.h\<close> and \<open>include/ofs_block.h\<close>, and the generic lemmas about them.
  A failed \<open>ASSERT\<close> (the C \<open>assert\<close>, \<open>public/os_linux_user.h\<close>) is \<open>None\<close> of an
  option type; a negative return code is the left summand of a sum type.
\<close>

unbundle bit_operations_syntax

named_theorems buf_simps \<open>reading back what was written to a buffer\<close>

type_synonym u8 = "8 word"
type_synonym u16 = "16 word"
type_synonym u32 = "32 word"
type_synonym u64 = "64 word"

section \<open>Error codes\<close>

datatype ofs_err =
    INDEX_ERR_READ | INDEX_ERR_OBJ_EXIST | INDEX_ERR_PARAMETER | INDEX_ERR_ALLOCATE_MEMORY
  | INDEX_ERR_MANY_TIMES_PUT | INDEX_ERR_NO_FREE_BLOCKS | INDEX_ERR_UPDATE
  | INDEX_ERR_MAX_DEPTH | INDEX_ERR_ROOT | INDEX_ERR_END_ENTRY | INDEX_ERR_NEXT_ENTRY
  | INDEX_ERR_COLLATE | INDEX_ERR_KEY_NOT_FOUND | INDEX_ERR_KEY_EXIST | INDEX_ERR_INSERT_ENTRY
  | INDEX_ERR_ADD_VBN | INDEX_ERR_DEL_VBN | INDEX_ERR_CHAOS | INDEX_ERR_REPARENT
  | INDEX_ERR_FORMAT | INDEX_ERR_IS_OPENED | INDEX_ERR_OBJ_ID_INVALID
  | BLOCK_ERR_WRITE | BLOCK_ERR_PARAMETER | BLOCK_ERR_ALLOCATE_MEMORY | BLOCK_ERR_FORMAT
  | FILE_BLOCK_ERR_INVALID_OBJECT
  | FILE_IO_ERR_INVALID_PARA | FILE_IO_ERR_SEEK | FILE_IO_ERR_OPEN

section \<open>Comparison results\<close>

text \<open>What the comparison functions return for two values of a linear order.\<close>

definition three_way :: "'o::linorder \<Rightarrow> 'o \<Rightarrow> int" where
  "three_way x y = (if x > y then 1 else if x < y then -1 else 0)"

lemma three_way_simps [simp]:
  "three_way x x = 0" "x < y \<Longrightarrow> three_way x y = -1" "y < x \<Longrightarrow> three_way x y = 1"
  by (auto simp: three_way_def)

lemma three_way_0 [simp]: "three_way x y = 0 \<longleftrightarrow> x = y"
  by (auto simp: three_way_def)

section \<open>Little and big endian byte lists\<close>

primrec le_val :: "u8 list \<Rightarrow> nat" where
  "le_val [] = 0"
| "le_val (b # bs) = unat b + 256 * le_val bs"

primrec be_val :: "u8 list \<Rightarrow> nat" where
  "be_val [] = 0"
| "be_val (b # bs) = unat b * 256 ^ length bs + be_val bs"

text \<open>The \<open>n\<close> low bytes of a number, lowest first: the memory image of a C integer.\<close>

primrec bytes_le :: "nat \<Rightarrow> nat \<Rightarrow> u8 list" where
  "bytes_le 0 v = []"
| "bytes_le (Suc n) v = of_nat (v mod 256) # bytes_le n (v div 256)"

lemma unat_u8_less: "unat (b :: u8) < 256"
  using unsigned_less [of b] by simp

lemma unat_u16_less: "unat (w :: u16) < 65536"
  using unsigned_less [of w] by simp

lemma unat_u32_less: "unat (w :: u32) < 4294967296"
  using unsigned_less [of w] by simp

lemma unat_u64_less: "unat (w :: u64) < 18446744073709551616"
  using unsigned_less [of w] by simp

lemma unat_ucast_up:
  "LENGTH('a::len) \<le> LENGTH('b::len) \<Longrightarrow> unat (ucast (w :: 'a word) :: 'b word) = unat w"
proof -
  assume "LENGTH('a) \<le> LENGTH('b)"
  then have "unat w < 2 ^ LENGTH('b)"
    by (meson less_le_trans one_le_numeral power_increasing unsigned_less)
  then show ?thesis by (simp add: unsigned_ucast_eq take_bit_nat_eq_self)
qed

lemma unat_drop_bit_div: "unat (drop_bit n w :: 'a::len word) = unat w div 2 ^ n"
  by (subst unat_drop_bit_eq) (rule drop_bit_eq_div)

lemma unat_push_bit_mod: "unat (push_bit n w :: 'a::len word) = unat w * 2 ^ n mod 2 ^ LENGTH('a)"
  by (subst unsigned_push_bit_eq) (simp only: take_bit_eq_mod push_bit_eq_mult)

lemma length_bytes_le [simp]: "length (bytes_le n v) = n"
  by (induction n arbitrary: v) simp_all

lemma le_val_less: "le_val bs < 256 ^ length bs"
proof (induction bs)
  case Nil
  then show ?case by simp
next
  case (Cons b bs)
  have "le_val bs + 1 \<le> 256 ^ length bs" using Cons.IH by simp
  then have "256 * (le_val bs + 1) \<le> 256 * 256 ^ length bs" by (rule mult_le_mono2)
  moreover have "unat b + 256 * le_val bs < 256 * (le_val bs + 1)"
    using unat_u8_less [of b] by simp
  ultimately have "unat b + 256 * le_val bs < 256 * 256 ^ length bs"
    by (rule order.strict_trans2 [rotated])
  then show ?case by simp
qed

lemma be_val_less: "be_val bs < 256 ^ length bs"
proof (induction bs)
  case Nil
  then show ?case by simp
next
  case (Cons b bs)
  have "unat b + 1 \<le> 256" using unat_u8_less [of b] by linarith
  then have "(unat b + 1) * 256 ^ length bs \<le> 256 * 256 ^ length bs" by (rule mult_le_mono1)
  then have "unat b * 256 ^ length bs + 256 ^ length bs \<le> 256 * 256 ^ length bs"
    by (simp add: algebra_simps)
  with Cons.IH have "unat b * 256 ^ length bs + be_val bs < 256 * 256 ^ length bs" by linarith
  then show ?case by simp
qed

lemma le_val_append: "le_val (xs @ ys) = le_val xs + 256 ^ length xs * le_val ys"
  by (induction xs) (simp_all add: algebra_simps)

lemma le_val_replicate0 [simp]: "le_val (replicate n 0) = 0"
  by (induction n) simp_all

lemma le_val_bytes_le: "le_val (bytes_le n v) = v mod 256 ^ n"
proof (induction n arbitrary: v)
  case 0
  then show ?case by simp
next
  case (Suc n)
  have u: "unat (of_nat (v mod 256) :: u8) = v mod 256"
    by (simp add: unat_of_nat)
  have "v mod (256 * 256 ^ n) = 256 * (v div 256 mod 256 ^ n) + v mod 256"
    by (rule mod_mult2_eq)
  with Suc.IH [of "v div 256"] u show ?case by simp
qed

lemma bytes_le_le_val: "bytes_le (length bs) (le_val bs) = bs"
proof (induction bs)
  case Nil
  then show ?case by simp
next
  case (Cons b bs)
  have "(unat b + 256 * le_val bs) mod 256 = unat b"
    and "(unat b + 256 * le_val bs) div 256 = le_val bs"
    using unat_u8_less [of b] by simp_all
  with Cons.IH show ?case by simp
qed

lemma le_val_inject: "length xs = length ys \<Longrightarrow> le_val xs = le_val ys \<longleftrightarrow> xs = ys"
  by (metis bytes_le_le_val)

lemma bytes_le_nth_0_iff: "(\<forall>b \<in> set (bytes_le n v). b = 0) \<longleftrightarrow> v mod 256 ^ n = 0"
proof -
  have "(\<forall>b \<in> set bs. b = 0) \<longleftrightarrow> le_val bs = 0" for bs
    by (induction bs) (auto simp: unat_eq_0)
  then show ?thesis by (simp add: le_val_bytes_le)
qed

lemma take_bytes_le: "m \<le> n \<Longrightarrow> take m (bytes_le n v) = bytes_le m v"
proof (induction m arbitrary: n v)
  case 0
  then show ?case by simp
next
  case (Suc m)
  then obtain k where "n = Suc k" by (cases n) auto
  with Suc show ?case by simp
qed

lemma drop_bytes_le: "drop m (bytes_le n v) = bytes_le (n - m) (v div 256 ^ m)"
proof (induction m arbitrary: n v)
  case 0
  then show ?case by simp
next
  case (Suc m)
  show ?case
  proof (cases n)
    case 0
    then show ?thesis by simp
  next
    case (Suc k)
    with Suc.IH [of k "v div 256"] show ?thesis
      by (simp add: div_mult2_eq)
  qed
qed

section \<open>Memory buffers\<close>

text \<open>
  A buffer is a function from byte offsets to bytes; a pointer into it is an offset.
  \<open>rd\<close> reads \<open>n\<close> bytes, \<open>wr\<close> writes a byte list (\<open>memcpy\<close> from another object),
  \<open>mv\<close> is \<open>memmove\<close> inside one buffer and \<open>memset0\<close> is \<open>memset(p, 0, n)\<close>.
\<close>

type_synonym buf = "nat \<Rightarrow> u8"

definition rd :: "buf \<Rightarrow> nat \<Rightarrow> nat \<Rightarrow> u8 list" where
  "rd m off n = map (\<lambda>i. m (off + i)) [0..<n]"

definition wr :: "buf \<Rightarrow> nat \<Rightarrow> u8 list \<Rightarrow> buf" where
  "wr m off bs = (\<lambda>i. if off \<le> i \<and> i < off + length bs then bs ! (i - off) else m i)"

definition mv :: "buf \<Rightarrow> nat \<Rightarrow> nat \<Rightarrow> nat \<Rightarrow> buf" where
  "mv m dst src n = (\<lambda>i. if dst \<le> i \<and> i < dst + n then m (src + (i - dst)) else m i)"

definition memset0 :: "buf \<Rightarrow> nat \<Rightarrow> nat \<Rightarrow> buf" where
  "memset0 m off n = (\<lambda>i. if off \<le> i \<and> i < off + n then 0 else m i)"

definition get16 :: "buf \<Rightarrow> nat \<Rightarrow> u16" where "get16 m off = of_nat (le_val (rd m off 2))"
definition get32 :: "buf \<Rightarrow> nat \<Rightarrow> u32" where "get32 m off = of_nat (le_val (rd m off 4))"
definition get64 :: "buf \<Rightarrow> nat \<Rightarrow> u64" where "get64 m off = of_nat (le_val (rd m off 8))"

definition put16 :: "buf \<Rightarrow> nat \<Rightarrow> u16 \<Rightarrow> buf" where
  "put16 m off v = wr m off (bytes_le 2 (unat v))"
definition put32 :: "buf \<Rightarrow> nat \<Rightarrow> u32 \<Rightarrow> buf" where
  "put32 m off v = wr m off (bytes_le 4 (unat v))"
definition put64 :: "buf \<Rightarrow> nat \<Rightarrow> u64 \<Rightarrow> buf" where
  "put64 m off v = wr m off (bytes_le 8 (unat v))"

lemma length_rd [simp]: "length (rd m off n) = n"
  by (simp add: rd_def)

lemma nth_rd [simp]: "i < n \<Longrightarrow> rd m off n ! i = m (off + i)"
  by (simp add: rd_def)

lemma rd_0 [simp]: "rd m off 0 = []"
  by (simp add: rd_def)

lemma rd_add: "rd m off (a + b) = rd m off a @ rd m (off + a) b"
  by (rule nth_equalityI) (auto simp: nth_append add.assoc)

lemma rd_Suc: "rd m off (Suc n) = m off # rd m (Suc off) n"
  by (rule nth_equalityI) (auto simp: nth_Cons split: nat.splits)

lemma rd_eq_iff: "rd m off n = rd m' off' n \<longleftrightarrow> (\<forall>i<n. m (off + i) = m' (off' + i))"
  by (auto simp: list_eq_iff_nth_eq)

lemma rd_eqI: "(\<And>i. i < n \<Longrightarrow> m (off + i) = m' (off' + i)) \<Longrightarrow> rd m off n = rd m' off' n"
  by (simp add: rd_eq_iff)

lemma wr_in: "off \<le> i \<Longrightarrow> i < off + length bs \<Longrightarrow> wr m off bs i = bs ! (i - off)"
  by (simp add: wr_def)

lemma wr_out: "i < off \<or> off + length bs \<le> i \<Longrightarrow> wr m off bs i = m i"
  by (auto simp: wr_def)

lemma rd_wr_same [buf_simps]: "n = length bs \<Longrightarrow> rd (wr m off bs) off n = bs"
  by (rule nth_equalityI) (auto simp: wr_def)

lemma rd_wr_prefix: "n \<le> length bs \<Longrightarrow> rd (wr m off bs) off n = take n bs"
  by (rule nth_equalityI) (auto simp: wr_def)

lemma rd_wr_disj [buf_simps]:
  "off + n \<le> off' \<or> off' + length bs \<le> off \<Longrightarrow> rd (wr m off' bs) off n = rd m off n"
  by (rule rd_eqI) (auto simp: wr_def)

lemma rd_mv_in [buf_simps]:
  "dst \<le> off \<Longrightarrow> off + k \<le> dst + n \<Longrightarrow> rd (mv m dst src n) off k = rd m (src + (off - dst)) k"
  by (rule rd_eqI) (auto simp: mv_def intro!: arg_cong [where f = m])

lemma rd_mv_out [buf_simps]:
  "off + k \<le> dst \<or> dst + n \<le> off \<Longrightarrow> rd (mv m dst src n) off k = rd m off k"
  by (rule rd_eqI) (auto simp: mv_def)

lemma rd_memset0_in: "a \<le> off \<Longrightarrow> off + k \<le> a + n \<Longrightarrow> rd (memset0 m a n) off k = replicate k 0"
  by (rule nth_equalityI) (auto simp: memset0_def)

lemma rd_memset0_out [buf_simps]:
  "off + k \<le> a \<or> a + n \<le> off \<Longrightarrow> rd (memset0 m a n) off k = rd m off k"
  by (rule rd_eqI) (auto simp: memset0_def)

lemma unat_of_nat_le_val:
  assumes "8 * length bs \<le> LENGTH('a::len)"
  shows "unat (of_nat (le_val bs) :: 'a word) = le_val bs"
proof -
  have "le_val bs < 256 ^ length bs" by (rule le_val_less)
  also have "(256::nat) ^ length bs = 2 ^ (8 * length bs)" by (simp add: power_mult)
  also have "\<dots> \<le> 2 ^ LENGTH('a)" using assms by (simp add: power_increasing)
  finally show ?thesis by (simp add: unat_of_nat)
qed

lemma unat_get16: "unat (get16 m off) = le_val (rd m off 2)"
  by (simp add: get16_def unat_of_nat_le_val)

lemma unat_get32: "unat (get32 m off) = le_val (rd m off 4)"
  by (simp add: get32_def unat_of_nat_le_val)

lemma unat_get64: "unat (get64 m off) = le_val (rd m off 8)"
  by (simp add: get64_def unat_of_nat_le_val)

lemma get16_put16 [buf_simps]: "get16 (put16 m off v) off = v"
  using unat_u16_less [of v] by (simp add: get16_def put16_def rd_wr_same le_val_bytes_le)

lemma get32_put32 [buf_simps]: "get32 (put32 m off v) off = v"
  using unat_u32_less [of v] by (simp add: get32_def put32_def rd_wr_same le_val_bytes_le)

lemma get64_put64 [buf_simps]: "get64 (put64 m off v) off = v"
  using unat_u64_less [of v] by (simp add: get64_def put64_def rd_wr_same le_val_bytes_le)

lemma put_disj [buf_simps]:
  "off + n \<le> a \<or> a + 2 \<le> off \<Longrightarrow> rd (put16 m a v) off n = rd m off n"
  "off + n \<le> a \<or> a + 4 \<le> off \<Longrightarrow> rd (put32 m a w) off n = rd m off n"
  "off + n \<le> a \<or> a + 8 \<le> off \<Longrightarrow> rd (put64 m a x) off n = rd m off n"
  by (auto simp: put16_def put32_def put64_def intro!: rd_wr_disj)

lemma put16_get16 [simp]: "put16 m off (get16 m off) = m"
proof
  fix i
  have b: "bytes_le 2 (unat (get16 m off)) = rd m off 2"
    using bytes_le_le_val [of "rd m off 2"] by (simp add: unat_get16)
  show "put16 m off (get16 m off) i = m i"
    by (auto simp only: put16_def b wr_def length_rd nth_rd split: if_splits) simp
qed

lemma get_put16_disj [buf_simps]:
  "off + 2 \<le> a \<or> a + 2 \<le> off \<Longrightarrow> get16 (put16 m a v) off = get16 m off"
  "off + 4 \<le> a \<or> a + 2 \<le> off \<Longrightarrow> get32 (put16 m a v) off = get32 m off"
  "off + 8 \<le> a \<or> a + 2 \<le> off \<Longrightarrow> get64 (put16 m a v) off = get64 m off"
  by (simp_all add: get16_def get32_def get64_def put_disj)

lemma get_put32_disj [buf_simps]:
  "off + 2 \<le> a \<or> a + 4 \<le> off \<Longrightarrow> get16 (put32 m a w) off = get16 m off"
  "off + 4 \<le> a \<or> a + 4 \<le> off \<Longrightarrow> get32 (put32 m a w) off = get32 m off"
  "off + 8 \<le> a \<or> a + 4 \<le> off \<Longrightarrow> get64 (put32 m a w) off = get64 m off"
  by (simp_all add: get16_def get32_def get64_def put_disj)

lemma get_cong:
  "(\<And>i. i < 2 \<Longrightarrow> m (off + i) = m' (off' + i)) \<Longrightarrow> get16 m off = get16 m' off'"
  "(\<And>i. i < 4 \<Longrightarrow> m (off + i) = m' (off' + i)) \<Longrightarrow> get32 m off = get32 m' off'"
  "(\<And>i. i < 8 \<Longrightarrow> m (off + i) = m' (off' + i)) \<Longrightarrow> get64 m off = get64 m' off'"
  by (simp_all add: get16_def get32_def get64_def rd_eq_iff cong: rd_eqI)

lemma get16_inject: "get16 m off = get16 m' off' \<longleftrightarrow> rd m off 2 = rd m' off' 2"
proof
  assume "get16 m off = get16 m' off'"
  then have "le_val (rd m off 2) = le_val (rd m' off' 2)" by (metis unat_get16)
  then show "rd m off 2 = rd m' off' 2" by (simp add: le_val_inject)
qed (simp add: get16_def)

lemma get32_inject: "get32 m off = get32 m' off' \<longleftrightarrow> rd m off 4 = rd m' off' 4"
proof
  assume "get32 m off = get32 m' off'"
  then have "le_val (rd m off 4) = le_val (rd m' off' 4)" by (metis unat_get32)
  then show "rd m off 4 = rd m' off' 4" by (simp add: le_val_inject)
qed (simp add: get32_def)

lemma put16_out: "i < off \<or> off + 2 \<le> i \<Longrightarrow> put16 m off v i = m i"
  by (auto simp: put16_def wr_def)

end
