(* ===== verification/Collate.thy ===== *)
theory Collate
  imports OfsPrelude
begin

text \<open>
  The collation rules of \<open>object_system/ofs_collate.c\<close>: the comparison functions that order the
  keys of every table, and the little endian integer strings keys and values are made of.
  A key or value is a byte list; a size argument is the length of the list. A read past the end
  of a list (\<open>byte_at\<close>) gives 0: the C code reads whatever follows the object there.
  Results are the C \<open>int32_t\<close> as an integer; \<open>None\<close> is a failed \<open>ASSERT\<close>.
\<close>

section \<open>Upper case\<close>

text \<open>
  The functions of the kernel branch. In user space the names are macros for \<open>toupper\<close> and
  \<open>towupper\<close>, which are the same function in the C locale, the only one the program uses.
\<close>

definition os_to_upper :: "u8 \<Rightarrow> u8" where
  "os_to_upper c = (if c \<le> 122 \<and> c \<ge> 97 then c - 32 else c)"

definition os_to_wupper :: "u16 \<Rightarrow> u16" where
  "os_to_wupper c = (if c \<le> 122 \<and> c \<ge> 97 then c - 32 else c)"

section \<open>Binary keys\<close>

fun skip_zeros :: "u8 list \<Rightarrow> u8 list" where
  "skip_zeros [] = []"
| "skip_zeros (b # bs) = (if b = 0 then skip_zeros bs else b # bs)"

fun cmp_bytes :: "u8 list \<Rightarrow> u8 list \<Rightarrow> int" where
  "cmp_bytes (a # as) (b # bs) =
     (if a > b then 1 else if a < b then -1 else cmp_bytes as bs)"
| "cmp_bytes _ _ = 0"

definition os_collate_binary :: "u8 list \<Rightarrow> u8 list \<Rightarrow> int option" where
  "os_collate_binary b1 b2 =
     (if b1 = [] \<or> b2 = [] then None else
      let b1 = skip_zeros b1; b2 = skip_zeros b2 in
      if length b1 > length b2 then Some 1
      else if length b1 < length b2 then Some (-1)
      else Some (cmp_bytes b1 b2))"

section \<open>Strings\<close>

text \<open>
  The loop compares while both sizes are non-zero, then the remaining sizes decide. Wide characters
  are unsigned; \<open>char\<close> is signed, so narrow characters compare by \<open>sint\<close>.
\<close>

fun os_collate_unicode_loop :: "u16 list \<Rightarrow> u16 list \<Rightarrow> int" where
  "os_collate_unicode_loop (c1 # s1) (c2 # s2) =
     (if os_to_wupper c1 > os_to_wupper c2 then 1
      else if os_to_wupper c1 < os_to_wupper c2 then -1
      else os_collate_unicode_loop s1 s2)"
| "os_collate_unicode_loop s1 s2 =
     (if length s1 > length s2 then 1 else if length s1 < length s2 then -1 else 0)"

definition os_collate_unicode_string :: "u16 list \<Rightarrow> u16 list \<Rightarrow> int option" where
  "os_collate_unicode_string s1 s2 =
     (if s1 = [] \<or> s2 = [] then None else Some (os_collate_unicode_loop s1 s2))"

fun os_collate_ansi_loop :: "u8 list \<Rightarrow> u8 list \<Rightarrow> int" where
  "os_collate_ansi_loop (c1 # s1) (c2 # s2) =
     (if sint (os_to_upper c1) > sint (os_to_upper c2) then 1
      else if sint (os_to_upper c1) < sint (os_to_upper c2) then -1
      else os_collate_ansi_loop s1 s2)"
| "os_collate_ansi_loop s1 s2 =
     (if length s1 > length s2 then 1 else if length s1 < length s2 then -1 else 0)"

definition os_collate_ansi_string :: "u8 list \<Rightarrow> u8 list \<Rightarrow> int option" where
  "os_collate_ansi_string s1 s2 =
     (if s1 = [] \<or> s2 = [] then None else Some (os_collate_ansi_loop s1 s2))"

section \<open>Little endian integer strings\<close>

definition os_bstr_to_u64 :: "u8 list \<Rightarrow> u64 option" where
  "os_bstr_to_u64 b =
     (if b = [] \<or> length b > 8 then None
      else Some (of_nat (le_val (b @ replicate (8 - length b) 0))))"

text \<open>The loop of \<open>os_u64_size\<close>: \<open>pos\<close> runs down from the top byte while it is zero.\<close>

fun os_u64_size_loop :: "u8 list \<Rightarrow> nat \<Rightarrow> nat \<Rightarrow> nat" where
  "os_u64_size_loop uc b_size 0 = b_size"
| "os_u64_size_loop uc b_size (Suc pos) =
     (if uc ! Suc pos \<noteq> 0 then b_size else os_u64_size_loop uc (b_size - 1) pos)"

definition os_u64_size :: "u64 \<Rightarrow> nat" where
  "os_u64_size v =
     (let b_size = os_u64_size_loop (bytes_le 8 (unat v)) 8 7
      in if b_size = 0 then 1 else b_size)"

definition os_u64_to_bstr :: "u64 \<Rightarrow> u8 list" where
  "os_u64_to_bstr v = map (\<lambda>pos. bytes_le 8 (unat v) ! pos) [0..<os_u64_size v]"

definition os_collate_u64 :: "u8 list \<Rightarrow> u8 list \<Rightarrow> int option" where
  "os_collate_u64 b1 b2 =
     (case (os_bstr_to_u64 b1, os_bstr_to_u64 b2) of
        (Some u64_1, Some u64_2) \<Rightarrow>
          Some (if u64_1 > u64_2 then 1 else if u64_1 < u64_2 then -1 else 0)
      | _ \<Rightarrow> None)"

section \<open>Extents\<close>

text \<open>
  An extent pair is one byte holding the size of the address, the address and the length.
  An invalid pair gives length 0 and leaves \<open>*pa\<close> as it was, so the caller's uninitialised
  \<open>pa\<close> is an argument of the model.
\<close>

definition os_extent_to_extent_pair :: "u64 \<Rightarrow> u64 \<Rightarrow> u8 list" where
  "os_extent_to_extent_pair pa len =
     (if len = 0 then []
      else let pa_str = os_u64_to_bstr pa
           in of_nat (length pa_str) # pa_str @ os_u64_to_bstr len)"

definition byte_at :: "u8 list \<Rightarrow> nat \<Rightarrow> u8" where
  "byte_at bs i = (if i < length bs then bs ! i else 0)"

definition os_extent_pair_to_extent :: "u8 list \<Rightarrow> u64 \<Rightarrow> (u64 \<times> u64) option" where
  "os_extent_pair_to_extent ext_pair pa0 =
     (let pa_size = unat (byte_at ext_pair 0)
      in if length ext_pair \<le> pa_size + 1 then Some (0, pa0)
         else case os_bstr_to_u64 (take pa_size (drop 1 ext_pair)) of None \<Rightarrow> None
              | Some pa \<Rightarrow>
                  (case os_bstr_to_u64 (drop (1 + pa_size) ext_pair) of None \<Rightarrow> None
                   | Some len \<Rightarrow> Some (len, pa)))"

definition os_collate_extent ::
  "u8 list \<Rightarrow> u8 list \<Rightarrow> u8 list \<Rightarrow> u8 list \<Rightarrow> int option" where
  "os_collate_extent k1 v1 k2 v2 =
     (if v2 = [] \<or> v1 = [] then os_collate_u64 k1 k2
      else case (os_bstr_to_u64 k1, os_bstr_to_u64 k2, os_bstr_to_u64 v1, os_bstr_to_u64 v2) of
        (Some addr1, Some addr2, Some len1, Some len2) \<Rightarrow>
          Some (if addr1 \<ge> addr2 + len2 then 1
                else if addr1 + len1 \<le> addr2 then -1 else 0)
      | _ \<Rightarrow> None)"

definition os_collate_extent_map ::
  "u64 \<Rightarrow> u64 \<Rightarrow> u8 list \<Rightarrow> u8 list \<Rightarrow> u8 list \<Rightarrow> u8 list \<Rightarrow> int option" where
  "os_collate_extent_map pa1_0 pa2_0 k1 v1 k2 v2 =
     (if v2 = [] \<or> v1 = [] then os_collate_u64 k1 k2
      else case (os_bstr_to_u64 k1, os_bstr_to_u64 k2,
                 os_extent_pair_to_extent v1 pa1_0, os_extent_pair_to_extent v2 pa2_0) of
        (Some va1, Some va2, Some (len1, pa1), Some (len2, pa2)) \<Rightarrow>
          Some (if va1 \<ge> va2 + len2 then 1
                else if va1 + len1 \<le> va2 then -1
                else if pa1 \<ge> pa2 + len2 then 1
                else if pa1 + len1 \<le> pa2 then -1
                else 0)
      | _ \<Rightarrow> None)"

section \<open>The dispatcher\<close>

datatype collate_rule =
  CR_BINARY | CR_ANSI_STRING | CR_UNICODE_STRING | CR_U64 | CR_EXTENT | CR_EXTENT_MAP

definition collate_rule_of :: "u16 \<Rightarrow> collate_rule option" where
  "collate_rule_of cr =
     (if cr = 0 then Some CR_BINARY else if cr = 1 then Some CR_ANSI_STRING
      else if cr = 2 then Some CR_UNICODE_STRING else if cr = 3 then Some CR_U64
      else if cr = 4 then Some CR_EXTENT else if cr = 5 then Some CR_EXTENT_MAP else None)"

text \<open>
  \<open>collate_key\<close> passes the key length in bytes as the number of 16 bit characters of a wide string.
\<close>

definition wide_units :: "u8 list \<Rightarrow> u16 list" where
  "wide_units bs =
     map (\<lambda>i. of_nat (le_val [byte_at bs (2 * i), byte_at bs (2 * i + 1)])) [0..<length bs]"

text \<open>
  \<open>ASSERT(cr < CR_BUTT)\<close> comes first, so the default branch is the rule number that is no rule.
  The arguments are the key and value of the entry, then the searched key and value.
\<close>

definition collate_key ::
  "u16 \<Rightarrow> u8 list \<Rightarrow> u8 list \<Rightarrow> u8 list \<Rightarrow> u8 list \<Rightarrow> int option" where
  "collate_key cr ie_key ie_value key value =
     (if key = [] then None else
      case collate_rule_of cr of
        None \<Rightarrow> None
      | Some CR_BINARY \<Rightarrow> os_collate_binary ie_key key
      | Some CR_ANSI_STRING \<Rightarrow> os_collate_ansi_string ie_key key
      | Some CR_UNICODE_STRING \<Rightarrow>
          os_collate_unicode_string (wide_units ie_key) (wide_units key)
      | Some CR_U64 \<Rightarrow> os_collate_u64 ie_key key
      | Some CR_EXTENT \<Rightarrow> os_collate_extent ie_key ie_value key value
      | Some CR_EXTENT_MAP \<Rightarrow> os_collate_extent_map 0 0 ie_key ie_value key value)"

section \<open>Integer strings: lemmas\<close>

lemma os_u64_size_loop_spec:
  assumes "pos < length uc"
  shows "\<exists>j \<le> pos. os_u64_size_loop uc (Suc pos) pos = Suc j \<and>
    (\<forall>i. j < i \<and> i \<le> pos \<longrightarrow> uc ! i = 0) \<and> (j = 0 \<or> uc ! j \<noteq> 0)"
  using assms
proof (induction pos)
  case 0
  then show ?case by simp
next
  case (Suc pos)
  show ?case
  proof (cases "uc ! Suc pos = 0")
    case True
    from Suc obtain j where "j \<le> pos" "os_u64_size_loop uc (Suc pos) pos = Suc j"
      "\<forall>i. j < i \<and> i \<le> pos \<longrightarrow> uc ! i = 0" "j = 0 \<or> uc ! j \<noteq> 0" by auto
    with True show ?thesis by (intro exI [of _ j]) (auto simp: le_Suc_eq)
  next
    case False
    then show ?thesis by (intro exI [of _ "Suc pos"]) auto
  qed
qed

lemma le_val_zero_iff: "le_val bs = 0 \<longleftrightarrow> (\<forall>b \<in> set bs. b = 0)"
  by (induction bs) (auto simp: unat_eq_0)

lemma le_val_ge: "i < length bs \<Longrightarrow> bs ! i \<noteq> 0 \<Longrightarrow> 256 ^ i \<le> le_val bs"
proof (induction bs arbitrary: i)
  case Nil
  then show ?case by simp
next
  case (Cons b bs)
  show ?case
  proof (cases i)
    case 0
    with Cons.prems have "unat b \<noteq> 0" by (simp add: unat_eq_0)
    with 0 show ?thesis by simp
  next
    case (Suc k)
    with Cons have "256 ^ k \<le> le_val bs" by simp
    with Suc show ?thesis by (simp add: trans_le_add2)
  qed
qed

lemma le_val_take:
  assumes "\<forall>i. n \<le> i \<and> i < length bs \<longrightarrow> bs ! i = 0"
  shows "le_val (take n bs) = le_val bs"
proof -
  have "\<forall>b \<in> set (drop n bs). b = 0" using assms by (auto simp: in_set_conv_nth)
  then have "le_val (drop n bs) = 0" by (simp only: le_val_zero_iff)
  then have "le_val (take n bs @ drop n bs) = le_val (take n bs)"
    by (simp only: le_val_append mult_0_right add_0_right)
  then show ?thesis by simp
qed

lemma le_val_bytes_le_u64: "le_val (bytes_le 8 (unat (v :: u64))) = unat v"
  using unat_u64_less [of v] by (simp add: le_val_bytes_le)

lemma os_u64_size_bounds: "1 \<le> os_u64_size v" "os_u64_size v \<le> 8"
  and os_u64_to_bstr_take: "os_u64_to_bstr v = take (os_u64_size v) (bytes_le 8 (unat v))"
  and os_u64_to_bstr_val: "le_val (os_u64_to_bstr v) = unat v"
  and os_u64_size_min: "os_u64_size v = 1 \<or> 256 ^ (os_u64_size v - 1) \<le> unat v"
proof -
  let ?uc = "bytes_le 8 (unat v)"
  have "7 < length ?uc" and e: "Suc 7 = 8" by simp_all
  from os_u64_size_loop_spec [OF this(1)] obtain j where j: "j \<le> 7"
    "os_u64_size_loop ?uc 8 7 = Suc j" "\<forall>i. j < i \<and> i \<le> 7 \<longrightarrow> ?uc ! i = 0"
    "j = 0 \<or> ?uc ! j \<noteq> 0" unfolding e by blast
  then have sz: "os_u64_size v = Suc j" by (simp add: os_u64_size_def)
  with j(1) show b: "1 \<le> os_u64_size v" "os_u64_size v \<le> 8" by simp_all
  show t: "os_u64_to_bstr v = take (os_u64_size v) ?uc"
    using b(2) by (intro nth_equalityI) (auto simp: os_u64_to_bstr_def)
  have "\<forall>i. Suc j \<le> i \<and> i < length ?uc \<longrightarrow> ?uc ! i = 0" using j(3) by simp
  then have "le_val (take (Suc j) ?uc) = le_val ?uc" by (rule le_val_take)
  with t sz show "le_val (os_u64_to_bstr v) = unat v" by (simp add: le_val_bytes_le_u64)
  show "os_u64_size v = 1 \<or> 256 ^ (os_u64_size v - 1) \<le> unat v"
    using j(4) le_val_ge [of j ?uc] j(1) by (auto simp: sz le_val_bytes_le_u64)
qed

lemma length_os_u64_to_bstr [simp]: "length (os_u64_to_bstr v) = os_u64_size v"
  by (simp add: os_u64_to_bstr_def)

lemma os_bstr_to_u64_Some:
  "b \<noteq> [] \<Longrightarrow> length b \<le> 8 \<Longrightarrow> os_bstr_to_u64 b = Some (of_nat (le_val b))"
  by (simp add: os_bstr_to_u64_def le_val_append)

lemma unat_le_val_u64: "length b \<le> 8 \<Longrightarrow> unat (of_nat (le_val b) :: u64) = le_val b"
  by (rule unat_of_nat_le_val) simp

lemma os_bstr_to_u64_iff:
  "os_bstr_to_u64 b = Some v \<longleftrightarrow> b \<noteq> [] \<and> length b \<le> 8 \<and> unat v = le_val b"
proof (cases "b \<noteq> [] \<and> length b \<le> 8")
  case True
  then have "os_bstr_to_u64 b = Some (of_nat (le_val b))" by (simp add: os_bstr_to_u64_Some)
  moreover have "(of_nat (le_val b) = v) = (unat v = le_val b)"
    using True unat_le_val_u64 [of b] by (metis word_unat_eq_iff)
  ultimately show ?thesis using True by simp
next
  case False
  then show ?thesis by (auto simp: os_bstr_to_u64_def)
qed

lemma os_u64_to_bstr_not_Nil [simp]: "os_u64_to_bstr v \<noteq> []"
  using os_u64_size_bounds(1) [of v] by (auto simp flip: length_0_conv)

lemma os_bstr_to_bstr: "os_bstr_to_u64 (os_u64_to_bstr v) = Some v"
  by (simp add: os_bstr_to_u64_iff os_u64_to_bstr_val os_u64_size_bounds)

lemma os_collate_u64_cmp:
  assumes "a \<noteq> []" "length a \<le> 8" "b \<noteq> []" "length b \<le> 8"
  shows "os_collate_u64 a b =
    Some (if le_val a > le_val b then 1 else if le_val a < le_val b then -1 else 0)"
  by (simp only: os_collate_u64_def os_bstr_to_u64_Some [OF assms(1,2)]
    os_bstr_to_u64_Some [OF assms(3,4)] word_less_nat_alt unat_le_val_u64 [OF assms(2)]
    unat_le_val_u64 [OF assms(4)] option.case prod.case)

section \<open>Binary keys: lemmas\<close>

lemma be_val_skip_zeros [simp]: "be_val (skip_zeros bs) = be_val bs"
  by (induction bs) auto

lemma skip_zeros_hd: "skip_zeros bs = b # cs \<Longrightarrow> b \<noteq> 0"
  by (induction bs) (auto split: if_splits)

lemma be_val_ge: "b \<noteq> 0 \<Longrightarrow> 256 ^ length bs \<le> be_val (b # bs)"
  by (cases "unat b") (auto simp: unat_eq_0)

lemma be_val_shorter:
  assumes "length (skip_zeros a) < length (skip_zeros b)"
  shows "be_val a < be_val b"
proof -
  obtain c cs where b: "skip_zeros b = c # cs" using assms by (cases "skip_zeros b") auto
  have "be_val a < 256 ^ length (skip_zeros a)"
    using be_val_less [of "skip_zeros a"] by simp
  also have "(256::nat) ^ length (skip_zeros a) \<le> 256 ^ length cs"
    using assms b by (simp add: power_increasing)
  also have "\<dots> \<le> be_val (c # cs)" using skip_zeros_hd [OF b] by (rule be_val_ge)
  finally show ?thesis using be_val_skip_zeros [of b] b by simp
qed

lemma be_val_cons_less:
  assumes "length as = length bs" "a < b" shows "be_val (a # as) < be_val (b # bs)"
proof -
  have "unat a + 1 \<le> unat b" using assms(2) by (simp add: word_less_nat_alt)
  then have "(unat a + 1) * 256 ^ length bs \<le> unat b * 256 ^ length bs" by (rule mult_le_mono1)
  with be_val_less [of as] assms(1) show ?thesis by (simp add: algebra_simps)
qed

lemma cmp_bytes_be_val:
  "length as = length bs \<Longrightarrow>
   cmp_bytes as bs = (if be_val as > be_val bs then 1 else if be_val as < be_val bs then -1 else 0)"
proof (induction as bs rule: cmp_bytes.induct)
  case (1 a as b bs)
  from 1 be_val_cons_less [of as bs a b] be_val_cons_less [of bs as b a] show ?case
    by (cases a b rule: linorder_cases) auto
qed auto

lemma os_collate_binary_cmp:
  assumes "a \<noteq> []" "b \<noteq> []"
  shows "os_collate_binary a b =
    Some (if be_val a > be_val b then 1 else if be_val a < be_val b then -1 else 0)"
  using assms be_val_shorter [of a b] be_val_shorter [of b a]
    cmp_bytes_be_val [of "skip_zeros a" "skip_zeros b"]
  by (cases "length (skip_zeros a)" "length (skip_zeros b)" rule: linorder_cases)
     (auto simp: os_collate_binary_def Let_def)

section \<open>The contract of a collation rule\<close>

text \<open>
  What a table relies on: on valid keys the comparison never aborts and gives the sign of the
  comparison of two values of a linear order. Everything the index code needs of the order
  follows from that once.
\<close>

locale collation =
  fixes cmp :: "'k \<Rightarrow> 'k \<Rightarrow> int option"
    and valid :: "'k \<Rightarrow> bool"
    and key :: "'k \<Rightarrow> 'o::linorder"
  assumes cmp_key: "valid a \<Longrightarrow> valid b \<Longrightarrow> cmp a b = Some (three_way (key a) (key b))"
begin

lemma cmp_total: "valid a \<Longrightarrow> valid b \<Longrightarrow> \<exists>r \<in> {-1, 0, 1}. cmp a b = Some r"
  by (simp add: cmp_key three_way_def)

lemma cmp_swap: "valid a \<Longrightarrow> valid b \<Longrightarrow> cmp b a = map_option uminus (cmp a b)"
  by (auto simp: cmp_key three_way_def)

lemma cmp_eq_iff: "valid a \<Longrightarrow> valid b \<Longrightarrow> cmp a b = Some 0 \<longleftrightarrow> key a = key b"
  by (auto simp: cmp_key three_way_def)

lemma cmp_less_trans:
  "valid a \<Longrightarrow> valid b \<Longrightarrow> valid c \<Longrightarrow> cmp a b = Some (-1) \<Longrightarrow> cmp b c = Some (-1) \<Longrightarrow>
   cmp a c = Some (-1)"
  by (auto simp: cmp_key three_way_def split: if_splits)

lemma cmp_mono:
  "valid a \<Longrightarrow> valid b \<Longrightarrow> valid c \<Longrightarrow> key a \<le> key b \<Longrightarrow> the (cmp a c) \<le> the (cmp b c)"
  by (auto simp: cmp_key three_way_def)

lemma sorted_cmp:
  assumes "sorted (map key ks)" "\<forall>k \<in> set ks. valid k" "valid c"
  shows "sorted (map (\<lambda>k. the (cmp k c)) ks)"
  using assms by (induction ks) (auto intro!: cmp_mono)

lemma cmp_strict_step:
  assumes "sorted (map key ks)" "distinct (map key ks)" "\<forall>k \<in> set ks. valid k" "valid c"
    "i < length ks" "cmp (ks ! i) c = Some 0" "j < length ks" "j \<noteq> i"
  shows "cmp (ks ! j) c = Some (if j < i then -1 else 1)"
proof -
  have v: "valid (ks ! i)" "valid (ks ! j)" using assms by auto
  have e: "key (ks ! i) = key c" using assms(4,6) v(1) by (simp add: cmp_eq_iff)
  have ne: "key (ks ! j) \<noteq> key (ks ! i)"
    using assms(2,5,7,8) by (metis length_map nth_eq_iff_index_eq nth_map)
  have "j < i \<Longrightarrow> key (ks ! j) \<le> key (ks ! i)" "i < j \<Longrightarrow> key (ks ! i) \<le> key (ks ! j)"
    using assms(1,5,7) by (auto simp: sorted_iff_nth_mono)
  with e ne assms(4,8) v show ?thesis
    by (cases j i rule: linorder_cases) (auto simp: cmp_key three_way_def)
qed

end

definition valid_u64 :: "u8 list \<Rightarrow> bool" where
  "valid_u64 b \<longleftrightarrow> b \<noteq> [] \<and> length b \<le> 8"

interpretation binary: collation os_collate_binary "\<lambda>b. b \<noteq> []" be_val
  by unfold_locales (simp add: os_collate_binary_cmp three_way_def)

interpretation u64: collation os_collate_u64 valid_u64 le_val
  by unfold_locales (simp add: os_collate_u64_cmp three_way_def valid_u64_def)

lemma less_list_nonempty: "[] < (xs :: 'a :: linorder list) \<longleftrightarrow> xs \<noteq> []"
  by (cases xs) simp_all

definition ansi_order :: "u8 list \<Rightarrow> int list" where
  "ansi_order s = map (\<lambda>c. sint (os_to_upper c)) s"

lemma os_collate_ansi_loop_order:
  "os_collate_ansi_loop a b = three_way (ansi_order a) (ansi_order b)"
  by (induction a b rule: os_collate_ansi_loop.induct) (auto simp: ansi_order_def three_way_def less_list_nonempty)

interpretation ansi: collation os_collate_ansi_string "\<lambda>s. s \<noteq> []" ansi_order
  by unfold_locales (simp add: os_collate_ansi_string_def os_collate_ansi_loop_order)

definition unicode_order :: "u16 list \<Rightarrow> u16 list" where
  "unicode_order s = map os_to_wupper s"

lemma os_collate_unicode_loop_order:
  "os_collate_unicode_loop a b = three_way (unicode_order a) (unicode_order b)"
  by (induction a b rule: os_collate_unicode_loop.induct)
     (auto simp: unicode_order_def three_way_def less_list_nonempty)

interpretation unicode: collation os_collate_unicode_string "\<lambda>s. s \<noteq> []" unicode_order
  by unfold_locales (simp add: os_collate_unicode_string_def os_collate_unicode_loop_order)

lemma be_val_inj_nonzero:
  "be_val as = be_val bs \<Longrightarrow> length as = length bs \<Longrightarrow> as = bs"
proof (induction as bs rule: cmp_bytes.induct)
  case (1 a as b bs)
  then show ?case
    using be_val_cons_less [of as bs a b] be_val_cons_less [of bs as b a]
    by (cases a b rule: linorder_cases) auto
qed auto

lemma skip_zeros_be_val: "be_val a = be_val b \<longleftrightarrow> skip_zeros a = skip_zeros b"
proof
  assume e: "be_val a = be_val b"
  then have "length (skip_zeros a) = length (skip_zeros b)"
    using be_val_shorter [of a b] be_val_shorter [of b a] by (metis linorder_neqE_nat less_irrefl)
  with e show "skip_zeros a = skip_zeros b"
    by (intro be_val_inj_nonzero) simp_all
next
  assume "skip_zeros a = skip_zeros b"
  then show "be_val a = be_val b" by (metis be_val_skip_zeros)
qed

section \<open>Extents: lemmas\<close>

lemma ivl_disjoint:
  "0 < (m::nat) \<Longrightarrow> 0 < n \<Longrightarrow> {a..<a + m} \<inter> {b..<b + n} \<noteq> {} \<longleftrightarrow> a < b + n \<and> b < a + m"
proof
  assume "{a..<a + m} \<inter> {b..<b + n} \<noteq> {}"
  then obtain x where "x \<in> {a..<a + m} \<inter> {b..<b + n}" by (metis ex_in_conv)
  then show "a < b + n \<and> b < a + m" by simp
next
  assume "0 < m" "0 < n" "a < b + n \<and> b < a + m"
  then have "max a b \<in> {a..<a + m} \<inter> {b..<b + n}" by (simp add: max_def)
  then show "{a..<a + m} \<inter> {b..<b + n} \<noteq> {}" by (metis empty_iff)
qed

lemma ivl_before:
  assumes "0 < (m::nat)" "0 < n"
  shows "(\<forall>x \<in> {a..<a + m}. \<forall>y \<in> {b..<b + n}. x < y) \<longleftrightarrow> a + m \<le> b"
proof
  assume h: "\<forall>x \<in> {a..<a + m}. \<forall>y \<in> {b..<b + n}. x < y"
  have "a + (m - 1) \<in> {a..<a + m}" "b \<in> {b..<b + n}" using assms by simp_all
  with h have "a + (m - 1) < b" by blast
  with assms show "a + m \<le> b" by simp
next
  assume "a + m \<le> b"
  then show "\<forall>x \<in> {a..<a + m}. \<forall>y \<in> {b..<b + n}. x < y" by simp
qed

lemma os_extent_pair_roundtrip:
  "os_extent_pair_to_extent (os_extent_to_extent_pair pa len) pa0 =
   Some (len, if len = 0 then pa0 else pa)"
proof (cases "len = 0")
  case True
  then show ?thesis by (simp add: os_extent_to_extent_pair_def os_extent_pair_to_extent_def byte_at_def)
next
  case False
  have n: "unat (of_nat (os_u64_size pa) :: u8) = os_u64_size pa"
    using os_u64_size_bounds [of pa] by (simp add: unat_of_nat)
  have l: "os_u64_size len > 0" using os_u64_size_bounds [of len] by simp
  from False n l show ?thesis
    by (simp add: os_extent_to_extent_pair_def os_extent_pair_to_extent_def byte_at_def Let_def
      os_bstr_to_bstr)
qed

definition ext_set :: "u8 list \<times> u8 list \<Rightarrow> nat set" where
  "ext_set e = {le_val (fst e) ..< le_val (fst e) + le_val (snd e)}"

definition valid_ext :: "u8 list \<times> u8 list \<Rightarrow> bool" where
  "valid_ext e \<longleftrightarrow> valid_u64 (fst e) \<and> valid_u64 (snd e) \<and> le_val (snd e) > 0 \<and>
     le_val (fst e) + le_val (snd e) < 2 ^ 64"

lemma unat_plus_le_val:
  assumes "length a \<le> 8" "length b \<le> 8" "le_val a + le_val b < 2 ^ 64"
  shows "unat (of_nat (le_val a) + of_nat (le_val b) :: u64) = le_val a + le_val b"
proof -
  have "(of_nat (le_val a) + of_nat (le_val b) :: u64) = of_nat (le_val a + le_val b)" by simp
  moreover have "unat (of_nat (le_val a + le_val b) :: u64) = le_val a + le_val b"
    using assms(3) by (simp only: unat_of_nat) simp
  ultimately show ?thesis by simp
qed

lemma os_collate_extent_cmp:
  assumes "valid_ext (k1, v1)" "valid_ext (k2, v2)"
  shows "os_collate_extent k1 v1 k2 v2 =
    Some (if le_val k1 \<ge> le_val k2 + le_val v2 then 1
          else if le_val k1 + le_val v1 \<le> le_val k2 then -1 else 0)"
proof -
  have v: "k1 \<noteq> []" "v1 \<noteq> []" "k2 \<noteq> []" "v2 \<noteq> []"
    "length k1 \<le> 8" "length v1 \<le> 8" "length k2 \<le> 8" "length v2 \<le> 8"
    "le_val k1 + le_val v1 < 2 ^ 64" "le_val k2 + le_val v2 < 2 ^ 64"
    using assms by (simp_all add: valid_ext_def valid_u64_def)
  from v show ?thesis
    by (simp only: os_collate_extent_def os_bstr_to_u64_Some word_le_nat_alt unat_plus_le_val
      unat_le_val_u64 option.case prod.case simp_thms if_False not_False_eq_True)
qed

section \<open>Properties\<close>

text \<open>Writing a 64 bit integer as a shortest little endian string and reading it back gives
  the integer; the string has 1 to 8 bytes and no shorter one holds the value, so the test for size 0
  at the end of \<open>os_u64_size\<close> never fires.\<close>

theorem u64_bstr_roundtrip:
  "os_bstr_to_u64 (os_u64_to_bstr v) = Some v \<and>
   length (os_u64_to_bstr v) = os_u64_size v \<and> os_u64_size v \<in> {1..8} \<and>
   unat v < 256 ^ os_u64_size v \<and>
   (os_u64_size v = 1 \<or> 256 ^ (os_u64_size v - 1) \<le> unat v)"
  using os_bstr_to_bstr [of v] os_u64_size_bounds [of v] os_u64_size_min [of v]
    le_val_less [of "os_u64_to_bstr v"] by (simp add: os_u64_to_bstr_val)

text \<open>The integer rule orders keys by value, whatever their number of bytes: the entry stored
  under the shortest string of an object id is found with the full 8 byte image of that id as key, and
  two ids compare as the unsigned numbers they are. It never aborts on such keys.\<close>

theorem collate_u64_numeric:
  "collate_key 3 (os_u64_to_bstr x) ev (bytes_le 8 (unat y)) v =
   Some (if x > y then 1 else if x < y then -1 else 0)"
proof -
  have "valid_u64 (os_u64_to_bstr x)" "valid_u64 (bytes_le 8 (unat y))"
    using os_u64_size_bounds [of x] by (auto simp: valid_u64_def simp flip: length_greater_0_conv)
  from u64.cmp_key [OF this] show ?thesis
    by (auto simp: collate_key_def collate_rule_of_def three_way_def os_u64_to_bstr_val
      le_val_bytes_le_u64 word_less_nat_alt simp flip: length_0_conv)
qed

text \<open>The binary rule orders non-empty keys by their big endian value: it is 0 exactly for keys
  that differ in leading zero bytes only, antisymmetric and transitive.\<close>

theorem collate_binary_order:
  assumes "a \<noteq> []" "b \<noteq> []" "c \<noteq> []"
  shows "collate_key 0 a va b vb =
      Some (if be_val a > be_val b then 1 else if be_val a < be_val b then -1 else 0) \<and>
    (collate_key 0 a va b vb = Some 0 \<longleftrightarrow> skip_zeros a = skip_zeros b) \<and>
    (collate_key 0 a va b vb = Some (-1) \<and> collate_key 0 b vb c vc = Some (-1) \<longrightarrow>
      collate_key 0 a va c vc = Some (-1))"
proof -
  have k: "collate_key 0 x vx y vy = os_collate_binary x y" if "y \<noteq> []" for x vx y vy
    using that by (simp add: collate_key_def collate_rule_of_def)
  show ?thesis
    using binary.cmp_key [OF assms(1,2)] binary.cmp_eq_iff [OF assms(1,2)]
      binary.cmp_less_trans [OF assms] skip_zeros_be_val [of a b]
    by (simp add: k assms three_way_def)
qed

theorem collate_binary_order_witness:
  "collate_key 0 [0, 1] [] [2] [] = Some (-1) \<and> collate_key 0 [2] [] [1, 0] [] = Some (-1) \<and>
   collate_key 0 [0, 1] [] [1, 0] [] = Some (-1)"
proof -
  have n: "[0, 1 :: u8] \<noteq> []" "[2 :: u8] \<noteq> []" "[1, 0 :: u8] \<noteq> []" by simp_all
  have 1: "collate_key 0 [0, 1] [] [2] [] = Some (-1)"
    using collate_binary_order [OF n, of "[]" "[]"] by simp
  have 2: "collate_key 0 [2] [] [1, 0] [] = Some (-1)"
    using collate_binary_order [OF n(2,3,1), of "[]" "[]"] by simp
  from collate_binary_order [OF n, of "[]" "[]" "[]"] 1 2 show ?thesis by blast
qed

text \<open>The string rule compares case-insensitively: two non-empty names compare equal exactly when
  their upper case forms are equal, and otherwise as the lexicographic order of the (signed) upper case
  characters says.\<close>

theorem collate_ansi_case_insensitive:
  assumes "a \<noteq> []" "b \<noteq> []"
  shows "collate_key 1 a va b vb =
    Some (if map os_to_upper a = map os_to_upper b then 0
          else if map (sint \<circ> os_to_upper) a > map (sint \<circ> os_to_upper) b then 1 else -1)"
proof -
  have i: "map (sint \<circ> os_to_upper) a = map (sint \<circ> os_to_upper) b \<longleftrightarrow>
      map os_to_upper a = map os_to_upper b"
    using inj_map_eq_map [of "sint :: u8 \<Rightarrow> int" "map os_to_upper a" "map os_to_upper b"]
      inj_onI [of UNIV "sint :: u8 \<Rightarrow> int", OF signed_word_eqI] by simp
  have o: "ansi_order x = map (sint \<circ> os_to_upper) x" for x
    by (simp add: ansi_order_def comp_def)
  from ansi.cmp_key [OF assms] i assms show ?thesis
    by (auto simp: collate_key_def collate_rule_of_def three_way_def o)
qed

theorem collate_ansi_case_insensitive_witness:
  "collate_key 1 [65, 98] [] [97, 66] [] = Some 0"
  using collate_ansi_case_insensitive [of "[65, 98]" "[97, 66]" "[]" "[]"]
  by (simp add: os_to_upper_def)

text \<open>The extent rule compares two free extents (start block as key, length as value, not wrapping
  around 64 bits) by position: 0 exactly when they share a block, 1 when the entry lies behind the
  searched extent, -1 when it lies before it.\<close>

theorem collate_extent_overlap:
  assumes "valid_ext (k1, v1)" "valid_ext (k2, v2)"
  shows "(collate_key 4 k1 v1 k2 v2 = Some 0 \<longleftrightarrow> ext_set (k1, v1) \<inter> ext_set (k2, v2) \<noteq> {}) \<and>
    (collate_key 4 k1 v1 k2 v2 = Some 1 \<longleftrightarrow>
      (\<forall>x \<in> ext_set (k1, v1). \<forall>y \<in> ext_set (k2, v2). y < x)) \<and>
    (collate_key 4 k1 v1 k2 v2 = Some (-1) \<longleftrightarrow>
      (\<forall>x \<in> ext_set (k1, v1). \<forall>y \<in> ext_set (k2, v2). x < y))"
proof -
  have p: "le_val v1 > 0" "le_val v2 > 0" using assms by (simp_all add: valid_ext_def)
  have "k2 \<noteq> []" using assms by (simp add: valid_ext_def valid_u64_def)
  then have c: "collate_key 4 k1 v1 k2 v2 = os_collate_extent k1 v1 k2 v2"
    by (simp add: collate_key_def collate_rule_of_def)
  have r: "(\<forall>x \<in> A. \<forall>y \<in> B. y < x) \<longleftrightarrow> (\<forall>y \<in> B. \<forall>x \<in> A. y < x)" for A B :: "nat set" by blast
  show ?thesis
    by (simp only: c os_collate_extent_cmp [OF assms] ext_set_def fst_conv snd_conv
      ivl_disjoint [OF p] ivl_before [OF p] ivl_before [OF p(2) p(1)] r) (use p in auto)
qed

theorem collate_extent_overlap_witness:
  "collate_key 4 [10] [5] [12] [1] = Some 0 \<and>
   ext_set ([10], [5]) \<inter> ext_set ([12], [1]) \<noteq> {}"
proof -
  have v: "valid_ext ([10], [5])" "valid_ext ([12], [1])"
    by (simp_all add: valid_ext_def valid_u64_def)
  have "12 \<in> ext_set ([10], [5]) \<inter> ext_set ([12], [1])" by (simp add: ext_set_def)
  then show ?thesis using collate_extent_overlap [OF v] by blast
qed

text \<open>An extent (physical start and length) survives the encoding into the value of an extent map
  entry; a zero length is encoded as the empty value, which decodes to length 0 and leaves the start as
  it was.\<close>

theorem extent_pair_roundtrip:
  "os_extent_pair_to_extent (os_extent_to_extent_pair pa len) pa0 =
   Some (len, if len = 0 then pa0 else pa)"
  by (rule os_extent_pair_roundtrip)

end
