(* ===== verification/BlockRw.thy ===== *)
theory BlockRw
  imports OfsPrelude
begin

text \<open>
  Block I/O: the user space file layer (\<open>public/file_if.c\<close>, the branch without \<open>__KERNEL__\<close>,
  and \<open>public/disk_if.h\<close>), the block helpers of \<open>include/ofs_block.h\<close> and the integrity checked
  reads and writes of \<open>object_system/ofs_block_rw.c\<close>: fixup blocks and the ping-pong block that
  holds the last versions of the super block. Blocks are raw bytes in a buffer, exactly the packed
  structs of \<open>include/ofs_layout.h\<close>. Pointers passed by the caller are not NULL here; every other
  guard of the code is a branch.
\<close>

section \<open>Files and disks\<close>

text \<open>
  What the C library does is an argument of each call: \<open>io_malloc\<close> and \<open>io_seek\<close> say whether
  \<open>malloc\<close> and \<open>fseeko\<close> succeed, \<open>io_xfer\<close> how many bytes \<open>fwrite\<close> or \<open>fread\<close> move
  at most. \<open>fseeko\<close> takes a signed offset and refuses a negative one. A file is its size and its
  bytes; bytes between the old end and a later write read as zero. \<open>fwrite\<close> is unbuffered here: what it
  takes is in the file at once, while the code (its \<open>fflush\<close> is a comment) leaves it to the C library when
  the bytes go to the operating system. The file is the one this layer shows, not the disk below it.
\<close>

record io =
  io_malloc :: bool
  io_seek :: bool
  io_xfer :: nat

definition io_ok :: io where
  "io_ok = \<lparr> io_malloc = True, io_seek = True, io_xfer = 2 ^ 32 \<rparr>"

record ofile =
  fsize :: nat
  fbytes :: buf

definition os_file_seek :: "io \<Rightarrow> u64 \<Rightarrow> bool" where
  "os_file_seek io offset = (io_seek io \<and> unat offset < 2 ^ 63)"

definition os_file_write :: "io \<Rightarrow> ofile \<Rightarrow> u8 list \<Rightarrow> nat \<Rightarrow> nat \<times> ofile" where
  "os_file_write io f bs pos =
     (let bs = take (io_xfer io) bs; n = length bs
      in if n = 0 then (0, f)
         else (n, \<lparr> fsize = max (fsize f) (pos + n),
                    fbytes = wr (\<lambda>i. if fsize f \<le> i then 0 else fbytes f i) pos bs \<rparr>))"

definition os_file_read :: "io \<Rightarrow> ofile \<Rightarrow> nat \<Rightarrow> nat \<Rightarrow> u8 list" where
  "os_file_read io f sz pos = rd (fbytes f) pos (min (min sz (io_xfer io)) (fsize f - pos))"

definition os_file_pwrite :: "io \<Rightarrow> ofile \<Rightarrow> u8 list \<Rightarrow> u64 \<Rightarrow> (ofs_err + nat) \<times> ofile" where
  "os_file_pwrite io f bs offset =
     (if bs = [] then (Inl FILE_IO_ERR_INVALID_PARA, f)
      else if \<not> os_file_seek io offset then (Inl FILE_IO_ERR_SEEK, f)
      else let (n, f') = os_file_write io f bs (unat offset) in (Inr n, f'))"

definition os_file_pread :: "io \<Rightarrow> ofile \<Rightarrow> nat \<Rightarrow> u64 \<Rightarrow> ofs_err + u8 list" where
  "os_file_pread io f sz offset =
     (if sz = 0 then Inl FILE_IO_ERR_INVALID_PARA
      else if \<not> os_file_seek io offset then Inl FILE_IO_ERR_SEEK
      else Inr (os_file_read io f sz (unat offset)))"

text \<open>\<open>os_disk_pwrite\<close> and \<open>os_disk_pread\<close> shift the sector address by \<open>BYTES_PER_SECTOR_SHIFT\<close>.\<close>

definition os_disk_pwrite :: "io \<Rightarrow> ofile \<Rightarrow> u8 list \<Rightarrow> u64 \<Rightarrow> (ofs_err + nat) \<times> ofile" where
  "os_disk_pwrite io f bs start_lba = os_file_pwrite io f bs (push_bit 9 start_lba)"

definition os_disk_pread :: "io \<Rightarrow> ofile \<Rightarrow> nat \<Rightarrow> u64 \<Rightarrow> ofs_err + u8 list" where
  "os_disk_pread io f sz start_lba = os_file_pread io f sz (push_bit 9 start_lba)"

section \<open>Blocks of a container\<close>

text \<open>The fields of the container handle block I/O uses.\<close>

record disk_ct =
  dc_disk :: ofile
  dc_block_size :: u32
  dc_sectors_per_block :: u32

definition ofs_update_block ::
  "io \<Rightarrow> disk_ct \<Rightarrow> u8 list \<Rightarrow> u32 \<Rightarrow> u64 \<Rightarrow> ((ofs_err + nat) \<times> disk_ct) option" where
  "ofs_update_block io ct bs start_lba vbn =
     (if bs = [] then None
      else let (r, f) = os_disk_pwrite io (dc_disk ct) bs
                          (ucast start_lba + vbn * ucast (dc_sectors_per_block ct))
           in Some (r, ct\<lparr> dc_disk := f \<rparr>))"

definition ofs_read_block ::
  "io \<Rightarrow> disk_ct \<Rightarrow> nat \<Rightarrow> u32 \<Rightarrow> u64 \<Rightarrow> (ofs_err + u8 list) option" where
  "ofs_read_block io ct sz start_lba vbn =
     (if sz = 0 then None
      else Some (os_disk_pread io (dc_disk ct) sz
                   (ucast start_lba + vbn * ucast (dc_sectors_per_block ct))))"

section \<open>Block headers\<close>

text \<open>The fields of \<open>block_head_t\<close> at offset \<open>p\<close> of a buffer.\<close>

definition bh_blk_id :: "buf \<Rightarrow> nat \<Rightarrow> u32" where "bh_blk_id m p = get32 m p"
definition bh_alloc_size :: "buf \<Rightarrow> nat \<Rightarrow> u32" where "bh_alloc_size m p = get32 m (p + 4)"
definition bh_real_size :: "buf \<Rightarrow> nat \<Rightarrow> u32" where "bh_real_size m p = get32 m (p + 8)"
definition bh_seq_no :: "buf \<Rightarrow> nat \<Rightarrow> u16" where "bh_seq_no m p = get16 m (p + 12)"
definition bh_fixup :: "buf \<Rightarrow> nat \<Rightarrow> u16" where "bh_fixup m p = get16 m (p + 14)"

text \<open>The last two bytes of the block; those of a block of less than two bytes are outside of it: \<open>None\<close>.\<close>

definition foot_off :: "buf \<Rightarrow> nat \<Rightarrow> nat" where
  "foot_off m p = p + unat (bh_alloc_size m p) - 2"

definition assemble_block :: "buf \<Rightarrow> nat \<Rightarrow> buf option" where
  "assemble_block m p =
     (if bh_alloc_size m p < bh_real_size m p \<or> unat (bh_alloc_size m p) < 2 then None
      else let foot = foot_off m p;
               m = put16 m (p + 14) (get16 m foot)
           in Some (put16 m foot (bh_seq_no m p)))"

definition fixup_block :: "buf \<Rightarrow> nat \<Rightarrow> ((ofs_err + unit) \<times> buf) option" where
  "fixup_block m p =
     (if bh_alloc_size m p < bh_real_size m p \<or> unat (bh_alloc_size m p) < 2 then None
      else let foot = foot_off m p
           in if get16 m foot = bh_seq_no m p then
                let m = put16 m foot (bh_fixup m p)
                in Some (Inr (), put16 m (p + 12) (bh_seq_no m p + 1))
              else Some (Inl FILE_BLOCK_ERR_INVALID_OBJECT, m))"

definition verify_block :: "buf \<Rightarrow> nat \<Rightarrow> u32 \<Rightarrow> u32 \<Rightarrow> (ofs_err + unit) option" where
  "verify_block m p blk_id alloc_size =
     (if blk_id = 0 \<or> alloc_size = 0 then None
      else if bh_blk_id m p \<noteq> blk_id then Some (Inl FILE_BLOCK_ERR_INVALID_OBJECT)
      else if bh_alloc_size m p \<noteq> alloc_size then Some (Inl FILE_BLOCK_ERR_INVALID_OBJECT)
      else if bh_real_size m p > bh_alloc_size m p \<or> bh_real_size m p < 16
      then Some (Inl FILE_BLOCK_ERR_INVALID_OBJECT)
      else Some (Inr ()))"

section \<open>Fixup blocks\<close>

text \<open>The block is a buffer of its own; the result is the return code, the block and the container.\<close>

definition ofs_update_block_fixup ::
  "io \<Rightarrow> disk_ct \<Rightarrow> buf \<Rightarrow> u64 \<Rightarrow> ((ofs_err + nat) \<times> buf \<times> disk_ct) option" where
  "ofs_update_block_fixup io ct m vbn =
     (case assemble_block m 0 of None \<Rightarrow> None | Some m \<Rightarrow>
      case ofs_update_block io ct (rd m 0 (unat (bh_alloc_size m 0))) 0 vbn of
        None \<Rightarrow> None
      | Some (ret, ct) \<Rightarrow>
          (case fixup_block m 0 of None \<Rightarrow> None
           | Some (Inl ret2, m) \<Rightarrow> Some (Inl ret2, m, ct)
           | Some (Inr _, m) \<Rightarrow> Some (ret, m, ct)))"

definition ofs_read_block_fixup ::
  "io \<Rightarrow> disk_ct \<Rightarrow> buf \<Rightarrow> u64 \<Rightarrow> u32 \<Rightarrow> u32 \<Rightarrow> ((ofs_err + unit) \<times> buf) option" where
  "ofs_read_block_fixup io ct m vbn blk_id alloc_size =
     (case ofs_read_block io ct (unat alloc_size) 0 vbn of
        None \<Rightarrow> None
      | Some (Inl ret) \<Rightarrow> Some (Inl ret, m)
      | Some (Inr bs) \<Rightarrow>
          let m = wr m 0 bs
          in case verify_block m 0 blk_id alloc_size of
               None \<Rightarrow> None
             | Some (Inl ret) \<Rightarrow> Some (Inl ret, m)
             | Some (Inr _) \<Rightarrow> fixup_block m 0)"

section \<open>Ping-pong blocks\<close>

definition check_block :: "disk_ct \<Rightarrow> buf \<Rightarrow> ofs_err + unit" where
  "check_block ct m =
     (if bh_real_size m 0 > bh_alloc_size m 0 \<or> bh_alloc_size m 0 > dc_block_size ct
      then Inl FILE_BLOCK_ERR_INVALID_OBJECT else Inr ())"

text \<open>The byte offset of the version to write; a zero \<open>alloc_size\<close> divides by zero.\<close>

definition pingpong_off :: "disk_ct \<Rightarrow> buf \<Rightarrow> u32 option" where
  "pingpong_off ct m =
     (if bh_alloc_size m 0 = 0 then None
      else Some (bh_alloc_size m 0 *
                 (ucast (bh_seq_no m 0) mod (dc_block_size ct div bh_alloc_size m 0))))"

definition ofs_update_block_pingpong_init ::
  "io \<Rightarrow> disk_ct \<Rightarrow> buf \<Rightarrow> u64 \<Rightarrow> ((ofs_err + unit) \<times> buf \<times> disk_ct) option" where
  "ofs_update_block_pingpong_init io ct m vbn =
     (case check_block ct m of Inl ret \<Rightarrow> Some (Inl ret, m, ct) | Inr _ \<Rightarrow>
      if \<not> io_malloc io then Some (Inl BLOCK_ERR_ALLOCATE_MEMORY, m, ct)
      else case assemble_block m 0 of None \<Rightarrow> None | Some m \<Rightarrow>
      case pingpong_off ct m of None \<Rightarrow> None | Some off \<Rightarrow>
      let b = wr (\<lambda>_. 0) (unat off) (rd m 0 (unat (bh_real_size m 0)))
      in case ofs_update_block io ct (rd b 0 (unat (dc_block_size ct))) 0 vbn of
        None \<Rightarrow> None
      | Some (ret, ct) \<Rightarrow>
          (case fixup_block m 0 of None \<Rightarrow> None
           | Some (Inl ret2, m) \<Rightarrow> Some (Inl ret2, m, ct)
           | Some (Inr _, m) \<Rightarrow>
               if ret \<noteq> Inr (unat (dc_block_size ct)) then Some (Inl BLOCK_ERR_WRITE, m, ct)
               else Some (Inr (), m, ct)))"

definition ofs_update_block_pingpong ::
  "io \<Rightarrow> disk_ct \<Rightarrow> buf \<Rightarrow> u64 \<Rightarrow> ((ofs_err + unit) \<times> buf \<times> disk_ct) option" where
  "ofs_update_block_pingpong io ct m vbn =
     (case check_block ct m of Inl ret \<Rightarrow> Some (Inl ret, m, ct) | Inr _ \<Rightarrow>
      case assemble_block m 0 of None \<Rightarrow> None | Some m \<Rightarrow>
      case pingpong_off ct m of None \<Rightarrow> None | Some off \<Rightarrow>
      case ofs_update_block io ct (rd m 0 (unat (bh_alloc_size m 0))) (drop_bit 9 off) vbn of
        None \<Rightarrow> None
      | Some (ret, ct) \<Rightarrow>
          (case fixup_block m 0 of None \<Rightarrow> None
           | Some (Inl ret2, m) \<Rightarrow> Some (Inl ret2, m, ct)
           | Some (Inr _, m) \<Rightarrow>
               if ret \<noteq> Inr (unat (bh_alloc_size m 0)) then Some (Inl BLOCK_ERR_WRITE, m, ct)
               else Some (Inr (), m, ct)))"

text \<open>
  \<open>get_last_correct_block\<close>: the first loop looks for the newest version, \<open>n\<close> slots being left at
  slot \<open>i\<close>; the second one goes back from it, at most \<open>cnt\<close> times, until a version is intact.
  \<open>prev_seq_no + 1\<close> is computed in \<open>int\<close>, so it does not wrap. Slot offsets are \<open>uint32_t\<close>.
\<close>

definition slot_off :: "u32 \<Rightarrow> nat \<Rightarrow> nat" where
  "slot_off alloc_size i = unat (alloc_size * of_nat i)"

fun newest_slot :: "buf \<Rightarrow> u32 \<Rightarrow> nat \<Rightarrow> nat \<Rightarrow> u16 \<Rightarrow> nat \<Rightarrow> nat" where
  "newest_slot m alloc_size 0 i prev_seq_no prev_i = prev_i"
| "newest_slot m alloc_size (Suc n) i prev_seq_no prev_i =
     (let p = slot_off alloc_size i
      in if bh_blk_id m p = 0 then prev_i
         else if i \<noteq> 0 \<and> unat prev_seq_no + 1 \<noteq> unat (bh_seq_no m p) then prev_i
         else newest_slot m alloc_size n (i + 1) (bh_seq_no m p) i)"

fun intact_slot ::
  "buf \<Rightarrow> u32 \<Rightarrow> u32 \<Rightarrow> nat \<Rightarrow> nat \<Rightarrow> nat \<Rightarrow> (nat option \<times> buf) option" where
  "intact_slot m blk_id alloc_size cnt 0 prev_i = Some (None, m)"
| "intact_slot m blk_id alloc_size cnt (Suc n) prev_i =
     (let p = slot_off alloc_size prev_i;
          next_i = (if prev_i = 0 then cnt else prev_i) - 1
      in if bh_blk_id m p = 0 then Some (None, m)
         else case verify_block m p blk_id alloc_size of
                None \<Rightarrow> None
              | Some (Inl _) \<Rightarrow> intact_slot m blk_id alloc_size cnt n next_i
              | Some (Inr _) \<Rightarrow>
                  (case fixup_block m p of
                     None \<Rightarrow> None
                   | Some (Inr _, m') \<Rightarrow> Some (Some p, m')
                   | Some (Inl _, m') \<Rightarrow> intact_slot m' blk_id alloc_size cnt n next_i))"

definition get_last_correct_block ::
  "buf \<Rightarrow> u32 \<Rightarrow> u32 \<Rightarrow> nat \<Rightarrow> (nat option \<times> buf) option" where
  "get_last_correct_block m blk_id alloc_size cnt =
     (if alloc_size = 0 then None
      else intact_slot m blk_id alloc_size cnt cnt (newest_slot m alloc_size cnt 0 0 0))"

text \<open>\<open>junk\<close> is what the freshly allocated buffer holds; a short read leaves some of it.\<close>

definition ofs_read_block_pingpong ::
  "io \<Rightarrow> buf \<Rightarrow> disk_ct \<Rightarrow> buf \<Rightarrow> u64 \<Rightarrow> u32 \<Rightarrow> u32 \<Rightarrow> ((ofs_err + unit) \<times> buf) option" where
  "ofs_read_block_pingpong io junk ct m vbn blk_id alloc_size =
     (if alloc_size = 0 then Some (Inl BLOCK_ERR_PARAMETER, m)
      else if dc_block_size ct < alloc_size then Some (Inl FILE_BLOCK_ERR_INVALID_OBJECT, m)
      else if \<not> io_malloc io then Some (Inl BLOCK_ERR_ALLOCATE_MEMORY, m)
      else case ofs_read_block io ct (unat (dc_block_size ct)) 0 vbn of
        None \<Rightarrow> None
      | Some (Inl ret) \<Rightarrow> Some (Inl ret, m)
      | Some (Inr bs) \<Rightarrow>
          (case get_last_correct_block (wr junk 0 bs) blk_id alloc_size
                  (unat (dc_block_size ct div alloc_size)) of
             None \<Rightarrow> None
           | Some (None, _) \<Rightarrow> Some (Inl FILE_BLOCK_ERR_INVALID_OBJECT, m)
           | Some (Some p, b) \<Rightarrow>
               if alloc_size < bh_real_size b p then None
               else Some (Inr (), wr m 0 (rd b p (unat (bh_real_size b p))))))"

definition ofs_update_super_block :: "io \<Rightarrow> disk_ct \<Rightarrow> buf \<Rightarrow> ((ofs_err + unit) \<times> buf \<times> disk_ct) option" where
  "ofs_update_super_block io ct sb = ofs_update_block_pingpong io ct sb 0"

definition ofs_read_super_block :: "io \<Rightarrow> buf \<Rightarrow> disk_ct \<Rightarrow> buf \<Rightarrow> ((ofs_err + unit) \<times> buf) option" where
  "ofs_read_super_block io junk ct sb = ofs_read_block_pingpong io junk ct sb 0 0x4B4C4253 512"

definition ofs_init_super_block :: "io \<Rightarrow> disk_ct \<Rightarrow> buf \<Rightarrow> ((ofs_err + unit) \<times> buf \<times> disk_ct) option" where
  "ofs_init_super_block io ct sb = ofs_update_block_pingpong_init io ct sb 0"

section \<open>Fixup: lemmas\<close>

text \<open>The block at \<open>p\<close> has room for its foot behind the header.\<close>

definition wf_block :: "buf \<Rightarrow> nat \<Rightarrow> bool" where
  "wf_block m p \<longleftrightarrow> bh_real_size m p \<le> bh_alloc_size m p \<and> 18 \<le> unat (bh_alloc_size m p)"

lemmas bh_defs = bh_blk_id_def bh_alloc_size_def bh_real_size_def bh_seq_no_def bh_fixup_def

lemma assemble_block_Some:
  assumes "wf_block m p"
  shows "assemble_block m p =
    Some (put16 (put16 m (p + 14) (get16 m (foot_off m p))) (foot_off m p) (bh_seq_no m p))"
proof -
  have "bh_seq_no (put16 m (p + 14) v) p = bh_seq_no m p" for v
    by (simp add: bh_defs buf_simps)
  then show ?thesis using assms by (simp add: assemble_block_def wf_block_def Let_def not_less)
qed

lemma foot_off_ge: "wf_block m p \<Longrightarrow> p + 16 \<le> foot_off m p"
  unfolding foot_off_def wf_block_def by linarith

lemma assemble_block_fields:
  assumes "wf_block m p" "assemble_block m p = Some m1"
  shows "bh_blk_id m1 p = bh_blk_id m p" "bh_alloc_size m1 p = bh_alloc_size m p"
    "bh_real_size m1 p = bh_real_size m p" "bh_seq_no m1 p = bh_seq_no m p"
    "foot_off m1 p = foot_off m p" "bh_fixup m1 p = get16 m (foot_off m p)"
    "get16 m1 (foot_off m p) = bh_seq_no m p"
    "i < p + 14 \<or> p + 16 \<le> i \<and> i < foot_off m p \<or> foot_off m p + 2 \<le> i \<Longrightarrow> m1 i = m i"
  using assms foot_off_ge [OF assms(1)]
  by (auto simp: assemble_block_Some foot_off_def bh_defs buf_simps put16_out)

lemma fixup_assembled:
  assumes "wf_block m p" "assemble_block m p = Some m1"
  shows "\<exists>m2. fixup_block m1 p = Some (Inr (), m2) \<and> bh_seq_no m2 p = bh_seq_no m p + 1 \<and>
    (\<forall>i. i < p + 12 \<or> p + 16 \<le> i \<longrightarrow> m2 i = m i)"
proof -
  note f = assemble_block_fields [OF assms]
  let ?x = "put16 m1 (foot_off m p) (get16 m (foot_off m p))"
  let ?m2 = "put16 ?x (p + 12) (bh_seq_no m p + 1)"
  have s: "bh_seq_no ?x p = bh_seq_no m p"
    using foot_off_ge [OF assms(1)] f(4) by (simp add: bh_defs buf_simps)
  have "fixup_block m1 p = Some (Inr (), ?m2)"
    using assms(1) s by (simp add: fixup_block_def f wf_block_def Let_def not_less)
  moreover have "bh_seq_no ?m2 p = bh_seq_no m p + 1" by (simp add: bh_defs buf_simps)
  moreover have "?m2 i = m i" if i: "i < p + 12 \<or> p + 16 \<le> i" for i
  proof (cases "foot_off m p \<le> i \<and> i < foot_off m p + 2")
    case True
    have "?m2 i = put16 m (foot_off m p) (get16 m (foot_off m p)) i"
      using True i foot_off_ge [OF assms(1)]
      by (subst put16_out) (auto simp: put16_def wr_def)
    then show ?thesis by simp
  next
    case False
    with i f(8) [of i] foot_off_ge [OF assms(1)] show ?thesis
      by (auto simp: put16_out)
  qed
  ultimately show ?thesis by blast
qed

lemma fixup_intact:
  assumes "wf_block m p" "get16 m (foot_off m p) = bh_seq_no m p"
  shows "\<exists>m2. fixup_block m p = Some (Inr (), m2) \<and> bh_seq_no m2 p = bh_seq_no m p + 1 \<and>
    rd m2 (foot_off m p) 2 = rd m (p + 14) 2 \<and>
    (\<forall>i. (i < p + 12 \<or> p + 16 \<le> i) \<and> (i < foot_off m p \<or> foot_off m p + 2 \<le> i) \<longrightarrow> m2 i = m i)"
proof -
  let ?x = "put16 m (foot_off m p) (bh_fixup m p)"
  let ?m2 = "put16 ?x (p + 12) (bh_seq_no m p + 1)"
  note g = foot_off_ge [OF assms(1)]
  have s: "bh_seq_no ?x p = bh_seq_no m p" using g by (simp add: bh_defs buf_simps)
  have "fixup_block m p = Some (Inr (), ?m2)"
    using assms s by (simp add: fixup_block_def wf_block_def Let_def not_less)
  moreover have "bh_seq_no ?m2 p = bh_seq_no m p + 1" by (simp add: bh_defs buf_simps)
  moreover have "get16 ?m2 (foot_off m p) = get16 m (p + 14)"
    using g by (simp add: bh_defs buf_simps)
  then have "rd ?m2 (foot_off m p) 2 = rd m (p + 14) 2" by (simp only: get16_inject)
  moreover have "?m2 i = m i"
    if "(i < p + 12 \<or> p + 16 \<le> i) \<and> (i < foot_off m p \<or> foot_off m p + 2 \<le> i)" for i
    using that by (auto simp: put16_out)
  ultimately show ?thesis by blast
qed

lemma fixup_torn:
  assumes "wf_block m p" "get16 m (foot_off m p) \<noteq> bh_seq_no m p"
  shows "fixup_block m p = Some (Inl FILE_BLOCK_ERR_INVALID_OBJECT, m)"
  using assms by (simp add: fixup_block_def wf_block_def Let_def not_less)

section \<open>Files: lemmas\<close>

lemma os_file_write_bytes:
  assumes "os_file_write io f bs pos = (n, f')"
  shows "n = min (length bs) (io_xfer io)" "fsize f \<le> fsize f'"
    "n \<noteq> 0 \<Longrightarrow> pos + n \<le> fsize f'"
    "i < n \<Longrightarrow> fbytes f' (pos + i) = bs ! i"
    "j < fsize f \<Longrightarrow> j < pos \<or> pos + n \<le> j \<Longrightarrow> fbytes f' j = fbytes f j"
  using assms by (auto simp: os_file_write_def Let_def wr_def split: if_splits)

lemma os_disk_pwrite_Inr:
  assumes "io_seek io" "unat (push_bit 9 lba :: u64) < 2 ^ 63" "bs \<noteq> []"
  shows "os_disk_pwrite io f bs lba =
    (let (n, f') = os_file_write io f bs (unat (push_bit 9 lba)) in (Inr n, f'))"
  using assms by (simp add: os_disk_pwrite_def os_file_pwrite_def os_file_seek_def)

lemma os_disk_pread_Inr:
  assumes "io_seek io" "unat (push_bit 9 lba :: u64) < 2 ^ 63" "sz \<noteq> 0"
    "sz \<le> io_xfer io" "unat (push_bit 9 lba) + sz \<le> fsize f"
  shows "os_disk_pread io f sz lba = Inr (rd (fbytes f) (unat (push_bit 9 lba)) sz)"
  using assms by (simp add: os_disk_pread_def os_file_pread_def os_file_seek_def os_file_read_def)

section \<open>The super block\<close>

text \<open>
  A container has blocks of 4096 bytes and a super block of 512 bytes: block 0 holds its last eight
  versions, version \<open>k\<close> in slot \<open>k mod 8\<close>. \<open>sb_slot m p s\<close>: an intact version with sequence
  number \<open>s\<close> at \<open>p\<close>. What matters of a version is its bytes without the sequence number and the
  fixup field: \<open>mem_content\<close> in memory, \<open>disk_content\<close> on disk, where the fixup field holds the
  two last bytes.
\<close>

definition sb_head :: "buf \<Rightarrow> nat \<Rightarrow> bool" where
  "sb_head m p \<longleftrightarrow> bh_blk_id m p = 0x4B4C4253 \<and> bh_alloc_size m p = 512 \<and> bh_real_size m p = 512"

definition sb_slot :: "buf \<Rightarrow> nat \<Rightarrow> u16 \<Rightarrow> bool" where
  "sb_slot m p s \<longleftrightarrow> sb_head m p \<and> bh_seq_no m p = s \<and> get16 m (p + 510) = s"

definition mem_content :: "buf \<Rightarrow> nat \<Rightarrow> u8 list" where
  "mem_content m p = rd m p 12 @ rd m (p + 16) 496"

definition disk_content :: "buf \<Rightarrow> nat \<Rightarrow> u8 list" where
  "disk_content m p = rd m p 12 @ rd m (p + 16) 494 @ rd m (p + 14) 2"

text \<open>The version in slot \<open>i\<close> when \<open>n\<close> is the last one written: the largest \<open>k \<le> n\<close> in that slot.\<close>

definition version_in :: "nat \<Rightarrow> nat \<Rightarrow> nat" where
  "version_in n i = 8 * (n div 8) + i - (if i \<le> n mod 8 then 0 else 8)"

definition slots_ok :: "buf \<Rightarrow> nat \<Rightarrow> bool" where
  "slots_ok m n \<longleftrightarrow> (\<forall>i < 8. if i \<le> n then sb_slot m (512 * i) (of_nat (version_in n i))
                      else (\<forall>j < 512. m (512 * i + j) = 0))"

definition sb_disk :: "disk_ct \<Rightarrow> nat \<Rightarrow> u8 list \<Rightarrow> bool" where
  "sb_disk ct n c \<longleftrightarrow> dc_block_size ct = 4096 \<and> 4096 \<le> fsize (dc_disk ct) \<and>
     slots_ok (fbytes (dc_disk ct)) n \<and> disk_content (fbytes (dc_disk ct)) (512 * (n mod 8)) = c"

definition sb_mem :: "buf \<Rightarrow> nat \<Rightarrow> u8 list \<Rightarrow> bool" where
  "sb_mem m n c \<longleftrightarrow> sb_head m 0 \<and> bh_seq_no m 0 = of_nat n \<and> mem_content m 0 = c"

lemma sb_head_wf: "sb_head m p \<Longrightarrow> wf_block m p"
  by (simp add: sb_head_def wf_block_def)

lemma sb_head_foot: "sb_head m p \<Longrightarrow> foot_off m p = p + 510"
  by (simp add: sb_head_def foot_off_def)

lemma block_cong:
  assumes "\<And>j. j < 512 \<Longrightarrow> m (p + j) = m' (p' + j)"
  shows "bh_blk_id m p = bh_blk_id m' p'" "bh_alloc_size m p = bh_alloc_size m' p'"
    "bh_real_size m p = bh_real_size m' p'" "bh_seq_no m p = bh_seq_no m' p'"
    "get16 m (p + 510) = get16 m' (p' + 510)"
    "sb_head m p \<longleftrightarrow> sb_head m' p'" "sb_slot m p s \<longleftrightarrow> sb_slot m' p' s"
    "disk_content m p = disk_content m' p'" "mem_content m p = mem_content m' p'"
proof -
  have a: "m (p + k + i) = m' (p' + k + i)" if "k + i < 512" for k i
    using assms [OF that] by (simp add: add.assoc)
  show e: "bh_blk_id m p = bh_blk_id m' p'" "bh_alloc_size m p = bh_alloc_size m' p'"
    "bh_real_size m p = bh_real_size m' p'" "bh_seq_no m p = bh_seq_no m' p'"
    "get16 m (p + 510) = get16 m' (p' + 510)"
    unfolding bh_defs
    using get_cong [of m p m' p'] get_cong [of m "p + 4" m' "p' + 4"]
      get_cong [of m "p + 8" m' "p' + 8"] get_cong [of m "p + 12" m' "p' + 12"]
      get_cong [of m "p + 510" m' "p' + 510"] a [of 0] a by simp_all
  show "sb_head m p \<longleftrightarrow> sb_head m' p'" "sb_slot m p s \<longleftrightarrow> sb_slot m' p' s"
    by (simp_all add: sb_head_def sb_slot_def e)
  show "disk_content m p = disk_content m' p'" "mem_content m p = mem_content m' p'"
    using a a [of 0] by (simp_all add: disk_content_def mem_content_def rd_eq_iff)
qed

lemma Suc_div_mod8:
  "Suc n div 8 = (if n mod 8 = 7 then Suc (n div 8) else n div 8)"
  "Suc n mod 8 = (if n mod 8 = 7 then 0 else Suc (n mod 8))"
  by (simp_all add: div_Suc mod_Suc)

lemma version_in_self: "version_in n (n mod 8) = n"
  by (simp add: version_in_def)

lemma version_in_Suc:
  assumes "i < 8" "i \<noteq> Suc n mod 8" shows "version_in (Suc n) i = version_in n i"
proof (cases "n mod 8 = 7")
  case True
  then show ?thesis using assms by (simp add: version_in_def Suc_div_mod8)
next
  case False
  have "i \<le> Suc (n mod 8) \<longleftrightarrow> i \<le> n mod 8" using False assms(2) by (auto simp: Suc_div_mod8)
  with False show ?thesis by (simp add: version_in_def Suc_div_mod8)
qed

lemma version_in_next: "7 \<le> n \<Longrightarrow> version_in n (Suc n mod 8) = n - 7"
  using div_mult_mod_eq [of n 8] by (cases "n mod 8 = 7") (simp_all add: version_in_def Suc_div_mod8)

lemma version_in_run: "i \<le> n mod 8 \<Longrightarrow> version_in n i = 8 * (n div 8) + i"
  by (simp add: version_in_def)

lemma seq_step:
  assumes "n mod 8 \<noteq> 7"
  shows "unat (of_nat n :: u16) + 1 = unat (of_nat (Suc n) :: u16)"
proof -
  have "n mod 65536 \<noteq> 65535"
  proof
    assume "n mod 65536 = 65535"
    then have "n mod 65536 mod 8 = 65535 mod 8" by simp
    moreover have "n mod 65536 mod 8 = n mod 8" by (rule mod_mod_cancel) simp
    ultimately show False using assms by simp
  qed
  then have "Suc n mod 65536 = Suc (n mod 65536)" by (simp add: mod_Suc)
  moreover have "unat (of_nat k :: u16) = k mod 65536" for k by (simp add: unat_of_nat)
  ultimately show ?thesis by (simp del: of_nat_Suc)
qed

lemma seq_diff:
  assumes "7 \<le> n" shows "(of_nat (Suc n) :: u16) \<noteq> of_nat (n - 7)"
proof
  assume "(of_nat (Suc n) :: u16) = of_nat (n - 7)"
  moreover have "Suc n = (n - 7) + 8" using assms by simp
  then have "(of_nat (Suc n) :: u16) = of_nat (n - 7) + 8" by (metis of_nat_add of_nat_numeral)
  ultimately have "(of_nat (n - 7) :: u16) + 8 = of_nat (n - 7) + 0" by simp
  then have "(8 :: u16) = 0" by (simp only: add_left_cancel)
  then show False by simp
qed

lemma newest_slot_run:
  assumes "i \<le> r" "r < i + k"
    "\<And>j. i \<le> j \<Longrightarrow> j \<le> r \<Longrightarrow> bh_blk_id m (slot_off a j) \<noteq> 0"
    "\<And>j. i \<le> j \<Longrightarrow> j < r \<Longrightarrow>
      unat (bh_seq_no m (slot_off a j)) + 1 = unat (bh_seq_no m (slot_off a (Suc j)))"
    "i \<noteq> 0 \<Longrightarrow> unat ps + 1 = unat (bh_seq_no m (slot_off a i))"
    "Suc r = i + k \<or> bh_blk_id m (slot_off a (Suc r)) = 0 \<or>
      unat (bh_seq_no m (slot_off a r)) + 1 \<noteq> unat (bh_seq_no m (slot_off a (Suc r)))"
  shows "newest_slot m a k i ps pi = r"
  using assms
proof (induction k arbitrary: i ps pi)
  case 0
  then show ?case by simp
next
  case (Suc k)
  have step: "newest_slot m a (Suc k) i ps pi =
      newest_slot m a k (Suc i) (bh_seq_no m (slot_off a i)) i"
    using Suc.prems(1,3,5) by (auto simp: Let_def)
  show ?case
  proof (cases "i = r")
    case True
    then show ?thesis unfolding step using Suc.prems(6) by (cases k) (auto simp: Let_def)
  next
    case False
    show ?thesis unfolding step
      by (rule Suc.IH) (use Suc.prems False in auto)
  qed
qed

lemma slot_off_512: "i < 8 \<Longrightarrow> slot_off 512 i = 512 * i"
proof -
  assume "i < 8"
  moreover have "(512 * of_nat i :: u32) = of_nat (512 * i)" by simp
  then have "unat (512 * of_nat i :: u32) = 512 * i mod 4294967296"
    by (simp only: unat_of_nat) simp
  ultimately show ?thesis by (simp add: slot_off_def)
qed

lemma sb_slot_accepted:
  assumes "sb_slot m p s"
  shows "bh_blk_id m p \<noteq> 0" "bh_seq_no m p = s"
    "verify_block m p 0x4B4C4253 512 = Some (Inr ())" "\<exists>m2. fixup_block m p = Some (Inr (), m2)"
  using assms fixup_intact [of m p] sb_head_wf [of m p] sb_head_foot [of m p]
  by (auto simp: sb_slot_def sb_head_def verify_block_def)

text \<open>
  All slots but the one version \<open>n + 1\<close> goes to are as \<open>slots_ok\<close> says; that one holds anything
  whose block id is not 0 when it is slot 0.
\<close>

definition slots_but :: "buf \<Rightarrow> nat \<Rightarrow> bool" where
  "slots_but m n \<longleftrightarrow> (\<forall>i < 8. i \<noteq> Suc n mod 8 \<longrightarrow>
     (if i \<le> n then sb_slot m (512 * i) (of_nat (version_in n i))
      else bh_blk_id m (512 * i) = 0)) \<and>
   (Suc n mod 8 = 0 \<longrightarrow> bh_blk_id m 0 \<noteq> 0)"

lemma slots_but_run:
  assumes "slots_but m n" "i \<le> n mod 8"  "i \<noteq> Suc n mod 8"
  shows "sb_slot m (512 * i) (of_nat (8 * (n div 8) + i))"
proof -
  have "i < 8" "i \<le> n" using assms(2) mod_less_eq_dividend [of n 8] by (auto intro: le_trans)
  then show ?thesis using assms by (auto simp: slots_but_def version_in_run)
qed

text \<open>The slot \<open>get_last_correct_block\<close> starts from, and the version it returns.\<close>

lemma newest_slot_but:
  assumes b: "slots_but m n"
  shows "newest_slot m 512 8 0 0 0 = n mod 8 \<or>
    newest_slot m 512 8 0 0 0 = Suc n mod 8 \<and> bh_blk_id m (512 * (Suc n mod 8)) \<noteq> 0 \<and>
    (if Suc n mod 8 = 0 then bh_seq_no m 0 \<noteq> of_nat (n - 7)
     else bh_seq_no m (512 * (Suc n mod 8)) = of_nat (Suc n))"
proof (cases "n mod 8 = 7")
  case True
  then have s: "Suc n mod 8 = 0" and n: "7 \<le> n" "8 * (n div 8) = n - 7"
    using div_mult_mod_eq [of n 8] by (simp_all add: Suc_div_mod8)
  have id0: "bh_blk_id m 0 \<noteq> 0" using b s by (simp add: slots_but_def)
  have slot: "sb_slot m (512 * i) (of_nat (n - 7 + i))" if "0 < i" "i < 8" for i
    using slots_but_run [OF b, of i] that True s n by simp
  have sq: "unat (of_nat (n - 7 + j) :: u16) + 1 = unat (of_nat (n - 7 + Suc j) :: u16)"
    if "j < 7" for j
  proof -
    have "(n - 7 + j) mod 8 = j" using n(2) [symmetric] that by simp
    with seq_step [of "n - 7 + j"] that show ?thesis by simp
  qed
  show ?thesis
  proof (cases "bh_seq_no m 0 = of_nat (n - 7)")
    case eq: True
    have idj: "bh_blk_id m (slot_off 512 j) \<noteq> 0" if "j \<le> 7" for j
      using that id0 sb_slot_accepted(1) [OF slot [of j]] by (cases "j = 0") (simp_all add: slot_off_512)
    have seqj: "bh_seq_no m (slot_off 512 j) = of_nat (n - 7 + j)" if "j \<le> 7" for j
      using that eq sb_slot_accepted(2) [OF slot [of j]]
      by (cases "j = 0") (simp_all add: slot_off_512)
    have "newest_slot m 512 8 0 0 0 = 7"
      by (rule newest_slot_run) (use idj seqj sq in \<open>auto simp del: of_nat_add\<close>)
    with True show ?thesis by simp
  next
    case False
    have "unat (bh_seq_no m 0) + 1 \<noteq> unat (bh_seq_no m (512 * 1))"
      using False sb_slot_accepted(2) [OF slot [of 1]] sq [of 0]
      by (auto simp: word_unat_eq_iff simp del: of_nat_add of_nat_Suc)
    then have "newest_slot m 512 8 0 0 0 = 0"
      by (intro newest_slot_run) (use id0 in \<open>auto simp: slot_off_512\<close>)
    with False id0 s show ?thesis by simp
  qed
next
  case False
  let ?r = "n mod 8" and ?q = "8 * (n div 8)"
  have s: "Suc n mod 8 = Suc ?r" and r: "?r < 7" "?q + ?r = n"
    using False mod_less_divisor [of 8 n] by (auto simp: Suc_div_mod8)
  have slot: "sb_slot m (512 * i) (of_nat (?q + i))" if "i \<le> ?r" for i
    using slots_but_run [OF b that] that s by simp
  have sq: "unat (of_nat (?q + j) :: u16) + 1 = unat (of_nat (?q + Suc j) :: u16)" if "j < 7" for j
    using seq_step [of "?q + j"] that by simp
  have idj: "bh_blk_id m (slot_off 512 j) \<noteq> 0" if "j \<le> ?r" for j
    using that r sb_slot_accepted(1) [OF slot [of j]] by (simp add: slot_off_512)
  have seqj: "bh_seq_no m (slot_off 512 j) = of_nat (?q + j)" if "j \<le> ?r" for j
    using that r sb_slot_accepted(2) [OF slot [of j]] by (simp add: slot_off_512)
  let ?Y = "slot_off 512 (Suc ?r)"
  have Y: "?Y = 512 * Suc ?r" using r by (simp add: slot_off_512)
  have sr: "unat (bh_seq_no m (slot_off 512 ?r)) + 1 = unat (of_nat (Suc n) :: u16)"
    using seqj [of ?r] sq [OF r(1)] r(2) by (simp del: of_nat_add of_nat_Suc)
  show ?thesis
  proof (cases "bh_blk_id m ?Y = 0 \<or> bh_seq_no m ?Y \<noteq> of_nat (Suc n)")
    case True
    have "newest_slot m 512 8 0 0 0 = ?r"
    proof (rule newest_slot_run)
      show "Suc ?r = 0 + 8 \<or> bh_blk_id m ?Y = 0 \<or>
          unat (bh_seq_no m (slot_off 512 ?r)) + 1 \<noteq> unat (bh_seq_no m ?Y)"
        using True sr by (auto simp: word_unat_eq_iff simp del: of_nat_Suc)
    qed (use idj seqj sq r in \<open>auto simp del: of_nat_add\<close>)
    then show ?thesis by simp
  next
    case False
    have brk: "Suc (Suc ?r) = 8 \<or> bh_blk_id m (slot_off 512 (Suc (Suc ?r))) = 0 \<or>
        unat (bh_seq_no m ?Y) + 1 \<noteq> unat (bh_seq_no m (slot_off 512 (Suc (Suc ?r))))"
    proof (cases "Suc (Suc ?r) < 8 \<and> Suc (Suc ?r) \<le> n")
      case True
      have "8 \<le> ?q" using True r(2) by (cases "n div 8") simp_all
      then have n8: "7 \<le> Suc n" and v: "version_in n (Suc (Suc ?r)) = Suc n - 7"
        using r(2) by (simp_all add: version_in_def)
      have "sb_slot m (512 * Suc (Suc ?r)) (of_nat (Suc n - 7))"
        using b [unfolded slots_but_def, THEN conjunct1, rule_format, of "Suc (Suc ?r)"] True s v
        by (simp del: of_nat_Suc mult_Suc_right)
      then have "bh_seq_no m (slot_off 512 (Suc (Suc ?r))) = of_nat (Suc n - 7)"
        using True sb_slot_accepted(2) by (simp add: slot_off_512 del: mult_Suc_right)
      moreover have "unat (of_nat (Suc n) :: u16) + 1 = unat (of_nat (Suc (Suc n)) :: u16)"
        using seq_step [of "Suc n"] True s by simp
      ultimately show ?thesis using False seq_diff [OF n8] by (auto simp: word_unat_eq_iff simp del: of_nat_Suc)
    next
      case c: False
      show ?thesis
      proof (cases "Suc (Suc ?r) < 8")
        case lt: True
        have "Suc (Suc ?r) \<noteq> Suc n mod 8" unfolding s by simp
        moreover have "\<not> Suc (Suc ?r) \<le> n" using c lt by blast
        ultimately have "bh_blk_id m (512 * Suc (Suc ?r)) = 0"
          using b [unfolded slots_but_def, THEN conjunct1, rule_format, OF lt]
          by (simp only: if_False simp_thms)
        then show ?thesis by (simp only: slot_off_512 [OF lt] simp_thms)
      next
        case False
        with r(1) have "Suc (Suc ?r) = 8" by linarith
        then show ?thesis by (rule disjI1)
      qed
    qed
    have "newest_slot m 512 8 0 0 0 = Suc ?r"
    proof (rule newest_slot_run)
      fix j assume "j < Suc ?r"
      then show "unat (bh_seq_no m (slot_off 512 j)) + 1 = unat (bh_seq_no m (slot_off 512 (Suc j)))"
        using seqj [of j] seqj [of "Suc j"] sq [of j] sr False r
        by (cases "j = ?r") (auto simp del: of_nat_add of_nat_Suc)
    next
      fix j assume "j \<le> Suc ?r"
      then show "bh_blk_id m (slot_off 512 j) \<noteq> 0"
        using idj False by (cases "j = Suc ?r") auto
    qed (use brk r in auto)
    with False s Y show ?thesis by simp
  qed
qed

lemma intact_slot_but:
  assumes b: "slots_but m n" and k: "2 \<le> k" and i: "i = n mod 8 \<or> i = Suc n mod 8"
    and id: "bh_blk_id m (512 * i) \<noteq> 0"
  shows "\<exists>p m2. intact_slot m 0x4B4C4253 512 8 k i = Some (Some p, m2) \<and>
    fixup_block m p = Some (Inr (), m2) \<and>
    (p = 512 * (n mod 8) \<or> p = 512 * i \<and> verify_block m p 0x4B4C4253 512 = Some (Inr ()))"
proof -
  let ?r = "n mod 8"
  obtain k' where k': "k = Suc (Suc k')" using k by (metis add_2_eq_Suc le_Suc_ex)
  have "?r \<noteq> Suc n mod 8" by (simp add: Suc_div_mod8)
  then have sr: "sb_slot m (512 * ?r) (of_nat n)"
    using slots_but_run [OF b order_refl] by simp
  note acc = sb_slot_accepted [OF sr]
  have off: "slot_off 512 ?r = 512 * ?r" "slot_off 512 i = 512 * i"
    using i by (auto intro!: slot_off_512)
  from acc(4) obtain m2 where m2: "fixup_block m (512 * ?r) = Some (Inr (), m2)" by blast
  have at_r: "intact_slot m 0x4B4C4253 512 8 (Suc j) ?r = Some (Some (512 * ?r), m2)" for j
    using acc m2 off by (simp add: Let_def)
  show ?thesis
  proof (cases "i = ?r")
    case True
    with at_r m2 k' show ?thesis by auto
  next
    case False
    then have "i = Suc n mod 8" using i by simp
    then have nx: "(if i = 0 then 8 else i) - 1 = ?r" by (simp add: Suc_div_mod8)
    show ?thesis
    proof (cases "verify_block m (512 * i) 0x4B4C4253 512")
      case None
      then show ?thesis by (auto simp: verify_block_def split: if_splits)
    next
      case (Some v)
      show ?thesis
      proof (cases v)
        case (Inl e)
        with Some id off nx at_r m2 k' show ?thesis by (auto simp: Let_def)
      next
        case (Inr u)
        then have "wf_block m (512 * i)"
          using Some by (auto simp: verify_block_def wf_block_def split: if_splits)
        then consider m3 where "fixup_block m (512 * i) = Some (Inr (), m3)"
          | "fixup_block m (512 * i) = Some (Inl FILE_BLOCK_ERR_INVALID_OBJECT, m)"
          using fixup_intact fixup_torn by blast
        then show ?thesis
        proof cases
          case 1
          with Some Inr id off nx at_r m2 k' show ?thesis by (auto simp: Let_def)
        next
          case 2
          with Some Inr id off nx at_r m2 k' show ?thesis by (auto simp: Let_def)
        qed
      qed
    qed
  qed
qed

lemma get_last_correct_but:
  assumes b: "slots_but m n"
  shows "\<exists>p m2. get_last_correct_block m 0x4B4C4253 512 8 = Some (Some p, m2) \<and>
    fixup_block m p = Some (Inr (), m2) \<and>
    (p = 512 * (n mod 8) \<or>
     p = 512 * (Suc n mod 8) \<and> verify_block m p 0x4B4C4253 512 = Some (Inr ()) \<and>
     (if Suc n mod 8 = 0 then bh_seq_no m 0 \<noteq> of_nat (n - 7)
      else bh_seq_no m p = of_nat (Suc n)))"
proof -
  have ne: "n mod 8 \<noteq> Suc n mod 8" by (simp add: Suc_div_mod8)
  have idr: "bh_blk_id m (512 * (n mod 8)) \<noteq> 0"
    using slots_but_run [OF b order_refl ne] by (rule sb_slot_accepted(1))
  have g: "get_last_correct_block m 0x4B4C4253 512 8 =
      intact_slot m 0x4B4C4253 512 8 8 (newest_slot m 512 8 0 0 0)"
    by (simp add: get_last_correct_block_def)
  from newest_slot_but [OF b] show ?thesis
  proof
    assume e: "newest_slot m 512 8 0 0 0 = n mod 8"
    from intact_slot_but [OF b, of 8 "n mod 8"] idr show ?thesis unfolding g e by auto
  next
    assume e: "newest_slot m 512 8 0 0 0 = Suc n mod 8 \<and> bh_blk_id m (512 * (Suc n mod 8)) \<noteq> 0 \<and>
      (if Suc n mod 8 = 0 then bh_seq_no m 0 \<noteq> of_nat (n - 7)
       else bh_seq_no m (512 * (Suc n mod 8)) = of_nat (Suc n))"
    from intact_slot_but [OF b, of 8 "Suc n mod 8"] e show ?thesis
      unfolding g by (simp del: intact_slot.simps split: if_splits) blast+
  qed
qed

lemma mem_content_split: "mem_content m p = rd m p 12 @ rd m (p + 16) 494 @ rd m (p + 510) 2"
  using rd_add [of m "p + 16" 494 2] by (simp add: mem_content_def add.commute)

lemma sb_mem_assemble:
  assumes "sb_mem sb n c" "assemble_block sb 0 = Some m1"
  shows "sb_slot m1 0 (of_nat n)" "disk_content m1 0 = c"
proof -
  have h: "sb_head sb 0" "wf_block sb 0" "foot_off sb 0 = 510"
    using assms(1) sb_head_wf [of sb 0] sb_head_foot [of sb 0] by (simp_all add: sb_mem_def)
  note f = assemble_block_fields [OF h(2) assms(2)]
  show "sb_slot m1 0 (of_nat n)"
    using f h assms(1) by (simp add: sb_slot_def sb_head_def sb_mem_def)
  have "get16 m1 14 = get16 sb 510" using f(6) h(3) by (simp add: bh_defs)
  then have "rd m1 14 2 = rd sb 510 2" by (simp only: get16_inject)
  moreover have "rd m1 0 12 = rd sb 0 12" "rd m1 16 494 = rd sb 16 494"
    using f(8) h(3) by (auto simp: rd_eq_iff)
  ultimately show "disk_content m1 0 = c"
    using assms(1) by (simp add: disk_content_def mem_content_split sb_mem_def)
qed

lemma fixup_content:
  assumes "sb_slot m p s" "fixup_block m p = Some (Inr (), m2)"
  shows "bh_seq_no m2 p = s + 1" "mem_content m2 p = disk_content m p" "sb_head m2 p"
proof -
  have h: "wf_block m p" "foot_off m p = p + 510" "get16 m (p + 510) = bh_seq_no m p"
    "sb_head m p" "bh_seq_no m p = s"
    using assms(1) sb_head_wf [of m p] sb_head_foot [of m p] by (simp_all add: sb_slot_def)
  from fixup_intact [OF h(1)] h(2,3) assms(2) have f:
    "bh_seq_no m2 p = bh_seq_no m p + 1" "rd m2 (p + 510) 2 = rd m (p + 14) 2"
    "\<And>i. (i < p + 12 \<or> p + 16 \<le> i) \<and> (i < p + 510 \<or> p + 512 \<le> i) \<Longrightarrow> m2 i = m i"
    by auto
  show "bh_seq_no m2 p = s + 1" using f h by simp
  have e: "rd m2 p 12 = rd m p 12" "rd m2 (p + 16) 494 = rd m (p + 16) 494"
    using f(3) by (auto simp: rd_eq_iff)
  then show "mem_content m2 p = disk_content m p"
    using f(2) by (simp add: mem_content_split disk_content_def)
  show "sb_head m2 p" using h(4) f(3) get_cong(2) [of m2 p m p] get_cong(2) [of m2 "p + 4" m "p + 4"]
      get_cong(2) [of m2 "p + 8" m "p + 8"] by (simp add: sb_head_def bh_defs)
qed

lemma pingpong_off_sb:
  assumes "sb_head m 0" "bh_seq_no m 0 = of_nat n" "dc_block_size ct = 4096"
  shows "\<exists>off. pingpong_off ct m = Some off \<and> unat off = 512 * (n mod 8)"
proof -
  have d: "(4096 :: u32) div 512 = 8" by simp
  let ?x = "ucast (of_nat n :: u16) mod 8 :: u32"
  have "unat ?x = unat (of_nat n :: u16) mod 8"
    by (simp add: unat_mod unat_ucast_up)
  also have "\<dots> = n mod 65536 mod 8" by (simp add: unat_of_nat)
  also have "\<dots> = n mod 8" by (rule mod_mod_cancel) simp
  finally have x: "unat ?x = n mod 8" .
  have "?x = of_nat (unat ?x)" by simp
  then have "?x = of_nat (n mod 8)" by (simp only: x)
  then have "unat (512 * ?x) = 512 * (n mod 8)"
    using slot_off_512 [of "n mod 8"] by (simp add: slot_off_def)
  then show ?thesis using assms d by (simp add: pingpong_off_def sb_head_def)
qed

lemma update_super_block:
  assumes "sb_mem sb n c" "dc_block_size ct = 4096" "io_seek io"
  shows "\<exists>m1 sb'. sb_slot m1 0 (of_nat n) \<and> disk_content m1 0 = c \<and> sb_mem sb' (Suc n) c \<and>
    ofs_update_super_block io ct sb =
      (let (k, f) = os_file_write io (dc_disk ct) (rd m1 0 512) (512 * (n mod 8))
       in Some (if k = 512 then Inr () else Inl BLOCK_ERR_WRITE, sb', ct\<lparr> dc_disk := f \<rparr>))"
proof -
  have h: "sb_head sb 0" "wf_block sb 0" "foot_off sb 0 = 510"
    using assms(1) sb_head_wf [of sb 0] sb_head_foot [of sb 0] by (simp_all add: sb_mem_def)
  obtain m1 where m1: "assemble_block sb 0 = Some m1" using h(2) by (simp add: assemble_block_Some)
  note s1 = sb_mem_assemble [OF assms(1) m1]
  then have h1: "sb_head m1 0" "bh_seq_no m1 0 = of_nat n" by (simp_all add: sb_slot_def)
  obtain off where off: "pingpong_off ct m1 = Some off" "unat off = 512 * (n mod 8)"
    using pingpong_off_sb [OF h1 assms(2)] by blast
  from sb_slot_accepted(4) [OF s1(1)] obtain sb' where sb': "fixup_block m1 0 = Some (Inr (), sb')"
    by blast
  note fc = fixup_content [OF s1(1) sb']
  have a': "bh_alloc_size sb' 0 = 512" using fc(3) by (simp add: sb_head_def)
  have chk: "check_block ct sb = Inr ()"
    using h(1) assms(2) by (simp add: check_block_def sb_head_def)
  have "unat (ucast (drop_bit 9 off) + 0 * ucast (dc_sectors_per_block ct) :: u64) = n mod 8"
    using off(2) by (simp add: unat_ucast_up unat_drop_bit_div)
  then have pb: "unat (push_bit 9 (ucast (drop_bit 9 off) + 0 * ucast (dc_sectors_per_block ct) :: u64))
      = 512 * (n mod 8)"
    by (simp only: unat_push_bit_mod) simp
  have ne: "rd m1 0 512 \<noteq> []" by (simp flip: length_0_conv)
  have a1: "unat (bh_alloc_size m1 0) = 512" using h1 by (simp add: sb_head_def)
  have "n mod 8 < 8" by simp
  then have "512 * (n mod 8) < 2 ^ 63" by simp
  then have "os_disk_pwrite io (dc_disk ct) (rd m1 0 512)
      (ucast (drop_bit 9 off) + 0 * ucast (dc_sectors_per_block ct)) =
    (let (k, f) = os_file_write io (dc_disk ct) (rd m1 0 512) (512 * (n mod 8)) in (Inr k, f))"
    using os_disk_pwrite_Inr [OF assms(3) _ ne] pb by simp
  then have up: "ofs_update_block io ct (rd m1 0 (unat (bh_alloc_size m1 0))) (drop_bit 9 off) 0 =
    (let (k, f) = os_file_write io (dc_disk ct) (rd m1 0 512) (512 * (n mod 8))
     in Some (Inr k, ct\<lparr> dc_disk := f \<rparr>))"
    using ne by (simp add: ofs_update_block_def a1 Let_def split: prod.splits)
  have "ofs_update_super_block io ct sb =
      (let (k, f) = os_file_write io (dc_disk ct) (rd m1 0 512) (512 * (n mod 8))
       in Some (if k = 512 then Inr () else Inl BLOCK_ERR_WRITE, sb', ct\<lparr> dc_disk := f \<rparr>))"
    by (simp add: ofs_update_super_block_def ofs_update_block_pingpong_def chk m1 off(1) up sb' a' Let_def
      split: prod.splits)
  moreover have "sb_mem sb' (Suc n) c"
    using fc s1(2) by (simp add: sb_mem_def)
  ultimately show ?thesis using s1 by blast
qed

lemma slot_bytes: "i < 8 \<Longrightarrow> j < 512 \<Longrightarrow> 512 * i + j < (4096 :: nat)"
  by linarith

lemma slots_but_cong:
  assumes "\<And>j. j < 4096 \<Longrightarrow> b j = m j" "slots_but m n" shows "slots_but b n"
proof -
  have e: "b (512 * i + j) = m (512 * i + j)" if "i < 8" "j < 512" for i j
    using assms(1) slot_bytes [OF that] by blast
  have "bh_blk_id b 0 = bh_blk_id m 0" using e [of 0] block_cong(1) [of b 0 m 0] by simp
  with e assms(2) show ?thesis
    using block_cong(7) [of b "512 * i" m "512 * i" for i] block_cong(1) [of b "512 * i" m "512 * i" for i]
    by (simp add: slots_but_def)
qed

lemma fixup_ok_real:
  assumes "fixup_block m p = Some (Inr (), m2)" "18 \<le> unat (bh_alloc_size m p)"
  shows "bh_real_size m2 p = bh_real_size m p" "bh_real_size m p \<le> bh_alloc_size m p"
    "get16 m (foot_off m p) = bh_seq_no m p"
proof -
  have w: "wf_block m p" and g: "get16 m (foot_off m p) = bh_seq_no m p"
    using assms by (auto simp: fixup_block_def wf_block_def Let_def split: if_splits)
  then show "bh_real_size m p \<le> bh_alloc_size m p" "get16 m (foot_off m p) = bh_seq_no m p"
    by (simp_all add: wf_block_def)
  show "bh_real_size m2 p = bh_real_size m p"
    using fixup_intact [OF w g] assms(1) foot_off_ge [OF w] get_cong(2) [of m2 "p + 8" m "p + 8"]
    by (auto simp: bh_defs)
qed

lemma read_super_block:
  assumes "slots_but M n" "M = fbytes (dc_disk ct)" "4096 \<le> fsize (dc_disk ct)"
    "dc_block_size ct = 4096"
  shows "\<exists>b p m2. (\<forall>j < 4096. b j = M j) \<and> fixup_block b p = Some (Inr (), m2) \<and>
    ofs_read_super_block io_ok junk ct sb =
      Some (Inr (), wr sb 0 (rd m2 p (unat (bh_real_size m2 p)))) \<and>
    (p = 512 * (n mod 8) \<or> p = 512 * (Suc n mod 8) \<and> bh_alloc_size b p = 512 \<and>
     get16 b (p + 510) = bh_seq_no b p \<and>
     (if Suc n mod 8 = 0 then bh_seq_no b p \<noteq> of_nat (n - 7) else bh_seq_no b p = of_nat (Suc n)))"
proof -
  define b where "b = wr junk 0 (rd M 0 4096)"
  have bM: "\<forall>j < 4096. b j = M j" by (simp add: b_def wr_def)
  then have sb: "slots_but b n" using assms(1) slots_but_cong by blast
  from get_last_correct_but [OF sb] obtain p m2 where
    p: "get_last_correct_block b 0x4B4C4253 512 8 = Some (Some p, m2)"
      "fixup_block b p = Some (Inr (), m2)" and
    c: "p = 512 * (n mod 8) \<or> p = 512 * (Suc n mod 8) \<and> verify_block b p 0x4B4C4253 512 = Some (Inr ()) \<and>
     (if Suc n mod 8 = 0 then bh_seq_no b 0 \<noteq> of_nat (n - 7) else bh_seq_no b p = of_nat (Suc n))"
    by blast
  have ne: "n mod 8 \<noteq> Suc n mod 8" by (simp add: Suc_div_mod8)
  have al: "bh_alloc_size b p = 512"
    using c slots_but_run [OF sb order_refl ne]
    by (auto simp: sb_slot_def sb_head_def verify_block_def split: if_splits)
  then have ft: "foot_off b p = p + 510" by (simp add: foot_off_def)
  have "18 \<le> unat (bh_alloc_size b p)" using al by simp
  from fixup_ok_real [OF p(2) this] have r: "bh_real_size m2 p \<le> 512" "get16 b (p + 510) = bh_seq_no b p"
    using al ft by simp_all
  have rb: "ofs_read_block io_ok ct 4096 0 0 = Some (Inr (rd M 0 4096))"
    using os_disk_pread_Inr [of io_ok 0 4096 "dc_disk ct"] assms(2,3)
    by (simp add: ofs_read_block_def io_ok_def)
  have "ofs_read_super_block io_ok junk ct sb =
      Some (Inr (), wr sb 0 (rd m2 p (unat (bh_real_size m2 p))))"
    using p(1) r(1) assms(4) rb
    by (simp add: ofs_read_super_block_def ofs_read_block_pingpong_def b_def [symmetric] io_ok_def [symmetric]
      not_less [symmetric]) (simp add: io_ok_def)
  moreover have "p = 512 * (n mod 8) \<or> p = 512 * (Suc n mod 8) \<and> bh_alloc_size b p = 512 \<and>
     get16 b (p + 510) = bh_seq_no b p \<and>
     (if Suc n mod 8 = 0 then bh_seq_no b p \<noteq> of_nat (n - 7) else bh_seq_no b p = of_nat (Suc n))"
    using c r(2) al by (cases "Suc n mod 8 = 0") auto
  ultimately show ?thesis using bM p(2) by (intro exI conjI) assumption+
qed

text \<open>A complete or partial write of version \<open>n + 1\<close> over the slot of version \<open>n - 7\<close>.\<close>

lemma next_slot_le: "Suc n mod 8 \<le> n \<longleftrightarrow> 7 \<le> n"
proof (cases "7 \<le> n")
  case True
  have "Suc n mod 8 < 8" by simp
  with True show ?thesis by linarith
next
  case False
  then have "Suc n mod 8 = Suc n" by simp
  with False show ?thesis by simp
qed

lemma old_slot:
  assumes "slots_ok M n"
  shows "7 \<le> n \<Longrightarrow> sb_slot M (512 * (Suc n mod 8)) (of_nat (n - 7))"
    and "n < 7 \<Longrightarrow> j < 512 \<Longrightarrow> M (512 * (Suc n mod 8) + j) = 0"
proof -
  have o: "if Suc n mod 8 \<le> n then sb_slot M (512 * (Suc n mod 8)) (of_nat (version_in n (Suc n mod 8)))
      else (\<forall>j < 512. M (512 * (Suc n mod 8) + j) = 0)"
    using assms [unfolded slots_ok_def, rule_format, of "Suc n mod 8"] by simp
  then show "7 \<le> n \<Longrightarrow> sb_slot M (512 * (Suc n mod 8)) (of_nat (n - 7))"
    by (simp only: next_slot_le version_in_next if_True)
  from o show "n < 7 \<Longrightarrow> j < 512 \<Longrightarrow> M (512 * (Suc n mod 8) + j) = 0"
    by (simp only: next_slot_le not_le [symmetric] if_False) simp
qed

lemma old_slot_seq:
  assumes "slots_ok M n"
  shows "bh_seq_no M (512 * (Suc n mod 8)) \<noteq> of_nat (Suc n)"
    "get16 M (512 * (Suc n mod 8) + 510) = bh_seq_no M (512 * (Suc n mod 8))"
    "7 \<le> n \<Longrightarrow> bh_seq_no M (512 * (Suc n mod 8)) = of_nat (n - 7)"
proof -
  let ?p = "512 * (Suc n mod 8)"
  have z: "get16 M (?p + k) = 0" if "n < 7" "k + 1 < 512" for k
  proof -
    have "rd M (?p + k) 2 = replicate 2 0"
      using old_slot(2) [OF assms that(1)] that(2)
      by (intro nth_equalityI) (auto simp: add.assoc)
    then show ?thesis by (simp add: get16_def)
  qed
  have ne: "(of_nat (Suc n) :: u16) \<noteq> 0" if "n < 7"
  proof
    assume "(of_nat (Suc n) :: u16) = 0"
    then have "unat (of_nat (Suc n) :: u16) = 0" by (simp only: unat_0)
    with that show False by (simp only: unat_of_nat) simp
  qed
  show "bh_seq_no M ?p \<noteq> of_nat (Suc n)"
    using old_slot(1) [OF assms] seq_diff [of n] z [of 12] ne
    by (cases "7 \<le> n") (auto simp: sb_slot_def bh_defs simp del: of_nat_Suc)
  show "get16 M (?p + 510) = bh_seq_no M ?p"
    using old_slot(1) [OF assms] z [of 12] z [of 510]
    by (cases "7 \<le> n") (auto simp: sb_slot_def bh_defs)
  show "7 \<le> n \<Longrightarrow> bh_seq_no M ?p = of_nat (n - 7)"
    using old_slot(1) [OF assms] by (simp add: sb_slot_def)
qed

lemma write_slot:
  assumes "os_file_write io f (rd m1 0 512) (512 * s) = (k, f')" "4096 \<le> fsize f" "s < 8"
  shows "4096 \<le> fsize f'" "k \<le> 512" "io_xfer io \<ge> 512 \<Longrightarrow> k = 512"
    "i < 8 \<Longrightarrow> i \<noteq> s \<Longrightarrow> j < 512 \<Longrightarrow> fbytes f' (512 * i + j) = fbytes f (512 * i + j)"
    "j < k \<Longrightarrow> fbytes f' (512 * s + j) = m1 j"
    "k \<le> j \<Longrightarrow> j < 512 \<Longrightarrow> fbytes f' (512 * s + j) = fbytes f (512 * s + j)"
proof -
  note w = os_file_write_bytes [OF assms(1)]
  show "4096 \<le> fsize f'" using w(2) assms(2) by simp
  show k: "k \<le> 512" "io_xfer io \<ge> 512 \<Longrightarrow> k = 512" using w(1) by simp_all
  show "j < k \<Longrightarrow> fbytes f' (512 * s + j) = m1 j" using w(4) [of j] k by simp
  show "fbytes f' (512 * i + j) = fbytes f (512 * i + j)" if "i < 8" "i \<noteq> s" "j < 512" for i j
  proof (rule w(5))
    show "512 * i + j < fsize f" using slot_bytes [OF that(1,3)] assms(2) by simp
    have "512 * i + 512 \<le> 512 * s \<or> 512 * s + 512 \<le> 512 * i"
      using that(2) by (cases i s rule: linorder_cases) auto
    then show "512 * i + j < 512 * s \<or> 512 * s + k \<le> 512 * i + j" using k that(3) by linarith
  qed
  show "k \<le> j \<Longrightarrow> j < 512 \<Longrightarrow> fbytes f' (512 * s + j) = fbytes f (512 * s + j)"
    using w(5) [of "512 * s + j"] slot_bytes [OF assms(3)] assms(2) by fastforce
qed

lemma partial_write_but:
  assumes ok: "slots_ok (fbytes f) n" and m1: "sb_slot m1 0 (of_nat (Suc n))"
    and w: "os_file_write io f (rd m1 0 512) (512 * (Suc n mod 8)) = (k, f')"
    and sz: "4096 \<le> fsize f"
  shows "slots_but (fbytes f') n"
proof -
  let ?s = "Suc n mod 8"
  note ws = write_slot [OF w sz]
  have id0: "bh_blk_id (fbytes f') 0 \<noteq> 0" if "?s = 0"
  proof -
    have "7 \<le> n" using that next_slot_le [of n] by simp
    then have o: "bh_blk_id (fbytes f) 0 = bh_blk_id m1 0"
      using old_slot(1) [OF ok] that m1 by (simp add: sb_slot_def sb_head_def)
    have "fbytes f' j = m1 j" if "j < 4" for j
    proof (cases "j < k")
      case True
      then show ?thesis using ws(5) [of j] \<open>?s = 0\<close> by simp
    next
      case False
      have "fbytes f j = m1 j"
        using o that by (simp add: bh_defs get32_inject rd_eq_iff)
      then show ?thesis using ws(6) [of j] False that \<open>?s = 0\<close> by simp
    qed
    then have "bh_blk_id (fbytes f') 0 = bh_blk_id m1 0"
      using get_cong(2) [of "fbytes f'" 0 m1 0] by (simp add: bh_defs)
    with sb_slot_accepted(1) [OF m1] show ?thesis by simp
  qed
  show ?thesis unfolding slots_but_def
  proof (intro conjI allI impI)
    fix i assume i: "i < 8" "i \<noteq> ?s"
    have e: "fbytes f' (512 * i + j) = fbytes f (512 * i + j)" if "j < 512" for j
      using ws(4) [OF _ i that] by simp
    show "if i \<le> n then sb_slot (fbytes f') (512 * i) (of_nat (version_in n i))
        else bh_blk_id (fbytes f') (512 * i) = 0"
    proof (cases "i \<le> n")
      case True
      then show ?thesis using ok i(1) block_cong(7) [of "fbytes f'" "512 * i" "fbytes f" "512 * i"] e
        by (simp add: slots_ok_def)
    next
      case False
      then have "rd (fbytes f') (512 * i) 4 = replicate 4 0"
        using ok i(1) e by (intro nth_equalityI) (auto simp: slots_ok_def)
      with False show ?thesis by (simp add: bh_defs get32_def)
    qed
  qed (rule id0)
qed

lemma partial_write_accepted:
  assumes ok: "slots_ok (fbytes f) n" and m1: "sb_slot m1 0 (of_nat (Suc n))"
    and w: "os_file_write io f (rd m1 0 512) (512 * (Suc n mod 8)) = (k, f')"
    and sz: "4096 \<le> fsize f"
    and acc: "get16 (fbytes f') (512 * (Suc n mod 8) + 510) = bh_seq_no (fbytes f') (512 * (Suc n mod 8))"
      "if Suc n mod 8 = 0 then bh_seq_no (fbytes f') (512 * (Suc n mod 8)) \<noteq> of_nat (n - 7)
       else bh_seq_no (fbytes f') (512 * (Suc n mod 8)) = of_nat (Suc n)"
    and j: "j < 512"
  shows "fbytes f' (512 * (Suc n mod 8) + j) = m1 j"
proof -
  let ?p = "512 * (Suc n mod 8)"
  note ws = write_slot [OF w sz]
  note old = old_slot_seq [OF ok]
  have no: "bh_seq_no (fbytes f') ?p \<noteq> bh_seq_no (fbytes f) ?p"
    using acc(2) old(1,3) next_slot_le [of n] by (auto split: if_splits)
  have k13: "12 < k"
  proof (rule ccontr)
    assume "\<not> 12 < k"
    then have "bh_seq_no (fbytes f') ?p = bh_seq_no (fbytes f) ?p"
      unfolding bh_defs by (intro get_cong(1)) (simp add: ws(6) add.assoc)
    with no show False by simp
  qed
  have k511: "510 < k"
  proof (rule ccontr)
    assume "\<not> 510 < k"
    then have "get16 (fbytes f') (?p + 510) = get16 (fbytes f) (?p + 510)"
      by (intro get_cong(1)) (simp add: ws(6) add.assoc)
    with no acc(1) old(2) show False by simp
  qed
  have "bh_seq_no (fbytes f') ?p = bh_seq_no m1 0"
    unfolding bh_defs using k511 by (intro get_cong(1)) (simp add: ws(5) add.assoc)
  then have "get16 (fbytes f') (?p + 510) = get16 m1 510"
    using acc(1) m1 by (simp add: sb_slot_def)
  then have "rd (fbytes f') (?p + 510) 2 = rd m1 510 2" by (simp only: get16_inject)
  then have ft: "\<forall>i < 2. fbytes f' (?p + 510 + i) = m1 (510 + i)" by (simp only: rd_eq_iff)
  show ?thesis
  proof (cases "j < k")
    case True
    then show ?thesis by (rule ws(5) [rotated]) simp
  next
    case False
    then have "j = 511" using k511 j by simp
    then show ?thesis using ft [rule_format, of 1] by (simp add: add.commute)
  qed
qed

lemma slots_ok_but:
  assumes "slots_ok M n" shows "slots_but M n"
proof -
  have z: "bh_blk_id M (512 * i) = 0" if "i < 8" "\<not> i \<le> n" for i
  proof -
    have "rd M (512 * i) 4 = replicate 4 0"
      using assms that by (intro nth_equalityI) (auto simp: slots_ok_def)
    then show ?thesis by (simp add: bh_defs get32_def)
  qed
  have "bh_blk_id M 0 \<noteq> 0" if "Suc n mod 8 = 0"
    using old_slot(1) [OF assms] that next_slot_le [of n] sb_slot_accepted(1) by fastforce
  with assms z show ?thesis by (simp add: slots_but_def slots_ok_def)
qed

lemma full_write_ok:
  assumes ok: "slots_ok (fbytes f) n" and m1: "sb_slot m1 0 (of_nat (Suc n))"
    and w: "os_file_write io f (rd m1 0 512) (512 * (Suc n mod 8)) = (512, f')"
    and sz: "4096 \<le> fsize f"
  shows "slots_ok (fbytes f') (Suc n)"
    "disk_content (fbytes f') (512 * (Suc n mod 8)) = disk_content m1 0"
proof -
  let ?s = "Suc n mod 8"
  note ws = write_slot [OF w sz]
  have new: "fbytes f' (512 * ?s + j) = m1 j" if "j < 512" for j using ws(5) that by simp
  have sl: "sb_slot (fbytes f') (512 * ?s) s \<longleftrightarrow> sb_slot m1 0 s"
    "disk_content (fbytes f') (512 * ?s) = disk_content m1 0" for s
  proof -
    show "sb_slot (fbytes f') (512 * ?s) s \<longleftrightarrow> sb_slot m1 0 s"
      "disk_content (fbytes f') (512 * ?s) = disk_content m1 0"
      by (rule block_cong; simp add: new)+
  qed
  then show "disk_content (fbytes f') (512 * ?s) = disk_content m1 0" by simp
  show "slots_ok (fbytes f') (Suc n)"
    unfolding slots_ok_def
  proof (intro allI impI)
    fix i assume i: "i < (8 :: nat)"
    show "if i \<le> Suc n then sb_slot (fbytes f') (512 * i) (of_nat (version_in (Suc n) i))
        else (\<forall>j < 512. fbytes f' (512 * i + j) = 0)"
    proof (cases "i = ?s")
      case True
      then show ?thesis using sl(1) m1 version_in_self [of "Suc n"] mod_less_eq_dividend [of "Suc n" 8]
        by simp
    next
      case False
      have e: "fbytes f' (512 * i + j) = fbytes f (512 * i + j)" if "j < 512" for j
        using ws(4) [OF _ i False that] by simp
      have "i \<le> Suc n \<longleftrightarrow> i \<le> n" using False i by (auto simp: le_Suc_eq)
      then show ?thesis
        using ok i e block_cong(7) [of "fbytes f'" "512 * i" "fbytes f" "512 * i"] version_in_Suc [OF i False]
        by (simp add: slots_ok_def)
    qed
  qed
qed

lemma read_slot:
  assumes "sb_slot b p (of_nat k)" "fixup_block b p = Some (Inr (), m2)"
  shows "sb_mem (wr x 0 (rd m2 p (unat (bh_real_size m2 p)))) (Suc k) (disk_content b p)"
proof -
  note f = fixup_content [OF assms]
  have r: "unat (bh_real_size m2 p) = 512" using f(3) by (simp add: sb_head_def)
  have "wr x 0 (rd m2 p 512) (0 + j) = m2 (p + j)" if "j < 512" for j
    using that by (simp add: wr_def)
  note c = block_cong [of "wr x 0 (rd m2 p 512)" 0 m2 p, OF this]
  show ?thesis unfolding r using f c by (simp add: sb_mem_def)
qed

lemma read_after_write:
  assumes d: "sb_disk ct n c" and m: "sb_mem sb (Suc n) c'" and "io_seek io"
  shows "\<exists>r sb' ct'. ofs_update_super_block io ct sb = Some (r, sb', ct') \<and>
    sb_mem sb' (Suc (Suc n)) c' \<and> (512 \<le> io_xfer io \<longrightarrow> r = Inr ()) \<and>
    (r = Inr () \<longrightarrow> sb_disk ct' (Suc n) c') \<and>
    (\<exists>sb2. ofs_read_super_block io_ok junk ct' x = Some (Inr (), sb2) \<and>
       (sb_mem sb2 (Suc (Suc n)) c' \<or> sb_mem sb2 (Suc n) c))"
proof -
  let ?s = "Suc n mod 8" and ?f = "dc_disk ct"
  have ok: "slots_ok (fbytes ?f) n" and sz: "4096 \<le> fsize ?f" and bs: "dc_block_size ct = 4096"
    and c: "disk_content (fbytes ?f) (512 * (n mod 8)) = c"
    using d by (simp_all add: sb_disk_def)
  from update_super_block [OF m bs assms(3)] obtain m1 sb' where
    m1: "sb_slot m1 0 (of_nat (Suc n))" "disk_content m1 0 = c'" and sb': "sb_mem sb' (Suc (Suc n)) c'"
    and up: "ofs_update_super_block io ct sb =
      (let (k, f) = os_file_write io ?f (rd m1 0 512) (512 * ?s)
       in Some (if k = 512 then Inr () else Inl BLOCK_ERR_WRITE, sb', ct\<lparr> dc_disk := f \<rparr>))"
    by blast
  obtain k f' where w: "os_file_write io ?f (rd m1 0 512) (512 * ?s) = (k, f')" by fastforce
  define ct' where "ct' = ct\<lparr> dc_disk := f' \<rparr>"
  note ws = write_slot [OF w sz]
  have sz': "4096 \<le> fsize f'" using ws(1) by simp
  from read_super_block [OF partial_write_but [OF ok m1(1) w sz], of ct' junk x]
  obtain b p m2 where b: "\<forall>j < 4096. b j = fbytes f' j" "fixup_block b p = Some (Inr (), m2)"
    and rd: "ofs_read_super_block io_ok junk ct' x =
      Some (Inr (), wr x 0 (rd m2 p (unat (bh_real_size m2 p))))"
    and p: "p = 512 * (n mod 8) \<or> p = 512 * ?s \<and> bh_alloc_size b p = 512 \<and>
     get16 b (p + 510) = bh_seq_no b p \<and>
     (if ?s = 0 then bh_seq_no b p \<noteq> of_nat (n - 7) else bh_seq_no b p = of_nat (Suc n))"
    using sz' bs by (auto simp: ct'_def)
  have bj: "b (512 * i + j) = fbytes f' (512 * i + j)" if "i < 8" "j < 512" for i j
    using b(1) slot_bytes [OF that] by blast
  have "sb_mem (wr x 0 (rd m2 p (unat (bh_real_size m2 p)))) (Suc (Suc n)) c' \<or>
      sb_mem (wr x 0 (rd m2 p (unat (bh_real_size m2 p)))) (Suc n) c"
  proof (cases "p = 512 * (n mod 8)")
    case True
    have r: "n mod 8 < 8" "n mod 8 \<noteq> ?s" by (simp_all add: Suc_div_mod8)
    have "b (p + j) = fbytes ?f (p + j)" if "j < 512" for j
      using bj [OF r(1) that] ws(4) [OF _ r that] True by simp
    note e = block_cong(7,8) [of b p "fbytes ?f" p, OF this]
    have "sb_slot (fbytes ?f) p (of_nat n)"
      using ok [unfolded slots_ok_def, rule_format, OF r(1)] True by (simp add: version_in_self)
    then show ?thesis using read_slot [OF _ b(2), of n x] c e True by simp
  next
    case False
    with p have p: "p = 512 * ?s" and a: "get16 b (p + 510) = bh_seq_no b p"
      "if ?s = 0 then bh_seq_no b p \<noteq> of_nat (n - 7) else bh_seq_no b p = of_nat (Suc n)"
      by blast+
    have "b (p + j) = fbytes f' (p + j)" if "j < 512" for j using bj [of ?s j] that p by simp
    note e = block_cong [of b p "fbytes f'" p, OF this]
    have a': "get16 (fbytes f') (p + 510) = bh_seq_no (fbytes f') p"
      "if ?s = 0 then bh_seq_no (fbytes f') p \<noteq> of_nat (n - 7)
       else bh_seq_no (fbytes f') p = of_nat (Suc n)"
      using a by (simp_all only: e(4,5))
    have "fbytes f' (p + j) = m1 (0 + j)" if "j < 512" for j
      unfolding p add_0
      by (rule partial_write_accepted [OF ok m1(1) w sz a' [unfolded p] that])
    note e' = block_cong [of "fbytes f'" p m1 0, OF this]
    have "sb_slot b p (of_nat (Suc n))" "disk_content b p = c'"
      using e(7,8) e'(7,8) m1 by simp_all
    then show ?thesis using read_slot [OF _ b(2)] by blast
  qed
  moreover have "sb_disk ct' (Suc n) c'" if "k = 512"
    using full_write_ok [OF ok m1(1) w [unfolded that] sz] sz' bs m1(2)
    by (simp add: sb_disk_def ct'_def)
  ultimately show ?thesis using up w sb' rd ws(3) by (auto simp: ct'_def)
qed

lemma init_super_block:
  assumes m: "sb_mem sb 0 c" and bs: "dc_block_size ct = 4096" and "io_seek io" "io_malloc io"
    "4096 \<le> io_xfer io"
  shows "\<exists>sb' ct'. ofs_init_super_block io ct sb = Some (Inr (), sb', ct') \<and>
    sb_disk ct' 0 c \<and> sb_mem sb' 1 c"
proof -
  have h: "sb_head sb 0" "wf_block sb 0"
    using m sb_head_wf [of sb 0] by (simp_all add: sb_mem_def)
  obtain m1 where m1: "assemble_block sb 0 = Some m1" using h(2) by (simp add: assemble_block_Some)
  note s1 = sb_mem_assemble [OF m m1]
  then have h1: "sb_head m1 0" "bh_seq_no m1 0 = of_nat 0" by (simp_all add: sb_slot_def)
  obtain off where off: "pingpong_off ct m1 = Some off" "unat off = 0"
    using pingpong_off_sb [OF h1 bs] by auto
  from sb_slot_accepted(4) [OF s1(1)] obtain sb' where sb': "fixup_block m1 0 = Some (Inr (), sb')"
    by blast
  note fc = fixup_content [OF s1(1) sb']
  define b where "b = wr (\<lambda>_. 0) 0 (rd m1 0 512)"
  obtain k f' where w: "os_file_write io (dc_disk ct) (rd b 0 4096) 0 = (k, f')" by fastforce
  note ws = os_file_write_bytes [OF w]
  have k: "k = 4096" using ws(1) assms(5) by simp
  have fb: "fbytes f' j = b j" if "j < 4096" for j using ws(4) [of j] that k by simp
  have ne: "rd b 0 4096 \<noteq> []" by (simp flip: length_0_conv)
  have up: "ofs_update_block io ct (rd b 0 4096) 0 0 = Some (Inr 4096, ct\<lparr> dc_disk := f' \<rparr>)"
    using os_disk_pwrite_Inr [OF assms(3) _ ne, of 0] w k ne by (simp add: ofs_update_block_def)
  have r1: "unat (bh_real_size m1 0) = 512" using h1 by (simp add: sb_head_def)
  have chk: "check_block ct sb = Inr ()"
    using h(1) bs by (simp add: check_block_def sb_head_def)
  have "ofs_init_super_block io ct sb = Some (Inr (), sb', ct\<lparr> dc_disk := f' \<rparr>)"
    using assms(4) off up bs
    by (simp add: ofs_init_super_block_def ofs_update_block_pingpong_init_def chk m1 r1 sb'
      Let_def b_def [symmetric])
  moreover have "sb_mem sb' 1 c" using fc s1(2) by (simp add: sb_mem_def)
  moreover have "sb_disk (ct\<lparr> dc_disk := f' \<rparr>) 0 c"
  proof -
    have "fbytes f' (0 + j) = m1 (0 + j)" if "j < 512" for j
      using fb [of j] that by (simp add: b_def wr_def)
    note e = block_cong [of "fbytes f'" 0 m1 0, OF this]
    have z: "fbytes f' (512 * i + j) = 0" if "i < 8" "i \<noteq> 0" "j < 512" for i j
      using fb [OF slot_bytes [OF that(1,3)]] that(2) by (simp add: b_def wr_def)
    have "slots_ok (fbytes f') 0"
      using z s1(1) e(7) by (auto simp: slots_ok_def version_in_def)
    then show ?thesis using bs ws(3) k s1(2) e(8) by (simp add: sb_disk_def)
  qed
  ultimately show ?thesis by blast
qed

text \<open>Block \<open>vbn\<close> of the file holds block \<open>m\<close> of memory, as the fixup writes it.\<close>

definition block_off :: "disk_ct \<Rightarrow> u64 \<Rightarrow> nat" where
  "block_off ct vbn = unat (push_bit 9 (vbn * ucast (dc_sectors_per_block ct)))"

definition stored :: "disk_ct \<Rightarrow> u64 \<Rightarrow> buf \<Rightarrow> bool" where
  "stored ct vbn m \<longleftrightarrow> (\<exists>m1. assemble_block m 0 = Some m1 \<and>
     block_off ct vbn + unat (bh_alloc_size m 0) \<le> fsize (dc_disk ct) \<and>
     rd (fbytes (dc_disk ct)) (block_off ct vbn) (unat (bh_alloc_size m 0)) = rd m1 0 (unat (bh_alloc_size m 0)))"

lemma update_fixup:
  assumes m: "wf_block m 0" "bh_alloc_size m 0 = alloc" and io: "io_seek io"
    and off: "block_off ct vbn < 2 ^ 63"
  shows "\<exists>m1 m2. assemble_block m 0 = Some m1 \<and> (\<forall>i. i < 12 \<or> 16 \<le> i \<longrightarrow> m2 i = m i) \<and>
    bh_seq_no m2 0 = bh_seq_no m 0 + 1 \<and>
    ofs_update_block_fixup io ct m vbn =
      (let (k, f) = os_file_write io (dc_disk ct) (rd m1 0 (unat alloc)) (block_off ct vbn)
       in Some (Inr k, m2, ct\<lparr> dc_disk := f \<rparr>))"
proof -
  obtain m1 where m1: "assemble_block m 0 = Some m1" using m(1) by (simp add: assemble_block_Some)
  note f1 = assemble_block_fields [OF m(1) m1]
  from fixup_assembled [OF m(1) m1] obtain m2 where m2: "fixup_block m1 0 = Some (Inr (), m2)"
    "bh_seq_no m2 0 = bh_seq_no m 0 + 1" "\<forall>i. i < 12 \<or> 16 \<le> i \<longrightarrow> m2 i = m i" by auto
  have "18 \<le> unat alloc" using m by (simp add: wf_block_def)
  then have ne: "rd m1 0 (unat alloc) \<noteq> []" by (simp flip: length_0_conv)
  have "ofs_update_block io ct (rd m1 0 (unat alloc)) 0 vbn =
      (let (k, f) = os_file_write io (dc_disk ct) (rd m1 0 (unat alloc)) (block_off ct vbn)
       in Some (Inr k, ct\<lparr> dc_disk := f \<rparr>))"
    using os_disk_pwrite_Inr [OF io off [unfolded block_off_def] ne] ne
    by (simp add: ofs_update_block_def block_off_def Let_def split: prod.split)
  then have "ofs_update_block_fixup io ct m vbn =
      (let (k, f) = os_file_write io (dc_disk ct) (rd m1 0 (unat alloc)) (block_off ct vbn)
       in Some (Inr k, m2, ct\<lparr> dc_disk := f \<rparr>))"
    using m1 m2(1) f1(2) m(2) by (simp add: ofs_update_block_fixup_def Let_def split: prod.split)
  with m1 m2 show ?thesis by blast
qed

text \<open>Whatever the file layer does, only the bytes of the block change, and a full count means it is stored.\<close>

lemma update_fixup_any:
  assumes m: "wf_block m 0" "bh_alloc_size m 0 = alloc" and off: "block_off ct vbn < 2 ^ 63"
  shows "\<exists>ret m2 f. ofs_update_block_fixup io ct m vbn = Some (ret, m2, ct\<lparr> dc_disk := f \<rparr>) \<and>
    (\<forall>i. i < 12 \<or> 16 \<le> i \<longrightarrow> m2 i = m i) \<and> bh_seq_no m2 0 = bh_seq_no m 0 + 1 \<and>
    fsize (dc_disk ct) \<le> fsize f \<and>
    (\<forall>i < fsize (dc_disk ct). i < block_off ct vbn \<or> block_off ct vbn + unat alloc \<le> i \<longrightarrow>
       fbytes f i = fbytes (dc_disk ct) i) \<and>
    (ret = Inr (unat alloc) \<longrightarrow> stored (ct\<lparr> dc_disk := f \<rparr>) vbn m) \<and>
    (ret = Inr (unat alloc) \<longleftrightarrow> io_seek io \<and> unat alloc \<le> io_xfer io)"
proof (cases "io_seek io")
  case True
  from update_fixup [OF m True off] obtain m1 m2 where up:
    "assemble_block m 0 = Some m1" "\<forall>i. i < 12 \<or> 16 \<le> i \<longrightarrow> m2 i = m i" "bh_seq_no m2 0 = bh_seq_no m 0 + 1"
    "ofs_update_block_fixup io ct m vbn =
      (let (k, f) = os_file_write io (dc_disk ct) (rd m1 0 (unat alloc)) (block_off ct vbn)
       in Some (Inr k, m2, ct\<lparr> dc_disk := f \<rparr>))" by blast
  obtain k f where w: "os_file_write io (dc_disk ct) (rd m1 0 (unat alloc)) (block_off ct vbn) = (k, f)"
    by fastforce
  note ws = os_file_write_bytes [OF w]
  have k: "k = min (unat alloc) (io_xfer io)" using ws(1) by simp
  have "stored (ct\<lparr> dc_disk := f \<rparr>) vbn m" if "k = unat alloc"
  proof -
    have "rd (fbytes f) (block_off ct vbn) (unat alloc) = rd m1 0 (unat alloc)"
      by (rule nth_equalityI) (use ws(4) that in simp_all)
    moreover have "k \<noteq> 0" using that m by (simp add: wf_block_def)
    ultimately show ?thesis using up(1) ws(3) that m(2) by (simp add: stored_def block_off_def)
  qed
  moreover have "k = unat alloc \<longleftrightarrow> unat alloc \<le> io_xfer io" using k by linarith
  ultimately show ?thesis using up w k ws(2,5) True
    by (intro exI [of _ "Inr k"] exI [of _ m2] exI [of _ f]) auto
next
  case False
  obtain m1 where m1: "assemble_block m 0 = Some m1" using m(1) by (simp add: assemble_block_Some)
  note f1 = assemble_block_fields [OF m(1) m1]
  from fixup_assembled [OF m(1) m1] obtain m2 where m2: "fixup_block m1 0 = Some (Inr (), m2)"
    "bh_seq_no m2 0 = bh_seq_no m 0 + 1" "\<forall>i. i < 12 \<or> 16 \<le> i \<longrightarrow> m2 i = m i" by auto
  have "18 \<le> unat alloc" using m by (simp add: wf_block_def)
  then have ne: "rd m1 0 (unat alloc) \<noteq> []" by (simp flip: length_0_conv)
  have "ofs_update_block_fixup io ct m vbn = Some (Inl FILE_IO_ERR_SEEK, m2, ct\<lparr> dc_disk := dc_disk ct \<rparr>)"
    using False m1 m2(1) f1(2) m(2) ne
    by (simp add: ofs_update_block_fixup_def ofs_update_block_def os_disk_pwrite_def os_file_pwrite_def
        os_file_seek_def)
  with m2 False show ?thesis
    by (intro exI [of _ "Inl FILE_IO_ERR_SEEK"] exI [of _ m2] exI [of _ "dc_disk ct"]) simp
qed

lemma update_fixup_stored:
  assumes m: "wf_block m 0" "bh_alloc_size m 0 = alloc"
    and io: "io_seek io" "unat alloc \<le> io_xfer io" and off: "block_off ct vbn < 2 ^ 63"
  shows "\<exists>m2 f. ofs_update_block_fixup io ct m vbn = Some (Inr (unat alloc), m2, ct\<lparr> dc_disk := f \<rparr>) \<and>
    stored (ct\<lparr> dc_disk := f \<rparr>) vbn m \<and> (\<forall>i. i < 12 \<or> 16 \<le> i \<longrightarrow> m2 i = m i) \<and>
    bh_seq_no m2 0 = bh_seq_no m 0 + 1"
  using update_fixup_any [OF m off, of io] io by auto

lemma stored_cong:
  assumes "stored ct vbn m" "dc_sectors_per_block ct' = dc_sectors_per_block ct"
    "fsize (dc_disk ct) \<le> fsize (dc_disk ct')"
    "\<And>i. block_off ct vbn \<le> i \<Longrightarrow> i < block_off ct vbn + unat (bh_alloc_size m 0) \<Longrightarrow>
       fbytes (dc_disk ct') i = fbytes (dc_disk ct) i"
  shows "stored ct' vbn m"
proof -
  have "block_off ct' vbn = block_off ct vbn" using assms(2) by (simp add: block_off_def)
  moreover have "rd (fbytes (dc_disk ct')) (block_off ct vbn) (unat (bh_alloc_size m 0)) =
      rd (fbytes (dc_disk ct)) (block_off ct vbn) (unat (bh_alloc_size m 0))"
    by (rule rd_eqI) (use assms(4) in simp)
  ultimately show ?thesis using assms(1,3) by (auto simp: stored_def)
qed

lemma stored_read:
  assumes st: "stored ct vbn m"
    and m: "wf_block m 0" "16 \<le> bh_real_size m 0" "bh_blk_id m 0 = blk_id" "blk_id \<noteq> 0"
      "bh_alloc_size m 0 = alloc"
    and io: "io_seek io" "unat alloc \<le> io_xfer io" and off: "block_off ct vbn < 2 ^ 63"
  shows "\<exists>m3. ofs_read_block_fixup io ct junk vbn blk_id alloc = Some (Inr (), m3) \<and>
    (\<forall>i < unat alloc. i < 12 \<or> 16 \<le> i \<longrightarrow> m3 i = m i) \<and> bh_seq_no m3 0 = bh_seq_no m 0 + 1"
proof -
  let ?A = "unat alloc"
  obtain m1 where m1: "assemble_block m 0 = Some m1" "block_off ct vbn + ?A \<le> fsize (dc_disk ct)"
    "rd (fbytes (dc_disk ct)) (block_off ct vbn) ?A = rd m1 0 ?A"
    using st m(5) by (auto simp: stored_def)
  note f1 = assemble_block_fields [OF m(1) m1(1)]
  have A: "18 \<le> ?A" using m(1,5) by (simp add: wf_block_def)
  have "ofs_read_block io ct ?A 0 vbn = Some (Inr (rd m1 0 ?A))"
    using os_disk_pread_Inr [OF io(1) off [unfolded block_off_def], of ?A] A io(2) m1(2,3)
    by (simp add: ofs_read_block_def block_off_def)
  moreover define b where "b = wr junk 0 (rd m1 0 ?A)"
  have bi: "b i = m1 i" if "i < ?A" for i using that by (simp add: b_def wr_def)
  have bf: "bh_blk_id b 0 = blk_id" "bh_alloc_size b 0 = alloc" "bh_real_size b 0 = bh_real_size m 0"
    "bh_seq_no b 0 = bh_seq_no m 0" "get16 b (?A - 2) = bh_seq_no m 0" "bh_fixup b 0 = bh_fixup m1 0"
    using f1 m A get_cong [of b 0 m1 0] get_cong [of b 4 m1 4] get_cong [of b 8 m1 8]
      get_cong [of b 12 m1 12] get_cong [of b 14 m1 14] get_cong [of b "?A - 2" m1 "?A - 2"]
    by (simp_all add: bh_defs bi foot_off_def)
  have wf: "wf_block b 0" "foot_off b 0 = ?A - 2"
    using m bf by (simp_all add: wf_block_def foot_off_def)
  have ft: "foot_off m 0 = ?A - 2" using m(5) by (simp add: foot_off_def)
  from fixup_intact [OF wf(1)] obtain m3 where m3: "fixup_block b 0 = Some (Inr (), m3)"
    "bh_seq_no m3 0 = bh_seq_no m 0 + 1" "rd m3 (?A - 2) 2 = rd b 14 2"
    "\<forall>i. (i < 12 \<or> 16 \<le> i) \<and> i < ?A - 2 \<longrightarrow> m3 i = b i"
    using bf wf(2) A by auto
  have "verify_block b 0 blk_id alloc = Some (Inr ())"
    using bf m A by (auto simp: verify_block_def wf_block_def not_less)
  ultimately have rdx: "ofs_read_block_fixup io ct junk vbn blk_id alloc = Some (Inr (), m3)"
    using m3(1) by (simp add: ofs_read_block_fixup_def b_def)
  have "get16 b 14 = get16 m (?A - 2)" using bf(6) f1(6) ft by (simp add: bh_defs)
  then have foot: "rd m3 (?A - 2) 2 = rd m (?A - 2) 2" using m3(3) by (simp only: get16_inject)
  have "m3 i = m i" if "i < ?A" "i < 12 \<or> 16 \<le> i" for i
  proof (cases "i < ?A - 2")
    case True
    then show ?thesis using m3(4) that bi [OF that(1)] f1(8) [of i] ft by auto
  next
    case False
    then have "i = ?A - 2 + 0 \<or> i = ?A - 2 + 1" using that(1) by linarith
    then show ?thesis
      using foot [unfolded rd_eq_iff, rule_format, of 0] foot [unfolded rd_eq_iff, rule_format, of 1]
      by auto
  qed
  with rdx m3(2) show ?thesis by blast
qed

lemma fixup_write_read:
  assumes m: "wf_block m 0" "16 \<le> bh_real_size m 0" "bh_blk_id m 0 = blk_id" "blk_id \<noteq> 0"
      "bh_alloc_size m 0 = alloc"
    and io: "io_seek io" "unat alloc \<le> io_xfer io" "io_seek io2" "unat alloc \<le> io_xfer io2"
    and off: "block_off ct vbn < 2 ^ 63"
  shows "\<exists>m2 ct2 m3. ofs_update_block_fixup io ct m vbn = Some (Inr (unat alloc), m2, ct2) \<and>
    ofs_read_block_fixup io2 ct2 junk vbn blk_id alloc = Some (Inr (), m3) \<and>
    (\<forall>i < unat alloc. i < 12 \<or> 16 \<le> i \<longrightarrow> m2 i = m i \<and> m3 i = m i) \<and>
    bh_seq_no m2 0 = bh_seq_no m 0 + 1 \<and> bh_seq_no m3 0 = bh_seq_no m 0 + 1"
proof -
  from update_fixup_stored [OF m(1,5) io(1,2) off] obtain m2 f where
    up: "ofs_update_block_fixup io ct m vbn = Some (Inr (unat alloc), m2, ct\<lparr> dc_disk := f \<rparr>)"
      "stored (ct\<lparr> dc_disk := f \<rparr>) vbn m" "\<forall>i. i < 12 \<or> 16 \<le> i \<longrightarrow> m2 i = m i"
      "bh_seq_no m2 0 = bh_seq_no m 0 + 1" by blast
  have "block_off (ct\<lparr> dc_disk := f \<rparr>) vbn < 2 ^ 63" using off by (simp add: block_off_def)
  from stored_read [OF up(2) m io(3,4) this, of junk] up show ?thesis by blast
qed

text \<open>A super block image with nothing but its header, for the concrete instances below.\<close>

definition sb_image :: "nat \<Rightarrow> buf" where
  "sb_image n = put16 (put32 (put32 (put32 (\<lambda>_. 0) 0 0x4B4C4253) 4 512) 8 512) 12 (of_nat n)"

lemma sb_image_fields:
  "get32 (sb_image n) 0 = 0x4B4C4253" "get32 (sb_image n) 4 = 512" "get32 (sb_image n) 8 = 512"
  "get16 (sb_image n) 12 = of_nat n"
  by (simp_all add: sb_image_def buf_simps)

lemma sb_mem_image: "sb_mem (sb_image n) n (mem_content (sb_image n) 0)"
  by (simp add: sb_mem_def sb_head_def bh_defs sb_image_fields)

definition fresh_ct :: disk_ct where
  "fresh_ct = \<lparr> dc_disk = \<lparr> fsize = 0, fbytes = (\<lambda>_. 0) \<rparr>, dc_block_size = 4096,
                dc_sectors_per_block = 8 \<rparr>"

lemma sb_disk_exists: "\<exists>ct. sb_disk ct 0 (mem_content (sb_image 0) 0)"
proof -
  have "dc_block_size fresh_ct = 4096" "io_seek io_ok" "io_malloc io_ok" "4096 \<le> io_xfer io_ok"
    by (simp_all add: fresh_ct_def io_ok_def)
  from init_super_block [OF sb_mem_image this] show ?thesis by blast
qed

section \<open>Properties\<close>

text \<open>C19: crash safety of the super block. Block 0 holds the last eight versions up to version
  \<open>n\<close> with content \<open>c\<close>, and version \<open>n + 1\<close> with content \<open>c'\<close> is written,
  the write transferring any number of bytes (a torn or failed write included). The update never aborts;
  whatever reached the disk, the next read succeeds and gives version \<open>n + 1\<close> with content
  \<open>c'\<close> or version \<open>n\<close> with content \<open>c\<close>, complete, ready for the next sequence
  number.\<close>

theorem super_block_crash_safe:
  assumes "sb_disk ct n c" "sb_mem sb (Suc n) c'" "io_seek io"
  shows "\<exists>r sb' ct' sb2. ofs_update_super_block io ct sb = Some (r, sb', ct') \<and>
    ofs_read_super_block io_ok junk ct' x = Some (Inr (), sb2) \<and>
    (sb_mem sb2 (Suc (Suc n)) c' \<or> sb_mem sb2 (Suc n) c)"
  using read_after_write [OF assms, of junk x] by blast

theorem super_block_crash_safe_witness:
  "\<exists>ct r sb' ct' sb2. ofs_update_super_block io_ok ct (sb_image 1) = Some (r, sb', ct') \<and>
    ofs_read_super_block io_ok (\<lambda>_. 0) ct' (\<lambda>_. 0) = Some (Inr (), sb2) \<and>
    (sb_mem sb2 2 (mem_content (sb_image 1) 0) \<or> sb_mem sb2 1 (mem_content (sb_image 0) 0))"
proof -
  obtain ct where ct: "sb_disk ct 0 (mem_content (sb_image 0) 0)" using sb_disk_exists by blast
  have m: "sb_mem (sb_image 1) (Suc 0) (mem_content (sb_image 1) 0)" using sb_mem_image [of 1] by simp
  have "io_seek io_ok" by (simp add: io_ok_def)
  from super_block_crash_safe [OF ct m this, of "\<lambda>_. 0" "\<lambda>_. 0"] show ?thesis
    by (simp only: numeral_2_eq_2 One_nat_def) blast
qed

text \<open>C20: a complete update of the super block succeeds, keeps the ping-pong invariant with the new
  version as the last one, and the in-memory block is ready for the version after it; so any number of
  updates can follow, through the wrap-around of the 16 bit sequence number.\<close>

theorem super_block_update_ok:
  assumes "sb_disk ct n c" "sb_mem sb (Suc n) c'" "io_seek io" "512 \<le> io_xfer io"
  shows "\<exists>sb' ct'. ofs_update_super_block io ct sb = Some (Inr (), sb', ct') \<and>
    sb_disk ct' (Suc n) c' \<and> sb_mem sb' (Suc (Suc n)) c'"
  using read_after_write [OF assms(1,2,3)] assms(4) by blast

theorem super_block_update_ok_witness:
  "\<exists>ct sb' ct'. ofs_update_super_block io_ok ct (sb_image 1) = Some (Inr (), sb', ct') \<and>
    sb_disk ct' 1 (mem_content (sb_image 1) 0) \<and> sb_mem sb' 2 (mem_content (sb_image 1) 0)"
proof -
  obtain ct where ct: "sb_disk ct 0 (mem_content (sb_image 0) 0)" using sb_disk_exists by blast
  have m: "sb_mem (sb_image 1) (Suc 0) (mem_content (sb_image 1) 0)" using sb_mem_image [of 1] by simp
  have "io_seek io_ok" "512 \<le> io_xfer io_ok" by (simp_all add: io_ok_def)
  from super_block_update_ok [OF ct m this] show ?thesis
    by (simp only: numeral_2_eq_2 One_nat_def) blast
qed

text \<open>Initialising the super block of a new container (the disk file of any size and content)
  establishes the ping-pong invariant with the initial version as the last one.\<close>

theorem super_block_init_ok:
  assumes "sb_mem sb 0 c" "dc_block_size ct = 4096" "io_seek io" "io_malloc io" "4096 \<le> io_xfer io"
  shows "\<exists>sb' ct'. ofs_init_super_block io ct sb = Some (Inr (), sb', ct') \<and>
    sb_disk ct' 0 c \<and> sb_mem sb' 1 c"
  using assms by (rule init_super_block)

theorem super_block_init_ok_witness:
  "\<exists>sb' ct'. ofs_init_super_block io_ok fresh_ct (sb_image 0) = Some (Inr (), sb', ct') \<and>
    sb_disk ct' 0 (mem_content (sb_image 0) 0) \<and> sb_mem sb' 1 (mem_content (sb_image 0) 0)"
  by (rule super_block_init_ok [OF sb_mem_image]) (simp_all add: fresh_ct_def io_ok_def)

text \<open>C34: a block written with a fixup and read back is the block, its sequence number increased by one
  in memory on both sides; only the sequence number and the fixup field differ from before the write.\<close>

theorem block_fixup_write_read:
  assumes "wf_block m 0" "16 \<le> bh_real_size m 0" "bh_blk_id m 0 \<noteq> 0"
    and "io_seek io" "unat (bh_alloc_size m 0) \<le> io_xfer io"
    and "io_seek io2" "unat (bh_alloc_size m 0) \<le> io_xfer io2"
    and "unat (push_bit 9 (vbn * ucast (dc_sectors_per_block ct))) < 2 ^ 63"
  shows "\<exists>m2 ct2 m3.
    ofs_update_block_fixup io ct m vbn = Some (Inr (unat (bh_alloc_size m 0)), m2, ct2) \<and>
    ofs_read_block_fixup io2 ct2 junk vbn (bh_blk_id m 0) (bh_alloc_size m 0) = Some (Inr (), m3) \<and>
    (\<forall>i < unat (bh_alloc_size m 0). i < 12 \<or> 16 \<le> i \<longrightarrow> m2 i = m i \<and> m3 i = m i) \<and>
    bh_seq_no m2 0 = bh_seq_no m 0 + 1 \<and> bh_seq_no m3 0 = bh_seq_no m 0 + 1"
  using assms by (intro fixup_write_read) (simp_all add: block_off_def)

theorem block_fixup_write_read_witness:
  "\<exists>m2 ct2 m3. ofs_update_block_fixup io_ok fresh_ct (sb_image 5) 3 = Some (Inr 512, m2, ct2) \<and>
    ofs_read_block_fixup io_ok ct2 (\<lambda>_. 0) 3 0x4B4C4253 512 = Some (Inr (), m3) \<and>
    bh_seq_no m3 0 = 6"
proof -
  have "wf_block (sb_image 5) 0" "16 \<le> bh_real_size (sb_image 5) 0" "bh_blk_id (sb_image 5) 0 \<noteq> 0"
    "io_seek io_ok" "unat (bh_alloc_size (sb_image 5) 0) \<le> io_xfer io_ok"
    "unat (push_bit 9 (3 * ucast (dc_sectors_per_block fresh_ct)) :: u64) < 2 ^ 63"
    by (simp_all add: wf_block_def bh_defs sb_image_fields io_ok_def fresh_ct_def)
  from block_fixup_write_read [OF this(1-5) this(4,5) this(6), of "\<lambda>_. 0"] show ?thesis
    by (simp add: bh_defs sb_image_fields) blast
qed

end
