(* ===== verification/Avl.thy ===== *)
theory Avl
  imports OfsPrelude
begin

text \<open>
  The AVL trees of \<open>public/avl.c\<close>, which hold the block caches, the opened objects and the
  containers. A node is the datatype constructor with its stored balance; the parent pointer and child
  index of a node are the frame list that leads from the node to the root (the innermost frame first),
  so a node pointer is a pair of a subtree and its frames, and following \<open>AVL_XPARENT\<close> is
  consuming a frame. A child index is a bool, \<open>False\<close> for 0 and \<open>True\<close> for 1.
  \<open>None\<close> is a failed \<open>ASSERT\<close> or a NULL dereference.
\<close>

section \<open>Trees and positions\<close>

datatype 'a avl = ANil | ANode "'a avl" 'a int "'a avl"

fun avl_child :: "bool \<Rightarrow> 'a avl \<Rightarrow> 'a avl" where
  "avl_child c ANil = ANil"
| "avl_child c (ANode l a b r) = (if c then r else l)"

text \<open>The node with data \<open>a\<close> and balance \<open>b\<close> whose child \<open>c\<close> is \<open>x\<close>, the other one \<open>y\<close>.\<close>

definition mk_node :: "bool \<Rightarrow> 'a \<Rightarrow> int \<Rightarrow> 'a avl \<Rightarrow> 'a avl \<Rightarrow> 'a avl" where
  "mk_node c a b x y = (if c then ANode y a b x else ANode x a b y)"

text \<open>A frame: the child index below, the parent's data and balance, the parent's other child.\<close>

type_synonym 'a frame = "bool \<times> 'a \<times> int \<times> 'a avl"
type_synonym 'a pos = "'a avl \<times> 'a frame list"

primrec plug :: "'a avl \<Rightarrow> 'a frame list \<Rightarrow> 'a avl" where
  "plug t [] = t"
| "plug t (f # fs) = (case f of (c, a, b, s) \<Rightarrow> plug (mk_node c a b t s) fs)"

record 'a avl_tree =
  avl_root :: "'a avl"
  avl_numnodes :: nat

definition avl_create :: "'a avl_tree" where
  "avl_create = \<lparr> avl_root = ANil, avl_numnodes = 0 \<rparr>"

definition avl_destroy :: "'a avl_tree \<Rightarrow> unit option" where
  "avl_destroy tree =
     (if avl_numnodes tree = 0 \<and> avl_root tree = ANil then Some () else None)"

definition avl_is_empty :: "'a avl_tree \<Rightarrow> bool" where
  "avl_is_empty tree = (avl_numnodes tree = 0)"

section \<open>Walking\<close>

text \<open>Down the children of one index as far as possible.\<close>

fun down :: "bool \<Rightarrow> 'a avl \<Rightarrow> 'a frame list \<Rightarrow> 'a pos" where
  "down c ANil fs = (ANil, fs)"
| "down c (ANode l a b r) fs =
     (if c then (if r = ANil then (ANode l a b r, fs) else down c r ((True, a, b, l) # fs))
      else (if l = ANil then (ANode l a b r, fs) else down c l ((False, a, b, r) # fs)))"

text \<open>Up until the step came from child \<open>right\<close>.\<close>

fun up_from :: "bool \<Rightarrow> 'a avl \<Rightarrow> 'a frame list \<Rightarrow> 'a pos option" where
  "up_from right t [] = None"
| "up_from right t ((c, a, b, s) # fs) =
     (if c = right then Some (mk_node c a b t s, fs) else up_from right (mk_node c a b t s) fs)"

fun avl_walk :: "'a pos \<Rightarrow> bool \<Rightarrow> 'a pos option" where
  "avl_walk (ANil, fs) left = None"
| "avl_walk (ANode l a b r, fs) left =
     (if avl_child left (ANode l a b r) \<noteq> ANil
      then Some (down (\<not> left) (avl_child left (ANode l a b r))
                   ((left, a, b, avl_child (\<not> left) (ANode l a b r)) # fs))
      else up_from (\<not> left) (ANode l a b r) fs)"

definition avl_first :: "'a avl_tree \<Rightarrow> 'a pos option" where
  "avl_first tree = (if avl_root tree = ANil then None else Some (down False (avl_root tree) []))"

definition avl_last :: "'a avl_tree \<Rightarrow> 'a pos option" where
  "avl_last tree = (if avl_root tree = ANil then None else Some (down True (avl_root tree) []))"

text \<open>
  An insertion point (\<open>avl_index_t\<close>) is the frame list of the empty place; no frame is the NULL node.
\<close>

fun avl_nearest :: "'a avl_tree \<Rightarrow> 'a frame list \<Rightarrow> bool \<Rightarrow> 'a pos option option" where
  "avl_nearest tree [] direction = (if avl_root tree = ANil then Some None else None)"
| "avl_nearest tree ((c, a, b, s) # fs) direction =
     (if c \<noteq> direction then Some (Some (mk_node c a b ANil s, fs))
      else Some (avl_walk (mk_node c a b ANil s, fs) direction))"

section \<open>Finding\<close>

definition avl_balance2child :: "int \<Rightarrow> bool" where
  "avl_balance2child d = (d = 1)"

definition avl_child2balance :: "bool \<Rightarrow> int" where
  "avl_child2balance c = (if c then 1 else -1)"

datatype 'a found = Found "'a pos" | Where "'a frame list"

fun find_from :: "('a \<Rightarrow> int) \<Rightarrow> 'a avl \<Rightarrow> 'a frame list \<Rightarrow> 'a found option" where
  "find_from compare ANil fs = Some (Where fs)"
| "find_from compare (ANode l a b r) fs =
     (let diff = compare a in
      if \<not> (-1 \<le> diff \<and> diff \<le> 1) then None
      else if diff = 0 then Some (Found (ANode l a b r, fs))
      else if avl_balance2child diff then find_from compare r ((True, a, b, l) # fs)
      else find_from compare l ((False, a, b, r) # fs))"

definition avl_find :: "'a avl_tree \<Rightarrow> ('a \<Rightarrow> int) \<Rightarrow> 'a found option" where
  "avl_find tree compare = find_from compare (avl_root tree) []"

section \<open>Rotation\<close>

text \<open>
  The subtree that replaces the one at \<open>node\<close>, and whether it became shorter. The stored balance of
  \<open>node\<close> is not read: the new balance, -2 or 2, is the argument. \<open>balance >> 1\<close> is the floor
  division by 2. The caller plugs the result into the frames of \<open>node\<close>.
\<close>

definition avl_rotation :: "'a avl \<Rightarrow> int \<Rightarrow> ('a avl \<times> bool) option" where
  "avl_rotation node balance =
     (let left = (\<not> balance < 0);
          right = (\<not> left);
          left_heavy = balance div 2;
          right_heavy = - left_heavy
      in case node of ANil \<Rightarrow> None | ANode _ a _ _ \<Rightarrow>
         let other = avl_child right node in
         case avl_child left node of ANil \<Rightarrow> None | ANode cl ca child_bal cr \<Rightarrow>
         let child = ANode cl ca child_bal cr in
         if child_bal \<noteq> right_heavy then
           let child_bal = child_bal + right_heavy;
               cright = avl_child right child;
               node' = mk_node left a (- child_bal) cright other
           in Some (mk_node right ca child_bal node' (avl_child left child), child_bal = 0)
         else
           (case avl_child right child of ANil \<Rightarrow> None | ANode gl ga gbal gr \<Rightarrow>
            let gchild = ANode gl ga gbal gr;
                gleft = avl_child left gchild;
                gright = avl_child right gchild;
                child' = mk_node right ca (if gbal = right_heavy then left_heavy else 0)
                           gleft (avl_child left child);
                node' = mk_node left a (if gbal = left_heavy then right_heavy else 0) gright other
            in Some (mk_node left ga 0 child' node', True)))"

section \<open>Insertion\<close>

text \<open>The loop of \<open>avl_insert\<close>: \<open>t\<close> is the subtree that grew, the frames are the way up.\<close>

fun insert_up :: "'a avl \<Rightarrow> 'a frame list \<Rightarrow> 'a avl option" where
  "insert_up t [] = Some t"
| "insert_up t ((c, a, b, s) # fs) =
     (let new_balance = b + avl_child2balance c
      in if new_balance = 0 then Some (plug (mk_node c a 0 t s) fs)
         else if b \<noteq> 0 then
           (case avl_rotation (mk_node c a b t s) new_balance of
              None \<Rightarrow> None
            | Some (t', _) \<Rightarrow> Some (plug t' fs))
         else insert_up (mk_node c a new_balance t s) fs)"

definition avl_insert :: "'a avl_tree \<Rightarrow> 'a \<Rightarrow> 'a frame list \<Rightarrow> 'a avl_tree option" where
  "avl_insert tree new_data w =
     (if w = [] \<and> avl_root tree \<noteq> ANil then None
      else case insert_up (ANode ANil new_data 0 ANil) w of
        None \<Rightarrow> None
      | Some root \<Rightarrow> Some \<lparr> avl_root = root, avl_numnodes = avl_numnodes tree + 1 \<rparr>)"

text \<open>\<open>avl_insert_here\<close>: the empty place next to \<open>here\<close>, in the neighbour if need be.\<close>

definition place_at :: "bool \<Rightarrow> 'a pos \<Rightarrow> 'a frame list option" where
  "place_at c p =
     (case p of (ANil, _) \<Rightarrow> None
      | (ANode l a b r, fs) \<Rightarrow>
          if avl_child c (ANode l a b r) = ANil
          then Some ((c, a, b, avl_child (\<not> c) (ANode l a b r)) # fs) else None)"

definition avl_insert_here :: "'a avl_tree \<Rightarrow> 'a \<Rightarrow> 'a pos \<Rightarrow> bool \<Rightarrow> 'a avl_tree option" where
  "avl_insert_here tree new_data here direction =
     (case here of (ANil, _) \<Rightarrow> None
      | (ANode l a b r, fs) \<Rightarrow>
          let t = avl_child direction (ANode l a b r);
              (p, c) = (if t \<noteq> ANil
                        then (down (\<not> direction) t
                                ((direction, a, b, avl_child (\<not> direction) (ANode l a b r)) # fs),
                              \<not> direction)
                        else (here, direction))
          in case place_at c p of None \<Rightarrow> None | Some w \<Rightarrow> avl_insert tree new_data w)"

definition avl_add :: "('a \<Rightarrow> 'a \<Rightarrow> int) \<Rightarrow> 'a avl_tree \<Rightarrow> 'a \<Rightarrow> 'a avl_tree option" where
  "avl_add compar tree new_node =
     (case avl_find tree (compar new_node) of
        Some (Where w) \<Rightarrow> avl_insert tree new_node w
      | _ \<Rightarrow> None)"

section \<open>Removal\<close>

text \<open>
  The loop of \<open>avl_remove\<close>: the subtree \<open>t\<close> below the first frame became shorter by one.
\<close>

fun remove_up :: "'a avl \<Rightarrow> 'a frame list \<Rightarrow> 'a avl option" where
  "remove_up t [] = Some t"
| "remove_up t ((c, a, b, s) # fs) =
     (let new_balance = b - avl_child2balance c
      in if b = 0 then Some (plug (mk_node c a new_balance t s) fs)
         else if new_balance = 0 then remove_up (mk_node c a 0 t s) fs
         else case avl_rotation (mk_node c a b t s) new_balance of
                None \<Rightarrow> None
              | Some (t', shorter) \<Rightarrow>
                  if shorter then remove_up t' fs else Some (plug t' fs))"

text \<open>
  The neighbour that takes the place of a node with two children is the last one on the way \<open>right\<close>
  from the child \<open>left\<close>. \<open>swap_path\<close> gives its data, its only subtree and the frames from it up
  to the child \<open>left\<close>.
\<close>

fun swap_path :: "bool \<Rightarrow> 'a avl \<Rightarrow> ('a \<times> 'a avl \<times> 'a frame list) option" where
  "swap_path right ANil = None"
| "swap_path right (ANode l a b r) =
     (if right then
        (if r = ANil then Some (a, l, [])
         else case swap_path right r of None \<Rightarrow> None
              | Some (x, t, fs) \<Rightarrow> Some (x, t, fs @ [(True, a, b, l)]))
      else
        (if l = ANil then Some (a, r, [])
         else case swap_path right l of None \<Rightarrow> None
              | Some (x, t, fs) \<Rightarrow> Some (x, t, fs @ [(False, a, b, r)])))"

definition avl_remove :: "'a avl_tree \<Rightarrow> 'a pos \<Rightarrow> 'a avl_tree option" where
  "avl_remove tree p =
     (case p of (ANil, _) \<Rightarrow> None
      | (ANode l a b r, fs) \<Rightarrow>
          if avl_numnodes tree = 0 then None
          else case
            (if l \<noteq> ANil \<and> r \<noteq> ANil then
               let left = avl_balance2child b in
               (case swap_path (\<not> left) (avl_child left (ANode l a b r)) of
                  None \<Rightarrow> None
                | Some (x, t, path) \<Rightarrow>
                    remove_up t (path @ (left, x, b, avl_child (\<not> left) (ANode l a b r)) # fs))
             else remove_up (if l \<noteq> ANil then l else r) fs)
          of None \<Rightarrow> None
           | Some root \<Rightarrow> Some \<lparr> avl_root = root, avl_numnodes = avl_numnodes tree - 1 \<rparr>)"

section \<open>Walking all nodes\<close>

text \<open>
  \<open>avl_walk_all\<close>: the next node is computed before the callback runs. The callback gets and returns
  the state it works on; a callback that changes the shape of the tree is not covered.
\<close>

partial_function (option) walk_from ::
  "('s \<Rightarrow> 'a \<Rightarrow> int \<times> 's) \<Rightarrow> 'a pos option \<Rightarrow> 's \<Rightarrow> (int \<times> 's) option" where
  "walk_from cb node st =
     (case node of None \<Rightarrow> Some (0, st)
      | Some p \<Rightarrow>
          (case p of (ANil, _) \<Rightarrow> None
           | (ANode l a b r, fs) \<Rightarrow>
               let next_node = avl_walk (ANode l a b r, fs) True;
                   (ret, st) = cb st a
               in if ret \<noteq> 0 then Some (ret, st) else walk_from cb next_node st))"

definition avl_walk_all ::
  "'a avl_tree \<Rightarrow> ('s \<Rightarrow> 'a \<Rightarrow> int \<times> 's) \<Rightarrow> 's \<Rightarrow> (int \<times> 's) option" where
  "avl_walk_all tree cb st =
     (if avl_numnodes tree = 0 then Some (0, st) else walk_from cb (avl_first tree) st)"

section \<open>Order of the elements\<close>

fun inorder :: "'a avl \<Rightarrow> 'a list" where
  "inorder ANil = []"
| "inorder (ANode l a b r) = inorder l @ a # inorder r"

fun lefts :: "'a frame list \<Rightarrow> 'a list" where
  "lefts [] = []"
| "lefts ((c, a, b, s) # fs) = lefts fs @ (if c then inorder s @ [a] else [])"

fun rights :: "'a frame list \<Rightarrow> 'a list" where
  "rights [] = []"
| "rights ((c, a, b, s) # fs) = (if c then [] else a # inorder s) @ rights fs"

lemma inorder_mk_node:
  "inorder (mk_node c a b x y) = (if c then inorder y @ a # inorder x else inorder x @ a # inorder y)"
  by (simp add: mk_node_def)

lemma mk_node_not_ANil [simp]: "mk_node c a b x y \<noteq> ANil"
  by (simp add: mk_node_def)

lemma mk_node_child [simp]:
  "mk_node c a b (avl_child c (ANode l a' b' r)) (avl_child (\<not> c) (ANode l a' b' r)) = ANode l a b r"
  by (simp add: mk_node_def)

lemma avl_child_mk_node [simp]:
  "avl_child c (mk_node c a b x y) = x" "avl_child (\<not> c) (mk_node c a b x y) = y"
  "c' = (\<not> c) \<Longrightarrow> avl_child c' (mk_node c a b x y) = y"
  by (auto simp: mk_node_def)

lemma inorder_plug: "inorder (plug t fs) = lefts fs @ inorder t @ rights fs"
  by (induction fs arbitrary: t) (auto simp: inorder_mk_node)

lemma plug_append: "plug t (fs @ gs) = plug (plug t fs) gs"
  by (induction fs arbitrary: t) auto

lemma lefts_append: "lefts (fs @ gs) = lefts gs @ lefts fs"
  by (induction fs) auto

lemma rights_append: "rights (fs @ gs) = rights fs @ rights gs"
  by (induction fs) auto

lemma inorder_Nil_iff: "inorder t = [] \<longleftrightarrow> t = ANil"
  by (cases t) auto

text \<open>The position \<open>p\<close> of tree \<open>t\<close> holds element \<open>i\<close> of the inorder list.\<close>

definition at_index :: "'a avl \<Rightarrow> nat \<Rightarrow> 'a pos \<Rightarrow> bool" where
  "at_index t i p \<longleftrightarrow> plug (fst p) (snd p) = t \<and> fst p \<noteq> ANil \<and>
     i = length (lefts (snd p)) + length (inorder (avl_child False (fst p)))"

definition pos_data :: "'a pos \<Rightarrow> 'a" where
  "pos_data p = (case fst p of ANode l a b r \<Rightarrow> a)"

lemma at_index_data: "at_index t i p \<Longrightarrow> i < length (inorder t) \<and> inorder t ! i = pos_data p"
  by (cases p; cases "fst p") (auto simp: at_index_def pos_data_def inorder_plug nth_append)

lemma down_first:
  "t \<noteq> ANil \<Longrightarrow> at_index (plug t fs) (length (lefts fs)) (down False t fs)"
proof (induction "False" t fs rule: down.induct)
  case (2 l a b r fs)
  then show ?case
    by (cases "l = ANil") (auto simp: at_index_def mk_node_def)
qed simp

lemma down_last:
  "t \<noteq> ANil \<Longrightarrow> at_index (plug t fs) (length (lefts fs) + length (inorder t) - 1) (down True t fs)"
proof (induction "True" t fs rule: down.induct)
  case (2 l a b r fs)
  then show ?case
    by (cases "r = ANil") (auto simp: at_index_def mk_node_def inorder_Nil_iff neq_Nil_conv
        dest: arg_cong [of _ _ length])
qed simp

lemma up_from_first:
  "t \<noteq> ANil \<Longrightarrow> case up_from False t fs of
     None \<Rightarrow> rights fs = []
   | Some p \<Rightarrow> rights fs \<noteq> [] \<and> at_index (plug t fs) (length (lefts fs) + length (inorder t)) p"
  by (induction "False" t fs rule: up_from.induct)
     (auto simp: at_index_def inorder_mk_node mk_node_def split: option.splits)

lemma up_from_last:
  "t \<noteq> ANil \<Longrightarrow> case up_from True t fs of
     None \<Rightarrow> lefts fs = []
   | Some p \<Rightarrow> lefts fs \<noteq> [] \<and> at_index (plug t fs) (length (lefts fs) - 1) p"
  by (induction "True" t fs rule: up_from.induct)
     (auto simp: at_index_def inorder_mk_node mk_node_def split: option.splits)

lemma walk_next:
  assumes "at_index t i p"
  shows "case avl_walk p True of None \<Rightarrow> Suc i = length (inorder t)
    | Some q \<Rightarrow> at_index t (Suc i) q"
proof (cases p)
  case (Pair n fs)
  with assms obtain l a b r where n: "n = ANode l a b r" by (cases n) (auto simp: at_index_def)
  have t: "t = plug (ANode l a b r) fs" and i: "i = length (lefts fs) + length (inorder l)"
    using assms Pair n by (auto simp: at_index_def)
  show ?thesis
  proof (cases "r = ANil")
    case True
    then show ?thesis using up_from_first [of "ANode l a b r" fs] Pair n t i
      by (auto simp: inorder_plug split: option.splits)
  next
    case False
    then show ?thesis using down_first [OF False, of "(True, a, b, l) # fs"] Pair n t i
      by (simp add: mk_node_def)
  qed
qed

lemma walk_prev:
  assumes "at_index t i p"
  shows "case avl_walk p False of None \<Rightarrow> i = 0 | Some q \<Rightarrow> 0 < i \<and> at_index t (i - 1) q"
proof (cases p)
  case (Pair n fs)
  with assms obtain l a b r where n: "n = ANode l a b r" by (cases n) (auto simp: at_index_def)
  have t: "t = plug (ANode l a b r) fs" and i: "i = length (lefts fs) + length (inorder l)"
    using assms Pair n by (auto simp: at_index_def)
  show ?thesis
  proof (cases "l = ANil")
    case True
    then show ?thesis using up_from_last [of "ANode l a b r" fs] Pair n t i
      by (auto simp: inorder_plug split: option.splits)
  next
    case False
    then have "inorder l \<noteq> []" by (simp add: inorder_Nil_iff)
    with False show ?thesis using down_last [OF False, of "(False, a, b, r) # fs"] Pair n t i
      by (simp add: mk_node_def)
  qed
qed

text \<open>The reference for \<open>avl_walk_all\<close>: visit a list, stop at the first non-zero result.\<close>

fun visit :: "('s \<Rightarrow> 'a \<Rightarrow> int \<times> 's) \<Rightarrow> 'a list \<Rightarrow> 's \<Rightarrow> int \<times> 's" where
  "visit cb [] st = (0, st)"
| "visit cb (x # xs) st =
     (let (ret, st) = cb st x in if ret \<noteq> 0 then (ret, st) else visit cb xs st)"

lemma walk_from_visit:
  "at_index t i p \<Longrightarrow> walk_from cb (Some p) st = Some (visit cb (drop i (inorder t)) st)"
proof (induction "length (inorder t) - i" arbitrary: i p st)
  case 0
  then show ?case using at_index_data [of t i p] by simp
next
  case (Suc k)
  obtain l a b r fs where p: "p = (ANode l a b r, fs)"
    using Suc.prems by (cases p; cases "fst p") (auto simp: at_index_def)
  have d: "drop i (inorder t) = a # drop (Suc i) (inorder t)"
    using at_index_data [OF Suc.prems] p by (simp add: pos_data_def Cons_nth_drop_Suc [symmetric])
  obtain ret st' where cb: "cb st a = (ret, st')" by fastforce
  have "walk_from cb (avl_walk p True) st' = Some (visit cb (drop (Suc i) (inorder t)) st')"
  proof (cases "avl_walk p True")
    case None
    then show ?thesis using walk_next [OF Suc.prems] by (simp add: walk_from.simps)
  next
    case (Some q)
    then have q: "at_index t (Suc i) q" using walk_next [OF Suc.prems] by simp
    show ?thesis unfolding Some by (rule Suc.hyps(1) [OF _ q]) (use Suc.hyps(2) in simp)
  qed
  then show ?case unfolding d p by (subst walk_from.simps) (simp add: cb)
qed

section \<open>The balance invariant\<close>

fun avl_height :: "'a avl \<Rightarrow> int" where
  "avl_height ANil = 0"
| "avl_height (ANode l a b r) = 1 + max (avl_height l) (avl_height r)"

fun avl_ok :: "'a avl \<Rightarrow> bool" where
  "avl_ok ANil \<longleftrightarrow> True"
| "avl_ok (ANode l a b r) \<longleftrightarrow> avl_ok l \<and> avl_ok r \<and> b = avl_height r - avl_height l \<and> b \<in> {-1, 0, 1}"

text \<open>A tree of height \<open>h\<close> fits into the frames.\<close>

fun frames_ok :: "int \<Rightarrow> 'a frame list \<Rightarrow> bool" where
  "frames_ok h [] \<longleftrightarrow> True"
| "frames_ok h ((c, a, b, s) # fs) \<longleftrightarrow>
     avl_ok s \<and> b = (if c then h - avl_height s else avl_height s - h) \<and> b \<in> {-1, 0, 1} \<and>
     frames_ok (1 + max h (avl_height s)) fs"

lemma avl_height_nonneg [simp]: "0 \<le> avl_height t"
  by (induction t) auto

lemma avl_height_0 [simp]: "avl_height t = 0 \<longleftrightarrow> t = ANil" "avl_height t \<le> 0 \<longleftrightarrow> t = ANil"
proof -
  have "1 \<le> avl_height t" if "t \<noteq> ANil" using that by (cases t) (auto simp: le_max_iff_disj)
  then show "avl_height t = 0 \<longleftrightarrow> t = ANil" "avl_height t \<le> 0 \<longleftrightarrow> t = ANil"
    by (cases "t = ANil"; force)+
qed

lemma avl_ok_mk_node:
  "avl_ok (mk_node c a b x y) \<longleftrightarrow> avl_ok x \<and> avl_ok y \<and>
     b = (if c then avl_height x - avl_height y else avl_height y - avl_height x) \<and> b \<in> {-1, 0, 1}"
  by (auto simp: mk_node_def)

lemma avl_height_mk_node [simp]:
  "avl_height (mk_node c a b x y) = 1 + max (avl_height x) (avl_height y)"
  by (simp add: mk_node_def max.commute)

lemma avl_ok_plug: "avl_ok (plug t fs) \<longleftrightarrow> avl_ok t \<and> frames_ok (avl_height t) fs"
proof (induction fs arbitrary: t)
  case Nil
  then show ?case by simp
next
  case (Cons f fs)
  obtain c a b s where "f = (c, a, b, s)" by (cases f)
  with Cons show ?case by (simp only: plug.simps prod.case frames_ok.simps avl_ok_mk_node
        avl_height_mk_node) blast
qed

text \<open>
  What \<open>avl_rotation\<close> does: the heavy child is two higher than its sibling. The result has the same
  elements in the same order and is balanced; it is shorter than the node was, unless the heavy child was
  balanced.
\<close>

lemma rotation_ok:
  assumes "avl_ok x" "avl_ok y" "avl_height x = avl_height y + 2"
  shows "\<exists>t' shorter. avl_rotation (mk_node c a b x y) (if c then 2 else -2) = Some (t', shorter) \<and>
    avl_ok t' \<and> inorder t' = inorder (mk_node c a b x y) \<and>
    avl_height t' = avl_height x + (if shorter then 0 else 1) \<and>
    (shorter \<longleftrightarrow> (case x of ANil \<Rightarrow> False | ANode _ _ xb _ \<Rightarrow> xb \<noteq> 0))"
proof -
  have "x \<noteq> ANil" using assms(3) avl_height_nonneg [of y]
    by (auto simp del: avl_height_nonneg)
  then obtain l xa xb r where x: "x = ANode l xa xb r" by (cases x) auto
  show ?thesis
  proof (cases c)
    case True
    show ?thesis
    proof (cases "xb = -1")
      case dbl: True
      then have "l \<noteq> ANil" using assms(1) x avl_height_nonneg [of r]
        by (auto simp del: avl_height_nonneg)
      then obtain ll la lb lr where l: "l = ANode ll la lb lr" by (cases l) auto
      have ok: "avl_ok ll" "avl_ok lr" "avl_ok r" "lb = avl_height lr - avl_height ll"
        "lb = -1 \<or> lb = 0 \<or> lb = 1" "avl_height r = avl_height y"
        "max (avl_height ll) (avl_height lr) = avl_height y"
        using assms dbl unfolding x l by auto
      have "lb = -1 \<and> avl_height ll = avl_height y \<and> avl_height lr = avl_height y - 1 \<or>
          lb = 0 \<and> avl_height ll = avl_height y \<and> avl_height lr = avl_height y \<or>
          lb = 1 \<and> avl_height ll = avl_height y - 1 \<and> avl_height lr = avl_height y"
        using ok(4,5,7) by linarith
      with ok(1-3,6) assms(2) True dbl show ?thesis unfolding x l
        by (elim disjE) (auto simp: avl_rotation_def mk_node_def Let_def)
    next
      case False
      show ?thesis using assms True False unfolding x
        by (auto simp: avl_rotation_def mk_node_def Let_def)
    qed
  next
    case False
    show ?thesis
    proof (cases "xb = 1")
      case dbl: True
      then have "r \<noteq> ANil" using assms(1) x avl_height_nonneg [of l]
        by (auto simp del: avl_height_nonneg)
      then obtain rl ra rb rr where r: "r = ANode rl ra rb rr" by (cases r) auto
      have ok: "avl_ok rl" "avl_ok rr" "avl_ok l" "rb = avl_height rr - avl_height rl"
        "rb = -1 \<or> rb = 0 \<or> rb = 1" "avl_height l = avl_height y"
        "max (avl_height rl) (avl_height rr) = avl_height y"
        using assms dbl unfolding x r by auto
      have "rb = -1 \<and> avl_height rl = avl_height y \<and> avl_height rr = avl_height y - 1 \<or>
          rb = 0 \<and> avl_height rl = avl_height y \<and> avl_height rr = avl_height y \<or>
          rb = 1 \<and> avl_height rl = avl_height y - 1 \<and> avl_height rr = avl_height y"
        using ok(4,5,7) by linarith
      with ok(1-3,6) assms(2) False dbl show ?thesis unfolding x r
        by (elim disjE) (auto simp: avl_rotation_def mk_node_def Let_def)
    next
      case ne: False
      show ?thesis using assms False ne unfolding x
        by (auto simp: avl_rotation_def mk_node_def Let_def)
    qed
  qed
qed

fun root_balance :: "'a avl \<Rightarrow> int" where
  "root_balance ANil = 0"
| "root_balance (ANode l a b r) = b"

lemma rotationE:
  assumes "avl_ok x" "avl_ok y" "avl_height x = avl_height y + 2" "d = (if c then 2 else -2)"
  obtains t' shorter where "avl_rotation (mk_node c a b x y) d = Some (t', shorter)"
    "avl_ok t'" "inorder t' = inorder (mk_node c a b x y)"
    "avl_height t' = avl_height x + (if shorter then 0 else 1)"
    "shorter \<longleftrightarrow> root_balance x \<noteq> 0"
proof -
  have e: "(case x of ANil \<Rightarrow> False | ANode _ _ xb _ \<Rightarrow> xb \<noteq> 0) \<longleftrightarrow> root_balance x \<noteq> 0"
    by (cases x) auto
  from rotation_ok [OF assms(1-3), of c a b] obtain t' shorter where
    "avl_rotation (mk_node c a b x y) d = Some (t', shorter)"
    "avl_ok t'" "inorder t' = inorder (mk_node c a b x y)"
    "avl_height t' = avl_height x + (if shorter then 0 else 1)"
    "shorter \<longleftrightarrow> root_balance x \<noteq> 0"
    unfolding e assms(4) by blast
  then show ?thesis by (rule that)
qed

lemma insert_up_ok:
  assumes "avl_ok t" "avl_height t = h + 1" "frames_ok h fs" "h = 0 \<or> root_balance t \<noteq> 0"
  shows "\<exists>root. insert_up t fs = Some root \<and> avl_ok root \<and>
    inorder root = lefts fs @ inorder t @ rights fs"
  using assms
proof (induction fs arbitrary: t h)
  case Nil
  then show ?case by simp
next
  case (Cons f fs)
  obtain c a b s where f: "f = (c, a, b, s)" by (cases f)
  let ?hs = "avl_height s" and ?nb = "b + avl_child2balance c"
  have s: "avl_ok s" "b \<in> {-1, 0, 1}" "b = (if c then h - ?hs else ?hs - h)"
    and fs: "frames_ok (1 + max h ?hs) fs" using Cons.prems(3) unfolding f frames_ok.simps by blast+
  consider "?nb = 0" | "?nb \<noteq> 0" "b \<noteq> 0" | "b = 0" by blast
  then show ?case
  proof cases
    case 1
    then have "?hs = h + 1" using s by (auto simp: avl_child2balance_def split: if_splits)
    then have "avl_ok (plug (mk_node c a 0 t s) fs)"
      using Cons.prems(1,2) s fs by (simp add: avl_ok_plug avl_ok_mk_node)
    then show ?thesis using f 1 by (simp add: inorder_plug inorder_mk_node)
  next
    case 2
    then have h: "h = ?hs + 1" "?nb = (if c then 2 else -2)"
      using s by (auto simp: avl_child2balance_def split: if_splits)
    then have "avl_height t = ?hs + 2" using Cons.prems(2) by simp
    from rotationE [OF Cons.prems(1) s(1) this h(2), of a b] obtain t' sh where
      t': "avl_rotation (mk_node c a b t s) ?nb = Some (t', sh)" "avl_ok t'"
        "inorder t' = inorder (mk_node c a b t s)" "avl_height t' = avl_height t + (if sh then 0 else 1)"
        "sh \<longleftrightarrow> root_balance t \<noteq> 0" by blast
    have "h \<noteq> 0" using h(1) avl_height_nonneg [of s] by linarith
    then have "avl_height t' = 1 + max h ?hs" using t' Cons.prems(2,4) h(1) by simp
    then have "avl_ok (plug t' fs)" using t'(2) fs by (simp add: avl_ok_plug)
    then show ?thesis using f 2 t' by (simp add: inorder_plug inorder_mk_node)
  next
    case 3
    have nb: "?nb \<in> {-1, 1}" using 3 by (simp add: avl_child2balance_def)
    have hs: "?hs = h" using s(3) 3 by (auto split: if_splits)
    let ?t = "mk_node c a ?nb t s"
    have "avl_ok ?t" using Cons.prems(1,2) s(1) hs 3
      by (simp add: avl_ok_mk_node avl_child2balance_def)
    moreover have "avl_height ?t = (1 + h) + 1" using Cons.prems(2) hs by simp
    moreover have "frames_ok (1 + h) fs" using fs hs by simp
    moreover have "root_balance ?t \<noteq> 0" using nb by (auto simp: mk_node_def)
    ultimately obtain root where "insert_up ?t fs = Some root" "avl_ok root"
      "inorder root = lefts fs @ inorder ?t @ rights fs" using Cons.IH [of ?t "1 + h"] by blast
    then show ?thesis using f 3 nb by (auto simp: inorder_mk_node)
  qed
qed

lemma remove_up_ok:
  assumes "avl_ok t" "frames_ok (avl_height t + 1) fs"
  shows "\<exists>root. remove_up t fs = Some root \<and> avl_ok root \<and>
    inorder root = lefts fs @ inorder t @ rights fs"
  using assms
proof (induction fs arbitrary: t)
  case Nil
  then show ?case by simp
next
  case (Cons f fs)
  obtain c a b s where f: "f = (c, a, b, s)" by (cases f)
  let ?hs = "avl_height s" and ?ht = "avl_height t" and ?nb = "b - avl_child2balance c"
  have s: "avl_ok s" "b \<in> {-1, 0, 1}" "b = (if c then ?ht + 1 - ?hs else ?hs - (?ht + 1))"
    and fs: "frames_ok (1 + max (?ht + 1) ?hs) fs" using Cons.prems(2) unfolding f frames_ok.simps by blast+
  consider "b = 0" | "?nb = 0" "b \<noteq> 0" | "?nb \<noteq> 0" "b \<noteq> 0" by blast
  then show ?case
  proof cases
    case 1
    then have "?hs = ?ht + 1" using s by (auto split: if_splits)
    then have "avl_ok (plug (mk_node c a ?nb t s) fs)"
      using Cons.prems(1) s fs 1 by (simp add: avl_ok_plug avl_ok_mk_node avl_child2balance_def)
    then show ?thesis using f 1 by (simp add: inorder_plug inorder_mk_node)
  next
    case 2
    then have h: "?hs = ?ht" using s by (auto simp: avl_child2balance_def split: if_splits)
    let ?t = "mk_node c a 0 t s"
    have "avl_ok ?t" using Cons.prems(1) s(1) h by (simp add: avl_ok_mk_node)
    moreover have "frames_ok (avl_height ?t + 1) fs" using fs h by (simp add: max_def add_ac)
    ultimately obtain root where "remove_up ?t fs = Some root" "avl_ok root"
      "inorder root = lefts fs @ inorder ?t @ rights fs" using Cons.IH [of ?t] by blast
    then show ?thesis using f 2 by (auto simp: inorder_mk_node)
  next
    case 3
    then have h: "?hs = ?ht + 2" "?nb = (if \<not> c then 2 else -2)"
      using s by (auto simp: avl_child2balance_def split: if_splits)
    have sw: "mk_node c a b t s = mk_node (\<not> c) a b s t" by (simp add: mk_node_def)
    from rotationE [OF s(1) Cons.prems(1) h, of a b] obtain t' sh where
      t': "avl_rotation (mk_node c a b t s) ?nb = Some (t', sh)" "avl_ok t'"
        "inorder t' = inorder (mk_node c a b t s)" "avl_height t' = ?hs + (if sh then 0 else 1)"
      unfolding sw by metis
    show ?thesis
    proof (cases sh)
      case True
      have "frames_ok (avl_height t' + 1) fs" using fs t'(4) True h(1) by (simp add: add_ac)
      then obtain root where "remove_up t' fs = Some root" "avl_ok root"
        "inorder root = lefts fs @ inorder t' @ rights fs" using Cons.IH [OF t'(2)] by blast
      then show ?thesis using f 3 t' True by (auto simp: inorder_mk_node)
    next
      case False
      have "avl_ok (plug t' fs)" using t' fs False h(1) by (simp add: avl_ok_plug add_ac)
      then show ?thesis using f 3 t' False by (simp add: inorder_plug inorder_mk_node)
    qed
  qed
qed

lemma swap_path_ok:
  "t \<noteq> ANil \<Longrightarrow> \<exists>x u path b. swap_path right t = Some (x, u, path) \<and>
     plug (mk_node right x b ANil u) path = t \<and> (\<forall>f \<in> set path. fst f = right)"
proof (induction right t rule: swap_path.induct)
  case (2 right l a b r)
  show ?case
  proof (cases "avl_child right (ANode l a b r) = ANil")
    case True
    then show ?thesis by (auto simp: mk_node_def split: if_splits)
  next
    case False
    with 2 obtain x u path b' where
      "swap_path right (avl_child right (ANode l a b r)) = Some (x, u, path)"
      "plug (mk_node right x b' ANil u) path = avl_child right (ANode l a b r)"
      "\<forall>f \<in> set path. fst f = right"
      by (auto split: if_splits)
    with False show ?thesis by (auto simp: plug_append mk_node_def split: if_splits)
  qed
qed simp

section \<open>Search trees\<close>

text \<open>A tree ordered by a key: stored balances are right, the keys increase, the count is right.\<close>

definition avl_inv :: "('a \<Rightarrow> 'k::linorder) \<Rightarrow> 'a avl_tree \<Rightarrow> bool" where
  "avl_inv key tree \<longleftrightarrow> avl_ok (avl_root tree) \<and> sorted_wrt (<) (map key (inorder (avl_root tree))) \<and>
     avl_numnodes tree = length (inorder (avl_root tree))"

definition key_cmp :: "('a \<Rightarrow> 'k::linorder) \<Rightarrow> 'a \<Rightarrow> 'a \<Rightarrow> int" where
  "key_cmp key a b = three_way (key a) (key b)"

lemma find_from_Found:
  "sorted_wrt (<) (map key (inorder t)) \<Longrightarrow> a \<in> set (inorder t) \<Longrightarrow> key a = k \<Longrightarrow>
   \<exists>p. find_from (\<lambda>x. three_way k (key x)) t fs = Some (Found p) \<and> fst p \<noteq> ANil \<and>
     pos_data p = a \<and> plug (fst p) (snd p) = plug t fs"
proof (induction t arbitrary: fs)
  case ANil
  then show ?case by simp
next
  case (ANode l x b r)
  consider "a \<in> set (inorder l)" | "a = x" | "a \<in> set (inorder r)" using ANode.prems(2) by auto
  then show ?case
  proof cases
    case 1
    then have "k < key x" using ANode.prems by (auto simp: sorted_wrt_append)
    then show ?thesis using ANode.IH(1) [OF _ 1 ANode.prems(3), of "(False, x, b, r) # fs"] ANode.prems(1)
      by (auto simp: sorted_wrt_append avl_balance2child_def mk_node_def)
  next
    case 2
    then show ?thesis using ANode.prems by (simp add: pos_data_def)
  next
    case 3
    then have "key x < k" using ANode.prems by (auto simp: sorted_wrt_append)
    then show ?thesis using ANode.IH(2) [OF _ 3 ANode.prems(3), of "(True, x, b, l) # fs"] ANode.prems(1)
      by (auto simp: sorted_wrt_append avl_balance2child_def mk_node_def)
  qed
qed

lemma find_from_Where:
  "sorted_wrt (<) (map key (inorder t)) \<Longrightarrow> k \<notin> key ` set (inorder t) \<Longrightarrow>
   \<exists>w ls rs. find_from (\<lambda>x. three_way k (key x)) t fs = Some (Where w) \<and> plug ANil w = plug t fs \<and>
     inorder t = ls @ rs \<and> lefts w = lefts fs @ ls \<and> rights w = rs @ rights fs \<and>
     (\<forall>x \<in> set ls. key x < k) \<and> (\<forall>x \<in> set rs. k < key x)"
proof (induction t arbitrary: fs)
  case ANil
  then show ?case by (auto intro!: exI [of _ "[]"])
next
  case (ANode l x b r)
  have ne: "k \<noteq> key x" using ANode.prems(2) by auto
  show ?case
  proof (cases "k < key x")
    case True
    have "sorted_wrt (<) (map key (inorder l))" "k \<notin> key ` set (inorder l)"
      using ANode.prems by (auto simp: sorted_wrt_append)
    from ANode.IH(1) [OF this, of "(False, x, b, r) # fs"] obtain w ls rs where
      w: "find_from (\<lambda>x. three_way k (key x)) l ((False, x, b, r) # fs) = Some (Where w)"
        "plug ANil w = plug l ((False, x, b, r) # fs)" "inorder l = ls @ rs"
        "lefts w = lefts ((False, x, b, r) # fs) @ ls" "rights w = rs @ rights ((False, x, b, r) # fs)"
        "\<forall>x \<in> set ls. key x < k" "\<forall>x \<in> set rs. k < key x"
      by blast
    moreover have "\<forall>y \<in> set (inorder r). k < key y"
      using ANode.prems(1) True by (auto simp: sorted_wrt_append)
    ultimately show ?thesis using True ne
      by (intro exI [of _ w] exI [of _ ls] exI [of _ "rs @ x # inorder r"])
         (auto simp: avl_balance2child_def mk_node_def)
  next
    case False
    with ne have gt: "key x < k" by simp
    have "sorted_wrt (<) (map key (inorder r))" "k \<notin> key ` set (inorder r)"
      using ANode.prems by (auto simp: sorted_wrt_append)
    from ANode.IH(2) [OF this, of "(True, x, b, l) # fs"] obtain w ls rs where
      w: "find_from (\<lambda>x. three_way k (key x)) r ((True, x, b, l) # fs) = Some (Where w)"
        "plug ANil w = plug r ((True, x, b, l) # fs)" "inorder r = ls @ rs"
        "lefts w = lefts ((True, x, b, l) # fs) @ ls" "rights w = rs @ rights ((True, x, b, l) # fs)"
        "\<forall>x \<in> set ls. key x < k" "\<forall>x \<in> set rs. k < key x"
      by blast
    moreover have "\<forall>y \<in> set (inorder l). key y < k"
      using ANode.prems(1) gt by (auto simp: sorted_wrt_append)
    ultimately show ?thesis using gt
      by (intro exI [of _ w] exI [of _ "inorder l @ x # ls"] exI [of _ rs])
         (auto simp: avl_balance2child_def mk_node_def)
  qed
qed

lemma avl_insert_at:
  assumes "avl_ok (avl_root tree)" "plug ANil w = avl_root tree"
  shows "\<exists>tree'. avl_insert tree a w = Some tree' \<and> avl_ok (avl_root tree') \<and>
    inorder (avl_root tree') = lefts w @ a # rights w \<and> avl_numnodes tree' = avl_numnodes tree + 1"
proof -
  have "frames_ok 0 w" using assms avl_ok_plug [of ANil w] by simp
  with insert_up_ok [of "ANode ANil a 0 ANil" 0 w] obtain root where
    "insert_up (ANode ANil a 0 ANil) w = Some root" "avl_ok root"
    "inorder root = lefts w @ a # rights w" by auto
  moreover have "w = [] \<Longrightarrow> avl_root tree = ANil" using assms(2) by auto
  ultimately show ?thesis by (auto simp: avl_insert_def)
qed

lemma frames_ok_data:
  "frames_ok h (path @ (c, a, b, s) # fs) \<longleftrightarrow> frames_ok h (path @ (c, a', b, s) # fs)"
  by (induction path arbitrary: h) auto

lemma lefts_rights_path:
  "\<forall>f \<in> set path. fst f = c \<Longrightarrow> (if c then rights path = [] else lefts path = [])"
  by (induction path) auto

text \<open>A node with two children: the neighbour takes its place, then a node with one child goes.\<close>

lemma remove_swapped:
  assumes ok: "avl_ok (plug (ANode l a b r) fs)"
    and ne: "avl_child c (ANode l a b r) \<noteq> ANil"
  shows "\<exists>x t path root. swap_path (\<not> c) (avl_child c (ANode l a b r)) = Some (x, t, path) \<and>
    remove_up t (path @ (c, x, b, avl_child (\<not> c) (ANode l a b r)) # fs) = Some root \<and>
    avl_ok root \<and> inorder root = lefts fs @ inorder l @ inorder r @ rights fs"
proof -
  let ?l = "avl_child c (ANode l a b r)" and ?o = "avl_child (\<not> c) (ANode l a b r)"
  from swap_path_ok [OF ne, of "\<not> c"] obtain x t path b' where
    sp: "swap_path (\<not> c) ?l = Some (x, t, path)" "plug (mk_node (\<not> c) x b' ANil t) path = ?l"
      "\<forall>f \<in> set path. fst f = (\<not> c)" by blast
  let ?n = "mk_node (\<not> c) x b' ANil t"
  have "plug ?n (path @ (c, a, b, ?o) # fs) = plug (ANode l a b r) fs"
    using sp(2) by (simp add: plug_append mk_node_def)
  then have "avl_ok ?n \<and> frames_ok (avl_height ?n) (path @ (c, a, b, ?o) # fs)"
    using ok avl_ok_plug [of ?n "path @ (c, a, b, ?o) # fs"] by simp
  then have t: "avl_ok t" "frames_ok (avl_height t + 1) (path @ (c, x, b, ?o) # fs)"
    using frames_ok_data [of _ path c a b ?o fs x] by (simp_all add: avl_ok_mk_node add.commute)
  from remove_up_ok [OF t] obtain root where
    root: "remove_up t (path @ (c, x, b, ?o) # fs) = Some root" "avl_ok root"
      "inorder root = lefts (path @ (c, x, b, ?o) # fs) @ inorder t @ rights (path @ (c, x, b, ?o) # fs)"
    by blast
  have "inorder ?l = lefts path @ inorder ?n @ rights path"
    using inorder_plug [of ?n path] sp(2) by simp
  then have "inorder root = lefts fs @ inorder l @ inorder r @ rights fs"
    using lefts_rights_path [OF sp(3)] root(3)
    by (cases c) (simp_all add: lefts_append rights_append inorder_mk_node)
  with sp(1) root show ?thesis by blast
qed

lemma avl_remove_at:
  assumes ok: "avl_ok (avl_root tree)" and n: "avl_numnodes tree = length (inorder (avl_root tree))"
    and p: "plug (fst p) (snd p) = avl_root tree" "fst p \<noteq> ANil"
  shows "\<exists>tree'. avl_remove tree p = Some tree' \<and> avl_ok (avl_root tree') \<and>
    avl_numnodes tree' = avl_numnodes tree - 1 \<and>
    (\<exists>xs ys. inorder (avl_root tree) = xs @ pos_data p # ys \<and> inorder (avl_root tree') = xs @ ys)"
proof -
  obtain l a b r fs where pp: "p = (ANode l a b r, fs)" using p(2) by (cases p; cases "fst p") auto
  have t: "plug (ANode l a b r) fs = avl_root tree" using p(1) pp by simp
  have io: "inorder (avl_root tree) = (lefts fs @ inorder l) @ a # (inorder r @ rights fs)"
    using inorder_plug [of "ANode l a b r" fs] t by simp
  have nz: "avl_numnodes tree \<noteq> 0" using n io by simp
  have okn: "avl_ok (ANode l a b r)" and fok: "frames_ok (avl_height (ANode l a b r)) fs"
    using ok unfolding t [symmetric] avl_ok_plug by blast+
  have "\<exists>root. avl_remove tree p = Some \<lparr> avl_root = root, avl_numnodes = avl_numnodes tree - 1 \<rparr> \<and>
      avl_ok root \<and> inorder root = (lefts fs @ inorder l) @ (inorder r @ rights fs)"
  proof (cases "l \<noteq> ANil \<and> r \<noteq> ANil")
    case False
    let ?t = "if l \<noteq> ANil then l else r"
    have "avl_ok ?t" "frames_ok (avl_height ?t + 1) fs" "inorder ?t = inorder l @ inorder r"
      using False okn fok by (auto simp: add.commute)
    with remove_up_ok [of ?t fs] obtain root where "remove_up ?t fs = Some root" "avl_ok root"
      "inorder root = lefts fs @ inorder l @ inorder r @ rights fs" by auto
    then show ?thesis using False nz pp by (auto simp: avl_remove_def)
  next
    case True
    then have "avl_child (avl_balance2child b) (ANode l a b r) \<noteq> ANil" by simp
    from remove_swapped [OF _ this, of fs] ok t obtain x u path root where
      sp: "swap_path (\<not> avl_balance2child b) (avl_child (avl_balance2child b) (ANode l a b r)) =
          Some (x, u, path)"
        "remove_up u (path @ (avl_balance2child b, x, b,
            avl_child (\<not> avl_balance2child b) (ANode l a b r)) # fs) = Some root"
        "avl_ok root" "inorder root = lefts fs @ inorder l @ inorder r @ rights fs" by auto
    have "avl_remove tree p = Some \<lparr> avl_root = root, avl_numnodes = avl_numnodes tree - 1 \<rparr>"
      unfolding avl_remove_def pp prod.case avl.case Let_def sp(1) option.case
      using True nz sp(2) by simp
    with sp show ?thesis by simp
  qed
  then obtain root where r: "avl_remove tree p =
      Some \<lparr> avl_root = root, avl_numnodes = avl_numnodes tree - 1 \<rparr>" "avl_ok root"
    "inorder root = (lefts fs @ inorder l) @ (inorder r @ rights fs)" by blast
  have d: "pos_data p = a" using pp by (simp add: pos_data_def)
  show ?thesis
    by (rule exI [of _ "\<lparr> avl_root = root, avl_numnodes = avl_numnodes tree - 1 \<rparr>"],
      intro conjI exI [of _ "lefts fs @ inorder l"] exI [of _ "inorder r @ rights fs"])
      (use r io d in simp_all)
qed

section \<open>Trees as keyed indexes\<close>

text \<open>
  The contract the object system relies on: an index of objects by a key. Adding an object whose key
  is present aborts; the other operations never do.
\<close>

locale keyed_index =
  fixes key :: "'a \<Rightarrow> 'k"
    and empty :: 't
    and lookup :: "'t \<Rightarrow> 'k \<Rightarrow> 'a option"
    and add :: "'t \<Rightarrow> 'a \<Rightarrow> 't option"
    and del :: "'t \<Rightarrow> 'k \<Rightarrow> 't option"
    and inv :: "'t \<Rightarrow> bool"
  assumes inv_empty: "inv empty"
    and lookup_empty: "lookup empty = Map.empty"
    and lookup_key: "inv t \<Longrightarrow> lookup t k = Some a \<Longrightarrow> key a = k"
    and add_new: "inv t \<Longrightarrow> lookup t (key a) = None \<Longrightarrow>
      \<exists>t'. add t a = Some t' \<and> inv t' \<and> lookup t' = (lookup t)(key a \<mapsto> a)"
    and add_dup: "inv t \<Longrightarrow> lookup t (key a) \<noteq> None \<Longrightarrow> add t a = None"
    and del_ok: "inv t \<Longrightarrow> lookup t k \<noteq> None \<Longrightarrow>
      \<exists>t'. del t k = Some t' \<and> inv t' \<and> lookup t' = (lookup t)(k := None)"
begin

lemma add_SomeD:
  assumes "inv t" "add t a = Some t'"
  shows "inv t' \<and> lookup t (key a) = None \<and> lookup t' = (lookup t)(key a \<mapsto> a)"
  using assms add_new [of t a] add_dup [of t a] by (cases "lookup t (key a)") auto

lemma add_del:
  assumes "inv t" "add t a = Some t'"
  shows "\<exists>t''. del t' (key a) = Some t'' \<and> inv t'' \<and> lookup t'' = lookup t"
  using add_SomeD [OF assms] del_ok [of t' "key a"] by fastforce

lemma add_all:
  assumes "inv t" "distinct (map key xs)" "\<forall>x \<in> set xs. lookup t (key x) = None"
  shows "\<exists>t'. foldl (\<lambda>r a. Option.bind r (\<lambda>t. add t a)) (Some t) xs = Some t' \<and> inv t' \<and>
    lookup t' = lookup t ++ map_of (map (\<lambda>x. (key x, x)) (rev xs))"
  using assms
proof (induction xs rule: rev_induct)
  case Nil
  then show ?case by simp
next
  case (snoc x xs)
  then obtain t' where t': "foldl (\<lambda>r a. Option.bind r (\<lambda>t. add t a)) (Some t) xs = Some t'" "inv t'"
    "lookup t' = lookup t ++ map_of (map (\<lambda>x. (key x, x)) (rev xs))" by auto
  have "map_of (map (\<lambda>x. (key x, x)) (rev xs)) (key x) = None"
    using snoc.prems(2) by (auto simp: map_of_eq_None_iff)
  then have "lookup t' (key x) = None" using t'(3) snoc.prems(3) by (simp add: map_add_def)
  from add_new [OF t'(2) this] t' show ?case by (auto simp: map_add_def fun_eq_iff)
qed

end

definition avl_lookup :: "('a \<Rightarrow> 'k::linorder) \<Rightarrow> 'a avl_tree \<Rightarrow> 'k \<Rightarrow> 'a option" where
  "avl_lookup key tree k =
     (case avl_find tree (\<lambda>x. three_way k (key x)) of
        Some (Found p) \<Rightarrow> Some (pos_data p) | _ \<Rightarrow> None)"

definition avl_delete :: "('a \<Rightarrow> 'k::linorder) \<Rightarrow> 'a avl_tree \<Rightarrow> 'k \<Rightarrow> 'a avl_tree option" where
  "avl_delete key tree k =
     (case avl_find tree (\<lambda>x. three_way k (key x)) of
        Some (Found p) \<Rightarrow> avl_remove tree p | _ \<Rightarrow> None)"

lemma avl_lookup_Some_iff:
  assumes "avl_inv key tree"
  shows "avl_lookup key tree k = Some a \<longleftrightarrow> a \<in> set (inorder (avl_root tree)) \<and> key a = k"
proof -
  have so: "sorted_wrt (<) (map key (inorder (avl_root tree)))" using assms by (simp add: avl_inv_def)
  show ?thesis
  proof (cases "k \<in> key ` set (inorder (avl_root tree))")
    case True
    then obtain x where x: "x \<in> set (inorder (avl_root tree))" "key x = k" by auto
    have "inj_on key (set (inorder (avl_root tree)))"
      using assms by (auto simp: avl_inv_def strict_sorted_iff distinct_map)
    then have u: "y = x" if "y \<in> set (inorder (avl_root tree))" "key y = k" for y
      using x that by (metis inj_onD)
    have "avl_lookup key tree k = Some x"
      using find_from_Found [OF so x, where fs = "[]"]
      by (auto simp: avl_lookup_def avl_find_def avl_inv_def)
    then have "avl_lookup key tree k = Some a \<longleftrightarrow> a = x" by auto
    also have "\<dots> \<longleftrightarrow> a \<in> set (inorder (avl_root tree)) \<and> key a = k" using x u [of a] by blast
    finally show ?thesis .
  next
    case False
    have "avl_lookup key tree k = None"
      using find_from_Where [OF so False, where fs = "[]"]
      by (auto simp: avl_lookup_def avl_find_def avl_inv_def)
    with False show ?thesis by auto
  qed
qed

lemma key_cmp_eta: "key_cmp key a = (\<lambda>b. three_way (key a) (key b))"
  by (simp add: fun_eq_iff key_cmp_def)

lemma avl_lookup_None_iff:
  assumes "avl_inv key tree"
  shows "avl_lookup key tree k = None \<longleftrightarrow> k \<notin> key ` set (inorder (avl_root tree))"
proof
  assume "avl_lookup key tree k = None"
  then have "\<not> (a \<in> set (inorder (avl_root tree)) \<and> key a = k)" for a
    using avl_lookup_Some_iff [OF assms, of k a] by simp
  then show "k \<notin> key ` set (inorder (avl_root tree))" by blast
next
  assume "k \<notin> key ` set (inorder (avl_root tree))"
  then have "avl_lookup key tree k \<noteq> Some a" for a
    unfolding avl_lookup_Some_iff [OF assms] by blast
  then show "avl_lookup key tree k = None" by (cases "avl_lookup key tree k") auto
qed

lemma avl_add_new:
  assumes inv: "avl_inv key tree" and new: "key a \<notin> key ` set (inorder (avl_root tree))"
  shows "\<exists>tree' ls rs. avl_add (key_cmp key) tree a = Some tree' \<and> avl_inv key tree' \<and>
    inorder (avl_root tree) = ls @ rs \<and> inorder (avl_root tree') = ls @ a # rs"
proof -
  have so: "sorted_wrt (<) (map key (inorder (avl_root tree)))" using inv by (simp add: avl_inv_def)
  from find_from_Where [OF so new, where fs = "[]"] obtain w ls rs where
    w: "avl_find tree (\<lambda>x. three_way (key a) (key x)) = Some (Where w)" "plug ANil w = avl_root tree"
      "inorder (avl_root tree) = ls @ rs" "lefts w = ls" "rights w = rs"
      "\<forall>x \<in> set ls. key x < key a" "\<forall>x \<in> set rs. key a < key x"
    by (auto simp: avl_find_def)
  from avl_insert_at [OF _ w(2), of a] inv obtain tree' where
    t': "avl_insert tree a w = Some tree'" "avl_ok (avl_root tree')"
      "inorder (avl_root tree') = ls @ a # rs" "avl_numnodes tree' = avl_numnodes tree + 1"
    using w(4,5) by (auto simp: avl_inv_def)
  have "sorted_wrt (<) (map key (ls @ a # rs))"
    using inv w(3,6,7) by (auto simp: avl_inv_def sorted_wrt_append)
  with t' w inv have "avl_inv key tree'" by (simp add: avl_inv_def)
  moreover have "avl_add (key_cmp key) tree a = Some tree'"
    using w(1) t'(1) by (simp add: avl_add_def key_cmp_eta)
  ultimately show ?thesis using w(3) t'(3) by blast
qed

lemma avl_add_dup:
  assumes "avl_inv key tree" "key a \<in> key ` set (inorder (avl_root tree))"
  shows "avl_add (key_cmp key) tree a = None"
proof -
  obtain x where "x \<in> set (inorder (avl_root tree))" "key x = key a" using assms(2) by auto
  with find_from_Found [of key "avl_root tree" x "key a" "[]"] assms(1) show ?thesis
    by (auto simp: avl_add_def avl_find_def key_cmp_eta avl_inv_def)
qed

lemma avl_delete_ok:
  assumes inv: "avl_inv key tree" and a: "a \<in> set (inorder (avl_root tree))"
  shows "\<exists>tree' xs ys. avl_delete key tree (key a) = Some tree' \<and> avl_inv key tree' \<and>
    inorder (avl_root tree) = xs @ a # ys \<and> inorder (avl_root tree') = xs @ ys"
proof -
  have so: "sorted_wrt (<) (map key (inorder (avl_root tree)))" using inv by (simp add: avl_inv_def)
  from find_from_Found [OF so a refl, where fs = "[]"] obtain p where
    p: "avl_find tree (\<lambda>x. three_way (key a) (key x)) = Some (Found p)" "fst p \<noteq> ANil"
      "pos_data p = a" "plug (fst p) (snd p) = avl_root tree" by (auto simp: avl_find_def)
  from avl_remove_at [OF _ _ p(4,2)] inv p(3) obtain tree' xs ys where
    t': "avl_remove tree p = Some tree'" "avl_ok (avl_root tree')"
      "avl_numnodes tree' = avl_numnodes tree - 1"
      "inorder (avl_root tree) = xs @ a # ys" "inorder (avl_root tree') = xs @ ys"
    unfolding avl_inv_def by blast
  have "avl_inv key tree'" using inv t' by (auto simp: avl_inv_def sorted_wrt_append)
  with p(1) t' show ?thesis by (auto simp: avl_delete_def)
qed

lemma avl_keyed_index:
  "keyed_index key avl_create (avl_lookup key) (avl_add (key_cmp key)) (avl_delete key) (avl_inv key)"
proof
  show "avl_inv key avl_create" by (simp add: avl_inv_def avl_create_def)
  show "avl_lookup key avl_create = Map.empty"
    by (simp add: fun_eq_iff avl_lookup_def avl_find_def avl_create_def)
next
  fix t k a assume "avl_inv key t" "avl_lookup key t k = Some a"
  then show "key a = k" by (simp add: avl_lookup_Some_iff)
next
  fix t a assume i: "avl_inv key t" and "avl_lookup key t (key a) = None"
  then have "key a \<notin> key ` set (inorder (avl_root t))" by (simp add: avl_lookup_None_iff)
  from avl_add_new [OF i this] obtain t' ls rs where t': "avl_add (key_cmp key) t a = Some t'"
    "avl_inv key t'" "inorder (avl_root t) = ls @ rs" "inorder (avl_root t') = ls @ a # rs" by blast
  have "avl_lookup key t' k = ((avl_lookup key t)(key a \<mapsto> a)) k" for k
  proof (cases "avl_lookup key t' k")
    case None
    then have "k \<notin> key ` set (ls @ a # rs)" using t' by (simp add: avl_lookup_None_iff)
    then have "k \<noteq> key a" "avl_lookup key t k = None" using i t'(3) by (auto simp: avl_lookup_None_iff)
    with None show ?thesis by simp
  next
    case (Some x)
    then have "x \<in> set (ls @ a # rs)" "key x = k" using t' by (auto simp: avl_lookup_Some_iff)
    moreover have "key y \<noteq> key a" if "y \<in> set (inorder (avl_root t))" for y
      using \<open>key a \<notin> _\<close> that by (metis imageI)
    ultimately show ?thesis using Some t'(3) avl_lookup_Some_iff [OF i, of k x]
      by (cases "x = a") auto
  qed
  with t' show "\<exists>t'. avl_add (key_cmp key) t a = Some t' \<and> avl_inv key t' \<and>
      avl_lookup key t' = (avl_lookup key t)(key a \<mapsto> a)" by (auto simp: fun_eq_iff)
next
  fix t a assume "avl_inv key t" "avl_lookup key t (key a) \<noteq> None"
  then show "avl_add (key_cmp key) t a = None" using avl_add_dup by (simp add: avl_lookup_None_iff)
next
  fix t k assume i: "avl_inv key t" and "avl_lookup key t k \<noteq> None"
  then obtain a where a: "a \<in> set (inorder (avl_root t))" "key a = k"
    using avl_lookup_Some_iff [OF i] by blast
  from avl_delete_ok [OF i a(1)] a(2) obtain t' xs ys where t': "avl_delete key t k = Some t'"
    "avl_inv key t'" "inorder (avl_root t) = xs @ a # ys" "inorder (avl_root t') = xs @ ys" by blast
  have u: "k \<notin> key ` set (xs @ ys)"
    using i t'(3) a(2) by (auto simp: avl_inv_def sorted_wrt_append)
  have "avl_lookup key t' j = ((avl_lookup key t)(k := None)) j" for j
  proof (cases "avl_lookup key t' j")
    case None
    then have "j \<notin> key ` set (xs @ ys)" using t' by (simp add: avl_lookup_None_iff)
    then have "j = k \<or> avl_lookup key t j = None"
      using i t'(3) a(2) by (auto simp: avl_lookup_None_iff)
    with None show ?thesis by auto
  next
    case (Some x)
    then have "x \<in> set (xs @ ys)" "key x = j" using t' by (auto simp: avl_lookup_Some_iff)
    then show ?thesis using Some i t' u avl_lookup_Some_iff [OF i, of j x] by auto
  qed
  with t' show "\<exists>t'. avl_delete key t k = Some t' \<and> avl_inv key t' \<and>
      avl_lookup key t' = (avl_lookup key t)(k := None)" by (auto simp: fun_eq_iff)
qed

interpretation avl: keyed_index key avl_create "avl_lookup key" "avl_add (key_cmp key)"
    "avl_delete key" "avl_inv key" for key :: "'a \<Rightarrow> 'k::linorder"
  by (rule avl_keyed_index)

section \<open>The length of a search\<close>

text \<open>The trees that the operations make, and the calls of the comparison in a search: one for each step down,
  and the last one for a node that is found.\<close>

inductive avl_built :: "('a \<Rightarrow> 'k::linorder) \<Rightarrow> 'a avl_tree \<Rightarrow> bool" for key where
  create: "avl_built key avl_create"
| add: "avl_built key t \<Longrightarrow> avl_add (key_cmp key) t a = Some t' \<Longrightarrow> avl_built key t'"
| remove: "avl_built key t \<Longrightarrow> avl_find t (\<lambda>x. three_way k (key x)) = Some (Found p) \<Longrightarrow>
    avl_remove t p = Some t' \<Longrightarrow> avl_built key t'"

fun comparisons :: "'a found \<Rightarrow> nat" where
  "comparisons (Found p) = Suc (length (snd p))"
| "comparisons (Where w) = length w"

lemma avl_built_inv: "avl_built key t \<Longrightarrow> avl_inv key t"
proof (induction rule: avl_built.induct)
  case create
  show ?case by (rule avl.inv_empty)
next
  case (add t a t')
  then show ?case using avl.add_SomeD [OF add.IH add.hyps(2)] by simp
next
  case (remove t k p t')
  then have "avl_delete key t k = Some t'" "avl_lookup key t k = Some (pos_data p)"
    by (simp_all add: avl_delete_def avl_lookup_def)
  moreover obtain t2 where "avl_delete key t k = Some t2" "avl_inv key t2"
    using avl.del_ok [OF remove.IH, of k] calculation(2) by auto
  ultimately show ?case by simp
qed

lemma avl_built_foldl:
  "avl_built key t \<Longrightarrow> foldl (\<lambda>t a. Option.bind t (\<lambda>t. avl_add (key_cmp key) t a)) (Some t) xs = Some t' \<Longrightarrow>
   avl_built key t'"
proof (induction xs arbitrary: t)
  case (Cons a xs)
  have none: "foldl (\<lambda>t a. Option.bind t (\<lambda>t. avl_add (key_cmp key) t a)) None xs = None" by (induction xs) simp_all
  then show ?case using Cons by (cases "avl_add (key_cmp key) t a") (auto intro: avl_built.add)
qed simp

lemma find_from_depth:
  "find_from c t fs = Some r \<Longrightarrow> comparisons r \<le> length fs + nat (avl_height t)"
proof (induction c t fs rule: find_from.induct)
  case (2 c l a b r fs)
  have h: "nat (avl_height (ANode l a b r)) = Suc (max (nat (avl_height l)) (nat (avl_height r)))"
    using avl_height_nonneg [of l] avl_height_nonneg [of r]
    by (cases "avl_height l \<le> avl_height r") (simp_all add: max_def nat_add_distrib nat_le_iff)
  from 2 show ?case unfolding h by (auto simp: Let_def split: if_splits)
qed auto

lemma avl_find_returns:
  assumes "avl_inv key t" obtains r where "avl_find t (\<lambda>x. three_way k (key x)) = Some r"
proof -
  have so: "sorted_wrt (<) (map key (inorder (avl_root t)))" using assms by (simp add: avl_inv_def)
  show thesis
  proof (cases "k \<in> key ` set (inorder (avl_root t))")
    case True
    then obtain x where "x \<in> set (inorder (avl_root t))" "key x = k" by blast
    from find_from_Found [OF so this, where fs = "[]"] show thesis using that by (auto simp: avl_find_def)
  next
    case False
    from find_from_Where [OF so this, where fs = "[]"] show thesis using that by (auto simp: avl_find_def)
  qed
qed

lemma avl_height_bound:
  "avl_ok t \<Longrightarrow> 2 ^ (nat (avl_height t) div 2) \<le> length (inorder t) + 1"
proof (induction t)
  case ANil
  then show ?case by simp
next
  case (ANode l a b r)
  let ?h = "nat (avl_height (ANode l a b r))"
  have p: "(2::nat) ^ (?h div 2) \<le> 2 * 2 ^ (nat (avl_height t) div 2)" if "?h \<le> nat (avl_height t) + 2" for t :: "'a avl"
  proof -
    have "?h div 2 \<le> Suc (nat (avl_height t) div 2)" using that by linarith
    then have "(2::nat) ^ (?h div 2) \<le> 2 ^ Suc (nat (avl_height t) div 2)" by (rule power_increasing) simp
    then show ?thesis by simp
  qed
  have h: "?h \<le> nat (avl_height l) + 2" "?h \<le> nat (avl_height r) + 2"
    using ANode.prems avl_height_nonneg [of l] avl_height_nonneg [of r] by auto
  have "2 ^ (nat (avl_height l) div 2) \<le> length (inorder l) + 1"
    "2 ^ (nat (avl_height r) div 2) \<le> length (inorder r) + 1" using ANode by auto
  then show ?case using p [OF h(1)] p [OF h(2)] by simp
qed

section \<open>Properties\<close>

text \<open>A tree of three numbers, for the concrete instances.\<close>

definition three_tree :: "nat avl_tree" where
  "three_tree = \<lparr> avl_root = ANode (ANode ANil 1 0 ANil) 2 0 (ANode ANil 3 0 ANil), avl_numnodes = 3 \<rparr>"

lemma three_tree_inv: "avl_inv (\<lambda>x. x) three_tree"
  by (simp add: avl_inv_def three_tree_def)

text \<open>Seven numbers added in increasing order.\<close>

definition seven_tree :: "nat avl_tree" where
  "seven_tree = the (foldl (\<lambda>t a. Option.bind t (\<lambda>t. avl_add (key_cmp (\<lambda>x. x)) t a)) (Some avl_create) [1, 2, 3, 4, 5, 6, 7])"

lemma seven_tree_built_by:
  "foldl (\<lambda>t a. Option.bind t (\<lambda>t. avl_add (key_cmp (\<lambda>x. x)) t a)) (Some avl_create) [1, 2, 3, 4, 5, 6, 7] = Some seven_tree"
  "avl_numnodes seven_tree = 7"
  by code_simp+

lemma seven_tree_built: "avl_built (\<lambda>x. x) seven_tree"
  by (rule avl_built_foldl [OF avl_built.create seven_tree_built_by(1)])

text \<open>C32: \<open>avl_add\<close> is insertion into a map. On a tree ordered by a key, an object whose key is new
  is added without aborting: the tree is balanced, ordered and counted right again, its lookup map is
  updated at that key and the other elements keep their order. An object whose key is present aborts.\<close>

theorem avl_add_refines_map:
  assumes "avl_inv key tree"
  shows "(avl_lookup key tree (key a) = None \<longrightarrow>
      (\<exists>tree'. avl_add (key_cmp key) tree a = Some tree' \<and> avl_inv key tree' \<and>
         avl_lookup key tree' = (avl_lookup key tree)(key a \<mapsto> a))) \<and>
    (avl_lookup key tree (key a) \<noteq> None \<longrightarrow> avl_add (key_cmp key) tree a = None)"
  using avl.add_new [OF assms] avl.add_dup [OF assms] by blast

theorem avl_add_refines_map_witness:
  "\<exists>tree'. avl_add (key_cmp (\<lambda>x. x)) three_tree 7 = Some tree' \<and> avl_inv (\<lambda>x. x) tree' \<and>
     avl_lookup (\<lambda>x. x) tree' = (avl_lookup (\<lambda>x. x) three_tree)(7 \<mapsto> 7)"
  using avl_add_refines_map [OF three_tree_inv, of 7]
  by (simp add: avl_lookup_def avl_find_def three_tree_def avl_balance2child_def)

text \<open>C31: \<open>avl_remove\<close> of any node of a balanced, ordered, counted tree, inner nodes with two children
  included, succeeds: exactly that element goes, the others keep their order, and the tree is balanced,
  ordered and counted right again.\<close>

theorem avl_remove_removes:
  assumes "avl_inv key tree" "plug (fst p) (snd p) = avl_root tree" "fst p \<noteq> ANil"
  shows "\<exists>tree' xs ys. avl_remove tree p = Some tree' \<and> avl_inv key tree' \<and>
    inorder (avl_root tree) = xs @ pos_data p # ys \<and> inorder (avl_root tree') = xs @ ys"
proof -
  from avl_remove_at [OF _ _ assms(2,3)] assms(1) obtain tree' xs ys where
    t': "avl_remove tree p = Some tree'" "avl_ok (avl_root tree')"
      "avl_numnodes tree' = avl_numnodes tree - 1"
      "inorder (avl_root tree) = xs @ pos_data p # ys" "inorder (avl_root tree') = xs @ ys"
    unfolding avl_inv_def by blast
  then have "avl_inv key tree'" using assms(1) by (auto simp: avl_inv_def sorted_wrt_append)
  with t' show ?thesis by blast
qed

theorem avl_remove_removes_witness:
  "\<exists>tree' xs ys. avl_remove three_tree (avl_root three_tree, []) = Some tree' \<and>
     avl_inv (\<lambda>x. x) tree' \<and> [1, 2, 3] = xs @ 2 # ys \<and> inorder (avl_root tree') = xs @ ys"
  using avl_remove_removes [OF three_tree_inv, of "(avl_root three_tree, [])"]
  by (simp add: three_tree_def pos_data_def)

text \<open>\<open>avl_walk_all\<close> returns, and calls the callback on the elements in increasing order, each once,
  threading the callback's state, until the first non-zero result, which it returns.\<close>

theorem avl_walk_all_in_order:
  assumes "avl_inv key tree"
  shows "avl_walk_all tree cb st = Some (visit cb (inorder (avl_root tree)) st)"
proof (cases "avl_root tree = ANil")
  case True
  then show ?thesis using assms by (simp add: avl_walk_all_def avl_inv_def)
next
  case False
  then have "avl_numnodes tree \<noteq> 0" using assms by (simp add: avl_inv_def inorder_Nil_iff)
  moreover have "avl_first tree = Some (down False (avl_root tree) [])"
    using False by (simp add: avl_first_def)
  moreover have "at_index (avl_root tree) 0 (down False (avl_root tree) [])"
    using down_first [OF False, of "[]"] by simp
  ultimately show ?thesis by (simp add: avl_walk_all_def walk_from_visit)
qed

theorem avl_walk_all_in_order_witness:
  "avl_walk_all three_tree (\<lambda>s x. (if x = 2 then 5 else 0, s @ [x])) [] = Some (5, [1, 2])"
  using avl_walk_all_in_order [OF three_tree_inv, of "\<lambda>s x. (if x = 2 then 5 else 0, s @ [x])" "[]"]
  by (simp add: three_tree_def)

text \<open>C40: the search path stays logarithmic. In a tree made from the empty one by any successful calls of
  \<open>avl_add\<close> and of \<open>avl_remove\<close> on what \<open>avl_find\<close> found, \<open>avl_find\<close> returns for every key after
  at most \<open>2 log2 (n + 1) + 1\<close> calls of the comparison, where \<open>n\<close> is the number of nodes the tree
  counts. Without the rotations the path could have all \<open>n\<close> nodes.\<close>

theorem avl_find_logarithmic:
  assumes "avl_built key tree"
  shows "\<exists>r. avl_find tree (\<lambda>x. three_way k (key x)) = Some r \<and> 2 ^ (comparisons r div 2) \<le> avl_numnodes tree + 1"
proof -
  have inv: "avl_inv key tree" by (rule avl_built_inv [OF assms])
  obtain r where r: "avl_find tree (\<lambda>x. three_way k (key x)) = Some r" using avl_find_returns [OF inv] by blast
  from find_from_depth [OF r [unfolded avl_find_def]] have "comparisons r \<le> nat (avl_height (avl_root tree))" by simp
  then have "(2::nat) ^ (comparisons r div 2) \<le> 2 ^ (nat (avl_height (avl_root tree)) div 2)"
    by (intro power_increasing div_le_mono) simp_all
  also have "\<dots> \<le> avl_numnodes tree + 1" using avl_height_bound [of "avl_root tree"] inv by (simp add: avl_inv_def)
  finally show ?thesis using r by blast
qed

text \<open>Seven keys added in increasing order.\<close>

theorem avl_find_logarithmic_witness:
  "\<exists>r. avl_find seven_tree (\<lambda>x. three_way 7 x) = Some r \<and> 2 ^ (comparisons r div 2) \<le> avl_numnodes seven_tree + 1 \<and>
     avl_numnodes seven_tree = 7"
  using avl_find_logarithmic [OF seven_tree_built, of 7] seven_tree_built_by(2) by simp

end
