(* ===== verification/IndexBlock.thy ===== *)
theory IndexBlock
  imports BlockRw "HOL-Library.Monad_Syntax"
begin

text \<open>
  The index blocks of \<open>object_system/ofs_btree.c\<close>, byte by byte: a block is a
  \<open>block_head_t\<close> of 16 bytes, the offset of the first entry, the node type, padding and the begin
  entry at 24 (\<open>index_block_t\<close>, 33 bytes), then the entries up to the end entry. An entry is a head
  of 9 bytes, the key, the value and, with flag \<open>INDEX_ENTRY_NODE\<close>, the block number of a child.
  A block pointer is the offset \<open>p\<close> of the block in its buffer, an entry pointer the offset
  \<open>q\<close> of the entry in the same buffer. \<open>None\<close> is a loop that does not end.
  The second half relates the bytes to lists of entries and shows that each operation acts on the list.
\<close>

section \<open>Fields\<close>

definition ie_len :: "buf \<Rightarrow> nat \<Rightarrow> u16" where "ie_len m q = get16 m q"
definition ie_prev_len :: "buf \<Rightarrow> nat \<Rightarrow> u16" where "ie_prev_len m q = get16 m (q + 2)"
definition ie_key_len :: "buf \<Rightarrow> nat \<Rightarrow> u16" where "ie_key_len m q = get16 m (q + 4)"
definition ie_value_len :: "buf \<Rightarrow> nat \<Rightarrow> u16" where "ie_value_len m q = get16 m (q + 6)"
definition ie_flags :: "buf \<Rightarrow> nat \<Rightarrow> u8" where "ie_flags m q = m (q + 8)"

definition set_ie_len :: "buf \<Rightarrow> nat \<Rightarrow> u16 \<Rightarrow> buf" where "set_ie_len m q v = put16 m q v"
definition set_ie_prev_len :: "buf \<Rightarrow> nat \<Rightarrow> u16 \<Rightarrow> buf" where
  "set_ie_prev_len m q v = put16 m (q + 2) v"
definition set_ie_key_len :: "buf \<Rightarrow> nat \<Rightarrow> u16 \<Rightarrow> buf" where
  "set_ie_key_len m q v = put16 m (q + 4) v"
definition set_ie_value_len :: "buf \<Rightarrow> nat \<Rightarrow> u16 \<Rightarrow> buf" where
  "set_ie_value_len m q v = put16 m (q + 6) v"
definition set_ie_flags :: "buf \<Rightarrow> nat \<Rightarrow> u8 \<Rightarrow> buf" where "set_ie_flags m q v = m(q + 8 := v)"

definition has_flag :: "u8 \<Rightarrow> u8 \<Rightarrow> bool" where "has_flag fl f = (fl AND f \<noteq> 0)"

definition ENTRY_NODE :: u8 where "ENTRY_NODE = 1"
definition ENTRY_END :: u8 where "ENTRY_END = 2"
definition ENTRY_BEGIN :: u8 where "ENTRY_BEGIN = 4"
definition BLOCK_LARGE :: u8 where "BLOCK_LARGE = 1"

definition ie_is :: "u8 \<Rightarrow> buf \<Rightarrow> nat \<Rightarrow> bool" where "ie_is f m q = has_flag (ie_flags m q) f"

definition ib_first_entry_off :: "buf \<Rightarrow> nat \<Rightarrow> u16" where "ib_first_entry_off m p = get16 m (p + 16)"
definition ib_node_type :: "buf \<Rightarrow> nat \<Rightarrow> u8" where "ib_node_type m p = m (p + 18)"

definition set_real_size :: "buf \<Rightarrow> nat \<Rightarrow> u32 \<Rightarrow> buf" where "set_real_size m p v = put32 m (p + 8) v"

definition GET_FIRST_IE :: "buf \<Rightarrow> nat \<Rightarrow> nat" where
  "GET_FIRST_IE m p = p + unat (ib_first_entry_off m p)"
definition GET_END_IE :: "buf \<Rightarrow> nat \<Rightarrow> nat" where "GET_END_IE m p = p + unat (bh_real_size m p)"
definition GET_NEXT_IE :: "buf \<Rightarrow> nat \<Rightarrow> nat" where "GET_NEXT_IE m q = q + unat (ie_len m q)"
definition GET_PREV_IE :: "buf \<Rightarrow> nat \<Rightarrow> nat" where "GET_PREV_IE m q = q - unat (ie_prev_len m q)"
definition GET_IE_VBN :: "buf \<Rightarrow> nat \<Rightarrow> u64" where
  "GET_IE_VBN m q = get64 m (q + unat (ie_len m q) - 8)"
definition SET_IE_VBN :: "buf \<Rightarrow> nat \<Rightarrow> u64 \<Rightarrow> buf" where
  "SET_IE_VBN m q v = put64 m (q + unat (ie_len m q) - 8) v"
definition GET_IE_KEY :: "buf \<Rightarrow> nat \<Rightarrow> u8 list" where
  "GET_IE_KEY m q = rd m (q + 9) (unat (ie_key_len m q))"
definition GET_IE_VALUE :: "buf \<Rightarrow> nat \<Rightarrow> u8 list" where
  "GET_IE_VALUE m q = rd m (q + 9 + unat (ie_key_len m q)) (unat (ie_value_len m q))"

section \<open>Operations\<close>

definition init_ib :: "buf \<Rightarrow> nat \<Rightarrow> u8 \<Rightarrow> u32 \<Rightarrow> buf" where
  "init_ib m p node_type aloc_size =
     (let large = has_flag node_type BLOCK_LARGE;
          m = memset0 m p (unat aloc_size);
          m = put32 m p 0x58444E49;
          m = put32 m (p + 4) aloc_size;
          m = put16 m (p + 16) 33;
          m = set_real_size m p (if large then 33 + 9 + 8 else 33 + 9);
          m = m(p + 18 := node_type);
          q = GET_FIRST_IE m p;
          m = set_ie_flags m q (if large then ENTRY_END OR ENTRY_NODE else ENTRY_END);
          m = set_ie_len m q (if large then 9 + 8 else 9);
          m = set_ie_prev_len m q 9;
          q = p + 24;
          m = set_ie_len m q 9;
          m = set_ie_prev_len m q 0
      in set_ie_flags m q ENTRY_BEGIN)"

definition make_ib_small :: "buf \<Rightarrow> nat \<Rightarrow> buf" where
  "make_ib_small m p =
     (let m = set_real_size m p (33 + 9);
          m = m(p + 18 := 0);
          q = GET_FIRST_IE m p;
          m = set_ie_len m q 9;
          m = set_ie_prev_len m q 9;
          m = set_ie_key_len m q 0;
          m = set_ie_value_len m q 0;
          m = set_ie_flags m q ENTRY_END;
          q = p + 24;
          m = set_ie_len m q 9;
          m = set_ie_prev_len m q 0;
          m = set_ie_key_len m q 0;
          m = set_ie_value_len m q 0
      in set_ie_flags m q ENTRY_BEGIN)"

partial_function (option) entries_length_loop :: "buf \<Rightarrow> u32 \<Rightarrow> nat \<Rightarrow> u32 option" where
  "entries_length_loop m len q =
     (if ie_is ENTRY_END m q then Some (len + ucast (ie_len m q))
      else if ie_len m q = 0 then Some len
      else entries_length_loop m (len + ucast (ie_len m q)) (GET_NEXT_IE m q))"

definition get_entries_length :: "buf \<Rightarrow> nat \<Rightarrow> u32 option" where
  "get_entries_length m q = entries_length_loop m 0 q"

partial_function (option) middle_loop :: "buf \<Rightarrow> u32 \<Rightarrow> nat \<Rightarrow> nat option" where
  "middle_loop m mid q =
     (if ie_is ENTRY_END m q then Some q
      else if mid > ucast (ie_len m q) then middle_loop m (mid - ucast (ie_len m q)) (GET_NEXT_IE m q)
      else Some q)"

definition get_middle_ie :: "buf \<Rightarrow> nat \<Rightarrow> nat option" where
  "get_middle_ie m p = middle_loop m (drop_bit 1 (bh_real_size m p - 33)) (GET_FIRST_IE m p)"

definition ib_get_last_ie :: "buf \<Rightarrow> nat \<Rightarrow> nat" where
  "ib_get_last_ie m p =
     GET_END_IE m p - (if has_flag (ib_node_type m p) BLOCK_LARGE then 9 + 8 else 9)"

definition remove_ie :: "buf \<Rightarrow> nat \<Rightarrow> nat \<Rightarrow> buf option" where
  "remove_ie m p q =
     (let m = set_real_size m p (bh_real_size m p - ucast (ie_len m q));
          next = GET_NEXT_IE m q;
          m = set_ie_prev_len m next (ie_prev_len m q)
      in do { n \<leftarrow> get_entries_length m next; Some (mv m q next (unat n)) })"

text \<open>
  The new entry is an object of its own, a byte list (at least its head of 9 bytes, \<open>ie_len\<close> of it
  its size): its head's \<open>prev_len\<close> is overwritten before it is copied. \<open>insert_ie\<close> returns the block
  and the changed entry.
\<close>

definition el_len :: "u8 list \<Rightarrow> u16" where "el_len ie = of_nat (le_val (take 2 ie))"
definition el_flags :: "u8 list \<Rightarrow> u8" where "el_flags ie = ie ! 8"
definition el_set_len :: "u8 list \<Rightarrow> u16 \<Rightarrow> u8 list" where
  "el_set_len ie v = bytes_le 2 (unat v) @ drop 2 ie"
definition el_set_prev_len :: "u8 list \<Rightarrow> u16 \<Rightarrow> u8 list" where
  "el_set_prev_len ie v = take 2 ie @ bytes_le 2 (unat v) @ drop 4 ie"
definition el_set_vbn :: "u8 list \<Rightarrow> u64 \<Rightarrow> u8 list" where
  "el_set_vbn ie v = (let o8 = unat (el_len ie) - 8 in take o8 ie @ bytes_le 8 (unat v) @ drop (o8 + 8) ie)"

definition insert_ie :: "buf \<Rightarrow> nat \<Rightarrow> u8 list \<Rightarrow> nat \<Rightarrow> (buf \<times> u8 list) option" where
  "insert_ie m p ie pos =
     (let m = set_real_size m p (bh_real_size m p + ucast (el_len ie));
          ie = el_set_prev_len ie (ie_prev_len m pos);
          m = set_ie_prev_len m pos (el_len ie)
      in do { n \<leftarrow> get_entries_length m pos;
              Some (wr (mv m (pos + unat (el_len ie)) pos (unat n)) pos (take (unat (el_len ie)) ie), ie) })"

text \<open>The copies of an entry with and without a child block number; \<open>junk\<close> is the fresh memory.\<close>

definition dump_ie_add_vbn :: "buf \<Rightarrow> nat \<Rightarrow> u64 \<Rightarrow> u8 list \<Rightarrow> u8 list" where
  "dump_ie_add_vbn m q vbn junk =
     (let len = unat (ie_len m q);
          new_size = (if \<not> ie_is ENTRY_NODE m q then ie_len m q + 8 else ie_len m q);
          ie = rd m q len @ drop len (take (unat new_size) junk);
          ie = el_set_len ie new_size;
          ie = ie[8 := el_flags ie OR ENTRY_NODE]
      in el_set_vbn ie vbn)"

definition dump_ie_del_vbn :: "buf \<Rightarrow> nat \<Rightarrow> u8 list" where
  "dump_ie_del_vbn m q =
     (let new_size = (if ie_is ENTRY_NODE m q then ie_len m q - 8 else ie_len m q);
          ie = rd m q (unat new_size);
          ie = el_set_len ie new_size
      in ie[8 := el_flags ie AND NOT ENTRY_NODE])"

text \<open>
  Splitting: \<open>copy_ib_tail\<close> moves the entries behind \<open>mid\<close> to the block at offset \<open>0\<close> of
  another buffer \<open>d\<close>; it writes the source too. \<open>cut_ib_tail\<close> puts the end entry over \<open>mid\<close>.
\<close>

definition copy_ib_tail :: "buf \<Rightarrow> buf \<Rightarrow> nat \<Rightarrow> nat \<Rightarrow> buf \<times> buf" where
  "copy_ib_tail d m p mid =
     (let d = init_ib d 0 (ib_node_type m p) (bh_alloc_size m p);
          mid = GET_NEXT_IE m mid;
          m = set_ie_prev_len m mid 9;
          tail_size = GET_END_IE m p - mid;
          d = wr d (GET_FIRST_IE d 0) (rd m mid tail_size);
          d = set_real_size d 0 (of_nat tail_size + ucast (ib_first_entry_off d 0))
      in (d, m))"

definition cut_ib_tail :: "buf \<Rightarrow> nat \<Rightarrow> nat \<Rightarrow> buf" where
  "cut_ib_tail m p q =
     (let start = GET_FIRST_IE m p;
          last = ib_get_last_ie m p;
          m = (if ie_is ENTRY_NODE m last then SET_IE_VBN m last (GET_IE_VBN m q) else m);
          m = set_ie_prev_len m last (ie_len m (GET_PREV_IE m q));
          m = wr m q (rd m last (unat (ie_len m last)))
      in set_real_size m p
           (ucast (ie_len m q) + of_nat (q - start) + ucast (ib_first_entry_off m p)))"

section \<open>Entry lists\<close>

text \<open>
  An abstract entry, its size and its bytes behind an entry of size \<open>prev\<close>; the bytes of a list
  of entries.
\<close>

record ent =
  ekey :: "u8 list"
  evalue :: "u8 list"
  echild :: "u64 option"
  eend :: bool

definition esize :: "ent \<Rightarrow> nat" where
  "esize e = 9 + length (ekey e) + length (evalue e) + (if echild e = None then 0 else 8)"

definition ent_flags :: "ent \<Rightarrow> u8" where
  "ent_flags e = (if echild e = None then 0 else ENTRY_NODE) OR (if eend e then ENTRY_END else 0)"

definition child_bytes :: "u64 option \<Rightarrow> u8 list" where
  "child_bytes c = (case c of None \<Rightarrow> [] | Some v \<Rightarrow> bytes_le 8 (unat v))"

definition ent_bytes :: "nat \<Rightarrow> ent \<Rightarrow> u8 list" where
  "ent_bytes prev e =
     bytes_le 2 (esize e) @ bytes_le 2 prev @ bytes_le 2 (length (ekey e)) @
     bytes_le 2 (length (evalue e)) @ [ent_flags e] @ ekey e @ evalue e @ child_bytes (echild e)"

fun ents_bytes :: "nat \<Rightarrow> ent list \<Rightarrow> u8 list" where
  "ents_bytes prev [] = []"
| "ents_bytes prev (e # es) = ent_bytes prev e @ ents_bytes (esize e) es"

definition esizes :: "ent list \<Rightarrow> nat" where "esizes es = sum_list (map esize es)"

lemma esizes_simps [simp]:
  "esizes [] = 0" "esizes (e # es) = esize e + esizes es" "esizes (es @ fs) = esizes es + esizes fs"
  by (simp_all add: esizes_def)

lemma esize_ge: "9 \<le> esize e"
  by (simp add: esize_def)

lemma length_child_bytes [simp]: "length (child_bytes c) = (if c = None then 0 else 8)"
  by (cases c) (simp_all add: child_bytes_def)

lemma length_ent_bytes [simp]: "length (ent_bytes prev e) = esize e"
  by (simp add: ent_bytes_def esize_def)

lemma length_ents_bytes [simp]: "length (ents_bytes prev es) = esizes es"
  by (induction es arbitrary: prev) simp_all

text \<open>An entry is at \<open>q\<close>; a list of entries starts at \<open>q\<close>.\<close>

definition ent_at :: "buf \<Rightarrow> nat \<Rightarrow> nat \<Rightarrow> ent \<Rightarrow> bool" where
  "ent_at m q prev e \<longleftrightarrow> rd m q (esize e) = ent_bytes prev e \<and> esize e < 65536 \<and> prev < 65536"

definition ents_at :: "buf \<Rightarrow> nat \<Rightarrow> nat \<Rightarrow> ent list \<Rightarrow> bool" where
  "ents_at m q prev es \<longleftrightarrow> rd m q (esizes es) = ents_bytes prev es \<and>
     (\<forall>e \<in> set es. esize e < 65536) \<and> prev < 65536"

lemma ents_at_Nil [simp]: "ents_at m q prev [] \<longleftrightarrow> prev < 65536"
  by (simp add: ents_at_def)

lemma ents_at_Cons [simp]:
  "ents_at m q prev (e # es) \<longleftrightarrow> ent_at m q prev e \<and> ents_at m (q + esize e) (esize e) es"
  by (auto simp: ents_at_def ent_at_def rd_add)

text \<open>The size of the entry before element \<open>i\<close>, \<open>prev\<close> for the first one.\<close>

definition prev_size :: "nat \<Rightarrow> ent list \<Rightarrow> nat" where
  "prev_size prev es = (if es = [] then prev else esize (last es))"

lemma ents_at_append:
  "ents_at m q prev (es @ fs) \<longleftrightarrow>
   ents_at m q prev es \<and> ents_at m (q + esizes es) (prev_size prev es) fs"
proof (induction es arbitrary: q prev)
  case Nil
  then show ?case by (auto simp: prev_size_def) (simp add: ents_at_def)
next
  case (Cons e es)
  have "prev_size (esize e) es = prev_size prev (e # es)" by (simp add: prev_size_def)
  with Cons show ?case by (simp add: add.assoc)
qed

lemma rd_sub:
  assumes "rd m q n = xs @ ys @ zs" "length xs = a" "length ys = b"
  shows "rd m (q + a) b = ys"
proof -
  have "n = a + (b + length zs)" using assms length_rd [of m q n] by simp
  then have "rd m q a @ rd m (q + a) b @ rd m (q + a + b) (length zs) = xs @ ys @ zs"
    using assms(1) by (simp add: rd_add)
  then show ?thesis using assms(2,3) by (simp add: append_eq_append_conv)
qed

lemma get16_bytes: "rd m off 2 = bytes_le 2 n \<Longrightarrow> n < 65536 \<Longrightarrow> get16 m off = of_nat n"
  by (simp add: get16_def le_val_bytes_le)

lemma unat_get16_bytes: "rd m off 2 = bytes_le 2 n \<Longrightarrow> n < 65536 \<Longrightarrow> unat (get16 m off) = n"
  by (simp add: unat_get16 le_val_bytes_le)

lemma ent_at_fields:
  assumes "ent_at m q prev e"
  shows "unat (ie_len m q) = esize e" "unat (ie_prev_len m q) = prev"
    "unat (ie_key_len m q) = length (ekey e)" "unat (ie_value_len m q) = length (evalue e)"
    "ie_flags m q = ent_flags e" "GET_IE_KEY m q = ekey e" "GET_IE_VALUE m q = evalue e"
    "echild e = Some v \<Longrightarrow> GET_IE_VBN m q = v"
proof -
  let ?k = "ekey e" and ?v = "evalue e" and ?c = "child_bytes (echild e)"
  let ?L = "bytes_le 2 (esize e)" and ?P = "bytes_le 2 prev" and ?K = "bytes_le 2 (length ?k)"
    and ?V = "bytes_le 2 (length ?v)" and ?F = "[ent_flags e]"
  have r: "rd m q (esize e) = ?L @ ?P @ ?K @ ?V @ ?F @ ?k @ ?v @ ?c" and b: "esize e < 65536" "prev < 65536"
    using assms by (simp_all add: ent_at_def ent_bytes_def)
  have kb: "length ?k < 65536" "length ?v < 65536" using b(1) by (simp_all add: esize_def)
  have 1: "rd m (q + 0) 2 = ?L" by (rule rd_sub [of m q "esize e" "[]"]) (use r in simp_all)
  have 2: "rd m (q + 2) 2 = ?P" by (rule rd_sub [of m q "esize e" "?L"]) (use r in simp_all)
  have 3: "rd m (q + 4) 2 = ?K" by (rule rd_sub [of m q "esize e" "?L @ ?P"]) (use r in simp_all)
  have 4: "rd m (q + 6) 2 = ?V" by (rule rd_sub [of m q "esize e" "?L @ ?P @ ?K"]) (use r in simp_all)
  have 5: "rd m (q + 8) 1 = ?F" by (rule rd_sub [of m q "esize e" "?L @ ?P @ ?K @ ?V"]) (use r in simp_all)
  have 6: "rd m (q + 9) (length ?k) = ?k"
    by (rule rd_sub [of m q "esize e" "?L @ ?P @ ?K @ ?V @ ?F"]) (use r in simp_all)
  have 7: "rd m (q + (9 + length ?k)) (length ?v) = ?v"
    by (rule rd_sub [of m q "esize e" "?L @ ?P @ ?K @ ?V @ ?F @ ?k"]) (use r in simp_all)
  show l: "unat (ie_len m q) = esize e" using 1 b by (simp add: ie_len_def unat_get16_bytes)
  show "unat (ie_prev_len m q) = prev" using 2 b by (simp add: ie_prev_len_def unat_get16_bytes)
  show k: "unat (ie_key_len m q) = length ?k" using 3 kb by (simp add: ie_key_len_def unat_get16_bytes)
  show v: "unat (ie_value_len m q) = length ?v" using 4 kb by (simp add: ie_value_len_def unat_get16_bytes)
  show "ie_flags m q = ent_flags e" using 5 rd_Suc [of m "q + 8" 0] by (simp add: ie_flags_def)
  show "GET_IE_KEY m q = ?k" using 6 k by (simp add: GET_IE_KEY_def)
  show "GET_IE_VALUE m q = ?v" using 7 k v by (simp add: GET_IE_VALUE_def add.assoc)
  show "GET_IE_VBN m q = v" if c: "echild e = Some v"
  proof -
    have "rd m (q + (9 + length ?k + length ?v)) 8 = bytes_le 8 (unat v)"
      by (rule rd_sub [of m q "esize e" "?L @ ?P @ ?K @ ?V @ ?F @ ?k @ ?v" _ "[]"])
         (use r c in \<open>simp_all add: child_bytes_def\<close>)
    moreover have "q + esize e - 8 = q + (9 + length ?k + length ?v)" using c by (simp add: esize_def)
    ultimately show ?thesis
      using unat_u64_less [of v] by (simp add: GET_IE_VBN_def l get64_def le_val_bytes_le)
  qed
qed

lemma ent_flag_simps [simp]:
  "has_flag (ent_flags e) ENTRY_NODE \<longleftrightarrow> echild e \<noteq> None"
  "has_flag (ent_flags e) ENTRY_END \<longleftrightarrow> eend e"
  "has_flag (ent_flags e) ENTRY_BEGIN \<longleftrightarrow> False"
  by (auto simp: has_flag_def ent_flags_def ENTRY_NODE_def ENTRY_END_def ENTRY_BEGIN_def)

lemma ent_at_is:
  assumes "ent_at m q prev e"
  shows "ie_is ENTRY_NODE m q \<longleftrightarrow> echild e \<noteq> None" "ie_is ENTRY_END m q \<longleftrightarrow> eend e"
    "ie_is ENTRY_BEGIN m q \<longleftrightarrow> False"
  using ent_at_fields(5) [OF assms] by (simp_all add: ie_is_def)

lemma ent_at_next: "ent_at m q prev e \<Longrightarrow> GET_NEXT_IE m q = q + esize e"
  using ent_at_fields(1) [of m q prev e] by (simp add: GET_NEXT_IE_def)

text \<open>A block: the entries but the last are no end entries, the last one is.\<close>

definition ends_with_end :: "ent list \<Rightarrow> bool" where
  "ends_with_end es \<longleftrightarrow> es \<noteq> [] \<and> eend (last es) \<and> ekey (last es) = [] \<and> evalue (last es) = [] \<and>
     (\<forall>e \<in> set (butlast es). \<not> eend e)"

definition begin_bytes :: "u8 list" where
  "begin_bytes = bytes_le 2 9 @ bytes_le 2 0 @ bytes_le 2 0 @ bytes_le 2 0 @ [ENTRY_BEGIN]"

definition ib_rep :: "buf \<Rightarrow> nat \<Rightarrow> ent list \<Rightarrow> bool" where
  "ib_rep m p es \<longleftrightarrow> ends_with_end es \<and> 33 + esizes es < 2 ^ 32 \<and>
     ib_first_entry_off m p = 33 \<and> unat (bh_real_size m p) = 33 + esizes es \<and>
     rd m (p + 24) 9 = begin_bytes \<and> ents_at m (p + 33) 9 es \<and>
     (\<forall>e \<in> set es. echild e = None \<longleftrightarrow> \<not> has_flag (ib_node_type m p) BLOCK_LARGE)"

text \<open>The offset of entry \<open>i\<close>.\<close>

definition ie_off :: "nat \<Rightarrow> ent list \<Rightarrow> nat \<Rightarrow> nat" where
  "ie_off p es i = p + 33 + esizes (take i es)"

lemma ends_with_end_nth:
  "ends_with_end es \<Longrightarrow> i < length es \<Longrightarrow> eend (es ! i) \<longleftrightarrow> Suc i = length es"
  by (cases es rule: rev_cases) (auto simp: ends_with_end_def nth_append)

lemma ents_at_drop:
  assumes "ents_at m q prev es" "i \<le> length es"
  shows "ents_at m (q + esizes (take i es)) (prev_size prev (take i es)) (drop i es)"
  using assms(1) ents_at_append [of m q prev "take i es" "drop i es"] by simp

lemma ents_at_nth:
  assumes "ents_at m q prev es" "i < length es"
  shows "ent_at m (q + esizes (take i es)) (prev_size prev (take i es)) (es ! i)"
  using ents_at_drop [OF assms(1), of i] assms(2) by (simp add: Cons_nth_drop_Suc [symmetric])

lemma ib_rep_nth:
  assumes "ib_rep m p es" "i < length es"
  shows "ent_at m (ie_off p es i) (prev_size 9 (take i es)) (es ! i)"
  using ents_at_nth [of m "p + 33" 9 es i] assms by (simp add: ib_rep_def ie_off_def)

lemma ie_off_Suc: "i < length es \<Longrightarrow> ie_off p es (Suc i) = ie_off p es i + esize (es ! i)"
  by (simp add: ie_off_def take_Suc_conv_app_nth)

lemma ie_off_0 [simp]: "ie_off p es 0 = p + 33"
  by (simp add: ie_off_def)

lemma ie_off_end: "ie_off p es (length es) = p + 33 + esizes es"
  by (simp add: ie_off_def)

lemma ib_rep_next:
  assumes "ib_rep m p es" "i < length es"
  shows "GET_NEXT_IE m (ie_off p es i) = ie_off p es (Suc i)"
  using ent_at_next [OF ib_rep_nth [OF assms]] assms(2) by (simp add: ie_off_Suc)

lemma ib_rep_prev:
  assumes "ib_rep m p es" "0 < i" "i < length es"
  shows "GET_PREV_IE m (ie_off p es i) = ie_off p es (i - 1)"
proof -
  obtain j where j: "i = Suc j" using assms(2) by (cases i) auto
  have "prev_size 9 (take i es) = esize (es ! j)"
    using j assms(3) by (auto simp: prev_size_def take_Suc_conv_app_nth)
  then have "unat (ie_prev_len m (ie_off p es i)) = esize (es ! j)"
    using ent_at_fields(2) [OF ib_rep_nth [OF assms(1,3)]] by simp
  then show ?thesis using ie_off_Suc [of j es p] j assms(3) by (simp add: GET_PREV_IE_def)
qed

lemma ib_rep_first: "ib_rep m p es \<Longrightarrow> GET_FIRST_IE m p = ie_off p es 0"
  by (simp add: GET_FIRST_IE_def ib_rep_def)

lemma ib_rep_endpos: "ib_rep m p es \<Longrightarrow> GET_END_IE m p = ie_off p es (length es)"
  by (simp add: GET_END_IE_def ib_rep_def ie_off_end)

section \<open>The operations act on the list\<close>

lemma entries_length_at:
  assumes "ents_at m q prev es" "ends_with_end es" "unat len + esizes es < 2 ^ 32"
  shows "entries_length_loop m len q = Some (len + of_nat (esizes es))"
  using assms
proof (induction es arbitrary: q prev len)
  case Nil
  then show ?case by (simp add: ends_with_end_def)
next
  case (Cons e es)
  then have e: "ent_at m q prev e" by simp
  note f = ent_at_fields(1) [OF e] and is' = ent_at_is [OF e]
  have u: "(ucast (ie_len m q) :: u32) = of_nat (esize e)"
    unfolding f [symmetric] by simp
  show ?case
  proof (cases "es = []")
    case True
    then have "eend e" using Cons.prems(2) by (simp add: ends_with_end_def)
    then show ?thesis using True is' u by (subst entries_length_loop.simps) simp
  next
    case False
    then have e': "\<not> eend e" "ends_with_end es"
      using Cons.prems(2) by (auto simp: ends_with_end_def)
    have nz: "ie_len m q \<noteq> 0" using f esize_ge [of e] by auto
    have "unat (len + of_nat (esize e) :: u32) = unat len + esize e"
      using Cons.prems(3) by (simp add: unat_word_ariths unat_of_nat)
    then have "entries_length_loop m (len + of_nat (esize e)) (q + esize e) =
        Some (len + of_nat (esize e) + of_nat (esizes es))"
      using Cons.IH [of "q + esize e" "esize e"] Cons.prems e' by simp
    then show ?thesis using e' is' u nz ent_at_next [OF e]
      by (subst entries_length_loop.simps) (simp add: add.assoc)
  qed
qed

lemma get_entries_length_ib:
  assumes "ib_rep m p es" "i < length es" "ents_at m' q prev (drop i es)"
  shows "get_entries_length m' q = Some (of_nat (esizes (drop i es)))"
    "unat (of_nat (esizes (drop i es)) :: u32) = esizes (drop i es)"
proof -
  have "ends_with_end (drop i es)"
    using assms(1,2) by (auto simp: ib_rep_def ends_with_end_def butlast_drop dest: in_set_dropD)
  moreover have "esizes (drop i es) < 2 ^ 32"
    using assms(1) esizes_simps(3) [of "take i es" "drop i es"] by (simp add: ib_rep_def)
  ultimately show "get_entries_length m' q = Some (of_nat (esizes (drop i es)))"
    "unat (of_nat (esizes (drop i es)) :: u32) = esizes (drop i es)"
    using entries_length_at [OF assms(3)] by (simp_all add: get_entries_length_def unat_of_nat)
qed

lemma ents_at_cong:
  "rd m q (esizes es) = rd m' q' (esizes es) \<Longrightarrow> ents_at m q prev es \<longleftrightarrow> ents_at m' q' prev es"
  by (simp add: ents_at_def)

lemma ents_at_same:
  "(\<And>j. j < esizes es \<Longrightarrow> m (q + j) = m' (q + j)) \<Longrightarrow> ents_at m q prev es \<longleftrightarrow> ents_at m' q prev es"
  by (rule ents_at_cong) (simp add: rd_eq_iff)

lemma ents_at_set_prev:
  assumes "ents_at m q prev (f # fs)"
  shows "ents_at (set_ie_prev_len m q w) q (unat w) (f # fs)"
proof -
  let ?m = "put16 m (q + 2) w"
  define n where "n = esize f - 4"
  have n: "esize f = 2 + (2 + n)" using esize_ge [of f] by (simp add: n_def)
  have r: "rd x q (esize f) = rd x q 2 @ rd x (q + 2) 2 @ rd x (q + 4) n" for x
  proof -
    have "q + 2 + 2 = q + 4" by simp
    then show ?thesis unfolding n by (simp only: rd_add)
  qed
  have f: "ent_at m q prev f" using assms by simp
  then have "rd m q 2 @ rd m (q + 2) 2 @ rd m (q + 4) n = bytes_le 2 (esize f) @ bytes_le 2 prev @
      (bytes_le 2 (length (ekey f)) @ bytes_le 2 (length (evalue f)) @ [ent_flags f] @ ekey f @
       evalue f @ child_bytes (echild f))"
    by (simp add: ent_at_def ent_bytes_def r)
  then have "rd m q 2 = bytes_le 2 (esize f)" "rd m (q + 4) n =
      (bytes_le 2 (length (ekey f)) @ bytes_le 2 (length (evalue f)) @ [ent_flags f] @ ekey f @
       evalue f @ child_bytes (echild f))"
    by (simp_all add: append_eq_append_conv)
  moreover have "rd ?m q 2 = rd m q 2" "rd ?m (q + 4) n = rd m (q + 4) n"
    "rd ?m (q + 2) 2 = bytes_le 2 (unat w)"
    by (simp_all add: buf_simps) (simp add: put16_def buf_simps)
  ultimately have "ent_at ?m q (unat w) f"
    using f unat_u16_less [of w] by (simp add: ent_at_def ent_bytes_def r)
  moreover have "ents_at ?m (q + esize f) (esize f) fs \<longleftrightarrow> ents_at m (q + esize f) (esize f) fs"
    by (rule ents_at_same) (simp add: put16_out n)
  ultimately show ?thesis using assms by (simp add: set_ie_prev_len_def)
qed

lemma prev_size_less: "ents_at m q prev es \<Longrightarrow> prev_size prev es < 65536"
  by (auto simp: ents_at_def prev_size_def)

lemma ib_rep_header:
  assumes "\<And>j. p + 12 \<le> j \<Longrightarrow> j < p + 33 \<Longrightarrow> m' j = m j"
  shows "ib_first_entry_off m' p = ib_first_entry_off m p" "ib_node_type m' p = ib_node_type m p"
    "rd m' (p + 24) 9 = rd m (p + 24) 9"
  using assms by (auto simp: ib_first_entry_off_def ib_node_type_def rd_eq_iff intro!: get_cong(1))

lemma ib_repI:
  assumes "ib_rep m p es0" "\<And>j. p + 12 \<le> j \<Longrightarrow> j < p + 33 \<Longrightarrow> m' j = m j"
    and "ends_with_end es" "33 + esizes es < 2 ^ 32" "unat (bh_real_size m' p) = 33 + esizes es"
    and "ents_at m' (p + 33) 9 es"
    and "\<forall>e \<in> set es. echild e = None \<longleftrightarrow> \<not> has_flag (ib_node_type m p) BLOCK_LARGE"
  shows "ib_rep m' p es"
  using assms ib_rep_header [of p m' m] by (simp add: ib_rep_def)

lemma ends_with_end_remove:
  assumes "ends_with_end es" "Suc i < length es"
  shows "ends_with_end (take i es @ drop (Suc i) es)"
  using assms by (auto simp: ends_with_end_def butlast_append butlast_drop in_set_butlast_appendI
      dest: in_set_dropD in_set_takeD) (metis in_set_takeD take_butlast less_SucI Suc_lessD)

lemma ie_off_ge: "p + 33 \<le> ie_off p es i"
  by (simp add: ie_off_def)

lemma esizes_take_drop: "i \<le> length es \<Longrightarrow> esizes (take i es) + esizes (drop i es) = esizes es"
  using esizes_simps(3) [of "take i es" "drop i es"] by simp

lemma remove_ie_rep:
  assumes rep: "ib_rep m p es" and i: "Suc i < length es"
  shows "\<exists>m'. remove_ie m p (ie_off p es i) = Some m' \<and> ib_rep m' p (take i es @ drop (Suc i) es) \<and>
    (\<forall>j. j < p \<or> p + 33 + esizes es \<le> j \<longrightarrow> m' j = m j)"
proof -
  let ?q = "ie_off p es i" and ?q' = "ie_off p es (Suc i)" and ?e = "es ! i" and ?t = "drop (Suc i) es"
  have il: "i < length es" using i by simp
  have e: "ent_at m ?q (prev_size 9 (take i es)) ?e" using ib_rep_nth [OF rep il] .
  note fe = ent_at_fields [OF e]
  define w where "w = ie_prev_len m ?q"
  have w: "unat w = prev_size 9 (take i es)" using fe(2) by (simp add: w_def)
  have q': "?q' = ?q + esize ?e" by (rule ie_off_Suc [OF il])
  have qp: "p + 33 \<le> ?q" by (rule ie_off_ge)
  have ents: "ents_at m (p + 33) 9 es" using rep by (simp add: ib_rep_def)
  have sum: "esizes es = esizes (take i es) + esize ?e + esizes ?t"
    using esizes_take_drop [of i es] il by (simp add: Cons_nth_drop_Suc [symmetric])
  have qs: "?q = p + 33 + esizes (take i es)" by (simp add: ie_off_def)
  define m1 where "m1 = set_real_size m p (bh_real_size m p - ucast (ie_len m ?q))"
  have o1: "m1 j = m j" if "j < p + 8 \<or> p + 12 \<le> j" for j
    using that by (auto simp: m1_def set_real_size_def put32_def wr_def)
  have l1: "ie_len m1 ?q = ie_len m ?q" "ie_prev_len m1 ?q = w"
    using qp o1 by (auto simp: ie_len_def ie_prev_len_def w_def intro!: get_cong(1))
  have n1: "GET_NEXT_IE m1 ?q = ?q'" using l1 fe(1) q' by (simp add: GET_NEXT_IE_def)
  define m2 where "m2 = set_ie_prev_len m1 ?q' w"
  have o2: "m2 j = m1 j" if "j < ?q' \<or> ?q' + 4 \<le> j" for j
    using that by (auto simp: m2_def set_ie_prev_len_def intro!: put16_out)
  have t0: "ents_at m1 ?q' (prev_size 9 (take (Suc i) es)) ?t"
  proof -
    have "ents_at m ?q' (prev_size 9 (take (Suc i) es)) ?t"
      using ents_at_drop [OF ents, of "Suc i"] i by (simp add: ie_off_def)
    then show ?thesis using qp q' by (subst ents_at_same [of _ _ _ m]) (simp_all add: o1)
  qed
  have tc: "?t = es ! Suc i # drop (Suc (Suc i)) es" using i by (rule Cons_nth_drop_Suc [symmetric])
  have t2: "ents_at m2 ?q' (unat w) ?t"
    using ents_at_set_prev [of m1 ?q' _ "es ! Suc i" "drop (Suc (Suc i)) es" w] t0
    unfolding tc [symmetric] m2_def by blast
  note len = get_entries_length_ib [OF rep i t2]
  define m3 where "m3 = mv m2 ?q ?q' (esizes ?t)"
  have rm: "remove_ie m p ?q = Some m3"
    using len n1 l1 by (simp add: remove_ie_def m1_def [symmetric] m2_def [symmetric] m3_def)
  have o3: "m3 j = m2 j" if "j < ?q \<or> ?q + esizes ?t \<le> j" for j
    using that by (auto simp: m3_def mv_def)
  have "ents_at m3 ?q (unat w) ?t \<longleftrightarrow> ents_at m2 ?q' (unat w) ?t"
    by (rule ents_at_cong) (simp add: m3_def rd_mv_in)
  then have t3: "ents_at m3 ?q (prev_size 9 (take i es)) ?t" using t2 w by simp
  have f0: "ents_at m (p + 33) 9 (take i es)"
    using ents ents_at_append [of m "p + 33" 9 "take i es" "drop i es"] by simp
  have f3: "ents_at m3 (p + 33) 9 (take i es)"
    using f0 by (subst ents_at_same [of _ _ _ m]) (simp_all add: o3 o2 o1 qs q')
  have a3: "ents_at m3 (p + 33) 9 (take i es @ ?t)"
    using f3 t3 by (simp add: ents_at_append qs)
  have hd: "m3 j = m j" if "p + 12 \<le> j" "j < p + 33" for j
    using that qp q' by (simp add: o3 o2 o1)
  have rs: "unat (bh_real_size m3 p) = 33 + esizes (take i es @ ?t)"
  proof -
    have "bh_real_size m3 p = bh_real_size m1 p"
      using qp q' by (auto simp: bh_defs o3 o2 intro!: get_cong(2))
    also have "\<dots> = bh_real_size m p - of_nat (esize ?e)"
      by (simp add: m1_def set_real_size_def bh_defs buf_simps fe(1) [symmetric])
    finally have "unat (bh_real_size m3 p) = unat (bh_real_size m p - of_nat (esize ?e) :: u32)" by simp
    moreover have "unat (bh_real_size m p) = 33 + esizes es" "33 + esizes es < 2 ^ 32"
      using rep by (simp_all add: ib_rep_def)
    moreover have "unat (of_nat (esize ?e) :: u32) = esize ?e"
      using sum calculation(3) by (simp add: unat_of_nat)
    moreover have "unat (bh_real_size m p - of_nat (esize ?e) :: u32) =
        unat (bh_real_size m p) - unat (of_nat (esize ?e) :: u32)"
      using calculation(2,4) sum by (intro unat_sub) (simp add: word_le_nat_alt)
    ultimately show ?thesis using sum by simp
  qed
  have "ib_rep m3 p (take i es @ ?t)"
  proof (rule ib_repI [OF rep hd _ _ rs a3])
    show "ends_with_end (take i es @ ?t)" using rep i ends_with_end_remove by (simp add: ib_rep_def)
    show "33 + esizes (take i es @ ?t) < 2 ^ 32" using rep sum by (simp add: ib_rep_def)
    show "\<forall>e \<in> set (take i es @ ?t). echild e = None \<longleftrightarrow> \<not> has_flag (ib_node_type m p) BLOCK_LARGE"
      using rep by (auto simp: ib_rep_def dest: in_set_takeD in_set_dropD)
  qed
  moreover have "m3 j = m j" if "j < p \<or> p + 33 + esizes es \<le> j" for j
  proof -
    have "4 \<le> esizes ?t" using tc esize_ge [of "es ! Suc i"] by simp
    then show ?thesis using that qp q' qs sum by (auto simp: o3 o2 o1)
  qed
  ultimately show ?thesis using rm by blast
qed

lemma el_ent_bytes:
  assumes "esize e < 65536"
  shows "el_len (ent_bytes prev e) = of_nat (esize e)" "unat (el_len (ent_bytes prev e)) = esize e"
    "el_set_prev_len (ent_bytes prev e) w = ent_bytes (unat w) e"
    "el_flags (ent_bytes prev e) = ent_flags e"
  using assms
  by (simp_all add: el_len_def el_set_prev_len_def el_flags_def ent_bytes_def le_val_bytes_le unat_of_nat
    nth_append)

text \<open>Both leave the size of the block's memory alone.\<close>

lemma remove_ie_alloc: "remove_ie m p q = Some m' \<Longrightarrow> p + 33 \<le> q \<Longrightarrow> bh_alloc_size m' p = bh_alloc_size m p"
  by (auto simp: remove_ie_def Let_def bind_eq_Some_conv bh_defs set_real_size_def set_ie_prev_len_def put16_def put32_def
      GET_NEXT_IE_def mv_def wr_def intro!: get_cong(2))

lemma insert_ie_alloc: "insert_ie m p ie q = Some (m', ie') \<Longrightarrow> p + 33 \<le> q \<Longrightarrow> bh_alloc_size m' p = bh_alloc_size m p"
  by (auto simp: insert_ie_def Let_def bind_eq_Some_conv bh_defs set_real_size_def set_ie_prev_len_def put16_def put32_def
      mv_def wr_def intro!: get_cong(2))

lemma insert_ie_rep:
  assumes rep: "ib_rep m p es" and i: "i < length es"
    and e: "esize e < 65536" "\<not> eend e" "echild e = None \<longleftrightarrow> \<not> has_flag (ib_node_type m p) BLOCK_LARGE"
    and fits: "33 + esizes es + esize e < 2 ^ 32"
  shows "\<exists>m' prev'. insert_ie m p (ent_bytes prev e) (ie_off p es i) = Some (m', ent_bytes prev' e) \<and>
    ib_rep m' p (take i es @ e # drop i es) \<and>
    (\<forall>j. j < p \<or> p + 33 + esizes es + esize e \<le> j \<longrightarrow> m' j = m j)"
proof -
  let ?q = "ie_off p es i" and ?t = "drop i es"
  note fe = ent_at_fields [OF ib_rep_nth [OF rep i]]
  define w where "w = ie_prev_len m ?q"
  have w: "unat w = prev_size 9 (take i es)" using fe(2) by (simp add: w_def)
  have qp: "p + 33 \<le> ?q" by (rule ie_off_ge)
  have qs: "?q = p + 33 + esizes (take i es)" by (simp add: ie_off_def)
  have ents: "ents_at m (p + 33) 9 es" using rep by (simp add: ib_rep_def)
  have sum: "esizes es = esizes (take i es) + esizes ?t"
    using esizes_take_drop [of i es] i by simp
  define m1 where "m1 = set_real_size m p (bh_real_size m p + ucast (of_nat (esize e) :: u16))"
  have o1: "m1 j = m j" if "j < p + 8 \<or> p + 12 \<le> j" for j
    using that by (auto simp: m1_def set_real_size_def put32_def wr_def)
  have l1: "ie_prev_len m1 ?q = w"
    using qp o1 by (auto simp: ie_prev_len_def w_def intro!: get_cong(1))
  define m2 where "m2 = set_ie_prev_len m1 ?q (of_nat (esize e))"
  have o2: "m2 j = m1 j" if "j < ?q \<or> ?q + 4 \<le> j" for j
    using that by (auto simp: m2_def set_ie_prev_len_def intro!: put16_out)
  have tc: "?t = es ! i # drop (Suc i) es" using i by (rule Cons_nth_drop_Suc [symmetric])
  have t0: "ents_at m1 ?q (prev_size 9 (take i es)) ?t"
  proof -
    have "ents_at m ?q (prev_size 9 (take i es)) ?t"
      using ents_at_drop [OF ents, of i] i by (simp add: ie_off_def)
    then show ?thesis using qp by (subst ents_at_same [of _ _ _ m]) (simp_all add: o1)
  qed
  have ue: "unat (of_nat (esize e) :: u16) = esize e" using e(1) by (simp add: unat_of_nat)
  have t2: "ents_at m2 ?q (esize e) ?t"
    using ents_at_set_prev [of m1 ?q _ "es ! i" "drop (Suc i) es" "of_nat (esize e)"] t0
    unfolding tc [symmetric] m2_def ue by blast
  note len = get_entries_length_ib [OF rep i t2]
  define m3 where "m3 = mv m2 (?q + esize e) ?q (esizes ?t)"
  define m4 where "m4 = wr m3 ?q (ent_bytes (unat w) e)"
  note el = el_ent_bytes [OF e(1)]
  have ins: "insert_ie m p (ent_bytes prev e) ?q = Some (m4, ent_bytes (unat w) e)"
    using len l1 el
    by (simp add: insert_ie_def Let_def m1_def [symmetric] m2_def [symmetric] m3_def [symmetric] m4_def)
  have o4: "m4 j = m2 j" if "j < ?q \<or> ?q + esize e + esizes ?t \<le> j" for j
    using that by (auto simp: m4_def m3_def mv_def wr_def)
  have "ents_at m4 (?q + esize e) (esize e) ?t \<longleftrightarrow> ents_at m2 ?q (esize e) ?t"
    by (rule ents_at_cong) (simp add: m4_def m3_def rd_wr_disj rd_mv_in)
  then have t4: "ents_at m4 (?q + esize e) (esize e) ?t" using t2 by simp
  have e4: "ent_at m4 ?q (prev_size 9 (take i es)) e"
    using e(1) unat_u16_less [of w] w by (simp add: ent_at_def m4_def rd_wr_same)
  have f0: "ents_at m (p + 33) 9 (take i es)"
    using ents ents_at_append [of m "p + 33" 9 "take i es" "drop i es"] by simp
  have f4: "ents_at m4 (p + 33) 9 (take i es)"
    using f0 by (subst ents_at_same [of _ _ _ m]) (simp_all add: o4 o2 o1 qs)
  have a4: "ents_at m4 (p + 33) 9 (take i es @ e # ?t)"
    using f4 e4 t4 by (simp add: ents_at_append qs)
  have hd: "m4 j = m j" if "p + 12 \<le> j" "j < p + 33" for j
    using that qp by (simp add: o4 o2 o1)
  have rs: "unat (bh_real_size m4 p) = 33 + esizes (take i es @ e # ?t)"
  proof -
    have "bh_real_size m4 p = bh_real_size m1 p"
      using qp by (auto simp: bh_defs o4 o2 intro!: get_cong(2))
    also have "\<dots> = bh_real_size m p + of_nat (esize e)"
      using e(1) by (simp add: m1_def set_real_size_def bh_defs buf_simps unat_of_nat
        word_unat_eq_iff unat_ucast_up unat_word_ariths)
    finally have "unat (bh_real_size m4 p) = (unat (bh_real_size m p) + esize e mod 2 ^ 32) mod 2 ^ 32"
      by (simp add: unat_word_ariths unat_of_nat)
    then show ?thesis using rep sum fits e(1) by (simp add: ib_rep_def)
  qed
  have "ib_rep m4 p (take i es @ e # ?t)"
  proof (rule ib_repI [OF rep hd _ _ rs a4])
    show "ends_with_end (take i es @ e # ?t)"
    proof -
      have en: "ends_with_end es" using rep by (simp add: ib_rep_def)
      have "x \<in> set (butlast es)" if "x \<in> set (take i es)" for x
      proof -
        have "take i (butlast es) = take i es" using i by (simp add: take_butlast)
        then show ?thesis using that by (metis in_set_takeD)
      qed
      then show ?thesis using en i e(2)
        by (auto simp: ends_with_end_def butlast_append butlast_drop last_drop dest: in_set_dropD)
    qed
    show "33 + esizes (take i es @ e # ?t) < 2 ^ 32" using fits sum by simp
    show "\<forall>x \<in> set (take i es @ e # ?t). echild x = None \<longleftrightarrow> \<not> has_flag (ib_node_type m p) BLOCK_LARGE"
      using rep e(3) by (auto simp: ib_rep_def dest: in_set_takeD in_set_dropD)
  qed
  moreover have "m4 j = m j" if "j < p \<or> p + 33 + esizes es + esize e \<le> j" for j
    using that qp qs sum esize_ge [of e] by (auto simp: o4 o2 o1)
  ultimately show ?thesis using ins by blast
qed

text \<open>The halving point: the loop stops at the entry in which half of the entry bytes are reached.\<close>

lemma middle_loop_at:
  assumes "ents_at m q prev es" "ends_with_end es" "unat mid \<le> esizes (butlast es)"
  shows "\<exists>i. i < length es \<and> middle_loop m mid q = Some (q + esizes (take i es)) \<and>
    esizes (take i es) \<le> unat mid \<and> unat mid \<le> esizes (take (Suc i) es) \<and>
    (Suc i < length es \<or> length es = 1)"
  using assms
proof (induction es arbitrary: q prev mid)
  case Nil
  then show ?case by (simp add: ends_with_end_def)
next
  case (Cons e es)
  then have e: "ent_at m q prev e" by simp
  note f = ent_at_fields(1) [OF e] and is' = ent_at_is [OF e]
  have u: "unat (ucast (ie_len m q) :: u32) = esize e" using f by (simp add: unat_ucast_up)
  show ?case
  proof (cases "es = []")
    case True
    then have "eend e" using Cons.prems(2) by (simp add: ends_with_end_def)
    then show ?thesis using True is' Cons.prems(3)
      by (intro exI [of _ 0]) (subst middle_loop.simps, simp)
  next
    case False
    then have e': "\<not> eend e" "ends_with_end es"
      using Cons.prems(2) by (auto simp: ends_with_end_def)
    show ?thesis
    proof (cases "esize e < unat mid")
      case True
      have gt: "mid > ucast (ie_len m q)" using True u by (simp add: word_less_nat_alt)
      have um: "unat (mid - ucast (ie_len m q)) = unat mid - esize e"
        using gt u by (subst unat_sub) (simp_all add: less_imp_le)
      have "unat (mid - ucast (ie_len m q)) \<le> esizes (butlast es)"
        using Cons.prems(3) False um by simp
      then obtain i where i: "i < length es"
        "middle_loop m (mid - ucast (ie_len m q)) (q + esize e) = Some (q + esize e + esizes (take i es))"
        "esizes (take i es) \<le> unat mid - esize e" "unat mid - esize e \<le> esizes (take (Suc i) es)"
        "Suc i < length es \<or> length es = 1"
        using Cons.IH [of "q + esize e" "esize e" "mid - ucast (ie_len m q)"] Cons.prems e' um by auto
      have "Suc i < length es"
      proof (rule ccontr)
        assume "\<not> Suc i < length es"
        then have "length es = 1" using i(5) by simp
        then have "butlast es = []" by (cases es) auto
        then show False using Cons.prems(3) False True by simp
      qed
      moreover have "esize e + esizes (take i es) \<le> unat mid"
        "unat mid \<le> esize e + esizes (take (Suc i) es)" using i(3,4) True by linarith+
      ultimately show ?thesis using i True gt e' is' ent_at_next [OF e]
        by (intro exI [of _ "Suc i"]) (subst middle_loop.simps, simp)
    next
      case le: False
      then have "\<not> mid > ucast (ie_len m q)" using u by (simp add: word_less_nat_alt)
      then show ?thesis using le False e' is'
        by (intro exI [of _ 0]) (subst middle_loop.simps, simp)
    qed
  qed
qed

lemma get_middle_ie_rep:
  assumes rep: "ib_rep m p es" and half: "esizes es div 2 \<le> esizes (butlast es)" and n: "1 < length es"
  shows "\<exists>i. Suc i < length es \<and> get_middle_ie m p = Some (ie_off p es i) \<and>
    esizes (take i es) \<le> esizes es div 2 \<and> esizes es div 2 \<le> esizes (take (Suc i) es)"
proof -
  have r: "unat (bh_real_size m p) = 33 + esizes es" "ents_at m (p + 33) 9 es" "ends_with_end es"
    using rep by (simp_all add: ib_rep_def)
  have "unat (bh_real_size m p - 33) = esizes es"
    using r(1) by (subst unat_sub) (simp_all add: word_le_nat_alt)
  then have "unat (drop_bit 1 (bh_real_size m p - 33)) = esizes es div 2"
    by (simp add: unat_drop_bit_div)
  with middle_loop_at [OF r(2,3), of "drop_bit 1 (bh_real_size m p - 33)"] half n show ?thesis
    by (auto simp: get_middle_ie_def ib_rep_first [OF rep] ie_off_def)
qed

section \<open>Initialisation and splitting\<close>

lemma rd_fun_upd [buf_simps]: "a < off \<or> off + n \<le> a \<Longrightarrow> rd (m(a := v)) off n = rd m off n"
  by (rule rd_eqI) auto

lemma get_fun_upd [buf_simps]:
  "a < off \<or> off + 2 \<le> a \<Longrightarrow> get16 (m(a := v)) off = get16 m off"
  "a < off \<or> off + 4 \<le> a \<Longrightarrow> get32 (m(a := v)) off = get32 m off"
  "a < off \<or> off + 8 \<le> a \<Longrightarrow> get64 (m(a := v)) off = get64 m off"
  by (simp_all add: get16_def get32_def get64_def rd_fun_upd)

lemma put_out:
  "i < a \<or> a + 2 \<le> i \<Longrightarrow> put16 m a v i = m i"
  "i < a \<or> a + 4 \<le> i \<Longrightarrow> put32 m a w i = m i"
  "i < a \<or> a + 8 \<le> i \<Longrightarrow> put64 m a x i = m i"
  by (auto simp: put16_def put32_def put64_def wr_def)

lemma rd_put_same:
  "rd (put16 m a v) a 2 = bytes_le 2 (unat v)" "rd (put32 m a w) a 4 = bytes_le 4 (unat w)"
  "rd (put64 m a x) a 8 = bytes_le 8 (unat x)"
  by (simp_all add: put16_def put32_def put64_def rd_wr_same)

text \<open>The entry of an empty block.\<close>

definition end_ent :: "u64 option \<Rightarrow> ent" where
  "end_ent c = \<lparr> ekey = [], evalue = [], echild = c, eend = True \<rparr>"

lemma esize_end_ent: "esize (end_ent c) = (if c = None then 9 else 17)"
  by (simp add: esize_def end_ent_def)

lemma rd_split9: "rd m q 9 = rd m q 2 @ rd m (q + 2) 2 @ rd m (q + 4) 2 @ rd m (q + 6) 2 @ [m (q + 8)]"
proof -
  have "rd m q (2 + (2 + (2 + (2 + 1)))) =
      rd m q 2 @ rd m (q + 2) 2 @ rd m (q + 2 + 2) 2 @ rd m (q + 2 + 2 + 2) 2 @ rd m (q + 2 + 2 + 2 + 2) 1"
    by (simp only: rd_add)
  then show ?thesis using rd_Suc [of m "q + 8" 0] by (simp add: numeral_eq_Suc)
qed

lemma rd_split17: "rd m q 17 = rd m q 9 @ rd m (q + 9) 8"
  using rd_add [of m q 9 8] by simp

lemma init_ib_rep:
  assumes "50 \<le> unat alloc"
  shows "ib_rep (init_ib m p nt alloc) p [end_ent (if has_flag nt BLOCK_LARGE then Some 0 else None)]"
    "ib_node_type (init_ib m p nt alloc) p = nt" "bh_alloc_size (init_ib m p nt alloc) p = alloc"
    "bh_blk_id (init_ib m p nt alloc) p = 0x58444E49" "bh_seq_no (init_ib m p nt alloc) p = 0"
    "j < p \<or> p + unat alloc \<le> j \<Longrightarrow> init_ib m p nt alloc j = m j"
proof -
  define L where "L = has_flag nt BLOCK_LARGE"
  define rs :: u32 where "rs = (if L then 33 + 9 + 8 else 33 + 9)"
  define fl where "fl = (if L then ENTRY_END OR ENTRY_NODE else ENTRY_END)"
  define ln :: u16 where "ln = (if L then 9 + 8 else 9)"
  define m0 where "m0 = memset0 m p (unat alloc)"
  define m1 where "m1 = put32 m0 p 0x58444E49"
  define m2 where "m2 = put32 m1 (p + 4) alloc"
  define m3 where "m3 = put16 m2 (p + 16) 33"
  define m4 where "m4 = put32 m3 (p + 8) rs"
  define m5 where "m5 = m4(p + 18 := nt)"
  define m6 where "m6 = m5(p + 33 + 8 := fl)"
  define m7 where "m7 = put16 m6 (p + 33) ln"
  define m8 where "m8 = put16 m7 (p + 33 + 2) 9"
  define m9 where "m9 = put16 m8 (p + 24) 9"
  define m10 where "m10 = put16 m9 (p + 24 + 2) 0"
  define m11 where "m11 = m10(p + 24 + 8 := ENTRY_BEGIN)"
  note ds = m11_def m10_def m9_def m8_def m7_def m6_def m5_def m4_def m3_def m2_def m1_def
  have "GET_FIRST_IE m5 p = p + 33"
    by (simp add: GET_FIRST_IE_def ib_first_entry_off_def m5_def m4_def m3_def buf_simps)
  then have eq: "init_ib m p nt alloc = m11"
    by (simp add: init_ib_def Let_def ds m0_def L_def rs_def fl_def ln_def set_real_size_def
      set_ie_flags_def set_ie_len_def set_ie_prev_len_def)
  have a: "50 \<le> unat alloc" by (rule assms)
  have z: "rd m0 (p + k) n = replicate n 0" if "k + n \<le> 50" for k n
    using that a by (auto simp: m0_def intro!: rd_memset0_in)
  have o: "m11 j = m0 j" if "p + 12 \<le> j" "j < p + 16 \<or> p + 19 \<le> j" "j < p + 24 \<or> p + 28 \<le> j"
      "j < p + 32 \<or> p + 37 \<le> j" "j \<noteq> p + 41" for j
    using that by (auto simp: ds put_out)
  have d11: "rd m11 (p + k) n = replicate n 0" if "12 \<le> k" "k + n \<le> 16 \<or> 28 \<le> k"
      "k + n \<le> 32 \<or> 37 \<le> k" "k + n \<le> 41 \<or> 42 \<le> k" "k + n \<le> 50" for k n
  proof -
    have "rd m11 (p + k) n = rd m0 (p + k) n" by (rule rd_eqI, rule o) (use that in auto)
    then show ?thesis using z [OF that(5)] by simp
  qed
  have zk: "rd m11 (p + 24 + 4) 2 = replicate 2 0" "rd m11 (p + 24 + 6) 2 = replicate 2 0"
    "rd m11 (p + 33 + 4) 2 = replicate 2 0" "rd m11 (p + 33 + 6) 2 = replicate 2 0"
    "rd m11 (p + 33 + 9) 8 = replicate 8 0" "rd m11 (p + 12) 2 = replicate 2 0"
    unfolding add.assoc by (rule d11; simp)+
  have "bytes_le n 0 = replicate n 0" for n by (induction n) simp_all
  then have zb: "bytes_le 2 0 = replicate 2 0" "bytes_le 8 0 = replicate 8 0" by blast+
  have s24: "rd m11 (p + 24) 2 = bytes_le 2 9" "rd m11 (p + 24 + 2) 2 = bytes_le 2 0"
      "m11 (p + 24 + 8) = ENTRY_BEGIN"
    by (simp_all add: ds buf_simps rd_put_same)
  have s33: "rd m11 (p + 33) 2 = bytes_le 2 (unat ln)" "rd m11 (p + 33 + 2) 2 = bytes_le 2 9"
      "m11 (p + 33 + 8) = fl"
    by (simp_all add: ds buf_simps rd_put_same put_out)
  have bb: "rd m11 (p + 24) 9 = begin_bytes"
    unfolding rd_split9 begin_bytes_def s24 zk zb by simp
  let ?e = "end_ent (if L then Some 0 else None)"
  have eb: "ent_bytes 9 ?e = bytes_le 2 (unat ln) @ bytes_le 2 9 @ bytes_le 2 0 @ bytes_le 2 0 @ [fl] @
      (if L then bytes_le 8 0 else [])"
    by (simp add: ent_bytes_def end_ent_def esize_def ln_def fl_def ent_flags_def child_bytes_def or.commute)
  have r9: "rd m11 (p + 33) 9 = bytes_le 2 (unat ln) @ bytes_le 2 9 @ bytes_le 2 0 @ bytes_le 2 0 @ [fl]"
    unfolding rd_split9 s33 zk zb by simp
  have "ent_at m11 (p + 33) 9 ?e"
    unfolding ent_at_def eb esize_end_ent using r9 zk(5) zb(2) rd_split17 [of m11 "p + 33"] by simp
  moreover have "ib_first_entry_off m11 p = 33" "unat (bh_real_size m11 p) = 33 + esize ?e"
    by (simp_all add: ib_first_entry_off_def bh_defs ds buf_simps rs_def esize_end_ent)
  moreover show nt: "ib_node_type (init_ib m p nt alloc) p = nt"
    by (simp add: eq ib_node_type_def ds buf_simps put_out)
  ultimately show "ib_rep (init_ib m p nt alloc) p [end_ent (if has_flag nt BLOCK_LARGE then Some 0 else None)]"
    using bb by (simp add: eq [symmetric] ib_rep_def ends_with_end_def L_def [symmetric] esize_end_ent)
      (simp add: end_ent_def)
  show "bh_alloc_size (init_ib m p nt alloc) p = alloc" "bh_blk_id (init_ib m p nt alloc) p = 0x58444E49"
    by (simp_all add: eq bh_defs ds buf_simps)
  show "bh_seq_no (init_ib m p nt alloc) p = 0"
    using zk(6) by (simp add: eq bh_defs get16_def)
  show "j < p \<or> p + unat alloc \<le> j \<Longrightarrow> init_ib m p nt alloc j = m j"
    using a by (auto simp: eq ds put_out m0_def memset0_def)
qed

text \<open>The upper half goes to a fresh block, the lower half keeps its entries and the split entry.\<close>

lemma ends_with_end_drop: "ends_with_end es \<Longrightarrow> i < length es \<Longrightarrow> ends_with_end (drop i es)"
  by (auto simp: ends_with_end_def butlast_drop dest: in_set_dropD)

lemma copy_ib_tail_rep:
  assumes rep: "ib_rep m p es" and i: "Suc i < length es" and a: "50 \<le> unat (bh_alloc_size m p)"
  shows "\<exists>d' m'. copy_ib_tail d m p (ie_off p es i) = (d', m') \<and> ib_rep d' 0 (drop (Suc i) es) \<and>
    bh_alloc_size d' 0 = bh_alloc_size m p \<and> ib_node_type d' 0 = ib_node_type m p \<and>
    m' = set_ie_prev_len m (ie_off p es (Suc i)) 9 \<and>
    ents_at m' (ie_off p es (Suc i)) 9 (drop (Suc i) es) \<and> ents_at m' (p + 33) 9 (take (Suc i) es)"
proof -
  let ?q' = "ie_off p es (Suc i)" and ?t = "drop (Suc i) es"
  let ?d0 = "init_ib d 0 (ib_node_type m p) (bh_alloc_size m p)"
  have il: "i < length es" using i by simp
  have ents: "ents_at m (p + 33) 9 es" and en: "ends_with_end es" using rep by (simp_all add: ib_rep_def)
  note ini = init_ib_rep [OF a, where m = d and p = 0 and nt = "ib_node_type m p"]
  define m' where "m' = set_ie_prev_len m ?q' 9"
  have tc: "?t = es ! Suc i # drop (Suc (Suc i)) es" using i by (rule Cons_nth_drop_Suc [symmetric])
  have t0: "ents_at m ?q' (prev_size 9 (take (Suc i) es)) ?t"
    using ents_at_drop [OF ents, of "Suc i"] i by (simp add: ie_off_def)
  have t1: "ents_at m' ?q' 9 ?t"
    using ents_at_set_prev [of m ?q' _ "es ! Suc i" "drop (Suc (Suc i)) es" 9] t0
    unfolding tc [symmetric] m'_def by simp
  have f0: "ents_at m (p + 33) 9 (take (Suc i) es)"
    using ents ents_at_append [of m "p + 33" 9 "take (Suc i) es" ?t] by simp
  have f1: "ents_at m' (p + 33) 9 (take (Suc i) es)"
    using f0 by (subst ents_at_same [of _ _ _ m])
      (simp_all add: m'_def set_ie_prev_len_def put16_out ie_off_def)
  have "GET_END_IE m' p = GET_END_IE m p"
    using ie_off_ge [of p es "Suc i"]
    by (simp add: GET_END_IE_def m'_def set_ie_prev_len_def bh_defs get_put16_disj)
  then have ts: "GET_END_IE m' p - ?q' = esizes ?t"
    using ib_rep_endpos [OF rep] esizes_take_drop [of "Suc i" es] i by (simp add: ie_off_def)
  have g0: "GET_FIRST_IE ?d0 0 = 33" using ib_rep_first [OF ini(1)] by simp
  define d1 where "d1 = wr ?d0 33 (rd m' ?q' (esizes ?t))"
  have o1: "d1 j = ?d0 j" if "j < 33" for j using that by (simp add: d1_def wr_def)
  have "ib_first_entry_off d1 0 = ib_first_entry_off ?d0 0"
    unfolding ib_first_entry_off_def by (rule get_cong(1)) (simp add: o1)
  then have fe1: "ib_first_entry_off d1 0 = 33" using ini(1) by (simp add: ib_rep_def)
  define d2 where "d2 = set_real_size d1 0 (of_nat (esizes ?t) + 33)"
  have o2: "d2 j = d1 j" if "j < 8 \<or> 12 \<le> j" for j
    using that by (auto simp: d2_def set_real_size_def put_out)
  have eq: "copy_ib_tail d m p (ie_off p es i) = (d2, m')"
    by (simp add: copy_ib_tail_def Let_def ib_rep_next [OF rep il] m'_def [symmetric] ts g0
      d1_def [symmetric] fe1 d2_def)
  have sm: "33 + esizes ?t < 2 ^ 32"
    using rep esizes_take_drop [of "Suc i" es] i by (simp add: ib_rep_def)
  have "ib_rep d2 0 ?t"
  proof (rule ib_repI [OF ini(1)])
    show "d2 j = ?d0 j" if "0 + 12 \<le> j" "j < 0 + 33" for j using that o1 o2 by simp
    show "ends_with_end ?t" using en i by (simp add: ends_with_end_drop)
    show "33 + esizes ?t < 2 ^ 32" by (rule sm)
    show "unat (bh_real_size d2 0) = 33 + esizes ?t"
      using sm by (simp add: d2_def set_real_size_def bh_defs buf_simps unat_word_ariths unat_of_nat)
    have "rd d2 (0 + 33) (esizes ?t) = rd d1 33 (esizes ?t)" by (rule rd_eqI) (simp add: o2)
    then have "ents_at d2 (0 + 33) 9 ?t \<longleftrightarrow> ents_at m' ?q' 9 ?t"
      by (intro ents_at_cong) (simp add: d1_def rd_wr_same)
    then show "ents_at d2 (0 + 33) 9 ?t" using t1 by simp
    show "\<forall>e \<in> set ?t. echild e = None \<longleftrightarrow> \<not> has_flag (ib_node_type ?d0 0) BLOCK_LARGE"
      using rep ini(2) by (auto simp: ib_rep_def dest: in_set_dropD)
  qed
  moreover have "bh_alloc_size d2 0 = bh_alloc_size m p"
  proof -
    have "get32 d2 4 = get32 ?d0 4" by (rule get_cong(2)) (simp add: o1 o2)
    then show ?thesis using ini(3) by (simp add: bh_alloc_size_def [of d2] bh_alloc_size_def [of ?d0])
  qed
  moreover have "ib_node_type d2 0 = ib_node_type m p"
    using ini(2) o1 o2 by (simp add: ib_node_type_def)
  ultimately show ?thesis using eq t1 f1 by (simp add: m'_def)
qed

lemma ent_bytes_split17:
  assumes "ent_at m q prev e" "ekey e = []" "evalue e = []"
  shows "rd m q 9 = bytes_le 2 (esize e) @ bytes_le 2 prev @ bytes_le 2 0 @ bytes_le 2 0 @ [ent_flags e]"
    "echild e = Some v \<Longrightarrow> rd m (q + 9) 8 = bytes_le 8 (unat v)"
proof -
  have r: "rd m q (esize e) = ent_bytes prev e" using assms(1) by (simp add: ent_at_def)
  show "rd m q 9 = bytes_le 2 (esize e) @ bytes_le 2 prev @ bytes_le 2 0 @ bytes_le 2 0 @ [ent_flags e]"
    using rd_sub [of m q "esize e" "[]" "bytes_le 2 (esize e) @ bytes_le 2 prev @ bytes_le 2 0 @
      bytes_le 2 0 @ [ent_flags e]" "child_bytes (echild e)" 0 9] r assms(2,3)
    by (simp add: ent_bytes_def)
  show "echild e = Some v \<Longrightarrow> rd m (q + 9) 8 = bytes_le 8 (unat v)"
    using rd_sub [of m q "esize e" "bytes_le 2 (esize e) @ bytes_le 2 prev @ bytes_le 2 0 @
      bytes_le 2 0 @ [ent_flags e]" "bytes_le 8 (unat v)" "[]" 9 8] r assms(2,3)
    by (simp add: ent_bytes_def child_bytes_def)
qed

lemma end_ent_atI:
  assumes "rd m q 9 = bytes_le 2 (esize (end_ent c)) @ bytes_le 2 prev @ bytes_le 2 0 @ bytes_le 2 0 @
      [ent_flags (end_ent c)]"
    and "\<And>v. c = Some v \<Longrightarrow> rd m (q + 9) 8 = bytes_le 8 (unat v)" and "prev < 65536"
  shows "ent_at m q prev (end_ent c)"
proof (cases c)
  case None
  then show ?thesis using assms
    by (simp add: ent_at_def esize_end_ent ent_bytes_def) (simp add: end_ent_def child_bytes_def)
next
  case (Some v)
  then show ?thesis using assms rd_split17 [of m q]
    by (simp add: ent_at_def esize_end_ent ent_bytes_def) (simp add: end_ent_def child_bytes_def)
qed

lemma split_sizes:
  assumes "Suc i < length es"
  shows "esizes es = esizes (take i es) + esize (es ! i) + esizes (butlast (drop (Suc i) es)) + esize (last es)"
proof -
  have "drop (Suc i) es = butlast (drop (Suc i) es) @ [last es]"
    using assms by (metis append_butlast_last_id drop_eq_Nil last_drop not_le)
  then have "esizes (drop (Suc i) es) = esizes (butlast (drop (Suc i) es)) + esize (last es)"
    by (metis add_0_right esizes_simps)
  moreover have "esizes es = esizes (take i es) + esizes (es ! i # drop (Suc i) es)"
    using esizes_take_drop [of i es] assms by (simp add: Cons_nth_drop_Suc)
  ultimately show ?thesis by simp
qed

text \<open>
  \<open>cut_ib_tail\<close> runs after \<open>copy_ib_tail\<close> changed the entry behind the split entry: the block
  keeps the entries before the split entry; its end entry gets the child of the split entry.
\<close>

lemma cut_ib_tail_rep:
  assumes rep: "ib_rep m0 p es" and i: "Suc i < length es"
    and m: "m = set_ie_prev_len m0 (ie_off p es (Suc i)) 9"
    and t: "ents_at m (ie_off p es (Suc i)) 9 (drop (Suc i) es)"
    and f: "ents_at m (p + 33) 9 (take (Suc i) es)"
  shows "ib_rep (cut_ib_tail m p (ie_off p es i)) p (take i es @ [end_ent (echild (es ! i))])"
    and "\<forall>j. j < p \<or> p + 33 + esizes es \<le> j \<longrightarrow> cut_ib_tail m p (ie_off p es i) j = m0 j"
proof -
  let ?q = "ie_off p es i" and ?q' = "ie_off p es (Suc i)" and ?l = "last es" and ?e = "es ! i"
  let ?b = "butlast (drop (Suc i) es)"
  have il: "i < length es" using i by simp
  have en: "ends_with_end es" using rep by (simp add: ib_rep_def)
  have q': "?q' = ?q + esize ?e" by (rule ie_off_Suc [OF il])
  have qs: "?q = p + 33 + esizes (take i es)" by (simp add: ie_off_def)
  note sizes = split_sizes [OF i]
  have o: "m j = m0 j" if "j < ?q' \<or> ?q' + 4 \<le> j" for j
    using that by (auto simp: m set_ie_prev_len_def intro!: put16_out)
  have ch: "echild x = None \<longleftrightarrow> \<not> has_flag (ib_node_type m0 p) BLOCK_LARGE" if "x \<in> set es" for x
    using rep that by (simp add: ib_rep_def)
  have le: "?l \<in> set es" "?e \<in> set es" using i by (auto intro: last_in_set)
  have nt: "ib_node_type m p = ib_node_type m0 p" using qs q' by (simp add: ib_node_type_def o)
  have hs: "get16 m (p + 16) = get16 m0 (p + 16)" "get32 m (p + 8) = get32 m0 (p + 8)"
    using qs q' by (auto simp: o intro!: get_cong)
  then have start: "GET_FIRST_IE m p = p + 33" and ge: "GET_END_IE m p = p + 33 + esizes es"
    using ib_rep_first [OF rep] ib_rep_endpos [OF rep]
    by (simp_all add: GET_FIRST_IE_def ib_first_entry_off_def GET_END_IE_def bh_defs ie_off_end)
  define ql where "ql = ?q' + esizes ?b"
  have sl: "esize ?l = (if has_flag (ib_node_type m0 p) BLOCK_LARGE then 17 else 9)"
    using ch [OF le(1)] en by (auto simp: esize_def ends_with_end_def)
  have big: "esize ?l \<le> esize ?e"
    using sl ch [OF le(2)] by (auto simp: esize_def)
  have last: "ib_get_last_ie m p = ql"
    using sizes sl by (simp add: ib_get_last_ie_def ge nt ql_def q' qs)
  have dl: "drop (Suc i) es = ?b @ [?l]"
    using i by (metis append_butlast_last_id drop_eq_Nil last_drop not_le)
  have lat: "ent_at m ql (prev_size 9 ?b) ?l" and pl: "prev_size 9 ?b < 65536"
    using t dl ents_at_append [of m ?q' 9 ?b "[?l]"] by (simp_all add: ql_def ent_at_def)
  have eat: "ent_at m ?q (prev_size 9 (take i es)) ?e" and fi: "ents_at m (p + 33) 9 (take i es)"
    using f il by (simp_all add: take_Suc_conv_app_nth ents_at_append qs)
  have kv: "ekey ?l = []" "evalue ?l = []" "eend ?l" using en by (simp_all add: ends_with_end_def)
  have ll: "unat (ie_len m ql) = esize ?l" by (rule ent_at_fields(1) [OF lat])
  define m1 where "m1 = (if ie_is ENTRY_NODE m ql then SET_IE_VBN m ql (GET_IE_VBN m ?q) else m)"
  have o1: "m1 j = m j" if "j < ql + 9 \<or> ql + esize ?l \<le> j" for j
    using that ll sl by (auto simp: m1_def SET_IE_VBN_def put_out ent_at_is(1) [OF lat] ch [OF le(1)])
  have v1: "rd m1 (ql + 9) 8 = bytes_le 8 (unat v)" if "echild ?e = Some v" for v
  proof -
    have "echild ?l \<noteq> None" using that ch le by (metis option.distinct(1))
    then have l17: "esize ?l = 17" and c: "ie_is ENTRY_NODE m ql"
      using sl ch [OF le(1)] ent_at_is(1) [OF lat] by simp_all
    have "ql + 17 - 8 = ql + 9" by simp
    then have "m1 = put64 m (ql + 9) v"
      using c ll l17 ent_at_fields(8) [OF eat that] by (simp only: m1_def SET_IE_VBN_def if_True)
    then show ?thesis by (simp only: rd_put_same)
  qed
  have pv: "unat (ie_len m1 (GET_PREV_IE m1 ?q)) = prev_size 9 (take i es)"
  proof -
    have "get16 m1 (?q + 2) = get16 m (?q + 2)"
      by (rule get_cong(1)) (use q' esize_ge [of ?e] in \<open>simp add: o1 ql_def\<close>)
    then have "GET_PREV_IE m1 ?q = GET_PREV_IE m ?q"
      by (simp only: GET_PREV_IE_def ie_prev_len_def)
    also have "\<dots> = ?q - prev_size 9 (take i es)" using ent_at_fields(2) [OF eat] by (simp add: GET_PREV_IE_def)
    finally have g: "GET_PREV_IE m1 ?q = ?q - prev_size 9 (take i es)" .
    show ?thesis
    proof (cases i)
      case 0
      have "get16 m1 (p + 24) = get16 m0 (p + 24)"
        using qs q' by (auto simp: o1 o ql_def intro!: get_cong(1))
      moreover have "rd m0 (p + 24) 2 = bytes_le 2 9"
        using rep rd_sub [of m0 "p + 24" 9 "[]" "bytes_le 2 9" "bytes_le 2 0 @ bytes_le 2 0 @ bytes_le 2 0 @ [ENTRY_BEGIN]" 0 2]
        by (simp add: ib_rep_def begin_bytes_def)
      moreover have "GET_PREV_IE m1 ?q = p + 24" using 0 g by (simp add: prev_size_def)
      ultimately show ?thesis using 0 unat_get16_bytes [of m0 "p + 24" 9]
        by (simp only: prev_size_def ie_len_def take_0 if_True) simp
    next
      case (Suc k)
      have k: "k < length es" "prev_size 9 (take i es) = esize (es ! k)" using Suc il
        by (auto simp: prev_size_def take_Suc_conv_app_nth)
      have qk': "?q = ie_off p es k + esize (es ! k)" using Suc ie_off_Suc [OF k(1)] by simp
      then have qk: "GET_PREV_IE m1 ?q = ie_off p es k" using g k by simp
      have "ent_at m (ie_off p es k) (prev_size 9 (take k es)) (es ! k)"
        using ents_at_nth [OF fi, of k] Suc il by (simp add: ie_off_def min_def)
      moreover have "ie_len m1 (ie_off p es k) = ie_len m (ie_off p es k)"
        unfolding ie_len_def
        by (rule get_cong(1)) (use qk' esize_ge [of "es ! k"] q' in \<open>simp add: o1 ql_def\<close>)
      ultimately show ?thesis using qk k(2) ent_at_fields(1) by simp
    qed
  qed
  define m2 where "m2 = set_ie_prev_len m1 ql (ie_len m1 (GET_PREV_IE m1 ?q))"
  have o2: "m2 j = m1 j" if "j < ql + 2 \<or> ql + 4 \<le> j" for j
    using that by (auto simp: m2_def set_ie_prev_len_def put16_out)
  have ll2: "unat (ie_len m2 ql) = esize ?l"
  proof -
    have "ie_len m2 ql = ie_len m ql" by (auto simp: ie_len_def o2 o1 intro!: get_cong(1))
    then show ?thesis using ll by simp
  qed
  define m3 where "m3 = wr m2 ?q (rd m2 ql (esize ?l))"
  have o3: "m3 j = m2 j" if "j < ?q \<or> ?q + esize ?l \<le> j" for j
    using that by (simp add: m3_def wr_out)
  define m4 where "m4 = set_real_size m3 p (ucast (ie_len m3 ?q) + of_nat (?q - (p + 33)) +
      ucast (ib_first_entry_off m3 p))"
  have o4: "m4 j = m3 j" if "j < p + 8 \<or> p + 12 \<le> j" for j
    using that by (auto simp: m4_def set_real_size_def put_out)
  have cut: "cut_ib_tail m p ?q = m4"
    by (simp add: cut_ib_tail_def Let_def start last m1_def [symmetric] m2_def [symmetric] ll2
      m3_def [symmetric] m4_def)
  show "\<forall>j. j < p \<or> p + 33 + esizes es \<le> j \<longrightarrow> cut_ib_tail m p ?q j = m0 j"
    unfolding cut using sizes esize_ge [of ?l] qs q' big by (auto simp: o4 o3 o2 o1 o ql_def)
  let ?E = "end_ent (echild ?e)"
  have se: "esize ?E = esize ?l"
    using ch [OF le(2)] sl by (auto simp: esize_end_ent)
  have fl: "ent_flags ?l = ent_flags ?E"
    using ch [OF le(1)] ch [OF le(2)] kv(3) by (simp add: ent_flags_def end_ent_def)
  have r2: "rd m2 ql 9 = bytes_le 2 (esize ?E) @ bytes_le 2 (prev_size 9 (take i es)) @ bytes_le 2 0 @
      bytes_le 2 0 @ [ent_flags ?E]"
  proof -
    have "rd m ql 2 = bytes_le 2 (esize ?l)" "rd m (ql + 4) 2 = bytes_le 2 0" "rd m (ql + 6) 2 = bytes_le 2 0"
      "m (ql + 8) = ent_flags ?l"
      using ent_bytes_split17(1) [OF lat kv(1,2)] unfolding rd_split9 by simp_all
    moreover have "rd m2 ql 2 = rd m ql 2" "rd m2 (ql + 4) 2 = rd m (ql + 4) 2"
      "rd m2 (ql + 6) 2 = rd m (ql + 6) 2" "m2 (ql + 8) = m (ql + 8)"
      by (auto simp: rd_eq_iff o2 o1)
    moreover have "rd m2 (ql + 2) 2 = bytes_le 2 (prev_size 9 (take i es))"
      using pv by (simp add: m2_def set_ie_prev_len_def rd_put_same)
    ultimately show ?thesis unfolding rd_split9 using se fl by simp
  qed
  have r3: "rd m4 ?q (esize ?l) = rd m2 ql (esize ?l)"
  proof -
    have "rd m4 ?q (esize ?l) = rd m3 ?q (esize ?l)" by (rule rd_eqI) (simp add: o4 qs)
    then show ?thesis by (simp add: m3_def rd_wr_same)
  qed
  have r3n: "rd m4 (?q + k) n = rd m2 (ql + k) n" if "k + n \<le> esize ?l" for k n
    using r3 that by (simp add: rd_eq_iff add.assoc)
  have e4: "ent_at m4 ?q (prev_size 9 (take i es)) ?E"
  proof (rule end_ent_atI)
    show "rd m4 ?q 9 = bytes_le 2 (esize ?E) @ bytes_le 2 (prev_size 9 (take i es)) @ bytes_le 2 0 @
      bytes_le 2 0 @ [ent_flags ?E]"
      using r2 r3n [of 0 9] esize_ge [of ?l] by simp
    show "prev_size 9 (take i es) < 65536" using eat by (simp add: ent_at_def)
    show "rd m4 (?q + 9) 8 = bytes_le 8 (unat v)" if "echild ?e = Some v" for v
    proof -
      have "esize ?l = 17" using that se by (simp add: esize_end_ent)
      moreover have "rd m2 (ql + 9) 8 = rd m1 (ql + 9) 8" by (rule rd_eqI) (simp add: o2)
      ultimately show ?thesis using v1 [OF that] r3n [of 9 8] by simp
    qed
  qed
  have f4: "ents_at m4 (p + 33) 9 (take i es)"
    using fi by (subst ents_at_same [of _ _ _ m]) (simp_all add: o4 o3 o2 o1 qs q' ql_def)
  have a4: "ents_at m4 (p + 33) 9 (take i es @ [?E])"
    using f4 e4 by (simp add: ents_at_append qs) (simp add: ent_at_def)
  have hd: "m4 j = m0 j" if "p + 12 \<le> j" "j < p + 33" for j
    using that qs q' by (simp add: o4 o3 o2 o1 o ql_def)
  have fo: "ib_first_entry_off m3 p = 33"
  proof -
    have "ib_first_entry_off m3 p = ib_first_entry_off m0 p"
      unfolding ib_first_entry_off_def using qs q' by (intro get_cong(1)) (simp add: o3 o2 o1 o ql_def)
    then show ?thesis using rep by (simp add: ib_rep_def)
  qed
  have l3: "unat (ie_len m3 ?q) = esize ?l"
  proof -
    have "ie_len m4 ?q = ie_len m3 ?q" unfolding ie_len_def by (rule get_cong(1)) (simp add: o4 qs)
    then show ?thesis using ent_at_fields(1) [OF e4] se by simp
  qed
  have small: "33 + esizes (take i es) + esize ?l < 2 ^ 32"
    using rep sizes big by (simp add: ib_rep_def)
  have rs: "unat (bh_real_size m4 p) = 33 + esizes (take i es @ [?E])"
  proof -
    have "bh_real_size m4 p = ucast (ie_len m3 ?q) + of_nat (esizes (take i es)) + 33"
      by (simp add: m4_def set_real_size_def bh_defs buf_simps fo qs)
    then show ?thesis using l3 small se by (simp add: unat_word_ariths unat_of_nat unat_ucast_up)
  qed
  show "ib_rep (cut_ib_tail m p ?q) p (take i es @ [?E])"
    unfolding cut
  proof (rule ib_repI [OF rep hd _ _ rs a4])
    have "\<not> eend x" if "x \<in> set (take i es)" for x
    proof -
      have "take i (butlast es) = take i es" using il by (simp add: take_butlast)
      then show ?thesis using that en by (metis ends_with_end_def in_set_takeD)
    qed
    then show "ends_with_end (take i es @ [?E])" by (simp add: ends_with_end_def) (simp add: end_ent_def)
    show "33 + esizes (take i es @ [?E]) < 2 ^ 32" using small se by simp
    show "\<forall>x \<in> set (take i es @ [?E]). echild x = None \<longleftrightarrow> \<not> has_flag (ib_node_type m0 p) BLOCK_LARGE"
      using ch ch [OF le(2)] by (auto dest: in_set_takeD) (auto simp: end_ent_def)
  qed
qed

section \<open>Entries with and without a child\<close>

lemma el_update_head:
  assumes "length r = n" "esz < 65536"
  shows "el_set_len (bytes_le 2 a @ bytes_le 2 b @ bytes_le 2 c @ bytes_le 2 d @ f # r) (of_nat esz) =
      bytes_le 2 esz @ bytes_le 2 b @ bytes_le 2 c @ bytes_le 2 d @ f # r"
    "(bytes_le 2 a @ bytes_le 2 b @ bytes_le 2 c @ bytes_le 2 d @ f # r)[8 := g] =
      bytes_le 2 a @ bytes_le 2 b @ bytes_le 2 c @ bytes_le 2 d @ g # r"
    "el_flags (bytes_le 2 a @ bytes_le 2 b @ bytes_le 2 c @ bytes_le 2 d @ f # r) = f"
    "unat (el_len (bytes_le 2 esz @ bytes_le 2 b @ bytes_le 2 c @ bytes_le 2 d @ f # r)) = esz"
  using assms
  by (simp_all add: el_set_len_def list_update_append el_flags_def nth_append el_len_def le_val_bytes_le
    unat_of_nat)

lemma ent_flags_child: "eend e' = eend e \<Longrightarrow> echild e' = Some v \<Longrightarrow> ent_flags e' = ent_flags e OR ENTRY_NODE"
  by (auto simp: ent_flags_def ENTRY_NODE_def ENTRY_END_def)

lemma ent_flags_no_child:
  "eend e' = eend e \<Longrightarrow> echild e' = None \<Longrightarrow> ent_flags e' = ent_flags e AND NOT ENTRY_NODE"
  by (auto simp: ent_flags_def ENTRY_NODE_def ENTRY_END_def)

lemma el_set_vbn_at:
  assumes "unat (el_len (xs @ ys)) = length xs + 8" "length ys = 8"
  shows "el_set_vbn (xs @ ys) v = xs @ bytes_le 8 (unat v)"
  using assms by (simp add: el_set_vbn_def Let_def)

lemma dump_ie_add_vbn_rep:
  assumes e: "ent_at m q prev e" and sz: "esize e + 8 < 65536" and j: "esize e + 8 \<le> length junk"
  shows "dump_ie_add_vbn m q v junk = ent_bytes prev (e\<lparr> echild := Some v \<rparr>)"
proof -
  let ?e = "e\<lparr> echild := Some v \<rparr>"
  let ?r = "ekey e @ evalue e"
  define ns where "ns = (if echild e = None then ie_len m q + 8 else ie_len m q)"
  have se: "esize ?e = 9 + length ?r + 8" "esize e = 9 + length ?r + (if echild e = None then 0 else 8)"
    by (simp_all add: esize_def)
  have l: "unat (ie_len m q) = esize e" by (rule ent_at_fields(1) [OF e])
  have ns: "unat ns = esize ?e" using l sz se by (auto simp: ns_def unat_word_ariths)
  have nsw: "ns = of_nat (esize ?e)" unfolding ns [symmetric] by simp
  have node: "ie_is ENTRY_NODE m q \<longleftrightarrow> echild e \<noteq> None" by (rule ent_at_is(1) [OF e])
  have raw: "rd m q (esize e) = bytes_le 2 (esize e) @ bytes_le 2 prev @ bytes_le 2 (length (ekey e)) @
      bytes_le 2 (length (evalue e)) @ ent_flags e # ?r @ child_bytes (echild e)"
    using e by (simp add: ent_at_def ent_bytes_def)
  obtain c where c: "length c = 8" "rd m q (esize e) @ drop (esize e) (take (unat ns) junk) =
      bytes_le 2 (esize e) @ bytes_le 2 prev @ bytes_le 2 (length (ekey e)) @
      bytes_le 2 (length (evalue e)) @ ent_flags e # ?r @ c"
  proof (cases "echild e = None")
    case True
    show ?thesis by (rule that [of "drop (esize e) (take (unat ns) junk)"])
        (use True raw ns se j in \<open>simp_all add: child_bytes_def\<close>)
  next
    case False
    then obtain u where "echild e = Some u" by blast
    then show ?thesis by (intro that [of "child_bytes (echild e)"]) (use raw ns se in simp_all)
  qed
  have es: "esize ?e < 65536" using sz se by simp
  note h = el_update_head [OF refl es]
  let ?h = "bytes_le 2 (esize ?e) @ bytes_le 2 prev @ bytes_le 2 (length (ekey e)) @
      bytes_le 2 (length (evalue e)) @ (ent_flags e OR ENTRY_NODE) # ?r"
  have "dump_ie_add_vbn m q v junk = el_set_vbn (?h @ c) v"
    unfolding dump_ie_add_vbn_def Let_def l node c(2) [unfolded ns_def] not_not
    by (simp only: c(2) ns_def [symmetric] not_not h nsw append_assoc append_Cons)
  also have "\<dots> = ?h @ bytes_le 8 (unat v)"
    by (rule el_set_vbn_at) (use c(1) h(4) se in simp_all)
  also have "\<dots> = ent_bytes prev ?e"
    using ent_flags_child [of ?e e v] by (simp add: ent_bytes_def child_bytes_def)
  finally show ?thesis .
qed

lemma dump_ie_del_vbn_rep:
  assumes e: "ent_at m q prev e"
  shows "dump_ie_del_vbn m q = ent_bytes prev (e\<lparr> echild := None \<rparr>)"
proof -
  let ?e = "e\<lparr> echild := None \<rparr>"
  let ?r = "ekey e @ evalue e"
  define ns where "ns = (if ie_is ENTRY_NODE m q then ie_len m q - 8 else ie_len m q)"
  have se: "esize ?e = 9 + length ?r" "esize e = 9 + length ?r + (if echild e = None then 0 else 8)"
    by (simp_all add: esize_def)
  have l: "unat (ie_len m q) = esize e" by (rule ent_at_fields(1) [OF e])
  have node: "ie_is ENTRY_NODE m q \<longleftrightarrow> echild e \<noteq> None" by (rule ent_at_is(1) [OF e])
  have ns: "unat ns = esize ?e"
  proof (cases "echild e = None")
    case True
    then show ?thesis using l se node by (simp add: ns_def)
  next
    case False
    then have "(8::u16) \<le> ie_len m q" using l se by (simp add: word_le_nat_alt)
    then have "unat (ie_len m q - 8) = unat (ie_len m q) - 8" by (subst unat_sub) simp_all
    then show ?thesis using False l se node by (simp add: ns_def)
  qed
  have nsw: "ns = of_nat (esize ?e)" unfolding ns [symmetric] by simp
  have es: "esize ?e < 65536" using e se by (simp add: ent_at_def split: if_splits)
  have raw: "rd m q (esize e) = bytes_le 2 (esize e) @ bytes_le 2 prev @ bytes_le 2 (length (ekey e)) @
      bytes_le 2 (length (evalue e)) @ ent_flags e # ?r @ child_bytes (echild e)"
    using e by (simp add: ent_at_def ent_bytes_def)
  have "rd m q (esize ?e) = bytes_le 2 (esize e) @ bytes_le 2 prev @ bytes_le 2 (length (ekey e)) @
      bytes_le 2 (length (evalue e)) @ ent_flags e # ?r"
    using rd_sub [of m q "esize e" "[]" _ "child_bytes (echild e)" 0 "esize ?e"] raw se
    by (simp add: append_assoc [symmetric] del: append_assoc)
  then have "dump_ie_del_vbn m q = bytes_le 2 (esize ?e) @ bytes_le 2 prev @ bytes_le 2 (length (ekey e)) @
      bytes_le 2 (length (evalue e)) @ (ent_flags e AND NOT ENTRY_NODE) # ?r"
    unfolding dump_ie_del_vbn_def Let_def ns_def [symmetric] ns
    by (simp only: el_update_head [OF refl es] nsw)
  then show ?thesis using ent_flags_no_child [of ?e e] by (simp add: ent_bytes_def child_bytes_def)
qed

section \<open>Properties\<close>

text \<open>A leaf block with one entry, for the concrete instances.\<close>

definition one_ent :: ent where
  "one_ent = \<lparr> ekey = [7], evalue = [8], echild = None, eend = False \<rparr>"

lemma one_ent_size: "esize one_ent = 11"
  by (simp add: esize_def one_ent_def)

lemma empty_block: "ib_rep (init_ib (\<lambda>_. 0) 0 0 4096) 0 [end_ent None]"
  "ib_node_type (init_ib (\<lambda>_. 0) 0 0 4096) 0 = 0"
  using init_ib_rep(1,2) [of 4096 "\<lambda>_. 0" 0 0] by (simp_all add: has_flag_def)

lemma one_ent_fits:
  assumes "ib_node_type m 0 = 0"
  shows "esize one_ent < 65536" "\<not> eend one_ent"
    "echild one_ent = None \<longleftrightarrow> \<not> has_flag (ib_node_type m 0) BLOCK_LARGE"
  using assms by (simp_all add: one_ent_size) (simp_all add: one_ent_def has_flag_def)

lemma one_block: "\<exists>m. ib_rep m 0 [one_ent, end_ent None]"
proof -
  have "33 + esizes [end_ent None] + esize one_ent < 2 ^ 32"
    by (simp add: one_ent_size esize_end_ent)
  from insert_ie_rep [OF empty_block(1) _ one_ent_fits [OF empty_block(2)] this, of 0 0]
  show ?thesis by auto
qed

text \<open>C28: inserting an entry into an index block at the place of entry \<open>i\<close> acts on the block's bytes as
  list insertion: for every well formed entry that fits in 32 bits, the size, the back links
  (\<open>prev_len\<close>) and all other entries are right afterwards, the order is kept, and no byte outside the
  block's new extent changes.\<close>

theorem insert_ie_refines_list:
  assumes "ib_rep m p es" "i < length es"
    and "esize e < 65536" "\<not> eend e" "echild e = None \<longleftrightarrow> \<not> has_flag (ib_node_type m p) BLOCK_LARGE"
    and "33 + esizes es + esize e < 2 ^ 32"
  shows "\<exists>m' prev'. insert_ie m p (ent_bytes prev e) (ie_off p es i) = Some (m', ent_bytes prev' e) \<and>
    ib_rep m' p (take i es @ e # drop i es) \<and>
    (\<forall>j. j < p \<or> p + 33 + esizes es + esize e \<le> j \<longrightarrow> m' j = m j)"
  using assms by (rule insert_ie_rep)

theorem insert_ie_refines_list_witness:
  "\<exists>m' prev'. insert_ie (init_ib (\<lambda>_. 0) 0 0 4096) 0 (ent_bytes 0 one_ent) 33 =
     Some (m', ent_bytes prev' one_ent) \<and> ib_rep m' 0 [one_ent, end_ent None]"
proof -
  have "33 + esizes [end_ent None] + esize one_ent < 2 ^ 32"
    by (simp add: one_ent_size esize_end_ent)
  from insert_ie_refines_list [OF empty_block(1) _ one_ent_fits [OF empty_block(2)] this, of 0 0]
  show ?thesis by auto
qed

text \<open>C29: removing entry \<open>i\<close> (not the end entry) from an index block acts on the block's bytes as removing
  element \<open>i\<close> of the list; sizes and back links are right, no byte outside the block changes, and the
  length loop inside ends.\<close>

theorem remove_ie_refines_list:
  assumes "ib_rep m p es" "Suc i < length es"
  shows "\<exists>m'. remove_ie m p (ie_off p es i) = Some m' \<and> ib_rep m' p (take i es @ drop (Suc i) es) \<and>
    (\<forall>j. j < p \<or> p + 33 + esizes es \<le> j \<longrightarrow> m' j = m j)"
  using assms by (rule remove_ie_rep)

theorem remove_ie_refines_list_witness:
  "\<exists>m m'. ib_rep m 0 [one_ent, end_ent None] \<and> remove_ie m 0 33 = Some m' \<and> ib_rep m' 0 [end_ent None]"
proof -
  obtain m where m: "ib_rep m 0 [one_ent, end_ent None]" using one_block by blast
  from remove_ie_refines_list [OF m, of 0] m show ?thesis by auto
qed

text \<open>C30: splitting a block with at least one entry before the end entry, not dominated by the end entry:
  the middle entry is found, the entries behind it move to the new block, the block keeps the entries
  before it and an end entry with the middle entry's child, so no entry is lost or duplicated; the middle
  entry is the one in which half of the bytes is reached, and both blocks are well formed.\<close>

theorem split_block_refines_list:
  assumes "ib_rep m p es" "1 < length es" "esizes es div 2 \<le> esizes (butlast es)"
    and "50 \<le> unat (bh_alloc_size m p)"
  shows "\<exists>i d' m1. Suc i < length es \<and> get_middle_ie m p = Some (ie_off p es i) \<and>
    esizes (take i es) \<le> esizes es div 2 \<and> esizes es div 2 \<le> esizes (take (Suc i) es) \<and>
    copy_ib_tail d m p (ie_off p es i) = (d', m1) \<and> ib_rep d' 0 (drop (Suc i) es) \<and>
    ib_rep (cut_ib_tail m1 p (ie_off p es i)) p (take i es @ [end_ent (echild (es ! i))]) \<and>
    (\<forall>j. j < p \<or> p + 33 + esizes es \<le> j \<longrightarrow> cut_ib_tail m1 p (ie_off p es i) j = m j)"
proof -
  from get_middle_ie_rep [OF assms(1,3,2)] obtain i where i: "Suc i < length es"
    "get_middle_ie m p = Some (ie_off p es i)" "esizes (take i es) \<le> esizes es div 2"
    "esizes es div 2 \<le> esizes (take (Suc i) es)" by blast
  from copy_ib_tail_rep [OF assms(1) i(1) assms(4), of d] obtain d' m1 where
    c: "copy_ib_tail d m p (ie_off p es i) = (d', m1)" "ib_rep d' 0 (drop (Suc i) es)"
      "m1 = set_ie_prev_len m (ie_off p es (Suc i)) 9"
      "ents_at m1 (ie_off p es (Suc i)) 9 (drop (Suc i) es)" "ents_at m1 (p + 33) 9 (take (Suc i) es)"
    by blast
  from cut_ib_tail_rep [OF assms(1) i(1) c(3-5)] i c(1,2) show ?thesis by blast
qed

theorem split_block_refines_list_witness:
  "\<exists>m d' m1. ib_rep m 0 [one_ent, end_ent None] \<and> get_middle_ie m 0 = Some 33 \<and>
     copy_ib_tail (\<lambda>_. 0) m 0 33 = (d', m1) \<and> ib_rep d' 0 [end_ent None] \<and>
     ib_rep (cut_ib_tail m1 0 33) 0 [end_ent None]"
proof -
  obtain m0 where m0: "ib_rep m0 0 [one_ent, end_ent None]" using one_block by blast
  define m where "m = put32 m0 4 4096"
  have o: "m j = m0 j" if "8 \<le> j" for j using that by (simp add: m_def put_out)
  have "ib_rep m 0 [one_ent, end_ent None]"
  proof (rule ib_repI [OF m0])
    show "unat (bh_real_size m 0) = 33 + esizes [one_ent, end_ent None]"
      using m0 by (simp add: ib_rep_def m_def bh_defs buf_simps)
    show "ents_at m (0 + 33) 9 [one_ent, end_ent None]"
      using m0 by (subst ents_at_same [of _ _ _ m0]) (simp_all add: ib_rep_def o)
  qed (use m0 in \<open>simp_all add: ib_rep_def o\<close>)
  moreover have "50 \<le> unat (bh_alloc_size m 0)" by (simp add: m_def bh_defs buf_simps)
  moreover have "esizes [one_ent, end_ent None] div 2 \<le> esizes (butlast [one_ent, end_ent None])"
    by (simp add: one_ent_size esize_end_ent)
  moreover have "echild one_ent = None" by (simp add: one_ent_def)
  ultimately have "\<exists>d' m1. ib_rep m 0 [one_ent, end_ent None] \<and> get_middle_ie m 0 = Some 33 \<and>
     copy_ib_tail (\<lambda>_. 0) m 0 33 = (d', m1) \<and> ib_rep d' 0 [end_ent None] \<and>
     ib_rep (cut_ib_tail m1 0 33) 0 [end_ent None]"
    using split_block_refines_list [of m 0 "[one_ent, end_ent None]" "\<lambda>_. 0"]
    by (auto simp: less_Suc_eq)
  then show ?thesis by blast
qed

text \<open>The entry handed up by a split, and the one put back by a removal: \<open>dump_ie_add_vbn\<close> copies an
  entry of a block with a child block number, replacing the one it may have; \<open>dump_ie_del_vbn\<close> copies
  it without one. Key, value and end flag are kept, the length is adjusted.\<close>

theorem dump_ie_refines_ent:
  assumes "ib_rep m p es" "i < length es" "esize (es ! i) + 8 < 65536" "esize (es ! i) + 8 \<le> length junk"
  shows "\<exists>prev. dump_ie_add_vbn m (ie_off p es i) v junk = ent_bytes prev ((es ! i)\<lparr> echild := Some v \<rparr>) \<and>
    dump_ie_del_vbn m (ie_off p es i) = ent_bytes prev ((es ! i)\<lparr> echild := None \<rparr>)"
  using dump_ie_add_vbn_rep [OF ib_rep_nth [OF assms(1,2)] assms(3,4)]
    dump_ie_del_vbn_rep [OF ib_rep_nth [OF assms(1,2)]] by blast

theorem dump_ie_refines_ent_witness:
  "\<exists>m prev. dump_ie_add_vbn m 33 5 (replicate 99 0) = ent_bytes prev (one_ent\<lparr> echild := Some 5 \<rparr>)"
proof -
  obtain m where m: "ib_rep m 0 [one_ent, end_ent None]" using one_block by blast
  from dump_ie_refines_ent [OF m, of 0 "replicate 99 0" 5] show ?thesis by (auto simp: one_ent_size)
qed

end
