(* ===== verification/OfsState.thy ===== *)
theory OfsState
  imports Collate IndexBlock Avl
begin

text \<open>
  The memory of an opened container: \<open>container_handle_t\<close>, \<open>object_info_t\<close>,
  \<open>object_handle_t\<close>, \<open>ofs_block_cache_t\<close> and \<open>space_manager_t\<close> as records that point to
  each other by numbers, 0 being NULL, and the block buffers. Accessing a freed or NULL object is
  \<open>None\<close>. \<open>env\<close> is the behaviour of \<open>malloc\<close> and of the file layer at each call, \<open>tick\<close>
  the number of calls so far, \<open>junk\<close> what fresh memory holds. The locks are left out: the model is
  one thread.
\<close>

section \<open>Records\<close>

text \<open>A pointer into a buffer: the buffer and the offset.\<close>

type_synonym ptr = "nat \<times> nat"

record ofs_block_cache =
  c_vbn :: u64
  c_state :: u32
  c_ib :: ptr

text \<open>
  \<open>root_cache\<close> is a cache of its own whose block is the content of the attribute record, inside the
  inode's buffer. \<open>caches\<close> and \<open>obj_hnd_list\<close> hold numbers.
\<close>

record object_info =
  oi_inode :: ptr
  oi_inode_cache :: nat
  oi_objid :: u64
  oi_inode_no :: u64
  oi_name :: buf
  oi_attr_record :: ptr
  oi_obj_hnd_list :: "nat list"
  oi_root_cache :: nat
  oi_caches :: "nat avl_tree"
  oi_ref_cnt :: u32

text \<open>The depth is below \<open>TREE_MAX_DEPTH\<close>, so it is a nat; the stacks are indexed by it.\<close>

record object_handle =
  h_obj_info :: nat
  h_max_depth :: nat
  h_depth :: nat
  h_cache_stack :: "nat \<Rightarrow> nat"
  h_position_stack :: "nat \<Rightarrow> u64"
  h_cache :: nat
  h_position :: u64
  h_ie :: ptr

record space_manager =
  sm_space_obj :: nat
  sm_first_free_block :: u64
  sm_total_free_blocks :: u64

record container =
  bufs :: "nat \<Rightarrow> buf option"
  caches :: "nat \<Rightarrow> ofs_block_cache option"
  objs :: "nat \<Rightarrow> object_info option"
  handles :: "nat \<Rightarrow> object_handle option"
  next_id :: nat
  ct_sb :: buf
  ct_flags :: u32
  ct_disk :: ofile
  ct_id_obj :: nat
  ct_sm :: space_manager
  ct_bsm :: space_manager
  ct_base_blk :: u64
  ct_obj_info_list :: "nat avl_tree"
  ct_metadata_cache :: "nat avl_tree"
  env :: "nat \<Rightarrow> io"
  tick :: nat
  junk :: "nat \<Rightarrow> buf"

text \<open>The result of an operation: a negative return code or a value, and the new state.\<close>

type_synonym 'a res = "((ofs_err + 'a) \<times> container) option"

text \<open>\<open>if (ret < 0) return ret;\<close>\<close>

definition ret_if_err :: "'a res \<Rightarrow> ('a \<Rightarrow> container \<Rightarrow> 'b res) \<Rightarrow> 'b res" where
  "ret_if_err f g =
     Option.bind f (\<lambda>(r, s). case r of Inl e \<Rightarrow> Some (Inl e, s) | Inr x \<Rightarrow> g x s)"

lemma ret_if_err_simps [simp]:
  "ret_if_err None g = None"
  "ret_if_err (Some (Inl e, s)) g = Some (Inl e, s)"
  "ret_if_err (Some (Inr x, s)) g = g x s"
  by (simp_all add: ret_if_err_def)

lemma ret_if_err_Inr:
  "ret_if_err f g = Some (Inr y, s') \<longleftrightarrow> (\<exists>x s. f = Some (Inr x, s) \<and> g x s = Some (Inr y, s'))"
  by (cases f) (auto split: sum.splits simp: ret_if_err_def)

lemma mono_ret_if_err [partial_function_mono]:
  assumes "mono_option f" "\<And>x s. mono_option (\<lambda>F. g F x s)"
  shows "mono_option (\<lambda>F. ret_if_err (f F) (g F))"
proof -
  have "mono_option (\<lambda>F. case p of (r, s) \<Rightarrow> (case r of Inl e \<Rightarrow> Some (Inl e, s) | Inr x \<Rightarrow> g F x s))"
    for p
    using assms(2) by (cases p; cases "fst p") (simp_all add: monotone_def flat_ord_def fun_ord_def)
  then show ?thesis unfolding ret_if_err_def by (intro bind_mono assms(1))
qed

section \<open>Memory\<close>

definition os_malloc :: "container \<Rightarrow> bool \<times> container" where
  "os_malloc s = (io_malloc (env s (tick s)), s\<lparr> tick := tick s + 1 \<rparr>)"

definition fresh_junk :: "container \<Rightarrow> nat \<Rightarrow> u8 list" where
  "fresh_junk s n = rd (junk s (tick s)) 0 n"

definition put_buf :: "nat \<Rightarrow> buf \<Rightarrow> container \<Rightarrow> container" where
  "put_buf b m s = s\<lparr> bufs := (bufs s)(b \<mapsto> m) \<rparr>"
definition put_cache :: "nat \<Rightarrow> ofs_block_cache \<Rightarrow> container \<Rightarrow> container" where
  "put_cache c k s = s\<lparr> caches := (caches s)(c \<mapsto> k) \<rparr>"
definition put_obj :: "nat \<Rightarrow> object_info \<Rightarrow> container \<Rightarrow> container" where
  "put_obj oid x s = s\<lparr> objs := (objs s)(oid \<mapsto> x) \<rparr>"
definition put_handle :: "nat \<Rightarrow> object_handle \<Rightarrow> container \<Rightarrow> container" where
  "put_handle hid h s = s\<lparr> handles := (handles s)(hid \<mapsto> h) \<rparr>"

lemmas put_defs = put_buf_def put_cache_def put_obj_def put_handle_def

text \<open>The block of a cache: its buffer, the buffer's contents and the offset.\<close>

definition cache_block :: "container \<Rightarrow> nat \<Rightarrow> (nat \<times> buf \<times> nat) option" where
  "cache_block s c = do {
     k \<leftarrow> caches s c;
     m \<leftarrow> bufs s (fst (c_ib k));
     Some (fst (c_ib k), m, snd (c_ib k)) }"

definition EMPTY :: u32 where "EMPTY = 0"
definition CLEAN :: u32 where "CLEAN = 1"
definition DIRTY :: u32 where "DIRTY = 2"
definition STATUS_FLUSH :: u32 where "STATUS_FLUSH = 0x8000"

definition CACHE_DIRTY :: "ofs_block_cache \<Rightarrow> bool" where
  "CACHE_DIRTY k = (c_state k AND 0xFF = DIRTY)"
definition CACHE_FLUSH :: "ofs_block_cache \<Rightarrow> bool" where
  "CACHE_FLUSH k = (c_state k AND STATUS_FLUSH \<noteq> 0)"

definition set_cache_state :: "nat \<Rightarrow> u32 \<Rightarrow> container \<Rightarrow> container option" where
  "set_cache_state c st s = do {
     k \<leftarrow> caches s c;
     Some (put_cache c (k\<lparr> c_state := st \<rparr>) s) }"

definition set_cache_flush :: "nat \<Rightarrow> container \<Rightarrow> container option" where
  "set_cache_flush c s = do {
     k \<leftarrow> caches s c;
     Some (put_cache c (k\<lparr> c_state := c_state k OR STATUS_FLUSH \<rparr>) s) }"

section \<open>The super block in memory\<close>

definition sb_block_size :: "container \<Rightarrow> u32" where "sb_block_size s = get32 (ct_sb s) 20"

definition sb_put64 :: "nat \<Rightarrow> u64 \<Rightarrow> container \<Rightarrow> container" where
  "sb_put64 off v s = s\<lparr> ct_sb := put64 (ct_sb s) off v \<rparr>"

definition disk_view :: "container \<Rightarrow> disk_ct" where
  "disk_view s = \<lparr> dc_disk = ct_disk s, dc_block_size = sb_block_size s,
                   dc_sectors_per_block = get32 (ct_sb s) 24 \<rparr>"

definition FLAG_DIRTY :: u32 where "FLAG_DIRTY = 1"

section \<open>Nodes of a tree by their contents\<close>

text \<open>
  A tree stores numbers; the code removes a node by its address. \<open>node_pos\<close> is the position of
  number \<open>x\<close>.
\<close>

fun node_pos :: "nat \<Rightarrow> nat avl \<Rightarrow> nat frame list \<Rightarrow> nat pos option" where
  "node_pos x ANil fs = None"
| "node_pos x (ANode l a b r) fs =
     (if a = x then Some (ANode l a b r, fs)
      else case node_pos x l ((False, a, b, r) # fs) of
             Some p \<Rightarrow> Some p
           | None \<Rightarrow> node_pos x r ((True, a, b, l) # fs))"

definition avl_remove_node :: "nat avl_tree \<Rightarrow> nat \<Rightarrow> nat avl_tree option" where
  "avl_remove_node tree x =
     (case node_pos x (avl_root tree) [] of None \<Rightarrow> None | Some p \<Rightarrow> avl_remove tree p)"

text \<open>
  \<open>avl_walk_all\<close> with a callback that changes the state: the next node is found before the callback
  runs, and the callbacks of the code remove at most the node they are called for, so the nodes visited are
  those of the tree at the start, in order. A nonzero result ends the walk.
\<close>

fun walk_nodes :: "(nat \<Rightarrow> 's \<Rightarrow> (bool \<times> 's) option) \<Rightarrow> nat list \<Rightarrow> 's \<Rightarrow> 's option" where
  "walk_nodes cb [] s = Some s"
| "walk_nodes cb (x # xs) s =
     (case cb x s of None \<Rightarrow> None
      | Some (nonzero, s) \<Rightarrow> if nonzero then Some s else walk_nodes cb xs s)"

definition walk_all :: "nat avl_tree \<Rightarrow> (nat \<Rightarrow> 's \<Rightarrow> (bool \<times> 's) option) \<Rightarrow> 's \<Rightarrow> 's option" where
  "walk_all tree cb s =
     (if avl_numnodes tree = 0 then Some s else walk_nodes cb (inorder (avl_root tree)) s)"

section \<open>Allocating blocks\<close>

text \<open>
  The trees allocate and free blocks through \<open>OFS_ALLOC_BLOCK\<close> and \<open>OFS_FREE_BLOCK\<close>, which the
  space manager provides over two more trees; the tree operations take the two as an argument:
  object number and block count to first block and real count, object number, block and count.
\<close>

record space_ops =
  op_alloc :: "u64 \<Rightarrow> u32 \<Rightarrow> container \<Rightarrow> (u32 \<times> u64) res"
  op_free :: "u64 \<Rightarrow> u64 \<Rightarrow> u32 \<Rightarrow> container \<Rightarrow> unit res"

definition OFS_ALLOC_BLOCK :: "space_ops \<Rightarrow> u64 \<Rightarrow> container \<Rightarrow> u64 res" where
  "OFS_ALLOC_BLOCK ops objid s =
     ret_if_err (op_alloc ops objid 1 s) (\<lambda>(cnt, vbn) s. Some (Inr vbn, s))"

definition OFS_FREE_BLOCK :: "space_ops \<Rightarrow> u64 \<Rightarrow> u64 \<Rightarrow> container \<Rightarrow> unit res" where
  "OFS_FREE_BLOCK ops objid vbn s = op_free ops objid vbn 1 s"

end
