(* ===== verification/MetaCache.thy ===== *)
theory MetaCache
  imports OfsState
begin

text \<open>
  The metadata cache, \<open>object_system/ofs_metadata_cache.c\<close>: every cached block is in the tree of its
  container, and in the tree of the object that uses it, both ordered by block number.
\<close>

section \<open>Comparisons\<close>

text \<open>The trees hold cache numbers; a dangling one makes the comparison undefined, given as 2.\<close>

definition compare_cache1 :: "container \<Rightarrow> nat \<Rightarrow> nat \<Rightarrow> int" where
  "compare_cache1 s c1 c2 =
     (case (caches s c1, caches s c2) of
        (Some k1, Some k2) \<Rightarrow>
          if c_vbn k1 > c_vbn k2 then 1 else if c_vbn k1 < c_vbn k2 then -1 else 0
      | _ \<Rightarrow> 2)"

definition compare_cache2 :: "container \<Rightarrow> u64 \<Rightarrow> nat \<Rightarrow> int" where
  "compare_cache2 s vbn c =
     (case caches s c of
        Some k \<Rightarrow> if vbn > c_vbn k then 1 else if vbn < c_vbn k then -1 else 0
      | None \<Rightarrow> 2)"

section \<open>Caches of an object\<close>

definition insert_obj_cache :: "nat \<Rightarrow> nat \<Rightarrow> container \<Rightarrow> container option" where
  "insert_obj_cache oid c s = do {
     x \<leftarrow> objs s oid;
     t \<leftarrow> avl_add (compare_cache1 s) (oi_caches x) c;
     let s = put_obj oid (x\<lparr> oi_caches := t \<rparr>) s;
     t \<leftarrow> avl_add (compare_cache1 s) (ct_metadata_cache s) c;
     Some (s\<lparr> ct_metadata_cache := t \<rparr>) }"

definition remove_obj_cache :: "nat \<Rightarrow> nat \<Rightarrow> container \<Rightarrow> container option" where
  "remove_obj_cache oid c s = do {
     x \<leftarrow> objs s oid;
     t \<leftarrow> avl_remove_node (oi_caches x) c;
     let s = put_obj oid (x\<lparr> oi_caches := t \<rparr>) s;
     t \<leftarrow> avl_remove_node (ct_metadata_cache s) c;
     Some (s\<lparr> ct_metadata_cache := t \<rparr>) }"

definition change_obj_cache_vbn :: "nat \<Rightarrow> nat \<Rightarrow> u64 \<Rightarrow> container \<Rightarrow> container option" where
  "change_obj_cache_vbn oid c new_vbn s = do {
     s \<leftarrow> remove_obj_cache oid c s;
     k \<leftarrow> caches s c;
     insert_obj_cache oid c (put_cache c (k\<lparr> c_vbn := new_vbn \<rparr>) s) }"

text \<open>
  The check after the second \<open>OS_MALLOC\<close> of \<open>alloc_obj_cache\<close> is on \<open>cache\<close>, not on
  \<open>cache->ib\<close>: if that allocation fails the cache has the NULL buffer. The result 0 is NULL.
\<close>

definition alloc_obj_cache :: "nat \<Rightarrow> u64 \<Rightarrow> container \<Rightarrow> (nat \<times> container) option" where
  "alloc_obj_cache oid vbn s =
     (let (ok, s) = os_malloc s in
      if \<not> ok then Some (0, s)
      else
        let (ok, s) = os_malloc s;
            c = next_id s;
            b = (if ok then c + 1 else 0);
            s = s\<lparr> next_id := c + 2 \<rparr>;
            s = (if ok then put_buf b (junk s (tick s)) s else s);
            s = put_cache c \<lparr> c_vbn = vbn, c_state = EMPTY, c_ib = (b, 0) \<rparr> s
        in do { s \<leftarrow> insert_obj_cache oid c s; Some (c, s) })"

text \<open>Freeing the memory of a cache and of its block.\<close>

definition drop_cache :: "nat \<Rightarrow> container \<Rightarrow> container option" where
  "drop_cache c s = do {
     k \<leftarrow> caches s c;
     Some (s\<lparr> bufs := (bufs s)(fst (c_ib k) := None), caches := (caches s)(c := None) \<rparr>) }"

definition free_obj_cache :: "nat \<Rightarrow> nat \<Rightarrow> container \<Rightarrow> container option" where
  "free_obj_cache oid c s = do {
     s \<leftarrow> remove_obj_cache oid c s;
     drop_cache c s }"

definition alloc_obj_block_and_cache :: "space_ops \<Rightarrow> nat \<Rightarrow> container \<Rightarrow> nat res" where
  "alloc_obj_block_and_cache ops oid s = do {
     x \<leftarrow> objs s oid;
     ret_if_err (OFS_ALLOC_BLOCK ops (oi_objid x) s) (\<lambda>vbn s. do {
       (c, s) \<leftarrow> alloc_obj_cache oid vbn s;
       if c = 0 then do {
         (_, s) \<leftarrow> OFS_FREE_BLOCK ops (oi_objid x) vbn s;
         Some (Inl INDEX_ERR_ALLOCATE_MEMORY, s) }
       else Some (Inr c, s) }) }"

text \<open>A dirty cache of a released object stays in the container's tree, to be freed when flushed.\<close>

definition release_obj_cache :: "nat \<Rightarrow> nat \<Rightarrow> container \<Rightarrow> (bool \<times> container) option" where
  "release_obj_cache oid c s = do {
     k \<leftarrow> caches s c;
     if CACHE_DIRTY k then do {
       s \<leftarrow> set_cache_flush c s;
       x \<leftarrow> objs s oid;
       t \<leftarrow> avl_remove_node (oi_caches x) c;
       Some (False, put_obj oid (x\<lparr> oi_caches := t \<rparr>) s) }
     else do {
       s \<leftarrow> free_obj_cache oid c s;
       Some (False, s) } }"

definition release_obj_all_cache :: "nat \<Rightarrow> container \<Rightarrow> container option" where
  "release_obj_all_cache oid s = do {
     x \<leftarrow> objs s oid;
     walk_all (oi_caches x) (release_obj_cache oid) s }"

section \<open>Caches of the container\<close>

definition free_container_cache :: "nat \<Rightarrow> container \<Rightarrow> container option" where
  "free_container_cache c s = do {
     t \<leftarrow> avl_remove_node (ct_metadata_cache s) c;
     drop_cache c (s\<lparr> ct_metadata_cache := t \<rparr>) }"

text \<open>
  Writing back one block. Fewer bytes than the block has count as an error, which ends the walk.
\<close>

definition flush_container_dirty_cache :: "nat \<Rightarrow> container \<Rightarrow> (bool \<times> container) option" where
  "flush_container_dirty_cache c s = do {
     k \<leftarrow> caches s c;
     if \<not> CACHE_DIRTY k then Some (False, s)
     else do {
       m \<leftarrow> bufs s (fst (c_ib k));
       (ret, m, d) \<leftarrow> ofs_update_block_fixup (env s (tick s)) (disk_view s) m (c_vbn k);
       let s = put_buf (fst (c_ib k)) m (s\<lparr> tick := tick s + 1, ct_disk := dc_disk d \<rparr>);
       if ret \<noteq> Inr (unat (bh_alloc_size m 0)) then Some (True, s)
       else if CACHE_FLUSH k then do {
         s \<leftarrow> set_cache_state c CLEAN s;
         s \<leftarrow> free_container_cache c s;
         Some (False, s) }
       else do {
         s \<leftarrow> set_cache_state c CLEAN s;
         Some (False, s) } } }"

text \<open>The super block is written even if a block was not; its own failure is only logged.\<close>

definition flush_container_cache :: "container \<Rightarrow> container option" where
  "flush_container_cache s = do {
     s \<leftarrow> walk_all (ct_metadata_cache s) flush_container_dirty_cache s;
     if ct_flags s AND FLAG_DIRTY = 0 then Some s
     else do {
       let s = sb_put64 68 (sm_total_free_blocks (ct_sm s)) s;
       let s = sb_put64 76 (sm_first_free_block (ct_sm s)) s;
       let s = sb_put64 100 (sm_total_free_blocks (ct_bsm s)) s;
       let s = sb_put64 108 (sm_first_free_block (ct_bsm s)) s;
       let s = sb_put64 116 (ct_base_blk s) s;
       (ret, sb, d) \<leftarrow> ofs_update_super_block (env s (tick s)) (disk_view s) (ct_sb s);
       Some (s\<lparr> tick := tick s + 1, ct_sb := sb, ct_disk := dc_disk d,
                ct_flags := ct_flags s AND NOT FLAG_DIRTY \<rparr>) } }"

definition clean_obj_root_cache :: "nat \<Rightarrow> container \<Rightarrow> (bool \<times> container) option" where
  "clean_obj_root_cache oid s = do {
     x \<leftarrow> objs s oid;
     k \<leftarrow> caches s (oi_root_cache x);
     s \<leftarrow> (if CACHE_DIRTY k then set_cache_state (oi_root_cache x) CLEAN s else Some s);
     Some (False, s) }"

definition clean_all_obj_root_cache :: "container \<Rightarrow> container option" where
  "clean_all_obj_root_cache s = walk_all (ct_obj_info_list s) clean_obj_root_cache s"

text \<open>
  \<open>free_container_cache\<close> returns nothing and is cast to a callback that returns an int: what the walk
  reads as its result is taken as 0 here, which never ends the walk.
\<close>

definition release_container_all_cache :: "container \<Rightarrow> container option" where
  "release_container_all_cache s =
     walk_all (ct_metadata_cache s) (\<lambda>c s. do { s \<leftarrow> free_container_cache c s; Some (False, s) }) s"

section \<open>Reading a block\<close>

text \<open>A cache without a block, the NULL buffer 0, is refused by \<open>ofs_read_block_fixup\<close>, and stays in the trees.\<close>

definition index_block_read2 :: "nat \<Rightarrow> u64 \<Rightarrow> u32 \<Rightarrow> container \<Rightarrow> nat res" where
  "index_block_read2 oid vbn blk_id s = do {
     x \<leftarrow> objs s oid;
     f \<leftarrow> avl_find (oi_caches x) (compare_cache2 s vbn);
     case f of
       Found p \<Rightarrow> Some (Inr (pos_data p), s)
     | Where _ \<Rightarrow> do {
         f \<leftarrow> avl_find (ct_metadata_cache s) (compare_cache2 s vbn);
         case f of
           Found p \<Rightarrow> do {
             t \<leftarrow> avl_add (compare_cache1 s) (oi_caches x) (pos_data p);
             Some (Inr (pos_data p), put_obj oid (x\<lparr> oi_caches := t \<rparr>) s) }
         | Where _ \<Rightarrow> do {
             (c, s) \<leftarrow> alloc_obj_cache oid vbn s;
             if c = 0 then Some (Inl INDEX_ERR_ALLOCATE_MEMORY, s)
             else do {
               k \<leftarrow> caches s c;
               if fst (c_ib k) = 0 then Some (Inl BLOCK_ERR_PARAMETER, s)
               else do {
               m \<leftarrow> bufs s (fst (c_ib k));
               (ret, m) \<leftarrow> ofs_read_block_fixup (env s (tick s)) (disk_view s) m vbn blk_id
                             (sb_block_size s);
               let s = put_buf (fst (c_ib k)) m (s\<lparr> tick := tick s + 1 \<rparr>);
               case ret of
                 Inl e \<Rightarrow> Some (Inl e, s)
               | Inr _ \<Rightarrow> do { s \<leftarrow> set_cache_state c CLEAN s; Some (Inr c, s) } } } } } }"

text \<open>A failed read leaves \<open>obj->cache\<close> NULL.\<close>

definition index_block_read :: "nat \<Rightarrow> u64 \<Rightarrow> u32 \<Rightarrow> container \<Rightarrow> unit res" where
  "index_block_read hid vbn blk_id s = do {
     h \<leftarrow> handles s hid;
     k \<leftarrow> caches s (h_cache h);
     if c_vbn k = vbn then Some (Inr (), s)
     else do {
       (ret, s) \<leftarrow> index_block_read2 (h_obj_info h) vbn blk_id s;
       case ret of
         Inl e \<Rightarrow> Some (Inl e, put_handle hid (h\<lparr> h_cache := 0 \<rparr>) s)
       | Inr c \<Rightarrow> Some (Inr (), put_handle hid (h\<lparr> h_cache := c \<rparr>) s) } }"

end
