(* ===== verification/BTree.thy ===== *)
theory BTree
  imports MetaCache
begin

text \<open>
  The tables, \<open>object_system/ofs_btree.c\<close>: B+ trees whose root block is inside the inode and whose
  other blocks are metadata caches. An \<open>object_handle_t\<close> is a cursor: the path of caches and
  positions from the root, the current block, and the entry \<open>tree->ie\<close> with its position. A handle is
  given by its number \<open>hid\<close>. The loops of the code that end only on good data are partial functions.
\<close>

section \<open>Access through a handle\<close>

definition TREE_MAX_DEPTH :: nat where "TREE_MAX_DEPTH = 16"

definition INDEX_GET_FIRST :: u8 where "INDEX_GET_FIRST = 0x01"
definition INDEX_GET_LAST :: u8 where "INDEX_GET_LAST = 0x02"
definition INDEX_GET_PREV :: u8 where "INDEX_GET_PREV = 0x04"
definition INDEX_GET_CURRENT :: u8 where "INDEX_GET_CURRENT = 0x08"
definition INDEX_GET_LAST_ENTRY :: u8 where "INDEX_GET_LAST_ENTRY = 0x10"
definition INDEX_REMOVE_BLOCK :: u8 where "INDEX_REMOVE_BLOCK = 0x20"
definition INDEX_WALK_MASK :: u8 where "INDEX_WALK_MASK = 0x1F"
definition INDEX_MAGIC :: u32 where "INDEX_MAGIC = 0x58444E49"
definition FLAG_TABLE :: u16 where "FLAG_TABLE = 0x4000"

lemmas walk_flag_defs = INDEX_GET_FIRST_def INDEX_GET_LAST_def INDEX_GET_PREV_def
  INDEX_GET_CURRENT_def INDEX_GET_LAST_ENTRY_def INDEX_REMOVE_BLOCK_def INDEX_WALK_MASK_def

text \<open>The handle with its current block: buffer, contents, offset; the contents behind \<open>tree->ie\<close>.\<close>

definition tree_block :: "nat \<Rightarrow> container \<Rightarrow> (object_handle \<times> nat \<times> buf \<times> nat) option" where
  "tree_block hid s = do {
     h \<leftarrow> handles s hid;
     (b, m, p) \<leftarrow> cache_block s (h_cache h);
     Some (h, b, m, p) }"

definition tree_ie :: "nat \<Rightarrow> container \<Rightarrow> (buf \<times> nat) option" where
  "tree_ie hid s = do {
     h \<leftarrow> handles s hid;
     m \<leftarrow> bufs s (fst (h_ie h));
     Some (m, snd (h_ie h)) }"

definition ie_test :: "u8 \<Rightarrow> nat \<Rightarrow> container \<Rightarrow> bool option" where
  "ie_test f hid s = do { (m, q) \<leftarrow> tree_ie hid s; Some (ie_is f m q) }"

definition attr_flags :: "nat \<Rightarrow> container \<Rightarrow> u16 option" where
  "attr_flags hid s = do {
     h \<leftarrow> handles s hid;
     x \<leftarrow> objs s (h_obj_info h);
     m \<leftarrow> bufs s (fst (oi_attr_record x));
     Some (get16 m (snd (oi_attr_record x) + 2)) }"

definition assert_table :: "nat \<Rightarrow> container \<Rightarrow> unit option" where
  "assert_table hid s = do {
     fl \<leftarrow> attr_flags hid s;
     if fl AND FLAG_TABLE = 0 then None else Some () }"

section \<open>Copy on write\<close>

text \<open>
  From the current block up to the root: a clean block gets a new block number, its parent the new
  link, and the old block is freed. A dirty block has its number already and ends the loop. \<open>vbn\<close> is
  the new number of the child below, 0 for none.
\<close>

definition set_child_vbn :: "object_handle \<Rightarrow> nat \<Rightarrow> u64 \<Rightarrow> container \<Rightarrow> container option" where
  "set_child_vbn h depth vbn s =
     (if vbn = 0 then Some s
      else do {
        (b, m, p) \<leftarrow> cache_block s (h_cache_stack h depth);
        Some (put_buf b (SET_IE_VBN m (p + unat (h_position_stack h depth)) vbn) s) })"

definition change_block :: "object_handle \<Rightarrow> nat \<Rightarrow> u64 \<Rightarrow> container \<Rightarrow> container option" where
  "change_block h depth new_vbn s =
     (if depth = 0 then do {
        x \<leftarrow> objs s (h_obj_info h);
        k \<leftarrow> caches s (oi_root_cache x);
        change_obj_cache_vbn (h_obj_info h) (oi_inode_cache x) new_vbn
          (put_cache (oi_root_cache x) (k\<lparr> c_vbn := new_vbn \<rparr>) s) }
      else change_obj_cache_vbn (h_obj_info h) (h_cache_stack h depth) new_vbn s)"

text \<open>A clean block moves to a new number; the result is the new and the old number.\<close>

definition renew_block :: "space_ops \<Rightarrow> nat \<Rightarrow> nat \<Rightarrow> container \<Rightarrow> (u64 \<times> u64) res" where
  "renew_block ops hid depth s = do {
     h \<leftarrow> handles s hid;
     k \<leftarrow> caches s (h_cache_stack h depth);
     if CACHE_DIRTY k then Some (Inr (0, 0), s)
     else do {
       x \<leftarrow> objs s (h_obj_info h);
       ret_if_err (OFS_ALLOC_BLOCK ops (oi_objid x) s) (\<lambda>new_vbn s. do {
         k \<leftarrow> caches s (h_cache_stack h depth);
         s \<leftarrow> change_block h depth new_vbn s;
         Some (Inr (new_vbn, c_vbn k), s) }) } }"

definition set_ib_dirty_step ::
  "space_ops \<Rightarrow> nat \<Rightarrow> u64 \<Rightarrow> nat \<Rightarrow> (u64 \<Rightarrow> container \<Rightarrow> unit res) \<Rightarrow> container \<Rightarrow> unit res" where
  "set_ib_dirty_step ops hid vbn depth up s =
     ret_if_err (renew_block ops hid depth s) (\<lambda>(new_vbn, old_vbn) s. do {
       h \<leftarrow> handles s hid;
       s \<leftarrow> set_child_vbn h depth vbn s;
       k \<leftarrow> caches s (h_cache_stack h depth);
       if CACHE_DIRTY k then Some (Inr (), s)
       else do {
         s \<leftarrow> set_cache_state (h_cache_stack h depth) DIRTY s;
         x \<leftarrow> objs s (h_obj_info h);
         ret_if_err (OFS_FREE_BLOCK ops (oi_objid x) old_vbn s) (\<lambda>_ s. up new_vbn s) } })"

fun set_ib_dirty_loop :: "space_ops \<Rightarrow> nat \<Rightarrow> u64 \<Rightarrow> nat \<Rightarrow> container \<Rightarrow> unit res" where
  "set_ib_dirty_loop ops hid vbn 0 s =
     set_ib_dirty_step ops hid vbn 0 (\<lambda>vbn s. Some (Inr (), s)) s"
| "set_ib_dirty_loop ops hid vbn (Suc d) s =
     set_ib_dirty_step ops hid vbn (Suc d) (\<lambda>vbn s. set_ib_dirty_loop ops hid vbn d s) s"

definition set_ib_dirty :: "space_ops \<Rightarrow> nat \<Rightarrow> container \<Rightarrow> unit res" where
  "set_ib_dirty ops hid s = do {
     h \<leftarrow> handles s hid;
     if h_depth h < TREE_MAX_DEPTH then set_ib_dirty_loop ops hid 0 (h_depth h) s else None }"

section \<open>Moving the cursor\<close>

definition get_last_ie :: "nat \<Rightarrow> container \<Rightarrow> container option" where
  "get_last_ie hid s = do {
     (h, b, m, p) \<leftarrow> tree_block hid s;
     let last_ie_len = (if has_flag (ib_node_type m p) BLOCK_LARGE then 9 + 8 else 9 :: u32);
     Some (put_handle hid (h\<lparr> h_ie := (b, GET_END_IE m p - unat last_ie_len),
                               h_position := ucast (bh_real_size m p - last_ie_len) \<rparr>) s) }"

definition get_first_ie :: "nat \<Rightarrow> container \<Rightarrow> container option" where
  "get_first_ie hid s = do {
     (h, b, m, p) \<leftarrow> tree_block hid s;
     Some (put_handle hid (h\<lparr> h_ie := (b, GET_FIRST_IE m p),
                               h_position := ucast (ib_first_entry_off m p) \<rparr>) s) }"

definition reset_cache_stack :: "nat \<Rightarrow> u8 \<Rightarrow> container \<Rightarrow> container option" where
  "reset_cache_stack hid flags s = do {
     h \<leftarrow> handles s hid;
     x \<leftarrow> objs s (h_obj_info h);
     let s = put_handle hid (h\<lparr> h_cache := oi_root_cache x,
               h_cache_stack := (h_cache_stack h)(0 := oi_root_cache x), h_depth := 0 \<rparr>) s;
     if has_flag flags INDEX_GET_LAST then get_last_ie hid s else get_first_ie hid s }"

text \<open>Down to the child of the current entry.\<close>

definition push_cache_stack :: "nat \<Rightarrow> u8 \<Rightarrow> container \<Rightarrow> unit res" where
  "push_cache_stack hid flags s = do {
     h \<leftarrow> handles s hid;
     if h_depth h \<ge> TREE_MAX_DEPTH - 1 then Some (Inl INDEX_ERR_MAX_DEPTH, s)
     else do {
       (m, q) \<leftarrow> tree_ie hid s;
       ret_if_err (index_block_read hid (GET_IE_VBN m q) INDEX_MAGIC s) (\<lambda>_ s. do {
         (h, b, m, p) \<leftarrow> tree_block hid s;
         let d = h_depth h;
         let h = h\<lparr> h_position_stack := (h_position_stack h)(d := h_position h), h_depth := d + 1,
                    h_cache_stack := (h_cache_stack h)(d + 1 := h_cache h) \<rparr>;
         let h = (if \<not> has_flag (ib_node_type m p) BLOCK_LARGE \<and> h_max_depth h \<noteq> h_depth h
                  then h\<lparr> h_max_depth := h_depth h \<rparr> else h);
         s \<leftarrow> (if has_flag flags (INDEX_GET_LAST OR INDEX_GET_PREV)
               then get_last_ie hid (put_handle hid h s)
               else get_first_ie hid (put_handle hid h s));
         Some (Inr (), s) }) } }"

text \<open>The result is true for \<open>INDEX_GETTO_BEGIN\<close>.\<close>

definition get_prev_ie :: "nat \<Rightarrow> container \<Rightarrow> bool res" where
  "get_prev_ie hid s = do {
     (m, q) \<leftarrow> tree_ie hid s;
     (h, b, mb, p) \<leftarrow> tree_block hid s;
     let q' = GET_PREV_IE m q;
     let s = put_handle hid (h\<lparr> h_position := h_position h - ucast (ie_prev_len m q),
                                h_ie := (fst (h_ie h), q') \<rparr>) s;
     if q' < p + 24 then Some (Inl INDEX_ERR_FORMAT, s)
     else if ie_prev_len m q' = 0 then
       (if ie_is ENTRY_BEGIN m q' then Some (Inr True, s) else Some (Inl INDEX_ERR_FORMAT, s))
     else Some (Inr False, s) }"

definition pop_cache_stack :: "nat \<Rightarrow> u8 \<Rightarrow> container \<Rightarrow> bool res" where
  "pop_cache_stack hid flags s = do {
     h \<leftarrow> handles s hid;
     if h_depth h = 0 then Some (Inl INDEX_ERR_ROOT, s)
     else do {
       let d = h_depth h - 1;
       let c = h_cache_stack h d;
       k \<leftarrow> caches s c;
       let pos = h_position_stack h d;
       let s = put_handle hid (h\<lparr> h_depth := d, h_cache := c, h_position := pos,
                                  h_ie := (fst (c_ib k), snd (c_ib k) + unat pos) \<rparr>) s;
       if has_flag flags INDEX_GET_PREV then get_prev_ie hid s else Some (Inr False, s) } }"

definition get_next_ie :: "nat \<Rightarrow> container \<Rightarrow> unit res" where
  "get_next_ie hid s = do {
     (m, q) \<leftarrow> tree_ie hid s;
     if ie_is ENTRY_END m q then Some (Inl INDEX_ERR_NEXT_ENTRY, s)
     else do {
       (h, b, mb, p) \<leftarrow> tree_block hid s;
       let q' = GET_NEXT_IE m q;
       let s = put_handle hid (h\<lparr> h_position := h_position h + ucast (ie_len m q),
                                  h_ie := (fst (h_ie h), q') \<rparr>) s;
       if q' \<ge> GET_END_IE mb p \<or> ie_len m q' = 0 then Some (Inl INDEX_ERR_FORMAT, s)
       else Some (Inr (), s) } }"

definition add_or_remove_ib :: "space_ops \<Rightarrow> nat \<Rightarrow> u8 \<Rightarrow> container \<Rightarrow> unit res" where
  "add_or_remove_ib ops hid flags s =
     (if has_flag flags INDEX_REMOVE_BLOCK then do {
        h \<leftarrow> handles s hid;
        x \<leftarrow> objs s (h_obj_info h);
        k \<leftarrow> caches s (h_cache h);
        OFS_FREE_BLOCK ops (oi_objid x) (c_vbn k) s }
      else Some (Inr (), s))"

text \<open>Down to a leaf entry, then up from the ends of blocks.\<close>

partial_function (option) down_to_leaf :: "nat \<Rightarrow> u8 \<Rightarrow> container \<Rightarrow> unit res" where
  "down_to_leaf hid flags s = do {
     node \<leftarrow> ie_test ENTRY_NODE hid s;
     if node then ret_if_err (push_cache_stack hid flags s) (\<lambda>_ s. down_to_leaf hid flags s)
     else Some (Inr (), s) }"

partial_function (option) up_from_ends :: "space_ops \<Rightarrow> nat \<Rightarrow> u8 \<Rightarrow> container \<Rightarrow> unit res" where
  "up_from_ends ops hid flags s = do {
     at_end \<leftarrow> ie_test (ENTRY_END OR ENTRY_BEGIN) hid s;
     if \<not> at_end then Some (Inr (), s)
     else ret_if_err (add_or_remove_ib ops hid flags s) (\<lambda>_ s.
       if has_flag flags (INDEX_GET_LAST OR INDEX_GET_PREV) then
         (if has_flag flags INDEX_GET_LAST_ENTRY then Some (Inr (), s)
          else ret_if_err (get_prev_ie hid s) (\<lambda>begin_ie s.
            if \<not> begin_ie then Some (Inr (), s)
            else ret_if_err (pop_cache_stack hid flags s) (\<lambda>_ s. up_from_ends ops hid flags s)))
       else ret_if_err (pop_cache_stack hid flags s) (\<lambda>_ s. up_from_ends ops hid flags s)) }"

definition get_current_ie :: "space_ops \<Rightarrow> nat \<Rightarrow> u8 \<Rightarrow> container \<Rightarrow> unit res" where
  "get_current_ie ops hid flags s =
     ret_if_err (down_to_leaf hid flags s) (\<lambda>_ s. up_from_ends ops hid flags s)"

definition walk_tree :: "space_ops \<Rightarrow> nat \<Rightarrow> u8 \<Rightarrow> container \<Rightarrow> unit res" where
  "walk_tree ops hid flags s = do {
     _ \<leftarrow> assert_table hid s;
     if has_flag flags (INDEX_GET_FIRST OR INDEX_GET_LAST) then do {
       s \<leftarrow> reset_cache_stack hid flags s;
       get_current_ie ops hid flags s }
     else if has_flag flags INDEX_GET_PREV then do {
       node \<leftarrow> ie_test ENTRY_NODE hid s;
       if node then get_current_ie ops hid flags s
       else ret_if_err (get_prev_ie hid s) (\<lambda>_ s. get_current_ie ops hid flags s) }
     else if \<not> has_flag flags INDEX_GET_CURRENT then
       ret_if_err (get_next_ie hid s) (\<lambda>_ s. get_current_ie ops hid flags s)
     else get_current_ie ops hid flags s }"

section \<open>Searching\<close>

text \<open>The inner loop: true if an equal key was found, false at a larger one or at the end.\<close>

partial_function (option) search_block :: "nat \<Rightarrow> u8 list \<Rightarrow> u8 list \<Rightarrow> container \<Rightarrow> bool res" where
  "search_block hid key value s = do {
     (m, q) \<leftarrow> tree_ie hid s;
     if ie_is ENTRY_END m q then Some (Inr False, s)
     else do {
       fl \<leftarrow> attr_flags hid s;
       ret \<leftarrow> collate_key (fl AND 0xF) (GET_IE_KEY m q) (GET_IE_VALUE m q) key value;
       if ret > 0 then Some (Inr False, s)
       else if ret = 0 then Some (Inr True, s)
       else ret_if_err (get_next_ie hid s) (\<lambda>_ s. search_block hid key value s) } }"

partial_function (option) search_levels :: "nat \<Rightarrow> u8 list \<Rightarrow> u8 list \<Rightarrow> container \<Rightarrow> unit res" where
  "search_levels hid key value s =
     ret_if_err (search_block hid key value s) (\<lambda>found s.
       if found then Some (Inr (), s)
       else do {
         node \<leftarrow> ie_test ENTRY_NODE hid s;
         if \<not> node then Some (Inl INDEX_ERR_KEY_NOT_FOUND, s)
         else ret_if_err (push_cache_stack hid 0 s) (\<lambda>_ s. search_levels hid key value s) })"

definition search_key_internal :: "nat \<Rightarrow> u8 list \<Rightarrow> u8 list \<Rightarrow> container \<Rightarrow> unit res" where
  "search_key_internal hid key value s =
     (if key = [] then None
      else do {
        s \<leftarrow> reset_cache_stack hid 0 s;
        search_levels hid key value s })"

partial_function (option) get_to_near_key :: "nat \<Rightarrow> container \<Rightarrow> container option" where
  "get_to_near_key hid s = do {
     at_end \<leftarrow> ie_test ENTRY_END hid s;
     if \<not> at_end then Some s
     else do {
       (ret, s) \<leftarrow> pop_cache_stack hid 0 s;
       case ret of Inl e \<Rightarrow> Some s | Inr _ \<Rightarrow> get_to_near_key hid s } }"

text \<open>The NULL handle is 0. An empty key is a NULL key or a zero length.\<close>

definition index_search_key_nolock :: "nat \<Rightarrow> u8 list \<Rightarrow> u8 list \<Rightarrow> container \<Rightarrow> unit res" where
  "index_search_key_nolock hid key value s =
     (if hid = 0 \<or> key = [] then Some (Inl INDEX_ERR_PARAMETER, s)
      else do {
        _ \<leftarrow> assert_table hid s;
        (ret, s) \<leftarrow> search_key_internal hid key value s;
        if ret = Inl INDEX_ERR_KEY_NOT_FOUND then do {
          s \<leftarrow> get_to_near_key hid s;
          Some (ret, s) }
        else Some (ret, s) })"

definition index_search_key :: "nat \<Rightarrow> u8 list \<Rightarrow> container \<Rightarrow> unit res" where
  "index_search_key hid key s =
     (if hid = 0 \<or> key = [] then Some (Inl INDEX_ERR_PARAMETER, s)
      else index_search_key_nolock hid key [] s)"

section \<open>Inserting\<close>

text \<open>
  \<open>split_ib\<close>: the entries behind the middle one go to a new block, the new entry to its side, and
  the middle entry, with the old block as child, to be inserted in the parent, is the result. \<open>None\<close>
  of the inner option is the NULL pointer.
\<close>

definition split_ib :: "space_ops \<Rightarrow> nat \<Rightarrow> u8 list \<Rightarrow> container \<Rightarrow> (u8 list option \<times> container) option" where
  "split_ib ops hid ie s = do {
     (h, b, m, p) \<leftarrow> tree_block hid s;
     mid \<leftarrow> get_middle_ie m p;
     (ret, s) \<leftarrow> alloc_obj_block_and_cache ops (h_obj_info h) s;
     case ret of
       Inl e \<Rightarrow> Some (None, s)
     | Inr new_cache \<Rightarrow> do {
         (h, b, m, p) \<leftarrow> tree_block hid s;
         (nb, d, np) \<leftarrow> cache_block s new_cache;
         let (d, m) = copy_ib_tail d m p mid;
         let pos = int mid - int (snd (h_ie h));
         d \<leftarrow> (if pos < 0 then do {
                 (d, ie) \<leftarrow> insert_ie d 0 ie
                   (nat (int (GET_FIRST_IE d 0) - pos - int (unat (ie_len m mid))));
                 Some d }
               else Some d);
         s \<leftarrow> set_cache_state new_cache DIRTY (put_buf nb d (put_buf b m s));
         (ret, s) \<leftarrow> set_ib_dirty ops hid s;
         case ret of
           Inl e \<Rightarrow> Some (None, s)
         | Inr _ \<Rightarrow> do {
             (h, b, m, p) \<leftarrow> tree_block hid s;
             k \<leftarrow> caches s (h_cache h);
             let (ok, s) = os_malloc s;
             if \<not> ok then Some (None, s)
             else do {
               let new_ie = dump_ie_add_vbn m mid (c_vbn k) (fresh_junk s (unat (ie_len m mid) + 8));
               let m = cut_ib_tail m p mid;
               m \<leftarrow> (if pos \<ge> 0 then do { (m, ie) \<leftarrow> insert_ie m p ie (snd (h_ie h)); Some m }
                     else Some m);
               (ret, s) \<leftarrow> pop_cache_stack hid 0 (put_buf b m s);
               case ret of
                 Inl e \<Rightarrow> Some (None, s)
               | Inr _ \<Rightarrow> do {
                   h \<leftarrow> handles s hid;
                   (m, q) \<leftarrow> tree_ie hid s;
                   k \<leftarrow> caches s new_cache;
                   Some (Some new_ie, put_buf (fst (h_ie h)) (SET_IE_VBN m q (c_vbn k)) s) } } } } }"

text \<open>
  \<open>reparent_root\<close>: the entries of the root go to a new block, its only child. If the root cannot be
  marked dirty the block's memory is freed although its cache stays.
\<close>

definition reparent_root :: "space_ops \<Rightarrow> nat \<Rightarrow> container \<Rightarrow> unit res" where
  "reparent_root ops hid s = do {
     h \<leftarrow> handles s hid;
     if h_max_depth h \<ge> TREE_MAX_DEPTH - 1 then Some (Inl INDEX_ERR_MAX_DEPTH, s)
     else do {
       (h, b, m, p) \<leftarrow> tree_block hid s;
       let alloc_size = bh_alloc_size m p;
       ret_if_err (alloc_obj_block_and_cache ops (h_obj_info h) s) (\<lambda>new_cache s. do {
         (h, b, m, p) \<leftarrow> tree_block hid s;
         (nb, d, np) \<leftarrow> cache_block s new_cache;
         let d = wr d 0 (rd m p (unat (bh_real_size m p)));
         let d = put32 d 4 (sb_block_size s);
         k \<leftarrow> caches s new_cache;
         s \<leftarrow> set_cache_state new_cache DIRTY s;
         let m = init_ib m p BLOCK_LARGE alloc_size;
         let m = SET_IE_VBN m (GET_FIRST_IE m p) (c_vbn k);
         (ret, s) \<leftarrow> set_ib_dirty ops hid (put_buf nb d (put_buf b m s));
         case ret of
           Inl e \<Rightarrow> Some (Inl e, s\<lparr> bufs := (bufs s)(nb := None) \<rparr>)
         | Inr _ \<Rightarrow> do {
             (h, b, m, p) \<leftarrow> tree_block hid s;
             let dp = h_depth h;
             Some (Inr (), put_handle hid (h\<lparr>
               h_position_stack := (h_position_stack h)
                 (dp := ucast (ib_first_entry_off m p), dp + 1 := h_position h),
               h_depth := dp + 1,
               h_cache_stack := (h_cache_stack h)(dp + 1 := new_cache),
               h_cache := new_cache,
               h_ie := (nb, unat (h_position h)) \<rparr>) s) } }) } }"

text \<open>
  The entry goes before the current one. A block that is too full is split, the root first moved
  down, and the loop goes on with the entry that rose to the parent.
\<close>

partial_function (option) tree_insert_ie :: "space_ops \<Rightarrow> nat \<Rightarrow> u8 list \<Rightarrow> container \<Rightarrow> unit res" where
  "tree_insert_ie ops hid ie s = do {
     (h, b, m, p) \<leftarrow> tree_block hid s;
     let new_size = bh_real_size m p + ucast (el_len ie);
     if new_size \<le> bh_alloc_size m p then do {
       (m, ie) \<leftarrow> insert_ie m p ie (snd (h_ie h));
       set_ib_dirty ops hid (put_buf b m s) }
     else if h_depth h = 0 then do {
       (ret, s) \<leftarrow> reparent_root ops hid s;
       case ret of
         Inl e \<Rightarrow> Some (Inl INDEX_ERR_REPARENT, s)
       | Inr _ \<Rightarrow> tree_insert_ie ops hid ie s }
     else do {
       (new_ie, s) \<leftarrow> split_ib ops hid ie s;
       case new_ie of
         None \<Rightarrow> Some (Inl INDEX_ERR_INSERT_ENTRY, s)
       | Some ie \<Rightarrow> tree_insert_ie ops hid ie s } }"

text \<open>
  A new entry; the bytes of \<open>prev_len\<close> are still junk. A length that does not fit 16 bits overruns
  the allocated memory.
\<close>

definition new_ie :: "u8 list \<Rightarrow> u8 list \<Rightarrow> u8 list \<Rightarrow> u8 list" where
  "new_ie key value jnk =
     bytes_le 2 (9 + length key + length value) @ take 2 jnk @ bytes_le 2 (length key) @
     bytes_le 2 (length value) @ [0] @ key @ value"

definition index_insert_key_nolock ::
  "space_ops \<Rightarrow> nat \<Rightarrow> u8 list \<Rightarrow> u8 list \<Rightarrow> container \<Rightarrow> unit res" where
  "index_insert_key_nolock ops hid key value s =
     (if hid = 0 \<or> key = [] then Some (Inl INDEX_ERR_PARAMETER, s)
      else do {
        _ \<leftarrow> assert_table hid s;
        (ret, s) \<leftarrow> search_key_internal hid key value s;
        case ret of
          Inr _ \<Rightarrow> Some (Inl INDEX_ERR_KEY_EXIST, s)
        | Inl e \<Rightarrow>
            if e \<noteq> INDEX_ERR_KEY_NOT_FOUND then Some (Inl e, s)
            else do {
              let (ok, s) = os_malloc s;
              if \<not> ok then Some (Inl INDEX_ERR_ALLOCATE_MEMORY, s)
              else if 9 + length key + length value \<ge> 65536 then None
              else tree_insert_ie ops hid (new_ie key value (fresh_junk s 2)) s } })"

definition index_insert_key ::
  "space_ops \<Rightarrow> nat \<Rightarrow> u8 list \<Rightarrow> u8 list \<Rightarrow> container \<Rightarrow> unit res" where
  "index_insert_key ops hid key value s =
     (if hid = 0 \<or> key = [] then Some (Inl INDEX_ERR_PARAMETER, s)
      else index_insert_key_nolock ops hid key value s)"

section \<open>Removing\<close>

text \<open>
  A block without entries is freed, then its parent if that one has none either, up to the root, which
  becomes a block without children. The result is true if a block was freed (1 in the code).
\<close>

partial_function (option) free_empty_blocks :: "space_ops \<Rightarrow> nat \<Rightarrow> container \<Rightarrow> bool res" where
  "free_empty_blocks ops hid s = do {
     h \<leftarrow> handles s hid;
     x \<leftarrow> objs s (h_obj_info h);
     k \<leftarrow> caches s (h_cache h);
     ret_if_err (OFS_FREE_BLOCK ops (oi_objid x) (c_vbn k) s) (\<lambda>_ s. do {
       s \<leftarrow> set_cache_state (h_cache h) EMPTY s;
       s \<leftarrow> free_obj_cache (h_obj_info h) (h_cache h) s;
       ret_if_err (pop_cache_stack hid 0 s) (\<lambda>_ s. do {
         (h, b, m, p) \<leftarrow> tree_block hid s;
         if \<not> ie_is ENTRY_END m (GET_FIRST_IE m p) then Some (Inr True, s)
         else if h_depth h = 0 then
           ret_if_err (set_ib_dirty ops hid (put_buf b (make_ib_small m p) s))
             (\<lambda>_ s. Some (Inr False, s))
         else free_empty_blocks ops hid s }) }) }"

definition check_removed_ib :: "space_ops \<Rightarrow> nat \<Rightarrow> container \<Rightarrow> bool res" where
  "check_removed_ib ops hid s = do {
     (h, b, m, p) \<leftarrow> tree_block hid s;
     if \<not> ie_is ENTRY_END m (GET_FIRST_IE m p) then Some (Inr False, s)
     else if h_depth h = 0 then Some (Inr False, s)
     else free_empty_blocks ops hid s }"

text \<open>
  If blocks were freed, the entry that led to them is taken out of its block and inserted again in a
  leaf: in front of the first entry of the next leaf, or, when the link was the one of the end entry, which
  then gets the link of the entry before, behind the last entry of the leaf before. In the latter
  case \<open>tree->ie\<close> still points behind the moved end entry when the way down starts.
\<close>

definition remove_leaf :: "space_ops \<Rightarrow> nat \<Rightarrow> container \<Rightarrow> unit res" where
  "remove_leaf ops hid s = do {
     (h, b, m, p) \<leftarrow> tree_block hid s;
     m \<leftarrow> remove_ie m p (snd (h_ie h));
     ret_if_err (set_ib_dirty ops hid (put_buf b m s)) (\<lambda>_ s.
     ret_if_err (check_removed_ib ops hid s) (\<lambda>freed s.
       if \<not> freed then Some (Inr (), s)
       else do {
         (h, b, mb, p) \<leftarrow> tree_block hid s;
         (m, q) \<leftarrow> tree_ie hid s;
         let is_end = ie_is ENTRY_END m q;
         let prev = (if is_end then GET_PREV_IE m q else q);
         let m = (if is_end then SET_IE_VBN m q (GET_IE_VBN m prev) else m);
         let s = put_buf (fst (h_ie h)) m s;
         let (ok, s) = os_malloc s;
         if \<not> ok then Some (Inl INDEX_ERR_DEL_VBN, s)
         else do {
           let ie = dump_ie_del_vbn m prev;
           m \<leftarrow> remove_ie m p prev;
           ret_if_err (set_ib_dirty ops hid (put_buf b m s)) (\<lambda>_ s. do {
             h \<leftarrow> handles s hid;
             let s = put_handle hid (h\<lparr> h_position := of_nat (prev - p) \<rparr>) s;
             ret_if_err (get_current_ie ops hid
                 (if is_end then INDEX_GET_LAST OR INDEX_GET_LAST_ENTRY else INDEX_GET_CURRENT) s)
               (\<lambda>_ s. tree_insert_ie ops hid ie s) }) } })) }"

partial_function (option) pop_to_depth :: "nat \<Rightarrow> nat \<Rightarrow> container \<Rightarrow> unit res" where
  "pop_to_depth hid depth s = do {
     h \<leftarrow> handles s hid;
     if h_depth h > depth then
       ret_if_err (pop_cache_stack hid 0 s) (\<lambda>_ s. pop_to_depth hid depth s)
     else Some (Inr (), s) }"

text \<open>
  An entry with a child is replaced by its successor, which is a leaf entry and is then removed there.
\<close>

definition remove_node :: "space_ops \<Rightarrow> nat \<Rightarrow> container \<Rightarrow> unit res" where
  "remove_node ops hid s = do {
     h \<leftarrow> handles s hid;
     (m, q) \<leftarrow> tree_ie hid s;
     let depth = h_depth h;
     let len = ie_len m q;
     let vbn = GET_IE_VBN m q;
     ret_if_err (walk_tree ops hid 0 s) (\<lambda>_ s. do {
       (m, q) \<leftarrow> tree_ie hid s;
       let (ok, s) = os_malloc s;
       if \<not> ok then Some (Inl INDEX_ERR_ADD_VBN, s)
       else do {
         let succ_ie = dump_ie_add_vbn m q vbn (fresh_junk s (unat (ie_len m q) + 8));
         ret_if_err (pop_to_depth hid depth s) (\<lambda>_ s. do {
           (h, b, m, p) \<leftarrow> tree_block hid s;
           let q = snd (h_ie h) - unat len;
           let s = put_handle hid (h\<lparr> h_ie := (fst (h_ie h), q),
                                      h_position := h_position h - ucast len \<rparr>) s;
           m \<leftarrow> remove_ie m p q;
           ret_if_err (set_ib_dirty ops hid (put_buf b m s)) (\<lambda>_ s.
           ret_if_err (tree_insert_ie ops hid succ_ie s) (\<lambda>_ s.
           ret_if_err (walk_tree ops hid 0 s) (\<lambda>_ s.
             remove_leaf ops hid s))) }) } }) }"

definition tree_remove_ie :: "space_ops \<Rightarrow> nat \<Rightarrow> container \<Rightarrow> unit res" where
  "tree_remove_ie ops hid s = do {
     (m, q) \<leftarrow> tree_ie hid s;
     if ie_is (ENTRY_END OR ENTRY_BEGIN) m q then Some (Inl INDEX_ERR_END_ENTRY, s)
     else if ie_is ENTRY_NODE m q then remove_node ops hid s
     else remove_leaf ops hid s }"

definition index_remove_key_nolock :: "space_ops \<Rightarrow> nat \<Rightarrow> u8 list \<Rightarrow> container \<Rightarrow> unit res" where
  "index_remove_key_nolock ops hid key s =
     (if hid = 0 \<or> key = [] then Some (Inl INDEX_ERR_PARAMETER, s)
      else do {
        _ \<leftarrow> assert_table hid s;
        ret_if_err (search_key_internal hid key [] s) (\<lambda>_ s. tree_remove_ie ops hid s) })"

definition index_remove_key :: "space_ops \<Rightarrow> nat \<Rightarrow> u8 list \<Rightarrow> container \<Rightarrow> unit res" where
  "index_remove_key ops hid key s =
     (if hid = 0 \<or> key = [] then Some (Inl INDEX_ERR_PARAMETER, s)
      else index_remove_key_nolock ops hid key s)"

text \<open>The result of the removal is overwritten by the one of the insertion.\<close>

definition index_update_value ::
  "space_ops \<Rightarrow> nat \<Rightarrow> u8 list \<Rightarrow> u8 list \<Rightarrow> container \<Rightarrow> unit res" where
  "index_update_value ops hid key value s =
     (if hid = 0 \<or> key = [] then Some (Inl INDEX_ERR_PARAMETER, s)
      else do {
        _ \<leftarrow> assert_table hid s;
        (ret, s) \<leftarrow> index_remove_key_nolock ops hid key s;
        index_insert_key_nolock ops hid key value s })"

section \<open>Walking over all keys\<close>

partial_function (option) count_keys :: "space_ops \<Rightarrow> nat \<Rightarrow> int \<Rightarrow> container \<Rightarrow> (int \<times> container) option" where
  "count_keys ops hid cnt s = do {
     (ret, s) \<leftarrow> walk_tree ops hid 0 s;
     case ret of
       Inl e \<Rightarrow> Some (cnt + 1, s)
     | Inr _ \<Rightarrow> count_keys ops hid (cnt + 1) s }"

definition index_get_total_key :: "space_ops \<Rightarrow> nat \<Rightarrow> container \<Rightarrow> int res" where
  "index_get_total_key ops hid s =
     (if hid = 0 then Some (Inl INDEX_ERR_PARAMETER, s)
      else do {
        (ret, s) \<leftarrow> walk_tree ops hid INDEX_GET_FIRST s;
        case ret of
          Inl e \<Rightarrow> Some (Inr 0, s)
        | Inr _ \<Rightarrow> do { (cnt, s) \<leftarrow> count_keys ops hid 0 s; Some (Inr cnt, s) } })"

partial_function (option) count_to_key ::
  "space_ops \<Rightarrow> nat \<Rightarrow> u64 \<Rightarrow> int \<Rightarrow> container \<Rightarrow> (int \<times> container) option" where
  "count_to_key ops hid target cnt s =
     (if target - 1 = 0 then Some (cnt + 1, s)
      else do {
        (ret, s) \<leftarrow> walk_tree ops hid 0 s;
        case ret of
          Inl e \<Rightarrow> Some (cnt + 1, s)
        | Inr _ \<Rightarrow> count_to_key ops hid (target - 1) (cnt + 1) s })"

definition index_get_target_key :: "space_ops \<Rightarrow> nat \<Rightarrow> u64 \<Rightarrow> container \<Rightarrow> int res" where
  "index_get_target_key ops hid target s =
     (if hid = 0 then Some (Inl INDEX_ERR_PARAMETER, s)
      else do {
        (ret, s) \<leftarrow> walk_tree ops hid INDEX_GET_FIRST s;
        case ret of
          Inl e \<Rightarrow> Some (Inr 0, s)
        | Inr _ \<Rightarrow> do { (cnt, s) \<leftarrow> count_to_key ops hid target 0 s; Some (Inr cnt, s) } })"

text \<open>The callback gets the handle, its own data and the state; a negative result ends the walk.\<close>

partial_function (option) walk_keys ::
  "space_ops \<Rightarrow> nat \<Rightarrow> u8 \<Rightarrow> (nat \<Rightarrow> 'p \<Rightarrow> container \<Rightarrow> ((ofs_err + 'p) \<times> container) option) \<Rightarrow>
   'p \<Rightarrow> container \<Rightarrow> 'p res" where
  "walk_keys ops hid flags cb para s =
     ret_if_err (cb hid para s) (\<lambda>para s. do {
       (ret, s) \<leftarrow> walk_tree ops hid flags s;
       case ret of
         Inl e \<Rightarrow> Some (Inr para, s)
       | Inr _ \<Rightarrow> walk_keys ops hid flags cb para s })"

definition index_walk_all ::
  "space_ops \<Rightarrow> nat \<Rightarrow> bool \<Rightarrow> u8 \<Rightarrow>
   (nat \<Rightarrow> 'p \<Rightarrow> container \<Rightarrow> ((ofs_err + 'p) \<times> container) option) \<Rightarrow> 'p \<Rightarrow> container \<Rightarrow> 'p res" where
  "index_walk_all ops hid reverse flags cb para s =
     (if hid = 0 then Some (Inl INDEX_ERR_PARAMETER, s)
      else
        let extra = flags AND NOT INDEX_WALK_MASK in
        do {
          (ret, s) \<leftarrow> walk_tree ops hid ((if reverse then INDEX_GET_LAST else INDEX_GET_FIRST) OR extra) s;
          case ret of
            Inl e \<Rightarrow> Some (Inr para, s)
          | Inr _ \<Rightarrow> walk_keys ops hid ((if reverse then INDEX_GET_PREV else 0) OR extra) cb para s })"

end
