(* ===== verification/SpaceManager.thy ===== *)
theory SpaceManager
  imports BTree
begin

text \<open>
  The space managers, \<open>object_system/ofs_space_manager.c\<close>. The free blocks are the entries of a
  table under the extent collation: key the first block, value the number of blocks. The space table
  (\<open>sm\<close>) serves the user objects, the base table (\<open>bsm\<close>) the blocks of the space table, and one
  reserved block (\<open>base_blk\<close>) those of the base table. The table operations call
  \<open>ofs_alloc_space\<close> and \<open>ofs_free_space\<close>, which call the table operations: \<open>space_ops_at\<close> unrolls
  that recursion.
\<close>

section \<open>Extents of a free space table\<close>

definition ie_key_u64 :: "nat \<Rightarrow> container \<Rightarrow> u64 option" where
  "ie_key_u64 hid s = do { (m, q) \<leftarrow> tree_ie hid s; os_bstr_to_u64 (GET_IE_KEY m q) }"

definition ie_value_u32 :: "nat \<Rightarrow> container \<Rightarrow> u32 option" where
  "ie_value_u32 hid s = do {
     (m, q) \<leftarrow> tree_ie hid s;
     v \<leftarrow> os_bstr_to_u64 (GET_IE_VALUE m q);
     Some (ucast v) }"

definition insert_extent :: "space_ops \<Rightarrow> nat \<Rightarrow> u64 \<Rightarrow> u64 \<Rightarrow> container \<Rightarrow> unit res" where
  "insert_extent ops hid addr len s =
     index_insert_key_nolock ops hid (os_u64_to_bstr addr) (os_u64_to_bstr len) s"

text \<open>
  The extent to allocate from: the one that overlaps the wanted blocks, else the next one, else the
  first one. The result is the start block to use and the extent's address.
\<close>

definition find_space :: "space_ops \<Rightarrow> nat \<Rightarrow> u64 \<Rightarrow> u32 \<Rightarrow> container \<Rightarrow> (u64 \<times> u64) res" where
  "find_space ops hid start_blk blk_cnt s = do {
     (ret, s) \<leftarrow> index_search_key_nolock hid (os_u64_to_bstr start_blk) (os_u64_to_bstr (ucast blk_cnt)) s;
     case ret of
       Inr _ \<Rightarrow> do { addr \<leftarrow> ie_key_u64 hid s; Some (Inr (start_blk, addr), s) }
     | Inl e \<Rightarrow>
         if e \<noteq> INDEX_ERR_KEY_NOT_FOUND then Some (Inl e, s)
         else do {
           at_end \<leftarrow> ie_test ENTRY_END hid s;
           (ret, s) \<leftarrow> (if at_end then walk_tree ops hid INDEX_GET_FIRST s else Some (Inr (), s));
           case ret of
             Inl e \<Rightarrow> Some (Inl (if e \<noteq> INDEX_ERR_ROOT then e else INDEX_ERR_NO_FREE_BLOCKS), s)
           | Inr _ \<Rightarrow> do { addr \<leftarrow> ie_key_u64 hid s; Some (Inr (addr, addr), s) } } }"

text \<open>
  The result is the number of blocks allocated and the first one. The counts stay below 2^31, so the
  conversion of the count to the signed return code is the identity.
\<close>

definition alloc_space :: "space_ops \<Rightarrow> nat \<Rightarrow> u64 \<Rightarrow> u32 \<Rightarrow> container \<Rightarrow> (u32 \<times> u64) res" where
  "alloc_space ops hid start_blk blk_cnt s =
     (if blk_cnt = 0 then None
      else ret_if_err (find_space ops hid start_blk blk_cnt s) (\<lambda>(start_blk, addr) s. do {
        len \<leftarrow> ie_value_u32 hid s;
        let end = addr + ucast len;
        if len = 0 then None
        else ret_if_err (tree_remove_ie ops hid s) (\<lambda>_ s.
          if start_blk \<le> addr then
            let end_blk = addr + ucast blk_cnt in
            if end_blk < end then
              ret_if_err (insert_extent ops hid end_blk (end - end_blk) s)
                (\<lambda>_ s. Some (Inr (ucast (end_blk - addr), addr), s))
            else Some (Inr (len, addr), s)
          else
            let end_blk = start_blk + ucast blk_cnt in
            if \<not> start_blk < end then None
            else ret_if_err (insert_extent ops hid addr (start_blk - addr) s) (\<lambda>_ s.
              if end_blk < end then
                ret_if_err (insert_extent ops hid end_blk (end - end_blk) s)
                  (\<lambda>_ s. Some (Inr (blk_cnt, start_blk), s))
              else Some (Inr (ucast (end - start_blk), start_blk), s))) }))"

text \<open>The extent behind the freed blocks is merged if it touches them.\<close>

definition merge_next :: "space_ops \<Rightarrow> nat \<Rightarrow> u64 \<Rightarrow> u32 \<Rightarrow> container \<Rightarrow> u32 res" where
  "merge_next ops hid start_blk blk_cnt s = do {
     at_end \<leftarrow> ie_test ENTRY_END hid s;
     if at_end then Some (Inr blk_cnt, s)
     else do {
       addr \<leftarrow> ie_key_u64 hid s;
       len \<leftarrow> ie_value_u32 hid s;
       if addr < start_blk + ucast blk_cnt then Some (Inl INDEX_ERR_CHAOS, s)
       else if addr = start_blk + ucast blk_cnt then
         ret_if_err (tree_remove_ie ops hid s) (\<lambda>_ s. Some (Inr (blk_cnt + len), s))
       else Some (Inr blk_cnt, s) } }"

text \<open>
  The extent before them is looked for backwards from where the cursor is: extents that start
  behind are skipped, any error ends the search.
\<close>

partial_function (option) merge_prev ::
  "space_ops \<Rightarrow> nat \<Rightarrow> u64 \<Rightarrow> u32 \<Rightarrow> container \<Rightarrow> (u64 \<times> u32) res" where
  "merge_prev ops hid start_blk blk_cnt s = do {
     (ret, s) \<leftarrow> walk_tree ops hid INDEX_GET_PREV s;
     case ret of
       Inl e \<Rightarrow> Some (Inr (start_blk, blk_cnt), s)
     | Inr _ \<Rightarrow> do {
         addr \<leftarrow> ie_key_u64 hid s;
         len \<leftarrow> ie_value_u32 hid s;
         if addr + ucast len > start_blk then
           (if addr > start_blk then merge_prev ops hid start_blk blk_cnt s
            else Some (Inl INDEX_ERR_CHAOS, s))
         else if addr + ucast len = start_blk then
           ret_if_err (tree_remove_ie ops hid s) (\<lambda>_ s. Some (Inr (addr, blk_cnt + len), s))
         else Some (Inr (start_blk, blk_cnt), s) } }"

text \<open>An overlapping extent is an error, but what is returned is the 0 of the search.\<close>

definition free_space :: "space_ops \<Rightarrow> nat \<Rightarrow> u64 \<Rightarrow> u32 \<Rightarrow> container \<Rightarrow> unit res" where
  "free_space ops hid start_blk blk_cnt s = do {
     (ret, s) \<leftarrow> index_search_key_nolock hid (os_u64_to_bstr start_blk) (os_u64_to_bstr (ucast blk_cnt)) s;
     if ret \<noteq> Inl INDEX_ERR_KEY_NOT_FOUND then Some (ret, s)
     else ret_if_err (merge_next ops hid start_blk blk_cnt s) (\<lambda>blk_cnt s.
          ret_if_err (merge_prev ops hid start_blk blk_cnt s) (\<lambda>(start_blk, blk_cnt) s.
          insert_extent ops hid start_blk (ucast blk_cnt) s)) }"

section \<open>Space managers\<close>

definition ofs_init_sm :: "nat \<Rightarrow> u64 \<Rightarrow> u64 \<Rightarrow> space_manager" where
  "ofs_init_sm hid first_free_block total_free_blocks =
     \<lparr> sm_space_obj = hid, sm_first_free_block = first_free_block,
       sm_total_free_blocks = total_free_blocks \<rparr>"

definition ofs_init_free_space :: "space_ops \<Rightarrow> space_manager \<Rightarrow> u64 \<Rightarrow> u64 \<Rightarrow> container \<Rightarrow> unit res" where
  "ofs_init_free_space ops sm start_blk blk_cnt s =
     insert_extent ops (sm_space_obj sm) start_blk blk_cnt s"

text \<open>Which of the two space managers of the container: true is \<open>sm\<close>, false is \<open>bsm\<close>.\<close>

definition get_sm :: "bool \<Rightarrow> container \<Rightarrow> space_manager" where
  "get_sm w s = (if w then ct_sm s else ct_bsm s)"

definition put_sm :: "bool \<Rightarrow> space_manager \<Rightarrow> container \<Rightarrow> container" where
  "put_sm w sm s = (if w then s\<lparr> ct_sm := sm \<rparr> else s\<lparr> ct_bsm := sm \<rparr>)"

definition sm_alloc_space :: "space_ops \<Rightarrow> bool \<Rightarrow> u32 \<Rightarrow> container \<Rightarrow> (u32 \<times> u64) res" where
  "sm_alloc_space ops w blk_cnt s =
     (let sm = get_sm w s in
      if sm_total_free_blocks sm = 0 then Some (Inl INDEX_ERR_NO_FREE_BLOCKS, s)
      else do {
        (ret, s) \<leftarrow> alloc_space ops (sm_space_obj sm) (sm_first_free_block sm) blk_cnt s;
        let sm = get_sm w s;
        case ret of
          Inl e \<Rightarrow>
            if e = INDEX_ERR_NO_FREE_BLOCKS
            then Some (Inl e, put_sm w (sm\<lparr> sm_first_free_block := 0, sm_total_free_blocks := 0 \<rparr>) s)
            else Some (Inl e, s)
        | Inr (cnt, real_start_blk) \<Rightarrow>
            let sm = sm\<lparr> sm_first_free_block := real_start_blk + ucast cnt \<rparr>;
                sm = (if sm_total_free_blocks sm < ucast cnt then sm
                      else sm\<lparr> sm_total_free_blocks := sm_total_free_blocks sm - ucast cnt \<rparr>)
            in Some (Inr (cnt, real_start_blk), put_sm w sm s) })"

definition sm_free_space :: "space_ops \<Rightarrow> bool \<Rightarrow> u64 \<Rightarrow> u32 \<Rightarrow> container \<Rightarrow> unit res" where
  "sm_free_space ops w start_blk blk_cnt s = do {
     (ret, s) \<leftarrow> free_space ops (sm_space_obj (get_sm w s)) start_blk blk_cnt s;
     case ret of
       Inl e \<Rightarrow> Some (Inl e, s)
     | Inr _ \<Rightarrow>
         let sm = get_sm w s in
         Some (Inr (), put_sm w (sm\<lparr> sm_total_free_blocks := sm_total_free_blocks sm + ucast blk_cnt \<rparr>) s) }"

section \<open>The container's space\<close>

definition MAX_BLK_NUM :: u64 where "MAX_BLK_NUM = 10"
definition MIN_BLK_NUM :: u64 where "MIN_BLK_NUM = 3"

partial_function (option) fill_base_space :: "space_ops \<Rightarrow> container \<Rightarrow> unit res" where
  "fill_base_space ops s =
     (if sm_total_free_blocks (ct_bsm s) \<le> MIN_BLK_NUM then
        ret_if_err (sm_alloc_space ops True (ucast (MAX_BLK_NUM - sm_total_free_blocks (ct_bsm s))) s)
          (\<lambda>(blk_cnt, real_start_blk) s.
            ret_if_err (sm_free_space ops False real_start_blk blk_cnt s) (\<lambda>_ s.
              fill_base_space ops s))
      else Some (Inr (), s))"

definition reserve_base_space :: "space_ops \<Rightarrow> container \<Rightarrow> unit res" where
  "reserve_base_space ops s =
     (if ct_base_blk s = 0 then
        ret_if_err (sm_alloc_space ops True 1 s) (\<lambda>(cnt, real_start_blk) s.
          fill_base_space ops (s\<lparr> ct_base_blk := real_start_blk \<rparr>))
      else fill_base_space ops s)"

definition space_objid :: "bool \<Rightarrow> container \<Rightarrow> u64 option" where
  "space_objid w s = do {
     h \<leftarrow> handles s (sm_space_obj (get_sm w s));
     x \<leftarrow> objs s (h_obj_info h);
     Some (oi_objid x) }"

definition ofs_alloc_space :: "space_ops \<Rightarrow> u64 \<Rightarrow> u32 \<Rightarrow> container \<Rightarrow> (u32 \<times> u64) res" where
  "ofs_alloc_space ops objid blk_cnt s = do {
     base_id \<leftarrow> space_objid False s;
     if objid = base_id then
       (if ct_base_blk s = 0 \<or> blk_cnt \<noteq> 1 then None
        else Some (Inr (blk_cnt, ct_base_blk s), s\<lparr> ct_base_blk := 0 \<rparr>))
     else do {
       space_id \<leftarrow> space_objid True s;
       if objid = space_id then sm_alloc_space ops False blk_cnt s
       else ret_if_err (reserve_base_space ops s) (\<lambda>_ s. sm_alloc_space ops True blk_cnt s) } }"

definition ofs_free_space :: "space_ops \<Rightarrow> u64 \<Rightarrow> u64 \<Rightarrow> u32 \<Rightarrow> container \<Rightarrow> unit res" where
  "ofs_free_space ops objid start_blk blk_cnt s = do {
     base_id \<leftarrow> space_objid False s;
     if objid = base_id then
       (if ct_base_blk s \<noteq> 0 \<or> blk_cnt \<noteq> 1 then None
        else Some (Inr (), s\<lparr> ct_base_blk := start_blk \<rparr>))
     else do {
       space_id \<leftarrow> space_objid True s;
       if objid = space_id then sm_free_space ops False start_blk blk_cnt s
       else ret_if_err (reserve_base_space ops s) (\<lambda>_ s. sm_free_space ops True start_blk blk_cnt s) } }"

text \<open>
  The recursion: a user object's block comes from the space table, whose blocks come from the base
  table, whose blocks are the reserved one. Each level uses the one below; deeper recursion than the
  level allows is undefined. Level 3 is the depth of the code's own recursion.
\<close>

primrec space_ops_at :: "nat \<Rightarrow> space_ops" where
  "space_ops_at 0 = \<lparr> op_alloc = \<lambda>_ _ _. None, op_free = \<lambda>_ _ _ _. None \<rparr>"
| "space_ops_at (Suc n) =
     \<lparr> op_alloc = ofs_alloc_space (space_ops_at n), op_free = ofs_free_space (space_ops_at n) \<rparr>"

definition ct_ops :: space_ops where "ct_ops = space_ops_at 3"

end
