(* ===== verification/ObjectManager.thy ===== *)
theory ObjectManager
  imports SpaceManager
begin

text \<open>
  The object manager, \<open>object_system/ofs_object_manager.c\<close>, and the commit of a container's
  modifications (the end of \<open>object_system/ofs_metadata_cache.c\<close>, which validates the objects). An
  object is an inode, a block of its own whose attribute record holds the root of the object's table.
  Objects are found by number in the container's list while they are open, in the table of
  object \<open>OBJID_OBJ_ID\<close> (\<open>ct_id_obj\<close>) otherwise.
\<close>

section \<open>Comparisons\<close>

definition compare_object1 :: "container \<Rightarrow> nat \<Rightarrow> nat \<Rightarrow> int" where
  "compare_object1 s o1 o2 =
     (case (objs s o1, objs s o2) of
        (Some x1, Some x2) \<Rightarrow>
          if oi_objid x1 > oi_objid x2 then 1 else if oi_objid x1 = oi_objid x2 then 0 else -1
      | _ \<Rightarrow> 2)"

definition compare_object2 :: "container \<Rightarrow> u64 \<Rightarrow> nat \<Rightarrow> int" where
  "compare_object2 s objid oid =
     (case objs s oid of
        Some x \<Rightarrow> if objid > oi_objid x then 1 else if objid = oi_objid x then 0 else -1
      | None \<Rightarrow> 2)"

section \<open>Inodes\<close>

definition INODE_MAGIC :: u32 where "INODE_MAGIC = 0x454A424F"
definition INVALID_OBJID :: u64 where "INVALID_OBJID = - 1"
definition RESERVED_OBJ_ID :: u64 where "RESERVED_OBJ_ID = 128"
definition BASE_OBJ_ID :: u64 where "BASE_OBJ_ID = 0"
definition SPACE_OBJ_ID :: u64 where "SPACE_OBJ_ID = 1"
definition OBJID_OBJ_ID :: u64 where "OBJID_OBJ_ID = 2"

text \<open>\<open>strncpy(dst, src, n)\<close> from offset \<open>p\<close> to offset \<open>q\<close>: zeros behind the first zero.\<close>

definition os_strncpy :: "buf \<Rightarrow> nat \<Rightarrow> buf \<Rightarrow> nat \<Rightarrow> nat \<Rightarrow> buf" where
  "os_strncpy d q m p n =
     (let str = takeWhile (\<lambda>b. b \<noteq> 0) (rd m p n) in wr d q (str @ replicate (n - length str) 0))"

text \<open>The decimal digits of \<open>snprintf\<close>'s \<open>%llu\<close>.\<close>

fun dec_digits :: "nat \<Rightarrow> u8 list" where
  "dec_digits n = (if n < 10 then [of_nat (48 + n)] else dec_digits (n div 10) @ [of_nat (48 + n mod 10)])"

declare dec_digits.simps [simp del]

definition ATTR_RECORD_SIZE :: u16 where "ATTR_RECORD_SIZE = 3734"
definition ATTR_RECORD_CONTENT_SIZE :: u32 where "ATTR_RECORD_CONTENT_SIZE = 3722"

definition init_inode :: "buf \<Rightarrow> u64 \<Rightarrow> u16 \<Rightarrow> buf" where
  "init_inode m objid flags =
     (let m = memset0 m 0 4096;
          m = put32 m 0 INODE_MAGIC;
          m = put32 m 4 4096;
          m = put32 m 8 4096;
          m = put16 m 16 362;
          m = put64 m 24 objid;
          name = [0x4F, 0x42, 0x4A] @ dec_digits (unat objid);
          m = wr m 106 (name @ [0]);
          m = put16 m 104 (of_nat (length name));
          m = put16 m 362 ATTR_RECORD_SIZE;
          m = put16 m (362 + 2) flags
      in if flags AND FLAG_TABLE \<noteq> 0 then init_ib m (362 + 12) 0 ATTR_RECORD_CONTENT_SIZE
         else memset0 m (362 + 12) (unat ATTR_RECORD_CONTENT_SIZE))"

text \<open>The attribute record and the root cache, which points to the content of the record.\<close>

definition init_attr :: "nat \<Rightarrow> u64 \<Rightarrow> container \<Rightarrow> container option" where
  "init_attr oid inode_no s = do {
     x \<leftarrow> objs s oid;
     m \<leftarrow> bufs s (fst (oi_inode x));
     let b = fst (oi_inode x);
     let a = snd (oi_inode x) + unat (get16 m (snd (oi_inode x) + 16));
     k \<leftarrow> caches s (oi_root_cache x);
     Some (put_cache (oi_root_cache x) (k\<lparr> c_vbn := inode_no, c_ib := (b, a + 12) \<rparr>)
             (put_obj oid (x\<lparr> oi_attr_record := (b, a) \<rparr>) s)) }"

section \<open>Object information and handles\<close>

definition get_object_info :: "u64 \<Rightarrow> container \<Rightarrow> nat res" where
  "get_object_info objid s =
     (let (ok, s) = os_malloc s in
      if \<not> ok then Some (Inl INDEX_ERR_ALLOCATE_MEMORY, s)
      else
        let oid = next_id s;
            x = \<lparr> oi_inode = (0, 0), oi_inode_cache = 0, oi_objid = objid, oi_inode_no = 0,
                  oi_name = (\<lambda>_. 0), oi_attr_record = (0, 0), oi_obj_hnd_list = [],
                  oi_root_cache = oid + 1, oi_caches = avl_create, oi_ref_cnt = 0 \<rparr>;
            s = s\<lparr> next_id := oid + 2 \<rparr>;
            s = put_cache (oid + 1) \<lparr> c_vbn = 0, c_state = 0, c_ib = (0, 0) \<rparr> (put_obj oid x s)
        in do {
          t \<leftarrow> avl_add (compare_object1 s) (ct_obj_info_list s) oid;
          Some (Inr oid, s\<lparr> ct_obj_info_list := t \<rparr>) })"

definition put_object_info :: "nat \<Rightarrow> container \<Rightarrow> container option" where
  "put_object_info oid s = do {
     t \<leftarrow> avl_remove_node (ct_obj_info_list s) oid;
     s \<leftarrow> release_obj_all_cache oid (s\<lparr> ct_obj_info_list := t \<rparr>);
     x \<leftarrow> objs s oid;
     _ \<leftarrow> avl_destroy (oi_caches x);
     Some (s\<lparr> objs := (objs s)(oid := None), caches := (caches s)(oi_root_cache x := None) \<rparr>) }"

definition get_object_handle :: "nat \<Rightarrow> container \<Rightarrow> nat res" where
  "get_object_handle oid s =
     (let (ok, s) = os_malloc s in
      if \<not> ok then Some (Inl INDEX_ERR_ALLOCATE_MEMORY, s)
      else do {
        x \<leftarrow> objs s oid;
        let hid = next_id s;
        let h = \<lparr> h_obj_info = oid, h_max_depth = 0, h_depth = 0, h_cache_stack = (\<lambda>_. 0),
                  h_position_stack = (\<lambda>_. 0), h_cache = 0, h_position = 0, h_ie = (0, 0) \<rparr>;
        let s = put_handle hid h (s\<lparr> next_id := hid + 1 \<rparr>);
        Some (Inr hid, put_obj oid
          (x\<lparr> oi_obj_hnd_list := oi_obj_hnd_list x @ [hid], oi_ref_cnt := oi_ref_cnt x + 1 \<rparr>) s) })"

definition put_object_handle :: "nat \<Rightarrow> container \<Rightarrow> container option" where
  "put_object_handle hid s = do {
     h \<leftarrow> handles s hid;
     x \<leftarrow> objs s (h_obj_info h);
     let s = put_obj (h_obj_info h)
       (x\<lparr> oi_obj_hnd_list := removeAll hid (oi_obj_hnd_list x), oi_ref_cnt := oi_ref_cnt x - 1 \<rparr>) s;
     Some (s\<lparr> handles := (handles s)(hid := None) \<rparr>) }"

partial_function (option) put_all_object_handle :: "nat \<Rightarrow> container \<Rightarrow> container option" where
  "put_all_object_handle oid s = do {
     x \<leftarrow> objs s oid;
     if oi_ref_cnt x = 0 then Some s
     else if oi_obj_hnd_list x = [] then None
     else do {
       s \<leftarrow> put_object_handle (hd (oi_obj_hnd_list x)) s;
       put_all_object_handle oid s } }"

text \<open>
  Reading the inode of an object. A name longer than the array, on disk, overruns it. The inode's
  cache is marked clean even when it was found, dirty, in the container's cache.
\<close>

definition recover_obj_inode :: "nat \<Rightarrow> u64 \<Rightarrow> container \<Rightarrow> unit res" where
  "recover_obj_inode oid inode_no s =
     ret_if_err (index_block_read2 oid inode_no INODE_MAGIC s) (\<lambda>c s. do {
       x \<leftarrow> objs s oid;
       (b, m, p) \<leftarrow> cache_block s c;
       let name_size = unat (get16 m (p + 104));
       if name_size > 256 then None
       else do {
         let x = x\<lparr> oi_inode_cache := c, oi_inode := (b, p), oi_inode_no := inode_no,
                    oi_name := os_strncpy (oi_name x) 0 m (p + 106) name_size \<rparr>;
         s \<leftarrow> init_attr oid inode_no (put_obj oid x s);
         s \<leftarrow> set_cache_state c CLEAN s;
         Some (Inr (), s) } })"

text \<open>
  A modified object moves its inode to the new block: the number goes to the super block for the
  system objects, to the object table for the others, where the result of the update is not looked at.
\<close>

definition validate_obj_inode :: "nat \<Rightarrow> container \<Rightarrow> container option" where
  "validate_obj_inode oid s = do {
     x \<leftarrow> objs s oid;
     k \<leftarrow> caches s (oi_root_cache x);
     if \<not> CACHE_DIRTY k then Some s
     else do {
       s \<leftarrow> set_cache_state (oi_inode_cache x) DIRTY s;
       let new_vbn = c_vbn k;
       let s = put_obj oid (x\<lparr> oi_inode_no := new_vbn \<rparr>) s;
       let dirty = (\<lambda>s. s\<lparr> ct_flags := ct_flags s OR FLAG_DIRTY \<rparr>);
       if oi_objid x = BASE_OBJ_ID then Some (dirty (sb_put64 92 new_vbn s))
       else if oi_objid x = SPACE_OBJ_ID then Some (dirty (sb_put64 60 new_vbn s))
       else if oi_objid x = OBJID_OBJ_ID then Some (dirty (sb_put64 44 new_vbn s))
       else do {
         (_, s) \<leftarrow> index_update_value ct_ops (ct_id_obj s) (os_u64_to_bstr (oi_objid x))
                    (os_u64_to_bstr new_vbn) s;
         Some s } } }"

definition close_object :: "nat \<Rightarrow> container \<Rightarrow> container option" where
  "close_object oid s = do {
     s \<leftarrow> put_all_object_handle oid s;
     s \<leftarrow> validate_obj_inode oid s;
     put_object_info oid s }"

section \<open>Creating and opening\<close>

definition create_object_at_inode :: "u64 \<Rightarrow> u64 \<Rightarrow> u16 \<Rightarrow> container \<Rightarrow> nat res" where
  "create_object_at_inode objid inode_no flags s =
     ret_if_err (get_object_info objid s) (\<lambda>oid s. do {
       (c, s) \<leftarrow> alloc_obj_cache oid inode_no s;
       if c = 0 then do {
         s \<leftarrow> put_object_info oid s;
         Some (Inl INDEX_ERR_ALLOCATE_MEMORY, s) }
       else do {
         (b, m, p) \<leftarrow> cache_block s c;
         x \<leftarrow> objs s oid;
         let m = init_inode m objid flags;
         let x = x\<lparr> oi_inode_cache := c, oi_inode := (b, p), oi_inode_no := inode_no,
                    oi_name := os_strncpy (oi_name x) 0 m (p + 106) (unat (get16 m (p + 104))) \<rparr>;
         s \<leftarrow> init_attr oid inode_no (put_obj oid x (put_buf b m s));
         s \<leftarrow> set_cache_state c DIRTY s;
         s \<leftarrow> set_cache_state (oi_root_cache x) DIRTY s;
         (ret, s) \<leftarrow> get_object_handle oid s;
         case ret of
           Inl e \<Rightarrow> do { s \<leftarrow> put_object_info oid s; Some (Inl e, s) }
         | Inr hid \<Rightarrow> Some (Inr hid, s) } })"

definition create_object :: "u64 \<Rightarrow> u16 \<Rightarrow> container \<Rightarrow> nat res" where
  "create_object objid flags s =
     ret_if_err (OFS_ALLOC_BLOCK ct_ops objid s) (\<lambda>inode_no s. do {
       (ret, s) \<leftarrow> create_object_at_inode objid inode_no flags s;
       case ret of
         Inl e \<Rightarrow> do { (_, s) \<leftarrow> OFS_FREE_BLOCK ct_ops objid inode_no s; Some (Inl e, s) }
       | Inr hid \<Rightarrow> Some (Inr hid, s) })"

definition open_object :: "u64 \<Rightarrow> u64 \<Rightarrow> container \<Rightarrow> nat res" where
  "open_object objid inode_no s =
     ret_if_err (get_object_info objid s) (\<lambda>oid s. do {
       (ret, s) \<leftarrow> recover_obj_inode oid inode_no s;
       case ret of
         Inl e \<Rightarrow> do { s \<leftarrow> put_object_info oid s; Some (Inl e, s) }
       | Inr _ \<Rightarrow> do {
           (ret, s) \<leftarrow> get_object_handle oid s;
           case ret of
             Inl e \<Rightarrow> do { s \<leftarrow> put_object_info oid s; Some (Inl e, s) }
           | Inr hid \<Rightarrow> Some (Inr hid, s) } })"

text \<open>The name is a C string without its zero.\<close>

definition ofs_set_object_name :: "nat \<Rightarrow> u8 list \<Rightarrow> container \<Rightarrow> unit res" where
  "ofs_set_object_name hid name s =
     (if length name \<ge> 256 then Some (Inl INDEX_ERR_PARAMETER, s)
      else do {
        h \<leftarrow> handles s hid;
        x \<leftarrow> objs s (h_obj_info h);
        (b, p) \<leftarrow> Some (oi_inode x);
        m \<leftarrow> bufs s b;
        let m = put16 (wr m (p + 106) name) (p + 104) (of_nat (length name));
        s \<leftarrow> set_cache_state (oi_inode_cache x) DIRTY
              (put_buf b m (put_obj (h_obj_info h) (x\<lparr> oi_name := wr (oi_name x) 0 name \<rparr>) s));
        Some (Inr (), s) })"

definition find_object :: "u64 \<Rightarrow> container \<Rightarrow> nat option option" where
  "find_object objid s =
     (case avl_find (ct_obj_info_list s) (compare_object2 s objid) of
        None \<Rightarrow> None
      | Some (Found p) \<Rightarrow> Some (Some (pos_data p))
      | Some (Where _) \<Rightarrow> Some None)"

text \<open>The search key is all eight bytes of the object number, the inserted one the shortest.\<close>

definition ofs_create_object_nolock :: "u64 \<Rightarrow> u16 \<Rightarrow> container \<Rightarrow> nat res" where
  "ofs_create_object_nolock objid flags s =
     (if objid = INVALID_OBJID then None
      else if objid < RESERVED_OBJ_ID then Some (Inl INDEX_ERR_OBJ_ID_INVALID, s)
      else do {
        found \<leftarrow> find_object objid s;
        if found \<noteq> None then Some (Inl INDEX_ERR_OBJ_EXIST, s)
        else do {
          (ret, s) \<leftarrow> search_key_internal (ct_id_obj s) (bytes_le 8 (unat objid)) [] s;
          case ret of
            Inr _ \<Rightarrow> Some (Inl INDEX_ERR_OBJ_EXIST, s)
          | Inl e \<Rightarrow>
              if e \<noteq> INDEX_ERR_KEY_NOT_FOUND then Some (Inl e, s)
              else ret_if_err (create_object objid flags s) (\<lambda>hid s. do {
                h \<leftarrow> handles s hid;
                x \<leftarrow> objs s (h_obj_info h);
                (ret, s) \<leftarrow> index_insert_key_nolock ct_ops (ct_id_obj s) (os_u64_to_bstr objid)
                              (os_u64_to_bstr (oi_inode_no x)) s;
                case ret of
                  Inl e \<Rightarrow> do {
                    (_, s) \<leftarrow> OFS_FREE_BLOCK ct_ops (oi_objid x) (oi_inode_no x) s;
                    s \<leftarrow> close_object (h_obj_info h) s;
                    Some (Inl e, s) }
                | Inr _ \<Rightarrow> Some (Inr hid, s) }) } })"

text \<open>
  The check of the number in \<open>ofs_create_object\<close> is on \<open>objid || (obj == NULL)\<close>, a truth value,
  which is never the invalid number.
\<close>

definition ofs_create_object :: "u64 \<Rightarrow> u16 \<Rightarrow> container \<Rightarrow> nat res" where
  "ofs_create_object objid flags s =
     (if (if objid \<noteq> 0 then 1 else 0) = INVALID_OBJID then Some (Inl INDEX_ERR_PARAMETER, s)
      else ofs_create_object_nolock objid flags s)"

definition ofs_open_object_nolock :: "u64 \<Rightarrow> container \<Rightarrow> nat res" where
  "ofs_open_object_nolock objid s = do {
     found \<leftarrow> find_object objid s;
     case found of
       Some oid \<Rightarrow> get_object_handle oid s
     | None \<Rightarrow>
         ret_if_err (search_key_internal (ct_id_obj s) (bytes_le 8 (unat objid)) [] s) (\<lambda>_ s. do {
           (m, q) \<leftarrow> tree_ie (ct_id_obj s) s;
           inode_no \<leftarrow> os_bstr_to_u64 (GET_IE_VALUE m q);
           open_object objid inode_no s }) }"

definition ofs_open_object :: "u64 \<Rightarrow> container \<Rightarrow> nat res" where
  "ofs_open_object objid s = ofs_open_object_nolock objid s"

section \<open>Looking up and closing\<close>

definition ofs_get_object_info :: "u64 \<Rightarrow> container \<Rightarrow> nat option option" where
  "ofs_get_object_info objid s = (if objid = INVALID_OBJID then None else find_object objid s)"

definition ofs_get_object_handle :: "u64 \<Rightarrow> container \<Rightarrow> nat option option" where
  "ofs_get_object_handle objid s =
     (if objid = INVALID_OBJID then None
      else case ofs_get_object_info objid s of
        None \<Rightarrow> None
      | Some None \<Rightarrow> Some None
      | Some (Some oid) \<Rightarrow>
          (case objs s oid of
             None \<Rightarrow> None
           | Some x \<Rightarrow>
               if oi_ref_cnt x = 0 then Some None
               else if oi_obj_hnd_list x = [] then None
               else Some (Some (hd (oi_obj_hnd_list x)))))"

definition ofs_close_object_nolock :: "nat \<Rightarrow> container \<Rightarrow> unit res" where
  "ofs_close_object_nolock hid s =
     (if hid = 0 then Some (Inl INDEX_ERR_PARAMETER, s)
      else do {
        h \<leftarrow> handles s hid;
        if h_obj_info h = 0 then Some (Inl INDEX_ERR_PARAMETER, s)
        else do {
          x \<leftarrow> objs s (h_obj_info h);
          if oi_ref_cnt x = 0 then Some (Inl INDEX_ERR_MANY_TIMES_PUT, s)
          else do {
            s \<leftarrow> put_object_handle hid s;
            x \<leftarrow> objs s (h_obj_info h);
            s \<leftarrow> (if oi_ref_cnt x = 0 then close_object (h_obj_info h) s else Some s);
            Some (Inr (), s) } } })"

definition ofs_close_object :: "nat \<Rightarrow> container \<Rightarrow> unit res" where
  "ofs_close_object hid s =
     (if hid = 0 then Some (Inl INDEX_ERR_PARAMETER, s)
      else do { _ \<leftarrow> handles s hid; ofs_close_object_nolock hid s })"

section \<open>Commit\<close>

definition validate_one_user_object :: "nat \<Rightarrow> container \<Rightarrow> (bool \<times> container) option" where
  "validate_one_user_object oid s = do {
     x \<leftarrow> objs s oid;
     if oi_objid x < RESERVED_OBJ_ID then Some (False, s)
     else do { s \<leftarrow> validate_obj_inode oid s; Some (False, s) } }"

definition validate_one_system_object :: "nat \<Rightarrow> container \<Rightarrow> (bool \<times> container) option" where
  "validate_one_system_object oid s = do {
     x \<leftarrow> objs s oid;
     if oi_objid x \<ge> RESERVED_OBJ_ID then Some (True, s)
     else do { s \<leftarrow> validate_obj_inode oid s; Some (False, s) } }"

definition validate_all_objects :: "container \<Rightarrow> container option" where
  "validate_all_objects s = do {
     s \<leftarrow> walk_all (ct_obj_info_list s) validate_one_user_object s;
     walk_all (ct_obj_info_list s) validate_one_system_object s }"

definition commit_container_modification :: "container \<Rightarrow> container option" where
  "commit_container_modification s = do {
     s \<leftarrow> validate_all_objects s;
     s \<leftarrow> flush_container_cache s;
     clean_all_obj_root_cache s }"

end
