(* ===== verification/Cursor.thy ===== *)
theory Cursor
  imports SpaceManager
begin

text \<open>
  The cursor of a table handle over blocks that hold lists of entries: how \<open>get_next_ie\<close>,
  \<open>get_prev_ie\<close>, \<open>push_cache_stack\<close> and \<open>pop_cache_stack\<close> move it, and searching in a tree of
  cached blocks of any height.
\<close>

section \<open>State updates\<close>

lemma put_handle_simps [simp]:
  "handles (put_handle hid h s) = (handles s)(hid \<mapsto> h)"
  "bufs (put_handle hid h s) = bufs s" "caches (put_handle hid h s) = caches s"
  "objs (put_handle hid h s) = objs s" "ct_metadata_cache (put_handle hid h s) = ct_metadata_cache s"
  "put_handle hid h2 (put_handle hid h1 s) = put_handle hid h2 s"
  by (simp_all add: put_handle_def)

lemma cache_block_put_handle [simp]: "cache_block (put_handle hid h s) c = cache_block s c"
  by (simp add: cache_block_def)

lemma put_handle_same: "handles s hid = Some h \<Longrightarrow> put_handle hid h s = s"
  by (simp add: put_handle_def fun_upd_idem)

text \<open>The flags of the attribute record of an object.\<close>

definition obj_flags :: "nat \<Rightarrow> container \<Rightarrow> u16 option" where
  "obj_flags oid s = do {
     x \<leftarrow> objs s oid;
     m \<leftarrow> bufs s (fst (oi_attr_record x));
     Some (get16 m (snd (oi_attr_record x) + 2)) }"

lemma attr_flags_obj: "handles s hid = Some h \<Longrightarrow> attr_flags hid s = obj_flags (h_obj_info h) s"
  by (simp add: attr_flags_def obj_flags_def)

lemma obj_flags_put_handle [simp]: "obj_flags oid (put_handle hid h s) = obj_flags oid s"
  by (simp add: obj_flags_def)

lemma tree_block_put_handle:
  "cache_block s (h_cache h) = Some (b, m, p) \<Longrightarrow> tree_block hid (put_handle hid h s) = Some (h, b, m, p)"
  by (simp add: tree_block_def)

lemma cache_block_bufs: "cache_block s c = Some (b, m, p) \<Longrightarrow> bufs s b = Some m"
  by (auto simp: cache_block_def bind_eq_Some_conv)

section \<open>The cursor on an entry\<close>

text \<open>\<open>go_to b p es i h\<close>: the handle \<open>h\<close> on entry \<open>i\<close> of the block with entries \<open>es\<close>.\<close>

definition go_to :: "nat \<Rightarrow> nat \<Rightarrow> ent list \<Rightarrow> nat \<Rightarrow> object_handle \<Rightarrow> object_handle" where
  "go_to b p es i h = h\<lparr> h_ie := (b, ie_off p es i), h_position := of_nat (ie_off p es i - p) \<rparr>"

lemma go_to_eqs:
  "h\<lparr> h_ie := (b, ie_off p es i), h_position := of_nat (ie_off p es i - p) \<rparr> = go_to b p es i h"
  "h\<lparr> h_position := of_nat (ie_off p es i - p), h_ie := (b, ie_off p es i) \<rparr> = go_to b p es i h"
  by (cases h, simp add: go_to_def)+

lemma go_to_upd [simp]:
  "(go_to b p es i h)\<lparr> h_position := x, h_ie := y \<rparr> = h\<lparr> h_position := x, h_ie := y \<rparr>"
  by (cases h) (simp add: go_to_def)

lemma go_to_simps [simp]:
  "h_ie (go_to b p es i h) = (b, ie_off p es i)"
  "h_position (go_to b p es i h) = of_nat (ie_off p es i - p)"
  "h_cache (go_to b p es i h) = h_cache h" "h_obj_info (go_to b p es i h) = h_obj_info h"
  "h_depth (go_to b p es i h) = h_depth h" "h_max_depth (go_to b p es i h) = h_max_depth h"
  "h_cache_stack (go_to b p es i h) = h_cache_stack h"
  "h_position_stack (go_to b p es i h) = h_position_stack h"
  "go_to b p es i (go_to b' p' es' i' h) = go_to b p es i h"
  by (simp_all add: go_to_def)

lemma ie_off_diff: "ie_off p es i - p = 33 + esizes (take i es)"
  by (simp add: ie_off_def)

lemma ie_off_less:
  assumes "i < length es" shows "ie_off p es i < ie_off p es (length es)"
proof -
  have "esizes es = esizes (take i es) + esizes (drop i es)"
    by (metis append_take_drop_id esizes_simps(3))
  moreover have "0 < esizes (drop i es)"
    using assms esize_ge [of "es ! i"] by (simp add: Cons_nth_drop_Suc [symmetric])
  ultimately show ?thesis by (simp add: ie_off_def)
qed

lemma tree_ie_go_to:
  "bufs s b = Some m \<Longrightarrow> tree_ie hid (put_handle hid (go_to b p es i h) s) = Some (m, ie_off p es i)"
  by (simp add: tree_ie_def)

lemma ie_test_go_to:
  "bufs s b = Some m \<Longrightarrow>
   ie_test f hid (put_handle hid (go_to b p es i h) s) = Some (ie_is f m (ie_off p es i))"
  by (simp add: ie_test_def tree_ie_go_to)

text \<open>The entry types of a block.\<close>

lemma ib_rep_end: "ib_rep m p es \<Longrightarrow> i < length es \<Longrightarrow> ie_is ENTRY_END m (ie_off p es i) \<longleftrightarrow> Suc i = length es"
  using ent_at_is(2) [OF ib_rep_nth] ends_with_end_nth [of es i] by (simp add: ib_rep_def)

lemma ib_rep_node: "ib_rep m p es \<Longrightarrow> i < length es \<Longrightarrow> ie_is ENTRY_NODE m (ie_off p es i) \<longleftrightarrow> echild (es ! i) \<noteq> None"
  using ent_at_is(1) [OF ib_rep_nth] by simp

lemma ib_rep_key: "ib_rep m p es \<Longrightarrow> i < length es \<Longrightarrow> GET_IE_KEY m (ie_off p es i) = ekey (es ! i)"
  using ent_at_fields(6) [OF ib_rep_nth] by simp

lemma ib_rep_value: "ib_rep m p es \<Longrightarrow> i < length es \<Longrightarrow> GET_IE_VALUE m (ie_off p es i) = evalue (es ! i)"
  using ent_at_fields(7) [OF ib_rep_nth] by simp

lemma ib_rep_vbn:
  "ib_rep m p es \<Longrightarrow> i < length es \<Longrightarrow> echild (es ! i) = Some v \<Longrightarrow> GET_IE_VBN m (ie_off p es i) = v"
  using ent_at_fields(8) [OF ib_rep_nth] by simp

lemma ib_rep_size: "ib_rep m p es \<Longrightarrow> i < length es \<Longrightarrow> unat (ie_len m (ie_off p es i)) = esize (es ! i)"
  using ent_at_fields(1) [OF ib_rep_nth] by simp

lemma ib_rep_size_less: "ib_rep m p es \<Longrightarrow> i < length es \<Longrightarrow> esize (es ! i) < 65536"
  using ib_rep_nth [of m p es i] by (simp add: ent_at_def)

lemma of_nat_ie_off_Suc:
  assumes "ib_rep m p es" "i < length es"
  shows "(of_nat (ie_off p es i - p) :: u64) + ucast (ie_len m (ie_off p es i)) =
    of_nat (ie_off p es (Suc i) - p)"
proof -
  have "ie_off p es (Suc i) - p = (ie_off p es i - p) + esize (es ! i)"
    using ie_off_Suc [OF assms(2), of p] by (simp add: ie_off_diff) (simp add: ie_off_def)
  moreover have "(ucast (ie_len m (ie_off p es i)) :: u64) = of_nat (esize (es ! i))"
    using ib_rep_size [OF assms] by (metis of_nat_unat)
  ultimately show ?thesis by simp
qed

lemma get_next_ie_go_to:
  assumes "cache_block s (h_cache h) = Some (b, m, p)" "ib_rep m p es" "Suc i < length es"
  shows "get_next_ie hid (put_handle hid (go_to b p es i h) s) =
    Some (Inr (), put_handle hid (go_to b p es (Suc i) h) s)"
proof -
  let ?s = "put_handle hid (go_to b p es i h) s"
  have i: "i < length es" using assms(3) by simp
  have "GET_NEXT_IE m (ie_off p es i) = ie_off p es (Suc i)" by (rule ib_rep_next [OF assms(2) i])
  moreover have "ie_off p es (Suc i) < GET_END_IE m p"
    using ie_off_less [OF assms(3)] by (simp add: ib_rep_endpos [OF assms(2)])
  moreover have "ie_len m (ie_off p es (Suc i)) \<noteq> 0"
    using ib_rep_size [OF assms(2,3)] esize_ge [of "es ! Suc i"] by auto
  ultimately show ?thesis
    using assms(3) of_nat_ie_off_Suc [OF assms(2) i]
    by (simp add: get_next_ie_def tree_ie_go_to cache_block_bufs [OF assms(1)] ib_rep_end [OF assms(2) i]
        tree_block_put_handle assms(1) Let_def go_to_eqs(2))
qed

lemma get_next_ie_end:
  assumes "cache_block s (h_cache h) = Some (b, m, p)" "ib_rep m p es" "Suc i = length es"
  shows "get_next_ie hid (put_handle hid (go_to b p es i h) s) =
    Some (Inl INDEX_ERR_NEXT_ENTRY, put_handle hid (go_to b p es i h) s)"
  using assms by (simp add: get_next_ie_def tree_ie_go_to cache_block_bufs ib_rep_end)

section \<open>Searching a block\<close>

text \<open>
  \<open>cmp\<close> is the comparison of the entries with the searched key; \<open>below\<close> are the entries that the
  search passes, \<open>stop_at\<close> is the entry it stops at.
\<close>

definition below :: "(ent \<Rightarrow> int) \<Rightarrow> ent \<Rightarrow> bool" where
  "below cmp e \<longleftrightarrow> \<not> eend e \<and> cmp e < 0"

definition stop_at :: "(ent \<Rightarrow> int) \<Rightarrow> ent list \<Rightarrow> nat" where
  "stop_at cmp es = length (takeWhile (below cmp) es)"

definition collates :: "nat \<Rightarrow> container \<Rightarrow> u8 list \<Rightarrow> u8 list \<Rightarrow> (ent \<Rightarrow> int) \<Rightarrow> ent list \<Rightarrow> bool" where
  "collates oid s key value cmp es \<longleftrightarrow> (\<exists>fl. obj_flags oid s = Some fl \<and>
     (\<forall>e \<in> set es. \<not> eend e \<longrightarrow>
        collate_key (fl AND 0xF) (ekey e) (evalue e) key value = Some (cmp e)))"

lemma stop_at_less: "ends_with_end es \<Longrightarrow> stop_at cmp es < length es"
proof -
  assume e: "ends_with_end es"
  then have "last es \<in> set es" "\<not> below cmp (last es)" by (auto simp: ends_with_end_def below_def)
  then have "takeWhile (below cmp) es \<noteq> es" by (metis set_takeWhileD)
  then show ?thesis
    unfolding stop_at_def
    by (metis length_takeWhile_le le_neq_implies_less takeWhile_eq_take take_all_iff order_refl)
qed

lemma stop_at_passed: "i < stop_at cmp es \<Longrightarrow> below cmp (es ! i)"
  by (metis nth_mem set_takeWhileD stop_at_def takeWhile_nth)

lemma stop_at_stop: "stop_at cmp es < length es \<Longrightarrow> \<not> below cmp (es ! stop_at cmp es)"
  unfolding stop_at_def by (rule nth_length_takeWhile)

lemma search_block_steps:
  assumes "cache_block s (h_cache h) = Some (b, m, p)" "ib_rep m p es"
    "collates (h_obj_info h) s key value cmp es" "i \<le> stop_at cmp es"
  shows "search_block hid key value (put_handle hid (go_to b p es i h) s) =
    Some (Inr (\<not> eend (es ! stop_at cmp es) \<and> cmp (es ! stop_at cmp es) = 0),
          put_handle hid (go_to b p es (stop_at cmp es) h) s)"
  using assms(4)
proof (induction "stop_at cmp es - i" arbitrary: i)
  case 0
  then have i: "i = stop_at cmp es" by simp
  have l: "stop_at cmp es < length es" using stop_at_less assms(2) by (simp add: ib_rep_def)
  have en: "eend (es ! i) \<longleftrightarrow> Suc i = length es"
    using ends_with_end_nth [of es i] l i assms(2) by (simp add: ib_rep_def)
  obtain fl where fl: "obj_flags (h_obj_info h) s = Some fl"
    and c: "\<And>e. e \<in> set es \<Longrightarrow> \<not> eend e \<Longrightarrow>
      collate_key (fl AND 0xF) (ekey e) (evalue e) key value = Some (cmp e)"
    using assms(3) by (auto simp: collates_def)
  show ?case
  proof (cases "eend (es ! i)")
    case True
    then show ?thesis
      using i l en by (subst search_block.simps)
        (simp add: tree_ie_go_to cache_block_bufs [OF assms(1)] ib_rep_end [OF assms(2)])
  next
    case False
    have "0 \<le> cmp (es ! i)" using stop_at_stop [OF l] False i by (simp add: below_def)
    then show ?thesis
      using i l en False c [of "es ! i"]
      by (subst search_block.simps)
         (simp add: tree_ie_go_to cache_block_bufs [OF assms(1)] ib_rep_end [OF assms(2)]
           ib_rep_key [OF assms(2)] ib_rep_value [OF assms(2)] attr_flags_obj fl)
  qed
next
  case (Suc n)
  then have i: "i < stop_at cmp es" by simp
  have l: "stop_at cmp es < length es" using stop_at_less assms(2) by (simp add: ib_rep_def)
  have b: "\<not> eend (es ! i)" "cmp (es ! i) < 0" using stop_at_passed [OF i] by (auto simp: below_def)
  obtain fl where fl: "obj_flags (h_obj_info h) s = Some fl"
    and c: "\<And>e. e \<in> set es \<Longrightarrow> \<not> eend e \<Longrightarrow>
      collate_key (fl AND 0xF) (ekey e) (evalue e) key value = Some (cmp e)"
    using assms(3) by (auto simp: collates_def)
  have IH: "search_block hid key value (put_handle hid (go_to b p es (Suc i) h) s) =
    Some (Inr (\<not> eend (es ! stop_at cmp es) \<and> cmp (es ! stop_at cmp es) = 0),
          put_handle hid (go_to b p es (stop_at cmp es) h) s)"
    by (rule Suc.hyps(1)) (use Suc.hyps(2) i in auto)
  show ?case
    using i l b c [of "es ! i"]
    by (subst search_block.simps)
       (simp add: tree_ie_go_to cache_block_bufs [OF assms(1)] ib_rep_end [OF assms(2)]
         ib_rep_key [OF assms(2)] ib_rep_value [OF assms(2)] attr_flags_obj fl
         get_next_ie_go_to [OF assms(1,2)] IH)
qed

end
