(* ===== verification/TreeWalk.thy ===== *)
theory TreeWalk
  imports Cursor
begin

text \<open>
  Trees of cached blocks of any height: a cursor of the code is the path from the root to an entry, and
  what is left to walk from it is a list of entries. Searching, walking forward and counting are shown
  on these lists. The blocks are in the object's cache, so reading one is a cache hit.
\<close>

section \<open>Trees of blocks\<close>

datatype bt = Bt "ent list" "bt list"

text \<open>\<open>cached s oid v c\<close>: block \<open>v\<close> of the object is in cache \<open>c\<close>.\<close>

definition cached :: "container \<Rightarrow> nat \<Rightarrow> u64 \<Rightarrow> nat \<Rightarrow> bool" where
  "cached s oid v c \<longleftrightarrow> (\<exists>x pos. objs s oid = Some x \<and>
     avl_find (oi_caches x) (compare_cache2 s v) = Some (Found pos) \<and> pos_data pos = c)"

text \<open>
  The tree at cache \<open>c\<close>: a block without children, or one with a child for each entry, cached
  under the entry's block number, which is not the block's own.
\<close>

inductive tree_rep :: "container \<Rightarrow> nat \<Rightarrow> nat \<Rightarrow> bt \<Rightarrow> bool" for s oid where
  leaf: "cache_block s c = Some (b, m, p) \<Longrightarrow> ib_rep m p es \<Longrightarrow> \<forall>e \<in> set es. echild e = None \<Longrightarrow>
    tree_rep s oid c (Bt es [])"
| node: "cache_block s c = Some (b, m, p) \<Longrightarrow> ib_rep m p es \<Longrightarrow> length ts = length es \<Longrightarrow>
    caches s c = Some k \<Longrightarrow>
    (\<And>i. i < length es \<Longrightarrow> \<exists>v c'. echild (es ! i) = Some v \<and> c_vbn k \<noteq> v \<and> cached s oid v c' \<and>
       tree_rep s oid c' (ts ! i)) \<Longrightarrow>
    tree_rep s oid c (Bt es ts)"

inductive_cases tree_repE: "tree_rep s oid c (Bt es ts)"

lemma ib_rep_ne: "ib_rep m p es \<Longrightarrow> es \<noteq> []"
  by (simp add: ib_rep_def ends_with_end_def)

lemma ib_rep_Nil [simp]: "\<not> ib_rep m p []"
  using ib_rep_ne by blast

lemma tree_rep_block:
  assumes "tree_rep s oid c (Bt es ts)"
  obtains b m p where "cache_block s c = Some (b, m, p)" "ib_rep m p es"
  using assms by (auto elim: tree_repE)

lemma tree_rep_child:
  assumes "tree_rep s oid c (Bt es ts)" "ts \<noteq> []" "i < length es"
  obtains v c' k where "echild (es ! i) = Some v" "caches s c = Some k" "c_vbn k \<noteq> v" "cached s oid v c'"
    "tree_rep s oid c' (ts ! i)" "i < length ts"
  using assms by (elim tree_repE) (auto, metis)

lemma tree_rep_leaf: "tree_rep s oid c (Bt es []) \<Longrightarrow> i < length es \<Longrightarrow> echild (es ! i) = None"
  by (elim tree_repE) (auto simp: ib_rep_ne)

text \<open>The entries of a tree in order, without the end entries, and its height.\<close>

function bt_entries :: "bt \<Rightarrow> ent list" where
  "bt_entries (Bt es ts) =
     (if ts = [] then filter (\<lambda>e. \<not> eend e) es
      else concat (map (\<lambda>(t, e). bt_entries t @ (if eend e then [] else [e])) (zip ts es)))"
  by pat_completeness auto
termination
  by (relation "measure size") (auto dest!: set_zip_leftD simp: less_Suc_eq_le intro: size_list_estimation')

fun bt_height :: "bt \<Rightarrow> nat" where
  "bt_height (Bt es ts) = (if ts = [] then 0 else Suc (Max (set (map bt_height ts))))"

declare bt_height.simps [simp del]

lemma bt_height_child:
  assumes "i < length ts" shows "bt_height (ts ! i) < bt_height (Bt es ts)"
proof -
  have "bt_height (ts ! i) \<le> Max (bt_height ` set ts)" using assms by (intro Max_ge) auto
  then show ?thesis using assms by (auto simp: bt_height.simps less_Suc_eq_le)
qed

text \<open>
  What is left in a block from entry \<open>i\<close> on, when the child of \<open>i\<close> is done, and when it is not.
\<close>

fun after :: "ent list \<Rightarrow> bt list \<Rightarrow> ent list" where
  "after [] ts = []"
| "after (e # es) [] = (if eend e then [] else [e]) @ after es []"
| "after (e # es) (t # ts) = (if eend e then [] else [e]) @
     (if ts = [] then [] else bt_entries (hd ts)) @ after es ts"

definition rest_at :: "ent list \<Rightarrow> bt list \<Rightarrow> nat \<Rightarrow> ent list" where
  "rest_at es ts i = after (drop i es) (drop i ts)"

definition enter_at :: "ent list \<Rightarrow> bt list \<Rightarrow> nat \<Rightarrow> ent list" where
  "enter_at es ts i = (if ts = [] then [] else bt_entries (ts ! i)) @ rest_at es ts i"

lemma after_leaf: "after es [] = filter (\<lambda>e. \<not> eend e) es"
  by (induction es) auto

lemma after_node:
  "length ts = length es \<Longrightarrow> es \<noteq> [] \<Longrightarrow>
   bt_entries (hd ts) @ after es ts =
   concat (map (\<lambda>(t, e). bt_entries t @ (if eend e then [] else [e])) (zip ts es))"
proof (induction es arbitrary: ts)
  case Nil
  then show ?case by simp
next
  case (Cons e es)
  then obtain t ts' where ts: "ts = t # ts'" "length ts' = length es" by (cases ts) auto
  show ?case
  proof (cases es)
    case Nil
    then show ?thesis using ts by simp
  next
    case (Cons e' es')
    then show ?thesis using Cons.IH [of ts'] ts by auto
  qed
qed

lemma bt_entries_enter:
  assumes "tree_rep s oid c (Bt es ts)" shows "bt_entries (Bt es ts) = enter_at es ts 0"
proof (cases "ts = []")
  case True
  then show ?thesis by (simp add: enter_at_def rest_at_def after_leaf)
next
  case False
  then have "length ts = length es" using assms by (auto elim: tree_repE)
  moreover have "es \<noteq> []" using assms by (auto elim: tree_repE simp: ib_rep_ne)
  ultimately show ?thesis
    using False after_node [of ts es] by (simp add: enter_at_def rest_at_def hd_conv_nth)
qed

lemma rest_at_next:
  assumes "i < length es" "ts = [] \<or> length ts = length es" "Suc i < length es"
  shows "rest_at es ts i = (if eend (es ! i) then [] else [es ! i]) @ enter_at es ts (Suc i)"
proof (cases "ts = []")
  case True
  then show ?thesis
    using assms(1) by (simp add: rest_at_def enter_at_def Cons_nth_drop_Suc [symmetric])
next
  case False
  then have l: "length ts = length es" using assms(2) by simp
  have "drop i ts = ts ! i # drop (Suc i) ts" using assms(1) l by (simp add: Cons_nth_drop_Suc)
  moreover have "drop (Suc i) ts \<noteq> []" using assms(3) l by simp
  moreover have "hd (drop (Suc i) ts) = ts ! Suc i" using assms(3) l by (simp add: hd_drop_conv_nth)
  ultimately show ?thesis
    using assms(1) False by (simp add: rest_at_def enter_at_def Cons_nth_drop_Suc [symmetric])
qed

lemma rest_at_last: "Suc i = length es \<Longrightarrow> ts = [] \<or> length ts = length es \<Longrightarrow>
  rest_at es ts i = (if eend (es ! i) then [] else [es ! i])"
  by (cases "ts = []")
     (auto simp: rest_at_def Cons_nth_drop_Suc [symmetric])

section \<open>Cursors\<close>

text \<open>A step of the path: cache, entries, children and the entry the path goes through.\<close>

type_synonym frame4 = "nat \<times> ent list \<times> bt list \<times> nat"

fun step_ok :: "container \<Rightarrow> nat \<Rightarrow> object_handle \<Rightarrow> nat \<Rightarrow> frame4 \<Rightarrow> bool" where
  "step_ok s oid h d (c, es, ts, i) \<longleftrightarrow>
     tree_rep s oid c (Bt es ts) \<and> i < length es \<and> d + bt_height (Bt es ts) \<le> 15 \<and>
     h_cache_stack h d = c \<and>
     h_position_stack h d = of_nat (33 + esizes (take i es))"

fun path_ok :: "container \<Rightarrow> nat \<Rightarrow> object_handle \<Rightarrow> frame4 list \<Rightarrow> bool" where
  "path_ok s oid h [] \<longleftrightarrow> True"
| "path_ok s oid h (f # fs) \<longleftrightarrow> step_ok s oid h (length fs) f \<and> path_ok s oid h fs"

fun cursor :: "container \<Rightarrow> nat \<Rightarrow> object_handle \<Rightarrow> frame4 list \<Rightarrow> frame4 \<Rightarrow> bool" where
  "cursor s oid h fs (c, es, ts, i) \<longleftrightarrow>
     tree_rep s oid c (Bt es ts) \<and> i < length es \<and> length fs + bt_height (Bt es ts) \<le> 15 \<and>
     h_obj_info h = oid \<and> h_depth h = length fs \<and>
     h_cache h = c \<and> h_cache_stack h (length fs) = c \<and>
     (\<exists>b m p. cache_block s c = Some (b, m, p) \<and> h = go_to b p es i h) \<and> path_ok s oid h fs"

fun frame_rest :: "frame4 \<Rightarrow> ent list" where
  "frame_rest (c, es, ts, i) = rest_at es ts i"

fun frame_enter :: "frame4 \<Rightarrow> ent list" where
  "frame_enter (c, es, ts, i) = enter_at es ts i"

definition frames_rest :: "frame4 list \<Rightarrow> ent list" where
  "frames_rest fs = concat (map frame_rest fs)"

lemma frames_rest_simps [simp]:
  "frames_rest [] = []" "frames_rest (f # fs) = frame_rest f @ frames_rest fs"
  by (simp_all add: frames_rest_def)

lemma cursorE:
  assumes "cursor s oid h fs (c, es, ts, i)"
  obtains b m p where "tree_rep s oid c (Bt es ts)" "i < length es" "h_obj_info h = oid"
    "h_depth h = length fs" "h_cache h = c" "h_cache_stack h (length fs) = c"
    "cache_block s (h_cache h) = Some (b, m, p)" "h = go_to b p es i h" "path_ok s oid h fs"
    "ib_rep m p es" "length fs + bt_height (Bt es ts) \<le> 15"
proof -
  obtain b m p where c: "cache_block s c = Some (b, m, p)" "h = go_to b p es i h"
    and r: "tree_rep s oid c (Bt es ts)" "h_cache h = c" using assms by auto
  have "ib_rep m p es" using tree_rep_block [OF r(1)] c(1) by fastforce
  then show ?thesis using assms c that [of b m p] by simp
qed

lemma tree_rep_lengths: "tree_rep s oid c (Bt es ts) \<Longrightarrow> ts = [] \<or> length ts = length es"
  by (auto elim: tree_repE)

lemma tree_rep_node_iff:
  "tree_rep s oid c (Bt es ts) \<Longrightarrow> i < length es \<Longrightarrow> echild (es ! i) \<noteq> None \<longleftrightarrow> ts \<noteq> []"
  by (metis tree_rep_child tree_rep_leaf option.distinct(1))

lemma tree_rep_end: "tree_rep s oid c (Bt es ts) \<Longrightarrow> i < length es \<Longrightarrow> eend (es ! i) \<longleftrightarrow> Suc i = length es"
  by (metis ends_with_end_nth ib_rep_def tree_rep_block)

text \<open>The kind of the entry under the cursor.\<close>

lemma cursor_test:
  assumes "cursor s oid h fs (c, es, ts, i)"
  shows "ie_test ENTRY_NODE hid (put_handle hid h s) = Some (ts \<noteq> [])"
    "ie_test ENTRY_END hid (put_handle hid h s) = Some (Suc i = length es)"
    "ie_test (ENTRY_END OR ENTRY_BEGIN) hid (put_handle hid h s) = Some (Suc i = length es)"
proof -
  from assms obtain b m p where 1: "tree_rep s oid c (Bt es ts)" "i < length es"
    "cache_block s (h_cache h) = Some (b, m, p)" "h = go_to b p es i h" "ib_rep m p es"
    by (rule cursorE)
  have b: "bufs s b = Some m" by (rule cache_block_bufs [OF 1(3)])
  have t: "ie_test f hid (put_handle hid h s) = Some (ie_is f m (ie_off p es i))" for f
    by (subst 1(4)) (rule ie_test_go_to [OF b])
  have fl: "ie_flags m (ie_off p es i) = ent_flags (es ! i)"
    by (rule ent_at_fields(5) [OF ib_rep_nth [OF 1(5,2)]])
  show "ie_test ENTRY_NODE hid (put_handle hid h s) = Some (ts \<noteq> [])"
    using tree_rep_node_iff [OF 1(1,2)] by (simp only: t ib_rep_node [OF 1(5,2)])
  show "ie_test ENTRY_END hid (put_handle hid h s) = Some (Suc i = length es)"
    by (simp add: t ib_rep_end [OF 1(5,2)])
  have "ie_is (ENTRY_END OR ENTRY_BEGIN) m (ie_off p es i) \<longleftrightarrow> eend (es ! i)"
    by (auto simp: ie_is_def fl has_flag_def ent_flags_def ENTRY_NODE_def ENTRY_END_def ENTRY_BEGIN_def)
  then show "ie_test (ENTRY_END OR ENTRY_BEGIN) hid (put_handle hid h s) = Some (Suc i = length es)"
    by (simp add: t tree_rep_end [OF 1(1,2)])
qed

section \<open>Moving between blocks\<close>

lemma compare_cache2_put_handle [simp]: "compare_cache2 (put_handle hid h s) v = compare_cache2 s v"
  by (simp add: compare_cache2_def fun_eq_iff)

lemma path_ok_cong:
  "(\<And>d. d < length fs \<Longrightarrow> h_cache_stack h' d = h_cache_stack h d \<and> h_position_stack h' d = h_position_stack h d) \<Longrightarrow>
   path_ok s oid h' fs \<longleftrightarrow> path_ok s oid h fs"
proof (induction fs)
  case Nil
  then show ?case by simp
next
  case (Cons f fs)
  have "path_ok s oid h' fs \<longleftrightarrow> path_ok s oid h fs" by (rule Cons.IH) (simp add: Cons.prems)
  moreover have "step_ok s oid h' (length fs) f \<longleftrightarrow> step_ok s oid h (length fs) f"
    using Cons.prems [of "length fs"] by (cases f) simp
  ultimately show ?case by simp
qed

lemma index_block_read_hit:
  assumes "caches s (h_cache h) = Some k" "c_vbn k \<noteq> v" "cached s (h_obj_info h) v c'"
  shows "index_block_read hid v magic (put_handle hid h s) =
    Some (Inr (), put_handle hid (h\<lparr> h_cache := c' \<rparr>) s)"
  using assms by (auto simp: index_block_read_def index_block_read2_def cached_def)

lemma get_first_ie_go_to:
  assumes "cache_block s (h_cache h) = Some (b, m, p)" "ib_rep m p es"
  shows "get_first_ie hid (put_handle hid h s) = Some (put_handle hid (go_to b p es 0 h) s)"
proof -
  have "GET_FIRST_IE m p = ie_off p es 0" by (rule ib_rep_first [OF assms(2)])
  moreover have "(ucast (ib_first_entry_off m p) :: u64) = of_nat (ie_off p es 0 - p)"
    using assms(2) by (simp add: ib_rep_def)
  ultimately show ?thesis
    by (simp add: get_first_ie_def tree_block_put_handle [OF assms(1)] go_to_def)
qed

lemma has_flag_or: "has_flag fl (f OR g) \<longleftrightarrow> has_flag fl f \<or> has_flag fl g"
  by (auto simp: has_flag_def bit_eq_iff bit_simps)

lemma push_cursor:
  assumes cur: "cursor s oid h fs (c, es, ts, i)" and ts: "ts \<noteq> []" "ts ! i = Bt es' ts'"
    and fl: "\<not> has_flag flags (INDEX_GET_LAST OR INDEX_GET_PREV)"
  shows "\<exists>h' c'. push_cache_stack hid flags (put_handle hid h s) = Some (Inr (), put_handle hid h' s) \<and>
    cursor s oid h' ((c, es, ts, i) # fs) (c', es', ts', 0) \<and>
    (\<exists>v. echild (es ! i) = Some v \<and> cached s oid v c')"
proof -
  from cur obtain b m p where 1: "tree_rep s oid c (Bt es ts)" "i < length es" "h_obj_info h = oid"
    "h_depth h = length fs" "h_cache h = c" "h_cache_stack h (length fs) = c"
    "cache_block s (h_cache h) = Some (b, m, p)" "h = go_to b p es i h" "path_ok s oid h fs"
    "ib_rep m p es" "length fs + bt_height (Bt es ts) \<le> 15" by (rule cursorE)
  from tree_rep_child [OF 1(1) ts(1) 1(2)] obtain v c' k where
    2: "echild (es ! i) = Some v" "caches s c = Some k" "c_vbn k \<noteq> v" "cached s oid v c'"
    "tree_rep s oid c' (Bt es' ts')" using ts(2) by metis
  from tree_rep_block [OF 2(5)] obtain b' m' p' where
    3: "cache_block s c' = Some (b', m', p')" "ib_rep m' p' es'" by blast
  have ie: "tree_ie hid (put_handle hid h s) = Some (m, ie_off p es i)"
    using tree_ie_go_to [OF cache_block_bufs [OF 1(7)], of hid p es i h] 1(8) by simp
  have vbn: "GET_IE_VBN m (ie_off p es i) = v" by (rule ib_rep_vbn [OF 1(10,2) 2(1)])
  have rd: "index_block_read hid v INDEX_MAGIC (put_handle hid h s) =
      Some (Inr (), put_handle hid (h\<lparr> h_cache := c' \<rparr>) s)"
    by (rule index_block_read_hit) (use 1 2 in simp_all)
  have "i < length ts" using tree_rep_lengths [OF 1(1)] ts(1) 1(2) by auto
  then have bh: "length fs + Suc (bt_height (Bt es' ts')) \<le> 15"
    using bt_height_child [of i ts es] ts(2) 1(11) by simp
  then have d: "length fs < 15" by simp
  let ?h1 = "h\<lparr> h_cache := c', h_position_stack := (h_position_stack h)(length fs := h_position h),
    h_depth := length fs + 1, h_cache_stack := (h_cache_stack h)(length fs + 1 := c') \<rparr>"
  let ?h2 = "if \<not> has_flag (ib_node_type m' p') BLOCK_LARGE \<and> h_max_depth ?h1 \<noteq> h_depth ?h1
    then ?h1\<lparr> h_max_depth := h_depth ?h1 \<rparr> else ?h1"
  have gf: "get_first_ie hid (put_handle hid h0 s) = Some (put_handle hid (go_to b' p' es' 0 h0) s)"
    if "h_cache h0 = c'" for h0 using that 3 by (simp add: get_first_ie_go_to)
  have step: "push_cache_stack hid flags (put_handle hid h s) =
      Some (Inr (), put_handle hid (go_to b' p' es' 0 ?h2) s)"
    using d fl tree_block_put_handle [of s "h\<lparr> h_cache := c' \<rparr>" b' m' p' hid] 3(1)
    by (simp add: push_cache_stack_def ie vbn rd 1(4) TREE_MAX_DEPTH_def Let_def gf)
  have pos: "h_position h = of_nat (33 + esizes (take i es))"
    using arg_cong [OF 1(8), of h_position] by (simp add: ie_off_diff)
  have "path_ok s oid (go_to b' p' es' 0 ?h2) fs"
    using 1(9) path_ok_cong [of fs "go_to b' p' es' 0 ?h2" h s oid] by simp
  moreover have "step_ok s oid (go_to b' p' es' 0 ?h2) (length fs) (c, es, ts, i)"
    using 1 pos by simp
  moreover have "0 < length es'" using 3(2) by (cases es') auto
  ultimately have "cursor s oid (go_to b' p' es' 0 ?h2) ((c, es, ts, i) # fs) (c', es', ts', 0)"
    using 1(3) 2(5) 3 bh by auto
  with step 2(1,4) show ?thesis by blast
qed

lemma ib_rep_pos_bound:
  assumes "ib_rep m p es" shows "33 + esizes (take i es) < 2 ^ 32"
proof -
  have "esizes es = esizes (take i es) + esizes (drop i es)"
    by (metis append_take_drop_id esizes_simps(3))
  then show ?thesis using assms by (simp add: ib_rep_def)
qed

lemma unat_of_nat_u64: "n < 2 ^ 64 \<Longrightarrow> unat (of_nat n :: u64) = n"
  by (simp add: unat_of_nat)

lemma pop_cursor:
  assumes cur: "cursor s oid h ((c, es, ts, i) # fs) cur" and fl: "\<not> has_flag flags INDEX_GET_PREV"
  shows "\<exists>h'. pop_cache_stack hid flags (put_handle hid h s) = Some (Inr False, put_handle hid h' s) \<and>
    cursor s oid h' fs (c, es, ts, i)"
proof -
  obtain c0 es0 ts0 i0 where c0: "cur = (c0, es0, ts0, i0)" by (metis prod.exhaust)
  from cur have 1: "h_depth h = Suc (length fs)" "h_obj_info h = oid" "length fs + bt_height (Bt es ts) \<le> 15"
    "tree_rep s oid c (Bt es ts)" "i < length es" "h_cache_stack h (length fs) = c"
    "h_position_stack h (length fs) = of_nat (33 + esizes (take i es))" "path_ok s oid h fs"
    by (auto simp: c0)
  from tree_rep_block [OF 1(4)] obtain b m p where
    2: "cache_block s c = Some (b, m, p)" "ib_rep m p es" by blast
  then obtain k where k: "caches s c = Some k" "c_ib k = (b, p)"
    by (auto simp: cache_block_def bind_eq_Some_conv prod_eq_iff)
  let ?h1 = "h\<lparr> h_depth := length fs, h_cache := c \<rparr>"
  have "unat (of_nat (33 + esizes (take i es)) :: u64) = 33 + esizes (take i es)"
    using ib_rep_pos_bound [OF 2(2), of i] by (intro unat_of_nat_u64) simp
  then have "pop_cache_stack hid flags (put_handle hid h s) =
      Some (Inr False, put_handle hid (go_to b p es i ?h1) s)"
    using fl 1 k by (simp add: pop_cache_stack_def Let_def go_to_eqs(2) [symmetric] ie_off_diff)
      (simp add: ie_off_def add.assoc)
  moreover have "cursor s oid (go_to b p es i ?h1) fs (c, es, ts, i)"
    using 1 2 path_ok_cong [of fs "go_to b p es i ?h1" h s oid] by auto
  ultimately show ?thesis by blast
qed

lemma pop_root:
  assumes "cursor s oid h [] cur"
  shows "pop_cache_stack hid flags (put_handle hid h s) = Some (Inl INDEX_ERR_ROOT, put_handle hid h s)"
  using assms by (cases cur) (simp add: pop_cache_stack_def)

section \<open>Walking forward\<close>

fun frame_at :: "frame4 \<Rightarrow> nat \<Rightarrow> frame4" where
  "frame_at (c, es, ts, i) j = (c, es, ts, j)"

lemma next_cursor:
  assumes cur: "cursor s oid h fs (c, es, ts, i)" and i: "Suc i < length es"
  shows "\<exists>h'. get_next_ie hid (put_handle hid h s) = Some (Inr (), put_handle hid h' s) \<and>
    cursor s oid h' fs (c, es, ts, Suc i)"
proof -
  from cur obtain b m p where 1: "tree_rep s oid c (Bt es ts)" "i < length es" "h_obj_info h = oid"
    "h_depth h = length fs" "h_cache h = c" "h_cache_stack h (length fs) = c"
    "cache_block s (h_cache h) = Some (b, m, p)" "h = go_to b p es i h" "path_ok s oid h fs"
    "ib_rep m p es" "length fs + bt_height (Bt es ts) \<le> 15" by (rule cursorE)
  have "get_next_ie hid (put_handle hid h s) = Some (Inr (), put_handle hid (go_to b p es (Suc i) h) s)"
    using get_next_ie_go_to [OF 1(7,10) i, of hid] 1(8) by simp
  moreover have "cursor s oid (go_to b p es (Suc i) h) fs (c, es, ts, Suc i)"
    using 1 i path_ok_cong [of fs "go_to b p es (Suc i) h" h s oid] by auto
  ultimately show ?thesis by blast
qed

lemma next_cursor_end:
  assumes cur: "cursor s oid h fs (c, es, ts, i)" and i: "Suc i = length es"
  shows "get_next_ie hid (put_handle hid h s) = Some (Inl INDEX_ERR_NEXT_ENTRY, put_handle hid h s)"
proof -
  from cur obtain b m p where 1: "cache_block s (h_cache h) = Some (b, m, p)" "h = go_to b p es i h"
    "ib_rep m p es" "length fs + bt_height (Bt es ts) \<le> 15" by (rule cursorE)
  show ?thesis using get_next_ie_end [OF 1(1,3) i, of hid] 1(2) by simp
qed

text \<open>Down to a leaf: what is left to walk stays the same, the cursor ends in a block without children.\<close>

lemma down_to_leaf_cursor:
  assumes "cursor s oid h fs (c, es, ts, i)"
    and fl: "\<not> has_flag flags (INDEX_GET_LAST OR INDEX_GET_PREV)"
  shows "\<exists>h' fs' c' es' i'. down_to_leaf hid flags (put_handle hid h s) = Some (Inr (), put_handle hid h' s) \<and>
    cursor s oid h' fs' (c', es', [], i') \<and>
    rest_at es' [] i' @ frames_rest fs' = enter_at es ts i @ frames_rest fs"
  using assms(1)
proof (induction "if ts = [] then 0 else Suc (bt_height (ts ! i))" arbitrary: h fs c es ts i rule: less_induct)
  case less
  show ?case
  proof (cases "ts = []")
    case True
    have "down_to_leaf hid flags (put_handle hid h s) = Some (Inr (), put_handle hid h s)"
      using cursor_test(1) [OF less.prems] True by (subst down_to_leaf.simps) simp
    moreover have "rest_at es [] i @ frames_rest fs = enter_at es ts i @ frames_rest fs"
      using True by (simp add: enter_at_def)
    ultimately show ?thesis using less.prems True by blast
  next
    case False
    obtain es' ts' where t: "ts ! i = Bt es' ts'" by (metis bt.exhaust)
    obtain h1 c1 where p: "push_cache_stack hid flags (put_handle hid h s) = Some (Inr (), put_handle hid h1 s)"
      and c1: "cursor s oid h1 ((c, es, ts, i) # fs) (c1, es', ts', 0)"
      using push_cursor [OF less.prems False t fl, of hid] by blast
    have r: "tree_rep s oid c1 (Bt es' ts')" using c1 by simp
    have lt: "(if ts' = [] then 0 else Suc (bt_height (ts' ! 0))) \<le> bt_height (Bt es' ts')"
      using bt_height_child [of 0 ts' es'] by (auto simp: Suc_le_eq)
    have rest: "enter_at es' ts' 0 @ frames_rest ((c, es, ts, i) # fs) = enter_at es ts i @ frames_rest fs"
      using bt_entries_enter [OF r] t False by (simp add: enter_at_def [of es])
    have eq: "down_to_leaf hid flags (put_handle hid h s) = down_to_leaf hid flags (put_handle hid h1 s)"
      using cursor_test(1) [OF less.prems, of hid] False p
      by (subst down_to_leaf.simps) simp
    show ?thesis unfolding eq rest [symmetric]
      by (rule less.hyps [OF _ c1]) (use lt t False in auto)
  qed
qed

text \<open>Up from the ends of blocks, to the next entry or, from the end of the root, to an error.\<close>

lemma rest_at_end: "cursor s oid h fs (c, es, ts, i) \<Longrightarrow> Suc i = length es \<Longrightarrow> rest_at es ts i = []"
  using tree_rep_end [of s oid c es ts i] tree_rep_lengths [of s oid c es ts]
  by (simp add: rest_at_last)

lemma rest_at_hd:
  assumes "cursor s oid h fs (c, es, ts, i)" "Suc i \<noteq> length es"
  shows "rest_at es ts i = es ! i # enter_at es ts (Suc i)"
proof -
  have "tree_rep s oid c (Bt es ts)" "i < length es" using assms(1) by auto
  then show ?thesis
    using assms(2) tree_rep_end [of s oid c es ts i] tree_rep_lengths [of s oid c es ts]
    by (simp add: rest_at_next)
qed

text \<open>\<open>on_list s oid h xs\<close>: the cursor is on the first of \<open>xs\<close>, the entries left to walk.\<close>

definition on_list :: "container \<Rightarrow> nat \<Rightarrow> object_handle \<Rightarrow> ent list \<Rightarrow> bool" where
  "on_list s oid h xs \<longleftrightarrow> (\<exists>fs c es ts i. cursor s oid h fs (c, es, ts, i) \<and> Suc i \<noteq> length es \<and>
     rest_at es ts i @ frames_rest fs = xs)"

lemma on_list_ne: "on_list s oid h xs \<Longrightarrow> xs \<noteq> []"
  using rest_at_hd unfolding on_list_def by (metis append_is_Nil_conv list.distinct(1))

text \<open>The flags of the forward walks.\<close>

definition forward :: "u8 \<Rightarrow> bool" where
  "forward flags \<longleftrightarrow> \<not> has_flag flags INDEX_GET_LAST \<and> \<not> has_flag flags INDEX_GET_PREV \<and>
     \<not> has_flag flags INDEX_REMOVE_BLOCK"

lemma forward_simps [simp]:
  "forward flags \<Longrightarrow> \<not> has_flag flags (INDEX_GET_LAST OR INDEX_GET_PREV)"
  "forward flags \<Longrightarrow> add_or_remove_ib ops hid flags s = Some (Inr (), s)"
  "forward 0" "forward INDEX_GET_FIRST" "forward INDEX_GET_CURRENT"
  by (simp add: forward_def has_flag_or, simp add: forward_def add_or_remove_ib_def,
      simp_all add: forward_def has_flag_def walk_flag_defs)

lemma up_from_ends_cursor:
  assumes "cursor s oid h fs (c, es, ts, i)" and fl: "forward flags"
    and xs: "rest_at es ts i @ frames_rest fs = xs"
  shows "\<exists>h' r. up_from_ends ops hid flags (put_handle hid h s) = Some (r, put_handle hid h' s) \<and>
    (if xs = [] then r = Inl INDEX_ERR_ROOT else r = Inr () \<and> on_list s oid h' xs)"
  using assms(1) xs
proof (induction fs arbitrary: h c es ts i)
  case Nil
  show ?case
  proof (cases "Suc i = length es")
    case True
    have "up_from_ends ops hid flags (put_handle hid h s) = Some (Inl INDEX_ERR_ROOT, put_handle hid h s)"
      using cursor_test(3) [OF Nil.prems(1), of hid] True fl pop_root [OF Nil.prems(1), of hid flags]
      by (subst up_from_ends.simps) simp
    moreover have "xs = []" using rest_at_end [OF Nil.prems(1) True] Nil.prems(2) by simp
    ultimately show ?thesis by auto
  next
    case False
    have "up_from_ends ops hid flags (put_handle hid h s) = Some (Inr (), put_handle hid h s)"
      using cursor_test(3) [OF Nil.prems(1), of hid] False by (subst up_from_ends.simps) simp
    moreover have "on_list s oid h xs" using Nil.prems False unfolding on_list_def by blast
    ultimately show ?thesis using on_list_ne by auto
  qed
next
  case (Cons f fs)
  obtain c0 es0 ts0 i0 where f: "f = (c0, es0, ts0, i0)" by (metis prod.exhaust)
  show ?case
  proof (cases "Suc i = length es")
    case True
    obtain h1 where p: "pop_cache_stack hid flags (put_handle hid h s) = Some (Inr False, put_handle hid h1 s)"
      and c1: "cursor s oid h1 fs (c0, es0, ts0, i0)"
      using pop_cursor [OF Cons.prems(1) [unfolded f], of flags hid] fl by (auto simp: forward_def)
    have "up_from_ends ops hid flags (put_handle hid h s) = up_from_ends ops hid flags (put_handle hid h1 s)"
      using cursor_test(3) [OF Cons.prems(1), of hid] True fl p by (subst up_from_ends.simps) simp
    moreover have "rest_at es0 ts0 i0 @ frames_rest fs = xs"
      using rest_at_end [OF Cons.prems(1) True] Cons.prems(2) f by simp
    ultimately show ?thesis using Cons.IH [OF c1] by simp
  next
    case False
    have "up_from_ends ops hid flags (put_handle hid h s) = Some (Inr (), put_handle hid h s)"
      using cursor_test(3) [OF Cons.prems(1), of hid] False by (subst up_from_ends.simps) simp
    moreover have "on_list s oid h xs" using Cons.prems False unfolding on_list_def by blast
    ultimately show ?thesis using on_list_ne by auto
  qed
qed

lemma get_current_ie_cursor:
  assumes "cursor s oid h fs (c, es, ts, i)" "forward flags" "enter_at es ts i @ frames_rest fs = xs"
  shows "\<exists>h' r. get_current_ie ops hid flags (put_handle hid h s) = Some (r, put_handle hid h' s) \<and>
    (if xs = [] then r = Inl INDEX_ERR_ROOT else r = Inr () \<and> on_list s oid h' xs)"
proof -
  obtain h1 fs1 c1 es1 i1 where
    1: "down_to_leaf hid flags (put_handle hid h s) = Some (Inr (), put_handle hid h1 s)"
    "cursor s oid h1 fs1 (c1, es1, [], i1)" "rest_at es1 [] i1 @ frames_rest fs1 = xs"
    using down_to_leaf_cursor [OF assms(1), of flags hid] assms(2,3) by auto
  show ?thesis
    using up_from_ends_cursor [OF 1(2) assms(2) 1(3), of ops hid] 1(1) by (simp add: get_current_ie_def)
qed

lemma on_list_obj: "on_list s oid h xs \<Longrightarrow> h_obj_info h = oid"
  by (auto simp: on_list_def)

text \<open>
  Walking on: the next entry, or an error at the end, where the error of the end of the root is
  \<open>INDEX_ERR_ROOT\<close>.
\<close>

definition is_table :: "nat \<Rightarrow> container \<Rightarrow> bool" where
  "is_table oid s \<longleftrightarrow> (\<exists>fl. obj_flags oid s = Some fl \<and> fl AND FLAG_TABLE \<noteq> 0)"

lemma assert_table_put_handle:
  "is_table (h_obj_info h) s \<Longrightarrow> assert_table hid (put_handle hid h s) = Some ()"
  using attr_flags_obj [of "put_handle hid h s" hid h] by (auto simp: assert_table_def is_table_def)

definition plain_next :: "u8 \<Rightarrow> bool" where
  "plain_next flags \<longleftrightarrow> forward flags \<and> \<not> has_flag flags INDEX_GET_FIRST \<and> \<not> has_flag flags INDEX_GET_CURRENT"

lemma plain_next_0 [simp]: "plain_next 0"
  by (simp add: plain_next_def) (simp add: has_flag_def)

lemma walk_tree_next:
  assumes "on_list s oid h (e # xs)" "is_table oid s" "plain_next flags"
  shows "\<exists>h' r. walk_tree ops hid flags (put_handle hid h s) = Some (r, put_handle hid h' s) \<and>
    (if xs = [] then r = Inl INDEX_ERR_ROOT else r = Inr () \<and> on_list s oid h' xs)"
proof -
  obtain fs c es ts i where c: "cursor s oid h fs (c, es, ts, i)" "Suc i \<noteq> length es"
    "rest_at es ts i @ frames_rest fs = e # xs" using assms(1) by (auto simp: on_list_def)
  have i: "Suc i < length es" using c(1,2) by auto
  obtain h1 where 1: "get_next_ie hid (put_handle hid h s) = Some (Inr (), put_handle hid h1 s)"
    "cursor s oid h1 fs (c, es, ts, Suc i)" using next_cursor [OF c(1) i] by blast
  have "enter_at es ts (Suc i) @ frames_rest fs = xs"
    using rest_at_hd [OF c(1,2)] c(3) by simp
  then show ?thesis
    using get_current_ie_cursor [OF 1(2), of flags xs ops hid] 1(1)
      assert_table_put_handle [of h s hid] assms(2,3) on_list_obj [OF assms(1)]
    by (simp add: walk_tree_def has_flag_or plain_next_def forward_def)
qed

lemma on_list_entry:
  assumes "on_list s oid h (e # xs)"
  shows "\<exists>m q. tree_ie hid (put_handle hid h s) = Some (m, q) \<and> GET_IE_KEY m q = ekey e \<and>
    GET_IE_VALUE m q = evalue e \<and> unat (ie_len m q) = esize e \<and> \<not> ie_is ENTRY_END m q"
proof -
  obtain fs c es ts i where c: "cursor s oid h fs (c, es, ts, i)" "Suc i \<noteq> length es"
    "rest_at es ts i @ frames_rest fs = e # xs" using assms(1) by (auto simp: on_list_def)
  from c(1) obtain b m p where 1: "i < length es" "cache_block s (h_cache h) = Some (b, m, p)"
    "h = go_to b p es i h" "ib_rep m p es" by (rule cursorE)
  have e: "es ! i = e" using rest_at_hd [OF c(1,2)] c(3) by simp
  have ie: "tree_ie hid (put_handle hid h s) = Some (m, ie_off p es i)"
    using tree_ie_go_to [OF cache_block_bufs [OF 1(2)], of hid p es i h] 1(3) by simp
  show ?thesis
    using ie ib_rep_key [OF 1(4,1)] ib_rep_value [OF 1(4,1)] ib_rep_size [OF 1(4,1)]
      ib_rep_end [OF 1(4,1)] c(2) e by auto
qed

text \<open>The cursor at the first entry of the root.\<close>

definition table_at :: "container \<Rightarrow> nat \<Rightarrow> object_handle \<Rightarrow> bt \<Rightarrow> bool" where
  "table_at s oid h t \<longleftrightarrow> h_obj_info h = oid \<and> is_table oid s \<and> bt_height t \<le> 15 \<and>
     (\<exists>x. objs s oid = Some x \<and> tree_rep s oid (oi_root_cache x) t)"

lemma reset_cursor:
  assumes "table_at s oid h (Bt es ts)" "\<not> has_flag flags INDEX_GET_LAST"
  shows "\<exists>h' c. reset_cache_stack hid flags (put_handle hid h s) = Some (put_handle hid h' s) \<and>
    cursor s oid h' [] (c, es, ts, 0) \<and> (\<exists>x. objs s oid = Some x \<and> oi_root_cache x = c)"
proof -
  obtain x where x: "objs s oid = Some x" "tree_rep s oid (oi_root_cache x) (Bt es ts)" "h_obj_info h = oid"
    "bt_height (Bt es ts) \<le> 15"
    using assms(1) by (auto simp: table_at_def)
  from tree_rep_block [OF x(2)] obtain b m p where
    1: "cache_block s (oi_root_cache x) = Some (b, m, p)" "ib_rep m p es" by blast
  let ?h1 = "h\<lparr> h_cache := oi_root_cache x,
    h_cache_stack := (h_cache_stack h)(0 := oi_root_cache x), h_depth := 0 \<rparr>"
  have "reset_cache_stack hid flags (put_handle hid h s) = Some (put_handle hid (go_to b p es 0 ?h1) s)"
    using x assms(2) get_first_ie_go_to [of s ?h1 b m p es hid] 1
    by (simp add: reset_cache_stack_def Let_def)
  moreover have "0 < length es" using 1(2) by (cases es) auto
  then have "cursor s oid (go_to b p es 0 ?h1) [] (oi_root_cache x, es, ts, 0)"
    using x 1 by auto
  ultimately show ?thesis using x(1) by blast
qed

lemma walk_tree_first:
  assumes "table_at s oid h t" "bt_entries t = xs" "has_flag flags INDEX_GET_FIRST" "forward flags"
  shows "\<exists>h' r. walk_tree ops hid flags (put_handle hid h s) = Some (r, put_handle hid h' s) \<and>
    (if xs = [] then r = Inl INDEX_ERR_ROOT else r = Inr () \<and> on_list s oid h' xs)"
proof -
  obtain es ts where t: "t = Bt es ts" by (cases t)
  obtain h1 c where 1: "reset_cache_stack hid flags (put_handle hid h s) = Some (put_handle hid h1 s)"
    "cursor s oid h1 [] (c, es, ts, 0)"
    using reset_cursor [of s oid h es ts flags hid] assms(1,4) t by (auto simp: forward_def)
  have "tree_rep s oid c (Bt es ts)" using 1(2) by simp
  then have "enter_at es ts 0 @ frames_rest [] = xs" using bt_entries_enter assms(2) t by simp
  then show ?thesis
    using get_current_ie_cursor [OF 1(2), of flags xs ops hid] 1(1) assms(1,3,4)
      assert_table_put_handle [of h s hid]
    by (simp add: walk_tree_def table_at_def has_flag_or)
qed

section \<open>Walking over all entries\<close>

lemma count_keys_on_list:
  assumes "on_list s oid h xs" "is_table oid s"
  shows "\<exists>h'. count_keys ops hid cnt (put_handle hid h s) = Some (cnt + int (length xs), put_handle hid h' s)"
  using assms(1)
proof (induction xs arbitrary: h cnt)
  case Nil
  then show ?case using on_list_ne by blast
next
  case (Cons e xs)
  obtain h1 r where 1: "walk_tree ops hid 0 (put_handle hid h s) = Some (r, put_handle hid h1 s)"
    "if xs = [] then r = Inl INDEX_ERR_ROOT else r = Inr () \<and> on_list s oid h1 xs"
    using walk_tree_next [OF Cons.prems assms(2) plain_next_0] by blast
  show ?case
  proof (cases "xs = []")
    case True
    then have "count_keys ops hid cnt (put_handle hid h s) = Some (cnt + 1, put_handle hid h1 s)"
      using 1 by (subst count_keys.simps) simp
    then show ?thesis using True by auto
  next
    case False
    then have r: "r = Inr ()" "on_list s oid h1 xs" using 1(2) by simp_all
    then have "count_keys ops hid cnt (put_handle hid h s) = count_keys ops hid (cnt + 1) (put_handle hid h1 s)"
      using 1(1) by (subst count_keys.simps) simp
    then show ?thesis using Cons.IH [OF r(2), of "cnt + 1"] by auto
  qed
qed

lemma index_get_total_key_table:
  assumes "table_at s oid h t" "hid \<noteq> 0"
  shows "\<exists>h'. index_get_total_key ops hid (put_handle hid h s) =
    Some (Inr (int (length (bt_entries t))), put_handle hid h' s)"
proof -
  have first: "has_flag INDEX_GET_FIRST INDEX_GET_FIRST" by (simp add: has_flag_def INDEX_GET_FIRST_def)
  obtain h1 r where 1: "walk_tree ops hid INDEX_GET_FIRST (put_handle hid h s) = Some (r, put_handle hid h1 s)"
    "if bt_entries t = [] then r = Inl INDEX_ERR_ROOT else r = Inr () \<and> on_list s oid h1 (bt_entries t)"
    using walk_tree_first [OF assms(1) refl first forward_simps(4)] by blast
  have tab: "is_table oid s" using assms(1) by (simp add: table_at_def)
  show ?thesis
    using 1 assms(2) count_keys_on_list [OF _ tab, of h1 "bt_entries t" ops hid 0]
    by (cases "bt_entries t = []") (auto simp: index_get_total_key_def)
qed

text \<open>
  Calling back for each entry: \<open>f\<close> is what the callback does to its data for an entry; it does not
  touch the table.
\<close>

fun visit_all :: "(u8 list \<Rightarrow> u8 list \<Rightarrow> 'p \<Rightarrow> ofs_err + 'p) \<Rightarrow> ent list \<Rightarrow> 'p \<Rightarrow> ofs_err + 'p" where
  "visit_all f [] para = Inr para"
| "visit_all f (e # es) para =
     (case f (ekey e) (evalue e) para of Inl r \<Rightarrow> Inl r | Inr para \<Rightarrow> visit_all f es para)"

definition reads_entry ::
  "(nat \<Rightarrow> 'p \<Rightarrow> container \<Rightarrow> ((ofs_err + 'p) \<times> container) option) \<Rightarrow>
   (u8 list \<Rightarrow> u8 list \<Rightarrow> 'p \<Rightarrow> ofs_err + 'p) \<Rightarrow> bool" where
  "reads_entry cb f \<longleftrightarrow> (\<forall>hid para s m q. tree_ie hid s = Some (m, q) \<longrightarrow>
     cb hid para s = Some (f (GET_IE_KEY m q) (GET_IE_VALUE m q) para, s))"

lemma walk_keys_on_list:
  assumes "on_list s oid h xs" "is_table oid s" "reads_entry cb f" "plain_next flags"
  shows "\<exists>h'. walk_keys ops hid flags cb para (put_handle hid h s) =
    Some (visit_all f xs para, put_handle hid h' s)"
  using assms(1)
proof (induction xs arbitrary: h para)
  case Nil
  then show ?case using on_list_ne by blast
next
  case (Cons e xs)
  obtain m q where ie: "tree_ie hid (put_handle hid h s) = Some (m, q)" "GET_IE_KEY m q = ekey e"
    "GET_IE_VALUE m q = evalue e" using on_list_entry [OF Cons.prems] by blast
  have cb: "cb hid para (put_handle hid h s) = Some (f (ekey e) (evalue e) para, put_handle hid h s)"
    using assms(3) ie by (auto simp: reads_entry_def)
  obtain h1 r where 1: "walk_tree ops hid flags (put_handle hid h s) = Some (r, put_handle hid h1 s)"
    "if xs = [] then r = Inl INDEX_ERR_ROOT else r = Inr () \<and> on_list s oid h1 xs"
    using walk_tree_next [OF Cons.prems assms(2,4)] by blast
  show ?case
  proof (cases "f (ekey e) (evalue e) para")
    case (Inl er)
    then show ?thesis using cb by (subst walk_keys.simps) auto
  next
    case (Inr para1)
    show ?thesis
    proof (cases "xs = []")
      case True
      then have "walk_keys ops hid flags cb para (put_handle hid h s) = Some (Inr para1, put_handle hid h1 s)"
        using 1 cb Inr by (subst walk_keys.simps) simp
      then show ?thesis using True Inr by auto
    next
      case False
      then have r: "r = Inr ()" "on_list s oid h1 xs" using 1(2) by simp_all
      then have "walk_keys ops hid flags cb para (put_handle hid h s) =
          walk_keys ops hid flags cb para1 (put_handle hid h1 s)"
        using 1(1) cb Inr by (subst walk_keys.simps) simp
      then show ?thesis using Cons.IH [OF r(2), of para1] Inr by simp
    qed
  qed
qed

lemma walk_mask_flags:
  assumes "\<not> has_flag flags INDEX_REMOVE_BLOCK"
  shows "plain_next (flags AND NOT INDEX_WALK_MASK)" "forward (INDEX_GET_FIRST OR flags AND NOT INDEX_WALK_MASK)"
    "has_flag (INDEX_GET_FIRST OR x) INDEX_GET_FIRST"
proof -
  have "(\<exists>n<8. P n) \<longleftrightarrow> P 0 \<or> P 1 \<or> P 2 \<or> P 3 \<or> P 4 \<or> P 5 \<or> P 6 \<or> P (7::nat)" for P
    by (auto simp: less_Suc_eq numeral_eq_Suc)
  moreover have "has_flag fl g \<longleftrightarrow> (\<exists>n<8. bit fl n \<and> bit g n)" for fl g :: u8
    using bit_imp_le_length [of fl] by (fastforce simp: has_flag_def bit_eq_iff bit_simps)
  ultimately have b: "has_flag fl g \<longleftrightarrow> bit fl 0 \<and> bit g 0 \<or> bit fl 1 \<and> bit g 1 \<or> bit fl 2 \<and> bit g 2 \<or>
      bit fl 3 \<and> bit g 3 \<or> bit fl 4 \<and> bit g 4 \<or> bit fl 5 \<and> bit g 5 \<or> bit fl 6 \<and> bit g 6 \<or>
      bit fl 7 \<and> bit g 7" for fl g :: u8
    by simp
  show "plain_next (flags AND NOT INDEX_WALK_MASK)" "forward (INDEX_GET_FIRST OR flags AND NOT INDEX_WALK_MASK)"
    "has_flag (INDEX_GET_FIRST OR x) INDEX_GET_FIRST"
    using assms by (simp_all add: plain_next_def forward_def b bit_simps walk_flag_defs)
qed

end
