(* ===== verification/TreeSearch.thy ===== *)
theory TreeSearch
  imports TreeWalk
begin

text \<open>
  Searching a key in a tree of cached blocks of any height. The comparison \<open>cmp\<close> of the entries with
  the key is nonpositive before and nonnegative behind: what is passed on the way down are exactly
  the smaller entries.
\<close>

declare bt_entries.simps [simp del] cursor.simps [simp del]

lemma cursor_tree:
  "cursor s oid h fs (c, es, ts, i) \<Longrightarrow> tree_rep s oid c (Bt es ts)"
  "cursor s oid h fs (c, es, ts, i) \<Longrightarrow> i < length es"
  by (simp_all add: cursor.simps)

section \<open>Splitting the entries\<close>

definition ordered :: "(ent \<Rightarrow> int) \<Rightarrow> ent list \<Rightarrow> bool" where
  "ordered cmp xs \<longleftrightarrow> sorted_wrt (\<lambda>a b. cmp a \<le> cmp b) xs"

lemma ordered_append:
  "ordered cmp (xs @ ys) \<longleftrightarrow> ordered cmp xs \<and> ordered cmp ys \<and> (\<forall>x \<in> set xs. \<forall>y \<in> set ys. cmp x \<le> cmp y)"
  by (simp add: ordered_def sorted_wrt_append)

lemma ordered_last: "ordered cmp xs \<Longrightarrow> xs \<noteq> [] \<Longrightarrow> x \<in> set xs \<Longrightarrow> cmp x \<le> cmp (last xs)"
  by (cases xs rule: rev_cases) (auto simp: ordered_def sorted_wrt_append)

text \<open>The entries before entry \<open>j\<close> of a block and its child, all children before included.\<close>

definition pre :: "ent list \<Rightarrow> bt list \<Rightarrow> nat \<Rightarrow> ent list" where
  "pre es ts j = (if ts = [] then take j es
     else concat (map (\<lambda>(t, e). bt_entries t @ [e]) (zip (take j ts) (take j es))))"

lemma pre_0 [simp]: "pre es ts 0 = []"
  by (simp add: pre_def)

lemma pre_leaf [simp]: "pre es [] j = take j es"
  by (simp add: pre_def)

lemma pre_Suc:
  assumes "j < length es" "ts = [] \<or> length ts = length es"
  shows "pre es ts (Suc j) = pre es ts j @ (if ts = [] then [] else bt_entries (ts ! j)) @ [es ! j]"
  using assms by (auto simp: pre_def take_Suc_conv_app_nth)

lemma pre_update [simp]: "pre es (ts[j := t]) j = pre es ts j"
  by (simp add: pre_def take_update_cancel)

lemma rest_at_update [simp]: "rest_at es (ts[j := t]) j = rest_at es ts j"
proof (cases "j < length ts")
  case True
  then have "drop j (ts[j := t]) = t # drop (Suc j) ts" "drop j ts = ts ! j # drop (Suc j) ts"
    by (simp_all add: drop_update_swap Cons_nth_drop_Suc [symmetric])
  then show ?thesis by (cases "drop j es") (simp_all add: rest_at_def)
qed (simp add: list_update_beyond)

lemma pre_last:
  assumes "0 < j" "j < length es" "ts = [] \<or> length ts = length es"
  shows "pre es ts j \<noteq> [] \<and> last (pre es ts j) = es ! (j - 1)"
  using pre_Suc [of "j - 1" es ts] assms by simp

lemma enter_at_split:
  assumes "tree_rep s oid c (Bt es ts)" "j < length es"
  shows "enter_at es ts 0 = pre es ts j @ enter_at es ts j"
  using assms(2)
proof (induction j)
  case 0
  then show ?case by simp
next
  case (Suc j)
  then have IH: "enter_at es ts 0 = pre es ts j @ enter_at es ts j" by simp
  have l: "ts = [] \<or> length ts = length es" by (rule tree_rep_lengths [OF assms(1)])
  have "rest_at es ts j = es ! j # enter_at es ts (Suc j)"
    using rest_at_next [of j es ts] l tree_rep_end [OF assms(1), of j] Suc.prems by simp
  then show ?case using IH Suc.prems pre_Suc [OF _ l, of j] by (simp add: enter_at_def [of es ts j])
qed

lemma rest_at_Cons:
  assumes "tree_rep s oid c (Bt es ts)" "j < length es"
  shows "rest_at es ts j = (if eend (es ! j) then [] else es ! j # enter_at es ts (Suc j))"
proof (cases "Suc j = length es")
  case True
  then show ?thesis
    using rest_at_last [OF True tree_rep_lengths [OF assms(1)]] tree_rep_end [OF assms] by simp
next
  case False
  then have "Suc j < length es" using assms(2) by simp
  then show ?thesis
    using rest_at_next [OF assms(2) tree_rep_lengths [OF assms(1)]] tree_rep_end [OF assms] by simp
qed

section \<open>Search\<close>

lemma collates_mono: "collates oid s key value cmp xs \<Longrightarrow> set ys \<subseteq> set xs \<Longrightarrow> collates oid s key value cmp ys"
  by (fastforce simp: collates_def)

lemma block_entries_subset:
  assumes "tree_rep s oid c (Bt es ts)"
  shows "e \<in> set es \<Longrightarrow> \<not> eend e \<Longrightarrow> e \<in> set (bt_entries (Bt es ts))"
    "i < length es \<Longrightarrow> ts \<noteq> [] \<Longrightarrow> set (bt_entries (ts ! i)) \<subseteq> set (bt_entries (Bt es ts))"
proof -
  have l: "ts = [] \<or> length ts = length es" by (rule tree_rep_lengths [OF assms])
  show "e \<in> set (bt_entries (Bt es ts))" if e: "e \<in> set es" "\<not> eend e"
  proof (cases "ts = []")
    case False
    obtain i where i: "i < length es" "es ! i = e" using e(1) by (metis in_set_conv_nth)
    then have "(ts ! i, e) \<in> set (zip ts es)" using l False by (auto simp: in_set_zip)
    then show ?thesis using False e(2) by (force simp: bt_entries.simps)
  qed (use e in \<open>simp add: bt_entries.simps\<close>)
  show "set (bt_entries (ts ! i)) \<subseteq> set (bt_entries (Bt es ts))" if i: "i < length es" "ts \<noteq> []"
  proof -
    have "(ts ! i, es ! i) \<in> set (zip ts es)" using l i by (auto simp: in_set_zip)
    then show ?thesis using i(2) by (force simp: bt_entries.simps)
  qed
qed

lemma search_block_cursor:
  assumes cur: "cursor s oid h fs (c, es, ts, 0)" and co: "collates oid s key value cmp (bt_entries (Bt es ts))"
  shows "\<exists>h'. search_block hid key value (put_handle hid h s) =
    Some (Inr (\<not> eend (es ! stop_at cmp es) \<and> cmp (es ! stop_at cmp es) = 0), put_handle hid h' s) \<and>
    cursor s oid h' fs (c, es, ts, stop_at cmp es)"
proof -
  from cur obtain b m p where 1: "tree_rep s oid c (Bt es ts)" "h_obj_info h = oid"
    "cache_block s (h_cache h) = Some (b, m, p)" "h = go_to b p es 0 h" "path_ok s oid h fs"
    "ib_rep m p es" by (rule cursorE)
  have co': "collates (h_obj_info h) s key value cmp es"
    using co block_entries_subset(1) [OF 1(1)] 1(2) by (fastforce simp: collates_def)
  have lt: "stop_at cmp es < length es" using stop_at_less 1(6) by (simp add: ib_rep_def)
  have "search_block hid key value (put_handle hid h s) =
    Some (Inr (\<not> eend (es ! stop_at cmp es) \<and> cmp (es ! stop_at cmp es) = 0),
      put_handle hid (go_to b p es (stop_at cmp es) h) s)"
    using search_block_steps [OF 1(3,6) co', of 0 hid] 1(4) by simp
  moreover have "cursor s oid (go_to b p es (stop_at cmp es) h) fs (c, es, ts, stop_at cmp es)"
    using cur 1(3) lt path_ok_cong [of fs "go_to b p es (stop_at cmp es) h" h s oid]
    by (auto simp: cursor.simps)
  ultimately show ?thesis by blast
qed

section \<open>Paths\<close>

text \<open>
  \<open>at_path s oid c t is c' t'\<close>: following the children numbered \<open>is\<close> from cache \<open>c\<close> with tree \<open>t\<close>
  leads to cache \<open>c'\<close> with tree \<open>t'\<close>. \<open>around t is\<close> are the entries before and behind.
\<close>

inductive at_path :: "container \<Rightarrow> nat \<Rightarrow> nat \<Rightarrow> bt \<Rightarrow> nat list \<Rightarrow> nat \<Rightarrow> bt \<Rightarrow> bool" for s oid where
  here: "at_path s oid c t [] c t"
| down: "i < length es \<Longrightarrow> ts \<noteq> [] \<Longrightarrow> echild (es ! i) = Some v \<Longrightarrow> cached s oid v c1 \<Longrightarrow>
    at_path s oid c1 (ts ! i) is c' t' \<Longrightarrow> at_path s oid c (Bt es ts) (i # is) c' t'"

inductive_simps at_path_Nil [simp]: "at_path s oid c t [] c' t'"
inductive_cases at_path_ConsE: "at_path s oid c t (i # is) c' t'"

text \<open>The same with the steps of a cursor along the path, the deepest first.\<close>

inductive path_frames :: "container \<Rightarrow> nat \<Rightarrow> nat \<Rightarrow> bt \<Rightarrow> nat list \<Rightarrow> frame4 list \<Rightarrow> nat \<Rightarrow> bt \<Rightarrow> bool" for s oid where
  here: "path_frames s oid c t [] [] c t"
| down: "i < length es \<Longrightarrow> ts \<noteq> [] \<Longrightarrow> echild (es ! i) = Some v \<Longrightarrow> cached s oid v c1 \<Longrightarrow>
    path_frames s oid c1 (ts ! i) is fs c' t' \<Longrightarrow>
    path_frames s oid c (Bt es ts) (i # is) (fs @ [(c, es, ts, i)]) c' t'"

lemma path_frames_at_path: "path_frames s oid c t is fs c' t' \<Longrightarrow> at_path s oid c t is c' t' \<and> length fs = length is"
  by (induction rule: path_frames.induct) (auto intro: at_path.intros)

fun around :: "bt \<Rightarrow> nat list \<Rightarrow> ent list \<times> ent list" where
  "around t [] = ([], [])"
| "around (Bt es ts) (i # is) =
     (pre es ts i @ fst (around (ts ! i) is), snd (around (ts ! i) is) @ rest_at es ts i)"

lemma path_frames_rest: "path_frames s oid c t is fs c' t' \<Longrightarrow> frames_rest fs = snd (around t is)"
  by (induction rule: path_frames.induct) (auto simp: frames_rest_def)

lemma cached_fun: "cached s oid v c \<Longrightarrow> cached s oid v c' \<Longrightarrow> c = c'"
  by (auto simp: cached_def)

lemma at_path_tree: "at_path s oid c t is c' t' \<Longrightarrow> tree_rep s oid c t \<Longrightarrow> tree_rep s oid c' t'"
proof (induction rule: at_path.induct)
  case (down i es ts v c1 "is" c' t' c)
  then show ?case by (metis cached_fun option.inject tree_rep_child)
qed

lemma tree_split:
  assumes "tree_rep s oid c (Bt es ts)" "j < length es"
  shows "bt_entries (Bt es ts) = pre es ts j @ (if ts = [] then [] else bt_entries (ts ! j)) @ rest_at es ts j"
  using bt_entries_enter [OF assms(1)] enter_at_split [OF assms] by (simp add: enter_at_def [of es ts j])

lemma at_path_entries:
  "at_path s oid c t is c' t' \<Longrightarrow> tree_rep s oid c t \<Longrightarrow>
   bt_entries t = fst (around t is) @ bt_entries t' @ snd (around t is)"
proof (induction rule: at_path.induct)
  case (down i es ts v c1 "is" c' t' c)
  then have "tree_rep s oid c1 (ts ! i)" by (metis cached_fun option.inject tree_rep_child)
  then show ?case using down tree_split [OF down.prems down.hyps(1)] by simp
qed simp

text \<open>
  The search ends at an equal entry, or at the place in a leaf between the smaller and the
  larger entries.
\<close>

definition search_end :: "container \<Rightarrow> nat \<Rightarrow> object_handle \<Rightarrow> (ent \<Rightarrow> int) \<Rightarrow> frame4 list \<Rightarrow> nat \<Rightarrow> bt \<Rightarrow>
    bool \<Rightarrow> bool" where
  "search_end s oid h cmp fs0 c0 t found \<longleftrightarrow> (\<exists>fs c es ts i is. cursor s oid h (fs @ fs0) (c, es, ts, i) \<and>
     path_frames s oid c0 t is fs c (Bt es ts) \<and>
     (if found then \<not> eend (es ! i) \<and> cmp (es ! i) = 0
      else ts = [] \<and> (\<forall>e \<in> set (fst (around t is) @ take i es). cmp e < 0) \<and>
             (\<forall>e \<in> set (rest_at es [] i @ snd (around t is)). 0 < cmp e)))"

lemma search_endI:
  "cursor s oid h (fs @ fs0) (c, es, ts, i) \<Longrightarrow> path_frames s oid c0 t is fs c (Bt es ts) \<Longrightarrow>
   \<not> eend (es ! i) \<Longrightarrow> cmp (es ! i) = 0 \<Longrightarrow> search_end s oid h cmp fs0 c0 t True"
  unfolding search_end_def if_True by blast

lemma search_endI_place:
  "cursor s oid h (fs @ fs0) (c, es, [], i) \<Longrightarrow> path_frames s oid c0 t is fs c (Bt es []) \<Longrightarrow>
   \<forall>e \<in> set (fst (around t is) @ take i es). cmp e < 0 \<Longrightarrow>
   \<forall>e \<in> set (rest_at es [] i @ snd (around t is)). 0 < cmp e \<Longrightarrow> search_end s oid h cmp fs0 c0 t False"
  unfolding search_end_def if_False by blast

lemma search_end_down:
  assumes "search_end s oid h cmp ((c, es, ts, i) # fs0) c1 (ts ! i) found"
    and "i < length es" "ts \<noteq> []" "echild (es ! i) = Some v" "cached s oid v c1"
    and "\<forall>e \<in> set (pre es ts i). cmp e < 0" "\<forall>e \<in> set (rest_at es ts i). 0 < cmp e"
  shows "search_end s oid h cmp fs0 c (Bt es ts) found"
proof -
  from assms(1) obtain fs c' es' ts' i' "is" where 1: "cursor s oid h ((fs @ [(c, es, ts, i)]) @ fs0) (c', es', ts', i')"
    "path_frames s oid c1 (ts ! i) is fs c' (Bt es' ts')"
    and r: "if found then \<not> eend (es' ! i') \<and> cmp (es' ! i') = 0
      else ts' = [] \<and> (\<forall>e \<in> set (fst (around (ts ! i) is) @ take i' es'). cmp e < 0) \<and>
             (\<forall>e \<in> set (rest_at es' [] i' @ snd (around (ts ! i) is)). 0 < cmp e)"
    unfolding search_end_def by auto
  have p: "path_frames s oid c (Bt es ts) (i # is) (fs @ [(c, es, ts, i)]) c' (Bt es' ts')"
    by (rule path_frames.down [OF assms(2-5) 1(2)])
  show ?thesis
  proof (cases found)
    case True
    then show ?thesis using search_endI [OF 1(1) p] r by simp
  next
    case False
    have t: "ts' = []" using r False by simp
    have "\<forall>e \<in> set (fst (around (Bt es ts) (i # is)) @ take i' es'). cmp e < 0"
      "\<forall>e \<in> set (rest_at es' [] i' @ snd (around (Bt es ts) (i # is))). 0 < cmp e"
      using r False assms(6,7) by auto
    then show ?thesis using search_endI_place [OF 1(1) [unfolded t] p [unfolded t]] False by simp
  qed
qed

lemma search_levels_cursor:
  assumes "cursor s oid h fs (c, es, ts, 0)" "collates oid s key value cmp (bt_entries (Bt es ts))"
    "ordered cmp (bt_entries (Bt es ts))"
  shows "\<exists>h' found. search_levels hid key value (put_handle hid h s) =
      Some (if found then Inr () else Inl INDEX_ERR_KEY_NOT_FOUND, put_handle hid h' s) \<and>
    search_end s oid h' cmp fs c (Bt es ts) found"
  using assms
proof (induction "bt_height (Bt es ts)" arbitrary: h fs c es ts rule: less_induct)
  case less
  let ?j = "stop_at cmp es" and ?xs = "bt_entries (Bt es ts)"
  obtain h1 where h1: "search_block hid key value (put_handle hid h s) =
      Some (Inr (\<not> eend (es ! ?j) \<and> cmp (es ! ?j) = 0), put_handle hid h1 s)"
    and c1: "cursor s oid h1 fs (c, es, ts, ?j)"
    using search_block_cursor [OF less.prems(1,2), of hid] by blast
  have tr: "tree_rep s oid c (Bt es ts)" and j: "?j < length es" using cursor_tree [OF c1] by simp_all
  have c1': "cursor s oid h1 ([] @ fs) (c, es, ts, ?j)" using c1 by simp
  show ?case
  proof (cases "\<not> eend (es ! ?j) \<and> cmp (es ! ?j) = 0")
    case True
    have "search_levels hid key value (put_handle hid h s) = Some (Inr (), put_handle hid h1 s)"
      using h1 True by (subst search_levels.simps) simp
    moreover have "search_end s oid h1 cmp fs c (Bt es ts) True"
      using search_endI [OF c1' path_frames.here] True by simp
    ultimately show ?thesis by force
  next
    case False
    have large: "\<not> eend (es ! ?j) \<Longrightarrow> 0 < cmp (es ! ?j)"
      using False stop_at_stop [OF j] by (simp add: below_def)
    note xs = tree_split [OF tr j]
    have small: "\<forall>e \<in> set (pre es ts ?j). cmp e < 0"
    proof (cases "?j = 0")
      case False
      then have "below cmp (es ! (?j - 1))" by (intro stop_at_passed) simp
      then have "cmp (last (pre es ts ?j)) < 0"
        using pre_last [of ?j es ts] False j tree_rep_lengths [OF tr] by (simp add: below_def)
      then show ?thesis
        using ordered_last [of cmp "pre es ts ?j"] less.prems(3) xs by (fastforce simp: ordered_append)
    qed simp
    have rest: "\<forall>e \<in> set (rest_at es ts ?j). 0 < cmp e"
    proof (cases "eend (es ! ?j)")
      case True
      then show ?thesis using rest_at_Cons [OF tr j] by simp
    next
      case False
      have "ordered cmp (rest_at es ts ?j)" using less.prems(3) xs by (simp add: ordered_append)
      then show ?thesis
        using rest_at_Cons [OF tr j] False large by (fastforce simp: ordered_def)
    qed
    show ?thesis
    proof (cases "ts = []")
      case True
      have "search_levels hid key value (put_handle hid h s) =
          Some (Inl INDEX_ERR_KEY_NOT_FOUND, put_handle hid h1 s)"
        using h1 False True cursor_test(1) [OF c1, of hid] by (subst search_levels.simps) simp
      moreover have "search_end s oid h1 cmp fs c (Bt es ts) False"
        using search_endI_place [OF c1' [unfolded True] path_frames.here, of cmp] True small rest by simp
      ultimately show ?thesis by force
    next
      case False
      note ts = False
      obtain es' ts' where t: "ts ! ?j = Bt es' ts'" by (metis bt.exhaust)
      obtain h2 c2 v where p: "push_cache_stack hid 0 (put_handle hid h1 s) = Some (Inr (), put_handle hid h2 s)"
        and c2: "cursor s oid h2 ((c, es, ts, ?j) # fs) (c2, es', ts', 0)"
        and v: "echild (es ! ?j) = Some v" "cached s oid v c2"
        using push_cursor [OF c1 ts t forward_simps(1) [OF forward_simps(3)], of hid] by blast
      have ht: "bt_height (Bt es' ts') < bt_height (Bt es ts)"
        using bt_height_child [of ?j ts es] t tree_rep_lengths [OF tr] ts j by simp
      have co: "collates oid s key value cmp (bt_entries (Bt es' ts'))"
        using collates_mono [OF less.prems(2)] block_entries_subset(2) [OF tr j ts] t by simp
      have od: "ordered cmp (bt_entries (Bt es' ts'))"
        using less.prems(3) xs ts t by (simp add: ordered_append)
      from less.hyps [OF ht c2 co od] obtain h' found where
        r: "search_levels hid key value (put_handle hid h2 s) =
          Some (if found then Inr () else Inl INDEX_ERR_KEY_NOT_FOUND, put_handle hid h' s)"
        and e: "search_end s oid h' cmp ((c, es, ts, ?j) # fs) c2 (ts ! ?j) found"
        unfolding t by auto
      have eq: "search_levels hid key value (put_handle hid h s) = search_levels hid key value (put_handle hid h2 s)"
        using h1 \<open>\<not> (\<not> eend (es ! ?j) \<and> cmp (es ! ?j) = 0)\<close> cursor_test(1) [OF c1, of hid] ts p
        by (subst search_levels.simps) simp
      show ?thesis
        unfolding eq using r search_end_down [OF e j ts v small rest] by (intro exI conjI)
    qed
  qed
qed

text \<open>What the end of a search says of the entries of the whole tree.\<close>

lemma search_end_found:
  assumes "search_end s oid h cmp fs0 c t True" "tree_rep s oid c t"
  shows "\<exists>e \<in> set (bt_entries t). cmp e = 0"
proof -
  from assms(1) obtain fs c' es ts i "is" where 1: "cursor s oid h (fs @ fs0) (c', es, ts, i)"
    "at_path s oid c t is c' (Bt es ts)" "\<not> eend (es ! i)" "cmp (es ! i) = 0"
    using path_frames_at_path unfolding search_end_def if_True by blast
  have "es ! i \<in> set (bt_entries (Bt es ts))"
    using block_entries_subset(1) [OF cursor_tree(1) [OF 1(1)]] cursor_tree(2) [OF 1(1)] 1(3) by simp
  then show ?thesis using at_path_entries [OF 1(2) assms(2)] 1(4) by force
qed

lemma search_end_place:
  assumes "search_end s oid h cmp fs0 c t False" "tree_rep s oid c t"
  obtains fs c' es i "is" L R where "cursor s oid h (fs @ fs0) (c', es, [], i)"
    "path_frames s oid c t is fs c' (Bt es [])" "at_path s oid c t is c' (Bt es [])" "length fs = length is"
    "L = fst (around t is) @ take i es" "R = rest_at es [] i @ snd (around t is)"
    "bt_entries t = L @ R" "\<forall>e \<in> set L. cmp e < 0" "\<forall>e \<in> set R. 0 < cmp e"
    "rest_at es [] i @ frames_rest (fs @ fs0) = R @ frames_rest fs0"
proof -
  from assms(1) obtain fs c' es i "is" where 1: "cursor s oid h (fs @ fs0) (c', es, [], i)"
    "path_frames s oid c t is fs c' (Bt es [])"
    "\<forall>e \<in> set (fst (around t is) @ take i es). cmp e < 0"
    "\<forall>e \<in> set (rest_at es [] i @ snd (around t is)). 0 < cmp e"
    unfolding search_end_def if_False by blast
  from path_frames_at_path [OF 1(2)] have 2: "at_path s oid c t is c' (Bt es [])" "length fs = length is" by simp_all
  have "frames_rest (fs @ fs0) = snd (around t is) @ frames_rest fs0"
    using path_frames_rest [OF 1(2)] by (simp add: frames_rest_def)
  then show ?thesis
    using that [OF 1(1,2) 2 refl refl _ 1(3,4)] at_path_entries [OF 2(1) assms(2)]
      tree_split [OF cursor_tree [OF 1(1)]] by simp
qed

lemma search_end_ordered:
  assumes "search_end s oid h cmp fs0 c t found" "tree_rep s oid c t"
  shows "found \<longleftrightarrow> (\<exists>e \<in> set (bt_entries t). cmp e = 0)"
proof (cases found)
  case True
  then show ?thesis using search_end_found assms by simp
next
  case False
  then have "search_end s oid h cmp fs0 c t False" using assms(1) by simp
  then obtain L R where "bt_entries t = L @ R" "\<forall>e \<in> set L. cmp e < 0" "\<forall>e \<in> set R. 0 < cmp e"
    using assms(2) by (rule search_end_place)
  then have "cmp e \<noteq> 0" if "e \<in> set (bt_entries t)" for e using that by auto
  then show ?thesis using False by blast
qed

section \<open>Searching a table\<close>

lemma search_key_internal_table:
  assumes "table_at s oid h t" "key \<noteq> []" "collates oid s key value cmp (bt_entries t)" "ordered cmp (bt_entries t)"
  shows "\<exists>h' found. search_key_internal hid key value (put_handle hid h s) =
      Some (if found then Inr () else Inl INDEX_ERR_KEY_NOT_FOUND, put_handle hid h' s) \<and>
    (\<exists>x. objs s oid = Some x \<and> search_end s oid h' cmp [] (oi_root_cache x) t found)"
proof -
  obtain es ts where t: "t = Bt es ts" by (cases t)
  obtain h1 c where 1: "reset_cache_stack hid 0 (put_handle hid h s) = Some (put_handle hid h1 s)"
    "cursor s oid h1 [] (c, es, ts, 0)" "\<exists>x. objs s oid = Some x \<and> oi_root_cache x = c"
    using reset_cursor [of s oid h es ts 0 hid] assms(1) t by (auto simp: has_flag_def)
  have eq: "search_key_internal hid key value (put_handle hid h s) = search_levels hid key value (put_handle hid h1 s)"
    using 1(1) assms(2) by (simp add: search_key_internal_def)
  obtain h' found where 2: "search_levels hid key value (put_handle hid h1 s) =
      Some (if found then Inr () else Inl INDEX_ERR_KEY_NOT_FOUND, put_handle hid h' s)"
    "search_end s oid h' cmp [] c (Bt es ts) found"
    using search_levels_cursor [OF 1(2) assms(3,4) [unfolded t], of hid] by auto
  from 1(3) obtain x where x: "objs s oid = Some x" "oi_root_cache x = c" by blast
  show ?thesis unfolding eq t by (rule exI [of _ h'], rule exI [of _ found]) (use 2 x in auto)
qed

lemma get_to_near_key_cursor:
  assumes "cursor s oid h fs (c, es, ts, i)" "rest_at es ts i @ frames_rest fs = xs"
  shows "\<exists>h'. get_to_near_key hid (put_handle hid h s) = Some (put_handle hid h' s) \<and> h_obj_info h' = oid \<and>
    (if xs = [] then ie_test ENTRY_END hid (put_handle hid h' s) = Some True else on_list s oid h' xs)"
  using assms
proof (induction fs arbitrary: h c es ts i)
  case Nil
  have o: "h_obj_info h = oid" using Nil.prems(1) by (simp add: cursor.simps)
  show ?case
  proof (cases "Suc i = length es")
    case True
    have "get_to_near_key hid (put_handle hid h s) = Some (put_handle hid h s)"
      using cursor_test(2) [OF Nil.prems(1), of hid] True pop_root [OF Nil.prems(1), of hid 0]
      by (subst get_to_near_key.simps) simp
    moreover have "xs = []" using rest_at_end [OF Nil.prems(1) True] Nil.prems(2) by simp
    moreover have "ie_test ENTRY_END hid (put_handle hid h s) = Some True"
      using cursor_test(2) [OF Nil.prems(1), of hid] True by simp
    ultimately show ?thesis using o by auto
  next
    case False
    have "get_to_near_key hid (put_handle hid h s) = Some (put_handle hid h s)"
      using cursor_test(2) [OF Nil.prems(1), of hid] False by (subst get_to_near_key.simps) simp
    moreover have "on_list s oid h xs" using Nil.prems False unfolding on_list_def by blast
    ultimately show ?thesis using on_list_ne o by auto
  qed
next
  case (Cons f fs)
  have o: "h_obj_info h = oid" using Cons.prems(1) by (simp add: cursor.simps)
  obtain c0 es0 ts0 i0 where f: "f = (c0, es0, ts0, i0)" by (metis prod.exhaust)
  show ?case
  proof (cases "Suc i = length es")
    case True
    obtain h1 where p: "pop_cache_stack hid 0 (put_handle hid h s) = Some (Inr False, put_handle hid h1 s)"
      and c1: "cursor s oid h1 fs (c0, es0, ts0, i0)"
      using pop_cursor [OF Cons.prems(1) [unfolded f], of 0 hid] by (auto simp: has_flag_def)
    have eq: "get_to_near_key hid (put_handle hid h s) = get_to_near_key hid (put_handle hid h1 s)"
      using cursor_test(2) [OF Cons.prems(1), of hid] True p by (subst get_to_near_key.simps) simp
    have "rest_at es0 ts0 i0 @ frames_rest fs = xs"
      using rest_at_end [OF Cons.prems(1) True] Cons.prems(2) f by simp
    then show ?thesis unfolding eq by (rule Cons.IH [OF c1])
  next
    case False
    have "get_to_near_key hid (put_handle hid h s) = Some (put_handle hid h s)"
      using cursor_test(2) [OF Cons.prems(1), of hid] False by (subst get_to_near_key.simps) simp
    moreover have "on_list s oid h xs" using Cons.prems False unfolding on_list_def by blast
    ultimately show ?thesis using on_list_ne o by auto
  qed
qed

lemma search_end_on_list:
  assumes "search_end s oid h cmp [] c0 t True" "tree_rep s oid c0 t"
  shows "\<exists>e ys. on_list s oid h (e # ys) \<and> e \<in> set (bt_entries t) \<and> cmp e = 0"
proof -
  obtain fs c es ts i "is" where 1: "cursor s oid h fs (c, es, ts, i)" "\<not> eend (es ! i)" "cmp (es ! i) = 0"
    "at_path s oid c0 t is c (Bt es ts)"
    using assms(1) path_frames_at_path by (fastforce simp: search_end_def)
  have m: "es ! i \<in> set (bt_entries t)"
    using block_entries_subset(1) [OF cursor_tree(1) [OF 1(1)]] cursor_tree(2) [OF 1(1)] 1(2)
      at_path_entries [OF 1(4) assms(2)] by simp
  have i: "Suc i \<noteq> length es"
    using tree_rep_end [OF cursor_tree [OF 1(1)]] 1(2) by simp
  have "on_list s oid h (es ! i # enter_at es ts (Suc i) @ frames_rest fs)"
    using rest_at_hd [OF 1(1) i] 1(1) i unfolding on_list_def by force
  then show ?thesis using 1(3) m by blast
qed

lemma ordered_filter:
  assumes "xs = L @ R" "\<forall>e \<in> set L. cmp e < (0::int)" "\<forall>e \<in> set R. 0 < cmp e"
  shows "filter (\<lambda>e. 0 < cmp e) xs = R"
proof -
  have "filter (\<lambda>e. 0 < cmp e) L = []" using assms(2) by (auto simp: filter_empty_conv)
  then show ?thesis using assms(1,3) by simp
qed

lemma index_search_key_nolock_table:
  assumes tab: "table_at s oid h t" and key: "hid \<noteq> 0" "key \<noteq> []"
    and co: "collates oid s key value cmp (bt_entries t)" and od: "ordered cmp (bt_entries t)"
  shows "\<exists>h' r. index_search_key_nolock hid key value (put_handle hid h s) = Some (r, put_handle hid h' s) \<and>
    h_obj_info h' = oid \<and>
    (if \<exists>e \<in> set (bt_entries t). cmp e = 0
     then r = Inr () \<and> (\<exists>e ys. on_list s oid h' (e # ys) \<and> e \<in> set (bt_entries t) \<and> cmp e = 0)
     else r = Inl INDEX_ERR_KEY_NOT_FOUND \<and>
       (let larger = filter (\<lambda>e. 0 < cmp e) (bt_entries t) in
        if larger = [] then ie_test ENTRY_END hid (put_handle hid h' s) = Some True
        else on_list s oid h' larger))"
proof -
  obtain h1 found c0 where 1: "search_key_internal hid key value (put_handle hid h s) =
      Some (if found then Inr () else Inl INDEX_ERR_KEY_NOT_FOUND, put_handle hid h1 s)"
    and e: "search_end s oid h1 cmp [] c0 t found" and tr: "tree_rep s oid c0 t"
    using search_key_internal_table [OF tab key(2) co od, of hid] tab by (auto simp: table_at_def)
  have tb: "assert_table hid (put_handle hid h s) = Some ()"
    using tab by (intro assert_table_put_handle) (simp add: table_at_def)
  show ?thesis
  proof (cases found)
    case True
    have "index_search_key_nolock hid key value (put_handle hid h s) = Some (Inr (), put_handle hid h1 s)"
      using 1 True key tb by (simp add: index_search_key_nolock_def)
    moreover have "\<exists>e \<in> set (bt_entries t). cmp e = 0" using search_end_ordered [OF e tr] True by simp
    moreover have o: "\<exists>e ys. on_list s oid h1 (e # ys) \<and> e \<in> set (bt_entries t) \<and> cmp e = 0"
      using search_end_on_list e tr True by simp
    moreover have "h_obj_info h1 = oid" using o on_list_obj by blast
    ultimately show ?thesis by auto
  next
    case False
    have "search_end s oid h1 cmp [] c0 t False" using e False by simp
    then obtain fs c es i L R where s0: "cursor s oid h1 (fs @ []) (c, es, [], i)" "bt_entries t = L @ R"
      "\<forall>e \<in> set L. cmp e < 0" "\<forall>e \<in> set R. 0 < cmp e"
      "rest_at es [] i @ frames_rest (fs @ []) = R @ frames_rest []"
      using tr by (rule search_end_place)
    then have s1: "cursor s oid h1 fs (c, es, [], i)" "bt_entries t = L @ R"
      "\<forall>e \<in> set L. cmp e < 0" "\<forall>e \<in> set R. 0 < cmp e" "rest_at es [] i @ frames_rest fs = R"
      by (simp_all add: frames_rest_def)
    obtain h' where n: "get_to_near_key hid (put_handle hid h1 s) = Some (put_handle hid h' s)" "h_obj_info h' = oid"
      "if R = [] then ie_test ENTRY_END hid (put_handle hid h' s) = Some True else on_list s oid h' R"
      using get_to_near_key_cursor [OF s1(1,5), of hid] by auto
    have "index_search_key_nolock hid key value (put_handle hid h s) =
        Some (Inl INDEX_ERR_KEY_NOT_FOUND, put_handle hid h' s)"
      using 1 False key tb n(1) by (simp add: index_search_key_nolock_def)
    moreover have "\<not> (\<exists>e \<in> set (bt_entries t). cmp e = 0)" using search_end_ordered [OF e tr] False by simp
    moreover have "filter (\<lambda>e. 0 < cmp e) (bt_entries t) = R" by (rule ordered_filter [OF s1(2,3,4)])
    ultimately show ?thesis using n(2,3) by (auto simp: Let_def)
  qed
qed

end
