(* ===== verification/Tables.thy ===== *)
theory Tables
  imports TreeSearch
begin

text \<open>
  The properties of whole tables: searching and walking over all entries, whatever the height of the
  tree of cached blocks, with a table of two levels as the example.
\<close>

section \<open>An example table\<close>

text \<open>A block written from a list of entries.\<close>

definition mk_block :: "buf \<Rightarrow> nat \<Rightarrow> u8 \<Rightarrow> ent list \<Rightarrow> buf" where
  "mk_block m p nt es =
     wr (wr ((put16 (put32 m (p + 8) (of_nat (33 + esizes es))) (p + 16) 33)(p + 18 := nt)) (p + 24) begin_bytes)
       (p + 33) (ents_bytes 9 es)"

lemma get16_upd: "off + 2 \<le> a \<or> a < off \<Longrightarrow> get16 (m(a := v)) off = get16 m off"
  by (intro get_cong) auto

lemma get32_upd: "off + 4 \<le> a \<or> a < off \<Longrightarrow> get32 (m(a := v)) off = get32 m off"
  by (intro get_cong) auto

lemma get_wr_disj:
  "off + 2 \<le> a \<or> a + length bs \<le> off \<Longrightarrow> get16 (wr m a bs) off = get16 m off"
  "off + 4 \<le> a \<or> a + length bs \<le> off \<Longrightarrow> get32 (wr m a bs) off = get32 m off"
  by (simp_all add: get16_def get32_def rd_wr_disj)

lemma length_begin_bytes [simp]: "length begin_bytes = 9"
  by (simp add: begin_bytes_def)

lemma unat_of_nat_u32: "n < 2 ^ 32 \<Longrightarrow> unat (of_nat n :: u32) = n"
  by (simp add: unat_of_nat)

lemma mk_block_rep:
  assumes "ends_with_end es" "33 + esizes es < 2 ^ 32" "\<forall>e \<in> set es. esize e < 65536"
    "\<forall>e \<in> set es. echild e = None \<longleftrightarrow> \<not> has_flag nt BLOCK_LARGE"
  shows "ib_rep (mk_block m p nt es) p es"
proof -
  let ?m = "mk_block m p nt es"
  have "ib_first_entry_off ?m p = 33"
    by (simp add: mk_block_def ib_first_entry_off_def get_wr_disj get16_upd buf_simps)
  moreover have "bh_real_size ?m p = of_nat (33 + esizes es)"
    by (simp add: mk_block_def bh_real_size_def get_wr_disj get32_upd buf_simps)
  then have "unat (bh_real_size ?m p) = 33 + esizes es"
    using unat_of_nat_u32 [OF assms(2)] by simp
  moreover have "rd ?m (p + 24) 9 = begin_bytes"
    by (simp add: mk_block_def rd_wr_disj rd_wr_same)
  moreover have "rd ?m (p + 33) (esizes es) = ents_bytes 9 es"
    by (simp add: mk_block_def rd_wr_same)
  then have "ents_at ?m (p + 33) 9 es" using assms(3) by (simp add: ents_at_def)
  moreover have "ib_node_type ?m p = nt"
    by (simp add: mk_block_def ib_node_type_def wr_out)
  ultimately show ?thesis using assms by (simp add: ib_rep_def)
qed

lemma mk_block_out: "j < p \<or> p + 33 + esizes es \<le> j \<Longrightarrow> mk_block m p nt es j = m j"
  by (auto simp: mk_block_def wr_out put16_def put32_def)

definition ex_ent :: "u8 \<Rightarrow> u64 option \<Rightarrow> ent" where
  "ex_ent k c = \<lparr> ekey = [k], evalue = [k], echild = c, eend = False \<rparr>"

definition ex_leaf :: "u8 \<Rightarrow> ent list" where "ex_leaf k = [ex_ent k None, ex_ent (k + 1) None, end_ent None]"
definition ex_root :: "ent list" where "ex_root = [ex_ent 5 (Some 11), end_ent (Some 12)]"

definition ex_tree :: bt where "ex_tree = Bt ex_root [Bt (ex_leaf 3) [], Bt (ex_leaf 7) []]"

text \<open>Room for a block of 4096 bytes, and for a root of 3722 bytes.\<close>

definition blank :: buf where "blank = put32 (\<lambda>_. 0) 4 4096"
definition blank_root :: buf where "blank_root = put32 (\<lambda>_. 0) 378 3722"

text \<open>The inode's buffer 1 with the root at offset 374, two leaves in buffers 2 and 3.\<close>

definition ex_obj :: object_info where
  "ex_obj = \<lparr> oi_inode = (1, 0), oi_inode_cache = 4, oi_objid = 200, oi_inode_no = 10, oi_name = (\<lambda>_. 0),
     oi_attr_record = (1, 362), oi_obj_hnd_list = [1], oi_root_cache = 1,
     oi_caches = \<lparr> avl_root = ANode (ANode ANil 4 0 ANil) 2 0 (ANode ANil 3 0 ANil), avl_numnodes = 3 \<rparr>,
     oi_ref_cnt = 1 \<rparr>"

definition ex_handle :: object_handle where
  "ex_handle = \<lparr> h_obj_info = 1, h_max_depth = 0, h_depth = 0, h_cache_stack = (\<lambda>_. 0),
     h_position_stack = (\<lambda>_. 0), h_cache = 0, h_position = 0, h_ie = (0, 0) \<rparr>"

definition ex_state :: container where
  "ex_state = \<lparr> bufs = [1 \<mapsto> put16 (mk_block blank_root 374 1 ex_root) 364 0x4003,
       2 \<mapsto> mk_block blank 0 0 (ex_leaf 3), 3 \<mapsto> mk_block blank 0 0 (ex_leaf 7)],
     caches = [1 \<mapsto> \<lparr> c_vbn = 10, c_state = DIRTY, c_ib = (1, 374) \<rparr>,
       2 \<mapsto> \<lparr> c_vbn = 11, c_state = DIRTY, c_ib = (2, 0) \<rparr>,
       3 \<mapsto> \<lparr> c_vbn = 12, c_state = DIRTY, c_ib = (3, 0) \<rparr>,
       4 \<mapsto> \<lparr> c_vbn = 10, c_state = DIRTY, c_ib = (1, 0) \<rparr>],
     objs = [1 \<mapsto> ex_obj], handles = [1 \<mapsto> ex_handle], next_id = 5, ct_sb = (\<lambda>_. 0), ct_flags = 0,
     ct_disk = \<lparr> fsize = 0, fbytes = (\<lambda>_. 0) \<rparr>, ct_id_obj = 0,
     ct_sm = \<lparr> sm_space_obj = 0, sm_first_free_block = 0, sm_total_free_blocks = 0 \<rparr>,
     ct_bsm = \<lparr> sm_space_obj = 0, sm_first_free_block = 0, sm_total_free_blocks = 0 \<rparr>, ct_base_blk = 0,
     ct_obj_info_list = avl_create, ct_metadata_cache = avl_create, env = (\<lambda>_. io_ok), tick = 0,
     junk = (\<lambda>_ _. 0) \<rparr>"

lemma ex_sizes [simp]: "esize (ex_ent k c) = (if c = None then 11 else 19)" "esize (end_ent c) = (if c = None then 9 else 17)"
  by (simp_all add: esize_def ex_ent_def end_ent_def)

lemma ex_flags [simp]: "has_flag 1 BLOCK_LARGE" "\<not> has_flag 0 BLOCK_LARGE"
  by (simp_all add: has_flag_def BLOCK_LARGE_def)

lemma ex_leaf_rep: "ib_rep (mk_block blank 0 0 (ex_leaf k)) 0 (ex_leaf k)"
  by (rule mk_block_rep) (simp_all add: ex_leaf_def ends_with_end_def ex_ent_def end_ent_def esize_def)

lemma ex_root_rep: "ib_rep (put16 (mk_block blank_root 374 1 ex_root) 364 0x4003) 374 ex_root"
proof -
  let ?m = "mk_block blank_root 374 1 ex_root"
  have r: "ib_rep ?m 374 ex_root"
    by (rule mk_block_rep) (simp_all add: ex_root_def ends_with_end_def ex_ent_def end_ent_def esize_def)
  have s: "put16 ?m 364 0x4003 j = ?m j" if "366 \<le> j" for j using that by (simp add: put16_out)
  have "rd (put16 ?m 364 0x4003) a n = rd ?m a n" if "366 \<le> a" for a n
    by (rule rd_eqI) (use that s in simp)
  then show ?thesis
    using r s by (simp add: ib_rep_def ents_at_def ib_first_entry_off_def bh_real_size_def get16_def get32_def
        ib_node_type_def)
qed

lemma ex_blocks:
  "cache_block ex_state 1 = Some (1, put16 (mk_block blank_root 374 1 ex_root) 364 0x4003, 374)"
  "cache_block ex_state 2 = Some (2, mk_block blank 0 0 (ex_leaf 3), 0)"
  "cache_block ex_state 3 = Some (3, mk_block blank 0 0 (ex_leaf 7), 0)"
  by (simp_all add: cache_block_def ex_state_def)

lemma ex_cached: "cached ex_state 1 11 2" "cached ex_state 1 12 3"
  by (simp_all add: cached_def ex_state_def ex_obj_def compare_cache2_def avl_find_def pos_data_def
      avl_balance2child_def)

lemma ex_tree_rep: "tree_rep ex_state 1 1 ex_tree"
proof -
  have l: "tree_rep ex_state 1 2 (Bt (ex_leaf 3) [])" "tree_rep ex_state 1 3 (Bt (ex_leaf 7) [])"
    by (rule tree_rep.leaf, rule ex_blocks, rule ex_leaf_rep,
        simp add: ex_leaf_def ex_ent_def end_ent_def)+
  show ?thesis unfolding ex_tree_def
  proof (rule tree_rep.node [OF ex_blocks(1) ex_root_rep])
    show "caches ex_state 1 = Some \<lparr> c_vbn = 10, c_state = DIRTY, c_ib = (1, 374) \<rparr>"
      by (simp add: ex_state_def)
    show "\<exists>v c'. echild (ex_root ! i) = Some v \<and> c_vbn \<lparr> c_vbn = 10, c_state = DIRTY, c_ib = (1, 374) \<rparr> \<noteq> v \<and>
        cached ex_state 1 v c' \<and> tree_rep ex_state 1 c' ([Bt (ex_leaf 3) [], Bt (ex_leaf 7) []] ! i)"
      if "i < length ex_root" for i
      using that l ex_cached by (auto simp: ex_root_def ex_ent_def end_ent_def less_Suc_eq)
  qed (simp add: ex_root_def)
qed

lemma ex_entries: "bt_entries ex_tree = [ex_ent 3 None, ex_ent 4 None, ex_ent 5 (Some 11), ex_ent 7 None, ex_ent 8 None]"
  by (simp add: ex_tree_def ex_root_def ex_leaf_def bt_entries.simps) (simp add: ex_ent_def end_ent_def)

lemma ex_flags_table: "obj_flags 1 ex_state = Some 0x4003"
  by (simp add: obj_flags_def ex_state_def ex_obj_def buf_simps)

lemma ex_table: "table_at ex_state 1 ex_handle ex_tree"
  using ex_tree_rep ex_flags_table
  by (auto simp: table_at_def is_table_def FLAG_TABLE_def ex_handle_def ex_tree_def bt_height.simps)
     (simp add: ex_state_def ex_obj_def)

lemma ex_handles: "put_handle 1 ex_handle ex_state = ex_state"
  by (rule put_handle_same) (simp add: ex_state_def)

definition ex_cmp :: "u8 \<Rightarrow> ent \<Rightarrow> int" where
  "ex_cmp k e = (if hd (ekey e) > k then 1 else if hd (ekey e) < k then -1 else 0)"

lemma ex_collate: "os_collate_u64 [a] [b] = Some (if a > b then 1 else if a < b then -1 else 0)"
  by (subst os_collate_u64_cmp) (simp_all add: word_less_nat_alt)

lemma ex_rule: "collate_key 3 [a] v [b] w = Some (if a > b then 1 else if a < b then -1 else 0)"
proof -
  have "collate_rule_of 3 = Some CR_U64" by (simp add: collate_rule_of_def)
  then show ?thesis by (simp only: collate_key_def ex_collate) simp
qed

lemma ex_collates: "collates 1 ex_state [k] [] (ex_cmp k) (bt_entries ex_tree)"
  unfolding collates_def ex_flags_table
  by (intro exI [of _ "0x4003"] conjI refl ballI impI) (auto simp: ex_entries ex_rule ex_ent_def ex_cmp_def)

lemma ex_ordered: "ordered (ex_cmp k) (bt_entries ex_tree)"
  by (auto simp: ordered_def ex_entries ex_cmp_def ex_ent_def word_less_nat_alt word_unat_eq_iff)

section \<open>Properties\<close>

text \<open>C6: searching a key in a table whose blocks are cached returns for every height, changes nothing but
  the cursor, and finds exactly what is there: if an entry compares equal the cursor ends on such an entry,
  otherwise the key is reported missing and the cursor is on the first of the larger entries, in front of
  all of them, or on the end entry of the root when none is larger.\<close>

theorem table_search_correct:
  assumes "table_at s oid h t" "handles s hid = Some h" "hid \<noteq> 0" "key \<noteq> []"
    and "collates oid s key value cmp (bt_entries t)" "ordered cmp (bt_entries t)"
  shows "\<exists>h' r. index_search_key_nolock hid key value s = Some (r, put_handle hid h' s) \<and>
    (if \<exists>e \<in> set (bt_entries t). cmp e = 0
     then r = Inr () \<and> (\<exists>e ys. on_list s oid h' (e # ys) \<and> e \<in> set (bt_entries t) \<and> cmp e = 0)
     else r = Inl INDEX_ERR_KEY_NOT_FOUND \<and>
       (let larger = filter (\<lambda>e. 0 < cmp e) (bt_entries t) in
        if larger = [] then ie_test ENTRY_END hid (put_handle hid h' s) = Some True
        else on_list s oid h' larger))"
  using index_search_key_nolock_table [OF assms(1,3,4,5,6)] unfolding put_handle_same [OF assms(2)]
  by (elim exE conjE) (intro exI conjI)

theorem table_search_correct_witness:
  "\<exists>h'. index_search_key_nolock 1 [6] [] ex_state = Some (Inl INDEX_ERR_KEY_NOT_FOUND, put_handle 1 h' ex_state) \<and>
     on_list ex_state 1 h' [ex_ent 7 None, ex_ent 8 None]"
proof -
  have h: "handles ex_state 1 = Some ex_handle" by (simp add: ex_state_def)
  show ?thesis
    using table_search_correct [OF ex_table h _ _ ex_collates ex_ordered, of 6]
    by (auto simp: ex_entries ex_cmp_def ex_ent_def)
qed

text \<open>C7: walking over a table whose blocks are cached, of any height, calls the callback for every entry,
  in key order and once each, until it reports an error, and ends without any other error; end
  entries are skipped and inner entries visited between their subtrees. The callback reads the entry
  under the cursor.\<close>

theorem table_walk_visits_all:
  assumes "table_at s oid h t" "handles s hid = Some h" "hid \<noteq> 0" "\<not> has_flag flags INDEX_REMOVE_BLOCK"
    and "reads_entry cb f"
  shows "\<exists>h'. index_walk_all ops hid False flags cb para s =
    Some (visit_all f (bt_entries t) para, put_handle hid h' s)"
proof -
  let ?x = "flags AND NOT INDEX_WALK_MASK"
  note fl = walk_mask_flags [OF assms(4)]
  have tab: "is_table oid s" using assms(1) by (simp add: table_at_def)
  obtain h1 r where 1: "walk_tree ops hid (INDEX_GET_FIRST OR ?x) s = Some (r, put_handle hid h1 s)"
    "if bt_entries t = [] then r = Inl INDEX_ERR_ROOT else r = Inr () \<and> on_list s oid h1 (bt_entries t)"
    using walk_tree_first [OF assms(1) refl fl(3,2), of ops hid] put_handle_same [OF assms(2)] by auto
  show ?thesis
  proof (cases "bt_entries t = []")
    case True
    then show ?thesis using 1 assms(3) by (auto simp: index_walk_all_def Let_def)
  next
    case False
    then have r: "r = Inr ()" "on_list s oid h1 (bt_entries t)" using 1(2) by simp_all
    then have "index_walk_all ops hid False flags cb para s = walk_keys ops hid ?x cb para (put_handle hid h1 s)"
      using 1(1) assms(3) by (simp add: index_walk_all_def Let_def)
    then show ?thesis using walk_keys_on_list [OF r(2) tab assms(5) fl(1)] by simp
  qed
qed

definition collect_keys :: "nat \<Rightarrow> u8 list list \<Rightarrow> container \<Rightarrow> ((ofs_err + u8 list list) \<times> container) option" where
  "collect_keys hid ks s = do { (m, q) \<leftarrow> tree_ie hid s; Some (Inr (ks @ [GET_IE_KEY m q]), s) }"

theorem table_walk_visits_all_witness:
  "\<exists>h'. index_walk_all ct_ops 1 False 0 collect_keys [] ex_state = Some (Inr [[3], [4], [5], [7], [8]], put_handle 1 h' ex_state)"
proof -
  have h: "handles ex_state 1 = Some ex_handle" by (simp add: ex_state_def)
  have "reads_entry collect_keys (\<lambda>k v ks. Inr (ks @ [k]))" by (simp add: reads_entry_def collect_keys_def)
  from table_walk_visits_all [OF ex_table h _ _ this, of 0 ct_ops "[]"]
  show ?thesis by (auto simp: ex_entries ex_ent_def has_flag_def)
qed

text \<open>The number of keys of a table whose blocks are cached is the number of its entries without the end
  entries; the count returns for every height.\<close>

theorem table_total_keys:
  assumes "table_at s oid h t" "handles s hid = Some h" "hid \<noteq> 0"
  shows "\<exists>h'. index_get_total_key ops hid s = Some (Inr (int (length (bt_entries t))), put_handle hid h' s)"
  using index_get_total_key_table [OF assms(1,3)] put_handle_same [OF assms(2)] by simp

theorem table_total_keys_witness:
  "\<exists>h'. index_get_total_key ct_ops 1 ex_state = Some (Inr 5, put_handle 1 h' ex_state)"
proof -
  have h: "handles ex_state 1 = Some ex_handle" by (simp add: ex_state_def)
  show ?thesis using table_total_keys [OF ex_table h] by (simp add: ex_entries)
qed

end
