(* ===== verification/TableUpdate.thy ===== *)
theory TableUpdate
  imports Tables
begin

text \<open>
  Inserting into and removing from a leaf of a table of any height. The blocks of a table are in
  distinct buffers, so changing the bytes of one leaf changes one leaf of the tree; the entries of the
  whole tree change by one element. The leaf is already dirty and has room, or keeps an entry: no block
  is copied, split or freed.
\<close>

section \<open>Trees of distinct blocks\<close>

text \<open>\<open>tree_on s oid c C t\<close>: as \<open>tree_rep\<close>; \<open>C\<close> are the caches of the blocks, each used once.\<close>

inductive tree_on :: "container \<Rightarrow> nat \<Rightarrow> nat \<Rightarrow> nat set \<Rightarrow> bt \<Rightarrow> bool" for s oid where
  on_leaf: "cache_block s c = Some (b, m, p) \<Longrightarrow> ib_rep m p es \<Longrightarrow> \<forall>e \<in> set es. echild e = None \<Longrightarrow>
    tree_on s oid c {c} (Bt es [])"
| on_node: "cache_block s c = Some (b, m, p) \<Longrightarrow> ib_rep m p es \<Longrightarrow> length ts = length es \<Longrightarrow>
    caches s c = Some k \<Longrightarrow>
    (\<And>i. i < length es \<Longrightarrow> \<exists>v c'. echild (es ! i) = Some v \<and> c_vbn k \<noteq> v \<and> cached s oid v c' \<and>
       tree_on s oid c' (Cs i) (ts ! i) \<and> c \<notin> Cs i) \<Longrightarrow>
    (\<And>i j. i < length es \<Longrightarrow> j < length es \<Longrightarrow> i \<noteq> j \<Longrightarrow> Cs i \<inter> Cs j = {}) \<Longrightarrow>
    C = insert c (\<Union>i<length es. Cs i) \<Longrightarrow> tree_on s oid c C (Bt es ts)"

inductive_cases tree_onE: "tree_on s oid c C (Bt es ts)"

lemma tree_on_rep: "tree_on s oid c C t \<Longrightarrow> tree_rep s oid c t"
proof (induction rule: tree_on.induct)
  case (on_leaf c b m p es)
  then show ?case by (rule tree_rep.leaf)
next
  case (on_node c b m p es ts k Cs C)
  show ?case by (rule tree_rep.node [OF on_node.hyps(1-4)]) (use on_node.IH in blast)
qed

text \<open>A change of the state that keeps the caches, the object and the blocks of the tree.\<close>

definition keeps :: "container \<Rightarrow> container \<Rightarrow> nat set \<Rightarrow> bool" where
  "keeps s s' C \<longleftrightarrow> objs s' = objs s \<and> caches s' = caches s \<and> (\<forall>c \<in> C. cache_block s' c = cache_block s c)"

lemma cached_cong: "objs s' = objs s \<Longrightarrow> caches s' = caches s \<Longrightarrow> cached s' oid v c \<longleftrightarrow> cached s oid v c"
  by (simp add: cached_def compare_cache2_def [abs_def])

lemma tree_on_keeps: "tree_on s oid c C t \<Longrightarrow> keeps s s' C \<Longrightarrow> tree_on s' oid c C t"
proof (induction rule: tree_on.induct)
  case (on_leaf c b m p es)
  then show ?case by (intro tree_on.on_leaf) (auto simp: keeps_def)
next
  case (on_node c b m p es ts k Cs C)
  have "keeps s s' (Cs i)" if "i < length es" for i
    using on_node.prems on_node.hyps that by (auto simp: keeps_def)
  then have "\<exists>v c'. echild (es ! i) = Some v \<and> c_vbn k \<noteq> v \<and> cached s' oid v c' \<and>
      tree_on s' oid c' (Cs i) (ts ! i) \<and> c \<notin> Cs i" if "i < length es" for i
    using on_node.IH [OF that] that on_node.prems cached_cong [of s' s] by (metis keeps_def)
  then show ?case
    using on_node.hyps on_node.prems by (intro tree_on.on_node [where b = b and m = m and p = p and k = k and Cs = Cs]) (auto simp: keeps_def)
qed

section \<open>Changing a leaf\<close>

fun put_leaf :: "nat list \<Rightarrow> ent list \<Rightarrow> bt \<Rightarrow> bt" where
  "put_leaf [] es' t = Bt es' []"
| "put_leaf (i # is) es' (Bt es ts) = Bt es (ts[i := put_leaf is es' (ts ! i)])"

lemma at_path_on:
  assumes "tree_on s oid c C (Bt es ts)" "i < length es" "ts \<noteq> []" "echild (es ! i) = Some v" "cached s oid v c1"
  obtains b m p k Cs where "cache_block s c = Some (b, m, p)" "ib_rep m p es" "length ts = length es"
    "caches s c = Some k" "C = insert c (\<Union>i<length es. Cs i)"
    "\<And>i. i < length es \<Longrightarrow> \<exists>v c'. echild (es ! i) = Some v \<and> c_vbn k \<noteq> v \<and> cached s oid v c' \<and>
       tree_on s oid c' (Cs i) (ts ! i) \<and> c \<notin> Cs i"
    "\<And>i j. i < length es \<Longrightarrow> j < length es \<Longrightarrow> i \<noteq> j \<Longrightarrow> Cs i \<inter> Cs j = {}"
    "tree_on s oid c1 (Cs i) (ts ! i)"
proof -
  from assms(1,3) obtain b m p k Cs where 1: "cache_block s c = Some (b, m, p)" "ib_rep m p es"
    "length ts = length es" "caches s c = Some k" "C = insert c (\<Union>i<length es. Cs i)"
    and 2: "\<And>i. i < length es \<Longrightarrow> \<exists>v c'. echild (es ! i) = Some v \<and> c_vbn k \<noteq> v \<and> cached s oid v c' \<and>
       tree_on s oid c' (Cs i) (ts ! i) \<and> c \<notin> Cs i"
    and 3: "\<And>i j. i < length es \<Longrightarrow> j < length es \<Longrightarrow> i \<noteq> j \<Longrightarrow> Cs i \<inter> Cs j = {}"
    by (elim tree_onE) simp_all
  obtain v' c' where "echild (es ! i) = Some v'" "cached s oid v' c'" "tree_on s oid c' (Cs i) (ts ! i)"
    using 2 [OF assms(2)] by blast
  then have t1: "tree_on s oid c1 (Cs i) (ts ! i)" using assms(4,5) by (auto dest: cached_fun)
  show ?thesis
    by (rule that [where b = b and m = m and p = p and k = k and Cs = Cs]) (fact 1 2 3 t1)+
qed

lemma put_leaf_on:
  "at_path s oid c t is c' t' \<Longrightarrow> t' = Bt es0 [] \<Longrightarrow> tree_on s oid c C t \<Longrightarrow>
   c' \<in> C \<and>
   (keeps s s' (C - {c'}) \<longrightarrow> cache_block s' c' = Some (b, m, p) \<longrightarrow> ib_rep m p es' \<longrightarrow>
    (\<forall>e \<in> set es'. echild e = None) \<longrightarrow> tree_on s' oid c C (put_leaf is es' t))"
proof (induction arbitrary: C rule: at_path.induct)
  case (here c t)
  then have C: "C = {c}" by (auto elim!: tree_onE)
  show ?case using C tree_on.on_leaf [of s' c b m p es' oid] by simp
next
  case (down i es ts v c1 "is" c' t' c)
  note i = down.hyps(1)
  obtain b0 m0 p0 k Cs where 1: "cache_block s c = Some (b0, m0, p0)" "ib_rep m0 p0 es" "length ts = length es"
    "caches s c = Some k" "C = insert c (\<Union>i<length es. Cs i)"
    and ch: "\<And>i. i < length es \<Longrightarrow> \<exists>v c'. echild (es ! i) = Some v \<and> c_vbn k \<noteq> v \<and> cached s oid v c' \<and>
       tree_on s oid c' (Cs i) (ts ! i) \<and> c \<notin> Cs i"
    and dj: "\<And>i j. i < length es \<Longrightarrow> j < length es \<Longrightarrow> i \<noteq> j \<Longrightarrow> Cs i \<inter> Cs j = {}"
    and t1: "tree_on s oid c1 (Cs i) (ts ! i)"
    by (rule at_path_on [OF down.prems(2) i down.hyps(2-4)]) (rule that)
  note IH = down.IH [OF down.prems(1) t1]
  have c': "c' \<in> Cs i" "c' \<noteq> c" using IH ch [OF i] by auto
  have "c' \<in> C" using c' i 1(5) by auto
  moreover have "tree_on s' oid c C (put_leaf (i # is) es' (Bt es ts))"
    if k': "keeps s s' (C - {c'})" and b: "cache_block s' c' = Some (b, m, p)" "ib_rep m p es'"
      "\<forall>e \<in> set es'. echild e = None"
  proof -
    have sub: "Cs j \<subseteq> C" if "j < length es" for j using that 1(5) by auto
    have ki: "keeps s s' (Cs i - {c'})" using k' sub [OF i] by (auto simp: keeps_def)
    have oc: "objs s' = objs s" "caches s' = caches s" using k' by (simp_all add: keeps_def)
    have "\<exists>v d. echild (es ! j) = Some v \<and> c_vbn k \<noteq> v \<and> cached s' oid v d \<and>
        tree_on s' oid d (Cs j) (ts[i := put_leaf is es' (ts ! i)] ! j) \<and> c \<notin> Cs j" if j: "j < length es" for j
    proof (cases "j = i")
      case True
      obtain v' d where d: "echild (es ! i) = Some v'" "c_vbn k \<noteq> v'" "cached s oid v' d" "c \<notin> Cs i"
        using ch [OF i] by blast
      then have "v' = v" "d = c1" using down.hyps(3,4) cached_fun by auto
      moreover have "tree_on s' oid c1 (Cs i) (put_leaf is es' (ts ! i))" using IH ki b by blast
      ultimately show ?thesis using True d cached_cong [OF oc] i 1(3) by auto
    next
      case False
      then have "c' \<notin> Cs j" using dj [OF i j] c' by blast
      then have kj: "keeps s s' (Cs j)" using k' sub [OF j] by (auto simp: keeps_def)
      show ?thesis using ch [OF j] tree_on_keeps [OF _ kj] False cached_cong [OF oc] by (auto, blast)
    qed
    then have "tree_on s' oid c C (Bt es (ts[i := put_leaf is es' (ts ! i)]))"
      using k' oc 1 c' dj by (intro tree_on.on_node [where b = b0 and m = m0 and p = p0 and k = k and Cs = Cs]) (auto simp: keeps_def)
    then show ?thesis by simp
  qed
  ultimately show ?case by blast
qed

lemma put_leaf_entries:
  "at_path s oid c t is c' t' \<Longrightarrow> t' = Bt es0 [] \<Longrightarrow> tree_rep s oid c t \<Longrightarrow>
   tree_rep s' oid c (put_leaf is es' t) \<Longrightarrow> objs s' = objs s \<Longrightarrow> caches s' = caches s \<Longrightarrow>
   bt_entries (put_leaf is es' t) = fst (around t is) @ filter (\<lambda>e. \<not> eend e) es' @ snd (around t is)"
proof (induction rule: at_path.induct)
  case (here c t)
  then show ?case by (simp add: bt_entries.simps)
next
  case (down i es ts v c1 "is" c' t' c)
  have t1: "tree_rep s oid c1 (ts ! i)" using down.hyps down.prems(2) by (metis cached_fun option.inject tree_rep_child)
  have i: "i < length ts" using down.hyps(1,2) tree_rep_lengths [OF down.prems(2)] by auto
  have "cached s' oid v c1" using down.hyps(4) cached_cong [OF down.prems(4,5)] by simp
  then have t2: "tree_rep s' oid c1 (put_leaf is es' (ts ! i))"
    using down.hyps down.prems(3) i
    by (auto elim!: tree_rep_child [of s' oid c es "ts[i := put_leaf is es' (ts ! i)]" i] dest: cached_fun)
  have l: "bt_entries (put_leaf (i # is) es' (Bt es ts)) = pre es ts i @ bt_entries (put_leaf is es' (ts ! i)) @ rest_at es ts i"
    using tree_split [OF _ down.hyps(1), of s' oid c "ts[i := put_leaf is es' (ts ! i)]"] down.prems(3) i down.hyps(2)
    by simp
  show ?case using l down.IH [OF down.prems(1) t1 t2 down.prems(4,5)] by simp
qed

lemma put_leaf_height:
  "at_path s oid c t is c' t' \<Longrightarrow> t' = Bt es0 [] \<Longrightarrow> bt_height (put_leaf is es' t) = bt_height t"
proof (induction rule: at_path.induct)
  case (here c t)
  then show ?case by (simp add: bt_height.simps)
next
  case (down i es ts v c1 "is" c' t' c)
  have "map bt_height (ts[i := put_leaf is es' (ts ! i)]) = map bt_height ts"
    using down.IH [OF down.prems] by (simp add: map_update) (metis list_update_id map_update)
  moreover have "set (map bt_height xs) = bt_height ` set xs" for xs by simp
  ultimately show ?case using down.hyps(2) by (simp add: bt_height.simps del: set_map)
qed

section \<open>Tables\<close>

text \<open>
  A table of distinct blocks. The attribute record may be in front of a block in the same buffer, as
  it is for the root.
\<close>

definition table_on :: "container \<Rightarrow> nat \<Rightarrow> nat set \<Rightarrow> bt \<Rightarrow> bool" where
  "table_on s oid C t \<longleftrightarrow> is_table oid s \<and> bt_height t \<le> 15 \<and>
     inj_on (\<lambda>c. map_option (\<lambda>k. fst (c_ib k)) (caches s c)) C \<and>
     (\<exists>x. objs s oid = Some x \<and> tree_on s oid (oi_root_cache x) C t \<and>
        (\<forall>c \<in> C. \<forall>k. caches s c = Some k \<longrightarrow> fst (oi_attr_record x) = fst (c_ib k) \<longrightarrow>
           snd (oi_attr_record x) + 4 \<le> snd (c_ib k)))"

lemma table_on_at: "table_on s oid C t \<Longrightarrow> h_obj_info h = oid \<Longrightarrow> table_at s oid h t"
  using tree_on_rep by (fastforce simp: table_on_def table_at_def)

lemma is_table_same: "obj_flags oid s' = obj_flags oid s \<Longrightarrow> is_table oid s' \<longleftrightarrow> is_table oid s"
  by (simp add: is_table_def)

text \<open>Writing into one block of a table.\<close>

definition only_buf :: "container \<Rightarrow> container \<Rightarrow> nat \<Rightarrow> bool" where
  "only_buf s s' b \<longleftrightarrow> objs s' = objs s \<and> caches s' = caches s \<and> (\<forall>b'. b' \<noteq> b \<longrightarrow> bufs s' b' = bufs s b')"

lemma keeps_only_buf:
  assumes "inj_on (\<lambda>c. map_option (\<lambda>k. fst (c_ib k)) (caches s c)) C" "c \<in> C"
    "cache_block s c = Some (b, m, p)" "only_buf s s' b"
  shows "keeps s s' (C - {c})"
proof -
  obtain k where k: "caches s c = Some k" "fst (c_ib k) = b"
    using assms(3) by (auto simp: cache_block_def bind_eq_Some_conv)
  have "cache_block s' d = cache_block s d" if d: "d \<in> C" "d \<noteq> c" for d
  proof (cases "caches s d")
    case (Some k')
    then have "fst (c_ib k') \<noteq> b" using inj_onD [OF assms(1), of d c] d assms(2) k by auto
    then show ?thesis using assms(4) Some by (simp add: cache_block_def only_buf_def)
  qed (use assms(4) in \<open>simp add: cache_block_def only_buf_def\<close>)
  then show ?thesis using assms(4) by (auto simp: keeps_def only_buf_def)
qed

lemma table_on_write:
  assumes "table_on s oid C t" "objs s oid = Some x" "at_path s oid (oi_root_cache x) t is c (Bt es [])"
    "cache_block s c = Some (b, m, p)" "only_buf s s' b" "bufs s' b = Some m'" "ib_rep m' p es'"
    "\<forall>e \<in> set es'. echild e = None" "\<And>j. j < p \<Longrightarrow> m' j = m j"
  shows "table_on s' oid C (put_leaf is es' t)"
    "bt_entries (put_leaf is es' t) = fst (around t is) @ filter (\<lambda>e. \<not> eend e) es' @ snd (around t is)"
    "obj_flags oid s' = obj_flags oid s"
proof -
  from assms(1,2) have 1: "is_table oid s" "bt_height t \<le> 15" "tree_on s oid (oi_root_cache x) C t"
    "inj_on (\<lambda>c. map_option (\<lambda>k. fst (c_ib k)) (caches s c)) C"
    "\<And>c k. c \<in> C \<Longrightarrow> caches s c = Some k \<Longrightarrow> fst (oi_attr_record x) = fst (c_ib k) \<Longrightarrow>
       snd (oi_attr_record x) + 4 \<le> snd (c_ib k)"
    by (auto simp: table_on_def)
  obtain k where k: "caches s c = Some k" "c_ib k = (b, p)" "bufs s b = Some m"
    using assms(4) by (auto simp: cache_block_def bind_eq_Some_conv prod_eq_iff)
  have oc: "objs s' = objs s" "caches s' = caches s" using assms(5) by (simp_all add: only_buf_def)
  have cC: "c \<in> C" using put_leaf_on [OF assms(3) refl 1(3)] by blast
  have kp: "keeps s s' (C - {c})" by (rule keeps_only_buf [OF 1(4) cC assms(4,5)])
  have b': "cache_block s' c = Some (b, m', p)" using k oc assms(6) by (simp add: cache_block_def)
  have t': "tree_on s' oid (oi_root_cache x) C (put_leaf is es' t)"
    using put_leaf_on [OF assms(3) refl 1(3)] kp b' assms(7,8) by blast
  show fl: "obj_flags oid s' = obj_flags oid s"
  proof (cases "fst (oi_attr_record x) = b")
    case True
    then have "snd (oi_attr_record x) + 4 \<le> p" using 1(5) [OF cC k(1)] k(2) by simp
    then have "rd m' (snd (oi_attr_record x) + 2) 2 = rd m (snd (oi_attr_record x) + 2) 2"
      using assms(9) by (intro rd_eqI) simp
    then show ?thesis using True assms(2,6) oc k(3) by (simp add: obj_flags_def get16_def)
  next
    case False
    then show ?thesis using assms(2,5) by (simp add: obj_flags_def only_buf_def)
  qed
  show "table_on s' oid C (put_leaf is es' t)"
    using 1 t' oc assms(2) is_table_same [OF fl] put_leaf_height [OF assms(3) refl] by (auto simp: table_on_def)
  show "bt_entries (put_leaf is es' t) = fst (around t is) @ filter (\<lambda>e. \<not> eend e) es' @ snd (around t is)"
    by (rule put_leaf_entries [OF assms(3) refl tree_on_rep [OF 1(3)] tree_on_rep [OF t'] oc])
qed

section \<open>A dirty leaf\<close>

definition dirty_at :: "container \<Rightarrow> nat \<Rightarrow> bool" where
  "dirty_at s c \<longleftrightarrow> (\<exists>k. caches s c = Some k \<and> CACHE_DIRTY k)"

text \<open>A dirty block has its block number already.\<close>

lemma set_ib_dirty_dirty:
  assumes "handles s hid = Some h" "h_depth h \<le> 15" "dirty_at s (h_cache_stack h (h_depth h))"
  shows "set_ib_dirty ops hid s = Some (Inr (), s)"
proof -
  obtain k where k: "caches s (h_cache_stack h (h_depth h)) = Some k" "CACHE_DIRTY k"
    using assms(3) by (auto simp: dirty_at_def)
  have "set_ib_dirty_step ops hid 0 (h_depth h) up s = Some (Inr (), s)" for up
    using assms(1) k by (simp add: set_ib_dirty_step_def renew_block_def set_child_vbn_def)
  then have "set_ib_dirty_loop ops hid 0 (h_depth h) s = Some (Inr (), s)"
    by (cases "h_depth h") simp_all
  then show ?thesis using assms(1,2) by (simp add: set_ib_dirty_def TREE_MAX_DEPTH_def)
qed

definition leaf_ent :: "u8 list \<Rightarrow> u8 list \<Rightarrow> ent" where
  "leaf_ent key value = \<lparr> ekey = key, evalue = value, echild = None, eend = False \<rparr>"

lemma leaf_ent_simps [simp]:
  "ekey (leaf_ent key value) = key" "evalue (leaf_ent key value) = value"
  "echild (leaf_ent key value) = None" "\<not> eend (leaf_ent key value)"
  "esize (leaf_ent key value) = 9 + length key + length value"
  by (simp_all add: leaf_ent_def esize_def)

lemma new_ie_bytes:
  assumes "2 \<le> length jnk" shows "new_ie key value jnk = ent_bytes (le_val (take 2 jnk)) (leaf_ent key value)"
proof -
  have "take 2 jnk = bytes_le 2 (le_val (take 2 jnk))"
    using bytes_le_le_val [of "take 2 jnk"] assms by simp
  then show ?thesis
    by (simp add: new_ie_def ent_bytes_def ent_flags_def child_bytes_def)
qed

section \<open>Inserting\<close>

lemma put_handle_env: "env (put_handle hid h s) = env s" "tick (put_handle hid h s) = tick s"
  by (simp_all add: put_handle_def)

lemma tree_insert_ie_room:
  assumes cur: "cursor s oid h fs (c, es, [], i)" and b: "cache_block s c = Some (b, m, p)"
    and room: "33 + esizes es + esize e \<le> unat (bh_alloc_size m p)"
    and e: "esize e < 65536" "\<not> eend e" "echild e = None"
    and S: "handles S hid = Some h" "caches S = caches s" "bufs S = bufs s"
  shows "\<exists>m'. tree_insert_ie ops hid (ent_bytes prev e) S = set_ib_dirty ops hid (put_buf b m' S) \<and>
    ib_rep m' p (take i es @ e # drop i es) \<and> bh_alloc_size m' p = bh_alloc_size m p \<and>
    (\<forall>j. j < p \<or> p + 33 + esizes es + esize e \<le> j \<longrightarrow> m' j = m j)"
proof -
  from cur b have 1: "tree_rep s oid c (Bt es [])" "i < length es" "h_depth h = length fs" "h_cache h = c"
    "h_cache_stack h (length fs) = c" "h = go_to b p es i h" "ib_rep m p es" "length fs \<le> 15"
    by (auto elim!: cursorE)
  have ie: "h_ie h = (b, ie_off p es i)" using arg_cong [OF 1(6), of h_ie] by simp
  have "cache_block S c = Some (b, m, p)" using S b by (simp add: cache_block_def)
  then have tb: "tree_block hid S = Some (h, b, m, p)" using S(1) 1(4) by (simp add: tree_block_def)
  have sz: "unat (bh_real_size m p) = 33 + esizes es" using 1(7) by (simp add: ib_rep_def)
  have lt: "33 + esizes es + esize e < 2 ^ 32"
    using room unat_u32_less [of "bh_alloc_size m p"] by simp
  have le: "bh_real_size m p + ucast (el_len (ent_bytes prev e)) \<le> bh_alloc_size m p"
    using room lt sz e(1)
    by (simp add: word_le_nat_alt unat_word_ariths unat_ucast_up el_ent_bytes(2))
  have large: "echild e = None \<longleftrightarrow> \<not> has_flag (ib_node_type m p) BLOCK_LARGE"
    using 1(7) tree_rep_leaf [OF 1(1,2)] 1(2) e(3) by (auto simp: ib_rep_def dest: nth_mem)
  obtain m' prev' where ins: "insert_ie m p (ent_bytes prev e) (ie_off p es i) = Some (m', ent_bytes prev' e)"
    and m': "ib_rep m' p (take i es @ e # drop i es)"
    "\<forall>j. j < p \<or> p + 33 + esizes es + esize e \<le> j \<longrightarrow> m' j = m j"
    using insert_ie_rep [OF 1(7,2) e(1,2) large lt, of prev] by blast
  have "tree_insert_ie ops hid (ent_bytes prev e) S = set_ib_dirty ops hid (put_buf b m' S)"
    by (subst tree_insert_ie.simps) (simp add: tb le ins ie Let_def)
  then show ?thesis using m' insert_ie_alloc [OF ins ie_off_ge] by blast
qed

text \<open>The leaf that a key belongs to: all entries before it are smaller, all behind it larger.\<close>

definition leaf_for :: "container \<Rightarrow> nat \<Rightarrow> bt \<Rightarrow> (ent \<Rightarrow> int) \<Rightarrow> nat \<Rightarrow> ent list \<Rightarrow> bool" where
  "leaf_for s oid t cmp c es \<longleftrightarrow> (\<exists>x is. objs s oid = Some x \<and> at_path s oid (oi_root_cache x) t is c (Bt es []) \<and>
     (\<forall>e \<in> set (fst (around t is)). cmp e < 0) \<and> (\<forall>e \<in> set (snd (around t is)). 0 < cmp e))"

definition has_room :: "container \<Rightarrow> nat \<Rightarrow> nat \<Rightarrow> bool" where
  "has_room s c n \<longleftrightarrow> (\<exists>b m p. cache_block s c = Some (b, m, p) \<and>
     unat (bh_real_size m p) + n \<le> unat (bh_alloc_size m p))"

definition room_for :: "container \<Rightarrow> nat \<Rightarrow> bt \<Rightarrow> (ent \<Rightarrow> int) \<Rightarrow> nat \<Rightarrow> bool" where
  "room_for s oid t cmp n \<longleftrightarrow> (\<forall>c es. leaf_for s oid t cmp c es \<longrightarrow> dirty_at s c \<and> has_room s c n)"

definition fits :: "container \<Rightarrow> nat \<Rightarrow> bt \<Rightarrow> (ent \<Rightarrow> int) \<Rightarrow> nat \<Rightarrow> bool" where
  "fits s oid t cmp n \<longleftrightarrow> (\<forall>c es. leaf_for s oid t cmp c es \<longrightarrow> has_room s c n)"

lemma room_for_iff: "room_for s oid t cmp n \<longleftrightarrow> fits s oid t cmp n \<and> (\<forall>c es. leaf_for s oid t cmp c es \<longrightarrow> dirty_at s c)"
  by (auto simp: room_for_def fits_def)

text \<open>The state after the entry was put into its leaf, before the blocks above are changed.\<close>

definition after_put :: "container \<Rightarrow> nat \<Rightarrow> object_handle \<Rightarrow> nat \<Rightarrow> nat \<Rightarrow> buf \<Rightarrow> container" where
  "after_put s hid h n b m = put_buf b m ((put_handle hid h s)\<lparr> tick := tick s + n \<rparr>)"

lemma after_put_sel [simp]:
  "handles (after_put s hid h n b m) = (handles s)(hid \<mapsto> h)" "objs (after_put s hid h n b m) = objs s"
  "caches (after_put s hid h n b m) = caches s" "bufs (after_put s hid h n b m) = (bufs s)(b \<mapsto> m)"
  "ct_metadata_cache (after_put s hid h n b m) = ct_metadata_cache s" "next_id (after_put s hid h n b m) = next_id s"
  "env (after_put s hid h n b m) = env s" "tick (after_put s hid h n b m) = tick s + n"
  by (simp_all add: after_put_def put_buf_def put_handle_def)

lemma index_insert_key_put:
  assumes tab: "table_on s oid C t" and h: "handles s hid = Some h" "h_obj_info h = oid" "hid \<noteq> 0"
    and key: "key \<noteq> []" "9 + length key + length value < 65536"
    and co: "collates oid s key value cmp (bt_entries t)" and od: "ordered cmp (bt_entries t)"
    and new: "\<forall>e \<in> set (bt_entries t). cmp e \<noteq> 0"
    and mem: "io_malloc (env s (tick s))"
    and room: "fits s oid t cmp (9 + length key + length value)"
  shows "\<exists>x h1 fs c es i is b m m' q t' L R. objs s oid = Some x \<and> cursor s oid h1 fs (c, es, [], i) \<and>
    path_frames s oid (oi_root_cache x) t is fs c (Bt es []) \<and> leaf_for s oid t cmp c es \<and>
    (\<forall>s'. set_ib_dirty ops hid (after_put s hid h1 1 b m') = Some (Inr (), s') \<longrightarrow>
       index_insert_key_nolock ops hid key value s = Some (Inr (), s')) \<and>
    cache_block s c = Some (b, m, q) \<and> (\<forall>j < q. m' j = m j) \<and>
    t' = put_leaf is (take i es @ leaf_ent key value # drop i es) t \<and>
    table_on (after_put s hid h1 1 b m') oid C t' \<and> bt_entries t = L @ R \<and>
    bt_entries t' = L @ leaf_ent key value # R \<and> (\<forall>e \<in> set L. cmp e < 0) \<and> (\<forall>e \<in> set R. 0 < cmp e) \<and>
    obj_flags oid (after_put s hid h1 1 b m') = obj_flags oid s \<and> bh_alloc_size m' q = bh_alloc_size m q"
proof -
  have ta: "table_at s oid h t" by (rule table_on_at [OF tab h(2)])
  have s: "put_handle hid h s = s" by (rule put_handle_same [OF h(1)])
  obtain h1 found x where 1: "search_key_internal hid key value s =
      Some (if found then Inr () else Inl INDEX_ERR_KEY_NOT_FOUND, put_handle hid h1 s)"
    "objs s oid = Some x" "search_end s oid h1 cmp [] (oi_root_cache x) t found"
    using search_key_internal_table [OF ta key(1) co od, of hid] unfolding s by blast
  have tr: "tree_rep s oid (oi_root_cache x) t" using tab 1(2) tree_on_rep by (auto simp: table_on_def)
  have f: "\<not> found" using search_end_ordered [OF 1(3) tr] new by blast
  then have "search_end s oid h1 cmp [] (oi_root_cache x) t False" using 1(3) by simp
  then obtain fs c es i "is" L R where p: "cursor s oid h1 (fs @ []) (c, es, [], i)"
    "path_frames s oid (oi_root_cache x) t is fs c (Bt es [])"
    "at_path s oid (oi_root_cache x) t is c (Bt es [])" "length fs = length is"
    "L = fst (around t is) @ take i es" "R = rest_at es [] i @ snd (around t is)"
    "bt_entries t = L @ R" "\<forall>e \<in> set L. cmp e < 0" "\<forall>e \<in> set R. 0 < cmp e"
    using tr by (rule search_end_place)
  have c0: "cursor s oid h1 fs (c, es, [], i)" using p(1) by simp
  have lf: "leaf_for s oid t cmp c es" using p(3,5,6,8,9) 1(2) unfolding leaf_for_def by auto
  then have "has_room s c (9 + length key + length value)" using room by (auto simp: fits_def)
  then obtain b m q where b: "cache_block s c = Some (b, m, q)"
    "unat (bh_real_size m q) + (9 + length key + length value) \<le> unat (bh_alloc_size m q)"
    by (auto simp: has_room_def)
  from c0 b(1) have c: "ib_rep m q es" "i < length es" "h_cache h1 = c" "h_obj_info h1 = oid"
    "tree_rep s oid c (Bt es [])" by (auto elim!: cursorE)
  let ?e = "leaf_ent key value"
  define S where "S = (put_handle hid h1 s)\<lparr> tick := tick s + 1 \<rparr>"
  have SS: "handles S hid = Some h1" "caches S = caches s" "bufs S = bufs s" by (simp_all add: S_def)
  have room': "33 + esizes es + esize ?e \<le> unat (bh_alloc_size m q)"
    using b(2) c(1) by (simp add: ib_rep_def)
  have e: "esize ?e < 65536" "\<not> eend ?e" "echild ?e = None" using key(2) by simp_all
  have nb: "new_ie key value (fresh_junk S 2) = ent_bytes (le_val (take 2 (fresh_junk S 2))) ?e"
    by (rule new_ie_bytes) (simp add: fresh_junk_def)
  obtain m' where i': "tree_insert_ie ops hid (new_ie key value (fresh_junk S 2)) S = set_ib_dirty ops hid (put_buf b m' S)"
    and m': "ib_rep m' q (take i es @ ?e # drop i es)" "\<And>j. j < q \<Longrightarrow> m' j = m j" "bh_alloc_size m' q = bh_alloc_size m q"
    unfolding nb using tree_insert_ie_room [OF c0 b(1) room' e SS] by blast
  let ?S = "after_put s hid h1 1 b m'"
  have "index_insert_key_nolock ops hid key value s = Some (Inr (), s')"
    if "set_ib_dirty ops hid ?S = Some (Inr (), s')" for s'
    using assert_table_put_handle [of h s hid] ta s 1(1) f mem key i' h(3) that [unfolded after_put_def]
    by (simp add: index_insert_key_nolock_def table_at_def os_malloc_def S_def put_handle_env)
  moreover have ob: "only_buf s ?S b" by (simp add: only_buf_def)
  have nc: "\<forall>e \<in> set (take i es @ ?e # drop i es). echild e = None"
    using tree_rep_leaf [OF c(5)] by (auto dest!: in_set_takeD in_set_dropD simp: in_set_conv_nth)
  have b2: "bufs ?S b = Some m'" by simp
  note w = table_on_write [OF tab 1(2) p(3) b(1) ob b2 m'(1) nc m'(2)]
  have "\<forall>e \<in> set (take i es). \<not> eend e"
    using c(2) tree_rep_end [OF c(5)] by (auto simp: in_set_conv_nth)
  then have "filter (\<lambda>e. \<not> eend e) (take i es) = take i es" by (simp add: filter_id_conv)
  then have "bt_entries (put_leaf is (take i es @ ?e # drop i es) t) = L @ ?e # R"
    using w(2) p(5,6) by (simp add: rest_at_def after_leaf)
  ultimately show ?thesis
    using w(1,3) p(7-9) c0 p(2) 1(2) lf b(1) m'(2,3) by (intro exI conjI) (assumption | rule refl | blast)+
qed

lemma index_insert_key_leaf:
  assumes tab: "table_on s oid C t" and h: "handles s hid = Some h" "h_obj_info h = oid" "hid \<noteq> 0"
    and key: "key \<noteq> []" "9 + length key + length value < 65536"
    and co: "collates oid s key value cmp (bt_entries t)" and od: "ordered cmp (bt_entries t)"
    and new: "\<forall>e \<in> set (bt_entries t). cmp e \<noteq> 0"
    and mem: "io_malloc (env s (tick s))"
    and room: "room_for s oid t cmp (9 + length key + length value)"
  shows "\<exists>s' t' L R h'. index_insert_key_nolock ops hid key value s = Some (Inr (), s') \<and>
    table_on s' oid C t' \<and> bt_entries t = L @ R \<and> bt_entries t' = L @ leaf_ent key value # R \<and>
    (\<forall>e \<in> set L. cmp e < 0) \<and> (\<forall>e \<in> set R. 0 < cmp e) \<and>
    obj_flags oid s' = obj_flags oid s \<and> handles s' = (handles s)(hid \<mapsto> h') \<and> h_obj_info h' = oid \<and>
    objs s' = objs s \<and> caches s' = caches s"
proof -
  from room have fits: "fits s oid t cmp (9 + length key + length value)" by (simp add: room_for_iff)
  obtain x h1 fs c es i "is" b m m' q t' L R where 1: "objs s oid = Some x" "cursor s oid h1 fs (c, es, [], i)"
    "path_frames s oid (oi_root_cache x) t is fs c (Bt es [])" "leaf_for s oid t cmp c es"
    "\<forall>s'. set_ib_dirty ops hid (after_put s hid h1 1 b m') = Some (Inr (), s') \<longrightarrow>
       index_insert_key_nolock ops hid key value s = Some (Inr (), s')"
    "cache_block s c = Some (b, m, q)" "\<forall>j < q. m' j = m j"
    "t' = put_leaf is (take i es @ leaf_ent key value # drop i es) t"
    "table_on (after_put s hid h1 1 b m') oid C t'" "bt_entries t = L @ R"
    "bt_entries t' = L @ leaf_ent key value # R" "\<forall>e \<in> set L. cmp e < 0" "\<forall>e \<in> set R. 0 < cmp e"
    "obj_flags oid (after_put s hid h1 1 b m') = obj_flags oid s" "bh_alloc_size m' q = bh_alloc_size m q"
    using index_insert_key_put [OF tab h key co od new mem fits, where ops = ops] by (elim exE conjE) (rule that)
  have h1: "h_obj_info h1 = oid" "h_depth h1 \<le> 15" "h_cache_stack h1 (h_depth h1) = c" using 1(2) by (auto elim!: cursorE)
  have "dirty_at s c" using room 1(4) by (auto simp: room_for_def)
  then have "set_ib_dirty ops hid (after_put s hid h1 1 b m') = Some (Inr (), after_put s hid h1 1 b m')"
    using set_ib_dirty_dirty [of "after_put s hid h1 1 b m'" hid h1 ops] h1(2,3) by (simp add: dirty_at_def)
  with 1(5) have "index_insert_key_nolock ops hid key value s = Some (Inr (), after_put s hid h1 1 b m')" by blast
  then show ?thesis using 1(9-14) h1(1)
    by (intro exI [of _ "after_put s hid h1 1 b m'"] exI [of _ t'] exI [of _ L] exI [of _ R] exI [of _ h1]) simp
qed

section \<open>Removing\<close>

lemma tree_remove_ie_put:
  assumes cur: "cursor s oid h fs (c, es, [], i)" and b: "cache_block s c = Some (b, m, p)"
    and i: "Suc i < length es" and many: "2 < length es \<or> fs = []"
    and S: "handles S hid = Some h" "caches S = caches s" "bufs S = bufs s"
  shows "\<exists>m'. ib_rep m' p (take i es @ drop (Suc i) es) \<and> (\<forall>j < p. m' j = m j) \<and>
    bh_alloc_size m' p = bh_alloc_size m p \<and>
    (\<forall>s'. set_ib_dirty ops hid (put_buf b m' S) = Some (Inr (), s') \<longrightarrow> handles s' hid = Some h \<longrightarrow>
       cache_block s' c = Some (b, m', p) \<longrightarrow> tree_remove_ie ops hid S = Some (Inr (), s'))"
proof -
  from cur b have 1: "tree_rep s oid c (Bt es [])" "h_depth h = length fs" "h_cache h = c"
    "h_cache_stack h (length fs) = c" "h = go_to b p es i h" "ib_rep m p es" "length fs \<le> 15"
    by (auto elim!: cursorE)
  have il: "i < length es" using i by simp
  have ie: "h_ie h = (b, ie_off p es i)" using arg_cong [OF 1(5), of h_ie] by simp
  have "cache_block S c = Some (b, m, p)" using S b by (simp add: cache_block_def)
  then have tb: "tree_block hid S = Some (h, b, m, p)" using S(1) 1(3) by (simp add: tree_block_def)
  have ti: "tree_ie hid S = Some (m, ie_off p es i)"
    using S ie cache_block_bufs [OF b] by (simp add: tree_ie_def)
  have fl: "ie_flags m (ie_off p es i) = 0"
    using ent_at_fields(5) [OF ib_rep_nth [OF 1(6) il]] tree_rep_leaf [OF 1(1) il] tree_rep_end [OF 1(1) il] i
    by (simp add: ent_flags_def)
  let ?es = "take i es @ drop (Suc i) es"
  obtain m' where rm: "remove_ie m p (ie_off p es i) = Some m'" and m': "ib_rep m' p ?es"
    "\<forall>j. j < p \<or> p + 33 + esizes es \<le> j \<longrightarrow> m' j = m j"
    using remove_ie_rep [OF 1(6) i] by blast
  have "0 < length ?es" using i by simp
  then have en: "ie_is ENTRY_END m' (GET_FIRST_IE m' p) \<longleftrightarrow> length es = 2"
    using ib_rep_end [OF m'(1), of 0] i by (auto simp: ib_rep_first [OF m'(1)])
  have "tree_remove_ie ops hid S = Some (Inr (), s')"
    if s': "set_ib_dirty ops hid (put_buf b m' S) = Some (Inr (), s')" "handles s' hid = Some h"
      "cache_block s' c = Some (b, m', p)" for s'
  proof -
    have "tree_block hid s' = Some (h, b, m', p)" using s' 1(3) by (simp add: tree_block_def)
    then have "check_removed_ib ops hid s' = Some (Inr False, s')"
      using many 1(2) en by (auto simp: check_removed_ib_def)
    then have "remove_leaf ops hid S = Some (Inr (), s')"
      using rm s'(1) by (simp add: remove_leaf_def tb ie)
    then show ?thesis using fl by (simp add: tree_remove_ie_def ti ie_is_def has_flag_def)
  qed
  then show ?thesis using m' remove_ie_alloc [OF rm ie_off_ge] by blast
qed

text \<open>
  Removing a key found in a leaf that keeps another entry, or in a table of one block.
\<close>

definition keeps_entry :: "container \<Rightarrow> nat \<Rightarrow> bt \<Rightarrow> (ent \<Rightarrow> int) \<Rightarrow> bool" where
  "keeps_entry s oid t cmp \<longleftrightarrow> (\<forall>x is c es. objs s oid = Some x \<longrightarrow>
     at_path s oid (oi_root_cache x) t is c (Bt es []) \<longrightarrow> (\<exists>e \<in> set es. \<not> eend e \<and> cmp e = 0) \<longrightarrow>
     2 < length es \<or> is = [])"

definition leaf_keeps_entry :: "container \<Rightarrow> nat \<Rightarrow> bt \<Rightarrow> (ent \<Rightarrow> int) \<Rightarrow> bool" where
  "leaf_keeps_entry s oid t cmp \<longleftrightarrow> (\<forall>x is c es. objs s oid = Some x \<longrightarrow>
     at_path s oid (oi_root_cache x) t is c (Bt es []) \<longrightarrow> (\<exists>e \<in> set es. \<not> eend e \<and> cmp e = 0) \<longrightarrow>
     dirty_at s c \<and> (2 < length es \<or> is = []))"

lemma leaf_keeps_entryD:
  assumes "leaf_keeps_entry s oid t cmp"
  shows "keeps_entry s oid t cmp"
    "objs s oid = Some x \<Longrightarrow> at_path s oid (oi_root_cache x) t is c (Bt es []) \<Longrightarrow>
     e \<in> set es \<Longrightarrow> \<not> eend e \<Longrightarrow> cmp e = 0 \<Longrightarrow> dirty_at s c"
  using assms unfolding leaf_keeps_entry_def keeps_entry_def by blast+

lemma index_remove_key_put:
  assumes tab: "table_on s oid C t" and h: "handles s hid = Some h" "h_obj_info h = oid" "hid \<noteq> 0" "key \<noteq> []"
    and co: "collates oid s key [] cmp (bt_entries t)" and od: "ordered cmp (bt_entries t)"
    and old: "\<exists>e \<in> set (bt_entries t). cmp e = 0" "\<forall>e \<in> set (bt_entries t). cmp e = 0 \<longrightarrow> echild e = None"
    and leaf: "keeps_entry s oid t cmp"
  shows "\<exists>x h1 fs c es i is b m m' q t' L R. objs s oid = Some x \<and> cursor s oid h1 fs (c, es, [], i) \<and>
    path_frames s oid (oi_root_cache x) t is fs c (Bt es []) \<and> es ! i \<in> set es \<and> \<not> eend (es ! i) \<and>
    (\<forall>s'. set_ib_dirty ops hid (after_put s hid h1 0 b m') = Some (Inr (), s') \<longrightarrow> handles s' hid = Some h1 \<longrightarrow>
       cache_block s' c = Some (b, m', q) \<longrightarrow> index_remove_key_nolock ops hid key s = Some (Inr (), s')) \<and>
    cache_block s c = Some (b, m, q) \<and> (\<forall>j < q. m' j = m j) \<and>
    t' = put_leaf is (take i es @ drop (Suc i) es) t \<and>
    table_on (after_put s hid h1 0 b m') oid C t' \<and> bt_entries t = L @ es ! i # R \<and>
    bt_entries t' = L @ R \<and> cmp (es ! i) = 0 \<and>
    obj_flags oid (after_put s hid h1 0 b m') = obj_flags oid s"
proof -
  have ta: "table_at s oid h t" by (rule table_on_at [OF tab h(2)])
  have s: "put_handle hid h s = s" by (rule put_handle_same [OF h(1)])
  obtain h1 found x where 1: "search_key_internal hid key [] s =
      Some (if found then Inr () else Inl INDEX_ERR_KEY_NOT_FOUND, put_handle hid h1 s)"
    "objs s oid = Some x" "search_end s oid h1 cmp [] (oi_root_cache x) t found"
    using search_key_internal_table [OF ta h(4) co od, of hid] unfolding s by blast
  have tr: "tree_rep s oid (oi_root_cache x) t" using tab 1(2) tree_on_rep by (auto simp: table_on_def)
  have f: "found" using search_end_ordered [OF 1(3) tr] old by blast
  from 1(3) f obtain fs c es ts i "is" where p0: "cursor s oid h1 fs (c, es, ts, i)"
    "path_frames s oid (oi_root_cache x) t is fs c (Bt es ts)" "\<not> eend (es ! i)" "cmp (es ! i) = 0"
    by (fastforce simp: search_end_def)
  note ap = path_frames_at_path [OF p0(2)]
  have tr1: "tree_rep s oid c (Bt es ts)" and il: "i < length es" using cursor_tree [OF p0(1)] by simp_all
  have "es ! i \<in> set (bt_entries t)"
    using block_entries_subset(1) [OF tr1] il p0(3) at_path_entries [OF conjunct1 [OF ap] tr] by simp
  then have "echild (es ! i) = None" using old(2) p0(4) by simp
  then have ts: "ts = []" using tree_rep_node_iff [OF tr1 il] by simp
  note p = p0 [unfolded ts] and ap = ap [unfolded ts] and tr1 = tr1 [unfolded ts]
  have i: "Suc i < length es" using il tree_rep_end [OF tr1 il] p(3) by auto
  have "\<exists>e \<in> set es. \<not> eend e \<and> cmp e = 0" using il p(3,4) nth_mem by blast
  then have lf: "2 < length es \<or> fs = []"
    using leaf 1(2) ap unfolding keeps_entry_def by fastforce
  obtain b m q where b: "cache_block s c = Some (b, m, q)" by (rule tree_rep_block [OF tr1])
  let ?es = "take i es @ drop (Suc i) es"
  have S: "handles (put_handle hid h1 s) hid = Some h1" "caches (put_handle hid h1 s) = caches s"
    "bufs (put_handle hid h1 s) = bufs s" by simp_all
  obtain m' where m': "ib_rep m' q ?es" "\<And>j. j < q \<Longrightarrow> m' j = m j"
    and r: "\<forall>s'. set_ib_dirty ops hid (put_buf b m' (put_handle hid h1 s)) = Some (Inr (), s') \<longrightarrow>
      handles s' hid = Some h1 \<longrightarrow> cache_block s' c = Some (b, m', q) \<longrightarrow>
      tree_remove_ie ops hid (put_handle hid h1 s) = Some (Inr (), s')"
    using tree_remove_ie_put [OF p(1) b i lf S, where ops = ops] by blast
  let ?S = "after_put s hid h1 0 b m'"
  have SA: "?S = put_buf b m' (put_handle hid h1 s)" by (simp add: after_put_def put_handle_def)
  have "index_remove_key_nolock ops hid key s = Some (Inr (), s')"
    if "set_ib_dirty ops hid ?S = Some (Inr (), s')" "handles s' hid = Some h1" "cache_block s' c = Some (b, m', q)" for s'
    using assert_table_put_handle [of h s hid] ta s 1(1) f r that h(3,4) unfolding SA
    by (simp add: index_remove_key_nolock_def table_at_def)
  moreover have ob: "only_buf s ?S b" by (simp add: only_buf_def)
  have nc: "\<forall>e \<in> set ?es. echild e = None"
    using tree_rep_leaf [OF tr1] by (auto dest!: in_set_takeD in_set_dropD simp: in_set_conv_nth)
  have b2: "bufs ?S b = Some m'" by simp
  note w = table_on_write [OF tab 1(2) conjunct1 [OF ap] b ob b2 m'(1) nc m'(2)]
  let ?f = "filter (\<lambda>e. \<not> eend e)"
  let ?L = "fst (around t is) @ ?f (take i es)" and ?R = "?f (drop (Suc i) es) @ snd (around t is)"
  have "es = take i es @ es ! i # drop (Suc i) es" by (rule id_take_nth_drop [OF il])
  then have "?f es = ?f (take i es) @ es ! i # ?f (drop (Suc i) es)"
    using p(3) by (metis (mono_tags, lifting) filter.simps(2) filter_append)
  then have "bt_entries t = ?L @ es ! i # ?R"
    using at_path_entries [OF conjunct1 [OF ap] tr] by (simp add: bt_entries.simps)
  moreover have "bt_entries (put_leaf is ?es t) = ?L @ ?R" using w(2) by simp
  moreover have "es ! i \<in> set es" using il by simp
  ultimately show ?thesis
    using w(1,3) p(1-4) 1(2) b m'(2) by (intro exI conjI) (assumption | rule refl | blast)+
qed

lemma index_remove_key_leaf:
  assumes tab: "table_on s oid C t" and h: "handles s hid = Some h" "h_obj_info h = oid" "hid \<noteq> 0" "key \<noteq> []"
    and co: "collates oid s key [] cmp (bt_entries t)" and od: "ordered cmp (bt_entries t)"
    and old: "\<exists>e \<in> set (bt_entries t). cmp e = 0" "\<forall>e \<in> set (bt_entries t). cmp e = 0 \<longrightarrow> echild e = None"
    and leaf: "leaf_keeps_entry s oid t cmp"
  shows "\<exists>s' t' L e R h'. index_remove_key_nolock ops hid key s = Some (Inr (), s') \<and>
    table_on s' oid C t' \<and> bt_entries t = L @ e # R \<and> bt_entries t' = L @ R \<and> cmp e = 0 \<and>
    obj_flags oid s' = obj_flags oid s \<and> handles s' = (handles s)(hid \<mapsto> h') \<and> h_obj_info h' = oid \<and>
    objs s' = objs s \<and> caches s' = caches s \<and> env s' = env s \<and> tick s' = tick s"
proof -
  obtain x h1 fs c es i "is" b m m' q t' L R where 1: "objs s oid = Some x" "cursor s oid h1 fs (c, es, [], i)"
    "path_frames s oid (oi_root_cache x) t is fs c (Bt es [])" "es ! i \<in> set es" "\<not> eend (es ! i)"
    "\<forall>s'. set_ib_dirty ops hid (after_put s hid h1 0 b m') = Some (Inr (), s') \<longrightarrow> handles s' hid = Some h1 \<longrightarrow>
       cache_block s' c = Some (b, m', q) \<longrightarrow> index_remove_key_nolock ops hid key s = Some (Inr (), s')"
    "cache_block s c = Some (b, m, q)" "\<forall>j < q. m' j = m j"
    "t' = put_leaf is (take i es @ drop (Suc i) es) t" "table_on (after_put s hid h1 0 b m') oid C t'"
    "bt_entries t = L @ es ! i # R" "bt_entries t' = L @ R" "cmp (es ! i) = 0"
    "obj_flags oid (after_put s hid h1 0 b m') = obj_flags oid s"
    using index_remove_key_put [OF tab h co od old leaf_keeps_entryD(1) [OF leaf], where ops = ops]
    by (elim exE conjE) (rule that)
  let ?S = "after_put s hid h1 0 b m'"
  have h1: "h_obj_info h1 = oid" "h_depth h1 \<le> 15" "h_cache_stack h1 (h_depth h1) = c" using 1(2) by (auto elim!: cursorE)
  have "dirty_at s c"
    using leaf_keeps_entryD(2) [OF leaf 1(1) conjunct1 [OF path_frames_at_path [OF 1(3)]] 1(4,5,13)] .
  then have "set_ib_dirty ops hid ?S = Some (Inr (), ?S)"
    using set_ib_dirty_dirty [of ?S hid h1 ops] h1(2,3) by (simp add: dirty_at_def)
  moreover have "cache_block ?S c = Some (b, m', q)"
    using 1(7) by (auto simp: cache_block_def bind_eq_Some_conv)
  ultimately have "index_remove_key_nolock ops hid key s = Some (Inr (), ?S)" using 1(6) by simp
  then show ?thesis using 1(10-14) h1(1)
    by (intro exI [of _ ?S] exI [of _ t'] exI [of _ L] exI [of _ "es ! i"] exI [of _ R] exI [of _ h1]) simp
qed

section \<open>The example table\<close>

lemma ex_tree_on: "tree_on ex_state 1 1 {1, 2, 3} ex_tree"
proof -
  have l: "tree_on ex_state 1 2 {2} (Bt (ex_leaf 3) [])" "tree_on ex_state 1 3 {3} (Bt (ex_leaf 7) [])"
    by (rule tree_on.on_leaf, rule ex_blocks, rule ex_leaf_rep,
        simp add: ex_leaf_def ex_ent_def end_ent_def)+
  show ?thesis unfolding ex_tree_def
  proof (rule tree_on.on_node [where Cs = "\<lambda>i. if i = 0 then {2} else {3}", OF ex_blocks(1) ex_root_rep])
    show "caches ex_state 1 = Some \<lparr> c_vbn = 10, c_state = DIRTY, c_ib = (1, 374) \<rparr>"
      by (simp add: ex_state_def)
    show "\<exists>v c'. echild (ex_root ! i) = Some v \<and> c_vbn \<lparr> c_vbn = 10, c_state = DIRTY, c_ib = (1, 374) \<rparr> \<noteq> v \<and>
        cached ex_state 1 v c' \<and>
        tree_on ex_state 1 c' (if i = 0 then {2} else {3}) ([Bt (ex_leaf 3) [], Bt (ex_leaf 7) []] ! i) \<and>
        (1::nat) \<notin> (if i = 0 then {2} else {3})"
      if "i < length ex_root" for i
      using that l ex_cached by (auto simp: ex_root_def ex_ent_def end_ent_def less_Suc_eq)
    show "{1, 2, 3} = insert 1 (\<Union>i<length ex_root. if i = 0 then {2} else {3})"
      by (auto simp: ex_root_def lessThan_Suc)
  qed (auto simp: ex_root_def less_Suc_eq)
qed

lemma ex_table_on: "table_on ex_state 1 {1, 2, 3} ex_tree"
proof -
  have "inj_on (\<lambda>c. map_option (\<lambda>k. fst (c_ib k)) (caches ex_state c)) {1, 2, 3}"
    by (simp add: ex_state_def)
  moreover have "is_table 1 ex_state" "bt_height ex_tree \<le> 15" using ex_table by (simp_all add: table_at_def)
  moreover have "objs ex_state 1 = Some ex_obj" "oi_root_cache ex_obj = 1" by (simp_all add: ex_state_def ex_obj_def)
  ultimately show ?thesis
    using ex_tree_on by (simp add: table_on_def) (simp add: ex_state_def ex_obj_def)
qed

lemma ex_dirty: "c \<in> {1, 2, 3} \<Longrightarrow> dirty_at ex_state c"
  by (auto simp: dirty_at_def ex_state_def CACHE_DIRTY_def DIRTY_def)

lemma mk_block_alloc: "bh_alloc_size (mk_block m p nt es) p = bh_alloc_size m p"
  by (simp add: mk_block_def bh_alloc_size_def get_wr_disj get32_upd buf_simps)

lemma ex_room: "c \<in> {1, 2, 3} \<Longrightarrow> has_room ex_state c 20"
proof -
  have a: "bh_alloc_size (mk_block blank 0 nt es) 0 = 4096" for nt es
    unfolding mk_block_alloc by (simp add: blank_def bh_alloc_size_def buf_simps)
  have ar: "bh_alloc_size (put16 (mk_block blank_root 374 nt es) 364 v) 374 = 3722" for nt es v
    using mk_block_alloc [of blank_root 374 nt es]
    by (simp add: blank_root_def bh_alloc_size_def buf_simps)
  have r: "unat (bh_real_size (mk_block blank 0 0 (ex_leaf k)) 0) + 20 \<le> 4096" for k
    using ex_leaf_rep [of k] by (simp add: ib_rep_def ex_leaf_def)
  have rr: "unat (bh_real_size (put16 (mk_block blank_root 374 1 ex_root) 364 0x4003) 374) + 20 \<le> 3722"
    using ex_root_rep by (simp add: ib_rep_def ex_root_def)
  assume "c \<in> {1, 2, 3}"
  then consider "c = 1" | "c = 2" | "c = 3" by auto
  then show ?thesis
    by cases (simp_all only: has_room_def ex_blocks, use r rr in \<open>simp_all add: a ar\<close>)
qed

lemma ex_at_path: "at_path ex_state 1 1 ex_tree is c (Bt es []) \<Longrightarrow> c \<in> {1, 2, 3}"
  using put_leaf_on [OF _ refl ex_tree_on, of "is" c es] by blast

lemma ex_handle_at: "handles ex_state 1 = Some ex_handle" "h_obj_info ex_handle = 1"
  by (simp_all add: ex_state_def ex_handle_def)

lemma ex_objs: "objs ex_state 1 = Some ex_obj" "oi_root_cache ex_obj = 1"
  by (simp_all add: ex_state_def ex_obj_def)

lemma ex_leaf_for: "leaf_for ex_state 1 ex_tree cmp c es \<Longrightarrow> dirty_at ex_state c \<and> has_room ex_state c 20"
proof -
  assume "leaf_for ex_state 1 ex_tree cmp c es"
  then obtain x "is" where "objs ex_state 1 = Some x" "at_path ex_state 1 (oi_root_cache x) ex_tree is c (Bt es [])"
    unfolding leaf_for_def by blast
  then have "at_path ex_state 1 1 ex_tree is c (Bt es [])" using ex_objs by auto
  then show ?thesis using ex_at_path ex_dirty ex_room by blast
qed

lemma ex_malloc: "io_malloc (env ex_state (tick ex_state))"
  by (simp add: ex_state_def io_ok_def)

lemma has_room_mono: "has_room s c n \<Longrightarrow> k \<le> n \<Longrightarrow> has_room s c k"
  by (auto simp: has_room_def)

section \<open>Properties\<close>

text \<open>C8: inserting a new key into a table of any height returns and adds one entry to the entries of the
  table, behind all smaller and in front of all larger ones, with no other entry, block or object changed,
  when the leaf the key belongs to is dirty and has room.\<close>

theorem table_insert_adds_entry:
  assumes "table_on s oid C t" "handles s hid = Some h" "h_obj_info h = oid" "hid \<noteq> 0"
    and "key \<noteq> []" "9 + length key + length value < 65536"
    and "collates oid s key value cmp (bt_entries t)" "ordered cmp (bt_entries t)"
    and "\<forall>e \<in> set (bt_entries t). cmp e \<noteq> 0"
    and "io_malloc (env s (tick s))"
    and "room_for s oid t cmp (9 + length key + length value)"
  shows "\<exists>s' t' L R h'. index_insert_key_nolock ops hid key value s = Some (Inr (), s') \<and>
    table_on s' oid C t' \<and> bt_entries t = L @ R \<and> bt_entries t' = L @ leaf_ent key value # R \<and>
    (\<forall>e \<in> set L. cmp e < 0) \<and> (\<forall>e \<in> set R. 0 < cmp e) \<and>
    handles s' = (handles s)(hid \<mapsto> h') \<and> h_obj_info h' = oid \<and> objs s' = objs s \<and> caches s' = caches s"
proof -
  obtain s' t' L R h' where 1: "index_insert_key_nolock ops hid key value s = Some (Inr (), s')"
    "table_on s' oid C t'" "bt_entries t = L @ R" "bt_entries t' = L @ leaf_ent key value # R"
    "\<forall>e \<in> set L. cmp e < 0" "\<forall>e \<in> set R. 0 < cmp e"
    "handles s' = (handles s)(hid \<mapsto> h')" "h_obj_info h' = oid" "objs s' = objs s" "caches s' = caches s"
    using index_insert_key_leaf [OF assms, where ops = ops] by (elim exE conjE) (rule that)
  show ?thesis using 1 by (intro exI conjI)
qed

theorem table_insert_adds_entry_witness:
  "\<exists>s' t'. index_insert_key_nolock ct_ops 1 [6] [] ex_state = Some (Inr (), s') \<and>
     table_on s' 1 {1, 2, 3} t' \<and>
     bt_entries t' = [ex_ent 3 None, ex_ent 4 None, ex_ent 5 (Some 11), leaf_ent [6] [], ex_ent 7 None, ex_ent 8 None]"
proof -
  have new: "\<forall>e \<in> set (bt_entries ex_tree). ex_cmp 6 e \<noteq> 0" by (simp add: ex_entries ex_cmp_def ex_ent_def)
  have room: "room_for ex_state 1 ex_tree (ex_cmp 6) (9 + length [6 :: u8] + length ([] :: u8 list))"
    using ex_leaf_for has_room_mono [of ex_state _ 20 10] by (auto simp: room_for_def)
  obtain s' t' L R h' where 1: "index_insert_key_nolock ct_ops 1 [6] [] ex_state = Some (Inr (), s')"
    "table_on s' 1 {1, 2, 3} t'" "bt_entries ex_tree = L @ R" "bt_entries t' = L @ leaf_ent [6] [] # R"
    "\<forall>e \<in> set L. ex_cmp 6 e < 0" "\<forall>e \<in> set R. 0 < ex_cmp 6 e"
    using table_insert_adds_entry [OF ex_table_on ex_handle_at _ _ _ ex_collates ex_ordered new ex_malloc room, where ops = ct_ops]
    by auto
  have R: "R = [ex_ent 7 None, ex_ent 8 None]"
    using ordered_filter [OF 1(3,5,6)] by (simp add: ex_entries ex_cmp_def ex_ent_def)
  then have "L = [ex_ent 3 None, ex_ent 4 None, ex_ent 5 (Some 11)]" using 1(3) by (simp add: ex_entries)
  then show ?thesis using 1(1,2,4) R by auto
qed

text \<open>After a key was inserted, a search for it finds it.\<close>

theorem table_insert_then_search:
  assumes "table_on s oid C t" "handles s hid = Some h" "h_obj_info h = oid" "hid \<noteq> 0"
    and "key \<noteq> []" "9 + length key + length value < 65536"
    and "collates oid s key value cmp (leaf_ent key value # bt_entries t)" "ordered cmp (bt_entries t)"
    and "cmp (leaf_ent key value) = 0" "\<forall>e \<in> set (bt_entries t). cmp e \<noteq> 0"
    and "io_malloc (env s (tick s))"
    and "room_for s oid t cmp (9 + length key + length value)"
  shows "\<exists>s' s''. index_insert_key_nolock ops hid key value s = Some (Inr (), s') \<and>
    index_search_key_nolock hid key value s' = Some (Inr (), s'')"
proof -
  let ?e = "leaf_ent key value"
  have co: "collates oid s key value cmp (bt_entries t)"
    by (rule collates_mono [OF assms(7)]) auto
  obtain s' t' L R h' where 1: "index_insert_key_nolock ops hid key value s = Some (Inr (), s')"
    "table_on s' oid C t'" "bt_entries t = L @ R" "bt_entries t' = L @ ?e # R"
    "\<forall>e \<in> set L. cmp e < 0" "\<forall>e \<in> set R. 0 < cmp e" "obj_flags oid s' = obj_flags oid s"
    "handles s' = (handles s)(hid \<mapsto> h')" "h_obj_info h' = oid"
    using index_insert_key_leaf [OF assms(1-6) co assms(8,10-12), where ops = ops] by (elim exE conjE) (rule that)
  have co': "collates oid s' key value cmp (bt_entries t')"
    using assms(7) 1(3,4,7) by (auto simp: collates_def)
  have od': "ordered cmp (bt_entries t')"
    using assms(8,9) 1(3-6) by (fastforce simp: ordered_def sorted_wrt_append)
  have h': "handles s' hid = Some h'" using 1(8) by simp
  have tb: "table_at s' oid h' t'" by (rule table_on_at [OF 1(2,9)])
  have "\<exists>e \<in> set (bt_entries t'). cmp e = 0" using 1(4) assms(9) by simp
  then show ?thesis
    using index_search_key_nolock_table [OF tb assms(4,5) co' od'] put_handle_same [OF h'] 1(1) by auto
qed

theorem table_insert_then_search_witness:
  "\<exists>s' s''. index_insert_key_nolock ct_ops 1 [6] [] ex_state = Some (Inr (), s') \<and>
     index_search_key_nolock 1 [6] [] s' = Some (Inr (), s'')"
proof -
  have new: "\<forall>e \<in> set (bt_entries ex_tree). ex_cmp 6 e \<noteq> 0" by (simp add: ex_entries ex_cmp_def ex_ent_def)
  have room: "room_for ex_state 1 ex_tree (ex_cmp 6) (9 + length [6 :: u8] + length ([] :: u8 list))"
    using ex_leaf_for has_room_mono [of ex_state _ 20 10] by (auto simp: room_for_def)
  have co: "collates 1 ex_state [6] [] (ex_cmp 6) (leaf_ent [6] [] # bt_entries ex_tree)"
    unfolding collates_def ex_flags_table
    by (intro exI [of _ "0x4003"] conjI refl ballI impI) (auto simp: ex_entries ex_rule ex_ent_def ex_cmp_def)
  show ?thesis
    using table_insert_then_search [OF ex_table_on ex_handle_at _ _ _ co ex_ordered _ new ex_malloc room, where ops = ct_ops]
    by (simp add: ex_cmp_def)
qed

text \<open>C17: a key that the table has is refused with \<open>INDEX_ERR_KEY_EXIST\<close>, and a new key with
  \<open>INDEX_ERR_ALLOCATE_MEMORY\<close> when there is no memory for the entry; the table is as before.\<close>

theorem table_insert_refused:
  assumes "table_on s oid C t" "handles s hid = Some h" "h_obj_info h = oid" "hid \<noteq> 0" "key \<noteq> []"
    and "collates oid s key value cmp (bt_entries t)" "ordered cmp (bt_entries t)"
    and "(\<exists>e \<in> set (bt_entries t). cmp e = 0) \<or> \<not> io_malloc (env s (tick s))"
  shows "\<exists>s'. index_insert_key_nolock ops hid key value s =
      Some (Inl (if \<exists>e \<in> set (bt_entries t). cmp e = 0 then INDEX_ERR_KEY_EXIST else INDEX_ERR_ALLOCATE_MEMORY), s') \<and>
    table_on s' oid C t \<and> bufs s' = bufs s \<and> objs s' = objs s \<and> caches s' = caches s"
proof -
  have ta: "table_at s oid h t" by (rule table_on_at [OF assms(1,3)])
  have s: "put_handle hid h s = s" by (rule put_handle_same [OF assms(2)])
  obtain h1 found x where 1: "search_key_internal hid key value s =
      Some (if found then Inr () else Inl INDEX_ERR_KEY_NOT_FOUND, put_handle hid h1 s)"
    "objs s oid = Some x" "search_end s oid h1 cmp [] (oi_root_cache x) t found"
    using search_key_internal_table [OF ta assms(5,6,7), of hid] unfolding s by blast
  have tr: "tree_rep s oid (oi_root_cache x) t" using assms(1) 1(2) tree_on_rep by (auto simp: table_on_def)
  have f: "found \<longleftrightarrow> (\<exists>e \<in> set (bt_entries t). cmp e = 0)" by (rule search_end_ordered [OF 1(3) tr])
  have tb: "assert_table hid s = Some ()"
    using assert_table_put_handle [of h s hid] ta s by (simp add: table_at_def)
  have keep: "table_on S oid C t" if "objs S = objs s" "caches S = caches s" "bufs S = bufs s" for S
  proof -
    have "keeps s S D" for D using that by (simp add: keeps_def cache_block_def)
    moreover have "obj_flags oid S = obj_flags oid s" using that by (simp add: obj_flags_def)
    ultimately show ?thesis
      using assms(1) that tree_on_keeps is_table_same [of oid S s] by (fastforce simp: table_on_def)
  qed
  show ?thesis
  proof (cases found)
    case True
    then have "index_insert_key_nolock ops hid key value s = Some (Inl INDEX_ERR_KEY_EXIST, put_handle hid h1 s)"
      using 1(1) tb assms(4,5) by (simp add: index_insert_key_nolock_def)
    then show ?thesis using f True keep [of "put_handle hid h1 s"] by auto
  next
    case False
    then have m: "\<not> io_malloc (env s (tick s))" using f assms(8) by blast
    let ?S = "(put_handle hid h1 s)\<lparr> tick := tick s + 1 \<rparr>"
    have "index_insert_key_nolock ops hid key value s = Some (Inl INDEX_ERR_ALLOCATE_MEMORY, ?S)"
      using 1(1) tb assms(4,5) m False by (simp add: index_insert_key_nolock_def os_malloc_def put_handle_env)
    then show ?thesis using f False keep [of ?S] by auto
  qed
qed

theorem table_insert_refused_witness:
  "\<exists>s'. index_insert_key_nolock ct_ops 1 [5] [] ex_state = Some (Inl INDEX_ERR_KEY_EXIST, s') \<and>
     table_on s' 1 {1, 2, 3} ex_tree"
proof -
  have old: "\<exists>e \<in> set (bt_entries ex_tree). ex_cmp 5 e = 0" by (simp add: ex_entries ex_cmp_def ex_ent_def)
  show ?thesis
    using table_insert_refused [OF ex_table_on ex_handle_at _ _ ex_collates ex_ordered, of 5 ct_ops] old by auto
qed

text \<open>C9: removing a key that is in a leaf which keeps another entry, or in a table of one block, removes
  one equal entry from the entries of the table and changes no other; the leaf is dirty.\<close>

theorem table_remove_removes_entry:
  assumes "table_on s oid C t" "handles s hid = Some h" "h_obj_info h = oid" "hid \<noteq> 0" "key \<noteq> []"
    and "collates oid s key [] cmp (bt_entries t)" "ordered cmp (bt_entries t)"
    and "\<exists>e \<in> set (bt_entries t). cmp e = 0" "\<forall>e \<in> set (bt_entries t). cmp e = 0 \<longrightarrow> echild e = None"
    and "leaf_keeps_entry s oid t cmp"
  shows "\<exists>s' t' L e R. index_remove_key_nolock ops hid key s = Some (Inr (), s') \<and>
    table_on s' oid C t' \<and> bt_entries t = L @ e # R \<and> bt_entries t' = L @ R \<and> cmp e = 0 \<and>
    objs s' = objs s \<and> caches s' = caches s"
proof -
  obtain s' t' L e R where 1: "index_remove_key_nolock ops hid key s = Some (Inr (), s')"
    "table_on s' oid C t'" "bt_entries t = L @ e # R" "bt_entries t' = L @ R" "cmp e = 0"
    "objs s' = objs s" "caches s' = caches s"
    using index_remove_key_leaf [OF assms, where ops = ops] by (elim exE conjE) (rule that)
  show ?thesis using 1 by (intro exI conjI)
qed

lemma at_path_leaf: "at_path s oid c (Bt es []) is c' t' \<Longrightarrow> is = [] \<and> t' = Bt es []"
  by (cases "is") (auto elim: at_path_ConsE)

lemma ex_leaf_length:
  assumes "at_path ex_state 1 1 ex_tree is c (Bt es [])" shows "2 < length es"
proof (cases "is")
  case Nil
  then show ?thesis using assms by (simp add: ex_tree_def)
next
  case (Cons i js)
  from assms [unfolded Cons ex_tree_def] obtain c1
    where "i < length ex_root" "at_path ex_state 1 c1 ([Bt (ex_leaf 3) [], Bt (ex_leaf 7) []] ! i) js c (Bt es [])"
    by (rule at_path_ConsE) auto
  then have "es = ex_leaf 3 \<or> es = ex_leaf 7"
    by (auto simp: ex_root_def less_Suc_eq dest!: at_path_leaf)
  then show ?thesis by (auto simp: ex_leaf_def)
qed

theorem table_remove_removes_entry_witness:
  "\<exists>s' t'. index_remove_key_nolock ct_ops 1 [7] ex_state = Some (Inr (), s') \<and>
     table_on s' 1 {1, 2, 3} t' \<and>
     bt_entries t' = [ex_ent 3 None, ex_ent 4 None, ex_ent 5 (Some 11), ex_ent 8 None]"
proof -
  have old: "\<exists>e \<in> set (bt_entries ex_tree). ex_cmp 7 e = 0"
    "\<forall>e \<in> set (bt_entries ex_tree). ex_cmp 7 e = 0 \<longrightarrow> echild e = None"
    by (simp_all add: ex_entries ex_cmp_def ex_ent_def)
  have leaf: "leaf_keeps_entry ex_state 1 ex_tree (ex_cmp 7)"
    unfolding leaf_keeps_entry_def
  proof (intro allI impI)
    fix x "is" c es
    assume "objs ex_state 1 = Some x" "at_path ex_state 1 (oi_root_cache x) ex_tree is c (Bt es [])"
    then have "at_path ex_state 1 1 ex_tree is c (Bt es [])" using ex_objs by auto
    then show "dirty_at ex_state c \<and> (2 < length es \<or> is = [])"
      using ex_leaf_length ex_at_path ex_dirty by blast
  qed
  obtain s' t' L e R where 1: "index_remove_key_nolock ct_ops 1 [7] ex_state = Some (Inr (), s')"
    "table_on s' 1 {1, 2, 3} t'" "bt_entries ex_tree = L @ e # R" "bt_entries t' = L @ R" "ex_cmp 7 e = 0"
    using table_remove_removes_entry [OF ex_table_on ex_handle_at _ _ ex_collates ex_ordered old leaf, where ops = ct_ops]
    by auto
  have e: "e = ex_ent 7 None"
  proof -
    have "e \<in> set (bt_entries ex_tree)" using 1(3) by simp
    then show ?thesis using 1(5) by (auto simp: ex_entries ex_cmp_def ex_ent_def)
  qed
  have "distinct (bt_entries ex_tree)" by (simp add: ex_entries ex_ent_def)
  then have "L @ R = remove1 e (bt_entries ex_tree)" using 1(3) by (simp add: remove1_append)
  then show ?thesis using 1(1,2,4) e by (auto simp: ex_entries ex_ent_def)
qed

end
