(* ===== verification/NodeIndex.thy ===== *)
theory NodeIndex
  imports OfsState
begin

text \<open>
  AVL trees of numbers of records (caches, objects, containers): what finding, adding and removing do to
  the set of members, when the code's comparison agrees with a key on the members of the tree. The
  comparison functions of the code read the memory, so they are only known to agree there.
\<close>

section \<open>Members\<close>

definition members :: "'a avl_tree \<Rightarrow> 'a set" where
  "members t = set (inorder (avl_root t))"

lemma members_create [simp]: "members avl_create = {}"
  by (simp add: members_def avl_create_def)

lemma avl_inv_create [simp]: "avl_inv key avl_create"
  by (simp add: avl_inv_def avl_create_def)

lemma finite_members [simp]: "finite (members t)"
  by (simp add: members_def)

lemma avl_inv_key_cong:
  "(\<And>a. a \<in> members t \<Longrightarrow> key a = key' a) \<Longrightarrow> avl_inv key t \<longleftrightarrow> avl_inv key' t"
  by (auto simp: avl_inv_def members_def cong: map_cong)

lemma avl_inv_inj: "avl_inv key t \<Longrightarrow> inj_on key (members t)"
  by (auto simp: avl_inv_def members_def strict_sorted_iff distinct_map)

lemma avl_inv_empty_iff: "avl_inv key t \<Longrightarrow> members t = {} \<longleftrightarrow> avl_destroy t = Some ()"
  by (auto simp: avl_inv_def members_def avl_destroy_def inorder_Nil_iff)

lemma find_from_cong:
  "(\<And>a. a \<in> set (inorder t) \<Longrightarrow> c a = c' a) \<Longrightarrow> find_from c t fs = find_from c' t fs"
  by (induction c t fs rule: find_from.induct) (auto simp: Let_def)

section \<open>Operations on the members\<close>

lemma avl_find_member:
  assumes "avl_inv key t" "\<And>b. b \<in> members t \<Longrightarrow> cmp b = three_way k (key b)" "a \<in> members t" "key a = k"
  shows "\<exists>p. avl_find t cmp = Some (Found p) \<and> pos_data p = a \<and> fst p \<noteq> ANil \<and>
    plug (fst p) (snd p) = avl_root t"
proof -
  have "find_from cmp (avl_root t) [] = find_from (\<lambda>x. three_way k (key x)) (avl_root t) []"
    using assms(2) by (intro find_from_cong) (simp add: members_def)
  with find_from_Found [of key "avl_root t" a k "[]"] assms show ?thesis
    by (auto simp: avl_find_def avl_inv_def members_def)
qed

lemma avl_find_no_member:
  assumes "avl_inv key t" "\<And>b. b \<in> members t \<Longrightarrow> cmp b = three_way k (key b)" "k \<notin> key ` members t"
  shows "\<exists>w. avl_find t cmp = Some (Where w)"
proof -
  have "find_from cmp (avl_root t) [] = find_from (\<lambda>x. three_way k (key x)) (avl_root t) []"
    using assms(2) by (intro find_from_cong) (simp add: members_def)
  with find_from_Where [of key "avl_root t" k "[]"] assms show ?thesis
    by (auto simp: avl_find_def avl_inv_def members_def)
qed

lemma avl_add_member:
  assumes "avl_inv key t" "\<And>b. b \<in> members t \<Longrightarrow> cmp a b = three_way (key a) (key b)"
    "key a \<notin> key ` members t"
  shows "\<exists>t'. avl_add cmp t a = Some t' \<and> avl_inv key t' \<and> members t' = insert a (members t)"
proof -
  have "find_from (cmp a) (avl_root t) [] = find_from (key_cmp key a) (avl_root t) []"
    using assms(2) by (intro find_from_cong) (simp add: members_def key_cmp_def)
  then have "avl_add cmp t a = avl_add (key_cmp key) t a" by (simp add: avl_add_def avl_find_def)
  with avl_add_new [of key t a] assms show ?thesis by (auto simp: members_def)
qed

lemma node_pos_found:
  "a \<in> set (inorder t) \<Longrightarrow> \<exists>p. node_pos a t fs = Some p \<and> fst p \<noteq> ANil \<and> pos_data p = a \<and>
     plug (fst p) (snd p) = plug t fs"
proof (induction t arbitrary: fs)
  case (ANode l x b r)
  have l: "node_pos a l gs = Some p \<Longrightarrow> fst p \<noteq> ANil \<and> pos_data p = a \<and> plug (fst p) (snd p) = plug l gs"
    if "a \<in> set (inorder l)" for gs p using ANode.IH(1) [OF that, of gs] by auto
  have n: "node_pos a t' gs = Some p \<Longrightarrow> a \<in> set (inorder t')" for t' gs p
    by (induction t' arbitrary: gs p) (auto split: if_splits option.splits)
  show ?case
  proof (cases "x = a")
    case True
    then show ?thesis by (simp add: pos_data_def)
  next
    case False
    show ?thesis
    proof (cases "node_pos a l ((False, x, b, r) # fs)")
      case None
      with ANode.IH(1) [of "(False, x, b, r) # fs"] have "a \<notin> set (inorder l)" by auto
      with ANode.prems False have "a \<in> set (inorder r)" by simp
      from ANode.IH(2) [OF this, of "(True, x, b, l) # fs"] None False show ?thesis
        by (auto simp: mk_node_def)
    next
      case (Some p)
      with l [OF n [OF Some], of _ p] False show ?thesis by (auto simp: mk_node_def)
    qed
  qed
qed simp

lemma avl_remove_node_member:
  assumes "avl_inv key t" "a \<in> members t"
  shows "\<exists>t'. avl_remove_node t a = Some t' \<and> avl_inv key t' \<and> members t' = members t - {a}"
proof -
  obtain p where p: "node_pos a (avl_root t) [] = Some p" "fst p \<noteq> ANil" "pos_data p = a"
    "plug (fst p) (snd p) = avl_root t"
    using node_pos_found [of a "avl_root t" "[]"] assms(2) by (auto simp: members_def)
  from avl_remove_at [OF _ _ p(4,2)] assms(1) p(3) obtain t' xs ys where
    t': "avl_remove t p = Some t'" "avl_ok (avl_root t')" "avl_numnodes t' = avl_numnodes t - 1"
      "inorder (avl_root t) = xs @ a # ys" "inorder (avl_root t') = xs @ ys"
    unfolding avl_inv_def by blast
  have inv: "avl_inv key t'" using assms(1) t' by (auto simp: avl_inv_def sorted_wrt_append)
  have "distinct (xs @ a # ys)"
    using assms(1) t'(4) by (auto simp: avl_inv_def strict_sorted_iff distinct_map)
  then have "members t' = members t - {a}" using t'(4,5) by (auto simp: members_def)
  with inv t'(1) p(1) show ?thesis by (simp add: avl_remove_node_def)
qed

lemma avl_remove_node_SomeD:
  "avl_remove_node t a = Some t' \<Longrightarrow> a \<in> members t"
proof -
  have "node_pos a t' gs = Some p \<Longrightarrow> a \<in> set (inorder t')" for t' gs p
    by (induction t' arbitrary: gs p) (auto split: if_splits option.splits)
  then show "avl_remove_node t a = Some t' \<Longrightarrow> a \<in> members t"
    by (auto simp: avl_remove_node_def members_def split: option.splits)
qed

section \<open>Walking over the members\<close>

text \<open>A walk whose callback never ends it.\<close>

lemma walk_nodes_invariant:
  assumes "P xs s" "\<And>x xs s. P (x # xs) s \<Longrightarrow> \<exists>s'. cb x s = Some (False, s') \<and> P xs s'"
  shows "\<exists>s'. walk_nodes cb xs s = Some s' \<and> P [] s'"
  using assms(1)
proof (induction xs arbitrary: s)
  case (Cons x xs)
  then obtain s' where "cb x s = Some (False, s')" "P xs s'" using assms(2) by blast
  with Cons.IH show ?case by auto
qed auto

text \<open>A walk that a callback may end.\<close>

lemma walk_nodes_until:
  assumes "P xs s" "\<And>x xs s. P (x # xs) s \<Longrightarrow> \<exists>nz s'. cb x s = Some (nz, s') \<and> (if nz then Q s' else P xs s')"
  shows "\<exists>s'. walk_nodes cb xs s = Some s' \<and> (P [] s' \<or> Q s')"
  using assms(1)
proof (induction xs arbitrary: s)
  case (Cons x xs)
  then obtain nz s' where "cb x s = Some (nz, s')" "if nz then Q s' else P xs s'" using assms(2) by blast
  with Cons.IH show ?case by (cases nz) auto
qed auto

lemma walk_all_nodes:
  "avl_inv key t \<Longrightarrow> walk_all t cb s = walk_nodes cb (inorder (avl_root t)) s"
  by (auto simp: walk_all_def avl_inv_def)

lemma inorder_members: "avl_inv key t \<Longrightarrow> distinct (inorder (avl_root t)) \<and> set (inorder (avl_root t)) = members t"
  by (auto simp: avl_inv_def members_def strict_sorted_iff distinct_map)

lemma walk_all_empty: "avl_inv key t \<Longrightarrow> members t = {} \<Longrightarrow> walk_all t cb s = Some s"
  by (simp add: walk_all_def avl_inv_def members_def)

end
