(* ===== verification/CacheIndex.thy ===== *)
theory CacheIndex
  imports NodeIndex MetaCache
begin

text \<open>
  The index of the metadata caches: every cached block is in the tree of the container, those in use
  by an object also in the tree of that object, and both trees are ordered by block number. The
  operations of \<open>MetaCache\<close> keep this invariant; \<open>index_block_read2\<close> is specified on every branch.
\<close>

section \<open>The invariant\<close>

definition cache_key :: "container \<Rightarrow> nat \<Rightarrow> u64" where
  "cache_key s c = c_vbn (the (caches s c))"

definition cache_tree :: "container \<Rightarrow> nat avl_tree \<Rightarrow> bool" where
  "cache_tree s t \<longleftrightarrow> avl_inv (cache_key s) t \<and> members t \<subseteq> dom (caches s)"

definition caches_ok :: "container \<Rightarrow> bool" where
  "caches_ok s \<longleftrightarrow> cache_tree s (ct_metadata_cache s) \<and>
     (\<forall>oid x. objs s oid = Some x \<longrightarrow> cache_tree s (oi_caches x) \<and>
        members (oi_caches x) \<subseteq> members (ct_metadata_cache s)) \<and>
     (\<forall>oid oid' x x'. objs s oid = Some x \<longrightarrow> objs s oid' = Some x' \<longrightarrow> oid \<noteq> oid' \<longrightarrow>
        members (oi_caches x) \<inter> members (oi_caches x') = {}) \<and>
     0 < next_id s \<and> (\<forall>c \<in> dom (caches s). 0 < c \<and> c < next_id s)"

text \<open>The block numbers in the cache.\<close>

definition cached_vbns :: "container \<Rightarrow> u64 set" where
  "cached_vbns s = cache_key s ` members (ct_metadata_cache s)"

lemma cache_key_upd [simp]:
  "cache_key (s\<lparr> objs := x1 \<rparr>) = cache_key s" "cache_key (s\<lparr> ct_metadata_cache := x2 \<rparr>) = cache_key s"
  "cache_key (s\<lparr> bufs := x3 \<rparr>) = cache_key s" "cache_key (s\<lparr> tick := x4 \<rparr>) = cache_key s"
  "cache_key (s\<lparr> next_id := x5 \<rparr>) = cache_key s" "cache_key (s\<lparr> ct_disk := x6 \<rparr>) = cache_key s"
  "cache_key (s\<lparr> ct_sb := x7 \<rparr>) = cache_key s" "cache_key (put_buf b m s) = cache_key s"
  "cache_key (put_obj oid x s) = cache_key s"
  by (simp_all add: cache_key_def fun_eq_iff put_defs)

lemma put_cache_sel [simp]:
  "caches (put_cache c k s) = (caches s)(c \<mapsto> k)" "objs (put_cache c k s) = objs s"
  "ct_metadata_cache (put_cache c k s) = ct_metadata_cache s" "next_id (put_cache c k s) = next_id s"
  "bufs (put_cache c k s) = bufs s" "handles (put_cache c k s) = handles s" "tick (put_cache c k s) = tick s"
  "env (put_cache c k s) = env s" "ct_disk (put_cache c k s) = ct_disk s" "ct_sb (put_cache c k s) = ct_sb s"
  "ct_sm (put_cache c k s) = ct_sm s" "ct_bsm (put_cache c k s) = ct_bsm s"
  by (simp_all add: put_cache_def)

lemma put_obj_sel [simp]:
  "caches (put_obj oid x s) = caches s" "objs (put_obj oid x s) = (objs s)(oid \<mapsto> x)"
  "ct_metadata_cache (put_obj oid x s) = ct_metadata_cache s" "next_id (put_obj oid x s) = next_id s"
  by (simp_all add: put_obj_def)

lemma put_buf_sel [simp]:
  "caches (put_buf b m s) = caches s" "objs (put_buf b m s) = objs s"
  "ct_metadata_cache (put_buf b m s) = ct_metadata_cache s" "next_id (put_buf b m s) = next_id s"
  "bufs (put_buf b m s) = (bufs s)(b \<mapsto> m)" "tick (put_buf b m s) = tick s" "env (put_buf b m s) = env s"
  "ct_disk (put_buf b m s) = ct_disk s" "ct_sb (put_buf b m s) = ct_sb s"
  by (simp_all add: put_buf_def)

lemma cache_key_put_cache: "cache_key (put_cache c k s) = (cache_key s)(c := c_vbn k)"
  by (simp add: cache_key_def fun_eq_iff put_defs)

lemma caches_okD:
  assumes "caches_ok s"
  shows "avl_inv (cache_key s) (ct_metadata_cache s)" "members (ct_metadata_cache s) \<subseteq> dom (caches s)"
    and "objs s oid = Some x \<Longrightarrow> avl_inv (cache_key s) (oi_caches x)"
    and "objs s oid = Some x \<Longrightarrow> members (oi_caches x) \<subseteq> members (ct_metadata_cache s)"
    and "0 < next_id s" "c \<in> dom (caches s) \<Longrightarrow> 0 < c \<and> c < next_id s"
proof -
  from assms have obj: "\<forall>oid x. objs s oid = Some x \<longrightarrow> cache_tree s (oi_caches x) \<and>
      members (oi_caches x) \<subseteq> members (ct_metadata_cache s)"
    and ids: "\<forall>c \<in> dom (caches s). 0 < c \<and> c < next_id s"
    and ct: "cache_tree s (ct_metadata_cache s)" "0 < next_id s"
    by (simp_all add: caches_ok_def)
  from ct show "avl_inv (cache_key s) (ct_metadata_cache s)" "members (ct_metadata_cache s) \<subseteq> dom (caches s)"
    "0 < next_id s" by (simp_all add: cache_tree_def)
  from obj show "objs s oid = Some x \<Longrightarrow> avl_inv (cache_key s) (oi_caches x)"
    "objs s oid = Some x \<Longrightarrow> members (oi_caches x) \<subseteq> members (ct_metadata_cache s)"
    by (simp_all add: cache_tree_def)
  from ids show "c \<in> dom (caches s) \<Longrightarrow> 0 < c \<and> c < next_id s" by blast
qed

lemma caches_ok_disjoint:
  assumes "caches_ok s" "objs s oid = Some x" "objs s oid' = Some x'" "oid \<noteq> oid'"
  shows "members (oi_caches x) \<inter> members (oi_caches x') = {}"
proof -
  from assms(1) have "\<forall>oid oid' x x'. objs s oid = Some x \<longrightarrow> objs s oid' = Some x' \<longrightarrow> oid \<noteq> oid' \<longrightarrow>
      members (oi_caches x) \<inter> members (oi_caches x') = {}" by (simp add: caches_ok_def)
  with assms(2-4) show ?thesis by blast
qed

text \<open>Changing the trees of one object and of the container keeps it, if no other object is touched.\<close>

lemma caches_ok_trees:
  assumes "caches_ok s" "objs s oid = Some x" "avl_inv (cache_key s) t" "avl_inv (cache_key s) u"
    "members t \<subseteq> members u" "members u \<subseteq> dom (caches s)"
    "\<And>oid' x'. objs s oid' = Some x' \<Longrightarrow> oid' \<noteq> oid \<Longrightarrow>
       members (oi_caches x') \<subseteq> members u \<and> members (oi_caches x') \<inter> members t = {}"
    "oi_caches y = t"
  shows "caches_ok (s\<lparr> objs := (objs s)(oid \<mapsto> y), ct_metadata_cache := u \<rparr>)"
proof -
  have t: "members t \<subseteq> dom (caches s)" using assms(5,6) by simp
  have "cache_tree s (oi_caches x') \<and> members (oi_caches x') \<subseteq> members u"
    if "((objs s)(oid \<mapsto> y)) oid' = Some x'" for oid' x'
    using that assms(1,3,5,7,8) t by (cases "oid' = oid") (auto simp: caches_ok_def cache_tree_def)
  moreover have "members (oi_caches x1) \<inter> members (oi_caches x2) = {}"
    if "((objs s)(oid \<mapsto> y)) o1 = Some x1" "((objs s)(oid \<mapsto> y)) o2 = Some x2" "o1 \<noteq> o2" for o1 o2 x1 x2
    using that assms(1,7,8) by (cases "o1 = oid"; cases "o2 = oid") (auto simp: caches_ok_def)
  ultimately show ?thesis using assms(1,4,6) by (simp add: caches_ok_def cache_tree_def)
qed

text \<open>The comparisons agree with the key on members.\<close>

lemma compare_cache1_key:
  "a \<in> dom (caches s) \<Longrightarrow> b \<in> dom (caches s) \<Longrightarrow> compare_cache1 s a b = three_way (cache_key s a) (cache_key s b)"
  by (auto simp: compare_cache1_def cache_key_def three_way_def)

lemma compare_cache2_key:
  "b \<in> dom (caches s) \<Longrightarrow> compare_cache2 s vbn b = three_way vbn (cache_key s b)"
  by (auto simp: compare_cache2_def cache_key_def three_way_def)

lemma compare_cache_upd [simp]:
  "compare_cache1 (put_obj oid x s) = compare_cache1 s" "compare_cache2 (put_obj oid x s) = compare_cache2 s"
  "compare_cache1 (s\<lparr> objs := y \<rparr>) = compare_cache1 s"
  by (simp_all add: compare_cache1_def compare_cache2_def put_defs fun_eq_iff)

lemma cache_tree_add:
  assumes "avl_inv (cache_key s) t" "members t \<subseteq> dom (caches s)" "c \<in> dom (caches s)"
    "cache_key s c \<notin> cache_key s ` members t"
  shows "\<exists>t'. avl_add (compare_cache1 s) t c = Some t' \<and> avl_inv (cache_key s) t' \<and>
    members t' = insert c (members t)"
proof (rule avl_add_member [OF assms(1) _ assms(4)])
  show "compare_cache1 s c b = three_way (cache_key s c) (cache_key s b)" if "b \<in> members t" for b
    using that assms(2,3) by (intro compare_cache1_key) auto
qed

lemma cache_tree_find:
  assumes "avl_inv (cache_key s) t" "members t \<subseteq> dom (caches s)"
  shows "c \<in> members t \<Longrightarrow> cache_key s c = vbn \<Longrightarrow>
      \<exists>p. avl_find t (compare_cache2 s vbn) = Some (Found p) \<and> pos_data p = c"
    and "vbn \<notin> cache_key s ` members t \<Longrightarrow> \<exists>w. avl_find t (compare_cache2 s vbn) = Some (Where w)"
proof -
  have eq: "compare_cache2 s vbn b = three_way vbn (cache_key s b)" if "b \<in> members t" for b
    using that assms(2) by (intro compare_cache2_key) auto
  show "\<exists>p. avl_find t (compare_cache2 s vbn) = Some (Found p) \<and> pos_data p = c"
    if "c \<in> members t" "cache_key s c = vbn"
    using avl_find_member [OF assms(1) eq that] by blast
  show "\<exists>w. avl_find t (compare_cache2 s vbn) = Some (Where w)" if "vbn \<notin> cache_key s ` members t"
    using avl_find_no_member [OF assms(1) eq that] .
qed

section \<open>The operations on the trees\<close>

text \<open>The state after the trees of object \<open>oid\<close> and of the container have changed.\<close>

abbreviation with_trees :: "container \<Rightarrow> nat \<Rightarrow> object_info \<Rightarrow> nat avl_tree \<Rightarrow> nat avl_tree \<Rightarrow> container" where
  "with_trees s oid x t u \<equiv> s\<lparr> objs := (objs s)(oid \<mapsto> x\<lparr> oi_caches := t \<rparr>), ct_metadata_cache := u \<rparr>"

lemma insert_obj_cache_ok:
  assumes ok: "caches_ok s" and x: "objs s oid = Some x" and c: "c \<in> dom (caches s)"
    and new: "cache_key s c \<notin> cached_vbns s"
  shows "\<exists>t u. insert_obj_cache oid c s = Some (with_trees s oid x t u) \<and> caches_ok (with_trees s oid x t u) \<and>
    members t = insert c (members (oi_caches x)) \<and> members u = insert c (members (ct_metadata_cache s))"
proof -
  note D = caches_okD [OF ok]
  have "members (oi_caches x) \<subseteq> members (ct_metadata_cache s)" using D(4) [OF x] .
  then obtain t where t: "avl_add (compare_cache1 s) (oi_caches x) c = Some t" "avl_inv (cache_key s) t"
    "members t = insert c (members (oi_caches x))"
    using cache_tree_add [OF D(3) [OF x] _ c] D(2) new by (auto simp: cached_vbns_def)
  obtain u where u: "avl_add (compare_cache1 s) (ct_metadata_cache s) c = Some u" "avl_inv (cache_key s) u"
    "members u = insert c (members (ct_metadata_cache s))"
    using cache_tree_add [OF D(1,2) c] new by (auto simp: cached_vbns_def)
  have "insert_obj_cache oid c s = Some (with_trees s oid x t u)"
    using x t(1) u(1) by (simp add: insert_obj_cache_def put_defs Let_def)
  moreover have "caches_ok (with_trees s oid x t u)"
  proof (rule caches_ok_trees [OF ok x t(2) u(2)])
    have "c \<notin> members (ct_metadata_cache s)" using new by (auto simp: cached_vbns_def)
    then show "members (oi_caches x') \<subseteq> members u \<and> members (oi_caches x') \<inter> members t = {}"
      if "objs s oid' = Some x'" "oid' \<noteq> oid" for oid' x'
    proof -
      have "c \<notin> members (oi_caches x')" using D(4) [OF that(1)] \<open>c \<notin> members (ct_metadata_cache s)\<close> by (rule contra_subsetD)
      with caches_ok_disjoint [OF ok that(1) x that(2)] D(4) [OF that(1)] show ?thesis
        unfolding t(3) u(3) by (simp add: subset_insertI2 Int_insert_right)
    qed
    show "members t \<subseteq> members u" using D(4) [OF x] unfolding t(3) u(3) by (rule insert_mono)
    show "members u \<subseteq> dom (caches s)" using D(2) c unfolding u(3) by simp
  qed simp
  ultimately show ?thesis using t(3) u(3) by blast
qed

lemma remove_obj_cache_ok:
  assumes ok: "caches_ok s" and x: "objs s oid = Some x" and c: "c \<in> members (oi_caches x)"
  shows "\<exists>t u. remove_obj_cache oid c s = Some (with_trees s oid x t u) \<and> caches_ok (with_trees s oid x t u) \<and>
    members t = members (oi_caches x) - {c} \<and> members u = members (ct_metadata_cache s) - {c}"
proof -
  note D = caches_okD [OF ok]
  obtain t where t: "avl_remove_node (oi_caches x) c = Some t" "avl_inv (cache_key s) t"
    "members t = members (oi_caches x) - {c}"
    using avl_remove_node_member [OF D(3) [OF x] c] by blast
  have "c \<in> members (ct_metadata_cache s)" using D(4) [OF x] c by blast
  then obtain u where u: "avl_remove_node (ct_metadata_cache s) c = Some u" "avl_inv (cache_key s) u"
    "members u = members (ct_metadata_cache s) - {c}"
    using avl_remove_node_member [OF D(1)] by blast
  have "remove_obj_cache oid c s = Some (with_trees s oid x t u)"
    using x t(1) u(1) by (simp add: remove_obj_cache_def put_defs)
  moreover have "caches_ok (with_trees s oid x t u)"
  proof (rule caches_ok_trees [OF ok x t(2) u(2)])
    show "members (oi_caches x') \<subseteq> members u \<and> members (oi_caches x') \<inter> members t = {}"
      if "objs s oid' = Some x'" "oid' \<noteq> oid" for oid' x'
    proof -
      have "members (oi_caches x') \<inter> members (oi_caches x) = {}"
        using caches_ok_disjoint [OF ok that(1) x that(2)] .
      with c have "c \<notin> members (oi_caches x')" "members (oi_caches x') \<inter> members t = {}"
        unfolding t(3) by (simp_all add: disjoint_iff, metis)
      with D(4) [OF that(1)] show ?thesis unfolding u(3) by (simp add: subset_Diff_insert)
    qed
    show "members t \<subseteq> members u" using D(4) [OF x] unfolding t(3) u(3) by (rule Diff_mono) simp
    show "members u \<subseteq> dom (caches s)" using D(2) unfolding u(3) by (rule subset_trans [OF Diff_subset])
  qed simp
  ultimately show ?thesis using t(3) u(3) by blast
qed

text \<open>Changes of the caches that keep the block numbers of those in the trees.\<close>

lemma caches_ok_mono:
  assumes ok: "caches_ok s" and eq: "objs s' = objs s" "ct_metadata_cache s' = ct_metadata_cache s"
    and key: "\<And>c. c \<in> members (ct_metadata_cache s) \<Longrightarrow> c \<in> dom (caches s') \<and> cache_key s' c = cache_key s c"
    and ids: "0 < next_id s'" "\<And>c. c \<in> dom (caches s') \<Longrightarrow> 0 < c \<and> c < next_id s'"
  shows "caches_ok s'"
proof -
  note D = caches_okD [OF ok]
  have tree: "cache_tree s' t" if "avl_inv (cache_key s) t" "members t \<subseteq> members (ct_metadata_cache s)" for t
  proof -
    have "avl_inv (cache_key s') t \<longleftrightarrow> avl_inv (cache_key s) t"
      using that(2) key by (intro avl_inv_key_cong) blast
    moreover have "members t \<subseteq> dom (caches s')"
    proof
      fix c assume "c \<in> members t"
      with that(2) have "c \<in> members (ct_metadata_cache s)" by (rule subsetD)
      then show "c \<in> dom (caches s')" using key by simp
    qed
    ultimately show ?thesis using that(1) by (simp add: cache_tree_def)
  qed
  have "cache_tree s' (ct_metadata_cache s')" unfolding eq by (rule tree [OF D(1) subset_refl])
  moreover have "cache_tree s' (oi_caches x) \<and> members (oi_caches x) \<subseteq> members (ct_metadata_cache s')"
    if "objs s' oid = Some x" for oid x
    using tree [OF D(3,4)] D(4) that unfolding eq by blast
  moreover have "members (oi_caches x) \<inter> members (oi_caches x') = {}"
    if "objs s' oid = Some x" "objs s' oid' = Some x'" "oid \<noteq> oid'" for oid oid' x x'
    using caches_ok_disjoint [OF ok] that unfolding eq .
  ultimately show ?thesis using ids by (simp add: caches_ok_def)
qed

lemma caches_ok_put_cache:
  assumes ok: "caches_ok s" and c: "c \<in> dom (caches s)"
    and k: "c_vbn k = cache_key s c \<or> c \<notin> members (ct_metadata_cache s)"
  shows "caches_ok (put_cache c k s)"
proof (rule caches_ok_mono [OF ok])
  note D = caches_okD [OF ok]
  show "c' \<in> dom (caches (put_cache c k s)) \<and> cache_key (put_cache c k s) c' = cache_key s c'"
    if "c' \<in> members (ct_metadata_cache s)" for c'
    using that D(2) k by (auto simp: cache_key_put_cache)
  show "0 < c' \<and> c' < next_id (put_cache c k s)" if "c' \<in> dom (caches (put_cache c k s))" for c'
  proof -
    have "c' \<in> dom (caches s)" using that c by (auto split: if_splits)
    then show ?thesis using D(6) by simp
  qed
qed (use caches_okD(5) [OF ok] in simp_all)

lemma set_cache_state_ok:
  assumes "caches_ok s" "caches s c = Some k"
  shows "set_cache_state c st s = Some (put_cache c (k\<lparr> c_state := st \<rparr>) s) \<and>
    caches_ok (put_cache c (k\<lparr> c_state := st \<rparr>) s)"
  using assms by (auto intro!: caches_ok_put_cache simp: set_cache_state_def cache_key_def)

lemma change_obj_cache_vbn_ok:
  assumes ok: "caches_ok s" and x: "objs s oid = Some x" and c: "c \<in> members (oi_caches x)"
    and k: "caches s c = Some k" and new: "v \<notin> cache_key s ` (members (ct_metadata_cache s) - {c})"
  shows "\<exists>t u. change_obj_cache_vbn oid c v s = Some (with_trees (put_cache c (k\<lparr> c_vbn := v \<rparr>) s) oid x t u) \<and>
    caches_ok (with_trees (put_cache c (k\<lparr> c_vbn := v \<rparr>) s) oid x t u) \<and>
    members t = members (oi_caches x) \<and> members u = members (ct_metadata_cache s)"
proof -
  note D = caches_okD [OF ok]
  from remove_obj_cache_ok [OF ok x c] obtain t u where
    r: "remove_obj_cache oid c s = Some (with_trees s oid x t u)" "caches_ok (with_trees s oid x t u)"
      "members t = members (oi_caches x) - {c}" "members u = members (ct_metadata_cache s) - {c}" by blast
  let ?s = "put_cache c (k\<lparr> c_vbn := v \<rparr>) (with_trees s oid x t u)"
  have cd: "c \<in> dom (caches s)" using k by blast
  have "caches_ok ?s" using r(2,4) cd by (intro caches_ok_put_cache) simp_all
  moreover have "objs ?s oid = Some (x\<lparr> oi_caches := t \<rparr>)" "c \<in> dom (caches ?s)" using cd by simp_all
  moreover have "cache_key ?s c \<notin> cached_vbns ?s"
  proof -
    have "cache_key ?s c = v" by (simp add: cache_key_put_cache)
    moreover have "cached_vbns ?s = cache_key s ` (members (ct_metadata_cache s) - {c})"
      by (auto simp: cached_vbns_def cache_key_put_cache r(4))
    ultimately show ?thesis using new by simp
  qed
  ultimately obtain t' u' where i: "insert_obj_cache oid c ?s = Some (with_trees ?s oid (x\<lparr> oi_caches := t \<rparr>) t' u')"
    "caches_ok (with_trees ?s oid (x\<lparr> oi_caches := t \<rparr>) t' u')"
    "members t' = insert c (members t)" "members u' = insert c (members u)"
    using insert_obj_cache_ok [of ?s oid "x\<lparr> oi_caches := t \<rparr>" c] by auto
  have e: "with_trees ?s oid (x\<lparr> oi_caches := t \<rparr>) t' u' = with_trees (put_cache c (k\<lparr> c_vbn := v \<rparr>) s) oid x t' u'"
    by (simp add: put_cache_def)
  have "change_obj_cache_vbn oid c v s = Some (with_trees (put_cache c (k\<lparr> c_vbn := v \<rparr>) s) oid x t' u')"
    using r(1) k i(1) e by (simp add: change_obj_cache_vbn_def)
  moreover have "members t' = members (oi_caches x)" "members u' = members (ct_metadata_cache s)"
    using i(3,4) r(3,4) c D(4) [OF x] by (auto simp: insert_absorb)
  ultimately show ?thesis using i(2) e by auto
qed

lemma caches_ok_drop:
  assumes ok: "caches_ok s" and c: "c \<notin> members (ct_metadata_cache s)"
  shows "caches_ok (s\<lparr> bufs := b, caches := (caches s)(c := None) \<rparr>)"
proof (rule caches_ok_mono [OF ok])
  note D = caches_okD [OF ok]
  show "c' \<in> dom (caches (s\<lparr> bufs := b, caches := (caches s)(c := None) \<rparr>)) \<and>
      cache_key (s\<lparr> bufs := b, caches := (caches s)(c := None) \<rparr>) c' = cache_key s c'"
    if "c' \<in> members (ct_metadata_cache s)" for c'
    using that D(2) c by (auto simp: cache_key_def)
qed (use caches_okD(5,6) [OF ok] in \<open>auto split: if_splits\<close>)

section \<open>Allocating, freeing and releasing\<close>

text \<open>The state of \<open>alloc_obj_cache\<close> before the new cache is put into the trees.\<close>

definition fresh_cache :: "u64 \<Rightarrow> container \<Rightarrow> container" where
  "fresh_cache vbn s =
     (let ok = io_malloc (env s (tick s + 1));
          s' = s\<lparr> tick := tick s + 2, next_id := next_id s + 2,
                 bufs := (if ok then (bufs s)(next_id s + 1 \<mapsto> junk s (tick s + 2)) else bufs s) \<rparr>
      in put_cache (next_id s)
           \<lparr> c_vbn = vbn, c_state = EMPTY, c_ib = (if ok then next_id s + 1 else 0, 0) \<rparr> s')"

lemma fresh_cache_sel [simp]:
  "objs (fresh_cache vbn s) = objs s" "ct_metadata_cache (fresh_cache vbn s) = ct_metadata_cache s"
  "next_id (fresh_cache vbn s) = next_id s + 2" "tick (fresh_cache vbn s) = tick s + 2"
  "env (fresh_cache vbn s) = env s" "ct_disk (fresh_cache vbn s) = ct_disk s" "ct_sb (fresh_cache vbn s) = ct_sb s"
  "handles (fresh_cache vbn s) = handles s"
  by (simp_all add: fresh_cache_def Let_def)

lemma fresh_cache_caches:
  "caches (fresh_cache vbn s) = (caches s)(next_id s \<mapsto>
     \<lparr> c_vbn = vbn, c_state = EMPTY, c_ib = (if io_malloc (env s (tick s + 1)) then next_id s + 1 else 0, 0) \<rparr>)"
  by (simp add: fresh_cache_def Let_def)

lemma fresh_cache_ok:
  assumes ok: "caches_ok s"
  shows "caches_ok (fresh_cache vbn s)" "next_id s \<in> dom (caches (fresh_cache vbn s))"
    "cache_key (fresh_cache vbn s) (next_id s) = vbn"
    "cached_vbns (fresh_cache vbn s) = cached_vbns s"
proof -
  note D = caches_okD [OF ok]
  have old: "caches (fresh_cache vbn s) c = caches s c" if "c \<in> dom (caches s)" for c
    using D(6) [OF that] by (simp add: fresh_cache_caches)
  have key: "cache_key (fresh_cache vbn s) c = cache_key s c" if "c \<in> members (ct_metadata_cache s)" for c
  proof -
    have "c \<in> dom (caches s)" using that D(2) by blast
    from old [OF this] show ?thesis by (simp add: cache_key_def)
  qed
  show "caches_ok (fresh_cache vbn s)"
  proof (rule caches_ok_mono [OF ok])
    show "c \<in> dom (caches (fresh_cache vbn s)) \<and> cache_key (fresh_cache vbn s) c = cache_key s c"
      if "c \<in> members (ct_metadata_cache s)" for c
      using that D(2) key by (auto simp: fresh_cache_caches)
    show "0 < c \<and> c < next_id (fresh_cache vbn s)" if "c \<in> dom (caches (fresh_cache vbn s))" for c
    proof (cases "c = next_id s")
      case False
      with that have "c \<in> dom (caches s)" by (auto simp: fresh_cache_caches split: if_splits)
      from D(6) [OF this] show ?thesis by simp
    qed (use D(5) in simp)
  qed (use D(5) in simp_all)
  show "next_id s \<in> dom (caches (fresh_cache vbn s))" "cache_key (fresh_cache vbn s) (next_id s) = vbn"
    by (simp_all add: fresh_cache_caches cache_key_def)
  show "cached_vbns (fresh_cache vbn s) = cached_vbns s"
    unfolding cached_vbns_def fresh_cache_sel by (rule image_cong [OF refl key])
qed

lemma alloc_obj_cache_ok:
  assumes ok: "caches_ok s" and x: "objs s oid = Some x" and new: "vbn \<notin> cached_vbns s"
  shows "\<not> io_malloc (env s (tick s)) \<Longrightarrow> alloc_obj_cache oid vbn s = Some (0, s\<lparr> tick := tick s + 1 \<rparr>)"
    and "io_malloc (env s (tick s)) \<Longrightarrow> \<exists>t u.
      alloc_obj_cache oid vbn s = Some (next_id s, with_trees (fresh_cache vbn s) oid x t u) \<and>
      caches_ok (with_trees (fresh_cache vbn s) oid x t u) \<and>
      members t = insert (next_id s) (members (oi_caches x)) \<and>
      members u = insert (next_id s) (members (ct_metadata_cache s))"
proof -
  show "\<not> io_malloc (env s (tick s)) \<Longrightarrow> alloc_obj_cache oid vbn s = Some (0, s\<lparr> tick := tick s + 1 \<rparr>)"
    by (simp add: alloc_obj_cache_def os_malloc_def)
  assume m: "io_malloc (env s (tick s))"
  have "alloc_obj_cache oid vbn s =
      Option.bind (insert_obj_cache oid (next_id s) (fresh_cache vbn s)) (\<lambda>s'. Some (next_id s, s'))"
    using m by (cases "io_malloc (env s (tick s + 1))")
      (simp_all add: alloc_obj_cache_def os_malloc_def fresh_cache_def put_buf_def Let_def)
  moreover obtain t u where
    "insert_obj_cache oid (next_id s) (fresh_cache vbn s) = Some (with_trees (fresh_cache vbn s) oid x t u)"
    and tu: "caches_ok (with_trees (fresh_cache vbn s) oid x t u)"
      "members t = insert (next_id s) (members (oi_caches x))"
      "members u = insert (next_id s) (members (ct_metadata_cache s))"
    using insert_obj_cache_ok [of "fresh_cache vbn s" oid x "next_id s"] fresh_cache_ok [OF ok, of vbn] x new
    by auto
  ultimately have "alloc_obj_cache oid vbn s = Some (next_id s, with_trees (fresh_cache vbn s) oid x t u)"
    by simp
  with tu show "\<exists>t u. alloc_obj_cache oid vbn s = Some (next_id s, with_trees (fresh_cache vbn s) oid x t u) \<and>
      caches_ok (with_trees (fresh_cache vbn s) oid x t u) \<and>
      members t = insert (next_id s) (members (oi_caches x)) \<and>
      members u = insert (next_id s) (members (ct_metadata_cache s))"
    by (intro exI conjI)
qed

lemma free_obj_cache_ok:
  assumes ok: "caches_ok s" and x: "objs s oid = Some x" and c: "c \<in> members (oi_caches x)"
  shows "\<exists>t u s'. free_obj_cache oid c s = Some s' \<and> caches_ok s' \<and>
    objs s' = (objs s)(oid \<mapsto> x\<lparr> oi_caches := t \<rparr>) \<and> ct_metadata_cache s' = u \<and>
    caches s' = (caches s)(c := None) \<and>
    members t = members (oi_caches x) - {c} \<and> members u = members (ct_metadata_cache s) - {c}"
proof -
  from remove_obj_cache_ok [OF assms] obtain t u where
    r: "remove_obj_cache oid c s = Some (with_trees s oid x t u)" "caches_ok (with_trees s oid x t u)"
      "members t = members (oi_caches x) - {c}" "members u = members (ct_metadata_cache s) - {c}" by blast
  have "c \<in> dom (caches s)" using c caches_okD(2,4) [OF ok] x by blast
  then obtain k where "caches s c = Some k" by blast
  with r(1) have "free_obj_cache oid c s = Some ((with_trees s oid x t u)\<lparr>
      bufs := (bufs s)(fst (c_ib k) := None), caches := (caches s)(c := None) \<rparr>)"
    by (simp add: free_obj_cache_def drop_cache_def)
  moreover have "caches_ok ((with_trees s oid x t u)\<lparr>
      bufs := (bufs s)(fst (c_ib k) := None), caches := (caches s)(c := None) \<rparr>)"
    using caches_ok_drop [OF r(2), of c] r(4) by simp
  ultimately show ?thesis using r(3,4) by auto
qed

text \<open>Releasing takes the cache from the object; a dirty one stays in the container, marked to be freed.\<close>

lemma release_obj_cache_ok:
  assumes ok: "caches_ok s" and x: "objs s oid = Some x" and c: "c \<in> members (oi_caches x)"
    and k: "caches s c = Some k"
  shows "\<exists>t s'. release_obj_cache oid c s = Some (False, s') \<and> caches_ok s' \<and>
    objs s' = (objs s)(oid \<mapsto> x\<lparr> oi_caches := t \<rparr>) \<and> members t = members (oi_caches x) - {c} \<and>
    caches s' = (caches s)(c := if CACHE_DIRTY k then Some (k\<lparr> c_state := c_state k OR STATUS_FLUSH \<rparr>) else None) \<and>
    members (ct_metadata_cache s') =
      (if CACHE_DIRTY k then members (ct_metadata_cache s) else members (ct_metadata_cache s) - {c})"
proof (cases "CACHE_DIRTY k")
  case False
  with free_obj_cache_ok [OF ok x c] k show ?thesis by (auto simp: release_obj_cache_def)
next
  case True
  let ?s = "put_cache c (k\<lparr> c_state := c_state k OR STATUS_FLUSH \<rparr>) s"
  note D = caches_okD [OF ok]
  have oks: "caches_ok ?s" using k by (intro caches_ok_put_cache [OF ok]) (auto simp: cache_key_def)
  have inv: "avl_inv (cache_key ?s) (oi_caches x)" using caches_okD(3) [OF oks, of oid x] x by simp
  obtain t where t: "avl_remove_node (oi_caches x) c = Some t" "avl_inv (cache_key ?s) t"
    "members t = members (oi_caches x) - {c}"
    using avl_remove_node_member [OF inv c] by blast
  have "release_obj_cache oid c s = Some (False, put_obj oid (x\<lparr> oi_caches := t \<rparr>) ?s)"
    using True k x t(1) by (simp add: release_obj_cache_def set_cache_flush_def)
  moreover have "caches_ok (put_obj oid (x\<lparr> oi_caches := t \<rparr>) ?s)"
  proof -
    have "caches_ok (with_trees ?s oid x t (ct_metadata_cache s))"
    proof (rule caches_ok_trees [OF oks _ t(2)])
      show "objs ?s oid = Some x" using x by simp
      show "avl_inv (cache_key ?s) (ct_metadata_cache s)" using caches_okD(1) [OF oks] by simp
      show "members t \<subseteq> members (ct_metadata_cache s)" using t(3) D(4) [OF x] by auto
      show "members (ct_metadata_cache s) \<subseteq> dom (caches ?s)" using caches_okD(2) [OF oks] by simp
      show "members (oi_caches x') \<subseteq> members (ct_metadata_cache s) \<and> members (oi_caches x') \<inter> members t = {}"
        if "objs ?s oid' = Some x'" "oid' \<noteq> oid" for oid' x'
        using caches_ok_disjoint [OF ok _ x that(2), of x'] D(4) [of oid' x'] that(1) t(3) by auto
    qed simp
    moreover have "with_trees ?s oid x t (ct_metadata_cache s) = put_obj oid (x\<lparr> oi_caches := t \<rparr>) ?s"
      by (simp add: put_defs)
    ultimately show ?thesis by simp
  qed
  ultimately show ?thesis using True t(3) by auto
qed

text \<open>Releasing all caches of an object, after which the tree of the object can be destroyed.\<close>

definition is_dirty :: "container \<Rightarrow> nat \<Rightarrow> bool" where
  "is_dirty s c \<longleftrightarrow> CACHE_DIRTY (the (caches s c))"

definition released :: "container \<Rightarrow> nat set \<Rightarrow> nat \<rightharpoonup> ofs_block_cache" where
  "released s A = (\<lambda>c. if c \<notin> A then caches s c
     else if is_dirty s c then map_option (\<lambda>k. k\<lparr> c_state := c_state k OR STATUS_FLUSH \<rparr>) (caches s c)
     else None)"

lemma release_obj_all_cache_ok:
  assumes ok: "caches_ok s" and x: "objs s oid = Some x"
  shows "\<exists>s' t. release_obj_all_cache oid s = Some s' \<and> caches_ok s' \<and>
    objs s' = (objs s)(oid \<mapsto> x\<lparr> oi_caches := t \<rparr>) \<and> members t = {} \<and> avl_destroy t = Some () \<and>
    caches s' = released s (members (oi_caches x)) \<and>
    members (ct_metadata_cache s') =
      members (ct_metadata_cache s) - {c \<in> members (oi_caches x). \<not> is_dirty s c}"
proof -
  let ?M = "members (oi_caches x)"
  note D = caches_okD [OF ok]
  let ?P = "\<lambda>xs s'. distinct xs \<and> set xs \<subseteq> ?M \<and> caches_ok s' \<and>
    (\<exists>t. objs s' = (objs s)(oid \<mapsto> x\<lparr> oi_caches := t \<rparr>) \<and> members t = set xs) \<and>
    caches s' = released s (?M - set xs) \<and>
    members (ct_metadata_cache s') = members (ct_metadata_cache s) - {c \<in> ?M - set xs. \<not> is_dirty s c}"
  have "\<exists>s'. walk_nodes (release_obj_cache oid) (inorder (avl_root (oi_caches x))) s = Some s' \<and> ?P [] s'"
  proof (rule walk_nodes_invariant)
    have "x\<lparr> oi_caches := oi_caches x \<rparr> = x" by simp
    then have "objs s = (objs s)(oid \<mapsto> x\<lparr> oi_caches := oi_caches x \<rparr>)" using x by (simp add: map_upd_triv)
    then have "\<exists>t. objs s = (objs s)(oid \<mapsto> x\<lparr> oi_caches := t \<rparr>) \<and> members t = ?M"
      by (intro exI [of _ "oi_caches x"] conjI refl)
    moreover have "caches s = released s (?M - ?M)" by (simp add: released_def)
    ultimately show "?P (inorder (avl_root (oi_caches x))) s"
      using ok inorder_members [OF D(3) [OF x]] by auto
  next
    fix c xs s1 assume P: "?P (c # xs) s1"
    then obtain t where t: "objs s1 = (objs s)(oid \<mapsto> x\<lparr> oi_caches := t \<rparr>)" "members t = set (c # xs)" by blast
    have ok1: "caches_ok s1" and c: "c \<in> ?M" "c \<notin> set xs" using P by simp_all
    have "c \<in> dom (caches s)" using c(1) D(2) D(4) [OF x] by blast
    then obtain k where k: "caches s c = Some k" by blast
    have "caches s1 = released s (?M - set (c # xs))" using P by blast
    then have k1: "caches s1 c = Some k" using k by (simp add: released_def)
    have dirty: "is_dirty s c = CACHE_DIRTY k" using k by (simp add: is_dirty_def)
    have x1: "objs s1 oid = Some (x\<lparr> oi_caches := t \<rparr>)" using t(1) by simp
    have ct: "c \<in> members t" using t(2) by simp
    from release_obj_cache_ok [OF ok1 x1 _ k1] ct obtain t' s' where
      s': "release_obj_cache oid c s1 = Some (False, s')" "caches_ok s'"
        "objs s' = (objs s1)(oid \<mapsto> x\<lparr> oi_caches := t' \<rparr>)" "members t' = members t - {c}"
        "caches s' = (caches s1)(c := if CACHE_DIRTY k then Some (k\<lparr> c_state := c_state k OR STATUS_FLUSH \<rparr>) else None)"
        "members (ct_metadata_cache s') = (if CACHE_DIRTY k then members (ct_metadata_cache s1)
           else members (ct_metadata_cache s1) - {c})" by auto
    have "caches s' = released s (?M - set xs)"
      unfolding s'(5) using P c k dirty by (auto simp: released_def fun_eq_iff)
    moreover have "members (ct_metadata_cache s') =
        members (ct_metadata_cache s) - {c \<in> ?M - set xs. \<not> is_dirty s c}"
      unfolding s'(6) using P c dirty by auto
    moreover have "objs s' = (objs s)(oid \<mapsto> x\<lparr> oi_caches := t' \<rparr>)" "members t' = set xs"
      using s'(3,4) t c(2) by auto
    ultimately have "?P xs s'" using P s'(2) by auto
    with s'(1) show "\<exists>s'. release_obj_cache oid c s1 = Some (False, s') \<and> ?P xs s'" by blast
  qed
  then obtain s' t where s': "walk_nodes (release_obj_cache oid) (inorder (avl_root (oi_caches x))) s = Some s'"
    "caches_ok s'" "objs s' = (objs s)(oid \<mapsto> x\<lparr> oi_caches := t \<rparr>)" "members t = {}"
    "caches s' = released s ?M"
    "members (ct_metadata_cache s') = members (ct_metadata_cache s) - {c \<in> ?M. \<not> is_dirty s c}" by auto
  have "avl_inv (cache_key s') t" using caches_okD(3) [OF s'(2), of oid] s'(3) by simp
  then have "avl_destroy t = Some ()" using avl_inv_empty_iff s'(4) by blast
  moreover have "release_obj_all_cache oid s = Some s'"
    using s'(1) x by (simp add: release_obj_all_cache_def walk_all_nodes [OF D(3) [OF x]])
  ultimately show ?thesis using s'(2-6) by blast
qed

section \<open>Reading a block\<close>

text \<open>A block in the object's tree, and one only in the container's.\<close>

lemma index_block_read2_hit:
  assumes "caches_ok s" "objs s oid = Some x" "c \<in> members (oi_caches x)" "cache_key s c = vbn"
  shows "index_block_read2 oid vbn blk_id s = Some (Inr c, s)"
proof -
  note D = caches_okD [OF assms(1)]
  have "members (oi_caches x) \<subseteq> dom (caches s)" using D(2) D(4) [OF assms(2)] by (rule subset_trans [rotated])
  from cache_tree_find(1) [OF D(3) [OF assms(2)] this assms(3,4)] assms(2) show ?thesis
    by (auto simp: index_block_read2_def)
qed

lemma index_block_read2_adopt:
  assumes "caches_ok s" "objs s oid = Some x" "vbn \<notin> cache_key s ` members (oi_caches x)"
    "c \<in> members (ct_metadata_cache s)" "cache_key s c = vbn"
  shows "\<exists>t. index_block_read2 oid vbn blk_id s = Some (Inr c, put_obj oid (x\<lparr> oi_caches := t \<rparr>) s) \<and>
    avl_inv (cache_key s) t \<and> members t = insert c (members (oi_caches x))"
proof -
  note D = caches_okD [OF assms(1)]
  have m: "members (oi_caches x) \<subseteq> dom (caches s)" using D(2) D(4) [OF assms(2)] by (rule subset_trans [rotated])
  have c: "c \<in> dom (caches s)" using D(2) assms(4) by (rule subsetD)
  obtain w where w: "avl_find (oi_caches x) (compare_cache2 s vbn) = Some (Where w)"
    using cache_tree_find(2) [OF D(3) [OF assms(2)] m assms(3)] by blast
  obtain p where p: "avl_find (ct_metadata_cache s) (compare_cache2 s vbn) = Some (Found p)" "pos_data p = c"
    using cache_tree_find(1) [OF D(1,2) assms(4,5)] by blast
  obtain t where "avl_add (compare_cache1 s) (oi_caches x) c = Some t" "avl_inv (cache_key s) t"
    "members t = insert c (members (oi_caches x))"
    using cache_tree_add [OF D(3) [OF assms(2)] m c] assms(3,5) by blast
  with w p assms(2) show ?thesis by (auto simp: index_block_read2_def)
qed

text \<open>A block that is not in the cache: the state after the read, and the result.\<close>

definition read_into :: "container \<Rightarrow> nat \<Rightarrow> u64 \<Rightarrow> u32 \<Rightarrow> ((ofs_err + unit) \<times> buf) option" where
  "read_into s c vbn blk_id =
     ofs_read_block_fixup (env s (tick s)) (disk_view s)
       (the (bufs s (fst (c_ib (the (caches s c)))))) vbn blk_id (sb_block_size s)"

lemma index_block_read2_miss:
  assumes ok: "caches_ok s" and x: "objs s oid = Some x" and new: "vbn \<notin> cached_vbns s"
    and malloc: "io_malloc (env s (tick s))" "io_malloc (env s (tick s + 1))"
    and read: "read_into (fresh_cache vbn s) (next_id s) vbn blk_id = Some (ret, m)"
  shows "\<exists>s' t k. index_block_read2 oid vbn blk_id s = Some (map_sum id (\<lambda>_. next_id s) ret, s') \<and>
    caches_ok s' \<and> objs s' = (objs s)(oid \<mapsto> x\<lparr> oi_caches := t \<rparr>) \<and>
    members t = insert (next_id s) (members (oi_caches x)) \<and>
    members (ct_metadata_cache s') = insert (next_id s) (members (ct_metadata_cache s)) \<and>
    caches s' = (caches s)(next_id s \<mapsto> k) \<and> c_vbn k = vbn \<and>
    c_state k = (case ret of Inl _ \<Rightarrow> EMPTY | Inr _ \<Rightarrow> CLEAN) \<and> bufs s' (fst (c_ib k)) = Some m \<and>
    ct_disk s' = ct_disk s"
proof -
  note D = caches_okD [OF ok]
  have m: "members (oi_caches x) \<subseteq> dom (caches s)" using D(2) D(4) [OF x] by (rule subset_trans [rotated])
  have "vbn \<notin> cache_key s ` members (oi_caches x)" using new D(4) [OF x] by (auto simp: cached_vbns_def)
  then obtain w where w: "avl_find (oi_caches x) (compare_cache2 s vbn) = Some (Where w)"
    using cache_tree_find(2) [OF D(3) [OF x] m] by blast
  obtain w' where w': "avl_find (ct_metadata_cache s) (compare_cache2 s vbn) = Some (Where w')"
    using cache_tree_find(2) [OF D(1,2)] new by (auto simp: cached_vbns_def)
  from alloc_obj_cache_ok(2) [OF ok x new malloc(1)] obtain t u where
    a: "alloc_obj_cache oid vbn s = Some (next_id s, with_trees (fresh_cache vbn s) oid x t u)"
      "caches_ok (with_trees (fresh_cache vbn s) oid x t u)"
      "members t = insert (next_id s) (members (oi_caches x))"
      "members u = insert (next_id s) (members (ct_metadata_cache s))" by blast
  let ?s1 = "with_trees (fresh_cache vbn s) oid x t u" and ?c = "next_id s" and ?b = "next_id s + 1"
  have c0: "?c \<noteq> 0" using D(5) by simp
  let ?k = "\<lparr> c_vbn = vbn, c_state = EMPTY, c_ib = (?b, 0) \<rparr>"
  have k: "caches ?s1 ?c = Some ?k" using malloc(2) by (simp add: fresh_cache_caches)
  obtain m0 where m0: "bufs ?s1 ?b = Some m0" using malloc(2) by (simp add: fresh_cache_def Let_def)
  have dv: "disk_view ?s1 = disk_view (fresh_cache vbn s)" "sb_block_size ?s1 = sb_block_size (fresh_cache vbn s)"
    by (simp_all add: disk_view_def sb_block_size_def)
  have rd: "ofs_read_block_fixup (env ?s1 (tick ?s1)) (disk_view ?s1) m0 vbn blk_id (sb_block_size ?s1) = Some (ret, m)"
    using read k m0 unfolding read_into_def dv by simp
  let ?s2 = "put_buf ?b m (?s1\<lparr> tick := tick ?s1 + 1 \<rparr>)"
  have ok2: "caches_ok ?s2"
    using a(2) by (rule caches_ok_mono) (use caches_okD(2,5,6) [OF a(2)] in auto)
  have k2: "caches ?s2 ?c = Some ?k" using k by simp
  have step: "index_block_read2 oid vbn blk_id s = (case ret of Inl e \<Rightarrow> Some (Inl e, ?s2)
      | Inr _ \<Rightarrow> Option.bind (set_cache_state ?c CLEAN ?s2) (\<lambda>s. Some (Inr ?c, s)))"
    using x w w' a(1) c0 k m0 rd by (cases ret) (simp_all add: index_block_read2_def Let_def)
  have c2: "caches ?s2 = (caches s)(?c \<mapsto> ?k)" using malloc(2) by (simp add: fresh_cache_caches)
  show ?thesis
  proof (cases ret)
    case (Inl e)
    show ?thesis
      by (rule exI [of _ ?s2], rule exI [of _ t], rule exI [of _ ?k])
        (use step ok2 c2 a(3,4) Inl in simp)
  next
    case (Inr u')
    let ?s3 = "put_cache ?c (?k\<lparr> c_state := CLEAN \<rparr>) ?s2"
    from set_cache_state_ok [OF ok2 k2, of CLEAN] have
      "set_cache_state ?c CLEAN ?s2 = Some ?s3" "caches_ok ?s3" by simp_all
    then show ?thesis
      by (intro exI [of _ ?s3] exI [of _ t] exI [of _ "?k\<lparr> c_state := CLEAN \<rparr>"])
        (use step c2 a(3,4) Inr in simp)
  qed
qed

section \<open>Properties\<close>

text \<open>C25: Reading a block. A block in the cache is returned without reading, whether the object has it already or
  another user of the container had it, and then the object adopts it. A block not in the cache is read from
  the file into a new cache, which is clean. The index of caches stays well-formed.\<close>

theorem index_block_read2_spec:
  assumes "caches_ok s" "objs s oid = Some x"
  shows "(\<forall>c \<in> members (oi_caches x). cache_key s c = vbn \<longrightarrow>
      index_block_read2 oid vbn blk_id s = Some (Inr c, s)) \<and>
    (\<forall>c \<in> members (ct_metadata_cache s). cache_key s c = vbn \<and> vbn \<notin> cache_key s ` members (oi_caches x) \<longrightarrow>
      (\<exists>t. index_block_read2 oid vbn blk_id s = Some (Inr c, put_obj oid (x\<lparr> oi_caches := t \<rparr>) s) \<and>
         avl_inv (cache_key s) t \<and> members t = insert c (members (oi_caches x)))) \<and>
    (\<forall>m. vbn \<notin> cached_vbns s \<and> io_malloc (env s (tick s)) \<and> io_malloc (env s (tick s + 1)) \<and>
       read_into (fresh_cache vbn s) (next_id s) vbn blk_id = Some (Inr (), m) \<longrightarrow>
      (\<exists>s' k. index_block_read2 oid vbn blk_id s = Some (Inr (next_id s), s') \<and> caches_ok s' \<and>
         cached_vbns s' = insert vbn (cached_vbns s) \<and> caches s' (next_id s) = Some k \<and> c_vbn k = vbn \<and>
         c_state k = CLEAN \<and> bufs s' (fst (c_ib k)) = Some m \<and> ct_disk s' = ct_disk s))"
proof -
  note D = caches_okD [OF assms(1)]
  have "\<exists>s' k. index_block_read2 oid vbn blk_id s = Some (Inr (next_id s), s') \<and> caches_ok s' \<and>
         cached_vbns s' = insert vbn (cached_vbns s) \<and> caches s' (next_id s) = Some k \<and> c_vbn k = vbn \<and>
         c_state k = CLEAN \<and> bufs s' (fst (c_ib k)) = Some m \<and> ct_disk s' = ct_disk s"
    if "vbn \<notin> cached_vbns s" "io_malloc (env s (tick s))" "io_malloc (env s (tick s + 1))"
      "read_into (fresh_cache vbn s) (next_id s) vbn blk_id = Some (Inr (), m)" for m
  proof -
    from index_block_read2_miss [OF assms that] obtain s' t k where
      s': "index_block_read2 oid vbn blk_id s = Some (Inr (next_id s), s')" "caches_ok s'"
        "members (ct_metadata_cache s') = insert (next_id s) (members (ct_metadata_cache s))"
        "caches s' = (caches s)(next_id s \<mapsto> k)" "c_vbn k = vbn" "c_state k = CLEAN"
        "bufs s' (fst (c_ib k)) = Some m" "ct_disk s' = ct_disk s" by auto
    have "cache_key s' c = cache_key s c" if "c \<in> members (ct_metadata_cache s)" for c
    proof -
      have "c \<in> dom (caches s)" using that D(2) by blast
      with D(6) have "c \<noteq> next_id s" by fastforce
      then show ?thesis by (simp add: cache_key_def s'(4))
    qed
    moreover have "cache_key s' (next_id s) = vbn" by (simp add: cache_key_def s'(4,5))
    ultimately have "cached_vbns s' = insert vbn (cached_vbns s)"
      unfolding cached_vbns_def s'(3) by (simp cong: image_cong)
    with s' show ?thesis by auto
  qed
  then show ?thesis
    using index_block_read2_hit [OF assms] index_block_read2_adopt [OF assms] by blast
qed

text \<open>A container with two cached blocks, 5 and 7; object 1 uses block 5 only. Its file is empty.\<close>

definition idx_obj :: object_info where
  "idx_obj = \<lparr> oi_inode = (0, 0), oi_inode_cache = 0, oi_objid = 200, oi_inode_no = 0, oi_name = (\<lambda>_. 0),
     oi_attr_record = (0, 0), oi_obj_hnd_list = [], oi_root_cache = 0,
     oi_caches = \<lparr> avl_root = ANode ANil 2 0 ANil, avl_numnodes = 1 \<rparr>, oi_ref_cnt = 0 \<rparr>"

definition idx_state :: container where
  "idx_state = \<lparr> bufs = [12 \<mapsto> \<lambda>_. 0, 13 \<mapsto> \<lambda>_. 0],
     caches = [2 \<mapsto> \<lparr> c_vbn = 5, c_state = CLEAN, c_ib = (12, 0) \<rparr>,
               3 \<mapsto> \<lparr> c_vbn = 7, c_state = DIRTY, c_ib = (13, 0) \<rparr>],
     objs = [1 \<mapsto> idx_obj], handles = Map.empty, next_id = 20,
     ct_sb = put32 (put32 (\<lambda>_. 0) 20 4096) 24 8, ct_flags = 0,
     ct_disk = \<lparr> fsize = 0, fbytes = (\<lambda>_. 0) \<rparr>, ct_id_obj = 0,
     ct_sm = \<lparr> sm_space_obj = 0, sm_first_free_block = 0, sm_total_free_blocks = 0 \<rparr>,
     ct_bsm = \<lparr> sm_space_obj = 0, sm_first_free_block = 0, sm_total_free_blocks = 0 \<rparr>,
     ct_base_blk = 0, ct_obj_info_list = avl_create,
     ct_metadata_cache = \<lparr> avl_root = ANode ANil 2 1 (ANode ANil 3 0 ANil), avl_numnodes = 2 \<rparr>,
     env = (\<lambda>_. io_ok), tick = 0, junk = (\<lambda>_ _. 0) \<rparr>"

lemma idx_state_sel:
  "objs idx_state 1 = Some idx_obj" "members (oi_caches idx_obj) = {2}"
  "members (ct_metadata_cache idx_state) = {2, 3}" "cache_key idx_state 2 = 5" "cache_key idx_state 3 = 7"
  "env idx_state = (\<lambda>_. io_ok)" "tick idx_state = 0" "next_id idx_state = 20"
  by (simp_all add: idx_state_def idx_obj_def members_def cache_key_def)

lemma idx_state_ok: "caches_ok idx_state"
  by (auto simp: caches_ok_def cache_tree_def avl_inv_def idx_state_def idx_obj_def members_def cache_key_def
      split: if_splits)

theorem index_block_read2_spec_witness:
  "index_block_read2 1 5 0x58444E49 idx_state = Some (Inr 2, idx_state) \<and>
   (\<exists>t. index_block_read2 1 7 0x58444E49 idx_state =
      Some (Inr 3, put_obj 1 (idx_obj\<lparr> oi_caches := t \<rparr>) idx_state) \<and> members t = {3, 2})"
  using index_block_read2_spec [OF idx_state_ok idx_state_sel(1), of 5 "0x58444E49"]
    index_block_read2_spec [OF idx_state_ok idx_state_sel(1), of 7 "0x58444E49"]
  by (auto simp: idx_state_sel)

text \<open>C26: A block that cannot be read is found in the cache by the next read: the failed read has put
  its cache into both trees and leaves it there, \<open>EMPTY\<close>, and the next read of the block
  succeeds with it, without reading.\<close>

theorem failed_read_becomes_hit:
  assumes "caches_ok s" "objs s oid = Some x" "vbn \<notin> cached_vbns s"
    "io_malloc (env s (tick s))" "io_malloc (env s (tick s + 1))"
    "read_into (fresh_cache vbn s) (next_id s) vbn blk_id = Some (Inl e, m)"
  shows "\<exists>s'. index_block_read2 oid vbn blk_id s = Some (Inl e, s') \<and>
    index_block_read2 oid vbn blk_id s' = Some (Inr (next_id s), s') \<and>
    c_state (the (caches s' (next_id s))) = EMPTY"
proof -
  from index_block_read2_miss [OF assms] obtain s' t k where
    s': "index_block_read2 oid vbn blk_id s = Some (Inl e, s')" "caches_ok s'"
      "objs s' = (objs s)(oid \<mapsto> x\<lparr> oi_caches := t \<rparr>)" "next_id s \<in> members t"
      "caches s' = (caches s)(next_id s \<mapsto> k)" "c_vbn k = vbn" "c_state k = EMPTY" by auto
  have "index_block_read2 oid vbn blk_id s' = Some (Inr (next_id s), s')"
    by (rule index_block_read2_hit [OF s'(2)]) (use s'(3-6) in \<open>auto simp: cache_key_def\<close>)
  with s' show ?thesis by auto
qed

lemma idx_state_read:
  "read_into (fresh_cache 9 idx_state) (next_id idx_state) 9 0x58444E49 = Some (Inl FILE_BLOCK_ERR_INVALID_OBJECT, \<lambda>_. 0)"
proof -
  have sb: "ct_sb idx_state = put32 (put32 (\<lambda>_. 0) 20 4096) 24 8" by (simp add: idx_state_def)
  have d: "disk_view (fresh_cache 9 idx_state) =
      \<lparr> dc_disk = \<lparr> fsize = 0, fbytes = (\<lambda>_. 0) \<rparr>, dc_block_size = 4096, dc_sectors_per_block = 8 \<rparr>"
    and z: "sb_block_size (fresh_cache 9 idx_state) = 4096"
    by (simp_all add: disk_view_def sb_block_size_def sb buf_simps) (simp add: idx_state_def)
  have b: "the (bufs (fresh_cache 9 idx_state) (fst (c_ib (the (caches (fresh_cache 9 idx_state) (next_id idx_state)))))) =
      (\<lambda>_. 0)"
    by (simp add: fresh_cache_caches) (simp add: fresh_cache_def idx_state_def io_ok_def)
  show ?thesis
    unfolding read_into_def d z b
    by (simp add: idx_state_sel io_ok_def ofs_read_block_fixup_def ofs_read_block_def os_disk_pread_def
        os_file_pread_def os_file_read_def os_file_seek_def verify_block_def bh_blk_id_def wr_def get32_def
        rd_def Let_def upt_rec)
qed

theorem failed_read_becomes_hit_witness:
  "\<exists>s'. index_block_read2 1 9 0x58444E49 idx_state = Some (Inl FILE_BLOCK_ERR_INVALID_OBJECT, s') \<and>
    index_block_read2 1 9 0x58444E49 s' = Some (Inr 20, s') \<and> c_state (the (caches s' 20)) = EMPTY"
  using failed_read_becomes_hit [OF idx_state_ok idx_state_sel(1) _ _ _ idx_state_read]
  by (simp add: idx_state_sel cached_vbns_def io_ok_def)

text \<open>C24: The operations on the caches of an object keep the index of caches well-formed. A new cache may be
  put in if its block number is not in the cache; a cache may move to a block number that no other cache has;
  releasing all caches empties the object's tree, so that it can be destroyed, and leaves in the container
  the dirty caches, marked to be freed when they have been flushed, and no other cache of the object.\<close>

theorem cache_index_invariant:
  assumes "caches_ok s" "objs s oid = Some x"
  shows "(\<forall>vbn. vbn \<notin> cached_vbns s \<and> io_malloc (env s (tick s)) \<longrightarrow>
      (\<exists>s'. alloc_obj_cache oid vbn s = Some (next_id s, s') \<and> caches_ok s' \<and>
         cached_vbns s' = insert vbn (cached_vbns s))) \<and>
    (\<forall>c \<in> members (oi_caches x). \<forall>v. v \<notin> cache_key s ` (members (ct_metadata_cache s) - {c}) \<longrightarrow>
      (\<exists>s'. change_obj_cache_vbn oid c v s = Some s' \<and> caches_ok s' \<and> cache_key s' = (cache_key s)(c := v) \<and>
         cached_vbns s' = insert v (cached_vbns s - {cache_key s c}))) \<and>
    (\<exists>s' t. release_obj_all_cache oid s = Some s' \<and> caches_ok s' \<and>
      objs s' = (objs s)(oid \<mapsto> x\<lparr> oi_caches := t \<rparr>) \<and> avl_destroy t = Some () \<and>
      caches s' = released s (members (oi_caches x)) \<and>
      members (ct_metadata_cache s') =
        members (ct_metadata_cache s) - {c \<in> members (oi_caches x). \<not> is_dirty s c})"
proof (intro conjI allI ballI impI)
  note D = caches_okD [OF assms(1)]
  fix vbn assume new: "vbn \<notin> cached_vbns s \<and> io_malloc (env s (tick s))"
  with alloc_obj_cache_ok(2) [OF assms, of vbn] obtain t u where
    a: "alloc_obj_cache oid vbn s = Some (next_id s, with_trees (fresh_cache vbn s) oid x t u)"
      "caches_ok (with_trees (fresh_cache vbn s) oid x t u)"
      "members u = insert (next_id s) (members (ct_metadata_cache s))" by auto
  have "cached_vbns (with_trees (fresh_cache vbn s) oid x t u) = insert vbn (cached_vbns s)"
    using fresh_cache_ok(3,4) [OF assms(1), of vbn] a(3) by (simp add: cached_vbns_def)
  with a show "\<exists>s'. alloc_obj_cache oid vbn s = Some (next_id s, s') \<and> caches_ok s' \<and>
      cached_vbns s' = insert vbn (cached_vbns s)" by blast
next
  note D = caches_okD [OF assms(1)]
  fix c v assume c: "c \<in> members (oi_caches x)"
    and v: "v \<notin> cache_key s ` (members (ct_metadata_cache s) - {c})"
  have ct: "c \<in> members (ct_metadata_cache s)" using c D(4) [OF assms(2)] by blast
  then obtain k where k: "caches s c = Some k" using D(2) by blast
  from change_obj_cache_vbn_ok [OF assms c k v] obtain t u where
    r: "change_obj_cache_vbn oid c v s = Some (with_trees (put_cache c (k\<lparr> c_vbn := v \<rparr>) s) oid x t u)"
      "caches_ok (with_trees (put_cache c (k\<lparr> c_vbn := v \<rparr>) s) oid x t u)"
      "members u = members (ct_metadata_cache s)" by blast
  have "cached_vbns (with_trees (put_cache c (k\<lparr> c_vbn := v \<rparr>) s) oid x t u) =
      insert v (cached_vbns s - {cache_key s c})"
    using ct avl_inv_inj [OF D(1)] unfolding cached_vbns_def
    by (auto simp: r(3) cache_key_put_cache inj_on_eq_iff)
  with r show "\<exists>s'. change_obj_cache_vbn oid c v s = Some s' \<and> caches_ok s' \<and>
      cache_key s' = (cache_key s)(c := v) \<and> cached_vbns s' = insert v (cached_vbns s - {cache_key s c})"
    by (intro exI conjI) (simp_all add: cache_key_put_cache)
next
  show "\<exists>s' t. release_obj_all_cache oid s = Some s' \<and> caches_ok s' \<and>
      objs s' = (objs s)(oid \<mapsto> x\<lparr> oi_caches := t \<rparr>) \<and> avl_destroy t = Some () \<and>
      caches s' = released s (members (oi_caches x)) \<and>
      members (ct_metadata_cache s') =
        members (ct_metadata_cache s) - {c \<in> members (oi_caches x). \<not> is_dirty s c}"
    using release_obj_all_cache_ok [OF assms] by blast
qed

theorem cache_index_invariant_witness:
  "\<exists>s'. change_obj_cache_vbn 1 2 6 idx_state = Some s' \<and> caches_ok s' \<and> cached_vbns s' = {6, 7}"
proof -
  have "6 \<notin> cache_key idx_state ` (members (ct_metadata_cache idx_state) - {2})"
    "insert 6 (cached_vbns idx_state - {cache_key idx_state 2}) = {6, 7}"
    by (auto simp: idx_state_sel cached_vbns_def)
  then show ?thesis
    using cache_index_invariant [OF idx_state_ok idx_state_sel(1)] idx_state_sel(2) by auto
qed

end
