(* ===== verification/Flush.thy ===== *)
theory Flush
  imports CacheIndex
begin

text \<open>
  Writing the dirty blocks of a container back to its file. Whatever the file layer does, only the
  bytes of dirty blocks change, so the blocks the last super block refers to stay as they were until
  the super block is updated; without errors every dirty block is stored and clean afterwards.
\<close>

section \<open>Dirty blocks\<close>

definition cache_bufno :: "container \<Rightarrow> nat \<Rightarrow> nat" where
  "cache_bufno s c = fst (c_ib (the (caches s c)))"

definition cache_buf :: "container \<Rightarrow> nat \<Rightarrow> buf" where
  "cache_buf s c = the (bufs s (cache_bufno s c))"

definition flagged :: "container \<Rightarrow> nat \<Rightarrow> bool" where
  "flagged s c \<longleftrightarrow> CACHE_FLUSH (the (caches s c))"

text \<open>A block that can be written: a buffer of its own with a block of 4096 bytes, inside the file's range.\<close>

definition writable :: "container \<Rightarrow> nat \<Rightarrow> bool" where
  "writable s c \<longleftrightarrow> c \<in> dom (caches s) \<and> snd (c_ib (the (caches s c))) = 0 \<and>
     cache_bufno s c \<in> dom (bufs s) \<and> wf_block (cache_buf s c) 0 \<and> bh_alloc_size (cache_buf s c) 0 = 4096 \<and>
     unat (cache_key s c) < 2 ^ 51"

definition owned :: "container \<Rightarrow> nat \<Rightarrow> bool" where
  "owned s c \<longleftrightarrow> (\<exists>oid x. objs s oid = Some x \<and> c \<in> members (oi_caches x))"

text \<open>The dirty blocks can be written, and those released by their object are not in use again.\<close>

definition flush_ready :: "container \<Rightarrow> bool" where
  "flush_ready s \<longleftrightarrow> caches_ok s \<and> get32 (ct_sb s) 24 = 8 \<and>
     inj_on (cache_bufno s) (members (ct_metadata_cache s)) \<and>
     (\<forall>c \<in> members (ct_metadata_cache s). is_dirty s c \<longrightarrow> writable s c \<and> (flagged s c \<longrightarrow> \<not> owned s c))"

definition block_bytes :: "u64 \<Rightarrow> nat set" where
  "block_bytes vbn = {unat vbn * 4096 ..< unat vbn * 4096 + 4096}"

lemma block_off_4096:
  assumes "dc_sectors_per_block ct = 8" "unat vbn < 2 ^ 51"
  shows "block_off ct vbn = unat vbn * 4096"
proof -
  have "unat (vbn * 8) = unat vbn * 8" using assms(2) by (simp add: unat_word_ariths)
  then have "unat (push_bit 9 (vbn * 8)) = unat vbn * 8 * 512 mod 2 ^ 64"
    by (simp only: unat_push_bit_mod) simp
  then show ?thesis using assms by (simp add: block_off_def)
qed

lemma disk_view_8: "get32 (ct_sb s) 24 = 8 \<Longrightarrow> dc_sectors_per_block (disk_view s) = 8"
  by (simp add: disk_view_def)

lemma block_bytes_disjoint: "v \<noteq> w \<Longrightarrow> block_bytes v \<inter> block_bytes w = {}"
proof -
  assume "v \<noteq> w"
  then have "unat v < unat w \<or> unat w < unat v" by (metis linorder_neqE_nat word_unat_eq_iff)
  then show ?thesis by (auto simp: block_bytes_def)
qed

section \<open>Writing one block\<close>

text \<open>What a write to the file may change: the bytes in \<open>A\<close>, and the size.\<close>

definition only_bytes :: "container \<Rightarrow> container \<Rightarrow> nat set \<Rightarrow> bool" where
  "only_bytes s s' A \<longleftrightarrow> fsize (ct_disk s) \<le> fsize (ct_disk s') \<and>
     (\<forall>i < fsize (ct_disk s). i \<notin> A \<longrightarrow> fbytes (ct_disk s') i = fbytes (ct_disk s) i)"

lemma only_bytes_refl [simp]: "only_bytes s s A"
  by (simp add: only_bytes_def)

lemma only_bytes_trans: "only_bytes s s1 A \<Longrightarrow> only_bytes s1 s2 B \<Longrightarrow> only_bytes s s2 (A \<union> B)"
  by (auto simp: only_bytes_def)

lemma only_bytes_mono: "only_bytes s s' A \<Longrightarrow> A \<subseteq> B \<Longrightarrow> only_bytes s s' B"
  by (auto simp: only_bytes_def)

text \<open>What a flush leaves of the container.\<close>

definition same_rest :: "container \<Rightarrow> container \<Rightarrow> bool" where
  "same_rest s s' \<longleftrightarrow> objs s' = objs s \<and> handles s' = handles s \<and> next_id s' = next_id s \<and> ct_sb s' = ct_sb s \<and>
     ct_flags s' = ct_flags s \<and> ct_id_obj s' = ct_id_obj s \<and> ct_sm s' = ct_sm s \<and> ct_bsm s' = ct_bsm s \<and>
     ct_base_blk s' = ct_base_blk s \<and> ct_obj_info_list s' = ct_obj_info_list s \<and> env s' = env s \<and>
     junk s' = junk s \<and> tick s \<le> tick s'"

lemma same_rest_refl [simp]: "same_rest s s"
  by (simp add: same_rest_def)

lemma same_rest_trans: "same_rest s s1 \<Longrightarrow> same_rest s1 s2 \<Longrightarrow> same_rest s s2"
  by (simp add: same_rest_def)

lemma free_container_cache_ok:
  assumes ok: "caches_ok s" and c: "c \<in> members (ct_metadata_cache s)" and own: "\<not> owned s c"
  shows "\<exists>s'. free_container_cache c s = Some s' \<and> caches_ok s' \<and> same_rest s s' \<and> ct_disk s' = ct_disk s \<and>
    tick s' = tick s \<and> caches s' = (caches s)(c := None) \<and> bufs s' = (bufs s)(cache_bufno s c := None) \<and>
    members (ct_metadata_cache s') = members (ct_metadata_cache s) - {c}"
proof -
  note D = caches_okD [OF ok]
  from avl_remove_node_member [OF D(1) c] obtain u where u: "avl_remove_node (ct_metadata_cache s) c = Some u"
    "avl_inv (cache_key s) u" "members u = members (ct_metadata_cache s) - {c}" by blast
  have "c \<in> dom (caches s)" using D(2) c by (rule subsetD)
  then obtain k where k: "caches s c = Some k" by blast
  let ?s = "s\<lparr> ct_metadata_cache := u \<rparr>"
  have ok1: "caches_ok ?s"
  proof -
    have "members (oi_caches x) \<subseteq> members u" if "objs s oid = Some x" for oid x
      using D(4) [OF that] own that unfolding u(3) owned_def by (simp add: subset_Diff_insert)
    moreover have "cache_tree s (oi_caches x)" if "objs s oid = Some x" for oid x
      using ok that by (auto simp: caches_ok_def)
    ultimately show ?thesis using ok u D(2) by (auto simp: caches_ok_def cache_tree_def)
  qed
  let ?s' = "?s\<lparr> bufs := (bufs s)(cache_bufno s c := None), caches := (caches s)(c := None) \<rparr>"
  have "free_container_cache c s = Some ?s'"
    using u(1) k by (simp add: free_container_cache_def drop_cache_def cache_bufno_def)
  moreover have "caches_ok ?s'" using caches_ok_drop [OF ok1, of c] u(3) by simp
  ultimately show ?thesis using u(3) by (intro exI [of _ ?s']) (simp add: same_rest_def)
qed

lemma bh_alloc_size_cong: "(\<forall>i. i < 12 \<or> 16 \<le> i \<longrightarrow> m2 i = m i) \<Longrightarrow> bh_alloc_size m2 0 = bh_alloc_size m 0"
  by (auto simp: bh_defs intro!: get_cong)

text \<open>What writing one dirty block does; \<open>nz\<close> is whether it failed.\<close>

definition flush_one_result :: "container \<Rightarrow> nat \<Rightarrow> bool \<Rightarrow> container \<Rightarrow> bool" where
  "flush_one_result s c nz s' \<longleftrightarrow>
     flush_container_dirty_cache c s = Some (nz, s') \<and> caches_ok s' \<and> same_rest s s' \<and>
     tick s' = tick s + 1 \<and> only_bytes s s' (block_bytes (cache_key s c)) \<and>
     (\<forall>b. b \<noteq> cache_bufno s c \<longrightarrow> bufs s' b = bufs s b) \<and>
     (nz \<longrightarrow> caches s' = caches s \<and> members (ct_metadata_cache s') = members (ct_metadata_cache s)) \<and>
     (\<not> nz \<longrightarrow> stored (disk_view s') (cache_key s c) (cache_buf s c) \<and>
        caches s' = (caches s)(c := if flagged s c then None else Some ((the (caches s c))\<lparr> c_state := CLEAN \<rparr>)) \<and>
        members (ct_metadata_cache s') = members (ct_metadata_cache s) - (if flagged s c then {c} else {})) \<and>
     (nz \<longleftrightarrow> \<not> (io_seek (env s (tick s)) \<and> 4096 \<le> io_xfer (env s (tick s))))"

lemma flush_one:
  assumes ok: "caches_ok s" and sec: "get32 (ct_sb s) 24 = 8" and c: "c \<in> members (ct_metadata_cache s)"
    and dirty: "is_dirty s c" and w: "writable s c" and own: "flagged s c \<longrightarrow> \<not> owned s c"
  shows "\<exists>nz s'. flush_one_result s c nz s'"
proof -
  note D = caches_okD [OF ok]
  from w obtain k where k: "caches s c = Some k" "snd (c_ib k) = 0" by (auto simp: writable_def)
  let ?b = "fst (c_ib k)"
  from w k(1) obtain m where m: "bufs s ?b = Some m" by (auto simp: writable_def cache_bufno_def)
  have eqs: "cache_bufno s c = ?b" "cache_buf s c = m" "cache_key s c = c_vbn k"
    using k(1) m by (simp_all add: cache_bufno_def cache_buf_def cache_key_def)
  have wf: "wf_block m 0" "bh_alloc_size m 0 = 4096" "unat (c_vbn k) < 2 ^ 51"
    using w by (simp_all add: writable_def eqs)
  have off: "block_off (disk_view s) (c_vbn k) = unat (c_vbn k) * 4096"
    using block_off_4096 [OF disk_view_8 [OF sec] wf(3)] .
  then have lt: "block_off (disk_view s) (c_vbn k) < 2 ^ 63" using wf(3) by simp
  from update_fixup_any [OF wf(1,2) lt, of "env s (tick s)"] obtain ret m2 f where
    up: "ofs_update_block_fixup (env s (tick s)) (disk_view s) m (c_vbn k) =
        Some (ret, m2, (disk_view s)\<lparr> dc_disk := f \<rparr>)"
    and m2: "\<forall>i. i < 12 \<or> 16 \<le> i \<longrightarrow> m2 i = m i"
    and f: "fsize (ct_disk s) \<le> fsize f"
      "\<forall>i < fsize (ct_disk s). i < unat (c_vbn k) * 4096 \<or> unat (c_vbn k) * 4096 + 4096 \<le> i \<longrightarrow>
         fbytes f i = fbytes (ct_disk s) i"
    and st: "ret = Inr 4096 \<Longrightarrow> stored ((disk_view s)\<lparr> dc_disk := f \<rparr>) (c_vbn k) m"
    and io: "ret = Inr 4096 \<longleftrightarrow> io_seek (env s (tick s)) \<and> 4096 \<le> io_xfer (env s (tick s))"
    unfolding off by (auto simp: disk_view_def)
  let ?s1 = "put_buf ?b m2 (s\<lparr> tick := tick s + 1, ct_disk := f \<rparr>)"
  have ok1: "caches_ok ?s1" using ok by (rule caches_ok_mono) (use D(2,5,6) in \<open>auto simp: cache_key_def\<close>)
  have dv: "(disk_view s)\<lparr> dc_disk := f \<rparr> = disk_view ?s1"
    by (simp add: disk_view_def sb_block_size_def)
  have sr: "same_rest s ?s1" by (simp add: same_rest_def put_buf_def)
  have ob: "only_bytes s ?s1 (block_bytes (c_vbn k))"
    using f by (auto simp: only_bytes_def block_bytes_def)
  have d: "CACHE_DIRTY k" using dirty k(1) by (simp add: is_dirty_def)
  have fl: "CACHE_FLUSH k \<longleftrightarrow> flagged s c" using k(1) by (simp add: flagged_def)
  have step: "flush_container_dirty_cache c s =
      (if ret \<noteq> Inr 4096 then Some (True, ?s1)
       else if flagged s c
         then Option.bind (set_cache_state c CLEAN ?s1) (\<lambda>s. Option.bind (free_container_cache c s) (\<lambda>s. Some (False, s)))
         else Option.bind (set_cache_state c CLEAN ?s1) (\<lambda>s. Some (False, s)))"
    using k m d up fl bh_alloc_size_cong [OF m2] wf(2) by (simp add: flush_container_dirty_cache_def Let_def)
  show ?thesis
  proof (cases "ret = Inr 4096")
    case False
    then show ?thesis
      using step ok1 sr ob io eqs by (intro exI [of _ True] exI [of _ ?s1]) (auto simp: flush_one_result_def)
  next
    case True
    let ?s2 = "put_cache c (k\<lparr> c_state := CLEAN \<rparr>) ?s1"
    have s2: "set_cache_state c CLEAN ?s1 = Some ?s2" "caches_ok ?s2"
      using set_cache_state_ok [OF ok1, of c k CLEAN] k(1) by simp_all
    have sr2: "same_rest s ?s2" using sr by (simp add: same_rest_def put_cache_def)
    have ob2: "only_bytes s ?s2 (block_bytes (c_vbn k))" using ob by (simp add: only_bytes_def)
    have st2: "stored (disk_view ?s2) (c_vbn k) m" using st [OF True] unfolding dv by (simp add: disk_view_def sb_block_size_def)
    show ?thesis
    proof (cases "flagged s c")
      case False
      then show ?thesis
        using True step s2 sr2 ob2 st2 io eqs k(1)
        by (intro exI [of _ False] exI [of _ ?s2]) (auto simp: flush_one_result_def)
    next
      case fl: True
      have "\<not> owned ?s2 c" using own fl by (simp add: owned_def)
      moreover have "cache_bufno ?s2 c = ?b" "c \<in> members (ct_metadata_cache ?s2)" "tick ?s2 = tick s + 1"
        "caches ?s2 = (caches s)(c \<mapsto> k\<lparr> c_state := CLEAN \<rparr>)" using c by (simp_all add: cache_bufno_def)
      ultimately obtain s3 where s3:
        "free_container_cache c ?s2 = Some s3" "caches_ok s3" "same_rest ?s2 s3" "ct_disk s3 = f"
        "caches s3 = (caches s)(c := None)" "bufs s3 = (bufs ?s2)(?b := None)"
        "members (ct_metadata_cache s3) = members (ct_metadata_cache s) - {c}" "tick s3 = tick s + 1"
        using free_container_cache_ok [OF s2(2), of c] by auto
      have "only_bytes s s3 (block_bytes (c_vbn k))" using ob s3(4) by (simp add: only_bytes_def)
      moreover have "stored (disk_view s3) (c_vbn k) m"
        using st2 s3(3,4) by (simp add: disk_view_def sb_block_size_def same_rest_def)
      ultimately show ?thesis
        using True step s2 fl s3 io same_rest_trans [OF sr2 s3(3)] eqs
        by (intro exI [of _ False] exI [of _ s3]) (auto simp: flush_one_result_def)
    qed
  qed
qed

section \<open>Writing all blocks\<close>

definition dirty_members :: "container \<Rightarrow> nat set" where
  "dirty_members s = {c \<in> members (ct_metadata_cache s). is_dirty s c}"

definition dirty_bytes :: "container \<Rightarrow> nat set" where
  "dirty_bytes s = (\<Union>c \<in> dirty_members s. block_bytes (cache_key s c))"

text \<open>The caches after the blocks in \<open>A\<close> have been looked at.\<close>

definition flushed :: "container \<Rightarrow> nat set \<Rightarrow> nat \<rightharpoonup> ofs_block_cache" where
  "flushed s A = (\<lambda>c. if c \<in> A \<and> is_dirty s c
     then if flagged s c then None else map_option (\<lambda>k. k\<lparr> c_state := CLEAN \<rparr>) (caches s c)
     else caches s c)"

definition io_fine :: "container \<Rightarrow> bool" where
  "io_fine s \<longleftrightarrow> (\<forall>t \<ge> tick s. io_seek (env s t) \<and> 4096 \<le> io_xfer (env s t))"

text \<open>The state while \<open>xs\<close> are still to be written.\<close>

definition flushing :: "container \<Rightarrow> nat list \<Rightarrow> container \<Rightarrow> bool" where
  "flushing s xs s' \<longleftrightarrow> distinct xs \<and> set xs \<subseteq> members (ct_metadata_cache s) \<and> caches_ok s' \<and> same_rest s s' \<and>
     only_bytes s s' (dirty_bytes s) \<and>
     (\<forall>c \<in> set xs. bufs s' (cache_bufno s c) = bufs s (cache_bufno s c)) \<and>
     (\<forall>c \<in> dirty_members s - set xs. stored (disk_view s') (cache_key s c) (cache_buf s c)) \<and>
     caches s' = flushed s (members (ct_metadata_cache s) - set xs) \<and>
     members (ct_metadata_cache s') =
       members (ct_metadata_cache s) - {d \<in> dirty_members s - set xs. flagged s d} \<and>
     (dirty_members s - set xs \<noteq> {} \<longrightarrow> (\<exists>t \<ge> tick s. io_seek (env s t) \<and> 4096 \<le> io_xfer (env s t)))"

definition flush_stopped :: "container \<Rightarrow> container \<Rightarrow> bool" where
  "flush_stopped s s' \<longleftrightarrow> \<not> io_fine s \<and> caches_ok s' \<and> same_rest s s' \<and> only_bytes s s' (dirty_bytes s) \<and>
     (\<exists>c \<in> dirty_members s. c \<in> members (ct_metadata_cache s') \<and> is_dirty s' c)"

lemma stored_keeps:
  assumes st: "stored (disk_view s1) v m" "bh_alloc_size m 0 = 4096" "unat v < 2 ^ 51"
    and sr: "same_rest s1 s2" "get32 (ct_sb s1) 24 = 8"
    and ob: "only_bytes s1 s2 (block_bytes w)" "v \<noteq> w"
  shows "stored (disk_view s2) v m"
proof (rule stored_cong [OF st(1)])
  have off: "block_off (disk_view s1) v = unat v * 4096"
    by (rule block_off_4096 [OF disk_view_8 [OF sr(2)] st(3)])
  have sz: "unat v * 4096 + 4096 \<le> fsize (ct_disk s1)"
    using st(1) by (auto simp: stored_def off st(2)) (simp add: disk_view_def)
  show "fbytes (dc_disk (disk_view s2)) i = fbytes (dc_disk (disk_view s1)) i"
    if "block_off (disk_view s1) v \<le> i" "i < block_off (disk_view s1) v + unat (bh_alloc_size m 0)" for i
  proof -
    have i: "i \<in> block_bytes v" using that off st(2) by (simp add: block_bytes_def)
    with block_bytes_disjoint [OF ob(2)] have "i \<notin> block_bytes w" by blast
    moreover have "i < fsize (ct_disk s1)" using i sz by (simp add: block_bytes_def)
    ultimately show ?thesis using ob(1) by (simp add: only_bytes_def disk_view_def)
  qed
qed (use sr(1) ob(1) in \<open>simp_all add: disk_view_def same_rest_def only_bytes_def\<close>)

lemma flushing_step:
  assumes ready: "flush_ready s" and P: "flushing s (c # xs) s1"
  shows "\<exists>nz s'. flush_container_dirty_cache c s1 = Some (nz, s') \<and>
    (if nz then flush_stopped s s' else flushing s xs s')"
proof -
  let ?M = "members (ct_metadata_cache s)"
  have ok: "caches_ok s" and sec: "get32 (ct_sb s) 24 = 8" and inj: "inj_on (cache_bufno s) ?M"
    and dirty_ok: "\<forall>c \<in> ?M. is_dirty s c \<longrightarrow> writable s c \<and> (flagged s c \<longrightarrow> \<not> owned s c)"
    using ready by (simp_all add: flush_ready_def)
  note D = caches_okD [OF ok]
  have c: "c \<in> ?M" "c \<notin> set xs" and p: "distinct xs" "set xs \<subseteq> ?M" "caches_ok s1" "same_rest s s1"
      "only_bytes s s1 (dirty_bytes s)" "caches s1 = flushed s (?M - set (c # xs))"
      "members (ct_metadata_cache s1) = ?M - {d \<in> dirty_members s - set (c # xs). flagged s d}"
    and pb: "\<forall>c' \<in> set (c # xs). bufs s1 (cache_bufno s c') = bufs s (cache_bufno s c')"
    and pio: "dirty_members s - set (c # xs) \<noteq> {} \<longrightarrow> (\<exists>t \<ge> tick s. io_seek (env s t) \<and> 4096 \<le> io_xfer (env s t))"
    and ps: "\<forall>c' \<in> dirty_members s - set (c # xs). stored (disk_view s1) (cache_key s c') (cache_buf s c')"
    using P by (simp_all add: flushing_def)
  have k1: "caches s1 c = caches s c" using p(6) by (simp add: flushed_def)
  have cd: "c \<in> dom (caches s)" using D(2) c(1) by (rule subsetD)
  show ?thesis
  proof (cases "is_dirty s c")
    case False
    have "flush_container_dirty_cache c s1 = Some (False, s1)"
      using False cd k1 by (auto simp: flush_container_dirty_cache_def is_dirty_def)
    moreover have "flushing s xs s1"
    proof -
      have e: "dirty_members s - set xs = dirty_members s - set (c # xs)"
        "flushed s (?M - set xs) = flushed s (?M - set (c # xs))"
        using False by (auto simp: dirty_members_def flushed_def fun_eq_iff)
      show ?thesis
        unfolding flushing_def e by (intro conjI p ps pio) (use pb in simp)
    qed
    ultimately show ?thesis by (intro exI [of _ False] exI [of _ s1]) simp
  next
    case True
    have eq: "cache_bufno s1 c = cache_bufno s c" "cache_buf s1 c = cache_buf s c" "cache_key s1 c = cache_key s c"
      "is_dirty s1 c" "flagged s1 c = flagged s c"
      using k1 pb True by (simp_all add: cache_bufno_def cache_buf_def cache_key_def is_dirty_def flagged_def)
    have w: "writable s c" "flagged s c \<longrightarrow> \<not> owned s c" using dirty_ok c(1) True by blast+
    have objs: "objs s1 = objs s" and sb: "ct_sb s1 = ct_sb s" using p(4) by (simp_all add: same_rest_def)
    have "writable s1 c" using w(1) k1 pb eq by (auto simp: writable_def dom_def)
    moreover have "flagged s1 c \<longrightarrow> \<not> owned s1 c" using w(2) eq(5) by (simp add: owned_def objs)
    moreover have "get32 (ct_sb s1) 24 = 8" using sec sb by simp
    moreover have "c \<in> members (ct_metadata_cache s1)" using p(7) c by simp
    ultimately have "\<exists>nz s'. flush_one_result s1 c nz s'" using flush_one [OF p(3) _ _ eq(4)] by simp
    then obtain nz s2 where "flush_one_result s1 c nz s2" by (elim exE)
    then have f2: "flush_container_dirty_cache c s1 = Some (nz, s2)" "caches_ok s2" "same_rest s1 s2"
      "only_bytes s1 s2 (block_bytes (cache_key s c))" "\<forall>b. b \<noteq> cache_bufno s c \<longrightarrow> bufs s2 b = bufs s1 b"
      "\<not> nz \<longrightarrow> stored (disk_view s2) (cache_key s c) (cache_buf s c) \<and>
        caches s2 = (caches s1)(c := if flagged s c then None else Some ((the (caches s c))\<lparr> c_state := CLEAN \<rparr>)) \<and>
        members (ct_metadata_cache s2) = members (ct_metadata_cache s1) - (if flagged s c then {c} else {})"
      "nz \<longleftrightarrow> \<not> (io_seek (env s1 (tick s1)) \<and> 4096 \<le> io_xfer (env s1 (tick s1)))"
      "nz \<longrightarrow> caches s2 = caches s1 \<and> members (ct_metadata_cache s2) = members (ct_metadata_cache s1)"
      unfolding flush_one_result_def eq k1 by simp_all
    have sr: "same_rest s s2" by (rule same_rest_trans [OF p(4) f2(3)])
    have cm: "c \<in> dirty_members s" using c(1) True by (simp add: dirty_members_def)
    have ob: "only_bytes s s2 (dirty_bytes s)"
      by (rule only_bytes_mono [OF only_bytes_trans [OF p(5) f2(4)]]) (use cm in \<open>auto simp: dirty_bytes_def\<close>)
    show ?thesis
    proof (cases nz)
      case True
      have "env s1 = env s" "tick s \<le> tick s1" using p(4) by (simp_all add: same_rest_def)
      with True f2(7) have "\<not> io_fine s" by (auto simp: io_fine_def)
      moreover have "c \<in> members (ct_metadata_cache s2)" "is_dirty s2 c"
        using True f2(8) p(7) c eq(4) by (simp_all add: is_dirty_def)
      ultimately show ?thesis using True f2(1,2) sr ob cm by (auto simp: flush_stopped_def)
    next
      case False
      have r: "stored (disk_view s2) (cache_key s c) (cache_buf s c)"
        "caches s2 = (caches s1)(c := if flagged s c then None else Some ((the (caches s c))\<lparr> c_state := CLEAN \<rparr>))"
        "members (ct_metadata_cache s2) = members (ct_metadata_cache s1) - (if flagged s c then {c} else {})"
        using f2(6) False by simp_all
      have "stored (disk_view s2) (cache_key s c') (cache_buf s c')"
        if c': "c' \<in> dirty_members s - set xs" for c'
      proof (cases "c' = c")
        case True
        then show ?thesis using r by simp
      next
        case neq: False
        have m: "c' \<in> ?M" and w': "writable s c'" using c' dirty_ok by (auto simp: dirty_members_def)
        have "cache_key s c' \<noteq> cache_key s c"
          using avl_inv_inj [OF D(1)] neq m c(1) by (meson inj_on_contraD)
        moreover have "stored (disk_view s1) (cache_key s c') (cache_buf s c')" using ps c' neq by simp
        ultimately show ?thesis
          using stored_keeps [OF _ _ _ f2(3) _ f2(4)] w' sec sb by (simp add: writable_def)
      qed
      moreover have "bufs s2 (cache_bufno s c') = bufs s (cache_bufno s c')" if "c' \<in> set xs" for c'
      proof -
        have "cache_bufno s c' \<noteq> cache_bufno s c" using that c p(2) inj by (metis inj_on_contraD subsetD)
        with f2(5) pb that show ?thesis by simp
      qed
      moreover have "caches s2 = flushed s (?M - set xs)"
        using r p(6) c True cd by (auto simp: flushed_def fun_eq_iff)
      moreover have "members (ct_metadata_cache s2) = ?M - {d \<in> dirty_members s - set xs. flagged s d}"
        using r p(7) c cm by auto
      moreover have "\<exists>t \<ge> tick s. io_seek (env s t) \<and> 4096 \<le> io_xfer (env s t)"
      proof -
        have "env s1 = env s" "tick s \<le> tick s1" using p(4) by (simp_all add: same_rest_def)
        with False f2(7) show ?thesis by auto
      qed
      ultimately show ?thesis
        using f2(1,2) sr ob p(1,2) False by (intro exI [of _ False] exI [of _ s2]) (simp add: flushing_def)
    qed
  qed
qed

lemma flush_walk:
  assumes "flush_ready s"
  shows "\<exists>s'. walk_all (ct_metadata_cache s) flush_container_dirty_cache s = Some s' \<and>
    (flushing s [] s' \<or> flush_stopped s s')"
proof -
  have ok: "caches_ok s" using assms by (simp add: flush_ready_def)
  note D = caches_okD [OF ok]
  have "flushing s (inorder (avl_root (ct_metadata_cache s))) s"
    using inorder_members [OF D(1)] ok
    by (auto simp: flushing_def dirty_members_def flushed_def fun_eq_iff)
  from walk_nodes_until [of "flushing s", OF this flushing_step [OF assms]]
  show ?thesis by (simp add: walk_all_nodes [OF D(1)])
qed

section \<open>The super block behind the blocks\<close>

lemma sb_disk_keeps:
  assumes "sb_disk (disk_view s) n c" "only_bytes s s' A" "A \<inter> {..<4096} = {}"
    "sb_block_size s' = sb_block_size s"
  shows "sb_disk (disk_view s') n c"
proof -
  have eq: "fbytes (ct_disk s') i = fbytes (ct_disk s) i" if "i < 4096" for i
  proof -
    have "i \<notin> A" using assms(3) that by blast
    then show ?thesis using assms(1,2) that by (simp add: sb_disk_def only_bytes_def disk_view_def)
  qed
  have sl: "sb_slot (fbytes (ct_disk s')) (512 * i) v \<longleftrightarrow> sb_slot (fbytes (ct_disk s)) (512 * i) v"
    if "i < 8" for i v
    using that get_cong [of "fbytes (ct_disk s')" _ "fbytes (ct_disk s)"] eq
    by (simp add: sb_slot_def sb_head_def bh_defs)
  have "slots_ok (fbytes (ct_disk s')) n"
    using assms(1) sl eq slot_bytes by (simp add: sb_disk_def slots_ok_def disk_view_def)
  moreover have "disk_content (fbytes (ct_disk s')) (512 * (n mod 8)) = disk_content (fbytes (ct_disk s)) (512 * (n mod 8))"
  proof -
    have "n mod 8 < 8" by simp
    then have "fbytes (ct_disk s') (512 * (n mod 8) + j) = fbytes (ct_disk s) (512 * (n mod 8) + j)" if "j < 512" for j
      using eq slot_bytes that by blast
    then show ?thesis by (auto simp: disk_content_def add.assoc intro!: arg_cong2 [where f = append] rd_eqI)
  qed
  ultimately show ?thesis using assms by (auto simp: sb_disk_def disk_view_def only_bytes_def)
qed

text \<open>The super block with the space managers' counts, as \<open>flush_container_cache\<close> writes it.\<close>

definition sb_with_counts :: "container \<Rightarrow> container" where
  "sb_with_counts s = sb_put64 116 (ct_base_blk s) (sb_put64 108 (sm_first_free_block (ct_bsm s))
     (sb_put64 100 (sm_total_free_blocks (ct_bsm s)) (sb_put64 76 (sm_first_free_block (ct_sm s))
     (sb_put64 68 (sm_total_free_blocks (ct_sm s)) s))))"

lemma sb_with_counts_sel [simp]:
  "caches (sb_with_counts s) = caches s" "bufs (sb_with_counts s) = bufs s"
  "ct_metadata_cache (sb_with_counts s) = ct_metadata_cache s" "ct_disk (sb_with_counts s) = ct_disk s"
  "env (sb_with_counts s) = env s" "tick (sb_with_counts s) = tick s" "ct_flags (sb_with_counts s) = ct_flags s"
  by (simp_all add: sb_with_counts_def sb_put64_def)

lemma sb_with_counts_sb:
  "ct_sb (sb_with_counts s) = put64 (put64 (put64 (put64 (put64 (ct_sb s) 68 (sm_total_free_blocks (ct_sm s)))
     76 (sm_first_free_block (ct_sm s))) 100 (sm_total_free_blocks (ct_bsm s)))
     108 (sm_first_free_block (ct_bsm s))) 116 (ct_base_blk s)"
  by (simp add: sb_with_counts_def sb_put64_def)

lemma get_put64_disj:
  "off + 2 \<le> a \<or> a + 8 \<le> off \<Longrightarrow> get16 (put64 m a v) off = get16 m off"
  "off + 4 \<le> a \<or> a + 8 \<le> off \<Longrightarrow> get32 (put64 m a v) off = get32 m off"
  "off + 8 \<le> a \<or> a + 8 \<le> off \<Longrightarrow> get64 (put64 m a v) off = get64 m off"
  by (simp_all add: get16_def get32_def get64_def put_disj)

lemma sb_with_counts_mem:
  assumes "sb_mem (ct_sb s) n c"
  shows "sb_mem (ct_sb (sb_with_counts s)) n (mem_content (ct_sb (sb_with_counts s)) 0)"
    and "disk_view (sb_with_counts s) = disk_view s"
  using assms
  by (simp_all add: sb_mem_def sb_head_def bh_defs sb_with_counts_sb get_put64_disj disk_view_def sb_block_size_def)

lemma flush_container_cache_eq:
  "flush_container_cache s = Option.bind (walk_all (ct_metadata_cache s) flush_container_dirty_cache s) (\<lambda>s.
     if ct_flags s AND FLAG_DIRTY = 0 then Some s
     else Option.bind (ofs_update_super_block (env s (tick s)) (disk_view (sb_with_counts s)) (ct_sb (sb_with_counts s)))
       (\<lambda>(ret, sb, d). Some ((sb_with_counts s)\<lparr> tick := tick s + 1, ct_sb := sb, ct_disk := dc_disk d,
          ct_flags := ct_flags s AND NOT FLAG_DIRTY \<rparr>)))"
proof -
  have sel: "ct_sm (sb_put64 a v s) = ct_sm s" "ct_bsm (sb_put64 a v s) = ct_bsm s"
    "ct_base_blk (sb_put64 a v s) = ct_base_blk s" for a v s by (simp_all add: sb_put64_def)
  have fold: "sb_put64 116 (ct_base_blk s) (sb_put64 108 (sm_first_free_block (ct_bsm s))
     (sb_put64 100 (sm_total_free_blocks (ct_bsm s)) (sb_put64 76 (sm_first_free_block (ct_sm s))
     (sb_put64 68 (sm_total_free_blocks (ct_sm s)) s)))) = sb_with_counts s" for s
    by (simp add: sb_with_counts_def)
  show ?thesis
    unfolding flush_container_cache_def Let_def sel fold by (simp cong: if_cong)
qed

text \<open>The bytes a complete update of the super block changes are those of block 0.\<close>

lemma update_super_block_bytes:
  assumes "sb_mem sb n c" "dc_block_size ct = 4096" "io_seek io"
    "ofs_update_super_block io ct sb = Some (r, sb', ct')"
  shows "ct' = ct\<lparr> dc_disk := dc_disk ct' \<rparr>" "fsize (dc_disk ct) \<le> fsize (dc_disk ct')"
    "4096 \<le> i \<Longrightarrow> i < fsize (dc_disk ct) \<Longrightarrow> fbytes (dc_disk ct') i = fbytes (dc_disk ct) i"
proof -
  from update_super_block [OF assms(1-3)] obtain m1 sb2 where
    u: "ofs_update_super_block io ct sb =
      (let (k, f) = os_file_write io (dc_disk ct) (rd m1 0 512) (512 * (n mod 8))
       in Some (if k = 512 then Inr () else Inl BLOCK_ERR_WRITE, sb2, ct\<lparr> dc_disk := f \<rparr>))" by blast
  obtain k f where w: "os_file_write io (dc_disk ct) (rd m1 0 512) (512 * (n mod 8)) = (k, f)" by fastforce
  note ws = os_file_write_bytes [OF w]
  have ct': "ct' = ct\<lparr> dc_disk := f \<rparr>" using u assms(4) w by simp
  then show "ct' = ct\<lparr> dc_disk := dc_disk ct' \<rparr>" "fsize (dc_disk ct) \<le> fsize (dc_disk ct')"
    using ws(2) by simp_all
  have "k \<le> 512" using ws(1) by simp
  moreover have "512 * (n mod 8) \<le> 512 * 7" by simp
  ultimately have "512 * (n mod 8) + k \<le> 4096" by linarith
  then show "fbytes (dc_disk ct') i = fbytes (dc_disk ct) i" if "4096 \<le> i" "i < fsize (dc_disk ct)"
    using ws(5) [of i] that ct' by simp
qed

lemma stored_outside:
  assumes "stored (disk_view s) v m" "bh_alloc_size m 0 = 4096" "unat v < 2 ^ 51" "get32 (ct_sb s) 24 = 8"
    "only_bytes s s' A" "A \<inter> block_bytes v = {}" "dc_sectors_per_block (disk_view s') = 8"
  shows "stored (disk_view s') v m"
proof (rule stored_cong [OF assms(1)])
  have off: "block_off (disk_view s) v = unat v * 4096"
    by (rule block_off_4096 [OF disk_view_8 [OF assms(4)] assms(3)])
  have sz: "unat v * 4096 + 4096 \<le> fsize (ct_disk s)"
    using assms(1) by (auto simp: stored_def off assms(2)) (simp add: disk_view_def)
  show "fbytes (dc_disk (disk_view s')) i = fbytes (dc_disk (disk_view s)) i"
    if "block_off (disk_view s) v \<le> i" "i < block_off (disk_view s) v + unat (bh_alloc_size m 0)" for i
  proof -
    have i: "i \<in> block_bytes v" using that off assms(2) by (simp add: block_bytes_def)
    with assms(6) have "i \<notin> A" by blast
    moreover have "i < fsize (ct_disk s)" using i sz by (simp add: block_bytes_def)
    ultimately show ?thesis using assms(5) by (simp add: only_bytes_def disk_view_def)
  qed
  show "dc_sectors_per_block (disk_view s') = dc_sectors_per_block (disk_view s)"
    using assms(4,7) by (simp add: disk_view_8)
qed (use assms(5) in \<open>simp add: only_bytes_def disk_view_def\<close>)

lemma dirty_bytes_outside:
  assumes "v \<notin> cache_key s ` dirty_members s"
  shows "dirty_bytes s \<inter> block_bytes v = {}"
  using assms block_bytes_disjoint by (fastforce simp: dirty_bytes_def)

lemma dirty_bytes_block0: "0 \<notin> cache_key s ` dirty_members s \<Longrightarrow> dirty_bytes s \<inter> {..<4096} = {}"
  using dirty_bytes_outside [of 0 s] by (simp add: block_bytes_def lessThan_atLeast0)

lemma flush_walk_bytes:
  assumes "flush_ready s"
  shows "\<exists>s'. walk_all (ct_metadata_cache s) flush_container_dirty_cache s = Some s' \<and> caches_ok s' \<and>
    same_rest s s' \<and> only_bytes s s' (dirty_bytes s) \<and> (flushing s [] s' \<or> flush_stopped s s')"
  using flush_walk [OF assms] by (auto simp: flushing_def flush_stopped_def)

lemma mem_content_get32:
  assumes "mem_content m 0 = mem_content m' 0" "16 \<le> off" "off + 4 \<le> 512"
  shows "get32 m off = get32 m' off"
proof -
  have "rd m 16 496 = rd m' 16 496" using assms(1) by (simp add: mem_content_def)
  then have e: "m (16 + i) = m' (16 + i)" if "i < 496" for i using that by (simp add: rd_eq_iff)
  show ?thesis
  proof (rule get_cong(2))
    show "m (off + i) = m' (off + i)" if "i < 4" for i
      using e [of "off + i - 16"] that assms(2,3) by simp
  qed
qed

text \<open>The super block after the walk is written in full, if the file layer moves its 512 bytes.\<close>

lemma flush_super_block:
  assumes s': "same_rest s s'" and sb: "sb_disk (disk_view s') n c" "sb_mem (ct_sb s) (Suc n) c'"
    and io: "io_seek (env s (tick s'))" "512 \<le> io_xfer (env s (tick s'))"
  shows "\<exists>sb' d. ofs_update_super_block (env s' (tick s')) (disk_view (sb_with_counts s')) (ct_sb (sb_with_counts s')) =
      Some (Inr (), sb', (disk_view s')\<lparr> dc_disk := d \<rparr>) \<and>
    sb_disk ((disk_view s')\<lparr> dc_disk := d \<rparr>) (Suc n) (mem_content (ct_sb (sb_with_counts s)) 0) \<and>
    fsize (ct_disk s') \<le> fsize d \<and> (\<forall>i. 4096 \<le> i \<and> i < fsize (ct_disk s') \<longrightarrow> fbytes d i = fbytes (ct_disk s') i) \<and>
    get32 sb' 20 = get32 (ct_sb s) 20 \<and> get32 sb' 24 = get32 (ct_sb s) 24"
proof -
  have eq: "ct_sb (sb_with_counts s') = ct_sb (sb_with_counts s)" "ct_sb s' = ct_sb s" "env s' = env s"
    using s' by (simp_all add: sb_with_counts_sb same_rest_def)
  let ?c = "mem_content (ct_sb (sb_with_counts s)) 0"
  have m: "sb_mem (ct_sb (sb_with_counts s)) (Suc n) ?c" by (rule sb_with_counts_mem(1) [OF sb(2)])
  have dv: "disk_view (sb_with_counts s') = disk_view s'"
    using sb_with_counts_mem(2) [of s' "Suc n" c'] sb(2) eq(2) by simp
  have io': "io_seek (env s' (tick s'))" "512 \<le> io_xfer (env s' (tick s'))" using io eq(3) by simp_all
  from read_after_write [OF sb(1) m io'(1), of "\<lambda>_. 0" "\<lambda>_. 0"] io'(2) obtain sb' ct' where
    u: "ofs_update_super_block (env s' (tick s')) (disk_view s') (ct_sb (sb_with_counts s)) = Some (Inr (), sb', ct')"
      "sb_mem sb' (Suc (Suc n)) ?c" "sb_disk ct' (Suc n) ?c" by auto
  have "dc_block_size (disk_view s') = 4096" using sb(1) by (simp add: sb_disk_def)
  note b = update_super_block_bytes [OF m this io'(1) u(1)]
  have "mem_content sb' 0 = ?c" using u(2) by (simp add: sb_mem_def)
  then have g: "get32 sb' 20 = get32 (ct_sb s) 20" "get32 sb' 24 = get32 (ct_sb s) 24"
    using mem_content_get32 [of sb' "ct_sb (sb_with_counts s)"]
    by (simp_all add: sb_with_counts_sb get_put64_disj)
  obtain d where d: "ct' = (disk_view s')\<lparr> dc_disk := d \<rparr>" using b(1) by blast
  have "fsize (ct_disk s') \<le> fsize d" "\<forall>i. 4096 \<le> i \<and> i < fsize (ct_disk s') \<longrightarrow> fbytes d i = fbytes (ct_disk s') i"
    using b(2,3) d by (simp_all add: disk_view_def)
  with u(1,3) g show ?thesis unfolding eq(1) dv d by blast
qed

text \<open>A flush whose walk has ended in \<open>s1\<close>: the super block is written whether or not all blocks were.\<close>

lemma flush_after_walk:
  assumes walk: "walk_all (ct_metadata_cache s) flush_container_dirty_cache s = Some s1"
    and s1: "same_rest s s1" "only_bytes s s1 (dirty_bytes s)" and sec: "get32 (ct_sb s) 24 = 8"
    and flag: "ct_flags s AND FLAG_DIRTY \<noteq> 0" and sb: "sb_disk (disk_view s) n c" "sb_mem (ct_sb s) (Suc n) c'"
    and zero: "0 \<notin> cache_key s ` dirty_members s"
    and io: "io_seek (env s (tick s1))" "512 \<le> io_xfer (env s (tick s1))"
  shows "\<exists>s'. flush_container_cache s = Some s' \<and> caches s' = caches s1 \<and>
    ct_metadata_cache s' = ct_metadata_cache s1 \<and> ct_flags s' AND FLAG_DIRTY = 0 \<and>
    only_bytes s1 s' {..<4096} \<and> dc_sectors_per_block (disk_view s') = 8 \<and>
    sb_disk (disk_view s') (Suc n) (mem_content (ct_sb (sb_with_counts s)) 0)"
proof -
  have eq: "ct_sb s1 = ct_sb s" "ct_flags s1 = ct_flags s" using s1(1) by (simp_all add: same_rest_def)
  have "sb_block_size s1 = sb_block_size s" by (simp add: sb_block_size_def eq)
  from sb_disk_keeps [OF sb(1) s1(2) dirty_bytes_block0 [OF zero] this] flush_super_block [OF s1(1) _ sb(2) io]
  obtain sb' d where
    u: "ofs_update_super_block (env s1 (tick s1)) (disk_view (sb_with_counts s1)) (ct_sb (sb_with_counts s1)) =
        Some (Inr (), sb', (disk_view s1)\<lparr> dc_disk := d \<rparr>)"
      "sb_disk ((disk_view s1)\<lparr> dc_disk := d \<rparr>) (Suc n) (mem_content (ct_sb (sb_with_counts s)) 0)"
      "fsize (ct_disk s1) \<le> fsize d" "\<forall>i. 4096 \<le> i \<and> i < fsize (ct_disk s1) \<longrightarrow> fbytes d i = fbytes (ct_disk s1) i"
      "get32 sb' 20 = get32 (ct_sb s) 20" "get32 sb' 24 = get32 (ct_sb s) 24"
    by blast
  let ?s' = "(sb_with_counts s1)\<lparr> tick := tick s1 + 1, ct_sb := sb', ct_disk := d,
    ct_flags := ct_flags s1 AND NOT FLAG_DIRTY \<rparr>"
  have "flush_container_cache s = Some ?s'"
    using walk flag u(1) eq(2) by (simp add: flush_container_cache_eq)
  moreover have "disk_view ?s' = (disk_view s1)\<lparr> dc_disk := d \<rparr>"
    using u(5,6) eq(1) by (simp add: disk_view_def sb_block_size_def)
  moreover have "only_bytes s1 ?s' {..<4096}" using u(3,4) by (simp add: only_bytes_def)
  moreover have "dc_sectors_per_block (disk_view s1) = 8" using sec eq(1) by (simp add: disk_view_8)
  moreover have "(ct_flags s1 AND NOT FLAG_DIRTY) AND FLAG_DIRTY = 0" by (simp add: and.assoc)
  ultimately show ?thesis using u(2) by (intro exI [of _ ?s']) simp
qed

section \<open>Properties\<close>

text \<open>The container of \<open>idx_state\<close> with its dirty block 7 a writable one, over the file \<open>f\<close>.\<close>

definition blk_image :: buf where
  "blk_image = put32 (put32 (put32 (\<lambda>_. 0) 0 0x58444E49) 4 4096) 8 33"

definition flush_state :: "ofile \<Rightarrow> nat \<Rightarrow> container" where
  "flush_state f n = idx_state\<lparr> bufs := [12 \<mapsto> blk_image, 13 \<mapsto> blk_image],
     ct_sb := put32 (put32 (sb_image 1) 20 4096) 24 8, ct_flags := FLAG_DIRTY, ct_disk := f,
     env := (\<lambda>_. io_ok\<lparr> io_xfer := n \<rparr>) \<rparr>"

lemma flush_state_sel:
  "caches (flush_state f n) = caches idx_state" "ct_metadata_cache (flush_state f n) = ct_metadata_cache idx_state"
  "objs (flush_state f n) = objs idx_state" "bufs (flush_state f n) = [12 \<mapsto> blk_image, 13 \<mapsto> blk_image]"
  "ct_sb (flush_state f n) = put32 (put32 (sb_image 1) 20 4096) 24 8" "ct_disk (flush_state f n) = f"
  "ct_flags (flush_state f n) = FLAG_DIRTY" "env (flush_state f n) t = io_ok\<lparr> io_xfer := n \<rparr>"
  "cache_key (flush_state f n) = cache_key idx_state" "next_id (flush_state f n) = next_id idx_state"
  by (simp_all add: flush_state_def cache_key_def fun_eq_iff)

lemma flush_state_dirty: "dirty_members (flush_state f n) = {3}"
  unfolding dirty_members_def is_dirty_def flush_state_sel idx_state_sel
  by (auto simp: idx_state_def CACHE_DIRTY_def CLEAN_def DIRTY_def)

lemma flush_state_buf: "cache_buf (flush_state f n) 3 = blk_image" "cache_key (flush_state f n) 3 = 7"
  unfolding cache_buf_def cache_bufno_def flush_state_sel idx_state_sel by (simp_all add: idx_state_def)

lemma flush_state_ready: "flush_ready (flush_state f n)"
proof -
  have ok: "caches_ok (flush_state f n)"
    using idx_state_ok by (rule caches_ok_mono)
      (use caches_okD(2,5,6) [OF idx_state_ok] in \<open>auto simp: flush_state_sel\<close>)
  have sb: "get32 (ct_sb (flush_state f n)) 24 = 8" by (simp add: flush_state_sel buf_simps)
  have b: "cache_bufno (flush_state f n) 2 = 12" "cache_bufno (flush_state f n) 3 = 13"
    unfolding cache_bufno_def flush_state_sel by (simp_all add: idx_state_def)
  then have inj: "inj_on (cache_bufno (flush_state f n)) (members (ct_metadata_cache (flush_state f n)))"
    by (simp add: flush_state_sel idx_state_sel)
  have "writable (flush_state f n) 3" "\<not> flagged (flush_state f n) 3"
    unfolding writable_def flagged_def flush_state_buf b
    unfolding flush_state_sel
    by (simp_all add: idx_state_def blk_image_def wf_block_def bh_defs buf_simps CACHE_FLUSH_def STATUS_FLUSH_def
        DIRTY_def)
  moreover have "c = 3" if "c \<in> members (ct_metadata_cache (flush_state f n))" "is_dirty (flush_state f n) c" for c
    using flush_state_dirty [of f n] that by (auto simp: dirty_members_def)
  ultimately show ?thesis using ok sb inj by (auto simp: flush_ready_def)
qed

lemma flush_state_sb:
  "sb_mem (ct_sb (flush_state f n)) (Suc 0) (mem_content (ct_sb (flush_state f n)) 0)"
  "ct_flags (flush_state f n) AND FLAG_DIRTY \<noteq> 0" "0 \<notin> cache_key (flush_state f n) ` dirty_members (flush_state f n)"
  unfolding flush_state_dirty
  by (simp_all add: flush_state_sel sb_mem_def sb_head_def bh_defs sb_image_def buf_simps FLAG_DIRTY_def
      idx_state_sel)

lemma flush_state_disk: "\<exists>f. sb_disk (disk_view (flush_state f n)) 0 (mem_content (sb_image 0) 0)"
proof -
  obtain ct where ct: "sb_disk ct 0 (mem_content (sb_image 0) 0)" using sb_disk_exists by blast
  have "sb_disk (disk_view (flush_state (dc_disk ct) n)) 0 (mem_content (sb_image 0) 0)"
    using ct by (simp add: sb_disk_def disk_view_def sb_block_size_def flush_state_sel buf_simps)
  then show ?thesis ..
qed

text \<open>C2: Writing the blocks back leaves the rest of the file alone, whatever the file layer does at each call,
  errors and short writes included: the walk returns, the blocks stored under numbers that are not dirty
  are stored as before, and if block 0 is not dirty the last version of the super block is the same. Since
  a modified block gets a new number, the state of the last commit is intact until the super block is updated.\<close>

theorem flush_touches_only_dirty_blocks:
  assumes "flush_ready s"
  shows "\<exists>s'. walk_all (ct_metadata_cache s) flush_container_dirty_cache s = Some s' \<and> caches_ok s' \<and>
    (\<forall>v m. stored (disk_view s) v m \<and> bh_alloc_size m 0 = 4096 \<and> unat v < 2 ^ 51 \<and>
       v \<notin> cache_key s ` dirty_members s \<longrightarrow> stored (disk_view s') v m) \<and>
    (\<forall>n c. sb_disk (disk_view s) n c \<and> 0 \<notin> cache_key s ` dirty_members s \<longrightarrow> sb_disk (disk_view s') n c)"
proof -
  from flush_walk_bytes [OF assms] obtain s' where
    s': "walk_all (ct_metadata_cache s) flush_container_dirty_cache s = Some s'" "caches_ok s'"
      "same_rest s s'" "only_bytes s s' (dirty_bytes s)" by blast
  have sec: "get32 (ct_sb s) 24 = 8" using assms by (simp add: flush_ready_def)
  have sb: "ct_sb s' = ct_sb s" using s'(3) by (simp add: same_rest_def)
  then have v: "dc_sectors_per_block (disk_view s') = 8" "sb_block_size s' = sb_block_size s"
    using sec by (simp_all add: disk_view_8 sb_block_size_def)
  have "stored (disk_view s') v m" if "stored (disk_view s) v m" "bh_alloc_size m 0 = 4096" "unat v < 2 ^ 51"
      "v \<notin> cache_key s ` dirty_members s" for v m
    using stored_outside [OF that(1-3) sec s'(4) dirty_bytes_outside [OF that(4)] v(1)] .
  moreover have "sb_disk (disk_view s') n c" if "sb_disk (disk_view s) n c" "0 \<notin> cache_key s ` dirty_members s" for n c
    using sb_disk_keeps [OF that(1) s'(4) dirty_bytes_block0 [OF that(2)] v(2)] .
  ultimately show ?thesis using s'(1,2) by blast
qed

theorem flush_touches_only_dirty_blocks_witness:
  "\<exists>f s'. walk_all (ct_metadata_cache (flush_state f 100)) flush_container_dirty_cache (flush_state f 100) = Some s' \<and>
     sb_disk (disk_view s') 0 (mem_content (sb_image 0) 0)"
proof -
  obtain f where "sb_disk (disk_view (flush_state f 100)) 0 (mem_content (sb_image 0) 0)"
    using flush_state_disk by blast
  then show ?thesis
    using flush_touches_only_dirty_blocks [OF flush_state_ready, of f 100] flush_state_sb(3) [of f 100] by blast
qed

text \<open>C1: A flush without errors makes the modifications durable. The super block on disk is version \<open>n\<close>; afterwards
  every block that was dirty is stored under its number and no block is dirty, and version \<open>n + 1\<close> of the
  super block, with the counts of the space managers, is the last one.\<close>

theorem flush_makes_durable:
  assumes "flush_ready s" "io_fine s" "ct_flags s AND FLAG_DIRTY \<noteq> 0" "sb_disk (disk_view s) n c"
    "sb_mem (ct_sb s) (Suc n) c'" "0 \<notin> cache_key s ` dirty_members s"
  shows "\<exists>s'. flush_container_cache s = Some s' \<and> dirty_members s' = {} \<and> ct_flags s' AND FLAG_DIRTY = 0 \<and>
    (\<forall>c \<in> dirty_members s. stored (disk_view s') (cache_key s c) (cache_buf s c)) \<and>
    sb_disk (disk_view s') (Suc n) (mem_content (ct_sb (sb_with_counts s)) 0)"
proof -
  have sec: "get32 (ct_sb s) 24 = 8" and ok: "caches_ok s" using assms(1) by (simp_all add: flush_ready_def)
  from flush_walk_bytes [OF assms(1)] assms(2) obtain s1 where
    s1: "walk_all (ct_metadata_cache s) flush_container_dirty_cache s = Some s1" "same_rest s s1"
      "only_bytes s s1 (dirty_bytes s)" "flushing s [] s1"
    by (auto simp: flush_stopped_def)
  have "tick s \<le> tick s1" using s1(2) by (simp add: same_rest_def)
  then have io: "io_seek (env s (tick s1))" "512 \<le> io_xfer (env s (tick s1))"
    using assms(2) by (auto simp: io_fine_def dest: spec [of _ "tick s1"])
  from flush_after_walk [OF s1(1-3) sec assms(3-6) io] obtain s' where
    s': "flush_container_cache s = Some s'" "caches s' = caches s1" "ct_metadata_cache s' = ct_metadata_cache s1"
      "ct_flags s' AND FLAG_DIRTY = 0" "only_bytes s1 s' {..<4096}" "dc_sectors_per_block (disk_view s') = 8"
      "sb_disk (disk_view s') (Suc n) (mem_content (ct_sb (sb_with_counts s)) 0)" by blast
  have "dirty_members s' = {}"
    using s1(4) caches_okD(2) [OF ok]
    by (auto simp: dirty_members_def is_dirty_def s'(2,3) flushing_def flushed_def CACHE_DIRTY_def CLEAN_def
        DIRTY_def split: if_splits)
  moreover have "stored (disk_view s') (cache_key s c) (cache_buf s c)" if c: "c \<in> dirty_members s" for c
  proof (rule stored_outside [OF _ _ _ _ s'(5) _ s'(6)])
    have "writable s c" using c assms(1) by (simp add: dirty_members_def flush_ready_def)
    then show "bh_alloc_size (cache_buf s c) 0 = 4096" "unat (cache_key s c) < 2 ^ 51"
      by (simp_all add: writable_def)
    show "stored (disk_view s1) (cache_key s c) (cache_buf s c)" using s1(4) c by (simp add: flushing_def)
    show "get32 (ct_sb s1) 24 = 8" using sec s1(2) by (simp add: same_rest_def)
    have "cache_key s c \<noteq> 0" using c assms(6) by force
    then have "0 < unat (cache_key s c)" by (simp add: unat_gt_0)
    then show "{..<4096} \<inter> block_bytes (cache_key s c) = {}" by (auto simp: block_bytes_def)
  qed
  ultimately show ?thesis using s'(1,4,7) by blast
qed

theorem flush_makes_durable_witness:
  "\<exists>f s'. flush_container_cache (flush_state f 4096) = Some s' \<and> dirty_members s' = {} \<and>
     stored (disk_view s') 7 blk_image"
proof -
  obtain f where f: "sb_disk (disk_view (flush_state f 4096)) 0 (mem_content (sb_image 0) 0)"
    using flush_state_disk by blast
  have "io_fine (flush_state f 4096)" by (simp add: io_fine_def flush_state_sel io_ok_def)
  from flush_makes_durable [OF flush_state_ready this flush_state_sb(2) f flush_state_sb(1,3)] show ?thesis
    unfolding flush_state_dirty using flush_state_buf by auto
qed

text \<open>C27: The super block is updated even when blocks could not be written. Here every write of a block is short, and
  the super block is still written: version \<open>n + 1\<close>, which refers to the new blocks, becomes the last one on
  disk while a block is still dirty, and no error is returned.\<close>

theorem flush_commits_after_failed_write:
  assumes "flush_ready s" "dirty_members s \<noteq> {}" "ct_flags s AND FLAG_DIRTY \<noteq> 0"
    "sb_disk (disk_view s) n c" "sb_mem (ct_sb s) (Suc n) c'" "0 \<notin> cache_key s ` dirty_members s"
    "\<forall>t \<ge> tick s. io_seek (env s t) \<and> 512 \<le> io_xfer (env s t) \<and> io_xfer (env s t) < 4096"
  shows "\<exists>s'. flush_container_cache s = Some s' \<and> dirty_members s \<inter> dirty_members s' \<noteq> {} \<and>
    sb_disk (disk_view s') (Suc n) (mem_content (ct_sb (sb_with_counts s)) 0)"
proof -
  have sec: "get32 (ct_sb s) 24 = 8" using assms(1) by (simp add: flush_ready_def)
  have "\<not> flushing s [] s1" for s1
    using assms(2,7) by (auto simp: flushing_def)
  with flush_walk_bytes [OF assms(1)] obtain s1 where
    s1: "walk_all (ct_metadata_cache s) flush_container_dirty_cache s = Some s1" "same_rest s s1"
      "only_bytes s s1 (dirty_bytes s)" "flush_stopped s s1" by blast
  have "tick s \<le> tick s1" using s1(2) by (simp add: same_rest_def)
  then have io: "io_seek (env s (tick s1))" "512 \<le> io_xfer (env s (tick s1))" using assms(7) by simp_all
  from flush_after_walk [OF s1(1-3) sec assms(3-6) io] obtain s' where
    s': "flush_container_cache s = Some s'" "caches s' = caches s1" "ct_metadata_cache s' = ct_metadata_cache s1"
      "sb_disk (disk_view s') (Suc n) (mem_content (ct_sb (sb_with_counts s)) 0)" by blast
  have "dirty_members s \<inter> dirty_members s' \<noteq> {}"
    using s1(4) unfolding flush_stopped_def dirty_members_def [of s'] is_dirty_def s'(2,3) by blast
  with s'(1,4) show ?thesis by blast
qed

theorem flush_commits_after_failed_write_witness:
  "\<exists>f s' c. flush_container_cache (flush_state f 600) = Some s' \<and> 3 \<in> dirty_members s' \<and>
     sb_disk (disk_view s') 1 c"
proof -
  obtain f where f: "sb_disk (disk_view (flush_state f 600)) 0 (mem_content (sb_image 0) 0)"
    using flush_state_disk by blast
  have "\<forall>t \<ge> tick (flush_state f 600). io_seek (env (flush_state f 600) t) \<and>
      512 \<le> io_xfer (env (flush_state f 600) t) \<and> io_xfer (env (flush_state f 600) t) < 4096"
    by (simp add: flush_state_sel io_ok_def)
  from flush_commits_after_failed_write [OF flush_state_ready _ flush_state_sb(2) f flush_state_sb(1,3) this]
  show ?thesis unfolding flush_state_dirty by auto
qed

end
