(* ===== verification/FileFrame.thy ===== *)
theory FileFrame
  imports ObjectManager
begin

text \<open>
  Which operations write the container's file: none of those on tables, space, caches and objects. They
  change memory only; a dirty block reaches the file in a flush, and the super block behind it. Shown for
  every state and every argument, by rules for the sequencing of operations and one lemma for each.
\<close>

section \<open>Rules\<close>

text \<open>\<open>kf d m\<close>: if the operation \<open>m\<close> returns, the file is \<open>d\<close>; \<open>kfc\<close> for operations without a result.\<close>

definition kf :: "ofile \<Rightarrow> ('a \<times> container) option \<Rightarrow> bool" where
  "kf d m \<longleftrightarrow> (\<forall>x s. m = Some (x, s) \<longrightarrow> ct_disk s = d)"

definition kfc :: "ofile \<Rightarrow> container option \<Rightarrow> bool" where
  "kfc d m \<longleftrightarrow> (\<forall>s. m = Some s \<longrightarrow> ct_disk s = d)"

named_theorems kf_ops

lemma kf_None [intro]: "kf d None" "kfc d None"
  by (simp_all add: kf_def kfc_def)

lemma kf_Some: "ct_disk s = d \<Longrightarrow> kf d (Some (x, s))" "ct_disk s = d \<Longrightarrow> kfc d (Some s)"
  by (simp_all add: kf_def kfc_def)

lemma kf_bind:
  "kf d f \<Longrightarrow> (\<And>x s. ct_disk s = d \<Longrightarrow> kf d (g (x, s))) \<Longrightarrow> kf d (f \<bind> g)"
  "kf d f \<Longrightarrow> (\<And>x s. ct_disk s = d \<Longrightarrow> kfc d (h (x, s))) \<Longrightarrow> kfc d (f \<bind> h)"
  by (simp_all only: kf_def kfc_def bind_eq_Some_conv split_paired_Ex) blast+

lemma kf_bindc:
  "kfc d f \<Longrightarrow> (\<And>s. ct_disk s = d \<Longrightarrow> kf d (g s)) \<Longrightarrow> kf d (f \<bind> g)"
  "kfc d f \<Longrightarrow> (\<And>s. ct_disk s = d \<Longrightarrow> kfc d (h s)) \<Longrightarrow> kfc d (f \<bind> h)"
  by (simp_all only: kf_def kfc_def bind_eq_Some_conv) blast+

lemma kf_ret_if_err:
  "kf d f \<Longrightarrow> (\<And>x s. ct_disk s = d \<Longrightarrow> kf d (g x s)) \<Longrightarrow> kf d (ret_if_err f g)"
  unfolding ret_if_err_def by (rule kf_bind, assumption) (auto intro: kf_Some split: sum.split)

lemma kf_read: "(\<And>x :: 'v. kf d (g x)) \<Longrightarrow> kf d (f \<bind> g)" "(\<And>x :: 'v. kfc d (h x)) \<Longrightarrow> kfc d (f \<bind> h)"
  by (auto simp: kf_def kfc_def bind_eq_Some_conv)

lemma kf_if:
  "(b \<Longrightarrow> kf d x) \<Longrightarrow> (\<not> b \<Longrightarrow> kf d y) \<Longrightarrow> kf d (if b then x else y)"
  "(b \<Longrightarrow> kfc d x') \<Longrightarrow> (\<not> b \<Longrightarrow> kfc d y') \<Longrightarrow> kfc d (if b then x' else y')"
  by simp_all

lemma kf_sum:
  "(\<And>e. r = Inl e \<Longrightarrow> kf d (f e)) \<Longrightarrow> (\<And>x. r = Inr x \<Longrightarrow> kf d (g x)) \<Longrightarrow>
   kf d (case r of Inl e \<Rightarrow> f e | Inr x \<Rightarrow> g x)"
  "(\<And>e. r = Inl e \<Longrightarrow> kfc d (f' e)) \<Longrightarrow> (\<And>x. r = Inr x \<Longrightarrow> kfc d (g' x)) \<Longrightarrow>
   kfc d (case r of Inl e \<Rightarrow> f' e | Inr x \<Rightarrow> g' x)"
  by (auto split: sum.splits)

lemma kf_option:
  "kf d f \<Longrightarrow> (\<And>x. kf d (g x)) \<Longrightarrow> kf d (case r of None \<Rightarrow> f | Some x \<Rightarrow> g x)"
  by (auto split: option.splits)

lemma kf_find:
  "(\<And>p. kf d (f p)) \<Longrightarrow> (\<And>w. kf d (g w)) \<Longrightarrow> kf d (case r of Found p \<Rightarrow> f p | Where w \<Rightarrow> g w)"
  by (cases r) simp_all

lemma kf_prod:
  "(\<And>a b. kf d (f a b)) \<Longrightarrow> kf d (case p of (a, b) \<Rightarrow> f a b)"
  "(\<And>a b. kfc d (g a b)) \<Longrightarrow> kfc d (case p of (a, b) \<Rightarrow> g a b)"
  by (auto split: prod.splits)

lemma kf_os_malloc:
  "ct_disk s = d \<Longrightarrow> (\<And>ok s'. ct_disk s' = d \<Longrightarrow> kf d (f ok s')) \<Longrightarrow> kf d (case os_malloc s of (ok, s') \<Rightarrow> f ok s')"
  "ct_disk s = d \<Longrightarrow> (\<And>ok s'. ct_disk s' = d \<Longrightarrow> kfc d (g ok s')) \<Longrightarrow> kfc d (case os_malloc s of (ok, s') \<Rightarrow> g ok s')"
  by (simp_all add: os_malloc_def)

lemma kf_pair:
  "kf d (f a b) \<Longrightarrow> kf d (case (a, b) of (a, b) \<Rightarrow> f a b)"
  "kfc d (g a b) \<Longrightarrow> kfc d (case (a, b) of (a, b) \<Rightarrow> g a b)"
  "(\<And>a b. kf d (h a b s)) \<Longrightarrow> kf d ((case p of (a, b) \<Rightarrow> h a b) s)"
  by (auto split: prod.splits)

lemma kfI: "(\<And>y. m = Some y \<Longrightarrow> ct_disk (snd y) = d) \<Longrightarrow> kf d m"
    "(\<And>s. m' = Some s \<Longrightarrow> ct_disk s = d) \<Longrightarrow> kfc d m'"
  by (force simp: kf_def kfc_def)+

lemma kfD: "kf d m \<Longrightarrow> m = Some y \<Longrightarrow> ct_disk (snd y) = d" "kfc d m' \<Longrightarrow> m' = Some s \<Longrightarrow> ct_disk s = d"
  by (cases y, simp_all add: kf_def kfc_def)

text \<open>Reading a value that is no state: the rule for each type of value that the operations read.\<close>

lemmas kf_reads = kf_read [where ?'v = "buf"]
  kf_read [where ?'v = "nat"]
  kf_read [where ?'v = "bool"]
  kf_read [where ?'v = "unit"]
  kf_read [where ?'v = "int"]
  kf_read [where ?'v = "u8"]
  kf_read [where ?'v = "u16"]
  kf_read [where ?'v = "u32"]
  kf_read [where ?'v = "u64"]
  kf_read [where ?'v = "object_handle"]
  kf_read [where ?'v = "object_info"]
  kf_read [where ?'v = "ofs_block_cache"]
  kf_read [where ?'v = "nat avl_tree"]
  kf_read [where ?'v = "nat found"]
  kf_read [where ?'v = "nat option"]
  kf_read [where ?'v = "buf \<times> nat"]
  kf_read [where ?'v = "nat \<times> nat"]
  kf_read [where ?'v = "nat \<times> buf \<times> nat"]
  kf_read [where ?'v = "(ofs_err + unit) \<times> buf"]
  kf_read [where ?'v = "object_handle \<times> nat \<times> buf \<times> nat"]
  kf_read [where ?'v = "buf \<times> u8 list"]

lemmas kf_rules = kf_None kf_Some kf_bind kf_bindc kf_ret_if_err kf_reads kf_if kf_sum kf_option kf_find
  kf_pair kf_os_malloc kf_prod

lemma kf_walk_nodes:
  "(\<And>c s. ct_disk s = d \<Longrightarrow> kf d (cb c s)) \<Longrightarrow> ct_disk s = d \<Longrightarrow> kfc d (walk_nodes cb cs s)"
proof (induction cs arbitrary: s)
  case (Cons c cs)
  show ?case
  proof (cases "cb c s")
    case (Some y)
    then have "ct_disk (snd y) = d" using Cons.prems by (metis kf_def prod.collapse)
    then show ?thesis using Some Cons by (cases y) (simp add: kf_Some)
  qed (simp add: kf_None)
qed (simp add: kf_Some)

lemma kf_walk_all:
  "(\<And>c s. ct_disk s = d \<Longrightarrow> kf d (cb c s)) \<Longrightarrow> ct_disk s = d \<Longrightarrow> kfc d (walk_all t cb s)"
  using kf_walk_nodes [of d cb] by (auto simp: walk_all_def kf_Some)

lemma put_disk_simps [simp]:
  "ct_disk (put_buf b m s) = ct_disk s" "ct_disk (put_cache c k s) = ct_disk s"
  "ct_disk (put_obj oid x s) = ct_disk s" "ct_disk (put_handle hid h s) = ct_disk s"
  "ct_disk (sb_put64 off v s) = ct_disk s" "ct_disk (put_sm w sm s) = ct_disk s"
  by (simp_all add: put_defs sb_put64_def put_sm_def)

text \<open>Space operations that keep the file.\<close>

definition kf_space :: "space_ops \<Rightarrow> bool" where
  "kf_space ops \<longleftrightarrow> (\<forall>d s. ct_disk s = d \<longrightarrow> (\<forall>id n. kf d (op_alloc ops id n s)) \<and> (\<forall>id v n. kf d (op_free ops id v n s)))"

lemma kf_block [kf_ops]:
  "kf_space ops \<Longrightarrow> ct_disk s = d \<Longrightarrow> kf d (OFS_ALLOC_BLOCK ops i s)"
  "kf_space ops \<Longrightarrow> ct_disk s = d \<Longrightarrow> kf d (OFS_FREE_BLOCK ops i v s)"
  by (auto simp: OFS_ALLOC_BLOCK_def OFS_FREE_BLOCK_def kf_space_def intro!: kf_ret_if_err kf_Some)

section \<open>Caches\<close>

lemma kf_set_cache_state [kf_ops]: "ct_disk s = d \<Longrightarrow> kfc d (set_cache_state c st s)"
  unfolding set_cache_state_def Let_def by (intro kf_rules kf_ops; auto)

lemma kf_set_cache_flush [kf_ops]: "ct_disk s = d \<Longrightarrow> kfc d (set_cache_flush c s)"
  unfolding set_cache_flush_def Let_def by (intro kf_rules kf_ops; auto)

lemma kf_insert_obj_cache [kf_ops]: "ct_disk s = d \<Longrightarrow> kfc d (insert_obj_cache oid c s)"
  unfolding insert_obj_cache_def Let_def by (intro kf_rules kf_ops; auto)

lemma kf_remove_obj_cache [kf_ops]: "ct_disk s = d \<Longrightarrow> kfc d (remove_obj_cache oid c s)"
  unfolding remove_obj_cache_def Let_def by (intro kf_rules kf_ops; auto)

lemma kf_change_obj_cache_vbn [kf_ops]: "ct_disk s = d \<Longrightarrow> kfc d (change_obj_cache_vbn oid c v s)"
  unfolding change_obj_cache_vbn_def Let_def by (intro kf_rules kf_ops; auto)

lemma kf_alloc_obj_cache [kf_ops]: "ct_disk s = d \<Longrightarrow> kf d (alloc_obj_cache oid v s)"
  unfolding alloc_obj_cache_def Let_def by (intro kf_rules kf_ops; auto)

lemma kf_drop_cache [kf_ops]: "ct_disk s = d \<Longrightarrow> kfc d (drop_cache c s)"
  unfolding drop_cache_def Let_def by (intro kf_rules kf_ops; auto)

lemma kf_free_obj_cache [kf_ops]: "ct_disk s = d \<Longrightarrow> kfc d (free_obj_cache oid c s)"
  unfolding free_obj_cache_def Let_def by (intro kf_rules kf_ops; auto)

lemma kf_alloc_obj_block_and_cache [kf_ops]: "kf_space ops \<Longrightarrow> ct_disk s = d \<Longrightarrow> kf d (alloc_obj_block_and_cache ops oid s)"
  unfolding alloc_obj_block_and_cache_def Let_def by (intro kf_rules kf_ops; auto)

lemma kf_release_obj_cache [kf_ops]: "ct_disk s = d \<Longrightarrow> kf d (release_obj_cache oid c s)"
  unfolding release_obj_cache_def Let_def by (intro kf_rules kf_ops; auto)

lemma kf_release_obj_all_cache [kf_ops]: "ct_disk s = d \<Longrightarrow> kfc d (release_obj_all_cache oid s)"
  unfolding release_obj_all_cache_def Let_def by (intro kf_rules kf_ops kf_walk_all; auto)

lemma kf_free_container_cache [kf_ops]: "ct_disk s = d \<Longrightarrow> kfc d (free_container_cache c s)"
  unfolding free_container_cache_def Let_def by (intro kf_rules kf_ops; auto)

lemma kf_clean_obj_root_cache [kf_ops]: "ct_disk s = d \<Longrightarrow> kf d (clean_obj_root_cache oid s)"
  unfolding clean_obj_root_cache_def Let_def by (intro kf_rules kf_ops; auto)

lemma kf_clean_all_obj_root_cache [kf_ops]: "ct_disk s = d \<Longrightarrow> kfc d (clean_all_obj_root_cache s)"
  unfolding clean_all_obj_root_cache_def Let_def by (intro kf_rules kf_ops kf_walk_all; auto)

lemma kf_release_container_all_cache [kf_ops]: "ct_disk s = d \<Longrightarrow> kfc d (release_container_all_cache s)"
  unfolding release_container_all_cache_def Let_def by (intro kf_rules kf_ops kf_walk_all; auto)

lemma kf_index_block_read2 [kf_ops]: "ct_disk s = d \<Longrightarrow> kf d (index_block_read2 oid v i s)"
  unfolding index_block_read2_def Let_def by (intro kf_rules kf_ops; auto)

lemma kf_index_block_read [kf_ops]: "ct_disk s = d \<Longrightarrow> kf d (index_block_read hid v i s)"
  unfolding index_block_read_def Let_def by (intro kf_rules kf_ops; auto)

section \<open>Tables\<close>

lemma kf_set_child_vbn [kf_ops]: "ct_disk s = d \<Longrightarrow> kfc d (set_child_vbn h depth v s)"
  unfolding set_child_vbn_def Let_def by (intro kf_rules kf_ops; auto)

lemma kf_change_block [kf_ops]: "ct_disk s = d \<Longrightarrow> kfc d (change_block h depth v s)"
  unfolding change_block_def Let_def by (intro kf_rules kf_ops; auto)

lemma kf_renew_block [kf_ops]: "kf_space ops \<Longrightarrow> ct_disk s = d \<Longrightarrow> kf d (renew_block ops hid depth s)"
  unfolding renew_block_def Let_def by (intro kf_rules kf_ops; auto)

lemma kf_set_ib_dirty_step:
  "kf_space ops \<Longrightarrow> (\<And>v s. ct_disk s = d \<Longrightarrow> kf d (up v s)) \<Longrightarrow> ct_disk s = d \<Longrightarrow>
   kf d (set_ib_dirty_step ops hid v depth up s)"
  unfolding set_ib_dirty_step_def Let_def by (intro kf_rules kf_ops; auto)

lemma kf_set_ib_dirty_loop [kf_ops]:
  "kf_space ops \<Longrightarrow> ct_disk s = d \<Longrightarrow> kf d (set_ib_dirty_loop ops hid v depth s)"
  by (induction depth arbitrary: v s) (auto intro!: kf_set_ib_dirty_step kf_Some)

lemma kf_set_ib_dirty [kf_ops]: "kf_space ops \<Longrightarrow> ct_disk s = d \<Longrightarrow> kf d (set_ib_dirty ops hid s)"
  unfolding set_ib_dirty_def Let_def by (intro kf_rules kf_ops; auto)

lemma kf_get_last_ie [kf_ops]: "ct_disk s = d \<Longrightarrow> kfc d (get_last_ie hid s)"
  unfolding get_last_ie_def Let_def by (intro kf_rules kf_ops; auto)

lemma kf_get_first_ie [kf_ops]: "ct_disk s = d \<Longrightarrow> kfc d (get_first_ie hid s)"
  unfolding get_first_ie_def Let_def by (intro kf_rules kf_ops; auto)

lemma kf_reset_cache_stack [kf_ops]: "ct_disk s = d \<Longrightarrow> kfc d (reset_cache_stack hid fl s)"
  unfolding reset_cache_stack_def Let_def by (intro kf_rules kf_ops; auto)

lemma kf_push_cache_stack [kf_ops]: "ct_disk s = d \<Longrightarrow> kf d (push_cache_stack hid fl s)"
  unfolding push_cache_stack_def Let_def by (intro kf_rules kf_ops; auto)

lemma kf_get_prev_ie [kf_ops]: "ct_disk s = d \<Longrightarrow> kf d (get_prev_ie hid s)"
  unfolding get_prev_ie_def Let_def by (intro kf_rules kf_ops; auto)

lemma kf_pop_cache_stack [kf_ops]: "ct_disk s = d \<Longrightarrow> kf d (pop_cache_stack hid fl s)"
  unfolding pop_cache_stack_def Let_def by (intro kf_rules kf_ops; auto)

lemma kf_get_next_ie [kf_ops]: "ct_disk s = d \<Longrightarrow> kf d (get_next_ie hid s)"
  unfolding get_next_ie_def Let_def by (intro kf_rules kf_ops; auto)

lemma kf_add_or_remove_ib [kf_ops]: "kf_space ops \<Longrightarrow> ct_disk s = d \<Longrightarrow> kf d (add_or_remove_ib ops hid fl s)"
  unfolding add_or_remove_ib_def Let_def by (intro kf_rules kf_ops; auto)

lemma kf_down_to_leaf [kf_ops]: "ct_disk s = d \<Longrightarrow> kf d (down_to_leaf hid fl s)"
proof -
  have *: "ct_disk (snd y) = ct_disk s" if e: "down_to_leaf hid fl s = Some y" for y
  proof (rule down_to_leaf.raw_induct [where P = "\<lambda>hid fl s y. ct_disk (snd y) = ct_disk s", OF _ e], goal_cases)
    case (1 F hid fl s y)
    have F: "ct_disk s = d \<Longrightarrow> kf d (F hid fl s)" for d hid fl s
      using 1(1) by (auto simp: kf_def kfc_def)
    show ?case by (rule kfD(1) [OF _ 1(2)], (unfold Let_def)?, intro kf_rules kf_ops F; simp)
  qed
  show "ct_disk s = d \<Longrightarrow> kf d (down_to_leaf hid fl s)" using * by (intro kfI(1)) simp
qed

lemma kf_up_from_ends [kf_ops]: "kf_space ops \<Longrightarrow> ct_disk s = d \<Longrightarrow> kf d (up_from_ends ops hid fl s)"
proof -
  have *: "kf_space ops \<longrightarrow> ct_disk (snd y) = ct_disk s" if e: "up_from_ends ops hid fl s = Some y" for y
  proof (rule up_from_ends.raw_induct [where P = "\<lambda>ops hid fl s y. kf_space ops \<longrightarrow> ct_disk (snd y) = ct_disk s", OF _ e], goal_cases)
    case (1 F ops hid fl s y)
    have F: "kf_space ops \<Longrightarrow> ct_disk s = d \<Longrightarrow> kf d (F ops hid fl s)" for d ops hid fl s
      using 1(1) by (auto simp: kf_def kfc_def)
    show ?case by (rule impI, rule kfD(1) [OF _ 1(2)], (unfold Let_def)?, intro kf_rules kf_ops F; simp)
  qed
  show "kf_space ops \<Longrightarrow> ct_disk s = d \<Longrightarrow> kf d (up_from_ends ops hid fl s)" using * by (intro kfI(1)) simp
qed

lemma kf_get_current_ie [kf_ops]: "kf_space ops \<Longrightarrow> ct_disk s = d \<Longrightarrow> kf d (get_current_ie ops hid fl s)"
  unfolding get_current_ie_def Let_def by (intro kf_rules kf_ops; auto)

lemma kf_walk_tree [kf_ops]: "kf_space ops \<Longrightarrow> ct_disk s = d \<Longrightarrow> kf d (walk_tree ops hid fl s)"
  unfolding walk_tree_def Let_def by (intro kf_rules kf_ops; auto)

lemma kf_search_block [kf_ops]: "ct_disk s = d \<Longrightarrow> kf d (search_block hid key v s)"
proof -
  have *: "ct_disk (snd y) = ct_disk s" if e: "search_block hid key v s = Some y" for y
  proof (rule search_block.raw_induct [where P = "\<lambda>hid key v s y. ct_disk (snd y) = ct_disk s", OF _ e], goal_cases)
    case (1 F hid key v s y)
    have F: "ct_disk s = d \<Longrightarrow> kf d (F hid key v s)" for d hid key v s
      using 1(1) by (auto simp: kf_def kfc_def)
    show ?case by (rule kfD(1) [OF _ 1(2)], (unfold Let_def)?, intro kf_rules kf_ops F; simp)
  qed
  show "ct_disk s = d \<Longrightarrow> kf d (search_block hid key v s)" using * by (intro kfI(1)) simp
qed

lemma kf_search_levels [kf_ops]: "ct_disk s = d \<Longrightarrow> kf d (search_levels hid key v s)"
proof -
  have *: "ct_disk (snd y) = ct_disk s" if e: "search_levels hid key v s = Some y" for y
  proof (rule search_levels.raw_induct [where P = "\<lambda>hid key v s y. ct_disk (snd y) = ct_disk s", OF _ e], goal_cases)
    case (1 F hid key v s y)
    have F: "ct_disk s = d \<Longrightarrow> kf d (F hid key v s)" for d hid key v s
      using 1(1) by (auto simp: kf_def kfc_def)
    show ?case by (rule kfD(1) [OF _ 1(2)], (unfold Let_def)?, intro kf_rules kf_ops F; simp)
  qed
  show "ct_disk s = d \<Longrightarrow> kf d (search_levels hid key v s)" using * by (intro kfI(1)) simp
qed

lemma kf_search_key_internal [kf_ops]: "ct_disk s = d \<Longrightarrow> kf d (search_key_internal hid key v s)"
  unfolding search_key_internal_def Let_def by (intro kf_rules kf_ops; auto)

lemma kf_get_to_near_key [kf_ops]: "ct_disk s = d \<Longrightarrow> kfc d (get_to_near_key hid s)"
proof -
  have *: "ct_disk (y) = ct_disk s" if e: "get_to_near_key hid s = Some y" for y
  proof (rule get_to_near_key.raw_induct [where P = "\<lambda>hid s y. ct_disk (y) = ct_disk s", OF _ e], goal_cases)
    case (1 F hid s y)
    have F: "ct_disk s = d \<Longrightarrow> kfc d (F hid s)" for d hid s
      using 1(1) by (auto simp: kf_def kfc_def)
    show ?case by (rule kfD(2) [OF _ 1(2)], (unfold Let_def)?, intro kf_rules kf_ops F; simp)
  qed
  show "ct_disk s = d \<Longrightarrow> kfc d (get_to_near_key hid s)" using * by (intro kfI(2)) simp
qed

lemma kf_index_search_key_nolock [kf_ops]: "ct_disk s = d \<Longrightarrow> kf d (index_search_key_nolock hid key v s)"
  unfolding index_search_key_nolock_def Let_def by (intro kf_rules kf_ops; auto)

lemma kf_index_search_key [kf_ops]: "ct_disk s = d \<Longrightarrow> kf d (index_search_key hid key s)"
  unfolding index_search_key_def Let_def by (intro kf_rules kf_ops; auto)

lemma kf_split_ib [kf_ops]: "kf_space ops \<Longrightarrow> ct_disk s = d \<Longrightarrow> kf d (split_ib ops hid ie s)"
  unfolding split_ib_def Let_def by (intro kf_rules kf_ops; auto)

lemma kf_reparent_root [kf_ops]: "kf_space ops \<Longrightarrow> ct_disk s = d \<Longrightarrow> kf d (reparent_root ops hid s)"
  unfolding reparent_root_def Let_def by (intro kf_rules kf_ops; auto)

lemma kf_tree_insert_ie [kf_ops]: "kf_space ops \<Longrightarrow> ct_disk s = d \<Longrightarrow> kf d (tree_insert_ie ops hid ie s)"
proof -
  have *: "kf_space ops \<longrightarrow> ct_disk (snd y) = ct_disk s" if e: "tree_insert_ie ops hid ie s = Some y" for y
  proof (rule tree_insert_ie.raw_induct [where P = "\<lambda>ops hid ie s y. kf_space ops \<longrightarrow> ct_disk (snd y) = ct_disk s", OF _ e], goal_cases)
    case (1 F ops hid ie s y)
    have F: "kf_space ops \<Longrightarrow> ct_disk s = d \<Longrightarrow> kf d (F ops hid ie s)" for d ops hid ie s
      using 1(1) by (auto simp: kf_def kfc_def)
    show ?case by (rule impI, rule kfD(1) [OF _ 1(2)], (unfold Let_def)?, intro kf_rules kf_ops F; simp)
  qed
  show "kf_space ops \<Longrightarrow> ct_disk s = d \<Longrightarrow> kf d (tree_insert_ie ops hid ie s)" using * by (intro kfI(1)) simp
qed

lemma kf_index_insert_key_nolock [kf_ops]: "kf_space ops \<Longrightarrow> ct_disk s = d \<Longrightarrow> kf d (index_insert_key_nolock ops hid key v s)"
  unfolding index_insert_key_nolock_def Let_def by (intro kf_rules kf_ops; auto)

lemma kf_index_insert_key [kf_ops]: "kf_space ops \<Longrightarrow> ct_disk s = d \<Longrightarrow> kf d (index_insert_key ops hid key v s)"
  unfolding index_insert_key_def Let_def by (intro kf_rules kf_ops; auto)

lemma kf_free_empty_blocks [kf_ops]: "kf_space ops \<Longrightarrow> ct_disk s = d \<Longrightarrow> kf d (free_empty_blocks ops hid s)"
proof -
  have *: "kf_space ops \<longrightarrow> ct_disk (snd y) = ct_disk s" if e: "free_empty_blocks ops hid s = Some y" for y
  proof (rule free_empty_blocks.raw_induct [where P = "\<lambda>ops hid s y. kf_space ops \<longrightarrow> ct_disk (snd y) = ct_disk s", OF _ e], goal_cases)
    case (1 F ops hid s y)
    have F: "kf_space ops \<Longrightarrow> ct_disk s = d \<Longrightarrow> kf d (F ops hid s)" for d ops hid s
      using 1(1) by (auto simp: kf_def kfc_def)
    show ?case by (rule impI, rule kfD(1) [OF _ 1(2)], (unfold Let_def)?, intro kf_rules kf_ops F; simp)
  qed
  show "kf_space ops \<Longrightarrow> ct_disk s = d \<Longrightarrow> kf d (free_empty_blocks ops hid s)" using * by (intro kfI(1)) simp
qed

lemma kf_check_removed_ib [kf_ops]: "kf_space ops \<Longrightarrow> ct_disk s = d \<Longrightarrow> kf d (check_removed_ib ops hid s)"
  unfolding check_removed_ib_def Let_def by (intro kf_rules kf_ops; auto)

lemma kf_remove_leaf [kf_ops]: "kf_space ops \<Longrightarrow> ct_disk s = d \<Longrightarrow> kf d (remove_leaf ops hid s)"
  unfolding remove_leaf_def Let_def by (intro kf_rules kf_ops; auto)

lemma kf_pop_to_depth [kf_ops]: "ct_disk s = d \<Longrightarrow> kf d (pop_to_depth hid n s)"
proof -
  have *: "ct_disk (snd y) = ct_disk s" if e: "pop_to_depth hid n s = Some y" for y
  proof (rule pop_to_depth.raw_induct [where P = "\<lambda>hid n s y. ct_disk (snd y) = ct_disk s", OF _ e], goal_cases)
    case (1 F hid n s y)
    have F: "ct_disk s = d \<Longrightarrow> kf d (F hid n s)" for d hid n s
      using 1(1) by (auto simp: kf_def kfc_def)
    show ?case by (rule kfD(1) [OF _ 1(2)], (unfold Let_def)?, intro kf_rules kf_ops F; simp)
  qed
  show "ct_disk s = d \<Longrightarrow> kf d (pop_to_depth hid n s)" using * by (intro kfI(1)) simp
qed

lemma kf_remove_node [kf_ops]: "kf_space ops \<Longrightarrow> ct_disk s = d \<Longrightarrow> kf d (remove_node ops hid s)"
  unfolding remove_node_def Let_def by (intro kf_rules kf_ops; auto)

lemma kf_tree_remove_ie [kf_ops]: "kf_space ops \<Longrightarrow> ct_disk s = d \<Longrightarrow> kf d (tree_remove_ie ops hid s)"
  unfolding tree_remove_ie_def Let_def by (intro kf_rules kf_ops; auto)

lemma kf_index_remove_key_nolock [kf_ops]: "kf_space ops \<Longrightarrow> ct_disk s = d \<Longrightarrow> kf d (index_remove_key_nolock ops hid key s)"
  unfolding index_remove_key_nolock_def Let_def by (intro kf_rules kf_ops; auto)

lemma kf_index_remove_key [kf_ops]: "kf_space ops \<Longrightarrow> ct_disk s = d \<Longrightarrow> kf d (index_remove_key ops hid key s)"
  unfolding index_remove_key_def Let_def by (intro kf_rules kf_ops; auto)

lemma kf_index_update_value [kf_ops]: "kf_space ops \<Longrightarrow> ct_disk s = d \<Longrightarrow> kf d (index_update_value ops hid key v s)"
  unfolding index_update_value_def Let_def by (intro kf_rules kf_ops; auto)

lemma kf_count_keys [kf_ops]: "kf_space ops \<Longrightarrow> ct_disk s = d \<Longrightarrow> kf d (count_keys ops hid n s)"
proof -
  have *: "kf_space ops \<longrightarrow> ct_disk (snd y) = ct_disk s" if e: "count_keys ops hid n s = Some y" for y
  proof (rule count_keys.raw_induct [where P = "\<lambda>ops hid n s y. kf_space ops \<longrightarrow> ct_disk (snd y) = ct_disk s", OF _ e], goal_cases)
    case (1 F ops hid n s y)
    have F: "kf_space ops \<Longrightarrow> ct_disk s = d \<Longrightarrow> kf d (F ops hid n s)" for d ops hid n s
      using 1(1) by (auto simp: kf_def kfc_def)
    show ?case by (rule impI, rule kfD(1) [OF _ 1(2)], (unfold Let_def)?, intro kf_rules kf_ops F; simp)
  qed
  show "kf_space ops \<Longrightarrow> ct_disk s = d \<Longrightarrow> kf d (count_keys ops hid n s)" using * by (intro kfI(1)) simp
qed

lemma kf_index_get_total_key [kf_ops]: "kf_space ops \<Longrightarrow> ct_disk s = d \<Longrightarrow> kf d (index_get_total_key ops hid s)"
  unfolding index_get_total_key_def Let_def by (intro kf_rules kf_ops; auto)

lemma kf_count_to_key [kf_ops]: "kf_space ops \<Longrightarrow> ct_disk s = d \<Longrightarrow> kf d (count_to_key ops hid n c s)"
proof -
  have *: "kf_space ops \<longrightarrow> ct_disk (snd y) = ct_disk s" if e: "count_to_key ops hid n c s = Some y" for y
  proof (rule count_to_key.raw_induct [where P = "\<lambda>ops hid n c s y. kf_space ops \<longrightarrow> ct_disk (snd y) = ct_disk s", OF _ e], goal_cases)
    case (1 F ops hid n c s y)
    have F: "kf_space ops \<Longrightarrow> ct_disk s = d \<Longrightarrow> kf d (F ops hid n c s)" for d ops hid n c s
      using 1(1) by (auto simp: kf_def kfc_def)
    show ?case by (rule impI, rule kfD(1) [OF _ 1(2)], (unfold Let_def)?, intro kf_rules kf_ops F; simp)
  qed
  show "kf_space ops \<Longrightarrow> ct_disk s = d \<Longrightarrow> kf d (count_to_key ops hid n c s)" using * by (intro kfI(1)) simp
qed

lemma kf_index_get_target_key [kf_ops]: "kf_space ops \<Longrightarrow> ct_disk s = d \<Longrightarrow> kf d (index_get_target_key ops hid n s)"
  unfolding index_get_target_key_def Let_def by (intro kf_rules kf_ops; auto)

section \<open>Space\<close>

lemma kf_insert_extent [kf_ops]: "kf_space ops \<Longrightarrow> ct_disk s = d \<Longrightarrow> kf d (insert_extent ops hid a l s)"
  unfolding insert_extent_def Let_def by (intro kf_rules kf_ops; auto)

lemma kf_find_space [kf_ops]: "kf_space ops \<Longrightarrow> ct_disk s = d \<Longrightarrow> kf d (find_space ops hid a n s)"
  unfolding find_space_def Let_def by (intro kf_rules kf_ops; auto)

lemma kf_alloc_space [kf_ops]: "kf_space ops \<Longrightarrow> ct_disk s = d \<Longrightarrow> kf d (alloc_space ops hid a n s)"
  unfolding alloc_space_def Let_def by (intro kf_rules kf_ops; auto)

lemma kf_merge_next [kf_ops]: "kf_space ops \<Longrightarrow> ct_disk s = d \<Longrightarrow> kf d (merge_next ops hid a n s)"
  unfolding merge_next_def Let_def by (intro kf_rules kf_ops; auto)

lemma kf_merge_prev [kf_ops]: "kf_space ops \<Longrightarrow> ct_disk s = d \<Longrightarrow> kf d (merge_prev ops hid a n s)"
proof -
  have *: "kf_space ops \<longrightarrow> ct_disk (snd y) = ct_disk s" if e: "merge_prev ops hid a n s = Some y" for y
  proof (rule merge_prev.raw_induct [where P = "\<lambda>ops hid a n s y. kf_space ops \<longrightarrow> ct_disk (snd y) = ct_disk s", OF _ e], goal_cases)
    case (1 F ops hid a n s y)
    have F: "kf_space ops \<Longrightarrow> ct_disk s = d \<Longrightarrow> kf d (F ops hid a n s)" for d ops hid a n s
      using 1(1) by (auto simp: kf_def kfc_def)
    show ?case by (rule impI, rule kfD(1) [OF _ 1(2)], (unfold Let_def)?, intro kf_rules kf_ops F; simp)
  qed
  show "kf_space ops \<Longrightarrow> ct_disk s = d \<Longrightarrow> kf d (merge_prev ops hid a n s)" using * by (intro kfI(1)) simp
qed

lemma kf_free_space [kf_ops]: "kf_space ops \<Longrightarrow> ct_disk s = d \<Longrightarrow> kf d (free_space ops hid a n s)"
  unfolding free_space_def Let_def by (intro kf_rules kf_ops; auto)

lemma kf_ofs_init_free_space [kf_ops]: "kf_space ops \<Longrightarrow> ct_disk s = d \<Longrightarrow> kf d (ofs_init_free_space ops sm a n s)"
  unfolding ofs_init_free_space_def Let_def by (intro kf_rules kf_ops; auto)

lemma kf_sm_alloc_space [kf_ops]: "kf_space ops \<Longrightarrow> ct_disk s = d \<Longrightarrow> kf d (sm_alloc_space ops w n s)"
  unfolding sm_alloc_space_def Let_def by (intro kf_rules kf_ops; auto)

lemma kf_sm_free_space [kf_ops]: "kf_space ops \<Longrightarrow> ct_disk s = d \<Longrightarrow> kf d (sm_free_space ops w a n s)"
  unfolding sm_free_space_def Let_def by (intro kf_rules kf_ops; auto)

lemma kf_fill_base_space [kf_ops]: "kf_space ops \<Longrightarrow> ct_disk s = d \<Longrightarrow> kf d (fill_base_space ops s)"
proof -
  have *: "kf_space ops \<longrightarrow> ct_disk (snd y) = ct_disk s" if e: "fill_base_space ops s = Some y" for y
  proof (rule fill_base_space.raw_induct [where P = "\<lambda>ops s y. kf_space ops \<longrightarrow> ct_disk (snd y) = ct_disk s", OF _ e], goal_cases)
    case (1 F ops s y)
    have F: "kf_space ops \<Longrightarrow> ct_disk s = d \<Longrightarrow> kf d (F ops s)" for d ops s
      using 1(1) by (auto simp: kf_def kfc_def)
    show ?case by (rule impI, rule kfD(1) [OF _ 1(2)], (unfold Let_def)?, intro kf_rules kf_ops F; simp)
  qed
  show "kf_space ops \<Longrightarrow> ct_disk s = d \<Longrightarrow> kf d (fill_base_space ops s)" using * by (intro kfI(1)) simp
qed

lemma kf_reserve_base_space [kf_ops]: "kf_space ops \<Longrightarrow> ct_disk s = d \<Longrightarrow> kf d (reserve_base_space ops s)"
  unfolding reserve_base_space_def Let_def by (intro kf_rules kf_ops; auto)

lemma kf_ofs_alloc_space [kf_ops]: "kf_space ops \<Longrightarrow> ct_disk s = d \<Longrightarrow> kf d (ofs_alloc_space ops i n s)"
  unfolding ofs_alloc_space_def Let_def by (intro kf_rules kf_ops; auto)

lemma kf_ofs_free_space [kf_ops]: "kf_space ops \<Longrightarrow> ct_disk s = d \<Longrightarrow> kf d (ofs_free_space ops i a n s)"
  unfolding ofs_free_space_def Let_def by (intro kf_rules kf_ops; auto)

lemma kf_space_ops_at: "kf_space (space_ops_at n)"
proof (induction n)
  case (Suc n)
  then show ?case by (simp add: kf_space_def kf_ofs_alloc_space kf_ofs_free_space)
qed (auto simp: kf_space_def)

lemma kf_ct_ops [kf_ops]: "kf_space ct_ops"
  unfolding ct_ops_def by (rule kf_space_ops_at)

section \<open>Objects\<close>

lemma kf_init_attr [kf_ops]: "ct_disk s = d \<Longrightarrow> kfc d (init_attr oid n s)"
  unfolding init_attr_def Let_def by (intro kf_rules kf_ops; auto)

lemma kf_get_object_info [kf_ops]: "ct_disk s = d \<Longrightarrow> kf d (get_object_info i s)"
  unfolding get_object_info_def Let_def by (intro kf_rules kf_ops; auto)

lemma kf_put_object_info [kf_ops]: "ct_disk s = d \<Longrightarrow> kfc d (put_object_info oid s)"
  unfolding put_object_info_def Let_def by (intro kf_rules kf_ops; auto)

lemma kf_get_object_handle [kf_ops]: "ct_disk s = d \<Longrightarrow> kf d (get_object_handle oid s)"
  unfolding get_object_handle_def Let_def by (intro kf_rules kf_ops; auto)

lemma kf_put_object_handle [kf_ops]: "ct_disk s = d \<Longrightarrow> kfc d (put_object_handle hid s)"
  unfolding put_object_handle_def Let_def by (intro kf_rules kf_ops; auto)

lemma kf_put_all_object_handle [kf_ops]: "ct_disk s = d \<Longrightarrow> kfc d (put_all_object_handle oid s)"
proof -
  have *: "ct_disk (y) = ct_disk s" if e: "put_all_object_handle oid s = Some y" for y
  proof (rule put_all_object_handle.raw_induct [where P = "\<lambda>oid s y. ct_disk (y) = ct_disk s", OF _ e], goal_cases)
    case (1 F oid s y)
    have F: "ct_disk s = d \<Longrightarrow> kfc d (F oid s)" for d oid s
      using 1(1) by (auto simp: kf_def kfc_def)
    show ?case by (rule kfD(2) [OF _ 1(2)], (unfold Let_def)?, intro kf_rules kf_ops F; simp)
  qed
  show "ct_disk s = d \<Longrightarrow> kfc d (put_all_object_handle oid s)" using * by (intro kfI(2)) simp
qed

lemma kf_recover_obj_inode [kf_ops]: "ct_disk s = d \<Longrightarrow> kf d (recover_obj_inode oid n s)"
  unfolding recover_obj_inode_def Let_def by (intro kf_rules kf_ops; auto)

lemma kf_validate_obj_inode [kf_ops]: "ct_disk s = d \<Longrightarrow> kfc d (validate_obj_inode oid s)"
  unfolding validate_obj_inode_def Let_def by (intro kf_rules kf_ops; auto)

lemma kf_close_object [kf_ops]: "ct_disk s = d \<Longrightarrow> kfc d (close_object oid s)"
  unfolding close_object_def Let_def by (intro kf_rules kf_ops; auto)

lemma kf_create_object_at_inode [kf_ops]: "ct_disk s = d \<Longrightarrow> kf d (create_object_at_inode i n fl s)"
  unfolding create_object_at_inode_def Let_def by (intro kf_rules kf_ops; auto)

lemma kf_create_object [kf_ops]: "ct_disk s = d \<Longrightarrow> kf d (create_object i fl s)"
  unfolding create_object_def Let_def by (intro kf_rules kf_ops; auto)

lemma kf_open_object [kf_ops]: "ct_disk s = d \<Longrightarrow> kf d (open_object i n s)"
  unfolding open_object_def Let_def by (intro kf_rules kf_ops; auto)

lemma kf_ofs_set_object_name [kf_ops]: "ct_disk s = d \<Longrightarrow> kf d (ofs_set_object_name hid name s)"
  unfolding ofs_set_object_name_def Let_def by (intro kf_rules kf_ops; auto)

lemma kf_ofs_create_object_nolock [kf_ops]: "ct_disk s = d \<Longrightarrow> kf d (ofs_create_object_nolock i fl s)"
  unfolding ofs_create_object_nolock_def Let_def by (intro kf_rules kf_ops; auto)

lemma kf_ofs_create_object [kf_ops]: "ct_disk s = d \<Longrightarrow> kf d (ofs_create_object i fl s)"
  unfolding ofs_create_object_def Let_def by (intro kf_rules kf_ops; auto)

lemma kf_ofs_open_object_nolock [kf_ops]: "ct_disk s = d \<Longrightarrow> kf d (ofs_open_object_nolock i s)"
  unfolding ofs_open_object_nolock_def Let_def by (intro kf_rules kf_ops; auto)

lemma kf_ofs_open_object [kf_ops]: "ct_disk s = d \<Longrightarrow> kf d (ofs_open_object i s)"
  unfolding ofs_open_object_def Let_def by (intro kf_rules kf_ops; auto)

lemma kf_ofs_close_object_nolock [kf_ops]: "ct_disk s = d \<Longrightarrow> kf d (ofs_close_object_nolock hid s)"
  unfolding ofs_close_object_nolock_def Let_def by (intro kf_rules kf_ops; auto)

lemma kf_ofs_close_object [kf_ops]: "ct_disk s = d \<Longrightarrow> kf d (ofs_close_object hid s)"
  unfolding ofs_close_object_def Let_def by (intro kf_rules kf_ops; auto)

lemma kf_validate_one_user_object [kf_ops]: "ct_disk s = d \<Longrightarrow> kf d (validate_one_user_object oid s)"
  unfolding validate_one_user_object_def Let_def by (intro kf_rules kf_ops; auto)

lemma kf_validate_one_system_object [kf_ops]: "ct_disk s = d \<Longrightarrow> kf d (validate_one_system_object oid s)"
  unfolding validate_one_system_object_def Let_def by (intro kf_rules kf_ops; auto)

lemma kf_validate_all_objects [kf_ops]: "ct_disk s = d \<Longrightarrow> kfc d (validate_all_objects s)"
  unfolding validate_all_objects_def Let_def by (intro kf_rules kf_ops kf_walk_all; auto)

end
