(* ===== verification/Container.thy ===== *)
theory Container
  imports ObjectManager
begin

text \<open>
  The container manager, \<open>object_system/ofs_container_manager.c\<close>: creating, opening and closing
  containers, the super block, the three system objects, and the list of opened containers, ordered by
  name without regard to case.
\<close>

section \<open>The opened containers\<close>

text \<open>
  An opened container: the memory and file of \<open>OfsState\<close> with the members that only this component
  uses. \<open>disk_hnd\<close> is only tested for NULL. Names are C strings without their zero.
\<close>

record opened =
  on_name :: "u8 list"
  on_ct :: container
  on_disk_hnd :: bool
  on_ref_cnt :: u32

text \<open>
  The process: the container handles by number (0 is NULL), \<open>g_container_list\<close> (\<open>None\<close> is NULL), the
  files by name, and what the environment does: whether \<open>malloc\<close> and \<open>fopen\<close> succeed at each call and
  the environment and junk memory each new container meets. The contents of the file of an opened container
  are its \<open>ct_disk\<close>; they are in \<open>sys_files\<close> again once it is closed. Two names are two files.
\<close>

record system =
  sys_cts :: "nat \<Rightarrow> opened option"
  g_container_list :: "nat avl_tree option"
  sys_next :: nat
  sys_files :: "u8 list \<Rightarrow> ofile option"
  sys_malloc :: "nat \<Rightarrow> bool"
  sys_fopen :: "nat \<Rightarrow> bool"
  sys_env :: "nat \<Rightarrow> (nat \<Rightarrow> io)"
  sys_junk :: "nat \<Rightarrow> (nat \<Rightarrow> buf)"
  sys_tick :: nat

definition name_int :: "int option \<Rightarrow> int" where
  "name_int r = (case r of Some n \<Rightarrow> n | None \<Rightarrow> 2)"

text \<open>Comparing an empty name is a failed \<open>ASSERT\<close>, given as 2.\<close>

definition compare_container1 :: "system \<Rightarrow> nat \<Rightarrow> nat \<Rightarrow> int" where
  "compare_container1 y a b =
     (case (sys_cts y a, sys_cts y b) of
        (Some x1, Some x2) \<Rightarrow> name_int (os_collate_ansi_string (on_name x1) (on_name x2))
      | _ \<Rightarrow> 2)"

definition compare_container2 :: "system \<Rightarrow> u8 list \<Rightarrow> nat \<Rightarrow> int" where
  "compare_container2 y ct_name b =
     (case sys_cts y b of
        Some x \<Rightarrow> name_int (os_collate_ansi_string ct_name (on_name x))
      | None \<Rightarrow> 2)"

definition find_container :: "system \<Rightarrow> u8 list \<Rightarrow> nat option option" where
  "find_container y ct_name = do {
     list \<leftarrow> g_container_list y;
     f \<leftarrow> avl_find list (compare_container2 y ct_name);
     case f of Found p \<Rightarrow> Some (Some (pos_data p)) | Where _ \<Rightarrow> Some None }"

definition ofs_init_system :: "system \<Rightarrow> (ofs_err + unit) \<times> system" where
  "ofs_init_system y =
     (if g_container_list y \<noteq> None then (Inr (), y)
      else
        let ok = sys_malloc y (sys_tick y); y = y\<lparr> sys_tick := sys_tick y + 1 \<rparr> in
        if \<not> ok then (Inl INDEX_ERR_ALLOCATE_MEMORY, y)
        else (Inr (), y\<lparr> g_container_list := Some avl_create \<rparr>))"

definition init_container_resource :: "u8 list \<Rightarrow> system \<Rightarrow> ((ofs_err + nat) \<times> system) option" where
  "init_container_resource ct_name y =
     (let t = sys_tick y; y = y\<lparr> sys_tick := t + 1 \<rparr> in
      if \<not> sys_malloc y t then Some (Inl INDEX_ERR_ALLOCATE_MEMORY, y)
      else
        let no_sm = \<lparr> sm_space_obj = 0, sm_first_free_block = 0, sm_total_free_blocks = 0 \<rparr>;
            ct = \<lparr> bufs = Map.empty, caches = Map.empty, objs = Map.empty, handles = Map.empty,
                   next_id = 1, ct_sb = (\<lambda>_. 0), ct_flags = 0,
                   ct_disk = \<lparr> fsize = 0, fbytes = (\<lambda>_. 0) \<rparr>, ct_id_obj = 0, ct_sm = no_sm,
                   ct_bsm = no_sm, ct_base_blk = 0, ct_obj_info_list = avl_create,
                   ct_metadata_cache = avl_create, env = sys_env y t, tick = 0, junk = sys_junk y t \<rparr>;
            n = sys_next y;
            y = y\<lparr> sys_next := n + 1, sys_cts := (sys_cts y)(n \<mapsto>
                  \<lparr> on_name = ct_name, on_ct = ct, on_disk_hnd = False, on_ref_cnt = 1 \<rparr>) \<rparr>
        in do {
          list \<leftarrow> g_container_list y;
          list \<leftarrow> avl_add (compare_container1 y) list n;
          Some (Inr n, y\<lparr> g_container_list := Some list \<rparr>) })"

text \<open>The trees must be empty.\<close>

definition destroy_container_resource :: "nat \<Rightarrow> system \<Rightarrow> system option" where
  "destroy_container_resource n y = do {
     x \<leftarrow> sys_cts y n;
     _ \<leftarrow> avl_destroy (ct_obj_info_list (on_ct x));
     _ \<leftarrow> avl_destroy (ct_metadata_cache (on_ct x));
     list \<leftarrow> g_container_list y;
     list \<leftarrow> avl_remove_node list n;
     Some (y\<lparr> g_container_list := Some list, sys_cts := (sys_cts y)(n := None) \<rparr>) }"

section \<open>System objects\<close>

definition FLAG_SYSTEM :: u16 where "FLAG_SYSTEM = 0x8000"
definition BASE_OBJ_INODE :: u64 where "BASE_OBJ_INODE = 1"
definition SPACE_OBJ_INODE :: u64 where "SPACE_OBJ_INODE = 2"
definition BASE_OBJ_NAME :: "u8 list" where "BASE_OBJ_NAME = [36, 66, 65, 83, 69]"
definition SPACE_OBJ_NAME :: "u8 list" where "SPACE_OBJ_NAME = [36, 83, 80, 65, 67, 69]"
definition OBJID_OBJ_NAME :: "u8 list" where "OBJID_OBJ_NAME = [36, 79, 66, 74, 73, 68]"

definition CR_EXTENT_flags :: u16 where
  "CR_EXTENT_flags = FLAG_SYSTEM OR FLAG_TABLE OR 4 OR push_bit 4 4"
definition CR_U64_flags :: u16 where
  "CR_U64_flags = FLAG_SYSTEM OR FLAG_TABLE OR 3 OR push_bit 4 3"

text \<open>After an object is created: its name, and its inode number and number into the super block.\<close>

definition name_object :: "nat \<Rightarrow> u8 list \<Rightarrow> nat \<Rightarrow> nat \<Rightarrow> container \<Rightarrow> container option" where
  "name_object hid name inode_off id_off s = do {
     (_, s) \<leftarrow> ofs_set_object_name hid name s;
     h \<leftarrow> handles s hid;
     x \<leftarrow> objs s (h_obj_info h);
     let s = sb_put64 inode_off (oi_inode_no x) s;
     m \<leftarrow> bufs s (fst (oi_inode x));
     Some (sb_put64 id_off (get64 m (snd (oi_inode x) + 24)) s) }"

definition create_base_object :: "container \<Rightarrow> unit res" where
  "create_base_object s =
     ret_if_err (create_object_at_inode BASE_OBJ_ID BASE_OBJ_INODE CR_EXTENT_flags s) (\<lambda>hid s. do {
       s \<leftarrow> name_object hid BASE_OBJ_NAME 92 84 s;
       Some (Inr (), put_sm False (ofs_init_sm hid 0 0) s) })"

definition create_space_object :: "container \<Rightarrow> unit res" where
  "create_space_object s =
     ret_if_err (create_object_at_inode SPACE_OBJ_ID SPACE_OBJ_INODE CR_EXTENT_flags s) (\<lambda>hid s. do {
       s \<leftarrow> name_object hid SPACE_OBJ_NAME 60 52 s;
       let s = sb_put64 76 (get64 (ct_sb s) 76 + 2) s;
       let s = sb_put64 68 (get64 (ct_sb s) 68 - 2) s;
       let sm = ofs_init_sm hid (get64 (ct_sb s) 76) (get64 (ct_sb s) 68);
       ofs_init_free_space ct_ops sm (get64 (ct_sb s) 76) (get64 (ct_sb s) 68) (put_sm True sm s) })"

definition create_objid_object :: "container \<Rightarrow> unit res" where
  "create_objid_object s =
     ret_if_err (create_object OBJID_OBJ_ID CR_U64_flags s) (\<lambda>hid s. do {
       s \<leftarrow> name_object hid OBJID_OBJ_NAME 44 36 s;
       Some (Inr (), s\<lparr> ct_id_obj := hid, ct_flags := ct_flags s OR FLAG_DIRTY \<rparr>) })"

definition create_system_objects :: "container \<Rightarrow> unit res" where
  "create_system_objects s =
     ret_if_err (create_base_object (s\<lparr> ct_base_blk := 0 \<rparr>)) (\<lambda>_ s.
     ret_if_err (create_space_object s) (\<lambda>_ s. create_objid_object s))"

definition open_system_objects :: "container \<Rightarrow> unit res" where
  "open_system_objects s =
     (let s = s\<lparr> ct_base_blk := get64 (ct_sb s) 116 \<rparr> in
      ret_if_err (open_object (get64 (ct_sb s) 84) (get64 (ct_sb s) 92) s) (\<lambda>hid s.
        let s = put_sm False (ofs_init_sm hid (get64 (ct_sb s) 108) (get64 (ct_sb s) 100)) s in
      ret_if_err (open_object (get64 (ct_sb s) 52) (get64 (ct_sb s) 60) s) (\<lambda>hid s.
        let s = put_sm True (ofs_init_sm hid (get64 (ct_sb s) 76) (get64 (ct_sb s) 68)) s in
      ret_if_err (open_object (get64 (ct_sb s) 36) (get64 (ct_sb s) 44) s) (\<lambda>hid s.
        Some (Inr (), s\<lparr> ct_id_obj := hid \<rparr>)))))"

section \<open>The super block\<close>

definition MIN_BLOCKS_NUM :: u64 where "MIN_BLOCKS_NUM = 10"
definition BYTES_PER_BLOCK_SHIFT :: u32 where "BYTES_PER_BLOCK_SHIFT = 12"

text \<open>The fields are written in the order of the code. \<open>block_size_shift\<close> is 12 past the first test.\<close>

definition init_super_block :: "buf \<Rightarrow> u64 \<Rightarrow> u32 \<Rightarrow> (ofs_err + unit) \<times> buf" where
  "init_super_block sb total_sectors block_size_shift =
     (if block_size_shift \<noteq> BYTES_PER_BLOCK_SHIFT then (Inl BLOCK_ERR_PARAMETER, sb)
      else
        let total_blocks = drop_bit (unat (block_size_shift - 9)) total_sectors in
        if total_blocks < MIN_BLOCKS_NUM then (Inl BLOCK_ERR_PARAMETER, sb)
        else
          let sb = put32 sb 0 0x4B4C4253;
              sb = put32 sb 8 512;
              sb = put32 sb 4 512;
              sb = put16 sb 12 0;
              sb = put32 sb 16 block_size_shift;
              sb = put32 sb 20 (push_bit (unat block_size_shift) 1);
              sb = put32 sb 24 (get32 sb 20 div 512);
              sb = put64 sb 28 total_blocks;
              sb = put64 sb 68 (total_blocks - 1);
              sb = put64 sb 76 1;
              sb = put16 sb 508 100;
              sb = put32 sb 504 0;
              sb = put16 sb 510 0xAA55
          in (Inr (), sb))"

definition check_super_block :: "buf \<Rightarrow> ofs_err + unit" where
  "check_super_block sb =
     (if get16 sb 510 \<noteq> 0xAA55 then Inl BLOCK_ERR_FORMAT
      else if get16 sb 508 \<noteq> 100 then Inl BLOCK_ERR_FORMAT
      else if get32 sb 24 \<noteq> 8 then Inl BLOCK_ERR_FORMAT
      else if get32 sb 20 \<noteq> 4096 then Inl BLOCK_ERR_FORMAT
      else Inr ())"

section \<open>Closing\<close>

definition close_one_object :: "nat \<Rightarrow> container \<Rightarrow> (bool \<times> container) option" where
  "close_one_object oid s = do {
     x \<leftarrow> objs s oid;
     if oi_objid x < RESERVED_OBJ_ID then Some (False, s)
     else do { s \<leftarrow> close_object oid s; Some (False, s) } }"

definition close_handle_object :: "nat \<Rightarrow> container \<Rightarrow> container option" where
  "close_handle_object hid s = do { h \<leftarrow> handles s hid; close_object (h_obj_info h) s }"

definition ofs_destroy_sm :: "bool \<Rightarrow> container \<Rightarrow> container option" where
  "ofs_destroy_sm w s =
     (let hid = sm_space_obj (get_sm w s) in
      if hid = 0 then Some s
      else do {
        s \<leftarrow> close_handle_object hid s;
        Some (put_sm w ((get_sm w s)\<lparr> sm_space_obj := 0 \<rparr>) s) })"

text \<open>The part of \<open>close_container\<close> inside the container's memory.\<close>

definition close_contents :: "container \<Rightarrow> container option" where
  "close_contents s = do {
     s \<leftarrow> walk_all (ct_obj_info_list s) close_one_object s;
     s \<leftarrow> (if ct_id_obj s \<noteq> 0
            then do { s \<leftarrow> close_handle_object (ct_id_obj s) s; Some (s\<lparr> ct_id_obj := 0 \<rparr>) }
            else Some s);
     s \<leftarrow> ofs_destroy_sm True s;
     s \<leftarrow> ofs_destroy_sm False s;
     s \<leftarrow> commit_container_modification s;
     release_container_all_cache s }"

definition close_container :: "nat \<Rightarrow> system \<Rightarrow> system option" where
  "close_container n y = do {
     x \<leftarrow> sys_cts y n;
     s \<leftarrow> close_contents (on_ct x);
     let files = (if on_disk_hnd x then (sys_files y)(on_name x \<mapsto> ct_disk s) else sys_files y);
     destroy_container_resource n
       (y\<lparr> sys_files := files, sys_cts := (sys_cts y)(n \<mapsto> x\<lparr> on_ct := s, on_disk_hnd := False \<rparr>) \<rparr>) }"

text \<open>
  The files of the C library behind \<open>file_open_or_create\<close>, method \<open>rb+\<close> for opening and \<open>wb+\<close> for
  creating. Its failed \<open>malloc\<close> returns the positive \<open>FILE_IO_ERR_MALLOC\<close>, no error to the callers:
  the result is then \<open>None\<close>, no handle.
\<close>

definition file_open_or_create :: "u8 list \<Rightarrow> bool \<Rightarrow> system \<Rightarrow> (ofs_err + ofile option) \<times> system" where
  "file_open_or_create name create y =
     (let t = sys_tick y; y = y\<lparr> sys_tick := t + 1 \<rparr> in
      if \<not> sys_malloc y t then (Inr None, y)
      else if \<not> sys_fopen y t then (Inl FILE_IO_ERR_OPEN, y)
      else if create then
        let f = \<lparr> fsize = 0, fbytes = (\<lambda>_. 0) \<rparr> in
        (Inr (Some f), y\<lparr> sys_files := (sys_files y)(name \<mapsto> f) \<rparr>)
      else case sys_files y name of
          None \<Rightarrow> (Inl FILE_IO_ERR_OPEN, y)
        | Some f \<Rightarrow> (Inr (Some f), y))"

definition os_disk_open :: "u8 list \<Rightarrow> system \<Rightarrow> (ofs_err + ofile option) \<times> system" where
  "os_disk_open name y = file_open_or_create name False y"
definition os_disk_create :: "u8 list \<Rightarrow> system \<Rightarrow> (ofs_err + ofile option) \<times> system" where
  "os_disk_create name y = file_open_or_create name True y"

section \<open>Creating and opening\<close>

definition OFS_NAME_SIZE :: nat where "OFS_NAME_SIZE = 256"

definition put_opened :: "nat \<Rightarrow> opened \<Rightarrow> system \<Rightarrow> system" where
  "put_opened n x y = y\<lparr> sys_cts := (sys_cts y)(n \<mapsto> x) \<rparr>"

text \<open>Setting \<open>disk_hnd\<close> to what opening the file gave.\<close>

definition put_disk :: "nat \<Rightarrow> ofile option \<Rightarrow> system \<Rightarrow> system option" where
  "put_disk n f y = do {
     x \<leftarrow> sys_cts y n;
     case f of
       None \<Rightarrow> Some y
     | Some f \<Rightarrow> Some (put_opened n (x\<lparr> on_disk_hnd := True, on_ct := (on_ct x)\<lparr> ct_disk := f \<rparr> \<rparr>) y) }"

text \<open>A step on the container of handle \<open>n\<close>; an error closes the container and is returned.\<close>

definition or_close :: "nat \<Rightarrow> (opened \<Rightarrow> ((ofs_err + unit) \<times> opened) option) \<Rightarrow>
    (system \<Rightarrow> ((ofs_err + nat) \<times> system) option) \<Rightarrow> system \<Rightarrow> ((ofs_err + nat) \<times> system) option" where
  "or_close n f g y = do {
     x \<leftarrow> sys_cts y n;
     (ret, x) \<leftarrow> f x;
     let y = put_opened n x y;
     case ret of
       Inl e \<Rightarrow> do { y \<leftarrow> close_container n y; Some (Inl e, y) }
     | Inr _ \<Rightarrow> g y }"

definition in_ct :: "(container \<Rightarrow> unit res) \<Rightarrow> opened \<Rightarrow> ((ofs_err + unit) \<times> opened) option" where
  "in_ct f x = do { (ret, s) \<leftarrow> f (on_ct x); Some (ret, x\<lparr> on_ct := s \<rparr>) }"

text \<open>
  The super block of a container: initialising and updating it through the file, reading it. Each call
  meets the environment at the container's tick. Without a file handle the file layer refuses every
  access where it would seek, with an error of its own.
\<close>

definition io_at :: "opened \<Rightarrow> io" where
  "io_at x =
     (let io = env (on_ct x) (tick (on_ct x)) in if on_disk_hnd x then io else io\<lparr> io_seek := False \<rparr>)"

definition write_super_block ::
  "(io \<Rightarrow> disk_ct \<Rightarrow> buf \<Rightarrow> ((ofs_err + unit) \<times> buf \<times> disk_ct) option) \<Rightarrow>
   opened \<Rightarrow> ((ofs_err + unit) \<times> opened) option" where
  "write_super_block f x = do {
     let s = on_ct x;
     (ret, sb, d) \<leftarrow> f (io_at x) (disk_view s) (ct_sb s);
     Some (ret, x\<lparr> on_ct := s\<lparr> ct_sb := sb, ct_disk := dc_disk d, tick := tick s + 1 \<rparr> \<rparr>) }"

definition read_super_block :: "opened \<Rightarrow> ((ofs_err + unit) \<times> opened) option" where
  "read_super_block x = do {
     let s = on_ct x;
     let s = s\<lparr> ct_sb := put32 (put32 (ct_sb s) 24 8) 20 4096 \<rparr>;
     (ret, sb) \<leftarrow> ofs_read_super_block (io_at x) (junk s (tick s)) (disk_view s) (ct_sb s);
     let ret = (if \<not> on_disk_hnd x \<and> ret = Inl FILE_IO_ERR_SEEK then Inl FILE_IO_ERR_INVALID_PARA else ret);
     Some (ret, x\<lparr> on_ct := s\<lparr> ct_sb := sb, tick := tick s + 1 \<rparr> \<rparr>) }"

text \<open>An opened container's handle, which the caller gets with \<open>INDEX_ERR_IS_OPENED\<close>, is not in the result.\<close>

definition ofs_create_container_nolock ::
  "u8 list \<Rightarrow> u64 \<Rightarrow> system \<Rightarrow> ((ofs_err + nat) \<times> system) option" where
  "ofs_create_container_nolock ct_name total_sectors y =
     (if total_sectors = 0 then Some (Inl INDEX_ERR_PARAMETER, y)
      else if length ct_name \<ge> OFS_NAME_SIZE then Some (Inl INDEX_ERR_PARAMETER, y)
      else do {
        found \<leftarrow> find_container y ct_name;
        if found \<noteq> None then Some (Inl INDEX_ERR_IS_OPENED, y)
        else do {
          (ret, y) \<leftarrow> init_container_resource ct_name y;
          case ret of
            Inl e \<Rightarrow> Some (Inl e, y)
          | Inr n \<Rightarrow>
              or_close n (in_ct (\<lambda>s. case init_super_block (ct_sb s) total_sectors BYTES_PER_BLOCK_SHIFT of
                            (ret, sb) \<Rightarrow> Some (ret, s\<lparr> ct_sb := sb \<rparr>))) (\<lambda>y.
                case os_disk_create ct_name y of
                  (Inl e, y) \<Rightarrow> do { y \<leftarrow> close_container n y; Some (Inl e, y) }
                | (Inr f, y) \<Rightarrow> do {
                    y \<leftarrow> put_disk n f y;
                    or_close n (write_super_block ofs_init_super_block) (
                    or_close n (in_ct create_system_objects) (
                    or_close n (write_super_block ofs_update_super_block) (\<lambda>y. Some (Inr n, y)))) y }) y } })"

definition ofs_create_container :: "u8 list \<Rightarrow> u64 \<Rightarrow> system \<Rightarrow> ((ofs_err + nat) \<times> system) option" where
  "ofs_create_container ct_name total_sectors y = ofs_create_container_nolock ct_name total_sectors y"

definition ofs_open_nolock :: "u8 list \<Rightarrow> system \<Rightarrow> ((ofs_err + nat) \<times> system) option" where
  "ofs_open_nolock ct_name y =
     (if length ct_name \<ge> OFS_NAME_SIZE then Some (Inl INDEX_ERR_PARAMETER, y)
      else do {
        found \<leftarrow> find_container y ct_name;
        case found of
          Some n \<Rightarrow> do {
            x \<leftarrow> sys_cts y n;
            Some (Inr n, put_opened n (x\<lparr> on_ref_cnt := on_ref_cnt x + 1 \<rparr>) y) }
        | None \<Rightarrow> do {
            (ret, y) \<leftarrow> init_container_resource ct_name y;
            case ret of
              Inl e \<Rightarrow> Some (Inl e, y)
            | Inr n \<Rightarrow>
                (case os_disk_open ct_name y of
                   (Inl e, y) \<Rightarrow> do { y \<leftarrow> close_container n y; Some (Inl e, y) }
                 | (Inr f, y) \<Rightarrow> do {
                     y \<leftarrow> put_disk n f y;
                     or_close n read_super_block (
                     or_close n (in_ct (\<lambda>s. Some (check_super_block (ct_sb s), s))) (
                     or_close n (in_ct open_system_objects) (\<lambda>y. Some (Inr n, y)))) y }) } })"

definition ofs_open_container :: "u8 list \<Rightarrow> system \<Rightarrow> ((ofs_err + nat) \<times> system) option" where
  "ofs_open_container ct_name y = ofs_open_nolock ct_name y"

definition ofs_close_nolock :: "nat \<Rightarrow> system \<Rightarrow> ((ofs_err + unit) \<times> system) option" where
  "ofs_close_nolock n y =
     (if n = 0 then Some (Inl INDEX_ERR_PARAMETER, y)
      else do {
        x \<leftarrow> sys_cts y n;
        if on_ref_cnt x = 0 then Some (Inr (), y)
        else
          let x = x\<lparr> on_ref_cnt := on_ref_cnt x - 1 \<rparr>; y = put_opened n x y in
          if on_ref_cnt x \<noteq> 0 then Some (Inr (), y)
          else do { y \<leftarrow> close_container n y; Some (Inr (), y) } })"

definition ofs_close_container :: "nat \<Rightarrow> system \<Rightarrow> ((ofs_err + unit) \<times> system) option" where
  "ofs_close_container n y = ofs_close_nolock n y"

definition ofs_get_container_handle :: "u8 list \<Rightarrow> system \<Rightarrow> nat option option" where
  "ofs_get_container_handle ct_name y = find_container y ct_name"

text \<open>Walks over the opened containers; the nodes are those of the start, as in \<open>walk_nodes\<close>.\<close>

definition close_one_container :: "nat \<Rightarrow> system \<Rightarrow> (bool \<times> system) option" where
  "close_one_container n y = do { y \<leftarrow> close_container n y; Some (False, y) }"

definition ofs_exit_system :: "system \<Rightarrow> system option" where
  "ofs_exit_system y =
     (case g_container_list y of
        None \<Rightarrow> Some y
      | Some list \<Rightarrow> do {
          y \<leftarrow> walk_all list close_one_container y;
          Some (y\<lparr> g_container_list := None \<rparr>) })"

definition ofs_walk_all_opened_container ::
  "('s \<Rightarrow> nat \<Rightarrow> int \<times> 's) \<Rightarrow> 's \<Rightarrow> system \<Rightarrow> (int \<times> 's) option" where
  "ofs_walk_all_opened_container cb para y = do {
     list \<leftarrow> g_container_list y;
     avl_walk_all list cb para }"

end
