(* ===== verification/ContainerSystem.thy ===== *)
theory ContainerSystem
  imports Container FileFrame NodeIndex TableUpdate
begin

text \<open>
  The composition of the operations: what users of a container do between commits never writes its file,
  and what the process does with containers keeps its list of opened containers well-formed. Opening an
  opened container and closing it again is nothing; opening a missing file changes nothing.
\<close>

section \<open>Operations between commits\<close>

text \<open>What the users of an opened container call, with any arguments, whether it succeeds or fails.\<close>

inductive ct_step :: "container \<Rightarrow> container \<Rightarrow> bool" where
  insert: "index_insert_key ct_ops hid key v s = Some (r, s') \<Longrightarrow> ct_step s s'"
| remove: "index_remove_key ct_ops hid key s = Some (r, s') \<Longrightarrow> ct_step s s'"
| update: "index_update_value ct_ops hid key v s = Some (r, s') \<Longrightarrow> ct_step s s'"
| search: "index_search_key hid key s = Some (r, s') \<Longrightarrow> ct_step s s'"
| walk: "walk_tree ct_ops hid flags s = Some (r, s') \<Longrightarrow> ct_step s s'"
| total: "index_get_total_key ct_ops hid s = Some (n, s') \<Longrightarrow> ct_step s s'"
| target: "index_get_target_key ct_ops hid k s = Some (n, s') \<Longrightarrow> ct_step s s'"
| create: "ofs_create_object i flags s = Some (hr, s') \<Longrightarrow> ct_step s s'"
| "open": "ofs_open_object i s = Some (hr, s') \<Longrightarrow> ct_step s s'"
| close: "ofs_close_object hid s = Some (r, s') \<Longrightarrow> ct_step s s'"
| name: "ofs_set_object_name hid name s = Some (r, s') \<Longrightarrow> ct_step s s'"
| alloc: "ofs_alloc_space ct_ops i cnt s = Some (ar, s') \<Longrightarrow> ct_step s s'"
| free: "ofs_free_space ct_ops i v cnt s = Some (r, s') \<Longrightarrow> ct_step s s'"

lemma ct_step_file: "ct_step s s' \<Longrightarrow> ct_disk s' = ct_disk s"
proof (induction rule: ct_step.induct)
qed (force dest!: kfD(1) [OF kf_index_insert_key [OF kf_ct_ops refl]]
    kfD(1) [OF kf_index_remove_key [OF kf_ct_ops refl]] kfD(1) [OF kf_index_update_value [OF kf_ct_ops refl]]
    kfD(1) [OF kf_index_search_key [OF refl]] kfD(1) [OF kf_walk_tree [OF kf_ct_ops refl]]
    kfD(1) [OF kf_index_get_total_key [OF kf_ct_ops refl]] kfD(1) [OF kf_index_get_target_key [OF kf_ct_ops refl]]
    kfD(1) [OF kf_ofs_create_object [OF refl]] kfD(1) [OF kf_ofs_open_object [OF refl]]
    kfD(1) [OF kf_ofs_close_object [OF refl]] kfD(1) [OF kf_ofs_set_object_name [OF refl]]
    kfD(1) [OF kf_ofs_alloc_space [OF kf_ct_ops refl]] kfD(1) [OF kf_ofs_free_space [OF kf_ct_ops refl]])+

text \<open>C21: between two commits nothing is written: whatever sequence of the operations on tables, objects
  and space is called, with any arguments and whether they succeed or fail, the file of the container
  stays byte for byte what it was, so what the last commit stored is what a crash leaves.\<close>

theorem file_written_only_by_commit:
  assumes "ct_step\<^sup>*\<^sup>* s s'" shows "ct_disk s' = ct_disk s"
  using assms by (induction rule: rtranclp_induct) (simp_all add: ct_step_file)

lemma ex_insert_step: "\<exists>s'. index_insert_key_nolock ct_ops 1 [6] [] ex_state = Some (Inr (), s')"
proof -
  have new: "\<forall>e \<in> set (bt_entries ex_tree). ex_cmp 6 e \<noteq> 0" by (simp add: ex_entries ex_cmp_def ex_ent_def)
  have room: "room_for ex_state 1 ex_tree (ex_cmp 6) (9 + length [6 :: u8] + length ([] :: u8 list))"
    using ex_leaf_for has_room_mono [of ex_state _ 20 10] by (auto simp: room_for_def)
  show ?thesis
    using index_insert_key_leaf [OF ex_table_on ex_handle_at _ _ _ ex_collates ex_ordered new ex_malloc room,
      where ops = ct_ops] by auto
qed

theorem file_written_only_by_commit_witness:
  "\<exists>s'. index_insert_key ct_ops 1 [6] [] ex_state = Some (Inr (), s') \<and> ct_step\<^sup>*\<^sup>* ex_state s' \<and>
     ct_disk s' = ct_disk ex_state"
proof -
  obtain s' where s': "index_insert_key ct_ops 1 [6] [] ex_state = Some (Inr (), s')"
    using ex_insert_step by (auto simp: index_insert_key_def)
  then have "ct_step\<^sup>*\<^sup>* ex_state s'" by (intro r_into_rtranclp ct_step.insert)
  then show ?thesis using s' file_written_only_by_commit by blast
qed

section \<open>The list of opened containers\<close>

definition name_key :: "system \<Rightarrow> nat \<Rightarrow> int list" where
  "name_key y n = (case sys_cts y n of Some x \<Rightarrow> ansi_order (on_name x) | None \<Rightarrow> [])"

text \<open>
  The list holds exactly the opened containers, ordered by name without regard to case; names and
  numbers are legal.
\<close>

definition sys_ok :: "system \<Rightarrow> bool" where
  "sys_ok y \<longleftrightarrow> (\<exists>list. g_container_list y = Some list \<and> avl_inv (name_key y) list \<and>
     members list = dom (sys_cts y)) \<and> 0 < sys_next y \<and>
     (\<forall>n x. sys_cts y n = Some x \<longrightarrow> 0 < n \<and> n < sys_next y \<and> on_name x \<noteq> [] \<and> length (on_name x) < OFS_NAME_SIZE)"

definition sys_down :: "system \<Rightarrow> bool" where
  "sys_down y \<longleftrightarrow> g_container_list y = None \<and> sys_cts y = Map.empty \<and> 0 < sys_next y"

text \<open>What keeps the list: changes of the environment, of the files, and of the inside of containers.\<close>

definition same_list :: "system \<Rightarrow> system \<Rightarrow> bool" where
  "same_list y y' \<longleftrightarrow> g_container_list y' = g_container_list y \<and> sys_next y' = sys_next y \<and>
     (\<forall>n. map_option on_name (sys_cts y' n) = map_option on_name (sys_cts y n))"

lemma same_list_simps [simp]:
  "same_list y y" "same_list y (y\<lparr> sys_tick := t \<rparr>)" "same_list y (y\<lparr> sys_files := f \<rparr>)"
  "same_list y (y\<lparr> sys_tick := t, sys_files := f \<rparr>)"
  by (simp_all add: same_list_def)

lemma same_list_trans: "same_list y y' \<Longrightarrow> same_list y' y'' \<Longrightarrow> same_list y y''"
  by (simp add: same_list_def)

lemma same_list_put: "sys_cts y n = Some x \<Longrightarrow> on_name x' = on_name x \<Longrightarrow> same_list y (put_opened n x' y)"
  by (simp add: same_list_def put_opened_def)

lemma same_list_dom: "same_list y y' \<Longrightarrow> dom (sys_cts y') = dom (sys_cts y)"
  by (auto simp: same_list_def dom_def) (metis map_option_eq_Some option.distinct(1) option.exhaust)+

lemma same_list_key: "same_list y y' \<Longrightarrow> name_key y' = name_key y"
proof
  fix n assume "same_list y y'"
  then have "map_option on_name (sys_cts y' n) = map_option on_name (sys_cts y n)" by (simp add: same_list_def)
  then show "name_key y' n = name_key y n"
    by (cases "sys_cts y n"; cases "sys_cts y' n") (simp_all add: name_key_def)
qed

lemma same_list_ok: "same_list y y' \<Longrightarrow> sys_ok y \<Longrightarrow> sys_ok y'"
proof -
  assume s: "same_list y y'" and ok: "sys_ok y"
  have "on_name x' = on_name x" if "sys_cts y' n = Some x'" "sys_cts y n = Some x" for n x x'
    using s that by (metis option.inject option.map(2) same_list_def)
  moreover have "n \<in> dom (sys_cts y)" if "sys_cts y' n = Some x'" for n x'
    using that same_list_dom [OF s] by blast
  moreover have "g_container_list y' = g_container_list y" "sys_next y' = sys_next y"
    using s by (simp_all add: same_list_def)
  ultimately show "sys_ok y'"
    using ok same_list_key [OF s] same_list_dom [OF s] unfolding sys_ok_def by (auto, (metis domD)+)
qed

lemma compare_container2_key:
  "sys_cts y b = Some x \<Longrightarrow> on_name x \<noteq> [] \<Longrightarrow> name \<noteq> [] \<Longrightarrow>
   compare_container2 y name b = three_way (ansi_order name) (name_key y b)"
  by (simp add: compare_container2_def name_key_def name_int_def ansi.cmp_key)

lemma find_container_Some:
  assumes "sys_ok y" "sys_cts y n = Some x" "ansi_order name = ansi_order (on_name x)" "name \<noteq> []"
  shows "find_container y name = Some (Some n)"
proof -
  obtain list where l: "g_container_list y = Some list" "avl_inv (name_key y) list" "members list = dom (sys_cts y)"
    and ok: "\<And>n x. sys_cts y n = Some x \<Longrightarrow> on_name x \<noteq> []"
    using assms(1) by (auto simp: sys_ok_def)
  have c: "compare_container2 y name b = three_way (ansi_order name) (name_key y b)" if "b \<in> members list" for b
    using that l(3) ok assms(4) compare_container2_key by blast
  have "n \<in> members list" "name_key y n = ansi_order name" using assms(2,3) l(3) by (auto simp: name_key_def)
  then show ?thesis
    using avl_find_member [OF l(2) c] l(1) by (fastforce simp: find_container_def)
qed

lemma find_container_None:
  assumes "sys_ok y" "name \<noteq> []"
  shows "find_container y name = Some None \<longleftrightarrow> ansi_order name \<notin> name_key y ` dom (sys_cts y)"
proof -
  obtain list where l: "g_container_list y = Some list" "avl_inv (name_key y) list" "members list = dom (sys_cts y)"
    and ok: "\<And>n x. sys_cts y n = Some x \<Longrightarrow> on_name x \<noteq> []"
    using assms(1) by (auto simp: sys_ok_def)
  have c: "compare_container2 y name b = three_way (ansi_order name) (name_key y b)" if "b \<in> members list" for b
    using that l(3) ok assms(2) compare_container2_key by blast
  show ?thesis
  proof (cases "ansi_order name \<in> name_key y ` dom (sys_cts y)")
    case True
    then obtain n x where "sys_cts y n = Some x" "ansi_order name = ansi_order (on_name x)"
      by (auto simp: name_key_def)
    then show ?thesis using find_container_Some [OF assms(1)] assms(2) True by simp
  next
    case False
    then have "ansi_order name \<notin> name_key y ` members list" using l(3) by simp
    then show ?thesis using avl_find_no_member [OF l(2) c] l(1) False by (auto simp: find_container_def)
  qed
qed

text \<open>The record of a new container.\<close>

definition new_ct :: "system \<Rightarrow> nat \<Rightarrow> container" where
  "new_ct y t = \<lparr> bufs = Map.empty, caches = Map.empty, objs = Map.empty, handles = Map.empty,
     next_id = 1, ct_sb = (\<lambda>_. 0), ct_flags = 0,
     ct_disk = \<lparr> fsize = 0, fbytes = (\<lambda>_. 0) \<rparr>, ct_id_obj = 0,
     ct_sm = \<lparr> sm_space_obj = 0, sm_first_free_block = 0, sm_total_free_blocks = 0 \<rparr>,
     ct_bsm = \<lparr> sm_space_obj = 0, sm_first_free_block = 0, sm_total_free_blocks = 0 \<rparr>,
     ct_base_blk = 0, ct_obj_info_list = avl_create,
     ct_metadata_cache = avl_create, env = sys_env y t, tick = 0, junk = sys_junk y t \<rparr>"

definition new_opened :: "u8 list \<Rightarrow> system \<Rightarrow> opened" where
  "new_opened name y = \<lparr> on_name = name, on_ct = new_ct y (sys_tick y), on_disk_hnd = False, on_ref_cnt = 1 \<rparr>"

lemma init_container_resource_ok:
  assumes ok: "sys_ok y" and name: "name \<noteq> []" "length name < OFS_NAME_SIZE" "find_container y name = Some None"
  shows "if sys_malloc y (sys_tick y)
    then \<exists>y'. init_container_resource name y = Some (Inr (sys_next y), y') \<and> sys_ok y' \<and>
      sys_cts y' = (sys_cts y)(sys_next y \<mapsto> new_opened name y) \<and>
      sys_files y' = sys_files y \<and> sys_malloc y' = sys_malloc y \<and> sys_fopen y' = sys_fopen y \<and>
      sys_tick y' = sys_tick y + 1
    else init_container_resource name y = Some (Inl INDEX_ERR_ALLOCATE_MEMORY, y\<lparr> sys_tick := sys_tick y + 1 \<rparr>)"
proof (cases "sys_malloc y (sys_tick y)")
  case False
  then show ?thesis by (simp add: init_container_resource_def)
next
  case True
  obtain list where l: "g_container_list y = Some list" "avl_inv (name_key y) list" "members list = dom (sys_cts y)"
    and nx: "\<And>n x. sys_cts y n = Some x \<Longrightarrow> 0 < n \<and> n < sys_next y \<and> on_name x \<noteq> [] \<and> length (on_name x) < OFS_NAME_SIZE"
    using ok by (auto simp: sys_ok_def)
  let ?n = "sys_next y"
  define y1 where "y1 = y\<lparr> sys_tick := sys_tick y + 1, sys_next := ?n + 1,
    sys_cts := (sys_cts y)(?n \<mapsto> new_opened name y) \<rparr>"
  have fresh: "?n \<notin> members list" using l(3) nx [of ?n] by auto
  have kb: "name_key y1 b = name_key y b" if "b \<in> members list" for b
    using that fresh by (auto simp: name_key_def y1_def)
  have kn: "name_key y1 ?n = ansi_order name" by (simp add: name_key_def y1_def new_opened_def)
  have inv: "avl_inv (name_key y1) list" using l(2) avl_inv_key_cong [of list "name_key y1" "name_key y"] kb by blast
  have cmp: "compare_container1 y1 ?n b = three_way (name_key y1 ?n) (name_key y1 b)" if b: "b \<in> members list" for b
  proof -
    obtain x where x: "sys_cts y b = Some x" "on_name x \<noteq> []" using b l(3) nx by blast
    have "b \<noteq> ?n" using b fresh by blast
    then show ?thesis
      using x name(1) by (simp add: compare_container1_def name_key_def y1_def new_opened_def name_int_def ansi.cmp_key)
  qed
  have "name_key y1 ?n \<notin> name_key y1 ` members list"
    using find_container_None [OF ok name(1)] name(3) kb kn l(3) by auto
  from avl_add_member [of "name_key y1" list "compare_container1 y1" ?n, OF inv cmp this] obtain list' where
    l': "avl_add (compare_container1 y1) list ?n = Some list'" "avl_inv (name_key y1) list'"
    "members list' = insert ?n (members list)" by blast
  let ?y = "y1\<lparr> g_container_list := Some list' \<rparr>"
  have "init_container_resource name y = Some (Inr ?n, ?y)"
    using True l(1) l'(1) by (simp add: init_container_resource_def Let_def y1_def new_opened_def new_ct_def)
  moreover have "sys_cts ?y = (sys_cts y)(?n \<mapsto> new_opened name y)" by (simp add: y1_def)
  moreover have "sys_ok ?y"
  proof -
    have "name_key ?y = name_key y1" by (simp add: name_key_def fun_eq_iff)
    moreover have "0 < sys_next y" using ok by (simp add: sys_ok_def)
    ultimately show ?thesis
      using l' l(3) nx name(1,2) by (auto simp: sys_ok_def) (auto simp: y1_def new_opened_def less_Suc_eq split: if_splits)
  qed
  ultimately show ?thesis using True by (simp add: y1_def)
qed

lemma destroy_container_resource_ok:
  assumes ok: "sys_ok y" and d: "destroy_container_resource n y = Some y'"
  shows "sys_ok y' \<and> sys_cts y' = (sys_cts y)(n := None) \<and> n \<in> dom (sys_cts y)"
proof -
  obtain list where l: "g_container_list y = Some list" "avl_inv (name_key y) list" "members list = dom (sys_cts y)"
    using ok by (auto simp: sys_ok_def)
  obtain x list' where 1: "sys_cts y n = Some x" "avl_remove_node list n = Some list'"
    "y' = y\<lparr> g_container_list := Some list', sys_cts := (sys_cts y)(n := None) \<rparr>"
    using d l(1) by (auto simp: destroy_container_resource_def bind_eq_Some_conv)
  have n: "n \<in> members list" using 1(1) l(3) by auto
  from avl_remove_node_member [OF l(2) n] 1(2) have l': "avl_inv (name_key y) list'" "members list' = members list - {n}"
    by auto
  have "name_key y' b = name_key y b" if "b \<in> members list'" for b
    using that l'(2) by (simp add: 1(3) name_key_def)
  then have "avl_inv (name_key y') list'" using l'(1) avl_inv_key_cong [of list' "name_key y'" "name_key y"] by blast
  then have "sys_ok y'" using ok l(3) l'(2) by (auto simp: sys_ok_def 1(3) split: if_splits)
  then show ?thesis using 1 by auto
qed

lemma close_container_ok:
  assumes ok: "sys_ok y" and c: "close_container n y = Some y'"
  shows "sys_ok y' \<and> dom (sys_cts y') = dom (sys_cts y) - {n}"
proof -
  obtain x s where x: "sys_cts y n = Some x" and
    d: "destroy_container_resource n (y\<lparr> sys_files := if on_disk_hnd x then (sys_files y)(on_name x \<mapsto> ct_disk s) else sys_files y,
          sys_cts := (sys_cts y)(n \<mapsto> x\<lparr> on_ct := s, on_disk_hnd := False \<rparr>) \<rparr>) = Some y'"
    using c by (auto simp: close_container_def bind_eq_Some_conv Let_def)
  let ?y = "y\<lparr> sys_files := if on_disk_hnd x then (sys_files y)(on_name x \<mapsto> ct_disk s) else sys_files y,
          sys_cts := (sys_cts y)(n \<mapsto> x\<lparr> on_ct := s, on_disk_hnd := False \<rparr>) \<rparr>"
  have s: "same_list y ?y" using x by (simp add: same_list_def)
  from destroy_container_resource_ok [OF same_list_ok [OF s ok] d] x show ?thesis by auto
qed

text \<open>What the steps of creating and opening do to the list: the container of the handle stays in it until an
  error closes it.\<close>

definition keeps_list :: "nat \<Rightarrow> (system \<Rightarrow> ((ofs_err + nat) \<times> system) option) \<Rightarrow> bool" where
  "keeps_list n g \<longleftrightarrow> (\<forall>y r y'. sys_ok y \<longrightarrow> n \<in> dom (sys_cts y) \<longrightarrow> g y = Some (r, y') \<longrightarrow>
     sys_ok y' \<and> (r = Inr n \<and> n \<in> dom (sys_cts y') \<or> (\<exists>e. r = Inl e) \<and> n \<notin> dom (sys_cts y')))"

lemma keeps_list_end: "keeps_list n (\<lambda>y. Some (Inr n, y))"
  by (simp add: keeps_list_def)

lemma keeps_list_or_close:
  assumes "\<And>x r x'. f x = Some (r, x') \<Longrightarrow> on_name x' = on_name x" "keeps_list n g"
  shows "keeps_list n (or_close n f g)"
  unfolding keeps_list_def
proof (intro allI impI)
  fix y r y'
  assume ok: "sys_ok y" and n: "n \<in> dom (sys_cts y)" and g: "or_close n f g y = Some (r, y')"
  from g obtain x ret x' where x: "sys_cts y n = Some x" "f x = Some (ret, x')" and
    c: "(case ret of Inl e \<Rightarrow> (case close_container n (put_opened n x' y) of None \<Rightarrow> None | Some y \<Rightarrow> Some (Inl e, y))
       | Inr _ \<Rightarrow> g (put_opened n x' y)) = Some (r, y')"
    using n by (cases "sys_cts y n"; cases "f (the (sys_cts y n))")
      (auto simp: or_close_def Let_def, (auto split: sum.splits Option.bind_splits)?)
  have s: "same_list y (put_opened n x' y)" by (rule same_list_put [OF x(1) assms(1) [OF x(2)]])
  note ok' = same_list_ok [OF s ok] and d = same_list_dom [OF s]
  show "sys_ok y' \<and> (r = Inr n \<and> n \<in> dom (sys_cts y') \<or> (\<exists>e. r = Inl e) \<and> n \<notin> dom (sys_cts y'))"
  proof (cases ret)
    case (Inl e)
    then obtain y2 where "close_container n (put_opened n x' y) = Some y2" "r = Inl e" "y' = y2"
      using c by (auto split: option.splits)
    then show ?thesis using close_container_ok [OF ok'] by blast
  next
    case (Inr u)
    then have "g (put_opened n x' y) = Some (r, y')" using c by simp
    then show ?thesis using assms(2) ok' d n unfolding keeps_list_def by blast
  qed
qed

lemma keeps_list_in_ct: "keeps_list n g \<Longrightarrow> keeps_list n (or_close n (in_ct f) g)"
  by (rule keeps_list_or_close) (auto simp: in_ct_def bind_eq_Some_conv)

lemma keeps_list_super_block:
  "keeps_list n g \<Longrightarrow> keeps_list n (or_close n (write_super_block f) g)"
  "keeps_list n g \<Longrightarrow> keeps_list n (or_close n read_super_block g)"
  by (rule keeps_list_or_close; auto simp: write_super_block_def read_super_block_def bind_eq_Some_conv Let_def)+

lemma file_open_same_list: "file_open_or_create name c y = (r, y') \<Longrightarrow> same_list y y'"
  by (auto simp: file_open_or_create_def Let_def same_list_def split: if_splits option.splits)

lemma keeps_list_file:
  assumes "keeps_list n g"
  shows "keeps_list n (\<lambda>y. case file_open_or_create name c y of
     (Inl e, y) \<Rightarrow> do { y \<leftarrow> close_container n y; Some (Inl e, y) }
   | (Inr f, y) \<Rightarrow> do { y \<leftarrow> put_disk n f y; g y })"
  unfolding keeps_list_def
proof (intro allI impI)
  fix y r y'
  assume ok: "sys_ok y" and n: "n \<in> dom (sys_cts y)"
    and g: "(case file_open_or_create name c y of
     (Inl e, y) \<Rightarrow> do { y \<leftarrow> close_container n y; Some (Inl e, y) }
   | (Inr f, y) \<Rightarrow> do { y \<leftarrow> put_disk n f y; g y }) = Some (r, y')"
  obtain ret y1 where f: "file_open_or_create name c y = (ret, y1)" by (cases "file_open_or_create name c y")
  note s = file_open_same_list [OF f]
  note ok1 = same_list_ok [OF s ok] and d1 = same_list_dom [OF s]
  show "sys_ok y' \<and> (r = Inr n \<and> n \<in> dom (sys_cts y') \<or> (\<exists>e. r = Inl e) \<and> n \<notin> dom (sys_cts y'))"
  proof (cases ret)
    case (Inl e)
    then have "close_container n y1 = Some y'" "r = Inl e" using g f by (auto simp: bind_eq_Some_conv)
    then show ?thesis using close_container_ok [OF ok1] by blast
  next
    case (Inr h)
    then obtain y2 where p: "put_disk n h y1 = Some y2" "g y2 = Some (r, y')"
      using g f by (auto simp: bind_eq_Some_conv)
    have "same_list y1 y2"
      using p(1) same_list_put [of y1 n] by (cases h) (auto simp: put_disk_def bind_eq_Some_conv)
    then have "sys_ok y2" "n \<in> dom (sys_cts y2)" using same_list_ok ok1 same_list_dom n d1 by auto
    then show ?thesis using assms p(2) unfolding keeps_list_def by blast
  qed
qed

text \<open>The chain of steps of creating and of opening a container, from its new record to the end.\<close>

lemma keeps_list_create:
  "keeps_list n (or_close n (in_ct f) (\<lambda>y. case file_open_or_create name c y of
       (Inl e, y) \<Rightarrow> do { y \<leftarrow> close_container n y; Some (Inl e, y) }
     | (Inr h, y) \<Rightarrow> do { y \<leftarrow> put_disk n h y; or_close n (write_super_block g1)
         (or_close n (in_ct g2) (or_close n (write_super_block g3) (\<lambda>y. Some (Inr n, y)))) y }))"
  by (intro keeps_list_in_ct keeps_list_file keeps_list_super_block keeps_list_end)

lemma keeps_list_open:
  "keeps_list n (\<lambda>y. case file_open_or_create name c y of
       (Inl e, y) \<Rightarrow> do { y \<leftarrow> close_container n y; Some (Inl e, y) }
     | (Inr h, y) \<Rightarrow> do { y \<leftarrow> put_disk n h y; or_close n read_super_block
         (or_close n (in_ct g2) (or_close n (in_ct g3) (\<lambda>y. Some (Inr n, y)))) y })"
  by (intro keeps_list_in_ct keeps_list_file keeps_list_super_block keeps_list_end)

lemma new_container_ok:
  assumes ok: "sys_ok y" and name: "name \<noteq> []" "length name < OFS_NAME_SIZE" "find_container y name = Some None"
    and i: "init_container_resource name y = Some (q, y1)"
    and g: "\<And>n. keeps_list n (g n)" "case q of Inl e \<Rightarrow> y' = y1 | Inr n \<Rightarrow> g n y1 = Some (r, y')"
  shows "sys_ok y'"
proof (cases "sys_malloc y (sys_tick y)")
  case True
  then have y1: "q = Inr (sys_next y)" "sys_ok y1" "sys_cts y1 = (sys_cts y)(sys_next y \<mapsto> new_opened name y)"
    using init_container_resource_ok [OF ok name] i by auto
  then have "g (sys_next y) y1 = Some (r, y')" using g(2) by simp
  moreover have "sys_next y \<in> dom (sys_cts y1)" using y1(3) by simp
  ultimately show ?thesis using g(1) y1(2) unfolding keeps_list_def by blast
next
  case False
  have "same_list y (y\<lparr> sys_tick := sys_tick y + 1 \<rparr>)" by simp
  then have "sys_ok (y\<lparr> sys_tick := sys_tick y + 1 \<rparr>)" using ok by (rule same_list_ok)
  then show ?thesis using False init_container_resource_ok [OF ok name] i g(2) by auto
qed

lemma ofs_create_container_ok:
  assumes "sys_ok y" "name \<noteq> []" "ofs_create_container name sectors y = Some (r, y')"
  shows "sys_ok y'"
proof -
  let ?f = "\<lambda>s. case init_super_block (ct_sb s) sectors BYTES_PER_BLOCK_SHIFT of (ret, sb) \<Rightarrow> Some (ret, s\<lparr> ct_sb := sb \<rparr>)"
  note k = keeps_list_create [where f = ?f and name = name and c = True and ?g1.0 = ofs_init_super_block and
    ?g2.0 = create_system_objects and ?g3.0 = ofs_update_super_block]
  note o = assms(3) [unfolded ofs_create_container_def ofs_create_container_nolock_def]
  consider "y' = y" | q y1 where "sectors \<noteq> 0" "length name < OFS_NAME_SIZE" "find_container y name = Some None"
    "init_container_resource name y = Some (q, y1)"
    using o by (auto simp: bind_eq_Some_conv split: if_splits)
  then show ?thesis
  proof cases
    case (2 q y1)
    from o 2 show ?thesis
      by (intro new_container_ok [OF assms(1,2) 2(2-4) k, of y' r])
        (auto simp: os_disk_create_def split: if_splits sum.splits)
  qed (use assms(1) in simp)
qed

lemma ofs_open_container_ok:
  assumes "sys_ok y" "name \<noteq> []" "ofs_open_container name y = Some (r, y')"
  shows "sys_ok y'"
proof (cases "length name < OFS_NAME_SIZE")
  case True
  note k = keeps_list_open [where name = name and c = False and ?g2.0 = "\<lambda>s. Some (check_super_block (ct_sb s), s)" and
    ?g3.0 = open_system_objects]
  note o = assms(3) [unfolded ofs_open_container_def ofs_open_nolock_def]
  from o True obtain found where f: "find_container y name = Some found" by (auto simp: bind_eq_Some_conv)
  show ?thesis
  proof (cases found)
    case None
    from o True f None obtain q y1 where i: "init_container_resource name y = Some (q, y1)"
      by (auto simp: bind_eq_Some_conv)
    from o True f None i show ?thesis
      by (intro new_container_ok [OF assms(1,2) True f [unfolded None] i k, of y' r])
        (cases q; auto simp: os_disk_open_def)
  next
    case (Some n)
    with o True f obtain x where x: "sys_cts y n = Some x"
      "put_opened n (x\<lparr> on_ref_cnt := on_ref_cnt x + 1 \<rparr>) y = y'" by (cases "sys_cts y n") simp_all
    then show ?thesis using same_list_ok [OF same_list_put [OF x(1)] assms(1)] by force
  qed
qed (use assms in \<open>simp add: ofs_open_container_def ofs_open_nolock_def\<close>)

lemma ofs_close_container_ok:
  assumes ok: "sys_ok y" and c: "ofs_close_container n y = Some (r, y')" shows "sys_ok y'"
proof (cases "n = 0")
  case False
  note o = c [unfolded ofs_close_container_def ofs_close_nolock_def Let_def]
  from o False obtain x where x: "sys_cts y n = Some x" by (cases "sys_cts y n") simp_all
  let ?y = "put_opened n (x\<lparr> on_ref_cnt := on_ref_cnt x - 1 \<rparr>) y"
  have p: "sys_ok ?y" using same_list_ok [OF same_list_put [OF x] ok] by simp
  show ?thesis
  proof (cases "on_ref_cnt x = 0 \<or> on_ref_cnt x - 1 \<noteq> 0")
    case True
    then have "y' = y \<or> y' = ?y" using o False x by (auto split: if_splits)
    then show ?thesis using ok p by blast
  next
    case no: False
    then have "close_container n ?y = Some y'" using o False x
      by (cases "close_container n ?y") (simp_all split: if_splits)
    then show ?thesis using close_container_ok [OF p] by simp
  qed
qed (use assms in \<open>simp add: ofs_close_container_def ofs_close_nolock_def\<close>)

lemma close_all_ok:
  "sys_ok y \<Longrightarrow> walk_nodes close_one_container ns y = Some y' \<Longrightarrow> sys_ok y' \<and> dom (sys_cts y') = dom (sys_cts y) - set ns"
proof (induction ns arbitrary: y)
  case (Cons n ns)
  from Cons.prems(2) obtain b y1 where c: "close_one_container n y = Some (b, y1)"
    by (auto split: option.splits)
  then have 1: "close_container n y = Some y1" "\<not> b" by (auto simp: close_one_container_def bind_eq_Some_conv)
  from close_container_ok [OF Cons.prems(1) 1(1)] Cons.IH [of y1] Cons.prems(2) c 1(2) show ?case by auto
qed auto

lemma ofs_exit_system_down:
  assumes "sys_ok y" "ofs_exit_system y = Some y'" shows "sys_down y'"
proof -
  obtain list where l: "g_container_list y = Some list" "avl_inv (name_key y) list" "members list = dom (sys_cts y)"
    using assms(1) by (auto simp: sys_ok_def)
  obtain y1 where y1: "walk_nodes close_one_container (inorder (avl_root list)) y = Some y1"
    "y' = y1\<lparr> g_container_list := None \<rparr>"
    using assms(2) l(1) by (auto simp: ofs_exit_system_def walk_all_nodes [OF l(2)] bind_eq_Some_conv)
  have "sys_ok y1" "dom (sys_cts y1) = {}"
    using close_all_ok [OF assms(1) y1(1)] l(3) inorder_members [OF l(2)] by auto
  then show ?thesis by (auto simp: sys_down_def sys_ok_def y1(2))
qed

section \<open>What the process does with containers\<close>

text \<open>
  A step of the process: the system is initialised or left, a container created, opened or closed, or an
  opened container used. Names are not empty, as the code asserts; results may be errors.
\<close>

inductive sys_step :: "system \<Rightarrow> system \<Rightarrow> bool" where
  init: "ofs_init_system y = (r, y') \<Longrightarrow> sys_step y y'"
| create: "name \<noteq> [] \<Longrightarrow> ofs_create_container name sectors y = Some (r, y') \<Longrightarrow> sys_step y y'"
| open_ct: "name \<noteq> [] \<Longrightarrow> ofs_open_container name y = Some (hr, y') \<Longrightarrow> sys_step y y'"
| close: "ofs_close_container n y = Some (cr, y') \<Longrightarrow> sys_step y y'"
| leave: "ofs_exit_system y = Some y' \<Longrightarrow> sys_step y y'"
| use_ct: "sys_cts y n = Some x \<Longrightarrow> ct_step (on_ct x) s \<Longrightarrow>
    sys_step y (y\<lparr> sys_cts := (sys_cts y)(n \<mapsto> x\<lparr> on_ct := s \<rparr>) \<rparr>)"

text \<open>No step but initialising does anything to a system that is down.\<close>

lemma find_container_down: "sys_down y \<Longrightarrow> find_container y name = None"
  by (simp add: sys_down_def find_container_def)

lemma sys_step_down: "sys_step y y' \<Longrightarrow> sys_down y \<Longrightarrow> sys_down y' \<or> sys_ok y'"
proof (induction rule: sys_step.induct)
  case (init y r y')
  then show ?case
    by (auto simp: ofs_init_system_def sys_down_def sys_ok_def Let_def split: if_splits)
next
  case (create name sectors y r y')
  then have "y' = y"
    by (simp add: ofs_create_container_def ofs_create_container_nolock_def find_container_down split: if_splits)
  then show ?case using create by simp
next
  case (open_ct name y hr y')
  then have "y' = y" by (simp add: ofs_open_container_def ofs_open_nolock_def find_container_down split: if_splits)
  then show ?case using open_ct by simp
next
  case (close n y cr y')
  then have "y' = y" by (simp add: ofs_close_container_def ofs_close_nolock_def sys_down_def split: if_splits)
  then show ?case using close by simp
qed (simp_all add: ofs_exit_system_def sys_down_def)

lemma sys_step_ok: "sys_step y y' \<Longrightarrow> sys_ok y \<Longrightarrow> sys_down y' \<or> sys_ok y'"
proof (induction rule: sys_step.induct)
  case (init y r y')
  then have "y' = y" by (auto simp: ofs_init_system_def sys_ok_def)
  then show ?case using init by simp
next
  case (use_ct y n x s)
  have "same_list y (y\<lparr> sys_cts := (sys_cts y)(n \<mapsto> x\<lparr> on_ct := s \<rparr>) \<rparr>)"
    using use_ct(1) by (simp add: same_list_def)
  then show ?case using use_ct(3) same_list_ok by blast
next
  case (create name sectors y r y')
  from ofs_create_container_ok [OF create(3,1,2)] show ?case ..
next
  case (open_ct name y hr y')
  from ofs_open_container_ok [OF open_ct(3,1,2)] show ?case ..
next
  case (close n y cr y')
  from ofs_close_container_ok [OF close(2,1)] show ?case ..
next
  case (leave y y')
  from ofs_exit_system_down [OF leave(2,1)] show ?case ..
qed

lemma sys_ok_distinct:
  assumes "sys_ok y" "sys_cts y n = Some x" "sys_cts y m = Some x'" "ansi_order (on_name x) = ansi_order (on_name x')"
  shows "n = m"
proof -
  obtain list where l: "avl_inv (name_key y) list" "members list = dom (sys_cts y)"
    using assms(1) by (auto simp: sys_ok_def)
  have "n \<in> members list" "m \<in> members list" "name_key y n = name_key y m"
    using assms l(2) by (auto simp: name_key_def)
  then show ?thesis using avl_inv_inj [OF l(1)] by (meson inj_onD)
qed

text \<open>C22: from the start of the process on, after any sequence of initialising, creating, opening, using and
  closing containers and leaving the system, with any outcomes, the list of opened containers is a balanced
  tree of exactly the opened containers, ordered by name, and no two of them have names that differ in
  case only; after leaving, there is no opened container.\<close>

theorem container_system_well_formed:
  assumes "sys_down y0" "sys_step\<^sup>*\<^sup>* y0 y"
  shows "sys_down y \<or> sys_ok y \<and> (\<forall>n m x x'. sys_cts y n = Some x \<and> sys_cts y m = Some x' \<and>
    ansi_order (on_name x) = ansi_order (on_name x') \<longrightarrow> n = m)"
proof -
  have "sys_down y \<or> sys_ok y"
    using assms(2,1) by (induction rule: rtranclp_induct) (use sys_step_down sys_step_ok in blast)+
  then show ?thesis using sys_ok_distinct by blast
qed

section \<open>Reopening\<close>

lemma reopen:
  assumes ok: "sys_ok y" and x: "sys_cts y n = Some x" and r: "0 < on_ref_cnt x" "on_ref_cnt x + 1 \<noteq> 0"
    and name: "ansi_order name = ansi_order (on_name x)" "name \<noteq> []"
  shows "\<exists>y'. ofs_open_container name y = Some (Inr n, y') \<and>
    map_option on_ref_cnt (sys_cts y' n) = Some (on_ref_cnt x + 1) \<and> ofs_close_container n y' = Some (Inr (), y)"
proof -
  have "length name = length (on_name x)" using arg_cong [OF name(1), of length] by (simp add: ansi_order_def)
  then have len: "length name < OFS_NAME_SIZE" "n \<noteq> 0" using ok x by (auto simp: sys_ok_def)
  have o: "ofs_open_container name y = Some (Inr n, put_opened n (x\<lparr> on_ref_cnt := on_ref_cnt x + 1 \<rparr>) y)"
    using find_container_Some [OF ok x name] x len(1) by (simp add: ofs_open_container_def ofs_open_nolock_def)
  have y: "y\<lparr> sys_cts := (sys_cts y)(n \<mapsto> x) \<rparr> = y" using x by (simp add: map_upd_triv)
  have c: "ofs_close_container n (put_opened n (x\<lparr> on_ref_cnt := on_ref_cnt x + 1 \<rparr>) y) = Some (Inr (), y)"
    using len(2) r(2) r(1) [unfolded word_gt_0] y by (simp add: ofs_close_container_def ofs_close_nolock_def put_opened_def Let_def)
  show ?thesis using o c by (simp add: put_opened_def)
qed

text \<open>Opening a container that is opened already, by a name in any case, gives its handle again and
  counts it once more; closing it once undoes the opening exactly, so the container stays opened for the
  others. (After 2^32 - 1 openings the count would wrap around.)\<close>

theorem container_reopen_close:
  assumes "sys_ok y" "sys_cts y n = Some x" "0 < on_ref_cnt x" "on_ref_cnt x + 1 \<noteq> 0"
    "ansi_order name = ansi_order (on_name x)" "name \<noteq> []"
  shows "\<exists>y'. ofs_open_container name y = Some (Inr n, y') \<and>
    map_option on_ref_cnt (sys_cts y' n) = Some (on_ref_cnt x + 1) \<and> ofs_close_container n y' = Some (Inr (), y)"
  using assms by (rule reopen)

section \<open>Opening a missing file\<close>

lemma close_new_contents: "close_contents (new_ct y t) = Some (new_ct y t)"
proof -
  have w: "walk_all avl_create cb s = Some s" for cb and s :: container
    by (simp add: walk_all_def avl_create_def)
  have "validate_all_objects (new_ct y t) = Some (new_ct y t)"
    by (simp add: validate_all_objects_def new_ct_def w)
  moreover have "flush_container_cache (new_ct y t) = Some (new_ct y t)"
    by (simp add: flush_container_cache_def new_ct_def w)
  moreover have "clean_all_obj_root_cache (new_ct y t) = Some (new_ct y t)"
    by (simp add: clean_all_obj_root_cache_def new_ct_def w)
  moreover have "release_container_all_cache (new_ct y t) = Some (new_ct y t)"
    by (simp add: release_container_all_cache_def new_ct_def w)
  moreover have "walk_all (ct_obj_info_list (new_ct y t)) close_one_object (new_ct y t) = Some (new_ct y t)"
    "ct_id_obj (new_ct y t) = 0" "sm_space_obj (get_sm w (new_ct y t)) = 0" for w
    by (simp_all add: new_ct_def w get_sm_def)
  ultimately show ?thesis by (simp add: close_contents_def ofs_destroy_sm_def commit_container_modification_def)
qed

lemma close_new_container:
  assumes ok: "sys_ok y" and n: "sys_cts y n = Some (new_opened name y0)"
  shows "\<exists>y'. close_container n y = Some y' \<and> sys_ok y' \<and> sys_cts y' = (sys_cts y)(n := None) \<and>
    sys_files y' = sys_files y"
proof -
  obtain list where l: "g_container_list y = Some list" "avl_inv (name_key y) list" "members list = dom (sys_cts y)"
    using ok by (auto simp: sys_ok_def)
  then obtain list' where "avl_remove_node list n = Some list'" using avl_remove_node_member [OF l(2), of n] n by auto
  moreover have "avl_destroy (avl_create :: nat avl_tree) = Some ()" by (simp add: avl_destroy_def avl_create_def)
  moreover have "ct_obj_info_list (new_ct y0 t) = avl_create" "ct_metadata_cache (new_ct y0 t) = avl_create" for t
    by (simp_all add: new_ct_def)
  ultimately obtain y' where y': "close_container n y = Some y'" "sys_cts y' = (sys_cts y)(n := None)"
    "sys_files y' = sys_files y"
    using n l(1) close_new_contents
    by (simp add: close_container_def destroy_container_resource_def new_opened_def)
  then show ?thesis using close_container_ok [OF ok] by blast
qed

text \<open>Opening a container whose file is not there fails with the error of the file layer and leaves
  nothing behind: the same containers are opened, the files are the same, and the list is well-formed.\<close>

theorem container_open_missing:
  assumes ok: "sys_ok y" and name: "name \<noteq> []" "length name < OFS_NAME_SIZE"
    and new: "ansi_order name \<notin> name_key y ` dom (sys_cts y)" and missing: "sys_files y name = None"
    and mem: "sys_malloc y (sys_tick y)" "sys_malloc y (sys_tick y + 1)"
  shows "\<exists>y'. ofs_open_container name y = Some (Inl FILE_IO_ERR_OPEN, y') \<and> sys_ok y' \<and>
    sys_cts y' = sys_cts y \<and> sys_files y' = sys_files y"
proof -
  have f: "find_container y name = Some None" using find_container_None [OF ok name(1)] new by simp
  obtain y1 where y1: "init_container_resource name y = Some (Inr (sys_next y), y1)" "sys_ok y1"
    "sys_cts y1 = (sys_cts y)(sys_next y \<mapsto> new_opened name y)" "sys_files y1 = sys_files y"
    "sys_malloc y1 = sys_malloc y" "sys_tick y1 = sys_tick y + 1"
    using init_container_resource_ok [OF ok name f] mem(1) by auto
  have o: "os_disk_open name y1 = (Inl FILE_IO_ERR_OPEN, y1\<lparr> sys_tick := sys_tick y1 + 1 \<rparr>)"
    using mem(2) missing y1(4-6) by (simp add: os_disk_open_def file_open_or_create_def Let_def)
  have ok2: "sys_ok (y1\<lparr> sys_tick := sys_tick y1 + 1 \<rparr>)" by (rule same_list_ok [OF _ y1(2)]) simp
  have "sys_cts (y1\<lparr> sys_tick := sys_tick y1 + 1 \<rparr>) (sys_next y) = Some (new_opened name y)" using y1(3) by simp
  note c = close_new_container [OF ok2 this]
  obtain y' where
    y': "close_container (sys_next y) (y1\<lparr> sys_tick := sys_tick y1 + 1 \<rparr>) = Some y'" "sys_ok y'"
      "sys_cts y' = (sys_cts (y1\<lparr> sys_tick := sys_tick y1 + 1 \<rparr>))(sys_next y := None)"
      "sys_files y' = sys_files (y1\<lparr> sys_tick := sys_tick y1 + 1 \<rparr>)"
    by (rule exE [OF c]) (elim conjE, rule that)
  have "sys_cts y (sys_next y) = None" using ok by (cases "sys_cts y (sys_next y)") (auto simp: sys_ok_def)
  then have "sys_cts y' = sys_cts y" "sys_files y' = sys_files y" using y'(3,4) y1(3,4) by (simp_all add: fun_eq_iff)
  then show ?thesis
    using y1(1) o y' f name(2) by (simp add: ofs_open_container_def ofs_open_nolock_def)
qed

section \<open>A system with one opened container\<close>

definition ex_system :: system where
  "ex_system = \<lparr> sys_cts = Map.empty, g_container_list = None, sys_next = 1, sys_files = Map.empty,
     sys_malloc = (\<lambda>_. True), sys_fopen = (\<lambda>_. True), sys_env = (\<lambda>_ _. io_ok), sys_junk = (\<lambda>_ _ _. 0), sys_tick = 0 \<rparr>"

definition ex_up :: system where
  "ex_up = ex_system\<lparr> sys_next := 2, sys_cts := [1 \<mapsto> new_opened [97] ex_system],
     g_container_list := Some \<lparr> avl_root = ANode ANil 1 0 ANil, avl_numnodes = 1 \<rparr> \<rparr>"

lemma ex_up_ok: "sys_ok ex_up"
  by (auto simp: sys_ok_def ex_up_def avl_inv_def members_def new_opened_def OFS_NAME_SIZE_def split: if_splits)

lemma ex_init: "ofs_init_system ex_system = (Inr (), ex_system\<lparr> g_container_list := Some avl_create, sys_tick := 1 \<rparr>)"
  by (simp add: ofs_init_system_def ex_system_def)

theorem container_system_well_formed_witness:
  "\<exists>y. sys_step\<^sup>*\<^sup>* ex_system y \<and> g_container_list y \<noteq> None \<and> (sys_down y \<or> sys_ok y)"
proof -
  have "sys_down ex_system" by (simp add: sys_down_def ex_system_def)
  moreover have "sys_step\<^sup>*\<^sup>* ex_system (ex_system\<lparr> g_container_list := Some avl_create, sys_tick := 1 \<rparr>)"
    using sys_step.init [OF ex_init] by blast
  ultimately show ?thesis using container_system_well_formed by fastforce
qed

theorem container_reopen_close_witness:
  "\<exists>y'. ofs_open_container [65] ex_up = Some (Inr 1, y') \<and> map_option on_ref_cnt (sys_cts y' 1) = Some 2 \<and>
    ofs_close_container 1 y' = Some (Inr (), ex_up)"
proof -
  have "sys_cts ex_up 1 = Some (new_opened [97] ex_system)" by (simp add: ex_up_def)
  moreover have "ansi_order [65] = ansi_order [97]" by (simp add: ansi_order_def os_to_upper_def)
  ultimately show ?thesis
    using container_reopen_close [OF ex_up_ok, of 1 "new_opened [97] ex_system" "[65]"]
    by (simp add: new_opened_def)
qed

theorem container_open_missing_witness:
  "\<exists>y'. ofs_open_container [98] ex_up = Some (Inl FILE_IO_ERR_OPEN, y') \<and> sys_ok y' \<and> sys_cts y' = sys_cts ex_up"
proof -
  have "ansi_order [98] \<notin> name_key ex_up ` dom (sys_cts ex_up)"
    by (simp add: ex_up_def name_key_def new_opened_def ansi_order_def os_to_upper_def)
  then show ?thesis
    using container_open_missing [OF ex_up_ok, of "[98]"]
    by (auto simp: ex_up_def ex_system_def OFS_NAME_SIZE_def)
qed

end
