(* ===== verification/RingBuffer.thy ===== *)
theory RingBuffer
  imports OfsPrelude "HOL-Library.Monad_Syntax"
begin

text \<open>
  The array containers \<open>public/ring_buffer.h\<close>, \<open>public/queue.h\<close> and \<open>public/stack.h\<close>. The
  locale \<open>bounded_queue\<close> states what a queue of limited capacity promises; the ring buffer and the
  queue both are one, so they behave alike (\<open>ring_buffer_queue_equivalent\<close>). An access outside the
  array is \<open>None\<close>. The results of the two \<open>malloc\<close> calls of a constructor are arguments, as are the
  contents of the new array.
\<close>

datatype queue_err = ERR_QUEUE_FULL | ERR_QUEUE_EMPTY

section \<open>Ring buffer\<close>

record ring_buffer =
  rb_member :: "u64 list"
  rb_head :: u32
  rb_tail :: u32
  rb_num :: u32
  rb_max_num :: u32

definition ring_buffer_create :: "bool \<Rightarrow> bool \<Rightarrow> (nat \<Rightarrow> u64) \<Rightarrow> int \<Rightarrow> ring_buffer option" where
  "ring_buffer_create ok1 ok2 junk max_num =
     (if max_num \<le> 0 then None
      else if \<not> ok1 then None
      else if \<not> ok2 then None
      else Some \<lparr> rb_member = map junk [0..<nat max_num], rb_head = 0, rb_tail = 0, rb_num = 0,
                  rb_max_num = of_int max_num \<rparr>)"

definition ring_buffer_push :: "ring_buffer \<Rightarrow> u64 \<Rightarrow> ((queue_err + unit) \<times> ring_buffer) option" where
  "ring_buffer_push q m =
     (if rb_num q \<ge> rb_max_num q then Some (Inl ERR_QUEUE_FULL, q)
      else if unat (rb_tail q) \<ge> length (rb_member q) then None
      else
        let q = q\<lparr> rb_member := (rb_member q)[unat (rb_tail q) := m] \<rparr>;
            q = q\<lparr> rb_tail := rb_tail q + 1 \<rparr>;
            q = (if rb_tail q \<ge> rb_max_num q then q\<lparr> rb_tail := 0 \<rparr> else q)
        in Some (Inr (), q\<lparr> rb_num := rb_num q + 1 \<rparr>))"

definition ring_buffer_pop :: "ring_buffer \<Rightarrow> ((queue_err + u64) \<times> ring_buffer) option" where
  "ring_buffer_pop q =
     (if rb_num q = 0 then Some (Inl ERR_QUEUE_EMPTY, q)
      else if unat (rb_head q) \<ge> length (rb_member q) then None
      else
        let m = rb_member q ! unat (rb_head q);
            q = q\<lparr> rb_head := rb_head q + 1 \<rparr>;
            q = (if rb_head q \<ge> rb_max_num q then q\<lparr> rb_head := 0 \<rparr> else q)
        in Some (Inr m, q\<lparr> rb_num := rb_num q - 1 \<rparr>))"

text \<open>The loop of the walk: \<open>n\<close> members from \<open>head\<close> on, until the callback returns non-zero.\<close>

fun ring_buffer_walk_loop ::
  "ring_buffer \<Rightarrow> (u64 \<Rightarrow> 's \<Rightarrow> int \<times> 's) \<Rightarrow> u32 \<Rightarrow> nat \<Rightarrow> 's \<Rightarrow> (int \<times> 's) option" where
  "ring_buffer_walk_loop q func head 0 para = Some (0, para)"
| "ring_buffer_walk_loop q func head (Suc n) para =
     (if unat head \<ge> length (rb_member q) then None
      else let (ret, para) = func (rb_member q ! unat head) para in
        if ret \<noteq> 0 then Some (ret, para)
        else
          let head = head + 1; head = (if head \<ge> rb_max_num q then 0 else head)
          in ring_buffer_walk_loop q func head n para)"

definition ring_buffer_walk_all ::
  "ring_buffer \<Rightarrow> (u64 \<Rightarrow> 's \<Rightarrow> int \<times> 's) \<Rightarrow> 's \<Rightarrow> (queue_err + (int \<times> 's)) option" where
  "ring_buffer_walk_all q func para =
     (if rb_num q = 0 then Some (Inl ERR_QUEUE_EMPTY)
      else map_option Inr (ring_buffer_walk_loop q func (rb_head q) (unat (rb_num q)) para))"

definition ring_buffer_get_size :: "ring_buffer \<Rightarrow> int" where
  "ring_buffer_get_size q = sint (rb_num q)"
definition ring_buffer_get_max_size :: "ring_buffer \<Rightarrow> int" where
  "ring_buffer_get_max_size q = sint (rb_max_num q)"
definition ring_buffer_reset :: "ring_buffer \<Rightarrow> ring_buffer" where
  "ring_buffer_reset q = q\<lparr> rb_head := 0, rb_tail := 0, rb_num := 0 \<rparr>"

section \<open>Queue\<close>

text \<open>
  The members of \<open>queue_t\<close> are \<open>int\<close>s between 0 and the size; pointers are numbers. A size below
  zero asks \<open>malloc\<close> for more than there is, which fails. \<open>queue_push\<close> counts \<open>tail\<close> up after its use.
\<close>

record queue_t =
  q_memb :: "u64 list"
  q_head :: int
  q_tail :: int
  q_cnt :: int
  q_size :: int

definition queue_create :: "bool \<Rightarrow> bool \<Rightarrow> (nat \<Rightarrow> u64) \<Rightarrow> int \<Rightarrow> queue_t option" where
  "queue_create ok1 ok2 junk sz =
     (if \<not> ok1 then None
      else if \<not> ok2 \<or> sz < 0 then None
      else Some \<lparr> q_memb = map junk [0..<nat sz], q_head = 0, q_tail = 0, q_cnt = 0, q_size = sz \<rparr>)"

definition queue_push :: "queue_t \<Rightarrow> u64 \<Rightarrow> ((queue_err + unit) \<times> queue_t) option" where
  "queue_push q m =
     (if q_cnt q = q_size q then Some (Inl ERR_QUEUE_FULL, q)
      else if q_tail q < 0 \<or> nat (q_tail q) \<ge> length (q_memb q) then None
      else
        let q = q\<lparr> q_memb := (q_memb q)[nat (q_tail q) := m] \<rparr>;
            q = q\<lparr> q_tail := q_tail q + 1 \<rparr>;
            q = q\<lparr> q_tail := q_tail q mod q_size q \<rparr>
        in Some (Inr (), q\<lparr> q_cnt := q_cnt q + 1 \<rparr>))"

definition queue_pop :: "queue_t \<Rightarrow> ((queue_err + u64) \<times> queue_t) option" where
  "queue_pop q =
     (if q_cnt q = 0 then Some (Inl ERR_QUEUE_EMPTY, q)
      else if q_head q < 0 \<or> nat (q_head q) \<ge> length (q_memb q) then None
      else
        let m = q_memb q ! nat (q_head q);
            q = q\<lparr> q_head := q_head q + 1 \<rparr>;
            q = q\<lparr> q_head := q_head q mod q_size q \<rparr>
        in Some (Inr m, q\<lparr> q_cnt := q_cnt q - 1 \<rparr>))"

definition queue_get_size :: "queue_t \<Rightarrow> int" where "queue_get_size q = q_cnt q"

section \<open>Stack\<close>

text \<open>A NULL member, 0, is a failed \<open>ASSERT\<close>.\<close>

datatype stack_err = ERR_STACK_FULL | ERR_STACK_EMPTY

record stack_t =
  st_memb :: "u64 list"
  st_num :: int
  st_max :: int

definition stack_create :: "bool \<Rightarrow> bool \<Rightarrow> (nat \<Rightarrow> u64) \<Rightarrow> int \<Rightarrow> stack_t option" where
  "stack_create ok1 ok2 junk sz =
     (if \<not> ok1 then None
      else if \<not> ok2 \<or> sz < 0 then None
      else Some \<lparr> st_memb = map junk [0..<nat sz], st_num = 0, st_max = sz \<rparr>)"

definition stack_push :: "stack_t \<Rightarrow> u64 \<Rightarrow> ((stack_err + unit) \<times> stack_t) option" where
  "stack_push s m =
     (if m = 0 then None
      else if st_num s \<ge> st_max s then Some (Inl ERR_STACK_FULL, s)
      else if st_num s < 0 \<or> nat (st_num s) \<ge> length (st_memb s) then None
      else Some (Inr (), s\<lparr> st_memb := (st_memb s)[nat (st_num s) := m], st_num := st_num s + 1 \<rparr>))"

definition stack_pop :: "stack_t \<Rightarrow> ((stack_err + u64) \<times> stack_t) option" where
  "stack_pop s =
     (if st_num s \<le> 0 then Some (Inl ERR_STACK_EMPTY, s)
      else
        let s = s\<lparr> st_num := st_num s - 1 \<rparr> in
        if nat (st_num s) \<ge> length (st_memb s) then None
        else Some (Inr (st_memb s ! nat (st_num s)), s))"

definition stack_get_size :: "stack_t \<Rightarrow> int" where "stack_get_size s = st_num s"

section \<open>What a bounded queue promises\<close>

datatype 'a queue_op = Push 'a | Pop
datatype 'a outcome = Pushed | Full | Popped 'a | Empty

text \<open>A sequence of calls on an implementation, and on a list of at most \<open>n\<close> elements.\<close>

fun run_queue ::
  "('q \<Rightarrow> 'a \<Rightarrow> ((queue_err + unit) \<times> 'q) option) \<Rightarrow> ('q \<Rightarrow> ((queue_err + 'a) \<times> 'q) option) \<Rightarrow>
   'a queue_op list \<Rightarrow> 'q \<Rightarrow> ('a outcome list \<times> 'q) option" where
  "run_queue push pop [] q = Some ([], q)"
| "run_queue push pop (Push a # ops) q = do {
     (ret, q) \<leftarrow> push q a;
     (outs, q) \<leftarrow> run_queue push pop ops q;
     Some ((case ret of Inl _ \<Rightarrow> Full | Inr _ \<Rightarrow> Pushed) # outs, q) }"
| "run_queue push pop (Pop # ops) q = do {
     (ret, q) \<leftarrow> pop q;
     (outs, q) \<leftarrow> run_queue push pop ops q;
     Some ((case ret of Inl _ \<Rightarrow> Empty | Inr a \<Rightarrow> Popped a) # outs, q) }"

fun run_list :: "nat \<Rightarrow> 'a queue_op list \<Rightarrow> 'a list \<Rightarrow> 'a outcome list \<times> 'a list" where
  "run_list n [] xs = ([], xs)"
| "run_list n (Push a # ops) xs =
     (if length xs = n then let (outs, ys) = run_list n ops xs in (Full # outs, ys)
      else let (outs, ys) = run_list n ops (xs @ [a]) in (Pushed # outs, ys))"
| "run_list n (Pop # ops) xs =
     (case xs of [] \<Rightarrow> let (outs, ys) = run_list n ops xs in (Empty # outs, ys)
      | x # xs \<Rightarrow> let (outs, ys) = run_list n ops xs in (Popped x # outs, ys))"

locale bounded_queue =
  fixes inv :: "'q \<Rightarrow> bool"
    and capacity :: "'q \<Rightarrow> nat"
    and contents :: "'q \<Rightarrow> 'a list"
    and push :: "'q \<Rightarrow> 'a \<Rightarrow> ((queue_err + unit) \<times> 'q) option"
    and pop :: "'q \<Rightarrow> ((queue_err + 'a) \<times> 'q) option"
  assumes push_full: "inv q \<Longrightarrow> length (contents q) = capacity q \<Longrightarrow> push q a = Some (Inl ERR_QUEUE_FULL, q)"
    and push_ok: "inv q \<Longrightarrow> length (contents q) < capacity q \<Longrightarrow>
      \<exists>q'. push q a = Some (Inr (), q') \<and> inv q' \<and> capacity q' = capacity q \<and>
        contents q' = contents q @ [a]"
    and pop_empty: "inv q \<Longrightarrow> contents q = [] \<Longrightarrow> pop q = Some (Inl ERR_QUEUE_EMPTY, q)"
    and pop_ok: "inv q \<Longrightarrow> contents q = a # as \<Longrightarrow>
      \<exists>q'. pop q = Some (Inr a, q') \<and> inv q' \<and> capacity q' = capacity q \<and> contents q' = as"
    and fits: "inv q \<Longrightarrow> length (contents q) \<le> capacity q"
begin

lemma run_refines:
  "inv q \<Longrightarrow> \<exists>q'. run_queue push pop ops q = Some (fst (run_list (capacity q) ops (contents q)), q') \<and>
     inv q' \<and> capacity q' = capacity q \<and> contents q' = snd (run_list (capacity q) ops (contents q))"
proof (induction ops arbitrary: q)
  case Nil
  then show ?case by simp
next
  case (Cons p ops)
  show ?case
  proof (cases p)
    case (Push a)
    show ?thesis
    proof (cases "length (contents q) = capacity q")
      case True
      with Cons.IH [OF Cons.prems] Push push_full [OF Cons.prems True, of a] show ?thesis
        by (auto split: prod.split)
    next
      case False
      with fits [OF Cons.prems] have "length (contents q) < capacity q" by simp
      then obtain q' where "push q a = Some (Inr (), q')" and q': "inv q'" "capacity q' = capacity q"
        "contents q' = contents q @ [a]"
        using push_ok Cons.prems by blast
      with Cons.IH [OF q'(1)] Push False show ?thesis by (auto split: prod.split)
    qed
  next
    case Pop
    show ?thesis
    proof (cases "contents q")
      case Nil
      with Cons.IH [OF Cons.prems] Pop pop_empty [OF Cons.prems Nil] show ?thesis
        by (auto split: prod.split)
    next
      case (Cons a as)
      with pop_ok Cons.prems obtain q' where "pop q = Some (Inr a, q')"
        and q': "inv q'" "capacity q' = capacity q" "contents q' = as" by blast
      with Cons.IH [OF q'(1)] Pop Cons show ?thesis by (auto split: prod.split)
    qed
  qed
qed

end

section \<open>A ring of array cells\<close>

text \<open>The \<open>n\<close> cells from \<open>h\<close> on of an array, round its end.\<close>

definition ring :: "'a list \<Rightarrow> nat \<Rightarrow> nat \<Rightarrow> 'a list" where
  "ring xs h n = map (\<lambda>i. xs ! ((h + i) mod length xs)) [0..<n]"

lemma length_ring [simp]: "length (ring xs h n) = n"
  by (simp add: ring_def)

lemma ring_0 [simp]: "ring xs h 0 = []"
  by (simp add: ring_def)

lemma ring_push:
  assumes "n < length xs" "t = (h + n) mod length xs"
  shows "ring (xs[t := a]) h (Suc n) = ring xs h n @ [a]"
proof (rule nth_equalityI)
  fix i assume "i < length (ring (xs[t := a]) h (Suc n))"
  then have i: "i \<le> n" by simp
  have "(h + i) mod length xs \<noteq> t" if "i < n"
  proof
    assume "(h + i) mod length xs = t"
    then have "(h + n) mod length xs = (h + i) mod length xs" using assms by simp
    then have "length xs dvd (h + n) - (h + i)" using mod_eq_dvd_iff_nat [of "h + i" "h + n"] that by simp
    then show False using that assms(1) by (auto dest: dvd_imp_le)
  qed
  moreover have "t < length xs" using assms by (auto intro: mod_less_divisor)
  ultimately show "ring (xs[t := a]) h (Suc n) ! i = (ring xs h n @ [a]) ! i"
    using i assms(2) by (cases "i = n") (simp_all add: ring_def nth_append del: upt_Suc)
qed simp

lemma ring_pop: "ring xs h (Suc n) = xs ! (h mod length xs) # ring xs ((h + 1) mod length xs) n"
  by (rule nth_equalityI) (auto simp: ring_def nth_Cons mod_simps simp del: upt_Suc split: nat.split)

lemma wrap_mod: "h < n \<Longrightarrow> (if Suc h \<ge> n then 0 else Suc h) = Suc h mod n"
  by (cases "Suc h = n") auto

definition rb_inv :: "ring_buffer \<Rightarrow> bool" where
  "rb_inv q \<longleftrightarrow> 0 < rb_max_num q \<and> unat (rb_max_num q) < 2 ^ 31 \<and> length (rb_member q) = unat (rb_max_num q) \<and>
     rb_head q < rb_max_num q \<and> rb_num q \<le> rb_max_num q \<and>
     unat (rb_tail q) = (unat (rb_head q) + unat (rb_num q)) mod unat (rb_max_num q)"

definition rb_contents :: "ring_buffer \<Rightarrow> u64 list" where
  "rb_contents q = ring (rb_member q) (unat (rb_head q)) (unat (rb_num q))"

definition q_inv :: "queue_t \<Rightarrow> bool" where
  "q_inv q \<longleftrightarrow> 0 < q_size q \<and> length (q_memb q) = nat (q_size q) \<and> 0 \<le> q_head q \<and> q_head q < q_size q \<and>
     0 \<le> q_cnt q \<and> q_cnt q \<le> q_size q \<and> q_tail q = (q_head q + q_cnt q) mod q_size q"

definition q_contents :: "queue_t \<Rightarrow> u64 list" where
  "q_contents q = ring (q_memb q) (nat (q_head q)) (nat (q_cnt q))"

lemma unat_inc32: "unat (w :: u32) < 2 ^ 31 \<Longrightarrow> unat (w + 1) = Suc (unat w)"
  by (subst unat_add_lem [THEN iffD1]) simp_all

lemma unat_dec32: "(w :: u32) \<noteq> 0 \<Longrightarrow> unat (w - 1) = unat w - 1"
  by (simp add: unat_minus_one)

lemma wrap_inc32:
  assumes "h < m" "unat (m :: u32) < 2 ^ 31"
  shows "unat (if m \<le> h + 1 then 0 else h + 1) = Suc (unat h) mod unat m"
proof -
  have "unat h < unat m" using assms(1) by (simp add: word_less_nat_alt)
  with assms(2) have "unat (h + 1) = Suc (unat h)" by (simp add: unat_inc32)
  with \<open>unat h < unat m\<close> show ?thesis by (cases "Suc (unat h) = unat m") (auto simp: word_le_nat_alt)
qed

lemma ring_buffer_push_ok:
  assumes "rb_inv q" "unat (rb_num q) < unat (rb_max_num q)"
  shows "\<exists>q'. ring_buffer_push q a = Some (Inr (), q') \<and> rb_inv q' \<and>
    rb_max_num q' = rb_max_num q \<and> rb_contents q' = rb_contents q @ [a]"
proof -
  let ?m = "unat (rb_max_num q)" and ?h = "unat (rb_head q)" and ?n = "unat (rb_num q)"
  have inv: "?m < 2 ^ 31" "length (rb_member q) = ?m" "?h < ?m" "unat (rb_tail q) = (?h + ?n) mod ?m"
    using assms(1) by (simp_all add: rb_inv_def word_less_nat_alt)
  then have tm: "unat (rb_tail q) < ?m" by simp
  then have t: "rb_tail q < rb_max_num q" by (simp add: word_less_nat_alt)
  note tail = wrap_inc32 [OF t inv(1)]
  have n: "unat (rb_num q + 1) = Suc ?n" using assms(2) inv(1) by (intro unat_inc32) simp
  let ?q = "q\<lparr> rb_member := (rb_member q)[unat (rb_tail q) := a],
    rb_tail := (if rb_max_num q \<le> rb_tail q + 1 then 0 else rb_tail q + 1), rb_num := rb_num q + 1 \<rparr>"
  have "ring_buffer_push q a = Some (Inr (), ?q)"
    using assms(2) inv(2) tm by (auto simp: ring_buffer_push_def Let_def word_le_nat_alt)
  moreover have "rb_inv ?q"
    using assms inv tail n by (simp add: rb_inv_def word_le_nat_alt word_less_nat_alt mod_Suc_eq)
  moreover have "rb_contents ?q = rb_contents q @ [a]"
    using assms(2) inv n by (simp add: rb_contents_def ring_push)
  ultimately show ?thesis by (intro exI [of _ ?q]) simp
qed

lemma ring_buffer_pop_ok:
  assumes "rb_inv q" "rb_contents q = a # as"
  shows "\<exists>q'. ring_buffer_pop q = Some (Inr a, q') \<and> rb_inv q' \<and>
    rb_max_num q' = rb_max_num q \<and> rb_contents q' = as"
proof -
  let ?m = "unat (rb_max_num q)" and ?h = "unat (rb_head q)" and ?n = "unat (rb_num q)"
  have inv: "?m < 2 ^ 31" "length (rb_member q) = ?m" "?h < ?m" "?n \<le> ?m"
    "unat (rb_tail q) = (?h + ?n) mod ?m"
    using assms(1) by (simp_all add: rb_inv_def word_less_nat_alt word_le_nat_alt)
  from assms(2) obtain k where k: "?n = Suc k" by (cases ?n) (auto simp: rb_contents_def)
  then have nz: "rb_num q \<noteq> 0" by auto
  then have n: "unat (rb_num q - 1) = k" using k by (simp add: unat_dec32)
  have a: "rb_member q ! ?h = a" "ring (rb_member q) (Suc ?h mod ?m) k = as"
    using assms(2) inv by (simp_all add: rb_contents_def k ring_pop)
  have "rb_head q < rb_max_num q" using inv(3) by (simp add: word_less_nat_alt)
  note hd = wrap_inc32 [OF this inv(1)]
  let ?q = "q\<lparr> rb_head := (if rb_max_num q \<le> rb_head q + 1 then 0 else rb_head q + 1),
    rb_num := rb_num q - 1 \<rparr>"
  have "ring_buffer_pop q = Some (Inr a, ?q)"
    using inv nz a(1) by (auto simp: ring_buffer_pop_def Let_def)
  moreover have "rb_inv ?q"
    using assms(1) inv hd n k by (simp add: rb_inv_def word_le_nat_alt word_less_nat_alt mod_simps)
  moreover have "rb_contents ?q = as"
    using hd n a(2) by (simp add: rb_contents_def)
  ultimately show ?thesis by (intro exI [of _ ?q]) simp
qed

interpretation rb: bounded_queue rb_inv "\<lambda>q. unat (rb_max_num q)" rb_contents
    ring_buffer_push ring_buffer_pop
proof
  fix q a as
  assume inv: "rb_inv q"
  show "length (rb_contents q) \<le> unat (rb_max_num q)"
    using inv by (simp add: rb_inv_def rb_contents_def word_le_nat_alt)
  show "ring_buffer_push q a = Some (Inl ERR_QUEUE_FULL, q)"
    if "length (rb_contents q) = unat (rb_max_num q)"
    using that by (simp add: ring_buffer_push_def rb_contents_def word_le_nat_alt)
  show "\<exists>q'. ring_buffer_push q a = Some (Inr (), q') \<and> rb_inv q' \<and>
    unat (rb_max_num q') = unat (rb_max_num q) \<and> rb_contents q' = rb_contents q @ [a]"
    if "length (rb_contents q) < unat (rb_max_num q)"
    using ring_buffer_push_ok [OF inv, of a] that by (auto simp: rb_contents_def)
  show "ring_buffer_pop q = Some (Inl ERR_QUEUE_EMPTY, q)" if "rb_contents q = []"
    using that by (simp add: ring_buffer_pop_def rb_contents_def ring_def unat_eq_0)
  show "\<exists>q'. ring_buffer_pop q = Some (Inr a, q') \<and> rb_inv q' \<and>
    unat (rb_max_num q') = unat (rb_max_num q) \<and> rb_contents q' = as" if "rb_contents q = a # as"
    using ring_buffer_pop_ok [OF inv that] by auto
qed

interpretation qu: bounded_queue q_inv "\<lambda>q. nat (q_size q)" q_contents queue_push queue_pop
proof
  fix q a as
  assume inv: "q_inv q"
  then have len: "length (q_memb q) = nat (q_size q)" "0 \<le> q_head q" "q_head q < q_size q"
    "0 \<le> q_cnt q" "q_cnt q \<le> q_size q" "q_tail q = (q_head q + q_cnt q) mod q_size q" "0 < q_size q"
    by (simp_all add: q_inv_def)
  show "length (q_contents q) \<le> nat (q_size q)" using len by (simp add: q_contents_def)
  show "queue_push q a = Some (Inl ERR_QUEUE_FULL, q)" if "length (q_contents q) = nat (q_size q)"
    using that len by (simp add: queue_push_def q_contents_def)
  show "\<exists>q'. queue_push q a = Some (Inr (), q') \<and> q_inv q' \<and> nat (q_size q') = nat (q_size q) \<and>
    q_contents q' = q_contents q @ [a]" if "length (q_contents q) < nat (q_size q)"
  proof -
    let ?q = "q\<lparr> q_memb := (q_memb q)[nat (q_tail q) := a], q_tail := (q_tail q + 1) mod q_size q,
      q_cnt := q_cnt q + 1 \<rparr>"
    have c: "q_cnt q < q_size q" using that len by (simp add: q_contents_def)
    have t: "0 \<le> q_tail q" "q_tail q < q_size q" using len by simp_all
    have tn: "nat (q_tail q) = (nat (q_head q) + nat (q_cnt q)) mod length (q_memb q)"
      using len by (simp add: nat_mod_distrib nat_add_distrib)
    have "queue_push q a = Some (Inr (), ?q)" using c t len(1) by (auto simp: queue_push_def Let_def)
    moreover have "q_inv ?q" using len c by (simp add: q_inv_def mod_simps add.assoc)
    moreover have "q_contents ?q = q_contents q @ [a]"
      using len c ring_push [OF _ tn, of a] by (simp add: q_contents_def nat_add_distrib)
    ultimately show ?thesis by (intro exI [of _ ?q]) simp
  qed
  show "queue_pop q = Some (Inl ERR_QUEUE_EMPTY, q)" if "q_contents q = []"
    using that len by (simp add: queue_pop_def q_contents_def ring_def)
  show "\<exists>q'. queue_pop q = Some (Inr a, q') \<and> q_inv q' \<and> nat (q_size q') = nat (q_size q) \<and>
    q_contents q' = as" if as: "q_contents q = a # as"
  proof -
    let ?q = "q\<lparr> q_head := (q_head q + 1) mod q_size q, q_cnt := q_cnt q - 1 \<rparr>"
    from as obtain k where k: "nat (q_cnt q) = Suc k" by (cases "nat (q_cnt q)") (auto simp: q_contents_def)
    then have c: "q_cnt q \<noteq> 0" "nat (q_cnt q - 1) = k" by linarith+
    have h: "nat ((q_head q + 1) mod q_size q) = Suc (nat (q_head q)) mod length (q_memb q)"
      using len by (simp add: nat_mod_distrib nat_add_distrib)
    have m: "nat (q_head q) mod length (q_memb q) = nat (q_head q)" using len by simp
    have "queue_pop q = Some (Inr a, ?q)"
      using as len c m by (auto simp: queue_pop_def Let_def q_contents_def k ring_pop)
    moreover have "q_inv ?q" using len k by (simp add: q_inv_def mod_simps)
    moreover have "q_contents ?q = as" using as c h by (simp add: q_contents_def k ring_pop)
    ultimately show ?thesis by (intro exI [of _ ?q]) simp
  qed
qed

section \<open>Properties\<close>

lemma ring_buffer_create_ok:
  assumes "ring_buffer_create ok1 ok2 junk n = Some q" "n < 2 ^ 31"
  shows "rb_inv q \<and> unat (rb_max_num q) = nat n \<and> rb_contents q = []"
proof -
  have "0 < n" using assms(1) by (auto simp: ring_buffer_create_def split: if_splits)
  then have "(of_int n :: u32) = of_nat (nat n)" by simp
  then have "unat (of_int n :: u32) = nat n" using assms(2) \<open>0 < n\<close>
    by (simp only: unat_of_nat) simp
  with assms \<open>0 < n\<close> show ?thesis
    by (auto simp: ring_buffer_create_def rb_inv_def rb_contents_def word_less_nat_alt split: if_splits)
qed

lemma queue_create_ok:
  "queue_create ok1 ok2 junk n = Some q \<Longrightarrow> 0 < n \<Longrightarrow> q_inv q \<and> q_size q = n \<and> q_contents q = []"
  by (auto simp: queue_create_def q_inv_def q_contents_def split: if_splits)

text \<open>C36: A ring buffer and a queue of the same size give the same results, those of a list that takes no
  more than so many elements, for every sequence of calls; no call leaves the array.\<close>

theorem ring_buffer_queue_equivalent:
  assumes "ring_buffer_create ok1 ok2 junk n = Some q" "queue_create ok1' ok2' junk' n = Some q'" "n < 2 ^ 31"
  shows "\<exists>r r'. run_queue ring_buffer_push ring_buffer_pop ops q = Some (fst (run_list (nat n) ops []), r) \<and>
    run_queue queue_push queue_pop ops q' = Some (fst (run_list (nat n) ops []), r') \<and>
    rb_contents r = snd (run_list (nat n) ops []) \<and> q_contents r' = rb_contents r"
proof -
  have n: "0 < n" using assms(1) by (auto simp: ring_buffer_create_def split: if_splits)
  from ring_buffer_create_ok [OF assms(1,3)] rb.run_refines [of q ops]
  obtain r where "run_queue ring_buffer_push ring_buffer_pop ops q = Some (fst (run_list (nat n) ops []), r)"
    "rb_contents r = snd (run_list (nat n) ops [])" by auto
  moreover from queue_create_ok [OF assms(2) n] qu.run_refines [of q' ops]
  obtain r' where "run_queue queue_push queue_pop ops q' = Some (fst (run_list (nat n) ops []), r')"
    "q_contents r' = snd (run_list (nat n) ops [])" by auto
  ultimately show ?thesis by auto
qed

theorem ring_buffer_queue_equivalent_witness:
  "\<exists>r r'. run_queue ring_buffer_push ring_buffer_pop [Push 7, Push 8, Push 9, Pop, Push 9, Pop, Pop, Pop]
       (the (ring_buffer_create True True (\<lambda>_. 0) 2)) =
     Some ([Pushed, Pushed, Full, Popped 7, Pushed, Popped 8, Popped 9, Empty], r) \<and>
   run_queue queue_push queue_pop [Push 7, Push 8, Push 9, Pop, Push 9, Pop, Pop, Pop]
       (the (queue_create True True (\<lambda>_. 0) 2)) =
     Some ([Pushed, Pushed, Full, Popped 7, Pushed, Popped 8, Popped 9, Empty], r') \<and>
   rb_contents r = [] \<and> q_contents r' = rb_contents r"
  using ring_buffer_queue_equivalent [of True True "\<lambda>_. 0" 2 _ True True "\<lambda>_. 0"
      _ "[Push 7, Push 8, Push 9, Pop, Push 9, Pop, Pop, Pop]"]
  by (simp add: ring_buffer_create_def queue_create_def)

end
