(* ===== verification/Hashtab.thy ===== *)
theory Hashtab
  imports OfsPrelude "HOL-Library.Monad_Syntax"
begin

text \<open>
  The hash table \<open>public/hashtab.c\<close>: an array of chains, each sorted by key. The hash and the
  comparison are functions of the user. The hash value indexes the array as it is: it must be below the
  number of buckets, else the access is outside, \<open>None\<close>.
\<close>

section \<open>Operations\<close>

datatype hashtab_err = HASHTAB_ERROR_OVER_MAX_NUM | HASHTAB_ERROR_EXIST | HASHTAB_ERROR_NO_MEMORY

text \<open>A chain of \<open>hashtab_node_t\<close> is the list of its keys and data.\<close>

record ('k, 'd) hashtab =
  ht_htable :: "('k \<times> 'd) list list"
  ht_bucket_size :: u32
  ht_num :: u32
  ht_max_num :: u32
  ht_hash_value :: "'k \<Rightarrow> u32"
  ht_keycmp :: "'k \<Rightarrow> 'k \<Rightarrow> int"

definition hashtab_create ::
  "bool \<Rightarrow> bool \<Rightarrow> ('k \<Rightarrow> u32) \<Rightarrow> ('k \<Rightarrow> 'k \<Rightarrow> int) \<Rightarrow> u32 \<Rightarrow> u32 \<Rightarrow> ('k, 'd) hashtab option" where
  "hashtab_create ok1 ok2 hash_value keycmp bucket_size max_num =
     (if \<not> ok1 then None
      else if \<not> ok2 then None
      else Some \<lparr> ht_htable = replicate (unat bucket_size) [], ht_bucket_size = bucket_size, ht_num = 0,
                  ht_max_num = max_num, ht_hash_value = hash_value, ht_keycmp = keycmp \<rparr>)"

text \<open>The bucket of a key.\<close>

definition ht_bucket :: "('k, 'd) hashtab \<Rightarrow> 'k \<Rightarrow> ('k \<times> 'd) list option" where
  "ht_bucket h key =
     (let i = unat (ht_hash_value h key) in if i < length (ht_htable h) then Some (ht_htable h ! i) else None)"

text \<open>The loop over a chain: the nodes with smaller keys, and the rest.\<close>

definition ht_before :: "('k, 'd) hashtab \<Rightarrow> 'k \<Rightarrow> 'k \<times> 'd \<Rightarrow> bool" where
  "ht_before h key n = (ht_keycmp h key (fst n) > 0)"

definition hashtab_insert ::
  "bool \<Rightarrow> ('k, 'd) hashtab \<Rightarrow> 'k \<Rightarrow> 'd \<Rightarrow> ((hashtab_err + unit) \<times> ('k, 'd) hashtab) option" where
  "hashtab_insert ok h key dat =
     (if ht_num h = ht_max_num h then Some (Inl HASHTAB_ERROR_OVER_MAX_NUM, h)
      else do {
        chain \<leftarrow> ht_bucket h key;
        let prev = takeWhile (ht_before h key) chain;
        let cur = dropWhile (ht_before h key) chain;
        if cur \<noteq> [] \<and> ht_keycmp h key (fst (hd cur)) = 0 then Some (Inl HASHTAB_ERROR_EXIST, h)
        else if \<not> ok then Some (Inl HASHTAB_ERROR_NO_MEMORY, h)
        else Some (Inr (), h\<lparr> ht_htable :=
               (ht_htable h)[unat (ht_hash_value h key) := prev @ (key, dat) # cur],
               ht_num := ht_num h + 1 \<rparr>) })"

definition hashtab_search :: "('k, 'd) hashtab \<Rightarrow> 'k \<Rightarrow> 'd option option" where
  "hashtab_search h key = do {
     chain \<leftarrow> ht_bucket h key;
     let cur = dropWhile (ht_before h key) chain;
     if cur = [] \<or> ht_keycmp h key (fst (hd cur)) \<noteq> 0 then Some None
     else Some (Some (snd (hd cur))) }"

section \<open>The table as a map\<close>

definition ht_map :: "('k, 'd) hashtab \<Rightarrow> 'k \<rightharpoonup> 'd" where
  "ht_map h = map_of (concat (ht_htable h))"

text \<open>What the user's functions promise, and the table's invariant: sorted chains of keys of their bucket, and
  the number of entries counted right, at most \<open>max_num\<close>.\<close>

definition ht_user_ok :: "('k::linorder \<Rightarrow> u32) \<Rightarrow> ('k \<Rightarrow> 'k \<Rightarrow> int) \<Rightarrow> u32 \<Rightarrow> bool" where
  "ht_user_ok hash cmp n \<longleftrightarrow>
     (\<forall>k. hash k < n) \<and> (\<forall>a b. (cmp a b > 0 \<longleftrightarrow> a > b) \<and> (cmp a b = 0 \<longleftrightarrow> a = b))"

definition ht_inv :: "('k::linorder, 'd) hashtab \<Rightarrow> bool" where
  "ht_inv h \<longleftrightarrow> ht_user_ok (ht_hash_value h) (ht_keycmp h) (ht_bucket_size h) \<and>
     length (ht_htable h) = unat (ht_bucket_size h) \<and>
     unat (ht_num h) = length (concat (ht_htable h)) \<and> ht_num h \<le> ht_max_num h \<and>
     (\<forall>i < length (ht_htable h). sorted_wrt (<) (map fst (ht_htable h ! i)) \<and>
        (\<forall>n \<in> set (ht_htable h ! i). unat (ht_hash_value h (fst n)) = i))"

lemma map_of_concat:
  assumes "i < length xss" "\<And>j. j < length xss \<Longrightarrow> j \<noteq> i \<Longrightarrow> k \<notin> fst ` set (xss ! j)"
  shows "map_of (concat xss) k = map_of (xss ! i) k"
  using assms
proof (induction xss arbitrary: i)
  case Nil
  then show ?case by simp
next
  case (Cons xs xss)
  show ?case
  proof (cases i)
    case 0
    have "k \<notin> fst ` set (xss ! j)" if "j < length xss" for j
      using Cons.prems(2) [of "Suc j"] that 0 by simp
    then have "\<forall>ys \<in> set xss. k \<notin> fst ` set ys" by (metis in_set_conv_nth)
    then have "k \<notin> fst ` set (concat xss)" by auto
    then have "map_of (concat xss) k = None" by (meson map_of_eq_None_iff)
    with 0 show ?thesis by (simp add: map_add_def split: option.split)
  next
    case (Suc j)
    have "k \<notin> fst ` set xs" using Cons.prems(2) [of 0] Suc by simp
    then have "map_of xs k = None" by (meson map_of_eq_None_iff)
    moreover have "map_of (concat xss) k = map_of (xss ! j) k"
      using Cons.IH [of j] Cons.prems Suc by fastforce
    ultimately show ?thesis using Suc by (simp add: map_add_def)
  qed
qed

lemma ht_bucketI:
  assumes "ht_inv h"
  shows "ht_bucket h k = Some (ht_htable h ! unat (ht_hash_value h k)) \<and>
    unat (ht_hash_value h k) < length (ht_htable h)"
  using assms by (simp add: ht_inv_def ht_user_ok_def ht_bucket_def word_less_nat_alt Let_def)

lemma ht_map_bucket:
  assumes "ht_inv h"
  shows "ht_map h k = map_of (ht_htable h ! unat (ht_hash_value h k)) k"
  unfolding ht_map_def
proof (rule map_of_concat)
  show "unat (ht_hash_value h k) < length (ht_htable h)" using ht_bucketI [OF assms] by simp
  show "k \<notin> fst ` set (ht_htable h ! j)" if "j < length (ht_htable h)" "j \<noteq> unat (ht_hash_value h k)" for j
    using assms that by (auto simp: ht_inv_def)
qed

text \<open>A sorted chain split at a key.\<close>

lemma sorted_split:
  assumes "sorted_wrt (<) (map fst xs)" "\<And>n. p n \<longleftrightarrow> k > (fst n :: 'k::linorder)"
  shows "takeWhile p xs = [n \<leftarrow> xs. fst n < k] \<and> dropWhile p xs = [n \<leftarrow> xs. \<not> fst n < k]"
  using assms(1)
proof (induction xs)
  case (Cons x xs)
  show ?case
  proof (cases "fst x < k")
    case False
    with Cons.prems have "\<forall>n \<in> set xs. \<not> fst n < k" by auto
    with False show ?thesis using assms(2) by (simp add: filter_empty_conv filter_id_conv)
  qed (use Cons assms(2) in auto)
qed simp

lemma map_of_split:
  assumes "sorted_wrt (<) (map fst xs)" "dropWhile p xs = cur" "\<And>n. p n \<longleftrightarrow> k > (fst n :: 'k::linorder)"
  shows "map_of xs k = (if cur = [] \<or> fst (hd cur) \<noteq> k then None else Some (snd (hd cur)))"
  using assms(1,2)
proof (induction xs arbitrary: cur)
  case (Cons x xs)
  show ?case
  proof (cases "fst x < k")
    case True
    have "p x" using True assms(3) by simp
    with True Cons.prems have "dropWhile p xs = cur" "sorted_wrt (<) (map fst xs)" "fst x \<noteq> k" by auto
    with Cons.IH show ?thesis by (cases x) simp
  next
    case False
    with Cons.prems assms(3) have "cur = x # xs" by simp
    moreover have "map_of xs k = None" if "fst x \<noteq> k"
      using Cons.prems(1) that False by (auto simp: map_of_eq_None_iff)
    ultimately show ?thesis by (cases x) auto
  qed
qed auto

lemma hashtab_search_map:
  assumes "ht_inv h"
  shows "hashtab_search h k = Some (ht_map h k)"
proof -
  let ?c = "ht_htable h ! unat (ht_hash_value h k)"
  have cmp: "ht_before h k n \<longleftrightarrow> k > fst n" "ht_keycmp h k (fst n) = 0 \<longleftrightarrow> fst n = k" for n
    using assms by (auto simp: ht_inv_def ht_user_ok_def ht_before_def)
  have "sorted_wrt (<) (map fst ?c)" using assms ht_bucketI [OF assms, of k] by (simp add: ht_inv_def)
  from map_of_split [OF this refl cmp(1)] cmp(2) show ?thesis
    using ht_bucketI [OF assms, of k]
    by (auto simp: hashtab_search_def ht_map_bucket [OF assms] Let_def)
qed

lemma map_of_insert_split:
  "k \<notin> fst ` set xs \<Longrightarrow> map_of (xs @ (k, d) # ys) x = (if x = k then Some d else map_of (xs @ ys) x)"
  by (induction xs) auto

lemma length_concat_update:
  "i < length xss \<Longrightarrow> length (concat (xss[i := xs])) + length (xss ! i) = length (concat xss) + length xs"
  by (induction xss arbitrary: i) (auto split: nat.split)

text \<open>The entries counted are the keys of the map.\<close>

lemma distinct_buckets:
  "(\<And>i. i < length xss \<Longrightarrow> distinct (map fst (xss ! i)) \<and> (\<forall>n \<in> set (xss ! i). hash (fst n) = k + i)) \<Longrightarrow>
   distinct (map fst (concat xss))"
proof (induction xss arbitrary: k)
  case (Cons xs xss)
  have tl: "distinct (map fst (xss ! i)) \<and> (\<forall>n \<in> set (xss ! i). hash (fst n) = Suc k + i)" if "i < length xss" for i
    using Cons.prems [of "Suc i"] that by simp
  have "hash (fst n) > k" if n: "n \<in> set (concat xss)" for n
  proof -
    obtain ns where "ns \<in> set xss" "n \<in> set ns" using n by auto
    then obtain i where "i < length xss" "n \<in> set (xss ! i)" by (metis in_set_conv_nth)
    with tl [of i] show ?thesis by auto
  qed
  then have "fst ` set xs \<inter> fst ` set (concat xss) = {}" using Cons.prems [of 0] by fastforce
  with Cons.IH [of "Suc k"] tl Cons.prems [of 0] show ?case by simp
qed simp

lemma ht_card:
  assumes "ht_inv h" shows "card (dom (ht_map h)) = unat (ht_num h)"
proof -
  have "distinct (map fst (concat (ht_htable h)))"
    by (rule distinct_buckets [where hash = "\<lambda>k. unat (ht_hash_value h k)" and k = 0])
      (use assms in \<open>auto simp: ht_inv_def strict_sorted_iff\<close>)
  then have "card (fst ` set (concat (ht_htable h))) = length (concat (ht_htable h))"
    using distinct_card [of "map fst (concat (ht_htable h))"] by simp
  then show ?thesis using assms by (simp add: ht_map_def dom_map_of_conv_image_fst ht_inv_def)
qed

lemma ht_full: "ht_inv h \<Longrightarrow> ht_num h = ht_max_num h \<longleftrightarrow> card (dom (ht_map h)) = unat (ht_max_num h)"
  by (simp add: ht_card word_unat_eq_iff)

lemma ht_inv_update:
  assumes "ht_inv h" "sorted_wrt (<) (map fst xs)" "\<forall>n \<in> set xs. unat (ht_hash_value h (fst n)) = i"
    "unat m = length (concat ((ht_htable h)[i := xs]))" "m \<le> ht_max_num h"
  shows "ht_inv (h\<lparr> ht_htable := (ht_htable h)[i := xs], ht_num := m \<rparr>)"
proof -
  have "(ht_htable h)[i := xs] ! j = (if j = i then xs else ht_htable h ! j)" if "j < length (ht_htable h)" for j
    using that by (auto simp: nth_list_update)
  with assms show ?thesis by (simp add: ht_inv_def)
qed

lemma hashtab_insert_new:
  assumes inv: "ht_inv h" and n: "ht_num h \<noteq> ht_max_num h" and new: "ht_map h k = None"
  shows "\<exists>h'. hashtab_insert True h k d = Some (Inr (), h') \<and> ht_inv h' \<and> ht_map h' = (ht_map h)(k \<mapsto> d) \<and>
    ht_max_num h' = ht_max_num h"
proof -
  let ?i = "unat (ht_hash_value h k)" and ?c = "ht_htable h ! unat (ht_hash_value h k)"
  let ?p = "ht_before h k"
  have cmp: "?p n \<longleftrightarrow> k > fst n" "ht_keycmp h k (fst n) = 0 \<longleftrightarrow> fst n = k" for n
    using inv by (auto simp: ht_inv_def ht_user_ok_def ht_before_def)
  have i: "?i < length (ht_htable h)" using ht_bucketI [OF inv] by simp
  have s: "sorted_wrt (<) (map fst ?c)" using inv i by (simp add: ht_inv_def)
  note split = sorted_split [OF s cmp(1)]
  have notin: "k \<notin> fst ` set ?c"
    using new by (simp add: ht_map_bucket [OF inv] map_of_eq_None_iff)
  have ex: "\<not> (dropWhile ?p ?c \<noteq> [] \<and> ht_keycmp h k (fst (hd (dropWhile ?p ?c))) = 0)"
    using notin cmp(2) by (metis (no_types, lifting) hd_in_set image_eqI set_dropWhileD)
  let ?xs = "takeWhile ?p ?c @ (k, d) # dropWhile ?p ?c"
  let ?h = "h\<lparr> ht_htable := (ht_htable h)[?i := ?xs], ht_num := ht_num h + 1 \<rparr>"
  have step: "hashtab_insert True h k d = Some (Inr (), ?h)"
    using n ex ht_bucketI [OF inv, of k] by (auto simp: hashtab_insert_def Let_def)
  have set_xs: "set ?xs = insert (k, d) (set ?c)"
    by (metis Un_insert_right list.simps(15) set_append takeWhile_dropWhile_id)
  have "sorted_wrt (<) (map fst ?xs)"
    using s notin unfolding split
    by (auto simp: sorted_wrt_append sorted_wrt_map split intro: sorted_wrt_filter)
      (metis image_eqI linorder_neqE fst_conv)
  moreover have "unat (ht_hash_value h (fst n)) = ?i" if "n \<in> set ?xs" for n
    using that inv i unfolding set_xs by (auto simp: ht_inv_def)
  moreover have "ht_num h < ht_max_num h" using n inv unfolding ht_inv_def by (meson order_neq_le_trans)
  then have num: "unat (ht_num h + 1) = unat (ht_num h) + 1" "ht_num h + 1 \<le> ht_max_num h"
    using unat_u32_less [of "ht_max_num h"] by (simp_all add: inc_le word_less_nat_alt unat_word_ariths)
  moreover have "length ?xs = Suc (length ?c)" by (metis length_append length_Cons add_Suc_right takeWhile_dropWhile_id)
  then have "unat (ht_num h + 1) = length (concat ((ht_htable h)[?i := ?xs]))"
    using length_concat_update [OF i, of ?xs] num(1) inv by (simp add: ht_inv_def)
  ultimately have inv': "ht_inv ?h" by (intro ht_inv_update inv) auto
  have "ht_map ?h x = ((ht_map h)(k \<mapsto> d)) x" for x
  proof (cases "?i = unat (ht_hash_value h x)")
    case True
    have "map_of ?xs x = (if x = k then Some d else map_of ?c x)"
    proof -
      have "k \<notin> fst ` set (takeWhile ?p ?c)" using notin by (auto dest: set_takeWhileD)
      from map_of_insert_split [OF this, of d "dropWhile ?p ?c" x] show ?thesis
        by (simp only: takeWhile_dropWhile_id)
    qed
    with True i inv inv' show ?thesis by (simp add: ht_map_bucket del: map_of_append)
  next
    case False
    with i inv inv' show ?thesis by (auto simp: ht_map_bucket)
  qed
  with step inv' show ?thesis by auto
qed

lemma hashtab_insert_dup:
  assumes inv: "ht_inv h" and n: "ht_num h \<noteq> ht_max_num h" and dup: "ht_map h k = Some d'"
  shows "hashtab_insert ok h k d = Some (Inl HASHTAB_ERROR_EXIST, h)"
proof -
  have "hashtab_search h k = Some (Some d')" using hashtab_search_map [OF inv] dup by simp
  with n ht_bucketI [OF inv, of k] show ?thesis
    by (auto simp: hashtab_insert_def hashtab_search_def Let_def split: if_splits)
qed

lemma hashtab_create_empty:
  assumes "ht_inv h"
  shows "\<exists>h0. hashtab_create True True (ht_hash_value h) (ht_keycmp h) (ht_bucket_size h) (ht_max_num h) = Some h0 \<and>
    ht_inv h0 \<and> ht_map h0 = Map.empty \<and> ht_max_num h0 = ht_max_num h"
  using assms by (simp add: hashtab_create_def ht_inv_def ht_map_def)

section \<open>Properties\<close>

text \<open>C39: The hash table is a map of at most \<open>max_num\<close> entries. For a hash function whose values are below the
  number of buckets and a comparison that is a linear order, a new table is the empty map; searching looks
  the key up; inserting fails exactly when the map has \<open>max_num\<close> keys, has the key or memory is out, and
  else adds the key. The invariant, with the number of entries counted right, is kept.\<close>

theorem hashtab_refines_map:
  assumes "ht_inv h"
  shows "hashtab_search h k = Some (ht_map h k) \<and>
    (card (dom (ht_map h)) = unat (ht_max_num h) \<longrightarrow> hashtab_insert ok h k d = Some (Inl HASHTAB_ERROR_OVER_MAX_NUM, h)) \<and>
    (card (dom (ht_map h)) \<noteq> unat (ht_max_num h) \<and> ht_map h k \<noteq> None \<longrightarrow>
       hashtab_insert ok h k d = Some (Inl HASHTAB_ERROR_EXIST, h)) \<and>
    (card (dom (ht_map h)) \<noteq> unat (ht_max_num h) \<and> ht_map h k = None \<longrightarrow>
       hashtab_insert False h k d = Some (Inl HASHTAB_ERROR_NO_MEMORY, h) \<and>
       (\<exists>h'. hashtab_insert True h k d = Some (Inr (), h') \<and> ht_inv h' \<and> ht_map h' = (ht_map h)(k \<mapsto> d) \<and>
          ht_max_num h' = ht_max_num h)) \<and>
    (\<exists>h0. hashtab_create True True (ht_hash_value h) (ht_keycmp h) (ht_bucket_size h) (ht_max_num h) = Some h0 \<and>
       ht_inv h0 \<and> ht_map h0 = Map.empty \<and> ht_max_num h0 = ht_max_num h)"
proof -
  have "hashtab_insert False h k d = Some (Inl HASHTAB_ERROR_NO_MEMORY, h)"
    if "ht_num h \<noteq> ht_max_num h" "ht_map h k = None"
    using hashtab_search_map [OF assms, of k] ht_bucketI [OF assms, of k] that
    by (auto simp: hashtab_insert_def hashtab_search_def Let_def split: if_splits)
  moreover have "hashtab_insert ok h k d = Some (Inl HASHTAB_ERROR_OVER_MAX_NUM, h)"
    if "ht_num h = ht_max_num h" using that by (simp add: hashtab_insert_def)
  ultimately show ?thesis
    using hashtab_search_map [OF assms] hashtab_insert_dup [OF assms] hashtab_insert_new [OF assms]
      hashtab_create_empty [OF assms] unfolding ht_full [OF assms, symmetric] by auto
qed

text \<open>A table of two buckets by parity, holding 2 and 4.\<close>

definition parity_table :: "(nat, nat) hashtab" where
  "parity_table = \<lparr> ht_htable = [[(2, 20), (4, 40)], []], ht_bucket_size = 2, ht_num = 2, ht_max_num = 8,
     ht_hash_value = (\<lambda>k. of_nat (k mod 2)), ht_keycmp = three_way \<rparr>"

lemma parity_table_inv: "ht_inv parity_table"
proof -
  have "(of_nat (k mod 2) :: u32) < 2" for k
  proof -
    have "k mod 2 = 0 \<or> k mod 2 = 1" by auto
    then show ?thesis by auto
  qed
  then show ?thesis
    by (auto simp: ht_inv_def ht_user_ok_def parity_table_def three_way_def less_Suc_eq)
qed

theorem hashtab_refines_map_witness:
  "\<exists>h'. hashtab_insert True parity_table 3 30 = Some (Inr (), h') \<and> ht_inv h' \<and> ht_map h' 3 = Some 30 \<and>
     ht_map h' 2 = Some 20 \<and> hashtab_insert True parity_table 4 41 = Some (Inl HASHTAB_ERROR_EXIST, parity_table)"
proof -
  have "ht_map parity_table 3 = None" "ht_map parity_table 2 = Some 20" "ht_map parity_table 4 = Some 40"
    "card (dom (ht_map parity_table)) \<noteq> unat (ht_max_num parity_table)"
    using ht_card [OF parity_table_inv] by (simp_all add: ht_map_def parity_table_def)
  then show ?thesis
    using hashtab_refines_map [OF parity_table_inv, of 3 True 30]
      hashtab_refines_map [OF parity_table_inv, of 4 True 41] by auto
qed

end
