(* ===== verification/CmdUi.thy ===== *)
theory CmdUi
  imports OfsPrelude "HOL-Library.Monad_Syntax" "HOL-Library.Sublist"
begin

text \<open>
  The command line of the tools, \<open>public/cmd_ui.c\<close>: splitting a line into arguments in place, and
  choosing the command to run. A line is a memory buffer that holds a C string from offset 0; an
  argument is an offset into it.
\<close>

section \<open>Splitting a line\<close>

partial_function (option) format_cmd :: "buf \<Rightarrow> nat \<Rightarrow> buf option" where
  "format_cmd m c =
     (if m c = 0 then Some m
      else if m c = 10 then Some (m(c := 0))
      else format_cmd m (c + 1))"

text \<open>\<open>while (' ' == *c) *c++ = '\0'\<close>, and the loop to the end of the word.\<close>

partial_function (option) skip_blanks :: "buf \<Rightarrow> nat \<Rightarrow> (buf \<times> nat) option" where
  "skip_blanks m c = (if m c = 32 then skip_blanks (m(c := 0)) (c + 1) else Some (m, c))"

partial_function (option) skip_word :: "buf \<Rightarrow> nat \<Rightarrow> nat option" where
  "skip_word m c =
     (if m c \<noteq> 32 \<and> m c \<noteq> 0 \<and> m c \<noteq> 10 \<and> m c \<noteq> 13 then skip_word m (c + 1) else Some c)"

text \<open>The \<open>for\<close> loop; \<open>argv\<close> holds the arguments so far. The array has \<open>argc\<close> elements.\<close>

partial_function (option) parse_loop :: "nat \<Rightarrow> buf \<Rightarrow> nat \<Rightarrow> nat list \<Rightarrow> (nat list \<times> buf) option" where
  "parse_loop argc m c argv =
     (if m c = 10 \<or> m c = 13 then Some (argv, m(c := 0))
      else if m c = 0 then Some (argv, m)
      else do {
        (m, c) \<leftarrow> skip_blanks m c;
        if length argv \<ge> argc then None
        else
          let argv = argv @ [c] in
          if length argv \<ge> argc then Some (argv, m)
          else do { c \<leftarrow> skip_word m c; parse_loop argc m c argv } })"

definition parse_cmd :: "buf \<Rightarrow> nat \<Rightarrow> (nat list \<times> buf) option" where
  "parse_cmd m argc = parse_loop argc m 0 []"

section \<open>Choosing a command\<close>

text \<open>
  \<open>os_cmd_list_t\<close>: the levels up to the first NULL, at least one and at most \<open>MAX_CMD_LEVEL\<close>. The list
  of commands stops before its closing entry. What a command does is its number here.
\<close>

record os_cmd =
  cmd_func :: nat
  cmd_level :: "u8 list list"

definition MAX_CMD_LEVEL :: nat where "MAX_CMD_LEVEL = 3"
definition MAX_SUB_CMD_NUM :: nat where "MAX_SUB_CMD_NUM = 10"

text \<open>What \<open>execute_cmd\<close> does: a call with its arguments, or what it prints, or quitting.\<close>

datatype cmd_action = Call nat "u8 list list" | Show_List | Show_Sub "os_cmd list" | Quit

text \<open>The \<open>for\<close> loop over the levels; the result is \<open>level\<close> behind it.\<close>

fun match_level :: "u8 list list \<Rightarrow> u8 list list \<Rightarrow> nat \<Rightarrow> nat \<Rightarrow> nat" where
  "match_level ls argv level 0 = level"
| "match_level ls argv level (Suc n) =
     (if level \<ge> length argv then level
      else if level \<ge> length ls then level
      else if ls ! level \<noteq> argv ! level then level
      else match_level ls argv (level + 1) n)"

text \<open>
  The loop over the commands: the candidate so far with its number of levels (\<open>tmp_cmd\<close> and
  \<open>tmp_num\<close>), and the sub-commands; writing past the end of \<open>sub_cmd\<close> is \<open>None\<close>.
\<close>

fun exec_loop :: "u8 list list \<Rightarrow> os_cmd list \<Rightarrow> os_cmd option \<Rightarrow> nat \<Rightarrow> os_cmd list \<Rightarrow>
    (os_cmd option \<times> nat \<times> os_cmd list) option" where
  "exec_loop argv [] tmp_cmd tmp_num sub = Some (tmp_cmd, tmp_num, sub)"
| "exec_loop argv (cmd # cmds) tmp_cmd tmp_num sub =
     (let level = match_level (cmd_level cmd) argv 0 MAX_CMD_LEVEL in
      if level = MAX_CMD_LEVEL then Some (Some cmd, level, sub)
      else if level \<ge> length (cmd_level cmd) then
        (if level = length argv then Some (Some cmd, level, sub)
         else if level > tmp_num then exec_loop argv cmds (Some cmd) level sub
         else if level > length argv then
           (if length sub \<ge> MAX_SUB_CMD_NUM then None
            else exec_loop argv cmds tmp_cmd tmp_num (sub @ [cmd]))
         else exec_loop argv cmds tmp_cmd tmp_num sub)
      else exec_loop argv cmds tmp_cmd tmp_num sub)"

definition cmd_help :: "u8 list" where "cmd_help = [104, 101, 108, 112]"
definition cmd_quit :: "u8 list" where "cmd_quit = [113, 117, 105, 116]"

definition execute_cmd :: "u8 list list \<Rightarrow> os_cmd list \<Rightarrow> cmd_action option" where
  "execute_cmd argv cmd_list =
     (if argv = [] then None
      else if argv ! 0 = cmd_help then Some Show_List
      else if argv ! 0 = cmd_quit then Some Quit
      else do {
        (tmp_cmd, tmp_num, sub) \<leftarrow> exec_loop argv cmd_list None 0 [];
        case tmp_cmd of
          Some cmd \<Rightarrow> Some (Call (cmd_func cmd) (drop (tmp_num - 1) argv))
        | None \<Rightarrow> if sub \<noteq> [] then Some (Show_Sub sub) else Some Show_List })"

text \<open>
  The parameter that follows \<open>para\<close>. \<open>has_content\<close> is whether the caller passed a buffer; writing
  through NULL is \<open>None\<close>. The content is cut to its size by \<open>snprintf\<close>, which writes nothing for the size 0.
\<close>

definition os_parse_para :: "u8 list list \<Rightarrow> u8 list \<Rightarrow> bool \<Rightarrow> nat \<Rightarrow> (int \<times> u8 list option) option" where
  "os_parse_para argv para has_content content_size =
     (let i = length (takeWhile (\<lambda>a. a \<noteq> para) argv) in
      if i = length argv then Some (-2, None)
      else if i = length argv - 1 then
        (if \<not> has_content then Some (0, None) else Some (0, Some []))
      else if content_size = 0 then Some (0, None)
      else if \<not> has_content then None
      else Some (0, Some (take (content_size - 1) (argv ! (i + 1)))))"

text \<open>The C string at an offset.\<close>

partial_function (option) c_string :: "buf \<Rightarrow> nat \<Rightarrow> u8 list option" where
  "c_string m c = (if m c = 0 then Some [] else do { s \<leftarrow> c_string m (c + 1); Some (m c # s) })"

fun c_strings :: "buf \<Rightarrow> nat list \<Rightarrow> u8 list list option" where
  "c_strings m [] = Some []"
| "c_strings m (c # cs) = do { s \<leftarrow> c_string m c; ss \<leftarrow> c_strings m cs; Some (s # ss) }"

definition CMD_MAX_ARGS :: nat where "CMD_MAX_ARGS = 512"

text \<open>No action is what a failed \<open>malloc\<close> or an empty line leaves; else the action tells whether to go on.\<close>

definition parse_and_exec_cmd :: "bool \<Rightarrow> buf \<Rightarrow> os_cmd list \<Rightarrow> cmd_action option option" where
  "parse_and_exec_cmd ok m cmd_list =
     (if \<not> ok then Some None
      else do {
        (argv, m) \<leftarrow> parse_cmd m CMD_MAX_ARGS;
        if argv = [] then Some None
        else do {
          args \<leftarrow> c_strings m argv;
          act \<leftarrow> execute_cmd args cmd_list;
          Some (Some act) } })"

section \<open>Splitting: lemmas\<close>

definition stop_byte :: "u8 \<Rightarrow> bool" where
  "stop_byte b \<longleftrightarrow> b = 32 \<or> b = 0 \<or> b = 10 \<or> b = 13"

text \<open>A line as gaps of blanks and the words behind them; where the words start.\<close>

fun gap_text :: "(nat \<times> u8 list) list \<Rightarrow> u8 list" where
  "gap_text [] = []"
| "gap_text ((g, w) # r) = replicate g 32 @ w @ gap_text r"

fun starts :: "nat \<Rightarrow> (nat \<times> u8 list) list \<Rightarrow> nat list" where
  "starts c [] = []"
| "starts c ((g, w) # r) = (c + g) # starts (c + g + length w) r"

text \<open>The blanks among \<open>n\<close> bytes cleared.\<close>

definition zap :: "buf \<Rightarrow> nat \<Rightarrow> nat \<Rightarrow> buf" where
  "zap m c n = (\<lambda>i. if c \<le> i \<and> i < c + n \<and> m i = 32 then 0 else m i)"

lemma skip_blanks_gap:
  "\<forall>i < g. m (c + i) = 32 \<Longrightarrow> m (c + g) \<noteq> 32 \<Longrightarrow> skip_blanks m c = Some (zap m c g, c + g)"
proof (induction g arbitrary: m c)
  case 0
  then show ?case by (simp add: skip_blanks.simps [of m c] zap_def fun_eq_iff)
next
  case (Suc g)
  from Suc.prems have m: "m c = 32" by (metis add.right_neutral zero_less_Suc)
  have "skip_blanks (m(c := 0)) (c + 1) = Some (zap (m(c := 0)) (c + 1) g, c + 1 + g)"
    using Suc.prems by (intro Suc.IH) auto
  moreover have "zap (m(c := 0)) (c + 1) g = zap m c (Suc g)"
    using m by (auto simp: zap_def fun_eq_iff)
  ultimately show ?case using m by (simp add: skip_blanks.simps [of m c])
qed

lemma skip_word_end:
  "\<forall>i < n. \<not> stop_byte (m (c + i)) \<Longrightarrow> stop_byte (m (c + n)) \<Longrightarrow> skip_word m c = Some (c + n)"
proof (induction n arbitrary: c)
  case 0
  then show ?case by (auto simp: skip_word.simps [of m c] stop_byte_def)
next
  case (Suc n)
  then have "\<not> stop_byte (m c)" by (metis add.right_neutral zero_less_Suc)
  moreover have "skip_word m (c + 1) = Some (c + 1 + n)" using Suc.prems by (intro Suc.IH) auto
  ultimately show ?case by (simp add: skip_word.simps [of m c] stop_byte_def)
qed

text \<open>A word has no stop byte; between two words there is a gap. The last word may be empty.\<close>

fun gaps_ok :: "(nat \<times> u8 list) list \<Rightarrow> bool" where
  "gaps_ok [] = True"
| "gaps_ok ((g, w) # r) = ((\<forall>b \<in> set w. \<not> stop_byte b) \<and> (g = 0 \<longrightarrow> w \<noteq> []) \<and>
     (case r of [] \<Rightarrow> True | (g', w') # _ \<Rightarrow> 0 < g' \<and> w \<noteq> []) \<and> gaps_ok r)"

lemma rd_eq_nth: "rd m c (length xs) = xs \<longleftrightarrow> (\<forall>i < length xs. m (c + i) = xs ! i)"
  by (auto simp: list_eq_iff_nth_eq)

lemma rd_append_iff:
  "rd m c (length (xs @ ys)) = xs @ ys \<longleftrightarrow>
     rd m c (length xs) = xs \<and> rd m (c + length xs) (length ys) = ys"
  by (simp add: rd_add)

lemma parse_loop_words:
  assumes "rd m c (length (gap_text gws)) = gap_text gws" "m (c + length (gap_text gws)) = e"
    "e = 0 \<or> e = 10 \<or> e = 13" "gaps_ok gws" "length argv + length gws < argc"
  shows "parse_loop argc m c argv = Some (argv @ starts c gws,
    (zap m c (length (gap_text gws)))(c + length (gap_text gws) := 0))"
  using assms
proof (induction gws arbitrary: m c argv)
  case Nil
  then show ?case by (auto simp: parse_loop.simps [of argc m c] zap_def fun_eq_iff)
next
  case (Cons gw r)
  obtain g w where gw: "gw = (g, w)" by (cases gw)
  let ?n = "length (gap_text r)"
  have rest: "rd m c (length (replicate g (32 :: u8))) = replicate g 32" "rd m (c + g) (length w) = w"
    "rd m (c + g + length w) ?n = gap_text r" and e: "m (c + g + length w + ?n) = e"
    using Cons.prems(1,2) unfolding gw
    by (simp_all only: gap_text.simps rd_append_iff) (simp_all add: add.assoc)
  have blanks: "\<forall>i < g. m (c + i) = 32" using rest(1) by (simp only: rd_eq_nth) simp
  have w: "\<forall>i < length w. m (c + g + i) = w ! i" using rest(2) by (simp only: rd_eq_nth)
  have ok: "\<forall>b \<in> set w. \<not> stop_byte b" "g = 0 \<longrightarrow> w \<noteq> []" "gaps_ok r" using Cons.prems(4) gw by auto
  have after: "stop_byte (m (c + g + length w))"
  proof (cases r)
    case Nil
    then show ?thesis using e Cons.prems(3) by (auto simp: stop_byte_def)
  next
    case (Cons gw' r')
    with Cons.prems(4) gw obtain g' w' where "gw' = (Suc g', w')" by (cases gw'; cases "fst gw'") auto
    with Cons rest(3) have "m (c + g + length w) = 32" by (simp add: rd_Suc)
    then show ?thesis by (simp add: stop_byte_def)
  qed
  have nb: "m (c + g) \<noteq> 32"
  proof (cases w)
    case Nil
    with Cons.prems(4) gw have "r = []" by (auto split: list.splits)
    with Nil e Cons.prems(3) show ?thesis by auto
  next
    case (Cons b w')
    with ok(1) w show ?thesis by (auto simp: stop_byte_def)
  qed
  have head: "\<not> (m c = 10 \<or> m c = 13)" "m c \<noteq> 0"
  proof -
    have "m c = 32 \<or> \<not> stop_byte (m c)"
    proof (cases g)
      case 0
      with ok(1,2) w show ?thesis by (cases w) auto
    qed (use blanks in auto)
    then show "\<not> (m c = 10 \<or> m c = 13)" "m c \<noteq> 0" by (auto simp: stop_byte_def)
  qed
  let ?m = "zap m c g" and ?c = "c + g + length w"
  have m1: "?m i = m i" if "c + g \<le> i" for i using that by (simp add: zap_def)
  have word: "skip_word ?m (c + g) = Some ?c"
    using ok(1) w after by (intro skip_word_end) (auto simp: m1)
  have "rd ?m ?c ?n = gap_text r" using rest(3) by (simp add: rd_eq_nth m1)
  then have "parse_loop argc ?m ?c (argv @ [c + g]) =
      Some ((argv @ [c + g]) @ starts ?c r, (zap ?m ?c ?n)(?c + ?n := 0))"
    using Cons.prems(3,5) e ok(3) by (intro Cons.IH) (auto simp: m1)
  moreover have "(zap ?m ?c ?n)(?c + ?n := 0) = (zap m c (g + length w + ?n))(?c + ?n := 0)"
  proof -
    have "m i \<noteq> 32" if "c + g \<le> i" "i < ?c" for i
    proof -
      from that obtain j where "i = c + g + j" "j < length w" by (metis add_less_cancel_left le_Suc_ex)
      with w ok(1) show ?thesis by (auto simp: stop_byte_def)
    qed
    then show ?thesis by (auto simp: zap_def fun_eq_iff) (meson leI)
  qed
  ultimately show ?case
    using head Cons.prems(5) skip_blanks_gap [OF blanks nb] word gw
    by (simp add: parse_loop.simps [of argc m c] add.assoc fun_upd_def)
qed

text \<open>Reading the arguments back from the buffer after the split.\<close>

lemma c_string_at:
  "rd m c (length s) = s \<Longrightarrow> 0 \<notin> set s \<Longrightarrow> m (c + length s) = 0 \<Longrightarrow> c_string m c = Some s"
proof (induction s arbitrary: c)
  case Nil
  then show ?case by (simp add: c_string.simps [of m c])
next
  case (Cons b s)
  then have "c_string m (c + 1) = Some s" "m c = b" "b \<noteq> 0" by (auto simp: rd_Suc)
  then show ?case by (simp add: c_string.simps [of m c])
qed

lemma c_strings_starts:
  assumes "rd m c (length (gap_text gws)) = gap_text gws" "gaps_ok gws"
    "\<And>i. i < length (gap_text gws) \<Longrightarrow> z (c + i) = (if m (c + i) = 32 then 0 else m (c + i))"
    "z (c + length (gap_text gws)) = 0"
  shows "c_strings z (starts c gws) = Some (map snd gws)"
  using assms
proof (induction gws arbitrary: c)
  case Nil
  then show ?case by simp
next
  case (Cons gw r)
  obtain g w where gw: "gw = (g, w)" by (cases gw)
  let ?n = "length (gap_text r)"
  have rest: "rd m (c + g) (length w) = w" "rd m (c + g + length w) ?n = gap_text r"
    using Cons.prems(1) unfolding gw
    by (simp_all only: gap_text.simps rd_append_iff) (simp_all add: add.assoc)
  have ok: "\<forall>b \<in> set w. \<not> stop_byte b" "gaps_ok r" using Cons.prems(2) gw by auto
  have z: "z (c + j) = (if m (c + j) = 32 then 0 else m (c + j))" if "j < g + length w + ?n" for j
    using Cons.prems(3) [of j] that gw by simp
  have zw: "rd z (c + g) (length w) = w"
  proof -
    have "z (c + g + i) = w ! i" if "i < length w" for i
    proof -
      have "m (c + g + i) = w ! i" using rest(1) that by (simp only: rd_eq_nth)
      moreover have "w ! i \<noteq> 32" using ok(1) that by (auto simp: stop_byte_def dest: nth_mem)
      ultimately show ?thesis using z [of "g + i"] that by (simp add: add.assoc)
    qed
    then show ?thesis by (simp add: rd_eq_nth)
  qed
  have "z (c + g + length w) = 0"
  proof (cases r)
    case Nil
    with Cons.prems(4) gw show ?thesis by (simp add: add.assoc)
  next
    case (Cons gw' r')
    with Cons.prems(2) gw obtain g' w' where "gw' = (Suc g', w')" by (cases gw'; cases "fst gw'") auto
    with Cons rest(2) have "m (c + (g + length w)) = 32" "0 < ?n" by (simp_all add: rd_Suc add.assoc)
    then show ?thesis using z [of "g + length w"] by (simp add: add.assoc)
  qed
  moreover have "0 \<notin> set w" using ok(1) by (auto simp: stop_byte_def)
  ultimately have "c_string z (c + g) = Some w" using zw by (intro c_string_at) auto
  moreover have "c_strings z (starts (c + g + length w) r) = Some (map snd r)"
    using rest(2) ok(2) z Cons.prems(4) gw by (intro Cons.IH) (auto simp: add.assoc)
  ultimately show ?case using gw by simp
qed

text \<open>What \<open>parse_cmd\<close> gives for a line, as the list of its arguments.\<close>

definition split_line :: "buf \<Rightarrow> u8 list list option" where
  "split_line m = do { (argv, m) \<leftarrow> parse_cmd m CMD_MAX_ARGS; c_strings m argv }"

lemma split_line_gaps:
  assumes "rd m 0 (length (gap_text gws)) = gap_text gws" "m (length (gap_text gws)) \<in> {0, 10, 13}"
    "gaps_ok gws" "length gws < CMD_MAX_ARGS"
  shows "split_line m = Some (map snd gws)"
proof -
  let ?n = "length (gap_text gws)"
  have "parse_cmd m CMD_MAX_ARGS = Some (starts 0 gws, (zap m 0 ?n)(?n := 0))"
    using parse_loop_words [of m 0 gws _ "[]" CMD_MAX_ARGS] assms by (auto simp: parse_cmd_def)
  moreover have "c_strings ((zap m 0 ?n)(?n := 0)) (starts 0 gws) = Some (map snd gws)"
    by (rule c_strings_starts [of m]) (use assms in \<open>auto simp: zap_def\<close>)
  ultimately show ?thesis by (simp add: split_line_def)
qed

section \<open>Properties\<close>

text \<open>A line of words, each behind one or more blanks, the first one behind none or more.\<close>

definition is_word :: "u8 list \<Rightarrow> bool" where
  "is_word w \<longleftrightarrow> w \<noteq> [] \<and> (\<forall>b \<in> set w. \<not> stop_byte b)"

lemma gaps_ok_words:
  "\<forall>(g, w) \<in> set gws. is_word w \<Longrightarrow> \<forall>(g, w) \<in> set (tl gws). 0 < g \<Longrightarrow> gaps_ok gws"
proof (induction gws)
  case (Cons gw r)
  then have "gaps_ok r" by (cases r) auto
  with Cons.prems show ?case by (cases gw; cases r) (auto simp: is_word_def)
qed simp

text \<open>\<open>parse_cmd\<close> splits a line that ends in a newline, a carriage return or the end of the string into
  exactly its words, however many blanks are between and before them: it returns, and the strings at the
  argument pointers, in the buffer it has changed, are the words in order.\<close>

theorem parse_cmd_words:
  assumes "\<forall>(g, w) \<in> set gws. is_word w" "\<forall>(g, w) \<in> set (tl gws). 0 < g" "length gws < CMD_MAX_ARGS"
    "rd m 0 (length (gap_text gws)) = gap_text gws" "m (length (gap_text gws)) \<in> {0, 10, 13}"
  shows "\<exists>argv m'. parse_cmd m CMD_MAX_ARGS = Some (argv, m') \<and> c_strings m' argv = Some (map snd gws)"
  using split_line_gaps [OF assms(4,5) gaps_ok_words [OF assms(1,2)] assms(3)]
  by (auto simp: split_line_def bind_eq_Some_conv)

theorem parse_cmd_words_witness:
  "\<exists>argv m'. parse_cmd (wr (\<lambda>_. 0) 0 [32, 108, 115, 32, 32, 97, 10]) CMD_MAX_ARGS = Some (argv, m') \<and>
     c_strings m' argv = Some [[108, 115], [97]]"
proof -
  let ?m = "wr (\<lambda>_. 0) 0 [32, 108, 115, 32, 32, 97, 10]" and ?gws = "[(1 :: nat, [108, 115]), (2, [97])]"
  have g: "gap_text ?gws = [32, 108, 115, 32, 32, 97]" by (simp add: numeral_2_eq_2)
  have "\<exists>argv m'. parse_cmd ?m CMD_MAX_ARGS = Some (argv, m') \<and> c_strings m' argv = Some (map snd ?gws)"
  proof (rule parse_cmd_words)
    show "rd ?m 0 (length (gap_text ?gws)) = gap_text ?gws" unfolding g by (simp add: rd_wr_prefix)
    show "?m (length (gap_text ?gws)) \<in> {0, 10, 13}" unfolding g by (simp add: wr_def)
  qed (auto simp: is_word_def stop_byte_def CMD_MAX_ARGS_def)
  then show ?thesis by simp
qed

text \<open>Blanks behind the last word give one more argument, the empty string.\<close>

theorem parse_cmd_trailing_blanks:
  assumes "\<forall>(g, w) \<in> set gws. is_word w" "\<forall>(g, w) \<in> set (tl gws). 0 < g" "length gws + 1 < CMD_MAX_ARGS"
    "0 < k" "rd m 0 (length (gap_text gws) + k) = gap_text gws @ replicate k 32"
    "m (length (gap_text gws) + k) \<in> {0, 10, 13}"
  shows "\<exists>argv m'. parse_cmd m CMD_MAX_ARGS = Some (argv, m') \<and>
    c_strings m' argv = Some (map snd gws @ [[]])"
proof -
  let ?gws = "gws @ [(k, [])]"
  have "gap_text (xs @ [(k, [])]) = gap_text xs @ replicate k 32" for xs
    by (induction xs rule: gap_text.induct) simp_all
  moreover have "gaps_ok gws \<Longrightarrow> \<forall>(g, w) \<in> set gws. is_word w \<Longrightarrow> gaps_ok (gws @ [(k, [])])" for gws
    using assms(4) by (induction gws rule: gaps_ok.induct) (auto simp: is_word_def split: list.splits)
  ultimately have "split_line m = Some (map snd ?gws)"
    using assms gaps_ok_words [OF assms(1,2)] by (intro split_line_gaps) simp_all
  then show ?thesis by (auto simp: split_line_def bind_eq_Some_conv)
qed

theorem parse_cmd_trailing_blanks_witness:
  "\<exists>argv m'. parse_cmd (wr (\<lambda>_. 0) 0 [108, 115, 32]) CMD_MAX_ARGS = Some (argv, m') \<and>
     c_strings m' argv = Some [[108, 115], []]"
proof -
  let ?m = "wr (\<lambda>_. 0) 0 [108, 115, 32]"
  have "?m (Suc (Suc (Suc 0))) = 0" by (simp add: wr_def)
  then show ?thesis
    using parse_cmd_trailing_blanks [of "[(0, [108, 115])]" 1 ?m]
    by (simp add: is_word_def stop_byte_def CMD_MAX_ARGS_def rd_wr_prefix)
qed

text \<open>Matching levels: how far the arguments agree with them.\<close>

lemma match_level_bounds:
  "level \<le> match_level ls argv level n \<and> match_level ls argv level n \<le> level + n"
  by (induction n arbitrary: level) (auto, (metis Suc_leD add_Suc)+)

lemma match_level_prefix:
  "level \<le> length argv \<Longrightarrow> take level ls = take level argv \<Longrightarrow> level \<le> length ls \<Longrightarrow>
   match_level ls argv level n \<le> length argv \<and> match_level ls argv level n \<le> length ls \<and>
   take (match_level ls argv level n) ls = take (match_level ls argv level n) argv"
  by (induction n arbitrary: level) (auto simp: take_Suc_conv_app_nth not_le)

lemma match_level_reaches:
  "prefix ls argv \<Longrightarrow> level \<le> length ls \<Longrightarrow> length ls \<le> level + n \<Longrightarrow> match_level ls argv level n = length ls"
proof (induction n arbitrary: level)
  case (Suc n)
  then show ?case by (cases "level = length ls") (auto simp: prefix_def nth_append)
qed simp

text \<open>A command matches if its levels are the first arguments.\<close>

lemma match_level_iff:
  assumes "length (cmd_level cmd) \<le> MAX_CMD_LEVEL"
  shows "match_level (cmd_level cmd) argv 0 MAX_CMD_LEVEL \<ge> length (cmd_level cmd) \<longleftrightarrow>
    prefix (cmd_level cmd) argv"
    and "prefix (cmd_level cmd) argv \<Longrightarrow>
      match_level (cmd_level cmd) argv 0 MAX_CMD_LEVEL = length (cmd_level cmd)"
proof -
  let ?l = "match_level (cmd_level cmd) argv 0 MAX_CMD_LEVEL"
  show "?l = length (cmd_level cmd)" if "prefix (cmd_level cmd) argv"
    using match_level_reaches [OF that] assms by simp
  then show "?l \<ge> length (cmd_level cmd) \<longleftrightarrow> prefix (cmd_level cmd) argv"
    using match_level_prefix [of 0 argv "cmd_level cmd" MAX_CMD_LEVEL]
    by (auto simp: take_is_prefix) (metis take_is_prefix)
qed

text \<open>The commands that match, and the first of those with the most levels.\<close>

definition matching :: "u8 list list \<Rightarrow> os_cmd list \<Rightarrow> os_cmd list" where
  "matching argv cmds = [c \<leftarrow> cmds. prefix (cmd_level c) argv]"

fun pick :: "os_cmd \<Rightarrow> os_cmd list \<Rightarrow> os_cmd" where
  "pick b [] = b"
| "pick b (c # cs) = pick (if length (cmd_level b) < length (cmd_level c) then c else b) cs"

lemma pick_ge: "length (cmd_level b) \<le> length (cmd_level (pick b cs))"
  by (induction b cs rule: pick.induct) (auto split: if_splits)

lemma pick_top: "\<forall>d \<in> set cs. length (cmd_level d) \<le> length (cmd_level b) \<Longrightarrow> pick b cs = b"
  by (induction cs) auto

lemma pick_max:
  "d = b \<or> d \<in> set cs \<Longrightarrow> length (cmd_level d) \<le> length (cmd_level (pick b cs))"
proof (induction b cs rule: pick.induct)
  case (2 b c cs)
  then show ?case
    using pick_ge [of "if length (cmd_level b) < length (cmd_level c) then c else b" cs]
    by (auto split: if_splits)
qed auto

lemma pick_first:
  "pick b cs = hd [d \<leftarrow> b # cs. length (cmd_level d) = length (cmd_level (pick b cs))]"
proof (induction b cs rule: pick.induct)
  case (2 b c cs)
  then show ?case
    using pick_ge [of b cs] pick_ge [of c cs] by (auto split: if_splits)
qed auto

lemma pick_in: "pick b cs \<in> set (b # cs)"
  by (induction b cs rule: pick.induct) auto

lemma matching_Cons:
  "matching argv (c # cmds) = (if prefix (cmd_level c) argv then c # matching argv cmds else matching argv cmds)"
  by (simp add: matching_def)

lemma matching_le:
  assumes "d \<in> set (matching argv cmds)" "\<forall>c \<in> set cmds. length (cmd_level c) \<le> MAX_CMD_LEVEL"
  shows "length (cmd_level d) \<le> length argv \<and> length (cmd_level d) \<le> MAX_CMD_LEVEL"
  using assms by (auto simp: matching_def dest: prefix_length_le)

text \<open>One round of the loop; no command is ever added to the sub-commands.\<close>

lemma exec_loop_match:
  assumes "prefix (cmd_level c) argv" "length (cmd_level c) \<le> MAX_CMD_LEVEL"
  shows "exec_loop argv (c # cmds) tmp n sub =
    (if length (cmd_level c) = MAX_CMD_LEVEL \<or> length (cmd_level c) = length argv
     then Some (Some c, length (cmd_level c), sub)
     else if n < length (cmd_level c) then exec_loop argv cmds (Some c) (length (cmd_level c)) sub
     else exec_loop argv cmds tmp n sub)"
  using match_level_iff [OF assms(2), of argv] assms prefix_length_le [OF assms(1)]
  by (simp add: Let_def)

lemma exec_loop_no_match:
  assumes "\<not> prefix (cmd_level c) argv" "length (cmd_level c) \<le> MAX_CMD_LEVEL"
  shows "exec_loop argv (c # cmds) tmp n sub = exec_loop argv cmds tmp n sub"
proof -
  have "match_level (cmd_level c) argv 0 MAX_CMD_LEVEL < length (cmd_level c)"
    using match_level_iff(1) [OF assms(2), of argv] assms(1) by simp
  with assms(2) show ?thesis by (simp add: Let_def)
qed

lemma exec_loop_pick:
  assumes "\<forall>c \<in> set cmds. length (cmd_level c) \<le> MAX_CMD_LEVEL"
    "length (cmd_level b) < MAX_CMD_LEVEL" "length (cmd_level b) < length argv"
  shows "exec_loop argv cmds (Some b) (length (cmd_level b)) [] =
    Some (Some (pick b (matching argv cmds)), length (cmd_level (pick b (matching argv cmds))), [])"
  using assms
proof (induction cmds arbitrary: b)
  case Nil
  then show ?case by (simp add: matching_def)
next
  case (Cons c cmds)
  have cmds: "\<forall>c \<in> set cmds. length (cmd_level c) \<le> MAX_CMD_LEVEL" using Cons.prems(1) by simp
  show ?case
  proof (cases "prefix (cmd_level c) argv")
    case True
    note step = exec_loop_match [OF True, of cmds "Some b" "length (cmd_level b)" "[]"]
    note le = prefix_length_le [OF True]
    show ?thesis
    proof (cases "length (cmd_level c) = MAX_CMD_LEVEL \<or> length (cmd_level c) = length argv")
      case top: True
      then have "pick c (matching argv cmds) = c" using matching_le [OF _ cmds] by (intro pick_top) auto
      with top True step Cons.prems show ?thesis by (auto simp: matching_Cons)
    next
      case False
      with True step Cons.prems le show ?thesis
        using Cons.IH [OF cmds, of b] Cons.IH [OF cmds, of c] by (auto simp: matching_Cons)
    qed
  next
    case False
    with Cons exec_loop_no_match [OF False] show ?thesis by (simp add: matching_Cons del: exec_loop.simps)
  qed
qed

lemma exec_loop_first:
  assumes "\<forall>c \<in> set cmds. 1 \<le> length (cmd_level c) \<and> length (cmd_level c) \<le> MAX_CMD_LEVEL"
  shows "exec_loop argv cmds None 0 [] =
    (case matching argv cmds of [] \<Rightarrow> Some (None, 0, [])
     | c # cs \<Rightarrow> Some (Some (pick c cs), length (cmd_level (pick c cs)), []))"
  using assms
proof (induction cmds)
  case Nil
  then show ?case by (simp add: matching_def)
next
  case (Cons c cmds)
  have cmds: "\<forall>c \<in> set cmds. length (cmd_level c) \<le> MAX_CMD_LEVEL" using Cons.prems(1) by simp
  show ?case
  proof (cases "prefix (cmd_level c) argv")
    case True
    note step = exec_loop_match [OF True, of cmds None 0 "[]"]
    note le = prefix_length_le [OF True]
    show ?thesis
    proof (cases "length (cmd_level c) = MAX_CMD_LEVEL \<or> length (cmd_level c) = length argv")
      case top: True
      then have "pick c (matching argv cmds) = c" using matching_le [OF _ cmds] by (intro pick_top) auto
      with top True step Cons.prems show ?thesis by (auto simp: matching_Cons)
    next
      case False
      with True step Cons.prems le show ?thesis
        using exec_loop_pick [OF cmds, of c] by (auto simp: matching_Cons)
    qed
  next
    case False
    with Cons exec_loop_no_match [OF False] show ?thesis by (simp add: matching_Cons del: exec_loop.simps)
  qed
qed

text \<open>\<open>execute_cmd\<close> runs the command whose levels are the most of the first arguments, the first one of
  these in the list, and passes it the arguments from its last level on; if no command's levels are
  the first arguments it prints the whole list. It never prints the list of sub-commands: that branch
  of the code cannot be reached.\<close>

theorem execute_cmd_longest_match:
  assumes "\<forall>c \<in> set cmds. 1 \<le> length (cmd_level c) \<and> length (cmd_level c) \<le> MAX_CMD_LEVEL"
    "argv \<noteq> []" "argv ! 0 \<noteq> cmd_help" "argv ! 0 \<noteq> cmd_quit"
  shows "(matching argv cmds = [] \<longrightarrow> execute_cmd argv cmds = Some Show_List) \<and>
    (matching argv cmds \<noteq> [] \<longrightarrow> (\<exists>c \<in> set (matching argv cmds).
       execute_cmd argv cmds = Some (Call (cmd_func c) (drop (length (cmd_level c) - 1) argv)) \<and>
       (\<forall>d \<in> set (matching argv cmds). length (cmd_level d) \<le> length (cmd_level c)) \<and>
       c = hd [d \<leftarrow> matching argv cmds. length (cmd_level d) = length (cmd_level c)]))"
proof (cases "matching argv cmds")
  case Nil
  then show ?thesis using exec_loop_first [OF assms(1), of argv] assms(2-4) by (simp add: execute_cmd_def)
next
  case (Cons c cs)
  then show ?thesis
    using exec_loop_first [OF assms(1), of argv] assms(2-4) pick_in [of c cs] pick_max [of _ c cs]
      pick_first [of c cs]
    by (auto simp: execute_cmd_def intro!: bexI [of _ "pick c cs"] simp del: filter.simps)
qed

theorem execute_cmd_longest_match_witness:
  "execute_cmd [[97], [98], [99]]
     [\<lparr> cmd_func = 1, cmd_level = [[97]] \<rparr>, \<lparr> cmd_func = 2, cmd_level = [[97], [98]] \<rparr>,
      \<lparr> cmd_func = 3, cmd_level = [[98]] \<rparr>] = Some (Call 2 [[98], [99]])"
  using execute_cmd_longest_match [of "[\<lparr> cmd_func = 1, cmd_level = [[97]] \<rparr>,
      \<lparr> cmd_func = 2, cmd_level = [[97], [98]] \<rparr>, \<lparr> cmd_func = 3, cmd_level = [[98]] \<rparr>]" "[[97], [98], [99]]"]
  by (simp add: matching_def MAX_CMD_LEVEL_def cmd_help_def cmd_quit_def)

end
