(* ===== verification/AvlDestroy.thy ===== *)
theory AvlDestroy
  imports NodeIndex "HOL-Library.Monad_Syntax"
begin

text \<open>
  The rest of \<open>public/avl.c\<close>: taking a tree apart without rebalancing (\<open>avl_destroy_nodes\<close>) and
  putting a node whose key changed at its new place (\<open>avl_update\<close> and its two one-sided forms).
\<close>

section \<open>Taking a tree apart\<close>

text \<open>
  The cookie: NULL at the start, \<open>CHILDBIT\<close> without a parent at the end, else the parent of the node
  returned last and which child that was. The parent is a position of the tree as it is now.
\<close>

datatype 'a cookie = CkNull | CkDone | Ck "'a pos" bool

text \<open>The label \<open>done\<close>.\<close>

fun destroy_done :: "'a avl_tree \<Rightarrow> 'a pos \<Rightarrow> ('a option \<times> 'a avl_tree \<times> 'a cookie) option" where
  "destroy_done tree (ANil, fs) = None"
| "destroy_done tree (ANode l x b r, []) =
     (if ANode l x b r = avl_root tree then Some (Some x, tree, CkDone) else None)"
| "destroy_done tree (ANode l x b r, (c, a, ab, s) # fs) =
     Some (Some x, tree, Ck (mk_node c a ab (ANode l x b r) s, fs) c)"

text \<open>The label \<open>check_right_side\<close>.\<close>

fun check_right_side :: "'a avl_tree \<Rightarrow> 'a pos \<Rightarrow> ('a option \<times> 'a avl_tree \<times> 'a cookie) option" where
  "check_right_side tree (ANil, fs) = None"
| "check_right_side tree (ANode l a b r, fs) =
     (if r \<noteq> ANil then
        if b \<noteq> 1 then None
        else if \<not> (avl_child False r = ANil \<and> avl_child True r = ANil) then None
        else destroy_done tree (r, (True, a, b, l) # fs)
      else if \<not> b \<le> 0 then None
      else destroy_done tree (ANode l a b r, fs))"

fun avl_destroy_nodes :: "'a avl_tree \<Rightarrow> 'a cookie \<Rightarrow> ('a option \<times> 'a avl_tree \<times> 'a cookie) option" where
  "avl_destroy_nodes tree CkNull =
     (case avl_first tree of
        None \<Rightarrow> Some (None, tree, CkDone)
      | Some p \<Rightarrow> check_right_side tree p)"
| "avl_destroy_nodes tree CkDone =
     (if avl_root tree \<noteq> ANil then
        if avl_numnodes tree \<noteq> 1 then None
        else Some (None, tree\<lparr> avl_root := ANil, avl_numnodes := 0 \<rparr>, CkDone)
      else Some (None, tree, CkDone))"
| "avl_destroy_nodes tree (Ck (ANil, fs) child) = None"
| "avl_destroy_nodes tree (Ck (ANode l a b r, fs) child) =
     (let l = (if child then l else ANil);
          r = (if child then ANil else r);
          parent = ANode l a b r
      in if \<not> avl_numnodes tree > 1 then None
      else
        let tree = \<lparr> avl_root = plug parent fs, avl_numnodes = avl_numnodes tree - 1 \<rparr> in
        if child \<or> r = ANil then destroy_done tree (parent, fs)
        else check_right_side tree (down False r ((True, a, b, l) # fs)))"

text \<open>The loop of the users: the nodes it frees, in order, and the tree at its end.\<close>

partial_function (option) destroy_all :: "'a avl_tree \<Rightarrow> 'a cookie \<Rightarrow> ('a list \<times> 'a avl_tree) option" where
  "destroy_all tree cookie = do {
     (node, tree, cookie) \<leftarrow> avl_destroy_nodes tree cookie;
     case node of
       None \<Rightarrow> Some ([], tree)
     | Some a \<Rightarrow> do { (xs, tree) \<leftarrow> destroy_all tree cookie; Some (a # xs, tree) } }"

section \<open>Each node once, children first\<close>

fun postorder :: "'a avl \<Rightarrow> 'a list" where
  "postorder ANil = []"
| "postorder (ANode l a b r) = postorder l @ postorder r @ [a]"

text \<open>What is left to visit above a node that was returned, and what the frames above it hold: a left
  sibling is gone already, a right one is whole.\<close>

fun rest :: "'a frame list \<Rightarrow> 'a list" where
  "rest [] = []"
| "rest ((c, a, b, s) # fs) = (if c then [] else postorder s) @ a # rest fs"

definition half_gone :: "'a frame list \<Rightarrow> bool" where
  "half_gone fs \<longleftrightarrow> (\<forall>(c, a, b, s) \<in> set fs. if c then s = ANil else avl_ok s)"

lemma half_gone_simps [simp]:
  "half_gone []" "half_gone ((c, a, b, s) # fs) \<longleftrightarrow> (if c then s = ANil else avl_ok s) \<and> half_gone fs"
  by (simp_all add: half_gone_def)

text \<open>The state after node \<open>x\<close> was returned: it is a leaf, its parent is in the cookie.\<close>

definition returned :: "'a avl_tree \<Rightarrow> 'a frame list \<Rightarrow> ('a option \<times> 'a avl_tree \<times> 'a cookie) option \<Rightarrow> 'a \<Rightarrow> bool" where
  "returned tree fs r x \<longleftrightarrow> (\<exists>b. avl_root tree = plug (ANode ANil x b ANil) fs \<and> half_gone fs \<and>
     avl_numnodes tree = length (inorder (avl_root tree)) \<and> r = destroy_done tree (ANode ANil x b ANil, fs))"

lemma leaf_if_height_1: "avl_ok t \<Longrightarrow> avl_height t = 1 \<Longrightarrow> \<exists>x. t = ANode ANil x 0 ANil"
  by (cases t) (auto simp: max_def split: if_splits)

lemma enter_returns:
  assumes "avl_ok t" "t \<noteq> ANil" "half_gone fs" "avl_root tree = plug t fs"
    "avl_numnodes tree = length (inorder (avl_root tree))"
  shows "\<exists>x gs. returned tree gs (check_right_side tree (down False t fs)) x \<and> postorder t @ rest fs = x # rest gs"
  using assms
proof (induction t arbitrary: fs)
  case (ANode l a b r)
  show ?case
  proof (cases "l = ANil")
    case False
    then show ?thesis
      using ANode.IH(1) [of "(False, a, b, r) # fs"] ANode.prems by (auto simp: mk_node_def)
  next
    case l: True
    show ?thesis
    proof (cases "r = ANil")
      case True
      then show ?thesis using l ANode.prems by (intro exI [of _ a] exI [of _ fs]) (auto simp: returned_def)
    next
      case False
      moreover have "avl_height r \<noteq> - 1" using avl_height_nonneg [of r] by linarith
      ultimately have "b = 1" "avl_height r = 1" using ANode.prems(1) l by auto
      then obtain x where "r = ANode ANil x 0 ANil" using leaf_if_height_1 ANode.prems(1) by auto
      then show ?thesis
        using l ANode.prems \<open>b = 1\<close>
        by (intro exI [of _ x] exI [of _ "(True, a, b, l) # fs"]) (auto simp: returned_def mk_node_def)
    qed
  qed
qed simp

lemma destroy_all_returned:
  "returned tree fs (avl_destroy_nodes tree0 ck) x \<Longrightarrow> destroy_all tree0 ck = Some (x # rest fs, avl_create)"
proof (induction "length (rest fs)" arbitrary: tree fs tree0 ck x rule: less_induct)
  case less
  obtain b where b: "avl_root tree = plug (ANode ANil x b ANil) fs" "half_gone fs"
    "avl_numnodes tree = length (inorder (avl_root tree))"
    "avl_destroy_nodes tree0 ck = destroy_done tree (ANode ANil x b ANil, fs)"
    using less.prems by (auto simp: returned_def)
  show ?case
  proof (cases fs)
    case Nil
    then show ?thesis
      using b by (subst destroy_all.simps, subst destroy_all.simps) (simp add: avl_create_def)
  next
    case (Cons f gs)
    obtain c a ab s where f: "f = (c, a, ab, s)" by (cases f)
    let ?ck = "Ck (mk_node c a ab (ANode ANil x b ANil) s, gs) c"
    let ?parent = "ANode ANil a ab (if c then ANil else s)"
    let ?t = "\<lparr> avl_root = plug ?parent gs, avl_numnodes = avl_numnodes tree - 1 \<rparr>"
    have step: "destroy_all tree0 ck = do { (xs, t) \<leftarrow> destroy_all tree ?ck; Some (x # xs, t) }"
      using b(4) Cons f by (subst destroy_all.simps) simp
    have n: "length (inorder (avl_root tree)) = Suc (length (inorder (plug ?parent gs)))"
      using b(1,2) Cons f by (auto simp: inorder_plug inorder_mk_node split: if_splits)
    moreover have "0 < length (inorder (plug ?parent gs))" by (simp add: inorder_plug)
    ultimately have big: "avl_numnodes tree > 1" using b(3) by simp
    have t: "avl_numnodes ?t = length (inorder (avl_root ?t))" using n b(3) by simp
    show ?thesis
    proof (cases "c \<or> s = ANil")
      case True
      then have "avl_destroy_nodes tree ?ck = destroy_done ?t (ANode ANil a ab ANil, gs)"
        using big b(2) Cons f by (auto simp: mk_node_def Let_def)
      then have "returned ?t gs (avl_destroy_nodes tree ?ck) a"
        using True b(2) Cons f t by (auto simp: returned_def)
      from less.hyps [OF _ this] show ?thesis using True step Cons f by auto
    next
      case False
      then have e: "avl_destroy_nodes tree ?ck = check_right_side ?t (down False s ((True, a, ab, ANil) # gs))"
        using big by (auto simp: mk_node_def Let_def)
      have "\<exists>y hs. returned ?t hs (check_right_side ?t (down False s ((True, a, ab, ANil) # gs))) y \<and>
          postorder s @ rest ((True, a, ab, ANil) # gs) = y # rest hs"
        by (rule enter_returns) (use False b(2) Cons f t in \<open>auto simp: mk_node_def\<close>)
      then obtain y hs where y: "returned ?t hs (avl_destroy_nodes tree ?ck) y" "rest fs = y # rest hs"
        unfolding e using Cons f False by auto
      from less.hyps [OF _ y(1)] y(2) step show ?thesis by simp
    qed
  qed
qed

text \<open>C33: the loop around \<open>avl_destroy_nodes\<close> ends, returns each node of the tree exactly once, both children before
  their parent, so that every node can be freed as it is returned, and leaves the empty tree, which
  \<open>avl_destroy\<close> accepts.\<close>

theorem avl_destroy_nodes_postorder:
  assumes "avl_inv key tree"
  shows "destroy_all tree CkNull = Some (postorder (avl_root tree), avl_create)"
proof (cases "avl_root tree = ANil")
  case True
  then have "tree = avl_create" using assms by (simp add: avl_inv_def avl_create_def)
  then show ?thesis by (subst destroy_all.simps) (simp add: avl_first_def avl_create_def)
next
  case False
  have "avl_destroy_nodes tree CkNull = check_right_side tree (down False (avl_root tree) [])"
    using False by (simp add: avl_first_def)
  moreover obtain x gs where "returned tree gs (check_right_side tree (down False (avl_root tree) [])) x"
    "postorder (avl_root tree) @ rest [] = x # rest gs"
    using enter_returns [of "avl_root tree" "[]" tree] False assms by (auto simp: avl_inv_def)
  ultimately show ?thesis using destroy_all_returned [of tree gs tree CkNull x] by simp
qed

theorem avl_destroy_nodes_postorder_witness:
  "destroy_all three_tree CkNull = Some ([1, 3, 2], avl_create)"
  using avl_destroy_nodes_postorder [OF three_tree_inv] by (simp add: three_tree_def)

section \<open>Putting a changed node at its place\<close>

definition avl_reinsert :: "('a \<Rightarrow> 'a \<Rightarrow> int) \<Rightarrow> 'a avl_tree \<Rightarrow> 'a pos \<Rightarrow> 'a avl_tree option" where
  "avl_reinsert cmp tree p = do { t \<leftarrow> avl_remove tree p; avl_add cmp t (pos_data p) }"

definition avl_update_lt :: "('a \<Rightarrow> 'a \<Rightarrow> int) \<Rightarrow> 'a avl_tree \<Rightarrow> 'a pos \<Rightarrow> (bool \<times> 'a avl_tree) option" where
  "avl_update_lt cmp tree p =
     (if case avl_walk p True of None \<Rightarrow> False | Some n \<Rightarrow> \<not> cmp (pos_data p) (pos_data n) \<le> 0 then None
      else case avl_walk p False of
          Some n \<Rightarrow>
            if cmp (pos_data p) (pos_data n) < 0 then do { t \<leftarrow> avl_reinsert cmp tree p; Some (True, t) }
            else Some (False, tree)
        | None \<Rightarrow> Some (False, tree))"

definition avl_update_gt :: "('a \<Rightarrow> 'a \<Rightarrow> int) \<Rightarrow> 'a avl_tree \<Rightarrow> 'a pos \<Rightarrow> (bool \<times> 'a avl_tree) option" where
  "avl_update_gt cmp tree p =
     (if case avl_walk p False of None \<Rightarrow> False | Some n \<Rightarrow> \<not> cmp (pos_data p) (pos_data n) \<ge> 0 then None
      else case avl_walk p True of
          Some n \<Rightarrow>
            if cmp (pos_data p) (pos_data n) > 0 then do { t \<leftarrow> avl_reinsert cmp tree p; Some (True, t) }
            else Some (False, tree)
        | None \<Rightarrow> Some (False, tree))"

definition avl_update :: "('a \<Rightarrow> 'a \<Rightarrow> int) \<Rightarrow> 'a avl_tree \<Rightarrow> 'a pos \<Rightarrow> (bool \<times> 'a avl_tree) option" where
  "avl_update cmp tree p =
     (if case avl_walk p False of None \<Rightarrow> False | Some n \<Rightarrow> cmp (pos_data p) (pos_data n) < 0
      then do { t \<leftarrow> avl_reinsert cmp tree p; Some (True, t) }
      else if case avl_walk p True of None \<Rightarrow> False | Some n \<Rightarrow> cmp (pos_data p) (pos_data n) > 0
      then do { t \<leftarrow> avl_reinsert cmp tree p; Some (True, t) }
      else Some (False, tree))"

text \<open>A tree in order but for the node at \<open>p\<close>, whose key has changed and is no other's.\<close>

definition changed_at :: "('a \<Rightarrow> 'k::linorder) \<Rightarrow> 'a avl_tree \<Rightarrow> 'a pos \<Rightarrow> bool" where
  "changed_at key tree p \<longleftrightarrow> avl_ok (avl_root tree) \<and> avl_numnodes tree = length (inorder (avl_root tree)) \<and>
     (\<exists>i. at_index (avl_root tree) i p \<and>
       (let io = inorder (avl_root tree) in
        sorted_wrt (<) (map key (take i io @ drop (Suc i) io)) \<and>
        key (pos_data p) \<notin> key ` set (take i io @ drop (Suc i) io)))"

lemma sorted_wrt_insert_iff:
  fixes x :: "'k :: linorder"
  assumes "sorted_wrt (<) (xs @ ys)" "x \<notin> set (xs @ ys)"
  shows "sorted_wrt (<) (xs @ x # ys) \<longleftrightarrow> (xs = [] \<or> last xs < x) \<and> (ys = [] \<or> x < hd ys)"
proof -
  have "(\<forall>a\<in>set xs. a < x) \<longleftrightarrow> xs = [] \<or> last xs < x"
    using assms(1) by (cases xs rule: rev_cases) (auto simp: sorted_wrt_append intro: less_trans)
  moreover have "(\<forall>b\<in>set ys. x < b) \<longleftrightarrow> ys = [] \<or> x < hd ys"
    using assms(1) by (cases ys) (auto simp: sorted_wrt_append intro: less_trans)
  ultimately show ?thesis using assms(1) by (auto simp: sorted_wrt_append)
qed

lemma changed_sorted_iff:
  assumes "sorted_wrt (<) (map key (us @ vs))" "(key a :: 'k :: linorder) \<notin> key ` set (us @ vs)"
  shows "sorted_wrt (<) (map key (us @ a # vs)) \<longleftrightarrow>
    (us = [] \<or> key (last us) < key a) \<and> (vs = [] \<or> key a < key (hd vs))"
  using sorted_wrt_insert_iff [of "map key us" "map key vs" "key a"] assms
  by (cases "us = []"; cases "vs = []") (simp_all add: last_map hd_map image_Un)

lemma split_unique: "xs @ a # ys = us @ a # vs \<Longrightarrow> a \<notin> set us \<Longrightarrow> a \<notin> set vs \<Longrightarrow> xs = us \<and> ys = vs"
  by (auto simp: append_eq_append_conv2 append_eq_Cons_conv Cons_eq_append_conv)

lemma reinsert_changed:
  assumes "changed_at key tree p"
  shows "\<exists>t. avl_reinsert (key_cmp key) tree p = Some t \<and> avl_inv key t \<and>
    set (inorder (avl_root t)) = set (inorder (avl_root tree))"
proof -
  let ?io = "inorder (avl_root tree)"
  obtain i where i: "at_index (avl_root tree) i p" "sorted_wrt (<) (map key (take i ?io @ drop (Suc i) ?io))"
    "key (pos_data p) \<notin> key ` set (take i ?io @ drop (Suc i) ?io)"
    and ok: "avl_ok (avl_root tree)" "avl_numnodes tree = length ?io"
    using assms by (auto simp: changed_at_def Let_def)
  obtain l a b r fs where p: "p = (ANode l a b r, fs)" using i(1) by (cases p; cases "fst p") (auto simp: at_index_def)
  have pl: "plug (fst p) (snd p) = avl_root tree" "fst p \<noteq> ANil" using i(1) by (auto simp: at_index_def)
  from avl_remove_at [OF ok pl] obtain t xs ys where
    t: "avl_remove tree p = Some t" "avl_ok (avl_root t)" "avl_numnodes t = avl_numnodes tree - 1"
      "?io = xs @ pos_data p # ys" "inorder (avl_root t) = xs @ ys" by blast
  have io: "take i ?io @ pos_data p # drop (Suc i) ?io = ?io"
    using at_index_data [OF i(1)] by (metis id_take_nth_drop)
  have "xs @ pos_data p # ys = take i ?io @ pos_data p # drop (Suc i) ?io" using io t(4) by metis
  moreover have "pos_data p \<notin> set (take i ?io)" "pos_data p \<notin> set (drop (Suc i) ?io)" using i(3) by auto
  ultimately have "xs = take i ?io \<and> ys = drop (Suc i) ?io" by (rule split_unique)
  then have e: "xs = take i ?io" "ys = drop (Suc i) ?io" by blast+
  have "length (xs @ ys) = avl_numnodes tree - 1" using t(4) ok(2) by simp
  then have "avl_inv key t" using t(2,3,5) i(2) [folded e] by (simp add: avl_inv_def)
  moreover have "key (pos_data p) \<notin> key ` set (inorder (avl_root t))" using i(3) [folded e] t(5) by simp
  ultimately obtain t' ls rs where
    "avl_add (key_cmp key) t (pos_data p) = Some t'" "avl_inv key t'"
    "xs @ ys = ls @ rs" "inorder (avl_root t') = ls @ pos_data p # rs"
    using avl_add_new [of key t "pos_data p"] t(5) by auto
  moreover from this(3) have "set xs \<union> set ys = set ls \<union> set rs" by (metis set_append)
  ultimately show ?thesis using t(1,4) by (auto simp: avl_reinsert_def)
qed

text \<open>After the key of one node of a tree changed, \<open>avl_update\<close> puts the tree in order again with the same
  elements, and says whether it had to move the node, which is exactly when the tree was out of order.\<close>

theorem avl_update_restores_order:
  assumes "changed_at key tree p"
  shows "\<exists>moved t. avl_update (key_cmp key) tree p = Some (moved, t) \<and> avl_inv key t \<and>
    set (inorder (avl_root t)) = set (inorder (avl_root tree)) \<and> (\<not> moved \<longleftrightarrow> avl_inv key tree)"
proof -
  let ?io = "inorder (avl_root tree)" and ?a = "pos_data p"
  obtain i where i: "at_index (avl_root tree) i p" "sorted_wrt (<) (map key (take i ?io @ drop (Suc i) ?io))"
    "key ?a \<notin> key ` set (take i ?io @ drop (Suc i) ?io)"
    and ok: "avl_ok (avl_root tree)" "avl_numnodes tree = length ?io"
    using assms by (auto simp: changed_at_def Let_def)
  note il = at_index_data [OF i(1)]
  have io: "take i ?io @ ?a # drop (Suc i) ?io = ?io" using il by (metis id_take_nth_drop)
  let ?lt = "case avl_walk p False of None \<Rightarrow> False | Some n \<Rightarrow> key_cmp key ?a (pos_data n) < 0"
  let ?gt = "case avl_walk p True of None \<Rightarrow> False | Some n \<Rightarrow> key_cmp key ?a (pos_data n) > 0"
  have lt: "?lt \<longleftrightarrow> \<not> (take i ?io = [] \<or> key (last (take i ?io)) < key ?a)"
  proof (cases "avl_walk p False")
    case None
    then show ?thesis using walk_prev [OF i(1)] by simp
  next
    case (Some q)
    then have q: "0 < i" "at_index (avl_root tree) (i - 1) q" using walk_prev [OF i(1)] by auto
    have "take i ?io \<noteq> []" using il q(1) by auto
    moreover have "last (take i ?io) = pos_data q"
      using il at_index_data [OF q(2)] last_conv_nth [OF calculation] q(1) by (simp add: min_def)
    ultimately have l: "last (take i ?io) = pos_data q" "pos_data q \<in> set (take i ?io)"
      by (simp, metis last_in_set)
    then have "key ?a \<noteq> key (pos_data q)" using i(3) by auto
    then show ?thesis using Some q(1) l(1) il by (auto simp: key_cmp_def three_way_def)
  qed
  have gt: "?gt \<longleftrightarrow> \<not> (drop (Suc i) ?io = [] \<or> key ?a < key (hd (drop (Suc i) ?io)))"
  proof (cases "avl_walk p True")
    case None
    then show ?thesis using walk_next [OF i(1)] by simp
  next
    case (Some q)
    then have q: "at_index (avl_root tree) (Suc i) q" using walk_next [OF i(1)] by auto
    then have h: "Suc i < length ?io" "hd (drop (Suc i) ?io) = pos_data q"
      using at_index_data [OF q] by (auto simp: hd_drop_conv_nth)
    then have "pos_data q \<in> set (drop (Suc i) ?io)" by (metis drop_eq_Nil hd_in_set not_less)
    then have "key ?a \<noteq> key (pos_data q)" using i(3) by auto
    then show ?thesis using Some h by (auto simp: key_cmp_def three_way_def)
  qed
  have "avl_inv key tree \<longleftrightarrow> sorted_wrt (<) (map key (take i ?io @ ?a # drop (Suc i) ?io))"
    using ok by (simp only: io) (simp add: avl_inv_def)
  also note changed_sorted_iff [OF i(2,3)]
  finally have inv: "avl_inv key tree \<longleftrightarrow> \<not> ?lt \<and> \<not> ?gt" using lt gt by blast
  show ?thesis using reinsert_changed [OF assms] inv by (auto simp: avl_update_def)
qed

definition moved_tree :: "nat avl_tree" where
  "moved_tree = \<lparr> avl_root = ANode (ANode ANil 7 0 ANil) 2 0 (ANode ANil 3 0 ANil), avl_numnodes = 3 \<rparr>"

theorem avl_update_restores_order_witness:
  "\<exists>t. avl_update (key_cmp (\<lambda>x. x)) moved_tree (ANode ANil 7 0 ANil, [(False, 2, 0, ANode ANil 3 0 ANil)]) = Some (True, t) \<and>
     avl_inv (\<lambda>x. x) t \<and> set (inorder (avl_root t)) = {2, 3, 7}"
proof -
  have "changed_at (\<lambda>x. x) moved_tree (ANode ANil 7 0 ANil, [(False, 2, 0, ANode ANil 3 0 ANil)])"
    unfolding changed_at_def Let_def
    by (intro conjI exI [of _ 0]) (simp_all add: moved_tree_def at_index_def mk_node_def pos_data_def)
  from avl_update_restores_order [OF this] show ?thesis
    by (auto simp: moved_tree_def avl_inv_def)
qed

end
