(* ===== verification/DoubleList.thy ===== *)
theory DoubleList
  imports OfsPrelude "HOL-Library.Monad_Syntax"
begin

text \<open>
  The intrusive doubly linked list \<open>public/dlist.h\<close>, over a memory of list nodes: an address is a
  number, 0 is NULL, and the nodes are a partial map. A use of an address that holds no node, or a failed
  \<open>ASSERT\<close>, is \<open>None\<close>. \<open>dlist m h xs\<close> says that memory \<open>m\<close> holds the list of the nodes \<open>xs\<close> with
  head \<open>h\<close>; the operations are those of lists under it and leave the memory of other lists alone.
\<close>

section \<open>Nodes and operations\<close>

record list_head =
  lh_next :: nat
  lh_prev :: nat

type_synonym list_mem = "nat \<Rightarrow> list_head option"

definition LIST_POISON1 :: nat where "LIST_POISON1 = 0x00100100"
definition LIST_POISON2 :: nat where "LIST_POISON2 = 0x00200200"

definition next_of :: "list_mem \<Rightarrow> nat \<Rightarrow> nat option" where
  "next_of m a = map_option lh_next (m a)"

definition prev_of :: "list_mem \<Rightarrow> nat \<Rightarrow> nat option" where
  "prev_of m a = map_option lh_prev (m a)"

definition set_next :: "nat \<Rightarrow> nat \<Rightarrow> list_mem \<Rightarrow> list_mem option" where
  "set_next a v m = do { n \<leftarrow> m a; Some (m(a \<mapsto> n\<lparr> lh_next := v \<rparr>)) }"

definition set_prev :: "nat \<Rightarrow> nat \<Rightarrow> list_mem \<Rightarrow> list_mem option" where
  "set_prev a v m = do { n \<leftarrow> m a; Some (m(a \<mapsto> n\<lparr> lh_prev := v \<rparr>)) }"

definition list_init_head :: "nat \<Rightarrow> list_mem \<Rightarrow> list_mem option" where
  "list_init_head entry m =
     (if entry = 0 then None
      else do { m \<leftarrow> set_next entry entry m; set_prev entry entry m })"

text \<open>\<open>__list_add\<close> and \<open>__list_del\<close>.\<close>

definition list_add_between :: "nat \<Rightarrow> nat \<Rightarrow> nat \<Rightarrow> list_mem \<Rightarrow> list_mem option" where
  "list_add_between new prev next m =
     (if new = 0 \<or> prev = 0 \<or> next = 0 then None
      else do {
        m \<leftarrow> set_prev next new m;
        m \<leftarrow> set_next new next m;
        m \<leftarrow> set_prev new prev m;
        set_next prev new m })"

definition list_add_head :: "nat \<Rightarrow> nat \<Rightarrow> list_mem \<Rightarrow> list_mem option" where
  "list_add_head head new m =
     (if head = 0 \<or> new = 0 then None
      else do { n \<leftarrow> next_of m head; list_add_between new head n m })"

definition list_add_tail :: "nat \<Rightarrow> nat \<Rightarrow> list_mem \<Rightarrow> list_mem option" where
  "list_add_tail head new m =
     (if head = 0 \<or> new = 0 then None
      else do { p \<leftarrow> prev_of m head; list_add_between new p head m })"

definition list_del_between :: "nat \<Rightarrow> nat \<Rightarrow> nat \<Rightarrow> list_mem \<Rightarrow> list_mem option" where
  "list_del_between entry prev next m =
     (if prev = 0 \<or> next = 0 then None
      else do {
        m \<leftarrow> set_prev next prev m;
        m \<leftarrow> set_next prev next m;
        m \<leftarrow> set_next entry LIST_POISON1 m;
        set_prev entry LIST_POISON2 m })"

definition list_del :: "nat \<Rightarrow> list_mem \<Rightarrow> list_mem option" where
  "list_del entry m =
     (if entry = 0 then None
      else do { p \<leftarrow> prev_of m entry; n \<leftarrow> next_of m entry; list_del_between entry p n m })"

text \<open>The loop of \<open>list_get_node\<close> from \<open>next\<close> with the counter at \<open>cnt\<close>; 0 is NULL.\<close>

partial_function (option) list_get_loop :: "nat \<Rightarrow> u32 \<Rightarrow> u32 \<Rightarrow> nat \<Rightarrow> list_mem \<Rightarrow> nat option" where
  "list_get_loop head pos cnt next m =
     (if next = 0 then None
      else if next = head then Some 0
      else if pos = cnt then Some next
      else do { n \<leftarrow> next_of m next; list_get_loop head pos (cnt + 1) n m })"

definition list_get_node :: "nat \<Rightarrow> u32 \<Rightarrow> list_mem \<Rightarrow> nat option" where
  "list_get_node head pos m =
     (if head = 0 then None else do { n \<leftarrow> next_of m head; list_get_loop head pos 0 n m })"

definition list_remove_target_node :: "nat \<Rightarrow> u32 \<Rightarrow> list_mem \<Rightarrow> (int \<times> list_mem) option" where
  "list_remove_target_node head position m =
     (if head = 0 then None
      else do {
        entry \<leftarrow> list_get_node head position m;
        if entry \<noteq> 0 then do { m \<leftarrow> list_del entry m; Some (0, m) } else Some (- 1, m) })"

text \<open>The callback gets and returns the memory with its own state; the node after the next is found before
  it runs.\<close>

partial_function (option) list_walk_loop ::
  "nat \<Rightarrow> (nat \<Rightarrow> list_mem \<Rightarrow> 's \<Rightarrow> (int \<times> list_mem \<times> 's) option) \<Rightarrow> nat \<Rightarrow> nat \<Rightarrow> list_mem \<Rightarrow> 's \<Rightarrow>
   (int \<times> list_mem \<times> 's) option" where
  "list_walk_loop head cb next next_next m st =
     (if next = head then Some (0, m, st)
      else do {
        (ret, m, st) \<leftarrow> cb next m st;
        if ret \<noteq> 0 then Some (ret, m, st)
        else do {
          n \<leftarrow> next_of m next_next;
          if n = 0 then None else list_walk_loop head cb next_next n m st } })"

definition list_walk_all ::
  "nat \<Rightarrow> (nat \<Rightarrow> list_mem \<Rightarrow> 's \<Rightarrow> (int \<times> list_mem \<times> 's) option) \<Rightarrow> list_mem \<Rightarrow> 's \<Rightarrow>
   (int \<times> list_mem \<times> 's) option" where
  "list_walk_all head cb m st =
     (if head = 0 then None
      else do {
        next \<leftarrow> next_of m head;
        if next = 0 then None
        else do {
          next_next \<leftarrow> next_of m next;
          if next_next = 0 then None else list_walk_loop head cb next next_next m st } })"

definition list_is_empty :: "nat \<Rightarrow> list_mem \<Rightarrow> bool option" where
  "list_is_empty head m = (if head = 0 then None else do { n \<leftarrow> next_of m head; Some (n = head) })"

section \<open>Lists in memory\<close>

text \<open>From node \<open>a\<close> over the nodes \<open>xs\<close> to node \<open>b\<close> the links lead both ways.\<close>

fun links :: "list_mem \<Rightarrow> nat \<Rightarrow> nat list \<Rightarrow> nat \<Rightarrow> bool" where
  "links m a [] b \<longleftrightarrow> next_of m a = Some b \<and> prev_of m b = Some a"
| "links m a (x # xs) b \<longleftrightarrow> next_of m a = Some x \<and> prev_of m x = Some a \<and> links m x xs b"

definition dlist :: "list_mem \<Rightarrow> nat \<Rightarrow> nat list \<Rightarrow> bool" where
  "dlist m h xs \<longleftrightarrow> links m h xs h \<and> distinct (h # xs) \<and> 0 \<notin> set (h # xs)"

lemma next_of_upd [simp]: "next_of (m(a \<mapsto> n)) b = (if b = a then Some (lh_next n) else next_of m b)"
  by (simp add: next_of_def)

lemma prev_of_upd [simp]: "prev_of (m(a \<mapsto> n)) b = (if b = a then Some (lh_prev n) else prev_of m b)"
  by (simp add: prev_of_def)

lemma links_append: "links m a (xs @ y # ys) b \<longleftrightarrow> links m a xs y \<and> links m y ys b"
  by (induction xs arbitrary: a) auto

lemma links_cong:
  "(\<And>x. x \<in> set (a # xs) \<Longrightarrow> next_of m' x = next_of m x) \<Longrightarrow> (\<And>x. x \<in> set (xs @ [b]) \<Longrightarrow> prev_of m' x = prev_of m x) \<Longrightarrow>
   links m' a xs b = links m a xs b"
  by (induction xs arbitrary: a) auto

lemma links_mapped: "links m a xs b \<Longrightarrow> x \<in> set xs \<Longrightarrow> \<exists>n. m x = Some n"
  by (induction xs arbitrary: a) (auto simp: prev_of_def)

lemma links_ends: "links m a xs b \<Longrightarrow> (\<exists>n. m a = Some n \<and> lh_next n = hd (xs @ [b])) \<and>
    (\<exists>n. m b = Some n \<and> lh_prev n = last (a # xs))"
  by (induction xs arbitrary: a) (auto simp: next_of_def prev_of_def)

lemma next_of_links: "links m a xs b \<Longrightarrow> next_of m a = Some (hd (xs @ [b]))"
  using links_ends [of m a xs b] by (auto simp: next_of_def)

lemma prev_of_links: "links m a xs b \<Longrightarrow> prev_of m b = Some (last (a # xs))"
  using links_ends [of m a xs b] by (auto simp: prev_of_def)

section \<open>Linking and unlinking\<close>

lemma links_insert:
  assumes "links m a (xs @ ys) b" "distinct (a # xs @ ys)" "distinct (xs @ ys @ [b])" "new \<notin> set (a # xs @ ys @ [b])"
    "next_of m' = (next_of m)(last (a # xs) := Some new, new := Some (hd (ys @ [b])))"
    "prev_of m' = (prev_of m)(hd (ys @ [b]) := Some new, new := Some (last (a # xs)))"
  shows "links m' a (xs @ new # ys) b"
  using assms
proof (induction xs arbitrary: a)
  case Nil
  have "links m' new ys b"
  proof (cases ys)
    case (Cons y zs)
    have "links m' y zs b = links m y zs b" by (rule links_cong) (use Nil Cons in auto)
    then show ?thesis using Nil Cons by auto
  qed (use Nil in auto)
  then show ?case using Nil by auto
next
  case (Cons x xs)
  have "hd (ys @ [b]) \<in> set (ys @ [b])" by (cases ys) auto
  then have "x \<noteq> hd (ys @ [b])" using Cons.prems(3) by auto
  moreover have "last (x # xs) \<noteq> a" using Cons.prems(2) last_in_set [of "x # xs"] by (metis distinct.simps(2) in_set_conv_decomp_last list.distinct(1) append_Cons Un_iff set_append)
  moreover have "links m' x (xs @ new # ys) b"
    by (rule Cons.IH) (use Cons.prems in auto)
  ultimately show ?case using Cons.prems by auto
qed

lemma links_remove:
  assumes "links m a (xs @ e # ys) b" "distinct (a # xs @ e # ys)" "distinct (xs @ e # ys @ [b])"
    "next_of m' = (next_of m)(last (a # xs) := Some (hd (ys @ [b])), e := u)"
    "prev_of m' = (prev_of m)(hd (ys @ [b]) := Some (last (a # xs)), e := v)"
  shows "links m' a (xs @ ys) b"
  using assms
proof (induction xs arbitrary: a)
  case Nil
  show ?case
  proof (cases ys)
    case (Cons y zs)
    have "links m' y zs b = links m y zs b" by (rule links_cong) (use Nil Cons in auto)
    then show ?thesis using Nil Cons by auto
  qed (use Nil in auto)
next
  case (Cons x xs)
  have "hd (ys @ [b]) \<in> set (ys @ [b])" by (cases ys) auto
  then have "x \<noteq> hd (ys @ [b])" using Cons.prems(3) by auto
  moreover have "last (x # xs) \<in> set (x # xs)" by (rule last_in_set) simp
  then have "last (x # xs) \<noteq> a" using Cons.prems(2) by auto
  moreover have "links m' x (xs @ ys) b"
    by (rule Cons.IH) (use Cons.prems in auto)
  ultimately show ?case using Cons.prems by auto
qed

lemma list_add_between_effect:
  assumes "m new = Some n" "m p = Some np" "m q = Some nq" "new \<noteq> p" "new \<noteq> q" "p \<noteq> 0" "q \<noteq> 0" "new \<noteq> 0"
  shows "\<exists>m'. list_add_between new p q m = Some m' \<and> next_of m' = (next_of m)(p := Some new, new := Some q) \<and>
    prev_of m' = (prev_of m)(q := Some new, new := Some p) \<and>
    (\<forall>a. a \<notin> {new, p, q} \<longrightarrow> m' a = m a) \<and> dom m' = dom m"
proof (cases "p = q")
  case True
  with assms show ?thesis
    by (simp add: list_add_between_def set_next_def set_prev_def) (auto simp: fun_eq_iff next_of_def prev_of_def)
next
  case False
  with assms show ?thesis
    by (simp add: list_add_between_def set_next_def set_prev_def) (auto simp: fun_eq_iff next_of_def prev_of_def)
qed

lemma list_del_between_effect:
  assumes "m e = Some n" "m p = Some np" "m q = Some nq" "e \<noteq> p" "e \<noteq> q" "p \<noteq> 0" "q \<noteq> 0"
  shows "\<exists>m'. list_del_between e p q m = Some m' \<and> next_of m' = (next_of m)(p := Some q, e := Some LIST_POISON1) \<and>
    prev_of m' = (prev_of m)(q := Some p, e := Some LIST_POISON2) \<and>
    m' e = Some \<lparr> lh_next = LIST_POISON1, lh_prev = LIST_POISON2 \<rparr> \<and>
    (\<forall>a. a \<notin> {e, p, q} \<longrightarrow> m' a = m a) \<and> dom m' = dom m"
proof (cases "p = q")
  case True
  with assms show ?thesis
    by (simp add: list_del_between_def set_next_def set_prev_def) (auto simp: fun_eq_iff next_of_def prev_of_def)
next
  case False
  with assms show ?thesis
    by (simp add: list_del_between_def set_next_def set_prev_def) (auto simp: fun_eq_iff next_of_def prev_of_def)
qed

lemma list_add_between_links:
  assumes l: "dlist m h (xs @ ys)" and new: "new \<notin> set (h # xs @ ys)" "new \<noteq> 0" "m new \<noteq> None"
  shows "\<exists>m'. list_add_between new (last (h # xs)) (hd (ys @ [h])) m = Some m' \<and> dlist m' h (xs @ new # ys) \<and>
    dom m' = dom m \<and> (\<forall>a. a \<notin> set (new # h # xs @ ys) \<longrightarrow> m' a = m a)"
proof -
  let ?p = "last (h # xs)" and ?q = "hd (ys @ [h])"
  have pq: "?p \<in> set (h # xs @ ys)" "?q \<in> set (h # xs @ ys)"
    using last_in_set [of "h # xs"] by (auto simp: hd_append split: list.splits)
  have lk: "links m h (xs @ ys) h" "distinct (h # xs @ ys)" "0 \<notin> set (h # xs @ ys)" using l by (simp_all add: dlist_def)
  have mapped: "\<exists>n. m a = Some n" if "a \<in> set (h # xs @ ys)" for a
    using that links_mapped [OF lk(1)] links_ends [OF lk(1)] by auto
  obtain n p q where n: "m new = Some n" "m ?p = Some p" "m ?q = Some q"
    using new(3) mapped [OF pq(1)] mapped [OF pq(2)] by auto
  have ne: "new \<noteq> ?p" "new \<noteq> ?q" "?p \<noteq> 0" "?q \<noteq> 0" using pq new(1) lk(3) by metis+
  from list_add_between_effect [OF n ne new(2)] obtain m' where m': "list_add_between new ?p ?q m = Some m'"
    "next_of m' = (next_of m)(?p := Some new, new := Some ?q)"
    "prev_of m' = (prev_of m)(?q := Some new, new := Some ?p)"
    "\<forall>a. a \<notin> {new, ?p, ?q} \<longrightarrow> m' a = m a" "dom m' = dom m" by blast
  have "links m' h (xs @ new # ys) h"
    by (rule links_insert [OF lk(1) _ _ _ m'(2,3)]) (use lk new in auto)
  then have "dlist m' h (xs @ new # ys)" using lk new by (auto simp: dlist_def)
  moreover have "\<forall>a. a \<notin> set (new # h # xs @ ys) \<longrightarrow> m' a = m a"
    using m'(4) pq by auto
  ultimately show ?thesis using m'(1,5) by blast
qed

lemma list_del_links:
  assumes l: "dlist m h (xs @ e # ys)"
  shows "\<exists>m'. list_del e m = Some m' \<and> dlist m' h (xs @ ys) \<and> dom m' = dom m \<and>
    m' e = Some \<lparr> lh_next = LIST_POISON1, lh_prev = LIST_POISON2 \<rparr> \<and>
    (\<forall>a. a \<notin> set (h # xs @ e # ys) \<longrightarrow> m' a = m a)"
proof -
  let ?p = "last (h # xs)" and ?q = "hd (ys @ [h])"
  have pq: "?p \<in> set (h # xs @ ys)" "?q \<in> set (h # xs @ ys)"
    using last_in_set [of "h # xs"] by (auto simp: hd_append split: list.splits)
  have lk: "links m h (xs @ e # ys) h" "distinct (h # xs @ e # ys)" "0 \<notin> set (h # xs @ e # ys)"
    using l by (simp_all add: dlist_def)
  have mapped: "\<exists>n. m a = Some n" if "a \<in> set (h # xs @ e # ys)" for a
    using that links_mapped [OF lk(1)] links_ends [OF lk(1)] by auto
  obtain n p q where n: "m e = Some n" "m ?p = Some p" "m ?q = Some q"
    using mapped [of e] mapped [of ?p] mapped [of ?q] pq by auto
  have "e \<notin> set (h # xs @ ys)" "0 \<notin> set (h # xs @ ys)" "e \<noteq> 0" using lk(2,3) by auto
  then have ne: "e \<noteq> ?p" "e \<noteq> ?q" "?p \<noteq> 0" "?q \<noteq> 0" "e \<noteq> 0" using pq by metis+
  have "links m h xs e" "links m e ys h" using lk(1) by (simp_all add: links_append)
  then have e: "prev_of m e = Some ?p" "next_of m e = Some ?q"
    using prev_of_links [of m h xs e] next_of_links [of m e ys h] by blast+
  from list_del_between_effect [OF n ne(1-4)] obtain m' where m': "list_del_between e ?p ?q m = Some m'"
    "next_of m' = (next_of m)(?p := Some ?q, e := Some LIST_POISON1)"
    "prev_of m' = (prev_of m)(?q := Some ?p, e := Some LIST_POISON2)"
    "m' e = Some \<lparr> lh_next = LIST_POISON1, lh_prev = LIST_POISON2 \<rparr>"
    "\<forall>a. a \<notin> {e, ?p, ?q} \<longrightarrow> m' a = m a" "dom m' = dom m" by blast
  have "links m' h (xs @ ys) h"
    by (rule links_remove [OF lk(1) _ _ m'(2,3)]) (use lk in auto)
  then have "dlist m' h (xs @ ys)" using lk by (auto simp: dlist_def)
  moreover have "\<forall>a. a \<notin> set (h # xs @ e # ys) \<longrightarrow> m' a = m a" using m'(5) pq by auto
  moreover have "list_del e m = Some m'" using e m'(1) ne(5) by (simp add: list_del_def)
  ultimately show ?thesis using m'(4,6) by blast
qed

section \<open>The operations as those of lists\<close>

lemma dlist_next: "dlist m h (ks @ x # ys) \<Longrightarrow> next_of m x = Some (hd (ys @ [h]))"
  using next_of_links by (fastforce simp: dlist_def links_append)

lemma dlist_first: "dlist m h xs \<Longrightarrow> next_of m h = Some (hd (xs @ [h]))"
  using next_of_links by (simp add: dlist_def)

lemma dlist_last: "dlist m h xs \<Longrightarrow> prev_of m h = Some (last (h # xs))"
  using prev_of_links by (simp add: dlist_def)

lemma dlist_head: "dlist m h xs \<Longrightarrow> h \<noteq> 0"
  by (simp add: dlist_def)

lemma dlist_hd_nonzero: "dlist m h (ks @ ys) \<Longrightarrow> hd (ys @ [h]) \<noteq> 0"
  by (cases ys) (auto simp: dlist_def)

lemma list_init_head_dlist: "h \<noteq> 0 \<Longrightarrow> m h = Some n \<Longrightarrow> \<exists>m'. list_init_head h m = Some m' \<and> dlist m' h []"
  by (simp add: list_init_head_def set_next_def set_prev_def dlist_def)

lemma list_add_head_dlist:
  assumes "dlist m h xs" "new \<notin> set (h # xs)" "new \<noteq> 0" "m new \<noteq> None"
  shows "\<exists>m'. list_add_head h new m = Some m' \<and> dlist m' h (new # xs) \<and> dom m' = dom m \<and>
    (\<forall>a. a \<notin> set (new # h # xs) \<longrightarrow> m' a = m a)"
  using list_add_between_links [of m h "[]" xs new] assms dlist_first [OF assms(1)] dlist_head [OF assms(1)]
  by (simp add: list_add_head_def)

lemma list_add_tail_dlist:
  assumes "dlist m h xs" "new \<notin> set (h # xs)" "new \<noteq> 0" "m new \<noteq> None"
  shows "\<exists>m'. list_add_tail h new m = Some m' \<and> dlist m' h (xs @ [new]) \<and> dom m' = dom m \<and>
    (\<forall>a. a \<notin> set (new # h # xs) \<longrightarrow> m' a = m a)"
  using list_add_between_links [of m h xs "[]" new] assms dlist_last [OF assms(1)] dlist_head [OF assms(1)]
  by (simp add: list_add_tail_def)

lemma list_get_loop_nth:
  assumes "dlist m h (ks @ ys)" "unat cnt = length ks" "length ks \<le> unat pos"
  shows "list_get_loop h pos cnt (hd (ys @ [h])) m =
    Some (if unat pos < length (ks @ ys) then (ks @ ys) ! unat pos else 0)"
  using assms
proof (induction ys arbitrary: ks cnt)
  case Nil
  then show ?case using dlist_head [OF Nil(1)] by (simp add: list_get_loop.simps)
next
  case (Cons y ys)
  have y: "y \<noteq> 0" "y \<noteq> h" using Cons.prems(1) by (auto simp: dlist_def)
  show ?case
  proof (cases "pos = cnt")
    case True
    then show ?thesis using y Cons.prems(2) by (simp add: list_get_loop.simps nth_append)
  next
    case False
    then have "length ks < unat pos" using Cons.prems(2,3) by (metis le_neq_implies_less word_unat_eq_iff)
    then have c: "unat (cnt + 1) = length (ks @ [y])"
      using Cons.prems(2) unat_u32_less [of pos] by (simp add: unat_word_ariths)
    show ?thesis
      using Cons.IH [of "ks @ [y]", OF _ c] Cons.prems(1) y False dlist_next [OF Cons.prems(1)] \<open>length ks < unat pos\<close>
      by (subst list_get_loop.simps) simp
  qed
qed

lemma list_get_node_nth:
  "dlist m h xs \<Longrightarrow> list_get_node h pos m = Some (if unat pos < length xs then xs ! unat pos else 0)"
  using list_get_loop_nth [of m h "[]" xs 0 pos] dlist_head [of m h xs] dlist_first [of m h xs]
  by (simp add: list_get_node_def)

lemma list_remove_target_dlist:
  assumes "dlist m h xs"
  shows "\<exists>m'. list_remove_target_node h pos m = Some (if unat pos < length xs then 0 else - 1, m') \<and>
    dlist m' h (take (unat pos) xs @ drop (unat pos + 1) xs) \<and> dom m' = dom m \<and> (\<forall>a. a \<notin> set (h # xs) \<longrightarrow> m' a = m a)"
proof (cases "unat pos < length xs")
  case True
  let ?e = "xs ! unat pos"
  have x: "xs = take (unat pos) xs @ ?e # drop (unat pos + 1) xs" using True by (simp add: id_take_nth_drop)
  have "?e \<noteq> 0" using assms True by (metis dlist_def list.set_intros(2) nth_mem)
  moreover have "set (h # take (unat pos) xs @ ?e # drop (unat pos + 1) xs) = set (h # xs)" using x by metis
  moreover have "dlist m h (take (unat pos) xs @ ?e # drop (unat pos + 1) xs)" using x assms by metis
  from list_del_links [OF this] obtain m' where "list_del ?e m = Some m'"
    "dlist m' h (take (unat pos) xs @ drop (unat pos + 1) xs)" "dom m' = dom m"
    "\<forall>a. a \<notin> set (h # take (unat pos) xs @ ?e # drop (unat pos + 1) xs) \<longrightarrow> m' a = m a" by blast
  ultimately show ?thesis
    using True list_get_node_nth [OF assms, of pos] dlist_head [OF assms]
    by (intro exI [of _ m']) (simp add: list_remove_target_node_def)
next
  case False
  then show ?thesis
    using assms list_get_node_nth [OF assms, of pos] dlist_head [OF assms]
    by (simp add: list_remove_target_node_def)
qed

text \<open>C37: the operations on the doubly linked list are those of lists. A node of its own memory is added in front
  or behind; the node at a position is found, or none; the node at a position is removed, or -1 is returned.
  Each returns, keeps both directions of links consistent and changes no memory outside the list.\<close>

theorem dlist_refines_list:
  assumes "dlist m h xs" "new \<notin> set (h # xs)" "new \<noteq> 0" "m new \<noteq> None"
  shows "\<exists>m1 m2 m3. list_add_head h new m = Some m1 \<and> dlist m1 h (new # xs) \<and>
    list_add_tail h new m = Some m2 \<and> dlist m2 h (xs @ [new]) \<and>
    list_get_node h pos m = Some (if unat pos < length xs then xs ! unat pos else 0) \<and>
    list_remove_target_node h pos m = Some (if unat pos < length xs then 0 else - 1, m3) \<and>
    dlist m3 h (take (unat pos) xs @ drop (unat pos + 1) xs) \<and>
    list_is_empty h m = Some (xs = []) \<and>
    (\<forall>a. a \<notin> set (new # h # xs) \<longrightarrow> m1 a = m a \<and> m2 a = m a \<and> m3 a = m a)"
proof -
  have "list_is_empty h m = Some (xs = [])"
    using dlist_first [OF assms(1)] assms(1) by (cases xs) (auto simp: list_is_empty_def dlist_def)
  then show ?thesis
    using list_add_head_dlist [OF assms] list_add_tail_dlist [OF assms] list_get_node_nth [OF assms(1)]
      list_remove_target_dlist [OF assms(1), of pos]
    by (elim exE conjE) (intro exI conjI, assumption+, simp)
qed

definition ex_list_mem :: list_mem where
  "ex_list_mem = [1 \<mapsto> \<lparr> lh_next = 2, lh_prev = 3 \<rparr>, 2 \<mapsto> \<lparr> lh_next = 3, lh_prev = 1 \<rparr>,
     3 \<mapsto> \<lparr> lh_next = 1, lh_prev = 2 \<rparr>, 9 \<mapsto> \<lparr> lh_next = 0, lh_prev = 0 \<rparr>]"

lemma ex_dlist: "dlist ex_list_mem 1 [2, 3]"
  by (simp add: dlist_def ex_list_mem_def)

theorem dlist_refines_list_witness:
  "\<exists>m1 m3. list_add_head 1 9 ex_list_mem = Some m1 \<and> dlist m1 1 [9, 2, 3] \<and>
    list_remove_target_node 1 1 ex_list_mem = Some (0, m3) \<and> dlist m3 1 [2]"
  using dlist_refines_list [OF ex_dlist, of 9 1] by (auto simp: ex_list_mem_def)

section \<open>Walking\<close>

text \<open>
  A callback that may unlink the node it is called for and that else only works on its own state:
  \<open>f\<close> gives its result, whether it unlinks, and its new state. The reference walk gives the result,
  the nodes that stay in the list and the state.
\<close>

definition unlinking_cb ::
  "(nat \<Rightarrow> 's \<Rightarrow> int \<times> bool \<times> 's) \<Rightarrow> nat \<Rightarrow> list_mem \<Rightarrow> 's \<Rightarrow> (int \<times> list_mem \<times> 's) option" where
  "unlinking_cb f e m st =
     (case f e st of (ret, del, st) \<Rightarrow>
        if del then do { m \<leftarrow> list_del e m; Some (ret, m, st) } else Some (ret, m, st))"

fun walk_list :: "(nat \<Rightarrow> 's \<Rightarrow> int \<times> bool \<times> 's) \<Rightarrow> nat list \<Rightarrow> 's \<Rightarrow> int \<times> nat list \<times> 's" where
  "walk_list f [] st = (0, [], st)"
| "walk_list f (x # xs) st =
     (case f x st of (ret, del, st) \<Rightarrow>
        if ret \<noteq> 0 then (ret, if del then xs else x # xs, st)
        else (case walk_list f xs st of (ret, ys, st) \<Rightarrow> (ret, if del then ys else x # ys, st)))"

lemma unlinking_cb_dlist:
  assumes "dlist m h (ks @ x # xs)" "f x st = (ret, del, st')"
  shows "\<exists>m'. unlinking_cb f x m st = Some (ret, m', st') \<and> dlist m' h (ks @ (if del then xs else x # xs))"
  using assms list_del_links [OF assms(1)] by (auto simp: unlinking_cb_def)

lemma list_walk_loop_list:
  assumes "dlist m h (ks @ xs)" "xs \<noteq> [] \<Longrightarrow> nn = hd (tl xs @ [h])"
  shows "\<exists>m'. list_walk_loop h (unlinking_cb f) (hd (xs @ [h])) nn m st =
    (case walk_list f xs st of (ret, ys, st') \<Rightarrow> Some (ret, m', st')) \<and> dlist m' h (ks @ fst (snd (walk_list f xs st)))"
  using assms
proof (induction xs arbitrary: ks m nn st)
  case Nil
  then show ?case by (simp add: list_walk_loop.simps)
next
  case (Cons x xs)
  obtain ret del st' where f: "f x st = (ret, del, st')" by (cases "f x st")
  from unlinking_cb_dlist [where f = f, OF Cons.prems(1) f] obtain m' where
    m': "unlinking_cb f x m st = Some (ret, m', st')" "dlist m' h (ks @ (if del then xs else x # xs))" by blast
  have x: "x \<noteq> h" using Cons.prems(1) by (auto simp: dlist_def)
  have nn: "nn = hd (xs @ [h])" using Cons.prems(2) by simp
  define ks' where "ks' = (if del then ks else ks @ [x])"
  have d: "dlist m' h (ks' @ xs)" using m'(2) by (simp add: ks'_def split: if_splits)
  show ?case
  proof (cases "ret = 0")
    case False
    then show ?thesis using m' x f by (subst list_walk_loop.simps) auto
  next
    case True
    obtain n where n: "next_of m' nn = Some n" "n \<noteq> 0" "xs \<noteq> [] \<Longrightarrow> n = hd (tl xs @ [h])"
    proof (cases xs)
      case Nil
      then show thesis using that dlist_first [OF d] nn dlist_hd_nonzero [of m' h "[]" "ks' @ xs"] d by simp
    next
      case (Cons y ys)
      then show thesis using that dlist_next [of m' h ks' y ys] nn dlist_hd_nonzero [of m' h "ks' @ [y]" ys] d by simp
    qed
    from Cons.IH [OF d n(3), of st'] obtain m2 where
      "list_walk_loop h (unlinking_cb f) (hd (xs @ [h])) n m' st' =
        (case walk_list f xs st' of (ret, ys, st') \<Rightarrow> Some (ret, m2, st'))"
      "dlist m2 h (ks' @ fst (snd (walk_list f xs st')))" by blast
    then show ?thesis
      using True m' x f n(1,2) nn
      by (subst list_walk_loop.simps) (auto simp: ks'_def split: prod.splits)
  qed
qed

text \<open>Walking the list returns and calls the callback for every node in order, until one gives a nonzero
  result, which is returned, also if callbacks unlink the nodes they are called for; the list then holds
  the others.\<close>

theorem list_walk_all_unlinking:
  assumes "dlist m h xs"
  shows "\<exists>m' ret ys st'. list_walk_all h (unlinking_cb f) m st = Some (ret, m', st') \<and>
    (ret, ys, st') = walk_list f xs st \<and> dlist m' h ys"
proof -
  obtain nn where nn: "next_of m (hd (xs @ [h])) = Some nn" "nn \<noteq> 0" "xs \<noteq> [] \<Longrightarrow> nn = hd (tl xs @ [h])"
  proof (cases xs)
    case Nil
    then show thesis using that dlist_first [OF assms] dlist_head [OF assms] by simp
  next
    case (Cons y ys)
    then show thesis using that dlist_next [of m h "[]" y ys] dlist_hd_nonzero [of m h "[y]" ys] assms by simp
  qed
  from list_walk_loop_list [of m h "[]" xs nn f st] assms nn(3) obtain m' where
    "list_walk_loop h (unlinking_cb f) (hd (xs @ [h])) nn m st =
      (case walk_list f xs st of (ret, ys, st') \<Rightarrow> Some (ret, m', st'))" "dlist m' h (fst (snd (walk_list f xs st)))"
    by auto
  then show ?thesis
    using dlist_first [OF assms] dlist_head [OF assms] dlist_hd_nonzero [of m h "[]" xs] assms nn(1,2)
    by (auto simp: list_walk_all_def split: prod.splits)
qed

theorem list_walk_all_unlinking_witness:
  "\<exists>m'. list_walk_all 1 (unlinking_cb (\<lambda>e st. (0, e = 2, st @ [e]))) ex_list_mem [] = Some (0, m', [2, 3]) \<and> dlist m' 1 [3]"
  using list_walk_all_unlinking [OF ex_dlist, of "\<lambda>e st. (0, e = 2, st @ [e])" "[]"] by simp

end
