(* ===== verification/MemAccount.thy ===== *)
theory MemAccount
  imports OfsPrelude
begin

text \<open>
  The accounting allocator \<open>public/cmm/cmm.c\<close>: how many bytes are allocated and the most there ever
  were. What \<open>malloc\<close> and \<open>posix_memalign\<close> return is an argument, 0 for NULL; the mutex is left out.
\<close>

record mem_acct =
  g_total_mem :: u64
  g_max_mem :: u64

definition MemInit :: mem_acct where
  "MemInit = \<lparr> g_total_mem = 0, g_max_mem = 0 \<rparr>"

definition MemGetTotal :: "mem_acct \<Rightarrow> u64" where "MemGetTotal s = g_total_mem s"
definition MemGetMax :: "mem_acct \<Rightarrow> u64" where "MemGetMax s = g_max_mem s"
definition MemExit :: "mem_acct \<Rightarrow> u64" where "MemExit s = g_total_mem s"

definition MemAlloc :: "nat \<Rightarrow> u32 \<Rightarrow> mem_acct \<Rightarrow> nat \<times> mem_acct" where
  "MemAlloc pMem v_size s =
     (if pMem \<noteq> 0 then
        let s = s\<lparr> g_total_mem := g_total_mem s + ucast v_size \<rparr>;
            s = (if g_max_mem s < g_total_mem s then s\<lparr> g_max_mem := g_total_mem s \<rparr> else s)
        in (pMem, s)
      else (pMem, s))"

definition MemFree :: "nat \<Rightarrow> u32 \<Rightarrow> mem_acct \<Rightarrow> mem_acct" where
  "MemFree v_pMem v_size s =
     (if v_pMem = 0 then s else s\<lparr> g_total_mem := g_total_mem s - ucast v_size \<rparr>)"

text \<open>\<open>ret\<close> and \<open>pMem\<close>: what \<open>posix_memalign\<close> returns and stores.\<close>

definition MemAlignedAlloc :: "int \<Rightarrow> nat \<Rightarrow> u32 \<Rightarrow> mem_acct \<Rightarrow> nat \<times> mem_acct" where
  "MemAlignedAlloc ret pMem v_size s =
     (if ret \<noteq> 0 then (0, s)
      else if pMem \<noteq> 0 then
        let s = s\<lparr> g_total_mem := g_total_mem s + ucast v_size \<rparr>;
            s = (if g_max_mem s < g_total_mem s then s\<lparr> g_max_mem := g_total_mem s \<rparr> else s)
        in (pMem, s)
      else (pMem, s))"

definition MemAlignedFree :: "nat \<Rightarrow> u32 \<Rightarrow> mem_acct \<Rightarrow> mem_acct" where
  "MemAlignedFree v_pMem v_size s =
     (if v_pMem = 0 then s else s\<lparr> g_total_mem := g_total_mem s - ucast v_size \<rparr>)"

section \<open>Runs\<close>

text \<open>
  A run of correct users: the blocks in use with their sizes, the most bytes ever in use, and the
  counters. A block is freed once, with the size it was allocated with. The blocks in use lie in one address space
  of 64 bits, so their sizes add up to less than 2^64.
\<close>

definition in_use :: "(nat \<Rightarrow> u32 option) \<Rightarrow> nat" where
  "in_use live = (\<Sum>p\<in>dom live. unat (the (live p)))"

inductive acct_step ::
  "(nat \<Rightarrow> u32 option) \<times> nat \<times> mem_acct \<Rightarrow> (nat \<Rightarrow> u32 option) \<times> nat \<times> mem_acct \<Rightarrow> bool" where
  alloc: "p \<noteq> 0 \<Longrightarrow> live p = None \<Longrightarrow> in_use live + unat sz < 2 ^ 64 \<Longrightarrow>
    MemAlloc p sz s = (r, s') \<or> MemAlignedAlloc 0 p sz s = (r, s') \<Longrightarrow>
    acct_step (live, peak, s) (live(p \<mapsto> sz), max peak (in_use live + unat sz), s')"
| no_memory: "MemAlloc 0 sz s = (r, s') \<or> MemAlignedAlloc err p sz s = (r, s') \<and> err \<noteq> 0 \<Longrightarrow>
    acct_step (live, peak, s) (live, peak, s')"
| release: "live p = Some sz \<Longrightarrow> p \<noteq> 0 \<Longrightarrow> MemFree p sz s = s' \<or> MemAlignedFree p sz s = s' \<Longrightarrow>
    acct_step (live, peak, s) (live(p := None), peak, s')"
| release_null: "MemFree 0 sz s = s' \<or> MemAlignedFree 0 sz s = s' \<Longrightarrow> acct_step (live, peak, s) (live, peak, s')"

definition acct_ok :: "(nat \<Rightarrow> u32 option) \<times> nat \<times> mem_acct \<Rightarrow> bool" where
  "acct_ok x = (case x of (live, peak, s) \<Rightarrow> finite (dom live) \<and> in_use live \<le> peak \<and> peak < 2 ^ 64 \<and>
     unat (g_total_mem s) = in_use live \<and> unat (g_max_mem s) = peak)"

lemma in_use_insert: "finite (dom live) \<Longrightarrow> live p = None \<Longrightarrow> in_use (live(p \<mapsto> sz)) = in_use live + unat sz"
proof -
  assume a: "finite (dom live)" "live p = None"
  then have "p \<notin> dom live" by auto
  moreover have "(\<Sum>q\<in>dom live. unat (the ((live(p \<mapsto> sz)) q))) = (\<Sum>q\<in>dom live. unat (the (live q)))"
    using \<open>p \<notin> dom live\<close> by (intro sum.cong) auto
  ultimately show ?thesis using a(1) by (simp add: in_use_def)
qed

lemma in_use_remove:
  assumes "finite (dom live)" "live p = Some sz"
  shows "in_use live = in_use (live(p := None)) + unat sz"
proof -
  have "live = (live(p := None))(p \<mapsto> sz)" using assms(2) by auto
  then have "in_use live = in_use ((live(p := None))(p \<mapsto> sz))" by simp
  then show ?thesis using in_use_insert [of "live(p := None)" p sz] assms(1) by simp
qed

lemma acct_alloc:
  assumes "MemAlloc p sz s = (r, s') \<or> MemAlignedAlloc 0 p sz s = (r, s')" "p \<noteq> 0"
    "unat (g_total_mem s) + unat sz < 2 ^ 64"
  shows "unat (g_total_mem s') = unat (g_total_mem s) + unat sz \<and>
    unat (g_max_mem s') = max (unat (g_max_mem s)) (unat (g_total_mem s) + unat sz)"
proof -
  let ?t = "g_total_mem s + ucast sz"
  have t: "unat ?t = unat (g_total_mem s) + unat sz"
    using assms(3) by (simp add: unat_word_ariths unat_ucast_up)
  have "g_total_mem s' = ?t" "g_max_mem s' = (if g_max_mem s < ?t then ?t else g_max_mem s)"
    using assms(1,2) by (auto simp: MemAlloc_def MemAlignedAlloc_def Let_def split: if_splits)
  then show ?thesis using t by (auto simp: word_less_nat_alt max_def)
qed

lemma acct_free:
  assumes "MemFree p sz s = s' \<or> MemAlignedFree p sz s = s'" "p \<noteq> 0" "unat sz \<le> unat (g_total_mem s)"
  shows "unat (g_total_mem s') = unat (g_total_mem s) - unat sz \<and> g_max_mem s' = g_max_mem s"
proof -
  have "(ucast sz :: u64) \<le> g_total_mem s" using assms(3) by (simp add: word_le_nat_alt unat_ucast_up)
  then have "unat (g_total_mem s - ucast sz) = unat (g_total_mem s) - unat sz"
    by (simp add: unat_sub unat_ucast_up)
  then show ?thesis using assms(1,2) by (auto simp: MemFree_def MemAlignedFree_def)
qed

lemma acct_step_ok: "acct_step x y \<Longrightarrow> acct_ok x \<Longrightarrow> acct_ok y"
proof (induction rule: acct_step.induct)
  case (alloc p live sz s r s' peak)
  then show ?case
    using in_use_insert [of live p sz] acct_alloc [of p sz s r s'] by (auto simp: acct_ok_def)
next
  case (release live p sz s s' peak)
  then have "in_use live = in_use (live(p := None)) + unat sz" by (intro in_use_remove) (auto simp: acct_ok_def)
  then show ?case using release acct_free [of p sz s s'] by (auto simp: acct_ok_def)
qed (auto simp: MemAlloc_def MemAlignedAlloc_def MemFree_def MemAlignedFree_def)

text \<open>C38: after any run of allocations, failed ones included, and of frees, \<open>MemGetTotal\<close> is the number of
  bytes in use and \<open>MemGetMax\<close> the most there ever were; so \<open>MemExit\<close> reports 0 exactly if every
  block that is not empty was freed.\<close>

theorem memory_accounting_exact:
  assumes "acct_step\<^sup>*\<^sup>* (Map.empty, 0, MemInit) (live, peak, s)"
  shows "unat (MemGetTotal s) = in_use live \<and> unat (MemGetMax s) = peak \<and> in_use live \<le> peak \<and>
    (MemExit s = 0 \<longleftrightarrow> (\<forall>p sz. live p = Some sz \<longrightarrow> sz = 0))"
proof -
  have "acct_ok (live, peak, s)"
    using assms
  proof (induction rule: rtranclp_induct)
    case base
    then show ?case by (simp add: acct_ok_def in_use_def MemInit_def)
  qed (rule acct_step_ok)
  then have ok: "finite (dom live)" "unat (g_total_mem s) = in_use live" "unat (g_max_mem s) = peak" "in_use live \<le> peak"
    by (simp_all add: acct_ok_def)
  have "g_total_mem s = 0 \<longleftrightarrow> in_use live = 0" using ok(2) by (metis unat_0 unat_eq_zero)
  also have "\<dots> \<longleftrightarrow> (\<forall>p sz. live p = Some sz \<longrightarrow> sz = 0)" using ok(1) by (force simp: in_use_def unat_eq_zero dom_def)
  finally show ?thesis using ok by (simp add: MemGetTotal_def MemGetMax_def MemExit_def)
qed

theorem memory_accounting_exact_witness:
  "\<exists>s. acct_step\<^sup>*\<^sup>* (Map.empty, 0, MemInit) (Map.empty, 5, s) \<and> MemGetTotal s = 0 \<and> unat (MemGetMax s) = 5"
proof -
  obtain s1 where s1: "MemAlloc 7 5 MemInit = (7, s1)" by (simp add: MemAlloc_def Let_def)
  have "acct_step (Map.empty, 0, MemInit) ([7 \<mapsto> 5], 5, s1)"
    using acct_step.alloc [of 7 Map.empty 5 MemInit 7 s1 0] s1 by (simp add: in_use_def)
  moreover have "acct_step ([7 \<mapsto> 5], 5, s1) (Map.empty, 5, MemFree 7 5 s1)"
    using acct_step.release [of "[7 \<mapsto> 5]" 7 5 s1 "MemFree 7 5 s1" 5] by simp
  ultimately have "acct_step\<^sup>*\<^sup>* (Map.empty, 0, MemInit) (Map.empty, 5, MemFree 7 5 s1)"
    by (rule converse_rtranclp_into_rtranclp [OF _ r_into_rtranclp])
  from memory_accounting_exact [OF this] this show ?thesis
    by (intro exI [of _ "MemFree 7 5 s1"]) (simp add: in_use_def unat_eq_zero)
qed

end
