(* ===== verification/Utils.thy ===== *)
theory Utils
  imports OfsPrelude "HOL-Library.Monad_Syntax"
begin

unbundle bit_operations_syntax

text \<open>
  The conversions of \<open>public/utils.c\<close>: hexadecimal strings to bytes, numbers in strings, byte order.
  A string is the list of its bytes without the zero. The clock functions only call the system.
\<close>

section \<open>Hexadecimal digits\<close>

text \<open>\<open>char\<close> is signed; the result -1 is 255.\<close>

definition os_char_to_hex :: "u8 \<Rightarrow> u8" where
  "os_char_to_hex c =
     (if sint c \<le> 57 \<and> sint c \<ge> 48 then c - 48
      else if sint c \<le> 102 \<and> sint c \<ge> 97 then c - (97 - 10)
      else if sint c \<le> 70 \<and> sint c \<ge> 65 then c - (65 - 10)
      else - 1)"

text \<open>
  The loop over pairs of digits, from byte \<open>i\<close> of the memory \<open>hex\<close> on; a store behind its end is
  \<open>None\<close>. The length of the rest is even.
\<close>

fun hex_pairs :: "u8 list \<Rightarrow> u8 list \<Rightarrow> nat \<Rightarrow> (int \<times> u8 list) option" where
  "hex_pairs [] hex i = Some (int i, hex)"
| "hex_pairs [_] hex i = None"
| "hex_pairs (c1 # c2 # str) hex i =
     (let c = os_char_to_hex c1 in
      if sint c < 0 then Some (sint c, hex)
      else if i \<ge> length hex then None
      else
        let hex = hex[i := push_bit 4 c]; c = os_char_to_hex c2 in
        if sint c < 0 then Some (sint c, hex)
        else hex_pairs str (hex[i := hex ! i OR c]) (i + 1))"

definition os_str_to_hex :: "u8 list \<Rightarrow> u8 list \<Rightarrow> u32 \<Rightarrow> (int \<times> u8 list) option" where
  "os_str_to_hex str hex hex_len =
     (if str = [] then Some (0, hex)
      else if odd (length str) then
        let c = os_char_to_hex (hd str) in
        if sint c < 0 then Some (sint c, hex)
        else if length hex = 0 then None
        else hex_pairs (tl str) (hex[0 := c]) 1
      else hex_pairs str hex 0)"

definition is_hex :: "u8 \<Rightarrow> bool" where
  "is_hex c \<longleftrightarrow> c \<in> {48..57} \<union> {97..102} \<union> {65..70}"

text \<open>The number a string of digits denotes, in front of it \<open>v\<close>.\<close>

fun hex_number :: "nat \<Rightarrow> u8 list \<Rightarrow> nat" where
  "hex_number v [] = v"
| "hex_number v (c # cs) = hex_number (16 * v + unat (os_char_to_hex c)) cs"

lemma sint_u8: "sint (c :: u8) = (if unat c < 128 then int (unat c) else int (unat c) - 256)"
proof -
  have s: "sint c = (int (unat c) + 128) mod 256 - 128"
    by (simp add: sint_uint signed_take_bit_eq_take_bit_shift take_bit_eq_mod)
  have "(int n + 128) mod 256 - 128 = (if n < 128 then int n else int n - 256)" if "n < 256" for n :: nat
  proof (cases "n < 128")
    case False
    have "int n + 128 = (int n - 128) + 256" by simp
    then have "(int n + 128) mod 256 = (int n - 128) mod 256" by (simp only: mod_add_self2)
    then show ?thesis using that False by simp
  qed simp
  from this [OF unat_u8_less [of c]] show ?thesis by (simp only: s)
qed

lemma is_hex_unat: "is_hex c \<longleftrightarrow> unat c \<in> {48..57} \<union> {97..102} \<union> {65..70}"
  by (simp add: is_hex_def word_le_nat_alt)

lemma os_char_to_hex_unat:
  "unat (os_char_to_hex c) =
     (if unat c \<in> {48..57} then unat c - 48 else if unat c \<in> {97..102} then unat c - 87
      else if unat c \<in> {65..70} then unat c - 55 else 255)"
proof -
  have "unat (c - d) = unat c - unat d" if "unat d \<le> unat c" for d
    using that by (simp add: unat_sub word_le_nat_alt)
  from this [of 48] this [of 87] this [of 55] have s: "48 \<le> unat c \<Longrightarrow> unat (c - 48) = unat c - 48"
    "87 \<le> unat c \<Longrightarrow> unat (c - 87) = unat c - 87" "55 \<le> unat c \<Longrightarrow> unat (c - 55) = unat c - 55" by simp_all
  define n where "n = unat c"
  have sn: "sint c = (if n < 128 then int n else int n - 256)" "n < 256"
    using sint_u8 [of c] unat_u8_less [of c] by (simp_all only: n_def)
  have "sint c \<le> 57 \<and> sint c \<ge> 48 \<longleftrightarrow> n \<in> {48..57}" "sint c \<le> 102 \<and> sint c \<ge> 97 \<longleftrightarrow> n \<in> {97..102}"
    "sint c \<le> 70 \<and> sint c \<ge> 65 \<longleftrightarrow> n \<in> {65..70}"
    using sn by (auto split: if_splits)
  then have "os_char_to_hex c = (if unat c \<in> {48..57} then c - 48 else if unat c \<in> {97..102} then c - 87
      else if unat c \<in> {65..70} then c - 55 else - 1)"
    by (simp add: os_char_to_hex_def flip: n_def)
  moreover have "unat (- 1 :: u8) = 255" by (simp add: unsigned_minus_1_eq_mask mask_eq_exp_minus_1)
  ultimately show ?thesis using s by simp
qed

lemma os_char_to_hex_range: "is_hex c \<Longrightarrow> unat (os_char_to_hex c) < 16"
  by (auto simp: os_char_to_hex_unat is_hex_unat)

lemma os_char_to_hex_bad: "\<not> is_hex c \<Longrightarrow> unat (os_char_to_hex c) = 255"
  by (auto simp: os_char_to_hex_unat is_hex_unat)

lemma os_char_to_hex_sign: "sint (os_char_to_hex c) < 0 \<longleftrightarrow> \<not> is_hex c"
  using os_char_to_hex_range [of c] os_char_to_hex_bad [of c] by (cases "is_hex c") (auto simp: sint_u8)

section \<open>Hexadecimal strings\<close>

lemma hex_number_add: "hex_number v cs = v * 16 ^ length cs + hex_number 0 cs"
proof (induction cs arbitrary: v)
  case (Cons c cs)
  show ?case using Cons [of "16 * v + unat (os_char_to_hex c)"] Cons [of "unat (os_char_to_hex c)"]
    by (simp add: algebra_simps)
qed simp

lemma two_digits:
  assumes "is_hex c1" "is_hex c2"
  shows "unat (push_bit 4 (os_char_to_hex c1) OR os_char_to_hex c2) =
    16 * unat (os_char_to_hex c1) + unat (os_char_to_hex c2)"
proof -
  let ?a = "os_char_to_hex c1" and ?b = "os_char_to_hex c2"
  have ab: "unat ?a < 16" "unat ?b < 16" using assms by (simp_all add: os_char_to_hex_range)
  have "push_bit 4 ?a AND ?b = 0"
  proof (rule bit_eqI)
    fix n
    have "take_bit 4 ?b = ?b" using ab(2) by (simp add: word_unat_eq_iff unsigned_take_bit_eq take_bit_nat_eq_self)
    then have "bit ?b n \<Longrightarrow> n < 4" by (metis bit_take_bit_iff)
    then show "bit (push_bit 4 ?a AND ?b) n = bit (0 :: u8) n" by (auto simp: bit_simps)
  qed
  then have "push_bit 4 ?a OR ?b = push_bit 4 ?a + ?b" by (rule disjunctive_add_eq_or [symmetric])
  moreover have "unat (push_bit 4 ?a) = 16 * unat ?a" using ab(1) by (simp add: unat_push_bit_mod)
  ultimately show ?thesis using ab by (simp add: unat_word_ariths)
qed

lemma hex_pairs_value:
  "even (length str) \<Longrightarrow> \<forall>c \<in> set str. is_hex c \<Longrightarrow> i + length str div 2 \<le> length hex \<Longrightarrow>
   \<exists>out. hex_pairs str hex i = Some (int (i + length str div 2), take i hex @ out @ drop (i + length str div 2) hex) \<and>
     length out = length str div 2 \<and> be_val out = hex_number 0 str"
proof (induction str hex i rule: hex_pairs.induct)
  case (3 c1 c2 str hex i)
  let ?b = "push_bit 4 (os_char_to_hex c1) OR os_char_to_hex c2"
  have len: "i < length hex" using "3.prems"(3) by simp
  have c: "is_hex c1" "is_hex c2" using "3.prems"(2) by simp_all
  then have e: "hex_pairs (c1 # c2 # str) hex i = hex_pairs str (hex[i := ?b]) (i + 1)"
    using len by (simp add: os_char_to_hex_sign Let_def)
  from "3.IH" [of "os_char_to_hex c1" "hex[i := push_bit 4 (os_char_to_hex c1)]" "os_char_to_hex c2"] c len "3.prems"
  obtain out where out: "hex_pairs str (hex[i := ?b]) (i + 1) =
      Some (int (i + 1 + length str div 2), take (i + 1) (hex[i := ?b]) @ out @ drop (i + 1 + length str div 2) (hex[i := ?b]))"
      "length out = length str div 2" "be_val out = hex_number 0 str"
    by (auto simp: os_char_to_hex_sign)
  have "take (i + 1) (hex[i := ?b]) = take i hex @ [?b]" using len by (simp add: take_Suc_conv_app_nth)
  moreover have "be_val (?b # out) = hex_number 0 (c1 # c2 # str)"
    using two_digits [OF c] out(2,3) hex_number_add [of "16 * unat (os_char_to_hex c1) + unat (os_char_to_hex c2)" str] "3.prems"(1)
    by (auto simp: power_mult elim!: evenE)
  ultimately show ?case
    using e out len by (intro exI [of _ "?b # out"]) simp
qed simp_all

text \<open>A string of hexadecimal digits of either case becomes the big endian bytes of the number it denotes, one
  byte for two digits, the first from one digit if the length is odd, in front of what the memory
  held; the result is the number of bytes. The stated size of the memory is not used.\<close>

theorem os_str_to_hex_number:
  assumes "\<forall>c \<in> set str. is_hex c" "(length str + 1) div 2 \<le> length hex"
  shows "\<exists>out. os_str_to_hex str hex hex_len =
      Some (int ((length str + 1) div 2), out @ drop ((length str + 1) div 2) hex) \<and>
    length out = (length str + 1) div 2 \<and> be_val out = hex_number 0 str"
proof (cases "odd (length str)")
  case True
  then obtain c cs where str: "str = c # cs" by (cases str) auto
  let ?c = "os_char_to_hex c"
  have c: "is_hex c" "even (length cs)" "hex \<noteq> []" using assms True str by auto
  from hex_pairs_value [of cs 1 "hex[0 := ?c]"] c assms str obtain out where
    "hex_pairs cs (hex[0 := ?c]) 1 =
      Some (int (1 + length cs div 2), take 1 (hex[0 := ?c]) @ out @ drop (1 + length cs div 2) (hex[0 := ?c]))"
    "length out = length cs div 2" "be_val out = hex_number 0 cs" by auto
  moreover have "take 1 (hex[0 := ?c]) = [?c]" using c(3) by (cases hex) simp_all
  moreover have "be_val (?c # out) = hex_number 0 (c # cs)"
    using calculation(2,3) c(2) hex_number_add [of "unat ?c" cs] by (auto simp: power_mult elim!: evenE)
  ultimately show ?thesis
    using True c str by (intro exI [of _ "?c # out"]) (auto simp: os_str_to_hex_def os_char_to_hex_sign)
next
  case False
  then show ?thesis
    using hex_pairs_value [of str 0 hex] assms by (cases "str = []") (auto simp: os_str_to_hex_def)
qed

lemma hex_bytes: "unat (os_char_to_hex 49) = 1" "unat (os_char_to_hex 97) = 10" "unat (os_char_to_hex 70) = 15"
  by (simp_all add: os_char_to_hex_def)

theorem os_str_to_hex_number_witness:
  "\<exists>out. os_str_to_hex [49, 97, 70] [9, 9, 9] 0 = Some (2, out @ [9]) \<and> length out = 2 \<and> be_val out = 0x1AF"
proof -
  obtain out where "os_str_to_hex [49, 97, 70] [9, 9, 9] 0 = Some (2, out @ [9])" "length out = Suc (Suc 0)"
    "be_val out = 0x1AF"
    using os_str_to_hex_number [of "[49, 97, 70]" "[9, 9, 9]" 0] by (auto simp: is_hex_def hex_bytes)
  then show ?thesis by (intro exI [of _ out]) simp
qed

text \<open>Memory that is too short is written behind its end, whatever size the caller states.\<close>

lemma os_str_to_hex_overflow:
  "os_str_to_hex [48, 48, 48, 48] [0] 1 = None"
  by (simp add: os_str_to_hex_def os_char_to_hex_def)

section \<open>Byte order\<close>

text \<open>The loop: \<open>j\<close> counts down, \<open>i\<close> up; both integers are their bytes in memory.\<close>

fun convert_loop :: "u8 list \<Rightarrow> u8 list \<Rightarrow> nat \<Rightarrow> nat \<Rightarrow> u8 list" where
  "convert_loop src_char dst_char i 0 = dst_char"
| "convert_loop src_char dst_char i (Suc j) = convert_loop src_char (dst_char[j := src_char ! i]) (i + 1) j"

definition os_convert_u64 :: "u64 \<Rightarrow> u64" where
  "os_convert_u64 src = of_nat (le_val (convert_loop (bytes_le 8 (unat src)) (bytes_le 8 0) 0 8))"

lemma convert_loop_rev:
  "i + j = length src \<Longrightarrow> length dst = length src \<Longrightarrow>
   convert_loop src dst i j = rev (drop i src) @ drop j dst"
proof (induction j arbitrary: i dst)
  case (Suc j)
  then have i: "i < length src" "j < length dst" by simp_all
  have "convert_loop src dst i (Suc j) = rev (drop (Suc i) src) @ drop j (dst[j := src ! i])"
    using Suc.IH [of "Suc i" "dst[j := src ! i]"] Suc.prems by simp
  moreover have "drop j (dst[j := src ! i]) = src ! i # drop (Suc j) dst"
    using i by (simp add: Cons_nth_drop_Suc [symmetric] drop_update_swap)
  moreover have "drop i src = src ! i # drop (Suc i) src" using i(1) by (simp add: Cons_nth_drop_Suc)
  ultimately show ?case by simp
qed simp

lemma le_val_rev: "le_val (rev bs) = be_val bs"
  by (induction bs) (simp_all add: le_val_append)

lemma os_convert_bytes: "bytes_le 8 (unat (os_convert_u64 w)) = rev (bytes_le 8 (unat w))"
proof -
  let ?b = "rev (bytes_le 8 (unat w))"
  have "unat (os_convert_u64 w) = le_val ?b"
    using le_val_less [of ?b]
    by (simp add: os_convert_u64_def convert_loop_rev unat_of_nat del: bytes_le.simps)
  then show ?thesis using bytes_le_le_val [of ?b] by simp
qed

text \<open>Changing the byte order reads the bytes of the integer in memory as big endian, and doing it twice gives
  the integer back.\<close>

theorem os_convert_u64_swaps:
  "unat (os_convert_u64 w) = be_val (bytes_le 8 (unat w)) \<and> os_convert_u64 (os_convert_u64 w) = w"
proof
  have v: "unat x = le_val (bytes_le 8 (unat x))" for x :: u64
    using unat_u64_less [of x] by (simp add: le_val_bytes_le)
  show "unat (os_convert_u64 w) = be_val (bytes_le 8 (unat w))"
    using v [of "os_convert_u64 w"] by (simp only: os_convert_bytes le_val_rev)
  have "bytes_le 8 (unat (os_convert_u64 (os_convert_u64 w))) = bytes_le 8 (unat w)"
    by (simp only: os_convert_bytes rev_rev_ident)
  then have "unat (os_convert_u64 (os_convert_u64 w)) = unat w" using v by metis
  then show "os_convert_u64 (os_convert_u64 w) = w" by (simp add: word_unat_eq_iff)
qed

section \<open>Numbers in strings\<close>

text \<open>
  \<open>strtoull\<close> of the C library: white space, a sign, a prefix, digits. The result is the number and how
  much of the string was read, nothing if there is no number. A bad base is \<open>None\<close>: the end is then not set.
\<close>

definition c_isspace :: "u8 \<Rightarrow> bool" where
  "c_isspace c \<longleftrightarrow> c = 32 \<or> 9 \<le> c \<and> c \<le> 13"

definition digit_value :: "u8 \<Rightarrow> nat" where
  "digit_value c =
     (if 48 \<le> c \<and> c \<le> 57 then unat c - 48
      else if 97 \<le> c \<and> c \<le> 122 then unat c - 87
      else if 65 \<le> c \<and> c \<le> 90 then unat c - 55
      else 36)"

definition is_digit :: "nat \<Rightarrow> u8 \<Rightarrow> bool" where
  "is_digit base c \<longleftrightarrow> digit_value c < base"

fun number :: "nat \<Rightarrow> nat \<Rightarrow> u8 list \<Rightarrow> nat" where
  "number base v [] = v"
| "number base v (c # cs) = number base (base * v + digit_value c) cs"

definition has_prefix :: "u8 list \<Rightarrow> bool" where
  "has_prefix str \<longleftrightarrow> length str \<ge> 3 \<and> str ! 0 = 48 \<and> (str ! 1 = 120 \<or> str ! 1 = 88) \<and> is_digit 16 (str ! 2)"

definition strtoull :: "u8 list \<Rightarrow> u32 \<Rightarrow> (u64 \<times> nat) option" where
  "strtoull str base =
     (if base = 1 \<or> base > 36 then None
      else
        let spaces = length (takeWhile c_isspace str);
            s = drop spaces str;
            sign = (if s \<noteq> [] \<and> (hd s = 43 \<or> hd s = 45) then 1 else 0);
            neg = (s \<noteq> [] \<and> hd s = 45);
            s = drop sign s;
            prefix = (if (base = 0 \<or> base = 16) \<and> has_prefix s then 2 else 0);
            b = (if base \<noteq> 0 then unat base else if prefix = 2 then 16
                 else if s \<noteq> [] \<and> hd s = 48 then 8 else 10);
            digits = takeWhile (is_digit b) (drop prefix s);
            n = number b 0 digits
        in if digits = [] then Some (0, 0)
           else Some (if n \<ge> 2 ^ 64 then - 1 else if neg then - of_nat n else of_nat n,
                      spaces + sign + prefix + length digits))"

definition os_str_to_u64 :: "u8 list \<Rightarrow> u32 \<Rightarrow> (int \<times> u64) option" where
  "os_str_to_u64 str base = do {
     (value, end) \<leftarrow> strtoull str base;
     Some (if end = 0 then - 2
           else if end < length str \<and> str ! end \<noteq> 10 then - 3
           else 0, value) }"

lemma digit_not_space:
  "is_digit b c \<Longrightarrow> b \<le> 36 \<Longrightarrow> \<not> c_isspace c \<and> c \<noteq> 43 \<and> c \<noteq> 45"
  by (auto simp: is_digit_def digit_value_def c_isspace_def word_le_nat_alt split: if_splits)

lemma strtoull_digits:
  assumes base: "2 \<le> base" "base \<le> 36" and ds: "ds \<noteq> []" "\<forall>c \<in> set ds. is_digit (unat base) c"
    and rest: "rest = [] \<or> \<not> is_digit (unat base) (hd rest)" "base = 16 \<Longrightarrow> \<not> has_prefix (ds @ rest)"
  shows "strtoull (ds @ rest) base =
    Some (if number (unat base) 0 ds \<ge> 2 ^ 64 then - 1 else of_nat (number (unat base) 0 ds), length ds)"
proof -
  have b: "2 \<le> unat base" "unat base \<le> 36" using base by (simp_all add: word_le_nat_alt)
  then have nb: "base \<noteq> 1" "base \<noteq> 0" "\<not> base > 36" using base(2) by auto
  obtain d cs where d: "ds = d # cs" using ds(1) by (cases ds) auto
  then have "\<not> c_isspace d \<and> d \<noteq> 43 \<and> d \<noteq> 45" using digit_not_space [of "unat base" d] ds(2) b(2) by simp
  then have h: "takeWhile c_isspace (ds @ rest) = []" "hd (ds @ rest) \<noteq> 43" "hd (ds @ rest) \<noteq> 45"
    using d by simp_all
  have t: "takeWhile (is_digit (unat base)) (ds @ rest) = ds"
    using ds(2) rest(1) by (cases rest) (simp_all add: takeWhile_append2)
  show ?thesis
    using nb h t ds(1) rest(2) by (auto simp: strtoull_def Let_def)
qed

text \<open>A string of digits of the base, with no more behind it or a new line, is read as the number it denotes,
  or as the largest 64 bit number if it is larger; anything else behind it is an error, -3.\<close>

theorem os_str_to_u64_number:
  assumes "2 \<le> base" "base \<le> 36" "ds \<noteq> []" "\<forall>c \<in> set ds. is_digit (unat base) c"
    "rest = [] \<or> \<not> is_digit (unat base) (hd rest)" "base = 16 \<Longrightarrow> \<not> has_prefix (ds @ rest)"
  shows "os_str_to_u64 (ds @ rest) base =
    Some (if rest = [] \<or> hd rest = 10 then 0 else - 3,
          of_nat (min (2 ^ 64 - 1) (number (unat base) 0 ds)))"
proof -
  let ?n = "number (unat base) 0 ds"
  have "(of_nat (2 ^ 64 - 1) :: u64) = - 1" by simp
  then have "(if ?n \<ge> 2 ^ 64 then - 1 else of_nat ?n :: u64) = of_nat (min (2 ^ 64 - 1) ?n)"
    by (cases "?n = 2 ^ 64 - 1") (auto simp: min_def simp del: of_nat_numeral)
  moreover have "(ds @ rest) ! length ds = hd rest" if "rest \<noteq> []" using that by (simp add: nth_append hd_conv_nth)
  ultimately show ?thesis
    using strtoull_digits [OF assms] assms(3) by (auto simp: os_str_to_u64_def)
qed

theorem os_str_to_u64_number_witness:
  "os_str_to_u64 [49, 55, 10, 50] 10 = Some (0, 17) \<and> os_str_to_u64 [49, 81] 10 = Some (- 3, 1)"
  using os_str_to_u64_number [of 10 "[49, 55]" "[10, 50]"] os_str_to_u64_number [of 10 "[49]" "[81]"]
  by (simp add: is_digit_def digit_value_def)

end
