(* ===== verification/CopyOnWrite.thy ===== *)
theory CopyOnWrite
  imports TableUpdate CacheIndex SpaceManager
begin

text \<open>
  Copy on write, \<open>set_ib_dirty\<close> of \<open>object_system/ofs_btree.c\<close>: before a clean block is changed it gets a
  new block number, the block above it the new link, and the old block is freed; a dirty block has its
  number already. Shown for tables of any height over an interface \<open>block_service\<close> of allocation and
  freeing, which the reserved block of the base object implements.
\<close>

section \<open>Changing a child number\<close>

lemma ent_at_set_child:
  assumes "ent_at m q prev e" "echild e = Some v0"
  shows "ent_at (SET_IE_VBN m q v) q prev (e\<lparr> echild := Some v \<rparr>)"
    "j < q \<or> q + esize e \<le> j \<Longrightarrow> SET_IE_VBN m q v j = m j"
    "esize (e\<lparr> echild := Some v \<rparr>) = esize e"
proof -
  let ?e = "e\<lparr> echild := Some v \<rparr>"
  show sz: "esize ?e = esize e" using assms(2) by (simp add: esize_def)
  define n where "n = esize e - 8"
  have n: "esize e = n + 8" "n = 9 + length (ekey e) + length (evalue e)" using assms(2) by (simp_all add: n_def esize_def)
  have off: "q + unat (ie_len m q) - 8 = q + n" using ent_at_fields(1) [OF assms(1)] n(1) by simp
  have m: "SET_IE_VBN m q v = put64 m (q + n) v" by (simp only: SET_IE_VBN_def off)
  have fl: "ent_flags ?e = ent_flags e" using assms(2) by (simp add: ent_flags_def)
  have "\<exists>xs. ent_bytes prev e = xs @ bytes_le 8 (unat v0) \<and> ent_bytes prev ?e = xs @ bytes_le 8 (unat v)"
    using assms(2) fl sz by (simp add: ent_bytes_def child_bytes_def)
  then obtain xs where xs: "ent_bytes prev e = xs @ bytes_le 8 (unat v0)" "ent_bytes prev ?e = xs @ bytes_le 8 (unat v)"
    by blast
  have l: "length xs = n" using arg_cong [OF xs(1), of length] n(1) by simp
  have "rd m q n = xs" using assms(1) xs(1) rd_sub [of m q "esize e" "[]" xs "bytes_le 8 (unat v0)" 0 n] l
    by (simp add: ent_at_def)
  moreover have "rd (put64 m (q + n) v) q n = rd m q n" by (rule rd_eqI) (simp add: put_out)
  ultimately have "rd (SET_IE_VBN m q v) q (esize ?e) = ent_bytes prev ?e"
    unfolding sz n(1) m by (simp only: rd_add rd_put_same xs(2))
  then show "ent_at (SET_IE_VBN m q v) q prev ?e" using assms(1) sz by (simp add: ent_at_def)
  show "j < q \<or> q + esize e \<le> j \<Longrightarrow> SET_IE_VBN m q v j = m j"
    unfolding m n(1) by (rule put_out(3)) auto
qed

lemma set_child_rep:
  assumes "ib_rep m p es" "i < length es" "echild (es ! i) = Some v0"
  shows "ib_rep (SET_IE_VBN m (ie_off p es i) v) p (es[i := (es ! i)\<lparr> echild := Some v \<rparr>])"
    "j < p + 33 \<Longrightarrow> SET_IE_VBN m (ie_off p es i) v j = m j"
proof -
  let ?q = "ie_off p es i" and ?e = "(es ! i)\<lparr> echild := Some v \<rparr>"
  let ?m = "SET_IE_VBN m ?q v" and ?es = "take i es @ ?e # drop (Suc i) es"
  note at = ent_at_set_child [OF ib_rep_nth [OF assms(1,2)] assms(3), where v = v]
  have eq: "es[i := ?e] = ?es" using assms(2) by (rule upd_conv_take_nth_drop)
  have es: "es = take i es @ es ! i # drop (Suc i) es" using assms(2) by (rule id_take_nth_drop)
  have q: "?q = p + 33 + esizes (take i es)" by (simp add: ie_off_def)
  show low: "j < p + 33 \<Longrightarrow> ?m j = m j" for j using at(2) ie_off_ge [of p es i] by simp
  have ents: "ents_at m (p + 33) 9 (take i es @ es ! i # drop (Suc i) es)"
    using assms(1) es by (simp add: ib_rep_def)
  have "ents_at ?m (p + 33) 9 ?es"
    unfolding ents_at_append ents_at_Cons
  proof (intro conjI)
    show "ents_at ?m (p + 33) 9 (take i es)"
      using ents unfolding ents_at_append by (subst ents_at_same [of _ _ _ m]) (simp_all add: q at(2) [unfolded q])
    show "ent_at ?m (p + 33 + esizes (take i es)) (prev_size 9 (take i es)) ?e" using at(1) q by simp
    show "ents_at ?m (p + 33 + esizes (take i es) + esize ?e) (esize ?e) (drop (Suc i) es)"
      using ents unfolding ents_at_append ents_at_Cons at(3)
      by (subst ents_at_same [of _ _ _ m]) (simp_all add: q at(2) [unfolded q])
  qed
  moreover have "esizes ?es = esizes es"
    using at(3) by (subst (2) es) simp
  moreover have "ends_with_end ?es"
    using assms(1) set_update_subset_insert [of "butlast es" i ?e] ends_with_end_nth [of es i] assms(2)
    unfolding eq [symmetric]
    by (auto simp: ib_rep_def ends_with_end_def last_list_update butlast_list_update last_conv_nth)
  moreover have "unat (bh_real_size ?m p) = unat (bh_real_size m p)"
    unfolding bh_real_size_def by (rule arg_cong [OF get_cong(2)]) (simp add: low)
  moreover have "\<forall>e \<in> set (es[i := ?e]). echild e = None \<longleftrightarrow> \<not> has_flag (ib_node_type m p) BLOCK_LARGE"
    using assms set_update_subset_insert [of es i ?e] by (auto simp: ib_rep_def dest: nth_mem)
  ultimately show "ib_rep ?m p (es[i := ?e])"
    using assms(1) low unfolding eq by (intro ib_repI [OF assms(1)]) (auto simp: ib_rep_def)
qed


section \<open>The caches of an object\<close>

definition own :: "container \<Rightarrow> nat \<Rightarrow> nat set" where
  "own s oid = (case objs s oid of None \<Rightarrow> {} | Some x \<Rightarrow> insert (oi_root_cache x) (members (oi_caches x)))"

definition cache_buf :: "container \<Rightarrow> nat \<Rightarrow> nat option" where
  "cache_buf s c = map_option (\<lambda>k. fst (c_ib k)) (caches s c)"

definition obj_ok :: "container \<Rightarrow> nat \<Rightarrow> nat set \<Rightarrow> bool" where
  "obj_ok s oid C \<longleftrightarrow> caches_ok s \<and> 0 \<notin> cached_vbns s \<and> C \<subseteq> own s oid \<and> inj_on (cache_buf s) C \<and>
     (\<exists>x k. objs s oid = Some x \<and> caches s (oi_root_cache x) = Some k \<and>
        oi_root_cache x \<notin> members (ct_metadata_cache s) \<and> oi_inode_cache x \<in> members (oi_caches x) \<and>
        oi_inode_cache x \<notin> C \<and> cache_key s (oi_inode_cache x) = c_vbn k \<and>
        (\<forall>c \<in> C. \<forall>k. caches s c = Some k \<longrightarrow> fst (oi_attr_record x) = fst (c_ib k) \<longrightarrow>
           snd (oi_attr_record x) + 4 \<le> snd (c_ib k)))"

definition kept :: "container \<Rightarrow> container \<Rightarrow> nat \<Rightarrow> nat \<Rightarrow> nat set \<Rightarrow> bool" where
  "kept s s' oid hid K \<longleftrightarrow> handles s' hid = handles s hid \<and> obj_flags oid s' = obj_flags oid s \<and>
     env s' = env s \<and> ct_sm s' = ct_sm s \<and> ct_bsm s' = ct_bsm s \<and>
     (\<exists>x t. objs s oid = Some x \<and> objs s' oid = Some (x\<lparr> oi_caches := t \<rparr>) \<and> members t = members (oi_caches x)) \<and>
     (\<forall>c \<in> own s oid. map_option c_ib (caches s' c) = map_option c_ib (caches s c)) \<and>
     (\<forall>c \<in> K. caches s' c = caches s c \<and> cache_block s' c = cache_block s c)"

definition client_change :: "nat \<Rightarrow> nat \<Rightarrow> container \<Rightarrow> container \<Rightarrow> bool" where
  "client_change oid hid s s' \<longleftrightarrow> (\<exists>x y H K B u n. objs s oid = Some x \<and> oi_objid y = oi_objid x \<and>
     s' = s\<lparr> objs := (objs s)(oid \<mapsto> y), handles := H, caches := K, bufs := B, ct_metadata_cache := u, tick := n \<rparr> \<and>
     (\<forall>i. i \<noteq> hid \<longrightarrow> H i = handles s i) \<and> map_option h_obj_info (H hid) = map_option h_obj_info (handles s hid) \<and>
     (\<forall>c. c \<notin> own s oid \<longrightarrow> K c = caches s c))"

lemma client_changeI:
  "objs s oid = Some x \<Longrightarrow> oi_objid y = oi_objid x \<Longrightarrow>
   s' = s\<lparr> objs := (objs s)(oid \<mapsto> y), caches := K, bufs := B, ct_metadata_cache := u \<rparr> \<Longrightarrow>
   (\<And>c. c \<notin> own s oid \<Longrightarrow> K c = caches s c) \<Longrightarrow> client_change oid hid s s'"
  unfolding client_change_def
  by (rule exI [of _ x], rule exI [of _ y], rule exI [of _ "handles s"], rule exI [of _ K], rule exI [of _ B],
      rule exI [of _ u], rule exI [of _ "tick s"]) simp

lemma own_kept: "kept s s' oid hid K \<Longrightarrow> own s' oid = own s oid"
  by (auto simp: kept_def own_def)

lemma kept_mono: "kept s s' oid hid K \<Longrightarrow> K' \<subseteq> K \<Longrightarrow> kept s s' oid hid K'"
  unfolding kept_def by blast

lemma kept_trans:
  assumes "kept s1 s2 oid hid K" "kept s2 s3 oid hid K"
  shows "kept s1 s3 oid hid K"
proof -
  obtain x t where 1: "objs s1 oid = Some x" "objs s2 oid = Some (x\<lparr> oi_caches := t \<rparr>)" "members t = members (oi_caches x)"
    using assms(1) by (auto simp: kept_def)
  obtain t' where "objs s3 oid = Some (x\<lparr> oi_caches := t' \<rparr>)" "members t' = members (oi_caches x)"
    using assms(2) 1(2,3) by (auto simp: kept_def)
  then have "\<exists>x t. objs s1 oid = Some x \<and> objs s3 oid = Some (x\<lparr> oi_caches := t \<rparr>) \<and> members t = members (oi_caches x)"
    using 1(1) by blast
  then show ?thesis using assms own_kept [OF assms(1)] unfolding kept_def by simp
qed

lemma kept_refl: "objs s oid = Some x \<Longrightarrow> kept s s oid hid K"
  by (auto simp: kept_def intro!: exI [of _ x] exI [of _ "oi_caches x"])

lemma cached_iff:
  assumes "caches_ok s" "objs s oid = Some x"
  shows "cached s oid v c \<longleftrightarrow> c \<in> members (oi_caches x) \<and> cache_key s c = v"
proof -
  note D = caches_okD [OF assms(1)]
  have sub: "members (oi_caches x) \<subseteq> dom (caches s)" using D(2) D(4) [OF assms(2)] by (rule subset_trans [rotated])
  note F = cache_tree_find [OF D(3) [OF assms(2)] sub]
  show ?thesis
  proof (cases "v \<in> cache_key s ` members (oi_caches x)")
    case True
    then obtain c0 where c0: "c0 \<in> members (oi_caches x)" "cache_key s c0 = v" by blast
    obtain p where p: "avl_find (oi_caches x) (compare_cache2 s v) = Some (Found p)" "pos_data p = c0"
      using F(1) [OF c0] by blast
    have "c = c0" if "c \<in> members (oi_caches x)" "cache_key s c = v"
      using inj_onD [OF avl_inv_inj [OF D(3) [OF assms(2)]], of c c0] that c0 by simp
    then show ?thesis using p c0 assms(2) by (cases p) (auto simp: cached_def)
  next
    case False
    then obtain w where "avl_find (oi_caches x) (compare_cache2 s v) = Some (Where w)" using F(2) by blast
    then show ?thesis using False assms(2) by (auto simp: cached_def)
  qed
qed

lemma cache_key_kept: "kept s s' oid hid K \<Longrightarrow> c \<in> K \<Longrightarrow> cache_key s' c = cache_key s c"
  by (simp add: kept_def cache_key_def)

lemma cached_kept:
  assumes "kept s s' oid hid K" "c \<in> K" "caches_ok s" "caches_ok s'"
  shows "cached s' oid v c \<longleftrightarrow> cached s oid v c"
proof -
  obtain x t where x: "objs s oid = Some x" "objs s' oid = Some (x\<lparr> oi_caches := t \<rparr>)" "members t = members (oi_caches x)"
    using assms(1) by (auto simp: kept_def)
  show ?thesis
    using cached_iff [OF assms(3) x(1)] cached_iff [OF assms(4) x(2)] x(3) cache_key_kept [OF assms(1,2)] by simp
qed

lemma cached_moved:
  assumes "kept s s' oid hid K" "caches_ok s" "caches_ok s'" "cached s oid v c"
  shows "cached s' oid (cache_key s' c) c" "cache_key s c = v"
proof -
  obtain x t where x: "objs s oid = Some x" "objs s' oid = Some (x\<lparr> oi_caches := t \<rparr>)" "members t = members (oi_caches x)"
    using assms(1) by (auto simp: kept_def)
  show "cached s' oid (cache_key s' c) c" "cache_key s c = v"
    using cached_iff [OF assms(2) x(1)] cached_iff [OF assms(3) x(2)] x(3) assms(4) by simp_all
qed

lemma tree_on_root: "tree_on s oid c C t \<Longrightarrow> c \<in> C"
  by (auto elim: tree_on.cases)

lemma tree_on_kept:
  "tree_on s oid c C t \<Longrightarrow> kept s s' oid hid K \<Longrightarrow> C \<subseteq> K \<Longrightarrow> caches_ok s \<Longrightarrow> caches_ok s' \<Longrightarrow> tree_on s' oid c C t"
proof (induction rule: tree_on.induct)
  case (on_leaf c b m p es)
  then show ?case by (intro tree_on.on_leaf) (auto simp: kept_def)
next
  case (on_node c b m p es ts k Cs C)
  have sub: "Cs i \<subseteq> K" if "i < length es" for i using on_node.prems(2) on_node.hyps that by auto
  have "\<exists>v c'. echild (es ! i) = Some v \<and> c_vbn k \<noteq> v \<and> cached s' oid v c' \<and>
      tree_on s' oid c' (Cs i) (ts ! i) \<and> c \<notin> Cs i" if i: "i < length es" for i
  proof -
    obtain v c' where 1: "echild (es ! i) = Some v" "c_vbn k \<noteq> v" "cached s oid v c'" "tree_on s oid c' (Cs i) (ts ! i)"
      "tree_on s' oid c' (Cs i) (ts ! i)" "c \<notin> Cs i" using on_node.IH [OF i] sub [OF i] on_node.prems by blast
    then have "cached s' oid v c'" using cached_kept [OF on_node.prems(1) _ on_node.prems(3,4)] tree_on_root sub [OF i] by blast
    then show ?thesis using 1 by blast
  qed
  then show ?case
    using on_node.hyps on_node.prems by (intro tree_on.on_node [where b = b and m = m and p = p and k = k and Cs = Cs]) (auto simp: kept_def)
qed


definition served :: "nat \<Rightarrow> nat \<Rightarrow> container \<Rightarrow> container \<Rightarrow> bool" where
  "served oid hid s s' \<longleftrightarrow> caches_ok s' \<and> (0 \<notin> cached_vbns s \<longrightarrow> 0 \<notin> cached_vbns s') \<and>
     handles s' hid = handles s hid \<and> objs s' oid = objs s oid \<and> obj_flags oid s' = obj_flags oid s \<and>
     env s' = env s \<and> ct_sm s' = ct_sm s \<and> ct_bsm s' = ct_bsm s \<and>
     members (ct_metadata_cache s') \<inter> own s oid = members (ct_metadata_cache s) \<inter> own s oid \<and>
     (\<forall>c \<in> own s oid. caches s' c = caches s c \<and> cache_block s' c = cache_block s c)"

lemma served_ok:
  assumes "obj_ok s oid C" "served oid hid s s'"
  shows "obj_ok s' oid C" "kept s s' oid hid (own s oid)" "own s' oid = own s oid"
proof -
  from assms(1) obtain x k where x: "objs s oid = Some x" "caches s (oi_root_cache x) = Some k"
    "oi_root_cache x \<notin> members (ct_metadata_cache s)" "oi_inode_cache x \<in> members (oi_caches x)"
    "oi_inode_cache x \<notin> C" "cache_key s (oi_inode_cache x) = c_vbn k"
    "\<forall>c \<in> C. \<forall>k. caches s c = Some k \<longrightarrow> fst (oi_attr_record x) = fst (c_ib k) \<longrightarrow>
           snd (oi_attr_record x) + 4 \<le> snd (c_ib k)"
    and C: "C \<subseteq> own s oid" "inj_on (cache_buf s) C" "0 \<notin> cached_vbns s"
    by (auto simp: obj_ok_def)
  have o: "own s oid = insert (oi_root_cache x) (members (oi_caches x))" using x(1) by (simp add: own_def)
  have same: "caches s' c = caches s c" "cache_block s' c = cache_block s c" if "c \<in> own s oid" for c
    using that assms(2) by (auto simp: served_def)
  have "\<forall>c\<in>own s oid. map_option c_ib (caches s' c) = map_option c_ib (caches s c)" using same by simp
  then show k': "kept s s' oid hid (own s oid)"
    using assms(2) x(1) unfolding kept_def served_def by (auto intro!: exI [of _ "oi_caches x"])
  show own': "own s' oid = own s oid" by (rule own_kept [OF k'])
  have "inj_on (cache_buf s') C \<longleftrightarrow> inj_on (cache_buf s) C"
    by (rule inj_on_cong) (use same C(1) in \<open>auto simp: cache_buf_def\<close>)
  moreover have "oi_root_cache x \<notin> members (ct_metadata_cache s')"
    using assms(2) x(3) o by (auto simp: served_def)
  moreover have "cache_key s' (oi_inode_cache x) = c_vbn k"
    using same [of "oi_inode_cache x"] x(4,6) o by (simp add: cache_key_def)
  moreover have "caches s' (oi_root_cache x) = Some k" using same(1) [of "oi_root_cache x"] x(2) o by simp
  moreover have "\<forall>c \<in> C. \<forall>k. caches s' c = Some k \<longrightarrow> fst (oi_attr_record x) = fst (c_ib k) \<longrightarrow>
           snd (oi_attr_record x) + 4 \<le> snd (c_ib k)" using x(7) same(1) C(1) by (metis subsetD)
  ultimately show "obj_ok s' oid C"
    using assms(2) x C own' unfolding obj_ok_def served_def by auto
qed

locale block_service =
  fixes ops :: space_ops and objid :: u64 and oid hid :: nat
    and can_alloc can_free :: "container \<Rightarrow> bool"
  assumes alloc_law: "can_alloc s \<Longrightarrow> caches_ok s \<Longrightarrow> 0 \<notin> cached_vbns s \<Longrightarrow>
      \<exists>v s'. OFS_ALLOC_BLOCK ops objid s = Some (Inr v, s') \<and> v \<noteq> 0 \<and> v \<notin> cached_vbns s' \<and>
        can_free s' \<and> served oid hid s s'"
    and free_law: "can_free s \<Longrightarrow> caches_ok s \<Longrightarrow> 0 \<notin> cached_vbns s \<Longrightarrow> v \<noteq> 0 \<Longrightarrow> v \<notin> cached_vbns s \<Longrightarrow>
      \<exists>s'. OFS_FREE_BLOCK ops objid v s = Some (Inr (), s') \<and> can_alloc s' \<and> served oid hid s s'"
    and alloc_kept: "can_alloc s \<Longrightarrow> client_change oid hid s s' \<Longrightarrow> caches_ok s' \<Longrightarrow>
      cached_vbns s' = cached_vbns s \<Longrightarrow> can_alloc s'"
    and free_kept: "can_free s \<Longrightarrow> client_change oid hid s s' \<Longrightarrow> caches_ok s' \<Longrightarrow> can_free s'"

lemma vbn_unique:
  assumes "caches_ok s" "c \<in> members (ct_metadata_cache s)" "c' \<in> members (ct_metadata_cache s)" "c \<noteq> c'"
  shows "cache_key s c \<noteq> cache_key s c'"
  using inj_onD [OF avl_inv_inj [OF caches_okD(1) [OF assms(1)]], of c c'] assms(2-4) by blast

lemma cached_vbns_rekey:
  assumes "\<And>c'. c' \<in> members (ct_metadata_cache s) \<Longrightarrow> c' \<noteq> c \<Longrightarrow> cache_key s' c' = cache_key s c'"
    "members (ct_metadata_cache s') = members (ct_metadata_cache s)" "c \<in> members (ct_metadata_cache s)"
    "cache_key s' c = v"
  shows "cached_vbns s' = insert v (cache_key s ` (members (ct_metadata_cache s) - {c}))"
  using assms by (force simp: cached_vbns_def)

lemma set_flags_kept:
  assumes "objs s' oid = map_option (\<lambda>x. x\<lparr> oi_caches := t \<rparr>) (objs s oid)" "bufs s' = bufs s"
  shows "obj_flags oid s' = obj_flags oid s"
  using assms by (cases "objs s oid") (simp_all add: obj_flags_def)

lemma change_block_ok:
  assumes ok: "obj_ok s oid C" and x: "objs s oid = Some x" and h: "h_obj_info h = oid"
    and c: "c \<in> C" "d = 0 \<longleftrightarrow> c = oi_root_cache x" "0 < d \<Longrightarrow> h_cache_stack h d = c"
    and k: "caches s c = Some k" and v: "v \<notin> cached_vbns s" "v \<noteq> 0"
  shows "\<exists>s'. change_block h d v s = Some s' \<and> obj_ok s' oid C \<and> kept s s' oid hid (C - {c}) \<and>
    client_change oid hid s s' \<and> caches s' c = Some (k\<lparr> c_vbn := v \<rparr>) \<and> bufs s' = bufs s \<and>
    c_vbn k \<notin> cached_vbns s' \<and> c_vbn k \<noteq> 0"
proof -
  from ok x obtain kr where cok: "caches_ok s" and z: "0 \<notin> cached_vbns s" and C: "C \<subseteq> own s oid" "inj_on (cache_buf s) C"
    and r: "caches s (oi_root_cache x) = Some kr" "oi_root_cache x \<notin> members (ct_metadata_cache s)"
    "oi_inode_cache x \<in> members (oi_caches x)" "oi_inode_cache x \<notin> C" "cache_key s (oi_inode_cache x) = c_vbn kr"
    "\<forall>c \<in> C. \<forall>k. caches s c = Some k \<longrightarrow> fst (oi_attr_record x) = fst (c_ib k) \<longrightarrow>
           snd (oi_attr_record x) + 4 \<le> snd (c_ib k)"
    by (auto simp: obj_ok_def)
  note D = caches_okD [OF cok]
  show ?thesis
  proof (cases "d = 0")
    case False
    then have cm: "c \<in> members (oi_caches x)" "h_cache_stack h d = c" using c C x by (auto simp: own_def)
    have cM: "c \<in> members (ct_metadata_cache s)" using D(4) [OF x] cm(1) by blast
    have nv: "v \<notin> cache_key s ` (members (ct_metadata_cache s) - {c})" using v(1) by (auto simp: cached_vbns_def)
    obtain t u where tu: "change_obj_cache_vbn oid c v s = Some (with_trees (put_cache c (k\<lparr> c_vbn := v \<rparr>) s) oid x t u)"
      "caches_ok (with_trees (put_cache c (k\<lparr> c_vbn := v \<rparr>) s) oid x t u)"
      "members t = members (oi_caches x)" "members u = members (ct_metadata_cache s)"
      using change_obj_cache_vbn_ok [OF cok x cm(1) k nv] by blast
    define s' where "s' = with_trees (put_cache c (k\<lparr> c_vbn := v \<rparr>) s) oid x t u"
    have sel: "caches s' = (caches s)(c \<mapsto> k\<lparr> c_vbn := v \<rparr>)" "objs s' = (objs s)(oid \<mapsto> x\<lparr> oi_caches := t \<rparr>)"
      "bufs s' = bufs s" "members (ct_metadata_cache s') = members (ct_metadata_cache s)" "handles s' = handles s"
      "env s' = env s" "ct_sm s' = ct_sm s" "ct_bsm s' = ct_bsm s"
      using tu(4) by (simp_all add: s'_def)
    have key: "cache_key s' = (cache_key s)(c := v)" using sel(1) by (auto simp: cache_key_def)
    have vb: "cached_vbns s' = insert v (cache_key s ` (members (ct_metadata_cache s) - {c}))"
      by (rule cached_vbns_rekey) (simp_all add: key sel cM)
    have old: "c_vbn k = cache_key s c" using k by (simp add: cache_key_def)
    have "c_vbn k \<notin> cached_vbns s'"
      using vb old v(1) cM vbn_unique [OF cok cM] by (auto simp: cached_vbns_def)
    moreover have "c_vbn k \<noteq> 0" using z old cM by (auto simp: cached_vbns_def)
    moreover have "client_change oid hid s s'"
      by (rule client_changeI [where x = x and y = "x\<lparr> oi_caches := t \<rparr>" and K = "caches s'" and B = "bufs s" and u = u]) (use x cm in \<open>auto simp: s'_def put_cache_def own_def\<close>)
    moreover have ks: "kept s s' oid hid (C - {c})"
      using set_flags_kept [of s' oid t s] sel x tu(3) k
      by (auto simp: kept_def cache_block_def intro!: exI [of _ x] exI [of _ t])
    moreover have "obj_ok s' oid C"
    proof -
      have "inj_on (cache_buf s') C \<longleftrightarrow> inj_on (cache_buf s) C"
        by (rule inj_on_cong) (use k sel(1) in \<open>simp add: cache_buf_def\<close>)
      moreover have "0 \<notin> cached_vbns s'" using vb v(2) z by (auto simp: cached_vbns_def)
      moreover have "oi_root_cache x \<noteq> c" "oi_inode_cache x \<noteq> c" using r(2,4) cM c(1) by auto
      moreover have "own s' oid = own s oid" by (rule own_kept [OF ks])
      moreover have "caches_ok s'" using tu(2) s'_def by simp
      ultimately show ?thesis using C r k sel key tu(3) unfolding obj_ok_def by auto
    qed
    moreover have "change_block h d v s = Some s'" using tu(1) cm(2) h False by (simp add: change_block_def s'_def)
    ultimately show ?thesis using sel by auto
  next
    case True
    then have cr: "c = oi_root_cache x" "k = kr" using c(2) k r(1) by simp_all
    let ?i = "oi_inode_cache x" and ?s1 = "put_cache c (k\<lparr> c_vbn := v \<rparr>) s"
    have iM: "?i \<in> members (ct_metadata_cache s)" using D(4) [OF x] r(3) by blast
    have ci: "c \<noteq> ?i" "c \<notin> members (ct_metadata_cache s)" using r(2) iM cr by auto
    obtain ki where ki: "caches s ?i = Some ki" using D(2) iM by blast
    have ok1: "caches_ok ?s1" using k ci by (intro caches_ok_put_cache [OF cok]) auto
    have key1: "cache_key ?s1 c' = cache_key s c'" if "c' \<in> members (ct_metadata_cache s)" for c'
      using that ci by (auto simp: cache_key_put_cache)
    have nv: "v \<notin> cache_key ?s1 ` (members (ct_metadata_cache ?s1) - {?i})" using v(1) key1 by (auto simp: cached_vbns_def)
    define s' where "s' t u = with_trees (put_cache ?i (ki\<lparr> c_vbn := v \<rparr>) ?s1) oid x t u" for t u
    obtain t u where tu: "change_obj_cache_vbn oid ?i v ?s1 = Some (s' t u)"
      "caches_ok (s' t u)" "members t = members (oi_caches x)" "members u = members (ct_metadata_cache s)"
      using change_obj_cache_vbn_ok [OF ok1 _ r(3) _ nv, of oid ki] ki ci x unfolding s'_def by auto
    have sel: "caches (s' t u) = (caches s)(c \<mapsto> k\<lparr> c_vbn := v \<rparr>, ?i \<mapsto> ki\<lparr> c_vbn := v \<rparr>)"
      "objs (s' t u) = (objs s)(oid \<mapsto> x\<lparr> oi_caches := t \<rparr>)"
      "bufs (s' t u) = bufs s" "members (ct_metadata_cache (s' t u)) = members (ct_metadata_cache s)" "handles (s' t u) = handles s"
      "env (s' t u) = env s" "ct_sm (s' t u) = ct_sm s" "ct_bsm (s' t u) = ct_bsm s"
      using tu(4) by (simp_all add: s'_def put_cache_def)
    have key: "cache_key (s' t u) = (cache_key s)(c := v, ?i := v)" using sel(1) by (auto simp: cache_key_def)
    have vb: "cached_vbns (s' t u) = insert v (cache_key s ` (members (ct_metadata_cache s) - {?i}))"
      by (rule cached_vbns_rekey) (use ci in \<open>auto simp: key sel iM\<close>)
    have old: "c_vbn k = cache_key s ?i" using cr r(5) by simp
    have "c_vbn k \<notin> cached_vbns (s' t u)"
      using vb old v(1) iM vbn_unique [OF cok iM] by (auto simp: cached_vbns_def)
    moreover have "c_vbn k \<noteq> 0" using z old iM by (auto simp: cached_vbns_def)
    moreover have "client_change oid hid s (s' t u)"
      by (rule client_changeI [where x = x and y = "x\<lparr> oi_caches := t \<rparr>" and K = "caches (s' t u)" and B = "bufs s" and u = u]) (use x cr r(3) in \<open>auto simp: s'_def put_cache_def own_def\<close>)
    moreover have ks: "kept s (s' t u) oid hid (C - {c})"
      using set_flags_kept [of "s' t u" oid t s] sel x tu(3) k ki r(4)
      by (auto simp: kept_def cache_block_def intro!: exI [of _ x] exI [of _ t])
    moreover have "obj_ok (s' t u) oid C"
    proof -
      have "inj_on (cache_buf (s' t u)) C \<longleftrightarrow> inj_on (cache_buf s) C"
        by (rule inj_on_cong) (use k ki sel(1) in \<open>simp add: cache_buf_def\<close>)
      moreover have "0 \<notin> cached_vbns (s' t u)" using vb v(2) z by (auto simp: cached_vbns_def)
      moreover have "own (s' t u) oid = own s oid" by (rule own_kept [OF ks])
      ultimately show ?thesis using C r k cr ci sel key tu(2,3) unfolding obj_ok_def by auto
    qed
    moreover have "change_block h d v s = Some (s' t u)" using tu(1) k cr x h True by (simp add: change_block_def)
    ultimately show ?thesis using sel ci by auto
  qed
qed


definition link_child :: "nat \<Rightarrow> u64 \<Rightarrow> ent list \<Rightarrow> ent list" where
  "link_child i v es = (if v = 0 then es else es[i := (es ! i)\<lparr> echild := Some v \<rparr>])"

lemma link_child_0: "link_child i 0 es = es"
  by (simp add: link_child_def)

definition points_to :: "object_handle \<Rightarrow> nat \<Rightarrow> ent list \<Rightarrow> nat \<Rightarrow> bool" where
  "points_to h d es i \<longleftrightarrow> i < length es \<and> echild (es ! i) \<noteq> None \<and>
     h_position_stack h d = of_nat (33 + esizes (take i es))"

lemma set_child_ok:
  assumes ok: "obj_ok s oid C" and c: "c \<in> C" "h_cache_stack h d = c" and b: "cache_block s c = Some (b, m, p)"
    and rep: "ib_rep m p es" and v: "v \<noteq> 0 \<longrightarrow> points_to h d es i"
  shows "\<exists>s' m'. set_child_vbn h d v s = Some s' \<and> obj_ok s' oid C \<and> kept s s' oid hid (C - {c}) \<and>
    client_change oid hid s s' \<and> caches s' = caches s \<and> cached_vbns s' = cached_vbns s \<and>
    cache_block s' c = Some (b, m', p) \<and> ib_rep m' p (link_child i v es) \<and> (v = 0 \<longrightarrow> m' = m)"
proof -
  from ok obtain x kr where cok: "caches_ok s" and x: "objs s oid = Some x" and C: "inj_on (cache_buf s) C"
    and r: "\<forall>c \<in> C. \<forall>k. caches s c = Some k \<longrightarrow> fst (oi_attr_record x) = fst (c_ib k) \<longrightarrow>
           snd (oi_attr_record x) + 4 \<le> snd (c_ib k)"
    by (auto simp: obj_ok_def)
  have cc: "client_change oid hid s (s\<lparr> bufs := B \<rparr>)" for B
    by (rule client_changeI [where x = x and y = x and K = "caches s" and B = B and u = "ct_metadata_cache s"]) (use x in \<open>simp_all add: fun_upd_idem\<close>)
  have cv: "cached_vbns (put_buf b m' s) = cached_vbns s" for m' by (simp add: cached_vbns_def)
  show ?thesis
  proof (cases "v = 0")
    case True
    have "client_change oid hid s s" using cc [of "bufs s"] by simp
    then show ?thesis using True ok kept_refl [OF x] b rep by (auto simp: set_child_vbn_def link_child_def)
  next
    case False
    then have i: "i < length es" "h_position_stack h d = of_nat (33 + esizes (take i es))"
      and "echild (es ! i) \<noteq> None" using v by (auto simp: points_to_def)
    then obtain v0 where v0: "echild (es ! i) = Some v0" by blast
    let ?m = "SET_IE_VBN m (ie_off p es i) v"
    have "33 + esizes (take i es) < 2 ^ 64"
      using ib_rep_pos_bound [OF rep, of i] by simp
    then have "p + unat (h_position_stack h d) = ie_off p es i"
      by (simp only: i(2) unat_of_nat_u64) (simp add: ie_off_def)
    then have s': "set_child_vbn h d v s = Some (put_buf b ?m s)" using False c b by (simp add: set_child_vbn_def)
    note rp = set_child_rep [OF rep i(1) v0, where v = v]
    obtain k where k: "caches s c = Some k" "c_ib k = (b, p)" "bufs s b = Some m"
      using b by (auto simp: cache_block_def bind_eq_Some_conv prod_eq_iff)
    have bc: "cache_block (put_buf b ?m s) c = Some (b, ?m, p)" using k by (simp add: cache_block_def)
    have oth: "cache_block (put_buf b ?m s) c' = cache_block s c'" if "c' \<in> C" "c' \<noteq> c" for c'
    proof (cases "caches s c'")
      case (Some k')
      then have "fst (c_ib k') \<noteq> b" using inj_onD [OF C, of c' c] that c(1) k by (auto simp: cache_buf_def)
      then show ?thesis using Some by (simp add: cache_block_def)
    qed (simp add: cache_block_def)
    have fl: "obj_flags oid (put_buf b ?m s) = obj_flags oid s"
    proof (cases "fst (oi_attr_record x) = b")
      case True
      then have "snd (oi_attr_record x) + 4 \<le> p" using r c(1) k by auto
      then have "rd ?m (snd (oi_attr_record x) + 2) 2 = rd m (snd (oi_attr_record x) + 2) 2"
        by (intro rd_eqI rp(2)) simp
      then show ?thesis using True x k(3) by (simp add: obj_flags_def get16_def)
    next
      case False
      then show ?thesis using x by (simp add: obj_flags_def)
    qed
    have ks: "kept s (put_buf b ?m s) oid hid (C - {c})"
      using fl x oth by (auto simp: kept_def put_buf_def intro!: exI [of _ x] exI [of _ "oi_caches x"])
    have "caches_ok (put_buf b ?m s)"
      by (rule caches_ok_mono [OF cok]) (use caches_okD(2,5,6) [OF cok] in auto)
    then have "obj_ok (put_buf b ?m s) oid C"
      using ok cv own_kept [OF ks] unfolding obj_ok_def by (auto simp: cache_buf_def [abs_def])
    moreover have "client_change oid hid s (put_buf b ?m s)" unfolding put_buf_def by (rule cc)
    ultimately show ?thesis
      using s' ks bc rp(1) False cv by (auto simp: link_child_def)
  qed
qed

lemma mark_dirty_ok:
  assumes ok: "obj_ok s oid C" and c: "c \<in> C" and k: "caches s c = Some k"
  shows "\<exists>s'. set_cache_state c DIRTY s = Some s' \<and> obj_ok s' oid C \<and> kept s s' oid hid (C - {c}) \<and>
    client_change oid hid s s' \<and> caches s' = (caches s)(c \<mapsto> k\<lparr> c_state := DIRTY \<rparr>) \<and> cached_vbns s' = cached_vbns s \<and>
    cache_block s' c = cache_block s c"
proof -
  let ?s = "put_cache c (k\<lparr> c_state := DIRTY \<rparr>) s"
  from ok obtain x where cok: "caches_ok s" and x: "objs s oid = Some x" and C: "C \<subseteq> own s oid" by (auto simp: obj_ok_def)
  have st: "set_cache_state c DIRTY s = Some ?s" "caches_ok ?s" using set_cache_state_ok [OF cok k] by auto
  have key: "cache_key ?s = cache_key s" using k by (auto simp: cache_key_put_cache cache_key_def)
  have cv: "cached_vbns ?s = cached_vbns s" by (simp add: cached_vbns_def key)
  have ks: "kept s ?s oid hid (C - {c})"
    using x k by (auto simp: kept_def cache_block_def obj_flags_def intro!: exI [of _ x] exI [of _ "oi_caches x"])
  have cb: "cache_buf ?s = cache_buf s" using k by (auto simp: cache_buf_def)
  have "obj_ok ?s oid C"
    using ok st(2) cv cb key own_kept [OF ks] k unfolding obj_ok_def by auto
  moreover have "client_change oid hid s ?s"
    by (rule client_changeI [where x = x and y = x and K = "caches ?s" and B = "bufs s" and u = "ct_metadata_cache s"]) (use x c C in \<open>auto simp: put_cache_def fun_upd_idem\<close>)
  moreover have "cache_block ?s c = cache_block s c" using k by (simp add: cache_block_def)
  ultimately show ?thesis using st(1) ks cv by auto
qed


section \<open>Trees up to the child numbers\<close>

definition strip :: "ent \<Rightarrow> ent" where "strip e = e\<lparr> echild := None \<rparr>"

lemma strip_sel [simp]: "eend (strip e) = eend e" "ekey (strip e) = ekey e" "evalue (strip e) = evalue e"
  by (simp_all add: strip_def)

fun strip_tree :: "bt \<Rightarrow> bt" where
  "strip_tree (Bt es ts) = Bt (map strip es) (map strip_tree ts)"

lemma strip_tree_entries: "bt_entries (strip_tree t) = map strip (bt_entries t)"
proof (induction t rule: bt_entries.induct)
  case (1 es ts)
  show ?case
  proof (cases "ts = []")
    case True
    then show ?thesis by (simp add: bt_entries.simps filter_map o_def)
  next
    case False
    let ?g = "\<lambda>(t, e). bt_entries t @ (if eend e then [] else [e])"
    have eq: "map (?g \<circ> (\<lambda>(t, e). (strip_tree t, strip e))) (zip ts es) = map (map strip \<circ> ?g) (zip ts es)"
      using 1 False by (auto dest: set_zip_leftD)
    then have "concat (map ?g (zip (map strip_tree ts) (map strip es))) = map strip (concat (map ?g (zip ts es)))"
      by (simp only: zip_map_map map_concat map_map eq)
    then show ?thesis using False by (simp add: bt_entries.simps)
  qed
qed

lemma strip_tree_height: "bt_height (strip_tree t) = bt_height t"
proof (induction t rule: strip_tree.induct)
  case (1 es ts)
  then have "(\<lambda>t. bt_height (strip_tree t)) ` set ts = bt_height ` set ts" by (intro image_cong refl) auto
  then show ?case by (simp add: bt_height.simps image_image)
qed

lemma strip_link_child [simp]: "map strip (link_child i v es) = map strip es"
proof -
  have "map strip (es[i := (es ! i)\<lparr> echild := Some v \<rparr>]) = map strip es"
    by (cases "i < length es") (simp_all add: map_update strip_def list_update_same_conv list_update_beyond)
  then show ?thesis by (simp add: link_child_def)
qed

lemma own_vbn:
  assumes ok: "obj_ok s oid C" and c: "c \<in> C" "caches s c = Some k" and c': "c' \<in> C" "c' \<noteq> c" "cached s oid v c'"
  shows "c_vbn k \<noteq> v"
proof -
  from ok obtain x kr where cok: "caches_ok s" and x: "objs s oid = Some x" and C: "C \<subseteq> own s oid"
    and r: "caches s (oi_root_cache x) = Some kr" "oi_inode_cache x \<in> members (oi_caches x)" "oi_inode_cache x \<notin> C"
      "cache_key s (oi_inode_cache x) = c_vbn kr" by (auto simp: obj_ok_def)
  have v: "c' \<in> members (oi_caches x)" "cache_key s c' = v" using cached_iff [OF cok x] c'(3) by auto
  have sub: "members (oi_caches x) \<subseteq> members (ct_metadata_cache s)" by (rule caches_okD(4) [OF cok x])
  have u: "cache_key s a \<noteq> v" if "a \<in> members (oi_caches x)" "a \<noteq> c'" for a
    using vbn_unique [OF cok subsetD [OF sub that(1)] subsetD [OF sub v(1)] that(2)] v(2) by simp
  show ?thesis
  proof (cases "c = oi_root_cache x")
    case True
    then have "c_vbn k = cache_key s (oi_inode_cache x)" using r c by simp
    moreover have "oi_inode_cache x \<noteq> c'" using r(3) c'(1) by blast
    ultimately show ?thesis using u [OF r(2)] by simp
  next
    case False
    then have "c \<in> members (oi_caches x)" using c(1) C x by (auto simp: own_def)
    then show ?thesis using u [of c] c'(2) c(2) by (simp add: cache_key_def)
  qed
qed

lemma own_key_cached:
  assumes ok: "obj_ok s oid C" and c: "c \<in> C" "caches s c = Some k"
  shows "c_vbn k \<in> cached_vbns s"
proof -
  from ok obtain x kr where cok: "caches_ok s" and x: "objs s oid = Some x" and C: "C \<subseteq> own s oid"
    and r: "caches s (oi_root_cache x) = Some kr" "oi_inode_cache x \<in> members (oi_caches x)"
      "cache_key s (oi_inode_cache x) = c_vbn kr" by (auto simp: obj_ok_def)
  have sub: "members (oi_caches x) \<subseteq> members (ct_metadata_cache s)" by (rule caches_okD(4) [OF cok x])
  show ?thesis
  proof (cases "c = oi_root_cache x")
    case True
    then have "c_vbn k = cache_key s (oi_inode_cache x)" using r c by simp
    then show ?thesis using subsetD [OF sub r(2)] by (simp add: cached_vbns_def)
  next
    case False
    then have "c \<in> members (oi_caches x)" using c(1) C x by (auto simp: own_def)
    then have "c \<in> members (ct_metadata_cache s)" using sub by blast
    moreover have "cache_key s c = c_vbn k" using c(2) by (simp add: cache_key_def)
    ultimately show ?thesis unfolding cached_vbns_def by (metis imageI)
  qed
qed

lemma tree_on_rebuild:
  assumes ok: "obj_ok s oid C" and c: "c \<in> C" "cache_block s c = Some (b, m, p)" "ib_rep m p es"
    and l: "length ts = length es"
    and ch: "\<And>j. j < length es \<Longrightarrow> \<exists>v c'. echild (es ! j) = Some v \<and> cached s oid v c' \<and>
      tree_on s oid c' (Cs j) (ts ! j) \<and> c \<notin> Cs j \<and> Cs j \<subseteq> C"
    and dj: "\<And>i j. i < length es \<Longrightarrow> j < length es \<Longrightarrow> i \<noteq> j \<Longrightarrow> Cs i \<inter> Cs j = {}"
  shows "tree_on s oid c (insert c (\<Union>j<length es. Cs j)) (Bt es ts)"
proof -
  obtain k where k: "caches s c = Some k" using c(2) by (auto simp: cache_block_def bind_eq_Some_conv)
  show ?thesis
  proof (rule tree_on.on_node [OF c(2,3) l k _ dj refl])
    fix j assume j: "j < length es"
    obtain v c' where 1: "echild (es ! j) = Some v" "cached s oid v c'" "tree_on s oid c' (Cs j) (ts ! j)" "c \<notin> Cs j" "Cs j \<subseteq> C"
      using ch [OF j] by blast
    have "c' \<in> C" "c' \<noteq> c" using tree_on_root [OF 1(3)] 1(4,5) by auto
    from own_vbn [OF ok c(1) k this 1(2)]
    show "\<exists>v c'. echild (es ! j) = Some v \<and> c_vbn k \<noteq> v \<and> cached s oid v c' \<and>
       tree_on s oid c' (Cs j) (ts ! j) \<and> c \<notin> Cs j" using 1 by blast
  qed
qed

text \<open>A dirty block has dirty blocks above it.\<close>

inductive dirty_up :: "container \<Rightarrow> nat \<Rightarrow> nat \<Rightarrow> bt \<Rightarrow> bool" for s oid where
  "(\<And>i. i < length ts \<Longrightarrow> \<exists>v c'. echild (es ! i) = Some v \<and> cached s oid v c' \<and> dirty_up s oid c' (ts ! i) \<and>
      (dirty_at s c' \<longrightarrow> dirty_at s c)) \<Longrightarrow> dirty_up s oid c (Bt es ts)"

inductive_cases dirty_upE: "dirty_up s oid c (Bt es ts)"

lemma dirty_at_kept: "kept s s' oid hid K \<Longrightarrow> c \<in> K \<Longrightarrow> dirty_at s' c \<longleftrightarrow> dirty_at s c"
  by (simp add: kept_def dirty_at_def)

lemma dirty_up_kept:
  "tree_on s oid c C t \<Longrightarrow> dirty_up s oid c t \<Longrightarrow> kept s s' oid hid K \<Longrightarrow> C \<subseteq> K \<Longrightarrow> caches_ok s \<Longrightarrow> caches_ok s' \<Longrightarrow>
   dirty_up s' oid c t"
proof (induction rule: tree_on.induct)
  case (on_leaf c b m p es)
  then show ?case by (intro dirty_up.intros) auto
next
  case (on_node c b m p es ts k Cs C)
  show ?case
  proof (rule dirty_up.intros)
    fix i assume "i < length ts"
    then have i: "i < length es" using on_node.hyps(3) by simp
    then have sub: "Cs i \<subseteq> K" "c \<in> K" using on_node.prems on_node.hyps by auto
    obtain v c' where 1: "echild (es ! i) = Some v" "cached s oid v c'" "dirty_up s oid c' (ts ! i)" "dirty_at s c' \<longrightarrow> dirty_at s c"
      using on_node.prems(1) \<open>i < length ts\<close> by (elim dirty_upE) blast
    obtain c2 where 2: "cached s oid v c2" "tree_on s oid c2 (Cs i) (ts ! i)"
      "dirty_up s oid c2 (ts ! i) \<Longrightarrow> dirty_up s' oid c2 (ts ! i)"
      using on_node.IH [OF i] on_node.prems sub(1) 1(1) by auto
    have e: "c2 = c'" by (rule cached_fun [OF 2(1) 1(2)])
    have cK: "c' \<in> K" using tree_on_root [OF 2(2)] sub e by auto
    show "\<exists>v c'. echild (es ! i) = Some v \<and> cached s' oid v c' \<and> dirty_up s' oid c' (ts ! i) \<and> (dirty_at s' c' \<longrightarrow> dirty_at s' c)"
      using 1 2 e cached_kept [OF on_node.prems(2) cK on_node.prems(4,5)] dirty_at_kept [OF on_node.prems(2)] cK sub(2) by blast
  qed
qed

lemma tree_on_children:
  assumes "tree_on s oid c C (Bt es ts)" "ts \<noteq> []"
  obtains Cs where "length ts = length es" "C = insert c (\<Union>i<length es. Cs i)"
    "\<And>i. i < length es \<Longrightarrow> \<exists>v c'. echild (es ! i) = Some v \<and> cached s oid v c' \<and>
       tree_on s oid c' (Cs i) (ts ! i) \<and> c \<notin> Cs i"
    "\<And>i j. i < length es \<Longrightarrow> j < length es \<Longrightarrow> i \<noteq> j \<Longrightarrow> Cs i \<inter> Cs j = {}"
proof -
  from assms(1) show ?thesis
  proof cases
    case on_leaf
    then show ?thesis using assms(2) by simp
  next
    case (on_node b m p k Cs)
    show ?thesis by (rule that [OF on_node(3,7) _ on_node(6)]) (use on_node(5) in blast)
  qed
qed

lemma dirty_up_child:
  assumes "dirty_up s oid c (Bt es ts)" "j < length ts" "echild (es ! j) = Some v" "cached s oid v c'"
  shows "dirty_up s oid c' (ts ! j)" "dirty_at s c' \<Longrightarrow> dirty_at s c"
proof -
  obtain v' d where "echild (es ! j) = Some v'" "cached s oid v' d" "dirty_up s oid d (ts ! j)" "dirty_at s d \<longrightarrow> dirty_at s c"
    using assms(1,2) by (elim dirty_upE) blast
  moreover from this have "d = c'" using assms(3,4) by (auto dest: cached_fun)
  ultimately show "dirty_up s oid c' (ts ! j)" "dirty_at s c' \<Longrightarrow> dirty_at s c" by simp_all
qed

lemma node_again:
  assumes ok: "obj_ok s oid C" and c: "c \<in> C" "cache_block s c = Some (b, m, p)" "ib_rep m p es"
    and l: "length ts = length es" and d: "D \<Longrightarrow> dirty_at s c"
    and ch: "\<And>j. j < length es \<Longrightarrow> \<exists>v c'. echild (es ! j) = Some v \<and> cached s oid v c' \<and>
      tree_on s oid c' (Cs j) (ts ! j) \<and> (D \<longrightarrow> dirty_up s oid c' (ts ! j)) \<and> c \<notin> Cs j \<and> Cs j \<subseteq> C"
    and dj: "\<And>i j. i < length es \<Longrightarrow> j < length es \<Longrightarrow> i \<noteq> j \<Longrightarrow> Cs i \<inter> Cs j = {}"
  shows "tree_on s oid c (insert c (\<Union>j<length es. Cs j)) (Bt es ts)" "D \<Longrightarrow> dirty_up s oid c (Bt es ts)"
proof -
  show "tree_on s oid c (insert c (\<Union>j<length es. Cs j)) (Bt es ts)"
    by (rule tree_on_rebuild [OF ok c l _ dj]) (use ch in blast)
  show "dirty_up s oid c (Bt es ts)" if D
  proof (rule dirty_up.intros)
    fix i assume "i < length ts"
    then show "\<exists>v c'. echild (es ! i) = Some v \<and> cached s oid v c' \<and> dirty_up s oid c' (ts ! i) \<and>
      (dirty_at s c' \<longrightarrow> dirty_at s c)" using ch [of i] d that l by auto
  qed
qed

lemma child_kept:
  assumes "tree_on s oid c C t" "cached s oid v c" "kept s s' oid hid K" "C \<subseteq> K" "caches_ok s" "caches_ok s'"
  shows "cached s' oid v c \<and> tree_on s' oid c C t \<and> (dirty_up s oid c t \<longrightarrow> dirty_up s' oid c t)"
  using assms tree_on_kept dirty_up_kept cached_kept [OF assms(3)] tree_on_root [OF assms(1)] by blast

text \<open>The blocks from one block down a path.\<close>

inductive on_path :: "container \<Rightarrow> nat \<Rightarrow> nat \<Rightarrow> bt \<Rightarrow> nat list \<Rightarrow> nat \<Rightarrow> bool" for s oid where
  top: "on_path s oid c t is c"
| below: "i < length es \<Longrightarrow> ts \<noteq> [] \<Longrightarrow> echild (es ! i) = Some v \<Longrightarrow> cached s oid v c1 \<Longrightarrow>
    on_path s oid c1 (ts ! i) is a \<Longrightarrow> on_path s oid c (Bt es ts) (i # is) a"

inductive_cases on_path_NilE: "on_path s oid c t [] a"
inductive_cases on_path_ConsE: "on_path s oid c t (i # is) a"

lemma on_path_in: "on_path s oid c t is a \<Longrightarrow> tree_on s oid c C t \<Longrightarrow> a \<in> C"
proof (induction arbitrary: C rule: on_path.induct)
  case (top c t "is")
  then show ?case by (rule tree_on_root)
next
  case (below i es ts v c1 "is" a c)
  obtain b m p k Cs where "cache_block s c = Some (b, m, p)" "ib_rep m p es" "length ts = length es"
    "caches s c = Some k" and C: "C = insert c (\<Union>i<length es. Cs i)"
    and "\<And>i. i < length es \<Longrightarrow> \<exists>v c'. echild (es ! i) = Some v \<and> c_vbn k \<noteq> v \<and> cached s oid v c' \<and>
       tree_on s oid c' (Cs i) (ts ! i) \<and> c \<notin> Cs i"
    and "\<And>i j. i < length es \<Longrightarrow> j < length es \<Longrightarrow> i \<noteq> j \<Longrightarrow> Cs i \<inter> Cs j = {}"
    and t1: "tree_on s oid c1 (Cs i) (ts ! i)"
    by (rule at_path_on [OF below.prems below.hyps(1-4)]) (rule that)
  from below.IH [OF t1] below.hyps(1) C show ?case by blast
qed

text \<open>
  What a copy of a path does to the blocks: those that become dirty, and no others, get new numbers, and
  they are on the path.
\<close>

definition renumbered :: "container \<Rightarrow> container \<Rightarrow> nat set \<Rightarrow> (nat \<Rightarrow> bool) \<Rightarrow> bool" where
  "renumbered s s' C path \<longleftrightarrow> (\<forall>a \<in> C. (cache_key s' a \<noteq> cache_key s a \<longleftrightarrow> \<not> dirty_at s a \<and> dirty_at s' a) \<and>
     (dirty_at s a \<longrightarrow> dirty_at s' a) \<and> (dirty_at s' a \<longrightarrow> dirty_at s a \<or> path a))"

lemma renumbered_kept: "kept s s' oid hid K \<Longrightarrow> renumbered s s' K path"
  using dirty_at_kept cache_key_kept unfolding renumbered_def by blast

lemma renumbered_one:
  assumes "kept s s' oid hid (C - {c})" "dirty_at s' c" "path c"
    "if dirty_at s c then caches s' c = caches s c else cache_key s' c \<noteq> cache_key s c"
  shows "renumbered s s' C path"
proof -
  have "cache_key s' c = cache_key s c" if "caches s' c = caches s c" using that by (simp add: cache_key_def)
  then show ?thesis using renumbered_kept [OF assms(1)] assms(2-4) unfolding renumbered_def by (auto split: if_splits)
qed

lemma renumbered_then:
  assumes "renumbered s s1 C path" "kept s1 s2 oid hid (C - {c})" "dirty_at s2 c" "path c" "caches s1 c = caches s c"
    "if dirty_at s1 c then caches s2 c = caches s1 c else cache_key s2 c \<noteq> cache_key s1 c"
  shows "renumbered s s2 C path"
proof -
  have c: "dirty_at s1 c = dirty_at s c" "cache_key s1 c = cache_key s c" using assms(5) by (simp_all add: dirty_at_def cache_key_def)
  have "cache_key s2 c = cache_key s1 c" if "caches s2 c = caches s1 c" using that by (simp add: cache_key_def)
  then have c': "(cache_key s2 c \<noteq> cache_key s c \<longleftrightarrow> \<not> dirty_at s c \<and> dirty_at s2 c) \<and> (dirty_at s c \<longrightarrow> dirty_at s2 c) \<and>
      (dirty_at s2 c \<longrightarrow> dirty_at s c \<or> path c)" using assms(3,4,6) c by (auto split: if_splits)
  have "cache_key s2 a = cache_key s1 a" "dirty_at s2 a = dirty_at s1 a" if "a \<in> C" "a \<noteq> c" for a
    using cache_key_kept [OF assms(2)] dirty_at_kept [OF assms(2)] that by simp_all
  then have "(cache_key s2 a \<noteq> cache_key s a \<longleftrightarrow> \<not> dirty_at s a \<and> dirty_at s2 a) \<and> (dirty_at s a \<longrightarrow> dirty_at s2 a) \<and>
      (dirty_at s2 a \<longrightarrow> dirty_at s a \<or> path a)" if "a \<in> C" "a \<noteq> c" for a
    using that assms(1) unfolding renumbered_def by simp
  with c' show ?thesis unfolding renumbered_def by (intro ballI) (rename_tac a, case_tac "a = c", simp_all)
qed

text \<open>The path of a handle.\<close>

inductive stacked :: "container \<Rightarrow> nat \<Rightarrow> object_handle \<Rightarrow> nat \<Rightarrow> nat \<Rightarrow> bt \<Rightarrow> nat list \<Rightarrow> nat \<Rightarrow> bt \<Rightarrow> bool" for s oid h where
  here: "h_cache_stack h d = c \<Longrightarrow> stacked s oid h d c t [] c t"
| down: "h_cache_stack h d = c \<Longrightarrow> points_to h d es i \<Longrightarrow> ts \<noteq> [] \<Longrightarrow> echild (es ! i) = Some v \<Longrightarrow> cached s oid v c1 \<Longrightarrow>
    stacked s oid h (Suc d) c1 (ts ! i) is c' t' \<Longrightarrow> stacked s oid h d c (Bt es ts) (i # is) c' t'"

lemma stacked_frames:
  "path_frames s oid c t is fs c' t' \<Longrightarrow> path_ok s oid h (fs @ fs0) \<Longrightarrow>
   h_cache_stack h (length fs + length fs0) = c' \<Longrightarrow> stacked s oid h (length fs0) c t is c' t'"
proof (induction arbitrary: fs0 rule: path_frames.induct)
  case (here c t)
  then show ?case by (intro stacked.here) simp
next
  case (down i es ts v c1 "is" fs c' t' c)
  have p: "path_ok s oid h (fs @ (c, es, ts, i) # fs0)" using down.prems(1) by simp
  have "path_ok s oid h ((c, es, ts, i) # fs0)" using p by (induction fs) auto
  then have "h_cache_stack h (length fs0) = c" "points_to h (length fs0) es i"
    using down.hyps(1,3) by (simp_all add: points_to_def)
  moreover have "stacked s oid h (Suc (length fs0)) c1 (ts ! i) is c' t'"
    using down.IH [OF p] down.prems(2) by simp
  ultimately show ?case using down.hyps(2-4) by (intro stacked.down)
qed

lemma stacked_put_leaf:
  "stacked s oid h d c t is c' t' \<Longrightarrow> tree_rep s oid c t \<Longrightarrow> objs s' = objs s \<Longrightarrow> caches s' = caches s \<Longrightarrow>
   stacked s' oid h d c (put_leaf is es' t) is c' (put_leaf [] es' t')"
proof (induction rule: stacked.induct)
  case (here d c t)
  then show ?case using stacked.here [of h d c s' oid "put_leaf [] es' t"] by simp
next
  case (down d c es i ts v c1 "is" c' t')
  have "i < length es" using down.hyps(2) by (simp add: points_to_def)
  then have "tree_rep s oid c1 (ts ! i)" "i < length ts"
    using tree_rep_child [OF down.prems(1) down.hyps(3)] down.hyps(4,5) by (metis cached_fun option.inject)+
  then have "stacked s' oid h (Suc d) c1 (ts[i := put_leaf is es' (ts ! i)] ! i) is c' (put_leaf [] es' t')"
    using down.IH down.prems by simp
  moreover have "cached s' oid v c1" using down.hyps(5) cached_cong [OF down.prems(2,3)] by simp
  ultimately show ?case using down.hyps(1-4) by (auto intro!: stacked.down)
qed

context block_service
begin

definition freed :: "u64 \<Rightarrow> container \<Rightarrow> bool" where
  "freed v s' \<longleftrightarrow> (\<exists>s. can_free s \<and> OFS_FREE_BLOCK ops objid v s = Some (Inr (), s'))"

definition allotted :: "container \<Rightarrow> u64 \<Rightarrow> bool" where
  "allotted s v \<longleftrightarrow> can_alloc s \<and> (\<exists>s'. OFS_ALLOC_BLOCK ops objid s = Some (Inr v, s'))"

lemma dirty_step:
  assumes ok: "obj_ok s oid C" and x: "objs s oid = Some x" "oi_objid x = objid"
    and h: "handles s hid = Some h" "h_obj_info h = oid" "h_cache_stack h d = c"
    and c: "c \<in> C" "d = 0 \<longleftrightarrow> c = oi_root_cache x"
    and b: "cache_block s c = Some (b, m, p)" "ib_rep m p es" and v: "v \<noteq> 0 \<longrightarrow> points_to h d es i"
    and al: "can_alloc s"
  shows "\<exists>s' m' nv k. obj_ok s' oid C \<and> kept s s' oid hid (C - {c}) \<and> can_alloc s' \<and>
    cache_block s' c = Some (b, m', p) \<and> ib_rep m' p (link_child i v es) \<and> (v = 0 \<longrightarrow> m' = m) \<and> dirty_at s' c \<and>
    caches s' c = Some k \<and>
    (if dirty_at s c then set_ib_dirty_step ops hid v d up s = Some (Inr (), s') \<and> caches s' c = caches s c
     else set_ib_dirty_step ops hid v d up s = up nv s' \<and> nv \<noteq> 0 \<and> c_vbn k = nv \<and>
       nv \<noteq> cache_key s c \<and> allotted s nv \<and> freed (cache_key s c) s')"
proof -
  obtain k where k: "caches s c = Some k" using b(1) by (auto simp: cache_block_def bind_eq_Some_conv)
  have cok: "caches_ok s" "0 \<notin> cached_vbns s" and C: "C \<subseteq> own s oid" using ok by (auto simp: obj_ok_def)
  show ?thesis
  proof (cases "CACHE_DIRTY k")
    case True
    obtain s' m' where s': "set_child_vbn h d v s = Some s'" "obj_ok s' oid C" "kept s s' oid hid (C - {c})"
      "client_change oid hid s s'" "caches s' = caches s" "cached_vbns s' = cached_vbns s"
      "cache_block s' c = Some (b, m', p)" "ib_rep m' p (link_child i v es)" "v = 0 \<longrightarrow> m' = m"
      using set_child_ok [OF ok c(1) h(3) b v] by blast
    have "set_ib_dirty_step ops hid v d up s = Some (Inr (), s')"
      using True k h s'(1,5) by (simp add: set_ib_dirty_step_def renew_block_def)
    moreover have "can_alloc s'" using alloc_kept [OF al s'(4) _ s'(6)] s'(2) by (simp add: obj_ok_def)
    moreover have "dirty_at s c" "dirty_at s' c" using True k s'(5) by (simp_all add: dirty_at_def)
    ultimately show ?thesis using s' k by auto
  next
    case False
    obtain nv s1 where a: "OFS_ALLOC_BLOCK ops objid s = Some (Inr nv, s1)" "nv \<noteq> 0" "nv \<notin> cached_vbns s1"
      "can_free s1" "served oid hid s s1" using alloc_law [OF al cok] by blast
    note s1 = served_ok [OF ok a(5)]
    have k1: "caches s1 c = Some k" "cache_block s1 c = Some (b, m, p)" "objs s1 oid = Some x" "handles s1 hid = Some h"
      using a(5) c(1) C k b(1) x(1) h(1) by (auto simp: served_def)
    obtain s2 where s2: "change_block h d nv s1 = Some s2" "obj_ok s2 oid C" "kept s1 s2 oid hid (C - {c})"
      "client_change oid hid s1 s2" "caches s2 c = Some (k\<lparr> c_vbn := nv \<rparr>)" "bufs s2 = bufs s1"
      "c_vbn k \<notin> cached_vbns s2" "c_vbn k \<noteq> 0"
      using change_block_ok [OF s1(1) k1(3) h(2) c(1,2) h(3) k1(1) a(3,2)] by blast
    have f2: "can_free s2" using free_kept [OF a(4) s2(4)] s2(2) by (simp add: obj_ok_def)
    have b2: "cache_block s2 c = Some (b, m, p)" using s2(5,6) k1(1,2) by (auto simp: cache_block_def bind_eq_Some_conv)
    have h2: "handles s2 hid = Some h" using s2(3) k1(4) by (simp add: kept_def)
    obtain s3 m' where s3: "set_child_vbn h d v s2 = Some s3" "obj_ok s3 oid C" "kept s2 s3 oid hid (C - {c})"
      "client_change oid hid s2 s3" "caches s3 = caches s2" "cached_vbns s3 = cached_vbns s2"
      "cache_block s3 c = Some (b, m', p)" "ib_rep m' p (link_child i v es)" "v = 0 \<longrightarrow> m' = m"
      using set_child_ok [OF s2(2) c(1) h(3) b2 b(2) v] by blast
    have f3: "can_free s3" using free_kept [OF f2 s3(4)] s3(2) by (simp add: obj_ok_def)
    have k3: "caches s3 c = Some (k\<lparr> c_vbn := nv \<rparr>)" using s3(5) s2(5) by simp
    obtain s4 where s4: "set_cache_state c DIRTY s3 = Some s4" "obj_ok s4 oid C" "kept s3 s4 oid hid (C - {c})"
      "client_change oid hid s3 s4" "caches s4 = (caches s3)(c \<mapsto> k\<lparr> c_vbn := nv, c_state := DIRTY \<rparr>)"
      "cached_vbns s4 = cached_vbns s3" "cache_block s4 c = cache_block s3 c"
      using mark_dirty_ok [OF s3(2) c(1) k3] by auto
    have f4: "can_free s4" using free_kept [OF f3 s4(4)] s4(2) by (simp add: obj_ok_def)
    have k14: "kept s s4 oid hid (C - {c})"
      using kept_trans [OF kept_trans [OF kept_trans [OF kept_mono [OF s1(2)] s2(3)] s3(3)] s4(3)] C by blast
    obtain x4 where x4: "objs s4 oid = Some x4" "oi_objid x4 = objid" using k14 x by (auto simp: kept_def)
    have "c_vbn k \<notin> cached_vbns s4" using s2(7) s3(6) s4(6) by simp
    moreover have "caches_ok s4" "0 \<notin> cached_vbns s4" using s4(2) by (auto simp: obj_ok_def)
    ultimately obtain s5 where s5: "OFS_FREE_BLOCK ops objid (c_vbn k) s4 = Some (Inr (), s5)" "can_alloc s5" "served oid hid s4 s5"
      using free_law [OF f4 _ _ s2(8)] by blast
    note t5 = served_ok [OF s4(2) s5(3)]
    have co4: "c \<in> own s4 oid" using c(1) s4(2) by (auto simp: obj_ok_def)
    have k5: "caches s5 c = Some (k\<lparr> c_vbn := nv, c_state := DIRTY \<rparr>)" "cache_block s5 c = Some (b, m', p)"
      using s5(3) co4 s4(5,7) s3(7) by (auto simp: served_def)
    have "kept s s5 oid hid (C - {c})"
      using kept_trans [OF k14 kept_mono [OF t5(2)]] s4(2) by (auto simp: obj_ok_def)
    moreover have "dirty_at s5 c" "\<not> dirty_at s c" using k5 k False by (simp_all add: dirty_at_def CACHE_DIRTY_def DIRTY_def)
    moreover have "set_ib_dirty_step ops hid v d up s = up nv s5"
    proof -
      have "h_obj_info h = oid" "objs s4 oid = Some x4" using h(2) x4 by simp_all
      then show ?thesis
        using False k k1 h x a(1) s2(1) h2 s3(1) k3 s4(1) x4 s5(1)
        by (simp add: set_ib_dirty_step_def renew_block_def CACHE_DIRTY_def)
    qed
    moreover have "nv \<noteq> cache_key s c" using own_key_cached [OF s1(1) c(1) k1(1)] a(3) k by (auto simp: cache_key_def)
    moreover have "allotted s nv" "freed (cache_key s c) s5"
      using a(1) al s5(1) f4 k by (auto simp: allotted_def freed_def cache_key_def)
    ultimately show ?thesis using t5(1) s5(2) k5 s3(8,9) a(2) by auto
  qed
qed


text \<open>
  Along the path: the loop ends at a dirty block, or hands the new number of the topmost block up.
\<close>

definition handed_up :: "nat \<Rightarrow> u64 \<Rightarrow> container \<Rightarrow> unit res" where
  "handed_up d nv s = (case d of 0 \<Rightarrow> Some (Inr (), s) | Suc d' \<Rightarrow> set_ib_dirty_loop ops hid nv d' s)"

lemma loop_step: "set_ib_dirty_loop ops hid v d s = set_ib_dirty_step ops hid v d (\<lambda>v. handed_up d v) s"
  by (cases d) (simp_all add: handed_up_def [abs_def])

text \<open>Where the new number of a block comes from: the number the child on the path had was freed before.\<close>

definition taken :: "container \<Rightarrow> bt \<Rightarrow> nat list \<Rightarrow> u64 \<Rightarrow> bool" where
  "taken s t is nv \<longleftrightarrow> (\<exists>s0. allotted s0 nv \<and>
     (case is of [] \<Rightarrow> s0 = s | i # _ \<Rightarrow> \<exists>es ts v. t = Bt es ts \<and> echild (es ! i) = Some v \<and> freed v s0))"

lemma dirty_path:
  assumes "stacked s oid h d c t is c' t'"
    and "obj_ok s oid C" "tree_on s oid c C0 t" "C0 \<subseteq> C" "objs s oid = Some x" "oi_objid x = objid"
    and "handles s hid = Some h" "h_obj_info h = oid" "d = 0 \<longleftrightarrow> c = oi_root_cache x" "can_alloc s"
  shows "\<exists>s' t1 k nv. obj_ok s' oid C \<and> kept s s' oid hid (C - C0) \<and> can_alloc s' \<and>
    tree_on s' oid c C0 t1 \<and> strip_tree t1 = strip_tree t \<and> caches s' c = Some k \<and> c' \<in> C0 \<and> dirty_at s' c' \<and> cache_block s' c' = cache_block s c' \<and>
    (\<forall>a \<in> C. dirty_at s a \<longrightarrow> dirty_at s' a) \<and>
    (dirty_up s oid c t \<longrightarrow> dirty_up s' oid c t1 \<and> dirty_at s' c) \<and>
    renumbered s s' C (on_path s oid c t is) \<and> (dirty_up s oid c t \<longrightarrow> (\<forall>a. on_path s oid c t is a \<longrightarrow> dirty_at s' a)) \<and>
    (set_ib_dirty_loop ops hid 0 (d + length is) s = Some (Inr (), s') \<and> cache_key s' c = cache_key s c \<and>
       (dirty_up s oid c t \<longrightarrow> dirty_at s c) \<or>
     set_ib_dirty_loop ops hid 0 (d + length is) s = handed_up d nv s' \<and> nv \<noteq> 0 \<and> c_vbn k = nv \<and>
       freed (cache_key s c) s' \<and> taken s t is nv)"
  using assms
proof (induction arbitrary: C0 rule: stacked.induct)
  case (here d c t)
  obtain es ts where t: "t = Bt es ts" by (metis bt.exhaust)
  have c: "c \<in> C" using tree_on_root [OF here.prems(2)] here.prems(3) by blast
  obtain b m p where b: "cache_block s c = Some (b, m, p)" "ib_rep m p es"
    using tree_rep_block [OF tree_on_rep [OF here.prems(2) [unfolded t]]] by blast
  have v: "(0::u64) \<noteq> 0 \<longrightarrow> points_to h d es 0" by simp
  obtain s' m' nv k where r: "obj_ok s' oid C" "kept s s' oid hid (C - {c})" "can_alloc s'"
    "cache_block s' c = Some (b, m', p)" "ib_rep m' p es" "(0::u64) = 0 \<longrightarrow> m' = m" "dirty_at s' c" "caches s' c = Some k"
    "if dirty_at s c then set_ib_dirty_step ops hid 0 d (\<lambda>v. handed_up d v) s = Some (Inr (), s') \<and> caches s' c = caches s c
     else set_ib_dirty_step ops hid 0 d (\<lambda>v. handed_up d v) s = handed_up d nv s' \<and> nv \<noteq> 0 \<and> c_vbn k = nv \<and>
       nv \<noteq> cache_key s c \<and> allotted s nv \<and> freed (cache_key s c) s'"
    using dirty_step [OF here.prems(1,4,5,6,7) here.hyps c here.prems(8) b v here.prems(9), where up = "\<lambda>v. handed_up d v"]
    unfolding link_child_0 by (elim exE conjE) (rule that)
  note ok = here.prems(1) r(1)
  have co: "caches_ok s" "caches_ok s'" using ok by (simp_all add: obj_ok_def)
  have "tree_on s' oid c C0 t \<and> (dirty_up s oid c t \<longrightarrow> dirty_up s' oid c t)"
  proof (cases "ts = []")
    case True
    then have "C0 = {c}" "\<forall>e \<in> set es. echild e = None" using here.prems(2) t by (auto elim!: tree_onE)
    then show ?thesis using True t tree_on.on_leaf [OF r(4,5)] by (auto intro: dirty_up.intros)
  next
    case False
    then obtain Cs where Cs: "length ts = length es" "C0 = insert c (\<Union>i<length es. Cs i)"
      and ch: "\<And>i. i < length es \<Longrightarrow> \<exists>v c'. echild (es ! i) = Some v \<and> cached s oid v c' \<and>
         tree_on s oid c' (Cs i) (ts ! i) \<and> c \<notin> Cs i"
      and dj: "\<And>i j. i < length es \<Longrightarrow> j < length es \<Longrightarrow> i \<noteq> j \<Longrightarrow> Cs i \<inter> Cs j = {}"
      using tree_on_children [OF here.prems(2) [unfolded t] False] by blast
    have "\<exists>v c'. echild (es ! j) = Some v \<and> cached s' oid v c' \<and> tree_on s' oid c' (Cs j) (ts ! j) \<and>
        (dirty_up s oid c t \<longrightarrow> dirty_up s' oid c' (ts ! j)) \<and> c \<notin> Cs j \<and> Cs j \<subseteq> C" if j: "j < length es" for j
    proof -
      obtain v c' where 1: "echild (es ! j) = Some v" "cached s oid v c'" "tree_on s oid c' (Cs j) (ts ! j)" "c \<notin> Cs j"
        using ch [OF j] by blast
      have sub: "Cs j \<subseteq> C - {c}" "Cs j \<subseteq> C" using Cs(2) here.prems(3) j 1(4) by auto
      have "dirty_up s oid c' (ts ! j)" if "dirty_up s oid c t"
        using dirty_up_child(1) [OF that [unfolded t] _ 1(1,2)] j Cs(1) by simp
      then show ?thesis using 1 sub(2) child_kept [OF 1(3,2) r(2) sub(1) co] by blast
    qed
    from node_again [OF ok(2) c r(4,5) Cs(1) r(7) this dj]
    show ?thesis using Cs(2) t by blast
  qed
  moreover have "kept s s' oid hid (C - C0)"
    using r(2) by (rule kept_mono) (use tree_on_root [OF here.prems(2)] in blast)
  moreover have "dirty_at s' a" if "a \<in> C" "dirty_at s a" for a
    using that r(7) dirty_at_kept [OF r(2), of a] by (cases "a = c") auto
  moreover have "cache_key s' c = cache_key s c" if "caches s' c = caches s c" using that by (simp add: cache_key_def)
  moreover have "renumbered s s' C (on_path s oid c t [])"
    by (rule renumbered_one [OF r(2,7) on_path.top]) (use r(8,9) in \<open>auto simp: cache_key_def split: if_splits\<close>)
  moreover have "dirty_at s' a" if "on_path s oid c t [] a" for a using that r(7) by (auto elim: on_path_NilE)
  ultimately show ?case using r(1,3,4,6,7,8,9) b(1) tree_on_root [OF here.prems(2)] loop_step [of 0 d s]
    by (auto simp: taken_def split: if_splits)
next
  case (down d c es i ts v c1 "is" c' t')
  have i: "i < length es" using down.hyps(2) by (simp add: points_to_def)
  obtain b m p k0 Cs where 1: "cache_block s c = Some (b, m, p)" "ib_rep m p es" "length ts = length es"
    "caches s c = Some k0" "C0 = insert c (\<Union>i<length es. Cs i)"
    and ch: "\<And>i. i < length es \<Longrightarrow> \<exists>v c'. echild (es ! i) = Some v \<and> c_vbn k0 \<noteq> v \<and> cached s oid v c' \<and>
       tree_on s oid c' (Cs i) (ts ! i) \<and> c \<notin> Cs i"
    and dj: "\<And>i j. i < length es \<Longrightarrow> j < length es \<Longrightarrow> i \<noteq> j \<Longrightarrow> Cs i \<inter> Cs j = {}"
    and t1: "tree_on s oid c1 (Cs i) (ts ! i)"
    by (rule at_path_on [OF down.prems(2) i down.hyps(3-5)]) (rule that)
  have sub: "Cs j \<subseteq> C" "c \<notin> Cs j" "Cs j \<subseteq> C0" if "j < length es" for j using ch [OF that] 1(5) down.prems(3) that by auto
  have c: "c \<in> C" using 1(5) down.prems(3) by auto
  have c1: "Suc d = 0 \<longleftrightarrow> c1 = oi_root_cache x"
  proof -
    have "c1 \<in> members (oi_caches x)" "oi_root_cache x \<notin> members (ct_metadata_cache s)" "caches_ok s"
      using down.hyps(5) cached_iff down.prems(1,4) by (auto simp: obj_ok_def)
    then show ?thesis using caches_okD(4) [OF _ down.prems(4)] by auto
  qed
  from down.IH [OF down.prems(1) t1 sub(1) [OF i] down.prems(4-7) c1 down.prems(9)]
  obtain s1 tt k1 nv where r: "obj_ok s1 oid C" "kept s s1 oid hid (C - Cs i)" "can_alloc s1" "tree_on s1 oid c1 (Cs i) tt"
    "strip_tree tt = strip_tree (ts ! i)" "caches s1 c1 = Some k1" "c' \<in> Cs i" "dirty_at s1 c'" "cache_block s1 c' = cache_block s c'" "\<forall>a \<in> C. dirty_at s a \<longrightarrow> dirty_at s1 a"
    "dirty_up s oid c1 (ts ! i) \<longrightarrow> dirty_up s1 oid c1 tt \<and> dirty_at s1 c1"
    and ren: "renumbered s s1 C (on_path s oid c1 (ts ! i) is)"
    and pth: "dirty_up s oid c1 (ts ! i) \<longrightarrow> (\<forall>a. on_path s oid c1 (ts ! i) is a \<longrightarrow> dirty_at s1 a)"
    and out: "set_ib_dirty_loop ops hid 0 (Suc d + length is) s = Some (Inr (), s1) \<and> cache_key s1 c1 = cache_key s c1 \<and>
         (dirty_up s oid c1 (ts ! i) \<longrightarrow> dirty_at s c1) \<or>
       set_ib_dirty_loop ops hid 0 (Suc d + length is) s = handed_up (Suc d) nv s1 \<and> nv \<noteq> 0 \<and> c_vbn k1 = nv \<and>
         freed (cache_key s c1) s1 \<and> taken s (ts ! i) is nv"
    by (elim exE conjE) (rule that)
  have co: "caches_ok s" "caches_ok s1" using down.prems(1) r(1) by (simp_all add: obj_ok_def)
  have cd: "cache_block s1 c = Some (b, m, p)" "caches s1 c = Some k0"
    using r(2) 1(1,4) c sub(2) [OF i] by (auto simp: kept_def)
  let ?ts = "ts[i := tt]" and ?D = "dirty_up s oid c (Bt es ts)" and ?P = "on_path s oid c (Bt es ts) (i # is)"
  have ren1: "renumbered s s1 C ?P"
    using ren on_path.below [OF i down.hyps(3-5)] unfolding renumbered_def by blast
  have P: "?P a \<Longrightarrow> a = c \<or> on_path s oid c1 (ts ! i) is a" for a
    by (erule on_path_ConsE) (use cached_fun down.hyps(4,5) in fastforce)+
  have len: "d + length (i # is) = Suc d + length is" by simp
  have c1C: "c1 \<in> Cs i" by (rule tree_on_root [OF t1])
  have du: "dirty_up s oid c1 (ts ! i)" "dirty_at s c1 \<Longrightarrow> dirty_at s c" if ?D
    using dirty_up_child [OF that _ down.hyps(4,5)] i 1(3) by auto
  have stt: "strip_tree (Bt es' ?ts) = strip_tree (Bt es ts)" if "map strip es' = map strip es" for es'
    using that r(5) 1(3) i by (simp add: map_update list_update_same_conv)
  have others: "\<exists>v c'. echild (es ! j) = Some v \<and> cached s2 oid v c' \<and> tree_on s2 oid c' (Cs j) (?ts ! j) \<and>
      (?D \<longrightarrow> dirty_up s2 oid c' (?ts ! j)) \<and> c \<notin> Cs j \<and> Cs j \<subseteq> C"
    if j: "j < length es" "j \<noteq> i" and k2: "kept s s2 oid hid (C - Cs i - {c})" "caches_ok s2" for s2 j
  proof -
    obtain v c' where 2: "echild (es ! j) = Some v" "cached s oid v c'" "tree_on s oid c' (Cs j) (ts ! j)" using ch [OF j(1)] by blast
    have "Cs j \<subseteq> C - Cs i - {c}" using dj [OF j(1) i j(2)] sub [OF j(1)] by blast
    from child_kept [OF 2(3,2) k2(1) this co(1) k2(2)] 2 show ?thesis
      using dirty_up_child(1) [OF _ _ 2(1,2)] j 1(3) sub [OF j(1)] by (metis nth_list_update_neq)
  qed
  from out show ?case
  proof (elim disjE conjE)
    assume a: "set_ib_dirty_loop ops hid 0 (Suc d + length is) s = Some (Inr (), s1)" "cache_key s1 c1 = cache_key s c1"
      "dirty_up s oid c1 (ts ! i) \<longrightarrow> dirty_at s c1"
    have k2: "kept s s1 oid hid (C - Cs i - {c})" by (rule kept_mono [OF r(2)]) blast
    have kC: "kept s s1 oid hid (C - C0)" by (rule kept_mono [OF r(2)]) (use sub(3) [OF i] in blast)
    have up: "dirty_at s c" if ?D using du [OF that] a(3) by blast
    have "\<exists>v c'. echild (es ! j) = Some v \<and> cached s1 oid v c' \<and> tree_on s1 oid c' (Cs j) (?ts ! j) \<and>
        (?D \<longrightarrow> dirty_up s1 oid c' (?ts ! j)) \<and> c \<notin> Cs j \<and> Cs j \<subseteq> C" if j: "j < length es" for j
    proof (cases "j = i")
      case True
      have "cached s1 oid v c1" using cached_moved [OF r(2) co down.hyps(5)] a(2) by simp
      then show ?thesis using True r(4,11) du down.hyps(4) sub [OF i] i 1(3) by auto
    qed (rule others [OF j _ k2 co(2)])
    from node_again [OF r(1) c cd(1) 1(2) _ _ this dj] up r(10) c
    have "tree_on s1 oid c C0 (Bt es ?ts) \<and> (?D \<longrightarrow> dirty_up s1 oid c (Bt es ?ts))"
      unfolding 1(5) using 1(3) by auto
    moreover have "cache_key s1 c = cache_key s c" using cd(2) 1(4) by (simp add: cache_key_def)
    moreover have "dirty_at s1 a" if ?D "?P a" for a using P [OF that(2)] pth du(1) up r(10) c that(1) by blast
    ultimately show ?thesis
      using ren1 r(1,3,8,9,10) subsetD [OF sub(3) [OF i] r(7)] kC cd(2) a(1) stt [OF refl] up c unfolding len by (intro exI [of _ s1] exI [of _ "Bt es ?ts"]) auto
  next
    assume a: "set_ib_dirty_loop ops hid 0 (Suc d + length is) s = handed_up (Suc d) nv s1" "nv \<noteq> 0" "c_vbn k1 = nv"
      "freed (cache_key s c1) s1"
    obtain x1 where x1: "objs s1 oid = Some x1" "oi_objid x1 = objid" "oi_root_cache x1 = oi_root_cache x"
      using r(2) down.prems(4,5) by (auto simp: kept_def)
    have h1: "handles s1 hid = Some h" using r(2) down.prems(6) by (simp add: kept_def)
    have c0: "d = 0 \<longleftrightarrow> c = oi_root_cache x1" using down.prems(8) x1(3) by simp
    have pt: "nv \<noteq> 0 \<longrightarrow> points_to h d es i" using down.hyps(2) by simp
    obtain s2 m' nv2 k2 where q: "obj_ok s2 oid C" "kept s1 s2 oid hid (C - {c})" "can_alloc s2"
      "cache_block s2 c = Some (b, m', p)" "ib_rep m' p (link_child i nv es)" "nv = 0 \<longrightarrow> m' = m" "dirty_at s2 c" "caches s2 c = Some k2"
      "if dirty_at s1 c then set_ib_dirty_step ops hid nv d (\<lambda>v. handed_up d v) s1 = Some (Inr (), s2) \<and> caches s2 c = caches s1 c
       else set_ib_dirty_step ops hid nv d (\<lambda>v. handed_up d v) s1 = handed_up d nv2 s2 \<and> nv2 \<noteq> 0 \<and> c_vbn k2 = nv2 \<and>
         nv2 \<noteq> cache_key s1 c \<and> allotted s1 nv2 \<and> freed (cache_key s1 c) s2"
      using dirty_step [OF r(1) x1(1,2) h1 down.prems(7) down.hyps(1) c c0 cd(1) 1(2) pt r(3), where up = "\<lambda>v. handed_up d v"]
      by (elim exE conjE) (rule that)
    have co2: "caches_ok s2" using q(1) by (simp add: obj_ok_def)
    have k02: "kept s s2 oid hid (C - Cs i - {c})"
      by (rule kept_trans [OF kept_mono [OF r(2)] kept_mono [OF q(2)]]) blast+
    have kC: "kept s s2 oid hid (C - C0)" by (rule kept_mono [OF k02]) (use sub(3) [OF i] 1(5) in blast)
    let ?es = "link_child i nv es"
    have es: "length ?es = length es" "?es ! i = (es ! i)\<lparr> echild := Some nv \<rparr>" "\<And>j. j \<noteq> i \<Longrightarrow> ?es ! j = es ! j"
      using a(2) i by (simp_all add: link_child_def)
    have c1C': "Cs i \<subseteq> C - {c}" using sub [OF i] by blast
    have k1: "caches s2 c1 = Some k1" using subsetD [OF c1C' c1C] q(2) r(6) by (simp add: kept_def)
    have "\<exists>v c'. echild (?es ! j) = Some v \<and> cached s2 oid v c' \<and> tree_on s2 oid c' (Cs j) (?ts ! j) \<and>
        (?D \<longrightarrow> dirty_up s2 oid c' (?ts ! j)) \<and> c \<notin> Cs j \<and> Cs j \<subseteq> C" if j: "j < length ?es" for j
    proof (cases "j = i")
      case True
      have "cached s1 oid (c_vbn k1) c1"
        using cached_moved(1) [OF r(2) co down.hyps(5)] r(6) by (simp add: cache_key_def)
      note ck = child_kept [OF r(4) this q(2) c1C' co(2) co2]
      have "?D \<longrightarrow> dirty_up s2 oid c1 tt" using ck r(11) du(1) by blast
      then show ?thesis using True ck es(2) sub [OF i] i 1(3) a(3) by (intro exI [of _ nv] exI [of _ c1]) simp
    next
      case False
      show ?thesis using others [OF _ False k02 co2] j es False by simp
    qed
    from node_again [OF q(1) c q(4,5) _ _ this] dj es(1) 1(3) q(7)
    have "tree_on s2 oid c C0 (Bt ?es ?ts) \<and> (?D \<longrightarrow> dirty_up s2 oid c (Bt ?es ?ts))"
      unfolding 1(5) by auto
    moreover have mono: "dirty_at s2 e" if "e \<in> C" "dirty_at s e" for e
      using that r(10) q(7) dirty_at_kept [OF q(2), of e] by (cases "e = c") auto
    moreover have "cache_block s2 c' = cache_block s c'"
      using r(9) q(2) subsetD [OF c1C' r(7)] by (simp add: kept_def)
    moreover have "dirty_at s2 c'"
      using r(8) dirty_at_kept [OF q(2) subsetD [OF c1C' r(7)]] by simp
    moreover have "cache_key s2 c = cache_key s c" if "caches s2 c = caches s1 c" using that cd(2) 1(4) by (simp add: cache_key_def)
    moreover have "renumbered s s2 C ?P"
      by (rule renumbered_then [OF ren1 q(2,7) on_path.top]) (use cd(2) 1(4) q(8,9) in \<open>auto simp: cache_key_def split: if_splits\<close>)
    moreover have "dirty_at s2 a" if ?D "?P a" for a
    proof (cases "a = c")
      case False
      then have a: "on_path s oid c1 (ts ! i) is a" using P [OF that(2)] by blast
      have "a \<in> C - {c}" using on_path_in [OF a t1] c1C' by blast
      then show ?thesis using a pth du(1) [OF that(1)] dirty_at_kept [OF q(2)] by blast
    qed (use q(7) in simp)
    moreover have "taken s (Bt es ts) (i # is) nv2" if "allotted s1 nv2"
      using that a(4) cached_moved(2) [OF r(2) co down.hyps(5)] down.hyps(4) unfolding taken_def by auto
    moreover have "cache_key s1 c = cache_key s c" using cd(2) 1(4) by (simp add: cache_key_def)
    moreover have "dirty_at s1 c \<longleftrightarrow> dirty_at s c" using cd(2) 1(4) by (simp add: dirty_at_def)
    moreover have "set_ib_dirty_loop ops hid 0 (Suc d + length is) s = set_ib_dirty_step ops hid nv d (\<lambda>v. handed_up d v) s1"
      using a(1) loop_step [of nv d s1] by (simp add: handed_up_def)
    ultimately show ?thesis
      using q(1,3,7,8,9) kC subsetD [OF sub(3) [OF i] r(7)] stt [OF strip_link_child] unfolding len by (intro exI [of _ s2] exI [of _ "Bt ?es ?ts"]) (auto split: if_splits)
  qed
qed


lemma set_ib_dirty_path:
  assumes tab: "table_on s oid C t" and ok: "obj_ok s oid C" and x: "objs s oid = Some x" "oi_objid x = objid"
    and h: "handles s hid = Some h" "h_obj_info h = oid" "h_depth h = length is" "length is \<le> 15"
    and st: "stacked s oid h 0 (oi_root_cache x) t is c t0" and al: "can_alloc s"
  shows "\<exists>s' t'. set_ib_dirty ops hid s = Some (Inr (), s') \<and> table_on s' oid C t' \<and> obj_ok s' oid C \<and> can_alloc s' \<and>
    strip_tree t' = strip_tree t \<and> dirty_at s' c \<and> cache_block s' c = cache_block s c \<and> handles s' hid = Some h \<and>
    obj_flags oid s' = obj_flags oid s \<and> (\<forall>a \<in> C. dirty_at s a \<longrightarrow> dirty_at s' a) \<and>
    (dirty_up s oid (oi_root_cache x) t \<longrightarrow> dirty_up s' oid (oi_root_cache x) t' \<and> dirty_at s' (oi_root_cache x)) \<and>
    renumbered s s' C (on_path s oid (oi_root_cache x) t is) \<and>
    (dirty_up s oid (oi_root_cache x) t \<longrightarrow> (\<forall>a. on_path s oid (oi_root_cache x) t is a \<longrightarrow> dirty_at s' a)) \<and>
    map_option oi_root_cache (objs s' oid) = Some (oi_root_cache x) \<and>
    (dirty_up s oid (oi_root_cache x) t \<and> \<not> dirty_at s (oi_root_cache x) \<longrightarrow>
       freed (cache_key s (oi_root_cache x)) s' \<and> taken s t is (cache_key s' (oi_root_cache x))) \<and>
    kept s s' oid hid {}"
proof -
  have on: "tree_on s oid (oi_root_cache x) C t" and tt: "is_table oid s" "bt_height t \<le> 15"
    using tab x by (auto simp: table_on_def)
  have root: "(0::nat) = 0 \<longleftrightarrow> oi_root_cache x = oi_root_cache x" by simp
  from dirty_path [OF st ok on subset_refl x h(1,2) root al]
  obtain s' t' k nv where r: "obj_ok s' oid C" "kept s s' oid hid (C - C)" "can_alloc s'"
    "tree_on s' oid (oi_root_cache x) C t'" "strip_tree t' = strip_tree t" "caches s' (oi_root_cache x) = Some k" "c \<in> C" "dirty_at s' c"
    "cache_block s' c = cache_block s c" "\<forall>a \<in> C. dirty_at s a \<longrightarrow> dirty_at s' a"
    "dirty_up s oid (oi_root_cache x) t \<longrightarrow> dirty_up s' oid (oi_root_cache x) t' \<and> dirty_at s' (oi_root_cache x)"
    "renumbered s s' C (on_path s oid (oi_root_cache x) t is)"
    "dirty_up s oid (oi_root_cache x) t \<longrightarrow> (\<forall>a. on_path s oid (oi_root_cache x) t is a \<longrightarrow> dirty_at s' a)"
    "set_ib_dirty_loop ops hid 0 (0 + length is) s = Some (Inr (), s') \<and> cache_key s' (oi_root_cache x) = cache_key s (oi_root_cache x) \<and>
       (dirty_up s oid (oi_root_cache x) t \<longrightarrow> dirty_at s (oi_root_cache x)) \<or>
     set_ib_dirty_loop ops hid 0 (0 + length is) s = handed_up 0 nv s' \<and> nv \<noteq> 0 \<and> c_vbn k = nv \<and>
       freed (cache_key s (oi_root_cache x)) s' \<and> taken s t is nv"
    by (elim exE conjE) (rule that)
  have "set_ib_dirty_loop ops hid 0 (length is) s = Some (Inr (), s')" using r(14) by (auto simp: handed_up_def)
  then have "set_ib_dirty ops hid s = Some (Inr (), s')" using h by (simp add: set_ib_dirty_def TREE_MAX_DEPTH_def)
  moreover obtain tr where x': "objs s' oid = Some (x\<lparr> oi_caches := tr \<rparr>)" using r(2) x(1) by (auto simp: kept_def)
  moreover have fl: "obj_flags oid s' = obj_flags oid s" "handles s' hid = Some h" using r(2) h(1) by (simp_all add: kept_def)
  moreover have "table_on s' oid C t'"
  proof -
    have "bt_height t' \<le> 15" using tt(2) r(5) strip_tree_height by metis
    moreover have "is_table oid s'" using tt(1) is_table_same [OF fl(1)] by simp
    ultimately show ?thesis using r(1,4) x' unfolding table_on_def obj_ok_def cache_buf_def by auto
  qed
  moreover have "map_option oi_root_cache (objs s' oid) = Some (oi_root_cache x)" by (simp add: x')
  moreover have "dirty_up s oid (oi_root_cache x) t \<and> \<not> dirty_at s (oi_root_cache x) \<longrightarrow>
      freed (cache_key s (oi_root_cache x)) s' \<and> taken s t is (cache_key s' (oi_root_cache x))"
    using r(6,14) by (auto simp: cache_key_def)
  moreover have "kept s s' oid hid {}" using r(2) by simp
  ultimately show ?thesis using r(1,3,5,8-13) by (intro exI conjI)
qed

end

section \<open>The base object\<close>

definition base_alloc :: "u64 \<Rightarrow> container \<Rightarrow> bool" where
  "base_alloc objid s \<longleftrightarrow> space_objid False s = Some objid \<and> ct_base_blk s \<noteq> 0 \<and> ct_base_blk s \<notin> cached_vbns s"

definition base_free :: "u64 \<Rightarrow> container \<Rightarrow> bool" where
  "base_free objid s \<longleftrightarrow> space_objid False s = Some objid \<and> ct_base_blk s = 0"

lemma served_base:
  assumes "caches_ok s"
  shows "served oid hid s (s\<lparr> ct_base_blk := v \<rparr>)" "cached_vbns (s\<lparr> ct_base_blk := v \<rparr>) = cached_vbns s"
proof -
  show vb: "cached_vbns (s\<lparr> ct_base_blk := v \<rparr>) = cached_vbns s" by (simp add: cached_vbns_def cache_key_def [abs_def])
  have "caches_ok (s\<lparr> ct_base_blk := v \<rparr>)"
    by (rule caches_ok_mono [OF assms]) (use caches_okD(2,5,6) [OF assms] in \<open>auto simp: cache_key_def\<close>)
  then show "served oid hid s (s\<lparr> ct_base_blk := v \<rparr>)"
    by (simp add: served_def vb obj_flags_def cache_block_def)
qed

lemma client_change_base:
  assumes "client_change oid hid s s'"
  shows "space_objid False s' = space_objid False s" "ct_base_blk s' = ct_base_blk s"
proof -
  from assms obtain x y H K B u n where c: "objs s oid = Some x" "oi_objid y = oi_objid x"
    "s' = s\<lparr> objs := (objs s)(oid \<mapsto> y), handles := H, caches := K, bufs := B, ct_metadata_cache := u, tick := n \<rparr>"
    "\<forall>i. i \<noteq> hid \<longrightarrow> H i = handles s i" "map_option h_obj_info (H hid) = map_option h_obj_info (handles s hid)"
    by (auto simp: client_change_def)
  have h: "map_option h_obj_info (H i) = map_option h_obj_info (handles s i)" for i
    using c(4,5) by (cases "i = hid") auto
  show "ct_base_blk s' = ct_base_blk s" using c(3) by simp
  let ?i = "sm_space_obj (ct_bsm s)"
  have e: "map_option oi_objid (objs s' j) = map_option oi_objid (objs s j)" for j using c(1-3) by simp
  have so: "space_objid False z = Option.bind (map_option h_obj_info (handles z (sm_space_obj (ct_bsm z))))
      (\<lambda>j. map_option oi_objid (objs z j))" for z
    by (simp add: space_objid_def get_sm_def map_conv_bind_option o_def)
  show "space_objid False s' = space_objid False s"
    unfolding so using e h [of ?i] by (simp add: c(3))
qed

interpretation base_block: block_service ct_ops objid oid hid "base_alloc objid" "base_free objid"
  for objid :: u64 and oid hid :: nat
proof
  fix s v assume "base_free objid s" "caches_ok s" "v \<noteq> 0" "v \<notin> cached_vbns s"
  then show "\<exists>s'. OFS_FREE_BLOCK ct_ops objid v s = Some (Inr (), s') \<and> base_alloc objid s' \<and> served oid hid s s'"
    using served_base(1) [where s = s and oid = oid and hid = hid and v = v] served_base(2) [where s = s and v = v]
    by (intro exI [of _ "s\<lparr> ct_base_blk := v \<rparr>"])
      (simp add: base_free_def base_alloc_def OFS_FREE_BLOCK_def ct_ops_def eval_nat_numeral ofs_free_space_def space_objid_def get_sm_def)
next
  fix s assume "base_alloc objid s" "caches_ok s"
  then show "\<exists>v s'. OFS_ALLOC_BLOCK ct_ops objid s = Some (Inr v, s') \<and> v \<noteq> 0 \<and> v \<notin> cached_vbns s' \<and>
        base_free objid s' \<and> served oid hid s s'"
    using served_base(1) [where s = s and oid = oid and hid = hid and v = 0] served_base(2) [where s = s and v = 0]
    by (intro exI [of _ "ct_base_blk s"] exI [of _ "s\<lparr> ct_base_blk := 0 \<rparr>"])
      (simp add: base_free_def base_alloc_def OFS_ALLOC_BLOCK_def ct_ops_def eval_nat_numeral ofs_alloc_space_def space_objid_def get_sm_def)
qed (auto simp: base_alloc_def base_free_def client_change_base)

end
