(* ===== verification/CopyUpdate.thy ===== *)
theory CopyUpdate
  imports CopyOnWrite
begin

text \<open>
  Inserting into and removing from a table with clean blocks: the entry goes into its leaf, then
  \<open>set_ib_dirty\<close> copies the path.
\<close>

section \<open>After the change of the leaf\<close>

lemma cursor_stacked:
  assumes "cursor s oid h fs (c, es, ts, i)" "path_frames s oid c0 t is fs c (Bt es ts)"
  shows "stacked s oid h 0 c0 t is c (Bt es ts)"
proof -
  from assms(1) have "path_ok s oid h (fs @ [])" "h_cache_stack h (length fs + length []) = c" by (auto elim!: cursorE)
  from stacked_frames [OF assms(2) this] show ?thesis by simp
qed

lemma cached_vbns_after_put [simp]: "cached_vbns (after_put s hid h n b m) = cached_vbns s"
  by (simp add: cached_vbns_def cache_key_def [abs_def])

lemma caches_ok_after_put: "caches_ok s \<Longrightarrow> caches_ok (after_put s hid h n b m)"
  by (rule caches_ok_mono) (auto simp: cache_key_def dest: caches_okD(2,5,6))

lemma obj_ok_after_put: "obj_ok s oid C \<Longrightarrow> obj_ok (after_put s hid h n b m) oid C"
  using caches_ok_after_put [of s hid h n b m]
  by (auto simp: obj_ok_def own_def cache_buf_def [abs_def] cache_key_def)

lemma client_after_put:
  assumes "objs s oid = Some x" "handles s hid = Some h0" "h_obj_info h = h_obj_info h0"
  shows "client_change oid hid s (after_put s hid h n b m)"
  unfolding client_change_def
  by (rule exI [of _ x], rule exI [of _ x], rule exI [of _ "(handles s)(hid \<mapsto> h)"], rule exI [of _ "caches s"],
      rule exI [of _ "(bufs s)(b \<mapsto> m)"], rule exI [of _ "ct_metadata_cache s"], rule exI [of _ "tick s + n"])
     (use assms in \<open>simp add: after_put_def put_buf_def put_handle_def fun_upd_idem\<close>)

lemma dirty_up_same:
  "dirty_up s oid c t \<Longrightarrow> objs s' = objs s \<Longrightarrow> caches s' = caches s \<Longrightarrow> dirty_up s' oid c t"
proof (induction rule: dirty_up.induct)
  case (1 ts es c)
  have d: "dirty_at s' a = dirty_at s a" for a using 1(3) by (simp add: dirty_at_def)
  show ?case by (rule dirty_up.intros) (use 1 cached_cong [OF 1(2,3)] d in blast)
qed

lemma dirty_up_put_leaf:
  "at_path s oid c t is c' t' \<Longrightarrow> tree_rep s oid c t \<Longrightarrow> dirty_up s oid c t \<Longrightarrow> dirty_up s oid c (put_leaf is es' t)"
proof (induction rule: at_path.induct)
  case (here c t)
  show ?case by (auto intro: dirty_up.intros)
next
  case (down i es ts v c1 "is" c' t' c)
  have tr: "tree_rep s oid c1 (ts ! i)" using down.hyps down.prems(1) by (metis cached_fun option.inject tree_rep_child)
  have l: "length ts = length es" using down.hyps(2) tree_rep_lengths [OF down.prems(1)] by simp
  note ch = dirty_up_child [OF down.prems(2)]
  have new: "dirty_up s oid c1 (put_leaf is es' (ts ! i))"
    using down.IH [OF tr] ch(1) [OF _ down.hyps(3,4)] down.hyps(1) l by simp
  show ?case unfolding put_leaf.simps
  proof (rule dirty_up.intros)
    fix j assume "j < length (ts[i := put_leaf is es' (ts ! i)])"
    then have j: "j < length ts" by simp
    obtain v' d where "echild (es ! j) = Some v'" "cached s oid v' d" "dirty_up s oid d (ts ! j)" "dirty_at s d \<longrightarrow> dirty_at s c"
      using down.prems(2) j by (elim dirty_upE) blast
    then show "\<exists>v c'. echild (es ! j) = Some v \<and> cached s oid v c' \<and>
        dirty_up s oid c' (ts[i := put_leaf is es' (ts ! i)] ! j) \<and> (dirty_at s c' \<longrightarrow> dirty_at s c)"
      using new down.hyps(1,3,4) ch(2) l j by (cases "j = i") auto
  qed
qed

lemma on_path_put_leaf:
  "at_path s oid c t is c' t' \<Longrightarrow> tree_rep s oid c t \<Longrightarrow> objs s' = objs s \<Longrightarrow> caches s' = caches s \<Longrightarrow>
   on_path s' oid c (put_leaf is es' t) is a \<longleftrightarrow> on_path s oid c t is a"
proof (induction rule: at_path.induct)
  case (here c t)
  then show ?case by (auto intro: on_path.top elim: on_path_NilE)
next
  case (down i es ts v c1 "is" c' t' c)
  have tr: "tree_rep s oid c1 (ts ! i)" using down.hyps down.prems(1) by (metis cached_fun option.inject tree_rep_child)
  have i: "i < length ts" using down.hyps(1,2) tree_rep_lengths [OF down.prems(1)] by simp
  have ca: "cached s' oid v d \<longleftrightarrow> cached s oid v d" for v d by (rule cached_cong [OF down.prems(2,3)])
  have step: "on_path s1 oid c (Bt es us) (i # is) a \<longleftrightarrow> a = c \<or> on_path s1 oid c1 (us ! i) is a"
    if "cached s1 oid v c1" "us \<noteq> []" for s1 us
  proof
    assume "on_path s1 oid c (Bt es us) (i # is) a"
    then show "a = c \<or> on_path s1 oid c1 (us ! i) is a"
      by (rule on_path_ConsE) (use that(1) down.hyps(3) cached_fun [of s1 oid v] in auto)
  qed (use that down.hyps(1,3) in \<open>auto intro: on_path.intros\<close>)
  show ?case
    using step [of s ts] step [of s' "ts[i := put_leaf is es' (ts ! i)]"] down.IH [OF tr down.prems(2,3)] down.hyps(2,4) ca i
    by simp
qed

section \<open>The updates\<close>

text \<open>
  A path is copied: exactly its blocks become dirty, if they were not, and exactly those of them that were
  clean have new numbers.
\<close>

definition path_copied :: "container \<Rightarrow> container \<Rightarrow> nat set \<Rightarrow> (nat \<Rightarrow> bool) \<Rightarrow> bool" where
  "path_copied s s' C path \<longleftrightarrow> (\<forall>a \<in> C. (dirty_at s' a \<longleftrightarrow> dirty_at s a \<or> path a) \<and>
     (cache_key s' a \<noteq> cache_key s a \<longleftrightarrow> path a \<and> \<not> dirty_at s a))"

lemma renumbered_path:
  "renumbered s s' C path \<Longrightarrow> (\<And>a. path a \<Longrightarrow> dirty_at s' a) \<Longrightarrow> path_copied s s' C path"
  unfolding renumbered_def path_copied_def by blast

context block_service
begin

lemma path_written:
  assumes tab: "table_on s oid C t" and ok: "obj_ok s oid C" and x: "objs s oid = Some x" "oi_objid x = objid"
    and h: "handles s hid = Some h" "h_obj_info h = oid" and al: "can_alloc s"
    and cur: "cursor s oid h1 fs (c, es, [], i)" "path_frames s oid (oi_root_cache x) t is fs c (Bt es [])"
    and b: "cache_block s c = Some (b, m, q)" and t': "t' = put_leaf is es' t"
    and S: "table_on (after_put s hid h1 n b m') oid C t'" "obj_flags oid (after_put s hid h1 n b m') = obj_flags oid s"
  shows "\<exists>s' t''. set_ib_dirty ops hid (after_put s hid h1 n b m') = Some (Inr (), s') \<and> handles s' hid = Some h1 \<and>
    cache_block s' c = Some (b, m', q) \<and> table_on s' oid C t'' \<and> obj_ok s' oid C \<and> can_alloc s' \<and>
    strip_tree t'' = strip_tree t' \<and> dirty_at s' c \<and> obj_flags oid s' = obj_flags oid s \<and>
    map_option oi_root_cache (objs s' oid) = Some (oi_root_cache x) \<and>
    kept (after_put s hid h1 n b m') s' oid hid {} \<and>
    (dirty_up s oid (oi_root_cache x) t \<longrightarrow> dirty_up s' oid (oi_root_cache x) t'' \<and> dirty_at s' (oi_root_cache x) \<and>
       path_copied s s' C (on_path s oid (oi_root_cache x) t is) \<and>
       (\<not> dirty_at s (oi_root_cache x) \<longrightarrow>
          freed (cache_key s (oi_root_cache x)) s' \<and> taken (after_put s hid h1 n b m') t' is (cache_key s' (oi_root_cache x))))"
proof -
  let ?S = "after_put s hid h1 n b m'"
  have tr: "tree_rep s oid (oi_root_cache x) t" using tab x tree_on_rep by (auto simp: table_on_def)
  have h1: "h_obj_info h1 = oid" "h_depth h1 = length fs" "length fs \<le> 15" using cur(1) by (auto elim!: cursorE)
  have st: "stacked ?S oid h1 0 (oi_root_cache x) t' is c (put_leaf [] es' (Bt es []))"
    unfolding t' by (rule stacked_put_leaf [OF cursor_stacked [OF cur] tr]) simp_all
  have al': "can_alloc ?S"
    using alloc_kept [OF al client_after_put [OF x(1) h(1)] caches_ok_after_put] h(2) h1(1) ok by (simp add: obj_ok_def)
  have xs: "objs ?S oid = Some x" "handles ?S hid = Some h1" using x by simp_all
  have hd: "h_depth h1 = length is" "length is \<le> 15" using path_frames_at_path [OF cur(2)] h1 by auto
  from set_ib_dirty_path [OF S(1) obj_ok_after_put [OF ok] xs(1) x(2) xs(2) h1(1) hd st al']
  obtain s' t'' where r: "set_ib_dirty ops hid ?S = Some (Inr (), s')" "table_on s' oid C t''" "obj_ok s' oid C" "can_alloc s'"
    "strip_tree t'' = strip_tree t'" "dirty_at s' c" "cache_block s' c = cache_block ?S c" "handles s' hid = Some h1"
    "obj_flags oid s' = obj_flags oid ?S"
    "dirty_up ?S oid (oi_root_cache x) t' \<longrightarrow> dirty_up s' oid (oi_root_cache x) t'' \<and> dirty_at s' (oi_root_cache x)"
    "map_option oi_root_cache (objs s' oid) = Some (oi_root_cache x)"
    "renumbered ?S s' C (on_path ?S oid (oi_root_cache x) t' is)"
    "dirty_up ?S oid (oi_root_cache x) t' \<longrightarrow> (\<forall>a. on_path ?S oid (oi_root_cache x) t' is a \<longrightarrow> dirty_at s' a)"
    "dirty_up ?S oid (oi_root_cache x) t' \<and> \<not> dirty_at ?S (oi_root_cache x) \<longrightarrow>
       freed (cache_key ?S (oi_root_cache x)) s' \<and> taken ?S t' is (cache_key s' (oi_root_cache x))"
    "kept ?S s' oid hid {}"
    by blast
  have op: "on_path ?S oid (oi_root_cache x) t' is a \<longleftrightarrow> on_path s oid (oi_root_cache x) t is a" for a
    unfolding t' by (rule on_path_put_leaf [OF conjunct1 [OF path_frames_at_path [OF cur(2)]] tr]) simp_all
  have "cache_block ?S c = Some (b, m', q)" using b by (auto simp: cache_block_def bind_eq_Some_conv)
  moreover have du: "dirty_up ?S oid (oi_root_cache x) t'" if "dirty_up s oid (oi_root_cache x) t"
    unfolding t' by (rule dirty_up_same [OF dirty_up_put_leaf [OF conjunct1 [OF path_frames_at_path [OF cur(2)]] tr that]]) simp_all
  moreover have same: "dirty_at ?S a = dirty_at s a" "cache_key ?S a = cache_key s a" for a
    by (simp_all add: dirty_at_def cache_key_def)
  moreover have "path_copied s s' C (on_path s oid (oi_root_cache x) t is)" if "dirty_up s oid (oi_root_cache x) t"
    by (rule renumbered_path) (use r(12,13) du [OF that] in \<open>simp_all add: renumbered_def same op\<close>)
  ultimately show ?thesis using r S(2) by (intro exI [of _ s'] exI [of _ t'']) simp
qed


lemma index_insert_key_copies:
  assumes tab: "table_on s oid C t" and ok: "obj_ok s oid C" and x: "objs s oid = Some x" "oi_objid x = objid"
    and al: "can_alloc s" and h: "handles s hid = Some h" "h_obj_info h = oid" "hid \<noteq> 0"
    and key: "key \<noteq> []" "9 + length key + length value < 65536"
    and co: "collates oid s key value cmp (bt_entries t)" and od: "ordered cmp (bt_entries t)"
    and new: "\<forall>e \<in> set (bt_entries t). cmp e \<noteq> 0" and mem: "io_malloc (env s (tick s))"
    and room: "fits s oid t cmp (9 + length key + length value)"
  shows "\<exists>s' t' L R is S es'. index_insert_key_nolock ops hid key value s = Some (Inr (), s') \<and>
    table_on s' oid C t' \<and> obj_ok s' oid C \<and> can_alloc s' \<and> bt_entries t = L @ R \<and>
    map strip (bt_entries t') = map strip (L @ leaf_ent key value # R) \<and>
    (\<forall>e \<in> set L. cmp e < 0) \<and> (\<forall>e \<in> set R. 0 < cmp e) \<and> obj_flags oid s' = obj_flags oid s \<and>
    map_option oi_root_cache (objs s' oid) = Some (oi_root_cache x) \<and>
    (dirty_up s oid (oi_root_cache x) t \<longrightarrow> dirty_up s' oid (oi_root_cache x) t' \<and> dirty_at s' (oi_root_cache x) \<and>
       (\<exists>c es. leaf_for s oid t cmp c es \<and> at_path s oid (oi_root_cache x) t is c (Bt es [])) \<and>
       path_copied s s' C (on_path s oid (oi_root_cache x) t is) \<and>
       (\<not> dirty_at s (oi_root_cache x) \<longrightarrow>
          freed (cache_key s (oi_root_cache x)) s' \<and> taken S (put_leaf is es' t) is (cache_key s' (oi_root_cache x))))"
proof -
  obtain x' h1 fs c es i "is" b m m' q t' L R where 1: "objs s oid = Some x'" "cursor s oid h1 fs (c, es, [], i)"
    "path_frames s oid (oi_root_cache x') t is fs c (Bt es [])" "leaf_for s oid t cmp c es"
    "\<forall>s'. set_ib_dirty ops hid (after_put s hid h1 1 b m') = Some (Inr (), s') \<longrightarrow>
       index_insert_key_nolock ops hid key value s = Some (Inr (), s')"
    "cache_block s c = Some (b, m, q)" "\<forall>j < q. m' j = m j"
    "t' = put_leaf is (take i es @ leaf_ent key value # drop i es) t"
    "table_on (after_put s hid h1 1 b m') oid C t'" "bt_entries t = L @ R"
    "bt_entries t' = L @ leaf_ent key value # R" "\<forall>e \<in> set L. cmp e < 0" "\<forall>e \<in> set R. 0 < cmp e"
    "obj_flags oid (after_put s hid h1 1 b m') = obj_flags oid s" "bh_alloc_size m' q = bh_alloc_size m q"
    using index_insert_key_put [OF tab h key co od new mem room, where ops = ops] by (elim exE conjE) (rule that)
  have xx: "x' = x" using 1(1) x(1) by simp
  from path_written [OF tab ok x h(1,2) al 1(2) 1(3) [unfolded xx] 1(6,8,9,14)]
  obtain s' t'' where r: "set_ib_dirty ops hid (after_put s hid h1 1 b m') = Some (Inr (), s')" "table_on s' oid C t''"
    "obj_ok s' oid C" "can_alloc s'" "strip_tree t'' = strip_tree t'" "obj_flags oid s' = obj_flags oid s"
    "map_option oi_root_cache (objs s' oid) = Some (oi_root_cache x)"
    "dirty_up s oid (oi_root_cache x) t \<longrightarrow> dirty_up s' oid (oi_root_cache x) t'' \<and> dirty_at s' (oi_root_cache x) \<and>
       path_copied s s' C (on_path s oid (oi_root_cache x) t is) \<and>
       (\<not> dirty_at s (oi_root_cache x) \<longrightarrow> freed (cache_key s (oi_root_cache x)) s' \<and>
          taken (after_put s hid h1 1 b m') t' is (cache_key s' (oi_root_cache x)))"
    by (elim exE conjE) (rule that)
  have "map strip (bt_entries t'') = map strip (L @ leaf_ent key value # R)"
    using r(5) strip_tree_entries [of t''] strip_tree_entries [of t'] 1(11) by simp
  moreover have "at_path s oid (oi_root_cache x) t is c (Bt es [])"
    using path_frames_at_path [OF 1(3)] xx by simp
  ultimately show ?thesis using r 1(4,5,10,12,13) unfolding 1(8) by blast
qed

lemma index_remove_key_copies:
  assumes tab: "table_on s oid C t" and ok: "obj_ok s oid C" and x: "objs s oid = Some x" "oi_objid x = objid"
    and al: "can_alloc s" and h: "handles s hid = Some h" "h_obj_info h = oid" "hid \<noteq> 0" and key: "key \<noteq> []"
    and co: "collates oid s key [] cmp (bt_entries t)" and od: "ordered cmp (bt_entries t)"
    and old: "\<exists>e \<in> set (bt_entries t). cmp e = 0" "\<forall>e \<in> set (bt_entries t). cmp e = 0 \<longrightarrow> echild e = None"
    and leaf: "keeps_entry s oid t cmp"
  shows "\<exists>s' t' L e R is c es. index_remove_key_nolock ops hid key s = Some (Inr (), s') \<and>
    table_on s' oid C t' \<and> obj_ok s' oid C \<and> can_alloc s' \<and> bt_entries t = L @ e # R \<and> cmp e = 0 \<and>
    map strip (bt_entries t') = map strip (L @ R) \<and> obj_flags oid s' = obj_flags oid s \<and>
    map_option oi_root_cache (objs s' oid) = Some (oi_root_cache x) \<and>
    at_path s oid (oi_root_cache x) t is c (Bt es []) \<and> e \<in> set es \<and>
    (dirty_up s oid (oi_root_cache x) t \<longrightarrow> dirty_up s' oid (oi_root_cache x) t' \<and> dirty_at s' (oi_root_cache x) \<and>
       path_copied s s' C (on_path s oid (oi_root_cache x) t is))"
proof -
  obtain x' h1 fs c es i "is" b m m' q t' L R where 1: "objs s oid = Some x'" "cursor s oid h1 fs (c, es, [], i)"
    "path_frames s oid (oi_root_cache x') t is fs c (Bt es [])" "es ! i \<in> set es" "\<not> eend (es ! i)"
    "\<forall>s'. set_ib_dirty ops hid (after_put s hid h1 0 b m') = Some (Inr (), s') \<longrightarrow> handles s' hid = Some h1 \<longrightarrow>
       cache_block s' c = Some (b, m', q) \<longrightarrow> index_remove_key_nolock ops hid key s = Some (Inr (), s')"
    "cache_block s c = Some (b, m, q)" "\<forall>j < q. m' j = m j"
    "t' = put_leaf is (take i es @ drop (Suc i) es) t" "table_on (after_put s hid h1 0 b m') oid C t'"
    "bt_entries t = L @ es ! i # R" "bt_entries t' = L @ R" "cmp (es ! i) = 0"
    "obj_flags oid (after_put s hid h1 0 b m') = obj_flags oid s"
    using index_remove_key_put [OF tab h key co od old leaf, where ops = ops] by (elim exE conjE) (rule that)
  have xx: "x' = x" using 1(1) x(1) by simp
  from path_written [OF tab ok x h(1,2) al 1(2) 1(3) [unfolded xx] 1(7,9,10,14)]
  obtain s' t'' where r: "set_ib_dirty ops hid (after_put s hid h1 0 b m') = Some (Inr (), s')" "handles s' hid = Some h1"
    "cache_block s' c = Some (b, m', q)" "table_on s' oid C t''"
    "obj_ok s' oid C" "can_alloc s'" "strip_tree t'' = strip_tree t'" "obj_flags oid s' = obj_flags oid s"
    "map_option oi_root_cache (objs s' oid) = Some (oi_root_cache x)"
    "dirty_up s oid (oi_root_cache x) t \<longrightarrow> dirty_up s' oid (oi_root_cache x) t'' \<and> dirty_at s' (oi_root_cache x) \<and>
       path_copied s s' C (on_path s oid (oi_root_cache x) t is)"
    by blast
  have "map strip (bt_entries t'') = map strip (L @ R)"
    using r(7) strip_tree_entries [of t''] strip_tree_entries [of t'] 1(12) by simp
  moreover have "at_path s oid (oi_root_cache x) t is c (Bt es [])"
    using path_frames_at_path [OF 1(3)] xx by simp
  ultimately show ?thesis using r 1(4,6,11,13) by blast
qed

end


section \<open>A committed table\<close>

text \<open>The same blocks with other states of the caches.\<close>

definition recoloured :: "container \<Rightarrow> container \<Rightarrow> bool" where
  "recoloured s s' \<longleftrightarrow> objs s' = objs s \<and> bufs s' = bufs s \<and>
     (\<forall>c. map_option (\<lambda>k. (c_vbn k, c_ib k)) (caches s' c) = map_option (\<lambda>k. (c_vbn k, c_ib k)) (caches s c))"

lemma recoloured_cache:
  assumes "recoloured s s'"
  shows "caches s' c = None \<longleftrightarrow> caches s c = None"
    "caches s c = Some k \<Longrightarrow> \<exists>k'. caches s' c = Some k' \<and> c_vbn k' = c_vbn k \<and> c_ib k' = c_ib k"
proof -
  have e: "map_option (\<lambda>k. (c_vbn k, c_ib k)) (caches s' c) = map_option (\<lambda>k. (c_vbn k, c_ib k)) (caches s c)"
    using assms by (simp add: recoloured_def)
  show "caches s' c = None \<longleftrightarrow> caches s c = None" using e by (cases "caches s c") auto
  show "caches s c = Some k \<Longrightarrow> \<exists>k'. caches s' c = Some k' \<and> c_vbn k' = c_vbn k \<and> c_ib k' = c_ib k"
    using e by (cases "caches s' c") auto
qed

lemma recoloured_same:
  assumes "recoloured s s'"
  shows "cache_block s' c = cache_block s c" "cached s' oid v c \<longleftrightarrow> cached s oid v c" "obj_flags oid s' = obj_flags oid s"
proof -
  show "cache_block s' c = cache_block s c"
  proof (cases "caches s c")
    case None
    then have "caches s' c = None" using recoloured_cache(1) [OF assms, of c] by simp
    then show ?thesis using None by (simp add: cache_block_def)
  next
    case (Some k)
    then show ?thesis using recoloured_cache(2) [OF assms Some] assms by (auto simp: cache_block_def recoloured_def)
  qed
  have "compare_cache2 s' v b = compare_cache2 s v b" for b
  proof (cases "caches s b")
    case None
    then show ?thesis using recoloured_cache(1) [OF assms, of b] by (simp add: compare_cache2_def)
  next
    case (Some k)
    then show ?thesis using recoloured_cache(2) [OF assms Some] by (auto simp: compare_cache2_def)
  qed
  then have "compare_cache2 s' v = compare_cache2 s v" by (rule ext)
  then show "cached s' oid v c \<longleftrightarrow> cached s oid v c" using assms by (simp add: cached_def recoloured_def)
  show "obj_flags oid s' = obj_flags oid s" using assms by (simp add: obj_flags_def recoloured_def)
qed

lemma recoloured_tree: "tree_on s oid c C t \<Longrightarrow> recoloured s s' \<Longrightarrow> tree_on s' oid c C t"
proof (induction rule: tree_on.induct)
  case (on_leaf c b m p es)
  then show ?case using recoloured_same(1) by (intro tree_on.on_leaf) auto
next
  case (on_node c b m p es ts k Cs C)
  note s = recoloured_same [OF on_node.prems]
  obtain k' where k': "caches s' c = Some k'" "c_vbn k' = c_vbn k"
    using recoloured_cache(2) [OF on_node.prems on_node.hyps(4)] by blast
  have "\<exists>v c'. echild (es ! i) = Some v \<and> c_vbn k' \<noteq> v \<and> cached s' oid v c' \<and>
      tree_on s' oid c' (Cs i) (ts ! i) \<and> c \<notin> Cs i" if "i < length es" for i
    using on_node.IH [OF that] on_node.prems unfolding k'(2) s(2) by blast
  from tree_on.on_node [OF on_node.hyps(1) [folded s(1)] on_node.hyps(2,3) k'(1) this on_node.hyps(5,6)]
  show ?case .
qed

lemma recoloured_path: "at_path s oid c t is c' t' \<Longrightarrow> recoloured s s' \<Longrightarrow> at_path s' oid c t is c' t'"
proof (induction rule: at_path.induct)
  case (down i es ts v c1 "is" c' t' c)
  then show ?case using recoloured_same(2) [OF down.prems] by (intro at_path.down) auto
qed (rule at_path.here)

text \<open>The example table after a commit: every block clean, the reserved block is 20.\<close>

definition all_clean :: "container \<Rightarrow> container" where
  "all_clean s = s\<lparr> caches := \<lambda>c. map_option (\<lambda>k. k\<lparr> c_state := CLEAN \<rparr>) (caches s c) \<rparr>"

definition committed :: container where
  "committed = all_clean (ex_state\<lparr> ct_metadata_cache := oi_caches ex_obj, ct_base_blk := 20,
     ct_bsm := \<lparr> sm_space_obj = 1, sm_first_free_block = 0, sm_total_free_blocks = 0 \<rparr> \<rparr>)"

lemma committed_recoloured: "recoloured ex_state committed" "recoloured committed ex_state"
  by (simp_all add: recoloured_def committed_def all_clean_def option.map_comp o_def)

lemma committed_sel [simp]:
  "handles committed = handles ex_state" "objs committed = objs ex_state" "env committed = env ex_state"
  "tick committed = tick ex_state" "ct_metadata_cache committed = oi_caches ex_obj" "next_id committed = 5"
  "ct_base_blk committed = 20"
  by (simp_all add: committed_def all_clean_def ex_state_def)

lemma committed_caches: "caches committed = [1 \<mapsto> \<lparr> c_vbn = 10, c_state = CLEAN, c_ib = (1, 374) \<rparr>,
    2 \<mapsto> \<lparr> c_vbn = 11, c_state = CLEAN, c_ib = (2, 0) \<rparr>, 3 \<mapsto> \<lparr> c_vbn = 12, c_state = CLEAN, c_ib = (3, 0) \<rparr>,
    4 \<mapsto> \<lparr> c_vbn = 10, c_state = CLEAN, c_ib = (1, 0) \<rparr>]"
  by (auto simp: committed_def all_clean_def ex_state_def)

lemma committed_members: "members (oi_caches ex_obj) = {2, 3, 4}"
  by (auto simp: ex_obj_def members_def)

lemma committed_keys: "cache_key committed 1 = 10" "cache_key committed 2 = 11" "cache_key committed 3 = 12" "cache_key committed 4 = 10"
  by (simp_all add: cache_key_def committed_caches)

lemma committed_avl: "avl_inv (cache_key committed) (oi_caches ex_obj)"
  by (simp add: ex_obj_def avl_inv_def committed_keys)

lemma committed_caches_ok: "caches_ok committed"
proof -
  have "cache_tree committed (oi_caches ex_obj)"
    unfolding cache_tree_def using committed_avl by (auto simp: committed_members committed_caches)
  then show ?thesis by (auto simp: caches_ok_def ex_state_def committed_caches split: if_splits)
qed


lemma committed_table: "table_on committed 1 {1, 2, 3} ex_tree"
proof -
  have "tree_on committed 1 1 {1, 2, 3} ex_tree" by (rule recoloured_tree [OF ex_tree_on committed_recoloured(1)])
  moreover have "is_table 1 committed" using ex_table is_table_same [OF recoloured_same(3) [OF committed_recoloured(1)]]
    by (simp add: table_at_def)
  moreover have "bt_height ex_tree \<le> 15" using ex_table by (simp add: table_at_def)
  moreover have "inj_on (\<lambda>c. map_option (\<lambda>k. fst (c_ib k)) (caches committed c)) {1, 2, 3}"
    by (simp add: committed_caches)
  ultimately show ?thesis using ex_objs by (simp add: table_on_def committed_caches) (simp add: ex_obj_def)
qed

lemma committed_obj_ok: "obj_ok committed 1 {1, 2, 3}"
proof -
  have "0 \<notin> cached_vbns committed" by (simp add: cached_vbns_def committed_members committed_keys)
  moreover have "inj_on (cache_buf committed) {1, 2, 3}" by (simp add: cache_buf_def committed_caches)
  moreover have "{1, 2, 3} \<subseteq> own committed 1" using committed_members unfolding own_def committed_sel ex_objs by (simp add: ex_objs)
  ultimately show ?thesis
    using committed_caches_ok ex_objs committed_members committed_keys
    by (simp add: obj_ok_def committed_caches) (simp add: ex_obj_def)
qed

lemma committed_alloc: "base_alloc 200 committed"
proof -
  have "space_objid False committed = Some 200"
    by (simp add: space_objid_def get_sm_def ex_handle_at ex_objs) (simp add: committed_def all_clean_def ex_obj_def ex_state_def ex_handle_def)
  then show ?thesis by (simp add: base_alloc_def cached_vbns_def committed_members committed_keys)
qed

lemma committed_clean: "\<not> dirty_at committed c"
  by (auto simp: dirty_at_def committed_caches CACHE_DIRTY_def CLEAN_def DIRTY_def split: if_splits)

lemma clean_dirty_up: "tree_rep s oid c t \<Longrightarrow> (\<And>a. \<not> dirty_at s a) \<Longrightarrow> dirty_up s oid c t"
proof (induction rule: tree_rep.induct)
  case (leaf c b m p es)
  show ?case by (auto intro: dirty_up.intros)
next
  case (node c b m p es ts k)
  show ?case by (rule dirty_up.intros) (use node in \<open>metis\<close>)
qed

lemma committed_dirty_up: "dirty_up committed 1 1 ex_tree"
  using clean_dirty_up [OF tree_on_rep [OF recoloured_tree [OF ex_tree_on committed_recoloured(1)]]] committed_clean .

lemma committed_collates: "collates 1 committed [k] [] (ex_cmp k) (bt_entries ex_tree)"
  using recoloured_same(3) [OF committed_recoloured(1)] ex_collates [of k] by (simp add: collates_def ex_rule) 

lemma committed_leaf: "at_path committed 1 1 ex_tree is c (Bt es []) \<Longrightarrow> at_path ex_state 1 1 ex_tree is c (Bt es [])"
  by (rule recoloured_path [OF _ committed_recoloured(2)])

lemma committed_fits: "fits committed 1 ex_tree cmp 10"
proof -
  have "has_room committed c 10" if "leaf_for committed 1 ex_tree cmp c es" for c es
  proof -
    from that obtain "is" where "at_path committed 1 1 ex_tree is c (Bt es [])"
      unfolding leaf_for_def using ex_objs by auto
    then have "c \<in> {1, 2, 3}" using ex_at_path committed_leaf by blast
    then have "has_room ex_state c 10" using has_room_mono [OF ex_room] by simp
    then show ?thesis using recoloured_same(1) [OF committed_recoloured(1)] by (simp add: has_room_def)
  qed
  then show ?thesis by (auto simp: fits_def)
qed



section \<open>Properties\<close>






lemma base_freed: "block_service.freed ct_ops objid (base_free objid) v s \<Longrightarrow> ct_base_blk s = v"
  unfolding base_block.freed_def
  by (auto simp: base_free_def OFS_FREE_BLOCK_def ct_ops_def eval_nat_numeral ofs_free_space_def)

lemma base_allotted: "block_service.allotted ct_ops objid (base_alloc objid) s v \<Longrightarrow> ct_base_blk s = v"
  unfolding base_block.allotted_def
  by (auto simp: base_alloc_def OFS_ALLOC_BLOCK_def ct_ops_def eval_nat_numeral ofs_alloc_space_def)

text \<open>C11: the first change of a committed base table of at least two levels writes over it: the root block
  gets the number that the committed root has for its child on the path, and the reserved block, given
  out next, is the committed root's. The freed numbers are used again before the super block is written.\<close>

theorem base_copy_reuses_committed_block:
  assumes "table_on s oid C (Bt es ts)" "obj_ok s oid C" "objs s oid = Some x" "base_alloc (oi_objid x) s"
    and "handles s hid = Some h" "h_obj_info h = oid" "hid \<noteq> 0"
    and "key \<noteq> []" "9 + length key + length value < 65536"
    and "collates oid s key value cmp (bt_entries (Bt es ts))" "ordered cmp (bt_entries (Bt es ts))"
    and "\<forall>e \<in> set (bt_entries (Bt es ts)). cmp e \<noteq> 0" "io_malloc (env s (tick s))"
    and "fits s oid (Bt es ts) cmp (9 + length key + length value)" "dirty_up s oid (oi_root_cache x) (Bt es ts)"
    and "\<not> dirty_at s (oi_root_cache x)" "ts \<noteq> []"
  shows "\<exists>s' i. index_insert_key_nolock ct_ops hid key value s = Some (Inr (), s') \<and>
    i < length es \<and> echild (es ! i) = Some (cache_key s' (oi_root_cache x)) \<and>
    ct_base_blk s' = cache_key s (oi_root_cache x)"
proof -
  obtain s' "is" S es' c es0 where 1: "index_insert_key_nolock ct_ops hid key value s = Some (Inr (), s')"
    "at_path s oid (oi_root_cache x) (Bt es ts) is c (Bt es0 [])" "base_alloc (oi_objid x) s'"
    "block_service.freed ct_ops (oi_objid x) (base_free (oi_objid x)) (cache_key s (oi_root_cache x)) s'"
    "block_service.taken ct_ops (oi_objid x) (base_alloc (oi_objid x)) (base_free (oi_objid x)) S (put_leaf is es' (Bt es ts)) is (cache_key s' (oi_root_cache x))"
    using base_block.index_insert_key_copies [OF assms(1-3) refl assms(4-14)] assms(15,16) by blast
  from 1(2) assms(17) obtain i js where i: "is = i # js" by (cases "is") auto
  from 1(2) i have il: "i < length es" by (auto elim: at_path_ConsE)
  from 1(5) obtain s0 v where t: "block_service.allotted ct_ops (oi_objid x) (base_alloc (oi_objid x)) s0 (cache_key s' (oi_root_cache x))"
    "echild (es ! i) = Some v" "block_service.freed ct_ops (oi_objid x) (base_free (oi_objid x)) v s0"
    unfolding base_block.taken_def i by auto
  have "cache_key s' (oi_root_cache x) = v" using base_allotted [OF t(1)] base_freed [OF t(3)] by simp
  then show ?thesis using 1(1) il t(2) base_freed [OF 1(4)] by blast
qed

theorem base_copy_reuses_committed_block_witness:
  "\<exists>s'. index_insert_key_nolock ct_ops 1 [6] [] committed = Some (Inr (), s') \<and>
     cache_key s' 1 \<in> {11, 12} \<and> ct_base_blk s' = 10"
proof -
  have new: "\<forall>e \<in> set (bt_entries ex_tree). ex_cmp 6 e \<noteq> 0" by (simp add: ex_entries ex_cmp_def ex_ent_def)
  have x: "objs committed 1 = Some ex_obj" "handles committed 1 = Some ex_handle" "base_alloc (oi_objid ex_obj) committed"
    "io_malloc (env committed (tick committed))" "dirty_up committed 1 (oi_root_cache ex_obj) ex_tree"
    using ex_objs ex_handle_at committed_alloc ex_malloc committed_dirty_up by simp_all (simp add: ex_obj_def)
  have room: "fits committed 1 ex_tree (ex_cmp 6) (9 + length [6 :: u8] + length ([] :: u8 list))"
    using committed_fits by simp
  obtain s' i where 1: "index_insert_key_nolock ct_ops 1 [6] [] committed = Some (Inr (), s')" "i < length ex_root"
    "echild (ex_root ! i) = Some (cache_key s' (oi_root_cache ex_obj))"
    "ct_base_blk s' = cache_key committed (oi_root_cache ex_obj)"
    using base_copy_reuses_committed_block [OF committed_table [unfolded ex_tree_def] committed_obj_ok x(1,3,2) ex_handle_at(2) _ _ _
        committed_collates [unfolded ex_tree_def] ex_ordered [unfolded ex_tree_def] new [unfolded ex_tree_def] x(4)
        room [unfolded ex_tree_def] x(5) [unfolded ex_tree_def] committed_clean] by auto
  have "cache_key s' 1 \<in> {11, 12}"
    using 1(2,3) ex_objs by (auto simp: ex_root_def ex_ent_def end_ent_def less_Suc_eq)
  then show ?thesis using 1(1,4) ex_objs committed_keys by auto
qed

end
