(* ===== verification/LeafTable.thy ===== *)
theory LeafTable
  imports CopyUpdate
begin

text \<open>
  Tables of one block, as the tables of free extents are when they are small: what the search, the steps
  forwards and backwards, removing the entry under the cursor and inserting do to the list of entries,
  with the copying of the block included.
\<close>

section \<open>Tables of one block\<close>

text \<open>\<open>a\<close> is the room of the block.\<close>

definition flat_table :: "container \<Rightarrow> nat \<Rightarrow> nat \<Rightarrow> nat \<Rightarrow> nat \<Rightarrow> ent list \<Rightarrow> bool" where
  "flat_table s hid oid c a es \<longleftrightarrow> table_on s oid {c} (Bt es []) \<and> obj_ok s oid {c} \<and>
     (\<exists>h. handles s hid = Some h \<and> h_obj_info h = oid) \<and>
     (\<exists>b m p. cache_block s c = Some (b, m, p) \<and> unat (bh_alloc_size m p) = a)"

text \<open>The handle is on entry \<open>i\<close>.\<close>

definition on_entry :: "container \<Rightarrow> nat \<Rightarrow> nat \<Rightarrow> nat \<Rightarrow> ent list \<Rightarrow> nat \<Rightarrow> bool" where
  "on_entry s hid oid c es i \<longleftrightarrow> (\<exists>h. handles s hid = Some h \<and> cursor s oid h [] (c, es, [], i))"

text \<open>What the operations on a table leave alone.\<close>

definition steady :: "nat \<Rightarrow> container \<Rightarrow> container \<Rightarrow> bool" where
  "steady oid s s' \<longleftrightarrow> env s' = env s \<and> ct_sm s' = ct_sm s \<and> ct_bsm s' = ct_bsm s \<and>
     obj_flags oid s' = obj_flags oid s \<and> map_option oi_objid (objs s' oid) = map_option oi_objid (objs s oid)"

lemma steady_refl [simp]: "steady oid s s"
  by (simp add: steady_def)

lemma steady_trans: "steady oid s s' \<Longrightarrow> steady oid s' s'' \<Longrightarrow> steady oid s s''"
  by (simp add: steady_def)

lemma put_handle_frame [simp]:
  "env (put_handle hid h s) = env s" "ct_sm (put_handle hid h s) = ct_sm s" "ct_bsm (put_handle hid h s) = ct_bsm s"
  "tick (put_handle hid h s) = tick s"
  by (simp_all add: put_handle_def)

lemma steady_put_handle [simp]: "steady oid s (put_handle hid h s)"
  by (simp add: steady_def)

lemma after_put_frame [simp]: "ct_sm (after_put s hid h n b m) = ct_sm s" "ct_bsm (after_put s hid h n b m) = ct_bsm s"
  by (simp_all add: after_put_def put_buf_def put_handle_def)

lemma bt_entries_flat [simp]: "bt_entries (Bt es []) = filter (\<lambda>e. \<not> eend e) es"
  by (simp add: bt_entries.simps)

lemma client_put_handle:
  assumes "objs s oid = Some x" "handles s hid = Some h0" "h_obj_info h = h_obj_info h0"
  shows "client_change oid hid s (put_handle hid h s)"
  unfolding client_change_def
  by (rule exI [of _ x], rule exI [of _ x], rule exI [of _ "(handles s)(hid \<mapsto> h)"], rule exI [of _ "caches s"],
      rule exI [of _ "bufs s"], rule exI [of _ "ct_metadata_cache s"], rule exI [of _ "tick s"])
     (use assms in \<open>simp add: put_handle_def fun_upd_idem\<close>)

lemma cached_vbns_put_handle [simp]: "cached_vbns (put_handle hid h s) = cached_vbns s"
  by (simp add: cached_vbns_def cache_key_def [abs_def])

lemma caches_ok_put_handle: "caches_ok s \<Longrightarrow> caches_ok (put_handle hid h s)"
  by (rule caches_ok_mono) (auto simp: cache_key_def put_handle_def dest: caches_okD(2,5,6))

lemma keeps_put_handle: "keeps s (put_handle hid h s) C"
  by (simp add: keeps_def)

lemma table_on_put_handle: "table_on s oid C t \<Longrightarrow> table_on (put_handle hid h s) oid C t"
  using tree_on_keeps [OF _ keeps_put_handle] by (auto simp: table_on_def is_table_def)

lemma obj_ok_put_handle: "obj_ok s oid C \<Longrightarrow> obj_ok (put_handle hid h s) oid C"
  using caches_ok_put_handle [of s hid h]
  by (auto simp: obj_ok_def own_def cache_buf_def [abs_def] cache_key_def)

lemma flat_put_handle:
  assumes "flat_table s hid oid c a es" "h_obj_info h = oid"
  shows "flat_table (put_handle hid h s) hid oid c a es"
  using assms table_on_put_handle obj_ok_put_handle by (auto simp: flat_table_def)

lemma flat_tableD:
  assumes "flat_table s hid oid c a es"
  obtains x h b m p where "objs s oid = Some x" "oi_root_cache x = c" "handles s hid = Some h" "h_obj_info h = oid"
    "cache_block s c = Some (b, m, p)" "unat (bh_alloc_size m p) = a" "ib_rep m p es" "tree_rep s oid c (Bt es [])"
    "\<forall>e \<in> set es. echild e = None" "table_at s oid h (Bt es [])" "is_table oid s"
proof -
  from assms obtain x h b m p where 1: "objs s oid = Some x" "tree_on s oid (oi_root_cache x) {c} (Bt es [])"
    "handles s hid = Some h" "h_obj_info h = oid" "cache_block s c = Some (b, m, p)" "unat (bh_alloc_size m p) = a"
    "table_on s oid {c} (Bt es [])" "is_table oid s"
    by (auto simp: flat_table_def table_on_def)
  have c: "oi_root_cache x = c" using tree_on_root [OF 1(2)] by simp
  have tr: "tree_rep s oid c (Bt es [])" using tree_on_rep [OF 1(2)] c by simp
  obtain b' m' p' where "cache_block s c = Some (b', m', p')" "ib_rep m' p' es" by (rule tree_rep_block [OF tr])
  then have "ib_rep m p es" using 1(5) by simp
  moreover have "\<forall>e \<in> set es. echild e = None" using 1(2) by (auto elim!: tree_onE)
  ultimately show ?thesis using that 1 c tr table_on_at [OF 1(7,4)] by blast
qed

lemma on_entry_cursor:
  "flat_table s hid oid c a es \<Longrightarrow> i < length es \<Longrightarrow> cache_block s c = Some (b, m, p) \<Longrightarrow>
   h = go_to b p es i h \<Longrightarrow> h_obj_info h = oid \<Longrightarrow> h_depth h = 0 \<Longrightarrow> h_cache h = c \<Longrightarrow> h_cache_stack h 0 = c \<Longrightarrow>
   cursor s oid h [] (c, es, [], i)"
  by (erule flat_tableD) (auto simp: cursor.simps bt_height.simps)

lemma on_entryD:
  assumes "on_entry s hid oid c es i"
  obtains h b m p where "handles s hid = Some h" "cursor s oid h [] (c, es, [], i)" "cache_block s c = Some (b, m, p)"
    "ib_rep m p es" "i < length es" "h = go_to b p es i h" "h_obj_info h = oid" "h_depth h = 0" "h_cache h = c"
    "h_cache_stack h 0 = c" "tree_rep s oid c (Bt es [])" "put_handle hid h s = s"
proof -
  from assms obtain h where h: "handles s hid = Some h" "cursor s oid h [] (c, es, [], i)" by (auto simp: on_entry_def)
  from h(2) obtain b m p where f: "tree_rep s oid c (Bt es [])" "i < length es" "h_obj_info h = oid"
    "h_depth h = length ([] :: frame4 list)" "h_cache h = c" "h_cache_stack h (length ([] :: frame4 list)) = c"
    "cache_block s (h_cache h) = Some (b, m, p)" "h = go_to b p es i h" "ib_rep m p es"
    by (rule cursorE)
  have "h_depth h = 0" "h_cache_stack h 0 = c" using f(4,6) by simp_all
  then show ?thesis
    by (rule that [OF h f(7) [unfolded f(5)] f(9,2,8,3) _ f(5) _ f(1) put_handle_same [OF h(1)]])
qed

lemma on_entry_test:
  assumes "on_entry s hid oid c es i"
  shows "ie_test ENTRY_END hid s = Some (Suc i = length es)"
    "ie_test ENTRY_NODE hid s = Some False" "ie_test (ENTRY_END OR ENTRY_BEGIN) hid s = Some (Suc i = length es)"
proof -
  obtain h where h: "cursor s oid h [] (c, es, [], i)" "put_handle hid h s = s" by (rule on_entryD [OF assms])
  show "ie_test ENTRY_END hid s = Some (Suc i = length es)"
    "ie_test ENTRY_NODE hid s = Some False" "ie_test (ENTRY_END OR ENTRY_BEGIN) hid s = Some (Suc i = length es)"
    using cursor_test [OF h(1), of hid] unfolding h(2) by simp_all
qed

lemma on_entry_ie:
  assumes "on_entry s hid oid c es i"
  shows "\<exists>m q. tree_ie hid s = Some (m, q) \<and> GET_IE_KEY m q = ekey (es ! i) \<and> GET_IE_VALUE m q = evalue (es ! i)"
proof -
  obtain h b m p where h: "cache_block s c = Some (b, m, p)" "ib_rep m p es" "i < length es" "h = go_to b p es i h"
    "put_handle hid h s = s" by (rule on_entryD [OF assms])
  have "tree_ie hid (put_handle hid (go_to b p es i h) s) = Some (m, ie_off p es i)"
    by (rule tree_ie_go_to [OF cache_block_bufs [OF h(1)]])
  then have "tree_ie hid s = Some (m, ie_off p es i)" using h(4,5) by simp
  then show ?thesis using ib_rep_key [OF h(2,3)] ib_rep_value [OF h(2,3)] by blast
qed

section \<open>Searching and stepping\<close>

text \<open>The search ends on an equal entry, or between the smaller and the larger ones.\<close>

lemma flat_search:
  assumes flat: "flat_table s hid oid c a es" and key: "hid \<noteq> 0" "key \<noteq> []"
    and co: "collates oid s key value cmp (filter (\<lambda>e. \<not> eend e) es)" and od: "ordered cmp (filter (\<lambda>e. \<not> eend e) es)"
  shows "\<exists>h i found. index_search_key_nolock hid key value s =
      Some (if found then Inr () else Inl INDEX_ERR_KEY_NOT_FOUND, put_handle hid h s) \<and>
    flat_table (put_handle hid h s) hid oid c a es \<and> on_entry (put_handle hid h s) hid oid c es i \<and>
    (if found then \<not> eend (es ! i) \<and> cmp (es ! i) = 0
     else (\<forall>e \<in> set (take i es). cmp e < 0) \<and> (\<forall>e \<in> set (filter (\<lambda>e. \<not> eend e) (drop i es)). 0 < cmp e))"
proof -
  obtain x h where 1: "objs s oid = Some x" "oi_root_cache x = c" "handles s hid = Some h" "h_obj_info h = oid"
    "table_at s oid h (Bt es [])" "is_table oid s" "tree_rep s oid c (Bt es [])" by (rule flat_tableD [OF flat])
  have s: "put_handle hid h s = s" by (rule put_handle_same [OF 1(3)])
  have co': "collates oid s key value cmp (bt_entries (Bt es []))" and od': "ordered cmp (bt_entries (Bt es []))"
    using co od by simp_all
  obtain h1 found where 2: "search_key_internal hid key value s =
      Some (if found then Inr () else Inl INDEX_ERR_KEY_NOT_FOUND, put_handle hid h1 s)"
    "search_end s oid h1 cmp [] c (Bt es []) found"
    using search_key_internal_table [OF 1(5) key(2) co' od', of hid] 1(1,2) unfolding s by auto
  from 2(2) obtain fs c' es' ts' i "is" where 3: "cursor s oid h1 (fs @ []) (c', es', ts', i)"
    "path_frames s oid c (Bt es []) is fs c' (Bt es' ts')"
    "if found then \<not> eend (es' ! i) \<and> cmp (es' ! i) = 0
      else ts' = [] \<and> (\<forall>e \<in> set (fst (around (Bt es []) is) @ take i es'). cmp e < 0) \<and>
             (\<forall>e \<in> set (rest_at es' [] i @ snd (around (Bt es []) is)). 0 < cmp e)"
    unfolding search_end_def by (elim exE conjE) (rule that)
  have p: "is = []" "fs = []" "c' = c" "es' = es" "ts' = []" using 3(2) by (auto elim: path_frames.cases)
  have cur: "cursor s oid h1 [] (c, es, [], i)" using 3(1) p by simp
  then have i: "i < length es" and o: "h_obj_info h1 = oid" "h_depth h1 = 0" by (auto elim!: cursorE)
  have cur': "cursor (put_handle hid h1 s) oid h1 [] (c, es, [], i)"
  proof -
    have "tree_rep (put_handle hid h1 s) oid c (Bt es [])"
      using flat_put_handle [OF flat o(1), THEN flat_tableD] 1(1,2) by (metis put_handle_simps(4) option.inject)
    then show ?thesis using cur by (auto simp: cursor.simps)
  qed
  have oe: "on_entry (put_handle hid h1 s) hid oid c es i" using cur' by (auto simp: on_entry_def)
  have near: "get_to_near_key hid (put_handle hid h1 s) = Some (put_handle hid h1 s)"
    using on_entry_test(1) [OF oe] o(2)
    by (subst get_to_near_key.simps) (simp add: pop_cache_stack_def)
  have "index_search_key_nolock hid key value s =
      Some (if found then Inr () else Inl INDEX_ERR_KEY_NOT_FOUND, put_handle hid h1 s)"
    using 2(1) key assert_table_put_handle [of h s hid] 1(4,6) near unfolding s by (simp add: index_search_key_nolock_def)
  moreover have "if found then \<not> eend (es ! i) \<and> cmp (es ! i) = 0
     else (\<forall>e \<in> set (take i es). cmp e < 0) \<and> (\<forall>e \<in> set (filter (\<lambda>e. \<not> eend e) (drop i es)). 0 < cmp e)"
    using 3(3) p by (auto simp: rest_at_def after_leaf)
  ultimately show ?thesis using oe flat_put_handle [OF flat o(1)] by blast
qed

text \<open>The handle on another entry of the block.\<close>

lemma flat_go_to:
  assumes "flat_table s hid oid c a es" "h_obj_info h = oid" "h_depth h = 0" "h_cache h = c" "h_cache_stack h 0 = c"
    "cache_block s c = Some (b, m, p)" "j < length es"
  shows "flat_table (put_handle hid (go_to b p es j h) s) hid oid c a es"
    "on_entry (put_handle hid (go_to b p es j h) s) hid oid c es j"
proof -
  let ?h = "go_to b p es j h"
  show f: "flat_table (put_handle hid ?h s) hid oid c a es" by (rule flat_put_handle [OF assms(1)]) (simp add: assms(2))
  have "cursor (put_handle hid ?h s) oid ?h [] (c, es, [], j)"
    by (rule on_entry_cursor [OF f assms(7), of b m p]) (simp_all add: assms)
  then show "on_entry (put_handle hid ?h s) hid oid c es j" by (auto simp: on_entry_def)
qed

lemma begin_entry:
  assumes "ib_rep m p es"
  shows "ie_prev_len m (p + 24) = 0" "ie_flags m (p + 24) = ENTRY_BEGIN"
proof -
  have r: "rd m (p + 24) 9 = bytes_le 2 9 @ bytes_le 2 0 @ bytes_le 2 0 @ bytes_le 2 0 @ [ENTRY_BEGIN]"
    using assms by (simp add: ib_rep_def begin_bytes_def)
  have "rd m (p + 24 + 2) 2 = bytes_le 2 0" by (rule rd_sub [of m "p + 24" 9 "bytes_le 2 9"]) (use r in simp_all)
  moreover have "rd m (p + 24 + 8) 1 = [ENTRY_BEGIN]"
    by (rule rd_sub [of m "p + 24" 9 "bytes_le 2 9 @ bytes_le 2 0 @ bytes_le 2 0 @ bytes_le 2 0"]) (use r in simp_all)
  ultimately show "ie_prev_len m (p + 24) = 0" "ie_flags m (p + 24) = ENTRY_BEGIN"
    by (simp_all add: ie_prev_len_def ie_flags_def get16_def rd_def le_val_bytes_le)
qed

text \<open>A step back; in front of the first entry the walk ends.\<close>

lemma back_flags: "has_flag INDEX_GET_PREV INDEX_GET_PREV" "\<not> has_flag INDEX_GET_PREV (INDEX_GET_FIRST OR INDEX_GET_LAST)"
  "has_flag INDEX_GET_PREV (INDEX_GET_LAST OR INDEX_GET_PREV)" "\<not> has_flag INDEX_GET_PREV INDEX_GET_LAST_ENTRY"
  "\<not> has_flag INDEX_GET_PREV INDEX_REMOVE_BLOCK"
  by (simp_all add: has_flag_def walk_flag_defs)

lemma get_prev_ie_go_to:
  assumes "cache_block s (h_cache h) = Some (b, m, p)" "ib_rep m p es" "Suc j < length es"
  shows "get_prev_ie hid (put_handle hid (go_to b p es (Suc j) h) s) =
    Some (Inr False, put_handle hid (go_to b p es j h) s)"
proof -
  have j: "j < length es" using assms(3) by simp
  note e = ent_at_fields [OF ib_rep_nth [OF assms(2,3)]]
  have prev: "GET_PREV_IE m (ie_off p es (Suc j)) = ie_off p es j" using ib_rep_prev [OF assms(2) _ assms(3)] by simp
  have pl: "unat (ie_prev_len m (ie_off p es (Suc j))) = esize (es ! j)"
    using e(2) j by (simp add: take_Suc_conv_app_nth prev_size_def)
  have off: "ie_off p es (Suc j) - p = (ie_off p es j - p) + esize (es ! j)"
    using ie_off_Suc [OF j, of p] by (simp add: ie_off_diff) (simp add: ie_off_def)
  have pos: "(of_nat (ie_off p es (Suc j) - p) :: u64) - ucast (ie_prev_len m (ie_off p es (Suc j))) = of_nat (ie_off p es j - p)"
  proof -
    have "(ucast (ie_prev_len m (ie_off p es (Suc j))) :: u64) = of_nat (esize (es ! j))" using pl by (metis of_nat_unat)
    then show ?thesis unfolding off by simp
  qed
  have ne: "ie_prev_len m (ie_off p es j) \<noteq> 0"
  proof -
    have "0 < prev_size 9 (take j es)"
      using esize_ge [of "last (take j es)"] by (auto simp: prev_size_def)
    then show ?thesis using ent_at_fields(2) [OF ib_rep_nth [OF assms(2) j]] by auto
  qed
  have "\<not> ie_off p es j < p + 24" using ie_off_ge [of p es j] by simp
  then show ?thesis
    using prev pos ne
    by (simp add: get_prev_ie_def tree_ie_go_to cache_block_bufs [OF assms(1)] tree_block_put_handle assms(1) Let_def go_to_eqs del: of_nat_diff)
qed

lemma flat_prev:
  assumes flat: "flat_table s hid oid c a es" and on: "on_entry s hid oid c es (Suc j)"
  shows "\<exists>h. walk_tree ops hid INDEX_GET_PREV s = Some (Inr (), put_handle hid h s) \<and>
    flat_table (put_handle hid h s) hid oid c a es \<and> on_entry (put_handle hid h s) hid oid c es j"
proof -
  obtain h b m p where h: "handles s hid = Some h" "cache_block s c = Some (b, m, p)" "ib_rep m p es" "Suc j < length es"
    "h = go_to b p es (Suc j) h" "h_obj_info h = oid" "h_depth h = 0" "h_cache h = c" "h_cache_stack h 0 = c"
    "put_handle hid h s = s" by (rule on_entryD [OF on])
  have tab: "is_table oid s" by (rule flat_tableD [OF flat])
  have j: "j < length es" using h(4) by simp
  let ?s = "put_handle hid (go_to b p es j h) s"
  note g = flat_go_to [OF flat h(6-9,2) j]
  have "get_prev_ie hid (put_handle hid (go_to b p es (Suc j) h) s) = Some (Inr False, ?s)"
    by (rule get_prev_ie_go_to) (use h in simp_all)
  then have p: "get_prev_ie hid s = Some (Inr False, ?s)" using h(5,10) by simp
  have "get_current_ie ops hid INDEX_GET_PREV ?s = Some (Inr (), ?s)"
    using on_entry_test [OF g(2)] h(4)
    by (simp add: get_current_ie_def down_to_leaf.simps up_from_ends.simps)
  then have "walk_tree ops hid INDEX_GET_PREV s = Some (Inr (), ?s)"
    using p on_entry_test(2) [OF on] back_flags assert_table_put_handle [of h s hid] h(6,10) tab
    by (simp add: walk_tree_def)
  then show ?thesis using g by blast
qed

lemma flat_prev_first:
  assumes flat: "flat_table s hid oid c a es" and on: "on_entry s hid oid c es 0"
  shows "\<exists>h. walk_tree ops hid INDEX_GET_PREV s = Some (Inl INDEX_ERR_ROOT, put_handle hid h s) \<and>
    flat_table (put_handle hid h s) hid oid c a es"
proof -
  obtain h b m p where h: "handles s hid = Some h" "cache_block s c = Some (b, m, p)" "ib_rep m p es" "0 < length es"
    "h = go_to b p es 0 h" "h_obj_info h = oid" "h_depth h = 0" "h_cache h = c" "h_cache_stack h 0 = c"
    "put_handle hid h s = s" by (rule on_entryD [OF on])
  have tab: "is_table oid s" by (rule flat_tableD [OF flat])
  have m: "bufs s b = Some m" by (rule cache_block_bufs [OF h(2)])
  note e = ent_at_fields [OF ib_rep_nth [OF h(3,4)]]
  have q: "ie_off p es 0 = p + 33" by (simp add: ie_off_def)
  have prev: "GET_PREV_IE m (p + 33) = p + 24" using e(2) by (simp add: GET_PREV_IE_def prev_size_def ie_off_def)
  note b0 = begin_entry [OF h(3)]
  define h1 where "h1 = h\<lparr> h_position := h_position h - ucast (ie_prev_len m (p + 33)), h_ie := (b, p + 24) \<rparr>"
  let ?s = "put_handle hid h1 s"
  have ie: "h_ie h = (b, p + 33)" using arg_cong [OF h(5), of h_ie] q by simp
  have tb: "tree_block hid s = Some (h, b, m, p)" using h(1,2,8) by (simp add: tree_block_def)
  have ti: "tree_ie hid s = Some (m, p + 33)" using h(1) ie m by (simp add: tree_ie_def)
  have bg: "ie_is ENTRY_BEGIN m (p + 24)" "\<not> ie_is ENTRY_NODE m (p + 24)" "ie_is (ENTRY_END OR ENTRY_BEGIN) m (p + 24)"
    using b0(2) by (simp_all add: ie_is_def has_flag_def ENTRY_BEGIN_def ENTRY_NODE_def ENTRY_END_def)
  have p1: "get_prev_ie hid s = Some (Inr True, ?s)"
    using ie prev b0(1) bg by (simp add: get_prev_ie_def ti tb Let_def h1_def)
  have ti1: "tree_ie hid ?s = Some (m, p + 24)" using m by (simp add: tree_ie_def h1_def)
  have tb1: "tree_block hid ?s = Some (h1, b, m, p)" using h(2,8) by (simp add: tree_block_def h1_def)
  have ie1: "h_ie h1 = (b, p + 24)" and same: "put_handle hid (h1\<lparr> h_ie := (b, p + 24) \<rparr>) s = ?s"
    by (simp_all add: h1_def)
  have "GET_PREV_IE m (p + 24) = p + 24" using b0(1) by (simp add: GET_PREV_IE_def)
  then have p2: "get_prev_ie hid ?s = Some (Inr True, ?s)"
    using b0(1) bg ie1 by (simp add: get_prev_ie_def ti1 tb1 Let_def same)
  have pop: "pop_cache_stack hid INDEX_GET_PREV ?s = Some (Inl INDEX_ERR_ROOT, ?s)"
    using h(7) by (simp add: pop_cache_stack_def h1_def)
  have "get_current_ie ops hid INDEX_GET_PREV ?s = Some (Inl INDEX_ERR_ROOT, ?s)"
    using bg p2 pop back_flags
    by (simp add: get_current_ie_def down_to_leaf.simps up_from_ends.simps ie_test_def ti1 add_or_remove_ib_def)
  then have "walk_tree ops hid INDEX_GET_PREV s = Some (Inl INDEX_ERR_ROOT, ?s)"
    using p1 on_entry_test(2) [OF on] back_flags assert_table_put_handle [of h s hid] h(6,10) tab
    by (simp add: walk_tree_def)
  moreover have "flat_table ?s hid oid c a es" by (rule flat_put_handle [OF flat]) (simp add: h1_def h(6))
  ultimately show ?thesis by blast
qed

text \<open>Back to the first entry.\<close>

lemma flat_first:
  assumes flat: "flat_table s hid oid c a es"
  shows "\<exists>h. walk_tree ops hid INDEX_GET_FIRST s =
      Some (if length es = 1 then Inl INDEX_ERR_ROOT else Inr (), put_handle hid h s) \<and>
    flat_table (put_handle hid h s) hid oid c a es \<and> on_entry (put_handle hid h s) hid oid c es 0"
proof -
  obtain x h b m p where h: "objs s oid = Some x" "oi_root_cache x = c" "handles s hid = Some h" "h_obj_info h = oid"
    "cache_block s c = Some (b, m, p)" "ib_rep m p es" "is_table oid s" by (rule flat_tableD [OF flat])
  define h0 where "h0 = h\<lparr> h_cache := c, h_cache_stack := (h_cache_stack h)(0 := c), h_depth := 0 \<rparr>"
  have h0: "h_obj_info h0 = oid" "h_depth h0 = 0" "h_cache h0 = c" "h_cache_stack h0 0 = c" using h(4) by (simp_all add: h0_def)
  have ne: "0 < length es" using h(6) by (auto simp: ib_rep_def ends_with_end_def)
  let ?s = "put_handle hid (go_to b p es 0 h0) s"
  note g = flat_go_to [OF flat h0 h(5) ne]
  have fl: "\<not> has_flag INDEX_GET_FIRST INDEX_GET_LAST" "has_flag INDEX_GET_FIRST (INDEX_GET_FIRST OR INDEX_GET_LAST)"
    by (simp_all add: has_flag_def walk_flag_defs)
  have "get_first_ie hid (put_handle hid h0 s) = Some ?s"
    by (rule get_first_ie_go_to) (use h h0 in simp_all)
  then have r: "reset_cache_stack hid INDEX_GET_FIRST s = Some ?s"
    using h fl by (simp add: reset_cache_stack_def h0_def)
  have d: "pop_cache_stack hid INDEX_GET_FIRST ?s = Some (Inl INDEX_ERR_ROOT, ?s)"
    using h0(2) by (simp add: pop_cache_stack_def)
  have "get_current_ie ops hid INDEX_GET_FIRST ?s = Some (if length es = 1 then Inl INDEX_ERR_ROOT else Inr (), ?s)"
    using on_entry_test [OF g(2)] d forward_simps(1,2) [OF forward_simps(4)]
    by (simp add: get_current_ie_def down_to_leaf.simps up_from_ends.simps)
  then have "walk_tree ops hid INDEX_GET_FIRST s = Some (if length es = 1 then Inl INDEX_ERR_ROOT else Inr (), ?s)"
    using r fl assert_table_put_handle [of h s hid] put_handle_same [OF h(3)] h(4,7)
    by (simp add: walk_tree_def)
  then show ?thesis using g by blast
qed

section \<open>Removing and inserting\<close>

lemma strip_leaf_eq:
  "map strip es = map strip es' \<Longrightarrow> \<forall>e \<in> set es. echild e = None \<Longrightarrow> \<forall>e \<in> set es'. echild e = None \<Longrightarrow> es = es'"
proof (induction es arbitrary: es')
  case (Cons e es)
  then obtain f fs where f: "es' = f # fs" by (cases es') auto
  have st: "strip g = g" if "echild g = None" for g using that by (cases g) (simp add: strip_def)
  have "strip e = e" "strip f = f" by (rule st; use Cons.prems f in simp)+
  moreover have "strip e = strip f" and es: "map strip es = map strip fs" using Cons.prems(1) f by simp_all
  ultimately have "e = f" by metis
  moreover have "es = fs" by (rule Cons.IH [OF es]) (use Cons.prems(2,3) f in simp_all)
  ultimately show ?case using f by blast
qed simp

context block_service
begin

lemma flat_written:
  assumes flat: "flat_table s hid oid c a es" and al: "can_alloc s" and x: "map_option oi_objid (objs s oid) = Some objid"
    and cur: "cursor s oid h1 [] (c, es, [], i)"
    and b: "cache_block s c = Some (b, m, q)" "bh_alloc_size m' q = bh_alloc_size m q" "ib_rep m' q es'"
      "\<forall>e \<in> set es'. echild e = None" "\<And>j. j < q \<Longrightarrow> m' j = m j"
  shows "\<exists>s'. set_ib_dirty ops hid (after_put s hid h1 n b m') = Some (Inr (), s') \<and> handles s' hid = Some h1 \<and>
    cache_block s' c = Some (b, m', q) \<and> flat_table s' hid oid c a es' \<and> can_alloc s' \<and> steady oid s s' \<and> tree_rep s' oid c (Bt es' [])"
proof -
  obtain x0 h where 1: "objs s oid = Some x0" "oi_root_cache x0 = c" "handles s hid = Some h" "h_obj_info h = oid"
    by (rule flat_tableD [OF flat])
  have tab: "table_on s oid {c} (Bt es [])" and ok: "obj_ok s oid {c}" and a: "unat (bh_alloc_size m q) = a"
    using flat b(1) by (auto simp: flat_table_def)
  have xo: "oi_objid x0 = objid" using x 1(1) by simp
  let ?S = "after_put s hid h1 n b m'"
  have ob: "only_buf s ?S b" by (simp add: only_buf_def)
  have pf: "path_frames s oid (oi_root_cache x0) (Bt es []) [] [] c (Bt es [])" using path_frames.here 1(2) by simp
  have "at_path s oid (oi_root_cache x0) (Bt es []) [] c (Bt es [])" using 1(2) by simp
  from table_on_write [OF tab 1(1) this b(1) ob _ b(3,4,5)]
  have w: "table_on ?S oid {c} (Bt es' [])" "obj_flags oid ?S = obj_flags oid s" by simp_all
  have t': "Bt es' [] = put_leaf [] es' (Bt es [])" by simp
  from path_written [OF tab ok 1(1) xo 1(3,4) al cur pf b(1) t' w]
  obtain s' t'' where r: "set_ib_dirty ops hid ?S = Some (Inr (), s')" "handles s' hid = Some h1"
    "cache_block s' c = Some (b, m', q)" "table_on s' oid {c} t''" "obj_ok s' oid {c}" "can_alloc s'"
    "strip_tree t'' = strip_tree (Bt es' [])" "obj_flags oid s' = obj_flags oid s" "kept ?S s' oid hid {}"
    "map_option oi_root_cache (objs s' oid) = Some (oi_root_cache x0)"
    by blast
  obtain es2 ts2 where t2: "t'' = Bt es2 ts2" by (metis bt.exhaust)
  have ts2: "ts2 = []" "map strip es2 = map strip es'" using r(7) t2 by simp_all
  have o: "h_obj_info h1 = oid" using cur by (auto elim!: cursorE)
  have fl: "flat_table s' hid oid c a es2" using r(2-5) t2 ts2 b(2) a o by (simp add: flat_table_def)
  obtain b2 m2 p2 where "\<forall>e \<in> set es2. echild e = None" "tree_rep s' oid c (Bt es2 [])" by (rule flat_tableD [OF fl])
  then have "es2 = es'" "tree_rep s' oid c (Bt es2 [])" using strip_leaf_eq [OF ts2(2)] b(4) by simp_all
  moreover have "steady oid s s'" using r(8,9) 1(1) by (auto simp: steady_def kept_def)
  ultimately show ?thesis using r(1-3,6) fl by blast
qed

lemma flat_remove:
  assumes flat: "flat_table s hid oid c a es" and on: "on_entry s hid oid c es i" and i: "Suc i < length es"
    and al: "can_alloc s" and x: "map_option oi_objid (objs s oid) = Some objid"
  shows "\<exists>s'. tree_remove_ie ops hid s = Some (Inr (), s') \<and> flat_table s' hid oid c a (take i es @ drop (Suc i) es) \<and>
    on_entry s' hid oid c (take i es @ drop (Suc i) es) i \<and> can_alloc s' \<and> steady oid s s'"
proof -
  obtain h b m p where h: "handles s hid = Some h" "cursor s oid h [] (c, es, [], i)" "cache_block s c = Some (b, m, p)"
    "h = go_to b p es i h" "h_obj_info h = oid" "h_depth h = 0" "h_cache h = c" "h_cache_stack h 0 = c" "put_handle hid h s = s"
    by (rule on_entryD [OF on])
  let ?es = "take i es @ drop (Suc i) es"
  obtain m' where m': "ib_rep m' p ?es" "\<forall>j < p. m' j = m j" "bh_alloc_size m' p = bh_alloc_size m p"
    and r: "\<forall>s'. set_ib_dirty ops hid (put_buf b m' s) = Some (Inr (), s') \<longrightarrow> handles s' hid = Some h \<longrightarrow>
       cache_block s' c = Some (b, m', p) \<longrightarrow> tree_remove_ie ops hid s = Some (Inr (), s')"
    using tree_remove_ie_put [OF h(2,3) i _ h(1) refl refl, where ops = ops] by blast
  have nc: "\<forall>e \<in> set ?es. echild e = None"
  proof -
    have "\<forall>e \<in> set es. echild e = None" by (rule flat_tableD [OF flat])
    then show ?thesis by (auto dest: in_set_takeD in_set_dropD)
  qed
  have ap: "after_put s hid h 0 b m' = put_buf b m' s" using h(9) by (simp add: after_put_def)
  obtain s' where s': "set_ib_dirty ops hid (put_buf b m' s) = Some (Inr (), s')" "handles s' hid = Some h"
    "cache_block s' c = Some (b, m', p)" "flat_table s' hid oid c a ?es" "can_alloc s'" "steady oid s s'"
    using flat_written [OF flat al x h(2,3) m'(3,1) nc, where n = 0] m'(2) unfolding ap by blast
  have go: "h = go_to b p ?es i h"
  proof -
    have "take i ?es = take i es" using i by simp
    then have "go_to b p ?es i h = go_to b p es i h" by (simp only: go_to_def ie_off_def)
    then show ?thesis using h(4) by simp
  qed
  have "cursor s' oid h [] (c, ?es, [], i)"
    by (rule on_entry_cursor [OF s'(4) _ s'(3) go h(5-8)]) (use i in simp)
  then have "on_entry s' hid oid c ?es i" using s'(2) by (auto simp: on_entry_def)
  then show ?thesis using r s' by blast
qed

lemma flat_insert:
  assumes flat: "flat_table s hid oid c a es" and key: "hid \<noteq> 0" "key \<noteq> []" "9 + length key + length value < 65536"
    and co: "collates oid s key value cmp (filter (\<lambda>e. \<not> eend e) es)" and od: "ordered cmp (filter (\<lambda>e. \<not> eend e) es)"
    and new: "\<forall>e \<in> set (filter (\<lambda>e. \<not> eend e) es). cmp e \<noteq> 0" and mem: "io_malloc (env s (tick s))"
    and room: "33 + esizes es + (9 + length key + length value) \<le> a"
    and al: "can_alloc s" and x: "map_option oi_objid (objs s oid) = Some objid"
  shows "\<exists>s' es' L R. index_insert_key_nolock ops hid key value s = Some (Inr (), s') \<and> flat_table s' hid oid c a es' \<and>
    can_alloc s' \<and> steady oid s s' \<and> esizes es' = esizes es + (9 + length key + length value) \<and>
    filter (\<lambda>e. \<not> eend e) es = L @ R \<and> filter (\<lambda>e. \<not> eend e) es' = L @ leaf_ent key value # R \<and>
    (\<forall>e \<in> set L. cmp e < 0) \<and> (\<forall>e \<in> set R. 0 < cmp e)"
proof -
  obtain x0 h where 1: "objs s oid = Some x0" "oi_root_cache x0 = c" "handles s hid = Some h" "h_obj_info h = oid"
    by (rule flat_tableD [OF flat])
  obtain b0 m0 p0 where 0: "cache_block s c = Some (b0, m0, p0)" "unat (bh_alloc_size m0 p0) = a" "ib_rep m0 p0 es"
    "\<forall>e \<in> set es. echild e = None" by (rule flat_tableD [OF flat])
  have tab: "table_on s oid {c} (Bt es [])" using flat by (simp add: flat_table_def)
  have fits: "fits s oid (Bt es []) cmp (9 + length key + length value)"
  proof -
    have "has_room s c' (9 + length key + length value)" if "leaf_for s oid (Bt es []) cmp c' es'" for c' es'
    proof -
      from that obtain "is" where "at_path s oid c (Bt es []) is c' (Bt es' [])" unfolding leaf_for_def using 1(1,2) by auto
      then have "c' = c" by (auto elim: at_path.cases)
      then show ?thesis using 0 room by (auto simp: has_room_def ib_rep_def)
    qed
    then show ?thesis by (simp add: fits_def)
  qed
  obtain x1 h1 fs c1 es1 i "is" b m m' q t' L R where 2: "objs s oid = Some x1" "cursor s oid h1 fs (c1, es1, [], i)"
    "path_frames s oid (oi_root_cache x1) (Bt es []) is fs c1 (Bt es1 [])"
    "\<forall>s'. set_ib_dirty ops hid (after_put s hid h1 1 b m') = Some (Inr (), s') \<longrightarrow>
       index_insert_key_nolock ops hid key value s = Some (Inr (), s')"
    "cache_block s c1 = Some (b, m, q)" "\<forall>j < q. m' j = m j"
    "t' = put_leaf is (take i es1 @ leaf_ent key value # drop i es1) (Bt es [])"
    "table_on (after_put s hid h1 1 b m') oid {c} t'" "bt_entries (Bt es []) = L @ R"
    "bt_entries t' = L @ leaf_ent key value # R" "\<forall>e \<in> set L. cmp e < 0" "\<forall>e \<in> set R. 0 < cmp e"
    "bh_alloc_size m' q = bh_alloc_size m q"
    using index_insert_key_put [OF tab 1(3,4) key co [folded bt_entries_flat] od [folded bt_entries_flat]
        new [folded bt_entries_flat] mem fits, where ops = ops] by (elim exE conjE) (rule that)
  have p: "is = []" "fs = []" "c1 = c" "es1 = es" using 2(3) 1(1,2) 2(1) by (auto elim: path_frames.cases)
  let ?es = "take i es @ leaf_ent key value # drop i es"
  have t': "t' = Bt ?es []" using 2(7) p by simp
  have cur: "cursor s oid h1 [] (c, es, [], i)" using 2(2) p by simp
  have nc: "\<forall>e \<in> set ?es. echild e = None" using 0(4) by (auto dest: in_set_takeD in_set_dropD)
  have "tree_on (after_put s hid h1 1 b m') oid c {c} (Bt ?es [])"
    using 2(8) 1(1,2) t' by (auto simp: table_on_def)
  moreover have "cache_block (after_put s hid h1 1 b m') c = Some (b, m', q)"
    using 2(5) p by (auto simp: cache_block_def bind_eq_Some_conv)
  ultimately have rep: "ib_rep m' q ?es" by (auto elim!: tree_onE)
  have b: "cache_block s c = Some (b, m, q)" using 2(5) p by simp
  obtain s' where s': "set_ib_dirty ops hid (after_put s hid h1 1 b m') = Some (Inr (), s')"
    "flat_table s' hid oid c a ?es" "can_alloc s'" "steady oid s s'"
    using flat_written [OF flat al x cur b 2(13) rep nc, where n = 1] 2(6) by blast
  have "esizes ?es = esizes es + (9 + length key + length value)"
    using esizes_take_drop [of i es] cur by (auto elim!: cursorE)
  then show ?thesis using 2(4,9-12) s' t' by (intro exI [of _ s'] exI [of _ ?es] exI [of _ L] exI [of _ R]) simp
qed

end

end
