(* ===== verification/FreeSpace.thy ===== *)
theory FreeSpace
  imports LeafTable
begin

text \<open>
  The free blocks of a space manager: the table of free extents as a set of block numbers. Allocating
  takes blocks out of the set, freeing puts them back and merges the extents that touch; no block is ever
  given to two owners. The table is one block, with room for two more extents.
\<close>

section \<open>Extents\<close>

definition ext_start :: "ent \<Rightarrow> nat" where "ext_start e = le_val (ekey e)"
definition ext_end :: "ent \<Rightarrow> nat" where "ext_end e = ext_start e + le_val (evalue e)"

definition extent_ok :: "ent \<Rightarrow> bool" where
  "extent_ok e \<longleftrightarrow> valid_ext (ekey e, evalue e) \<and> le_val (evalue e) < 2 ^ 32 \<and> echild e = None"

abbreviation entries :: "ent list \<Rightarrow> ent list" where "entries es \<equiv> filter (\<lambda>e. \<not> eend e) es"

text \<open>
  Extents in increasing order with a gap between any two, so neither overlapping nor touching: a set of
  blocks has just one such list. \<open>blocks\<close> are the blocks in them.
\<close>

definition free_list :: "ent list \<Rightarrow> bool" where
  "free_list xs \<longleftrightarrow> (\<forall>e \<in> set xs. extent_ok e) \<and> sorted_wrt (\<lambda>a b. ext_end a < ext_start b) xs"

definition blocks :: "ent list \<Rightarrow> nat set" where
  "blocks xs = (\<Union>e \<in> set xs. {ext_start e ..< ext_end e})"

lemma blocks_simps [simp]:
  "blocks [] = {}" "blocks (e # xs) = {ext_start e ..< ext_end e} \<union> blocks xs" "blocks (xs @ ys) = blocks xs \<union> blocks ys"
  by (auto simp: blocks_def)

lemma finite_blocks [simp]: "finite (blocks xs)"
  by (simp add: blocks_def)

lemma free_list_append:
  "free_list (xs @ ys) \<longleftrightarrow> free_list xs \<and> free_list ys \<and> (\<forall>x \<in> set xs. \<forall>y \<in> set ys. ext_end x < ext_start y)"
  by (auto simp: free_list_def sorted_wrt_append)

lemma free_list_Cons:
  "free_list (e # xs) \<longleftrightarrow> extent_ok e \<and> free_list xs \<and> (\<forall>y \<in> set xs. ext_end e < ext_start y)"
  by (auto simp: free_list_def)

lemma extent_ok_less: "extent_ok e \<Longrightarrow> ext_start e < ext_end e"
  by (simp add: extent_ok_def valid_ext_def ext_end_def)

lemma extent_ok_bounds: "extent_ok e \<Longrightarrow> ext_start e < 2 ^ 64" "extent_ok e \<Longrightarrow> ext_end e < 2 ^ 64"
  "extent_ok e \<Longrightarrow> ext_end e - ext_start e < 2 ^ 32"
  by (simp_all add: extent_ok_def valid_ext_def ext_end_def ext_start_def)

lemma blocks_disjoint:
  assumes "free_list (xs @ e # ys)"
  shows "blocks (xs @ ys) = blocks (xs @ e # ys) - {ext_start e ..< ext_end e}"
proof -
  have x: "ext_end x \<le> ext_start e" if "x \<in> set xs" for x using assms that by (auto simp: free_list_append less_imp_le)
  have y: "ext_end e \<le> ext_start y" if "y \<in> set ys" for y
    using assms that by (auto simp: free_list_append free_list_Cons less_imp_le)
  have "blocks xs \<inter> {ext_start e ..< ext_end e} = {}" "blocks ys \<inter> {ext_start e ..< ext_end e} = {}"
    using x y by (fastforce simp: blocks_def)+
  then show ?thesis by auto
qed

text \<open>A block number between two extents, and the neighbours of an extent.\<close>

lemma not_in_blocks: "(\<And>e. e \<in> set xs \<Longrightarrow> ext_end e \<le> b \<or> b < ext_start e) \<Longrightarrow> b \<notin> blocks xs"
  by (fastforce simp: blocks_def)

lemma blocks_gap:
  assumes "free_list (xs @ e # ys)"
  shows "{ext_start e - 1 .. ext_end e} \<inter> blocks (xs @ ys) = {}"
proof -
  have "b \<notin> blocks (xs @ ys)" if "ext_start e - 1 \<le> b" "b \<le> ext_end e" for b
  proof (rule not_in_blocks)
    fix f assume "f \<in> set (xs @ ys)"
    then consider "ext_end f < ext_start e" | "ext_end e < ext_start f"
      using assms by (auto simp: free_list_append free_list_Cons)
    then show "ext_end f \<le> b \<or> b < ext_start f" using that by cases linarith+
  qed
  then show ?thesis by auto
qed

lemma disjoint_ivl:
  fixes i :: nat
  shows "{i .. j} \<inter> B = {} \<Longrightarrow> i \<le> i' \<Longrightarrow> j' \<le> j \<Longrightarrow> {i' .. j'} \<inter> B = {}"
  by (auto simp: disjoint_iff)

lemma blocks_empty: "free_list xs \<Longrightarrow> blocks xs = {} \<longleftrightarrow> xs = []"
  using extent_ok_less by (cases xs) (auto simp: free_list_Cons)

lemma length_le_blocks: "free_list xs \<Longrightarrow> length xs \<le> card (blocks xs)"
proof (induction xs)
  case (Cons e xs)
  let ?I = "{ext_start e ..< ext_end e}"
  have "?I \<inter> blocks xs = {}" using Cons.prems by (fastforce simp: free_list_Cons blocks_def)
  then have "card (blocks (e # xs)) = card ?I + card (blocks xs)" by (simp add: card_Un_disjoint)
  moreover have "ext_start e < ext_end e" using Cons.prems extent_ok_less by (simp add: free_list_Cons)
  ultimately show ?case using Cons by (simp add: free_list_Cons)
qed simp

lemma ivl_cut_front:
  fixes x :: nat
  assumes "{x ..< x + l} \<subseteq> B" "m \<le> l"
  shows "{x ..< x + m} \<subseteq> B" "(B - {x ..< x + l}) \<union> {x + m ..< x + l} = B - {x ..< x + m}"
  using assms by (auto simp: subset_iff)

lemma ivl_cut_middle:
  fixes x :: nat
  assumes "{x ..< x + l} \<subseteq> B" "x \<le> t" "t + m \<le> x + l"
  shows "{t ..< t + m} \<subseteq> B" "(B - {x ..< x + l}) \<union> {x ..< t} \<union> {t + m ..< x + l} = B - {t ..< t + m}"
  using assms by (auto simp: subset_iff)

text \<open>Block numbers are below 2^63, so adding a count does not wrap.\<close>

lemma unat_ucast_u64: "unat (ucast (w :: u32) :: u64) = unat w"
  by (simp add: unat_ucast_up)

lemma unat_add_u32: "unat w \<le> 2 ^ 63 \<Longrightarrow> unat (w + ucast k) = unat w + unat k" for w :: u64 and k :: u32
  using unat_u32_less [of k] by (simp add: unat_word_ariths unat_ucast_u64)

lemma unat_sub_u64: "unat v \<le> unat w \<Longrightarrow> unat (w - v) = unat w - unat v" for w v :: u64
  by (simp add: unat_sub word_le_nat_alt)

lemma unat_ucast_u32: "unat w < 2 ^ 32 \<Longrightarrow> unat (ucast w :: u32) = unat w" for w :: u64
  by (simp add: unsigned_ucast_eq unsigned_take_bit_eq take_bit_nat_eq_self)

lemma ucast_ucast_u32: "(ucast (ucast w :: u64) :: u32) = w" for w :: u32
  using unat_ucast_u32 [of "ucast w"] unat_ucast_u64 [of w] unat_u32_less [of w] by (simp add: word_unat_eq_iff)

section \<open>The comparison of extents\<close>

definition ext_cmp :: "nat \<Rightarrow> nat \<Rightarrow> ent \<Rightarrow> int" where
  "ext_cmp a n e = (if a + n \<le> ext_start e then 1 else if ext_end e \<le> a then -1 else 0)"

lemma ext_cmp_iff:
  "ext_cmp a n e < 0 \<longleftrightarrow> ext_end e \<le> a \<and> ext_start e < a + n" "0 < ext_cmp a n e \<longleftrightarrow> a + n \<le> ext_start e"
  "ext_cmp a n e = 0 \<longleftrightarrow> ext_start e < a + n \<and> a < ext_end e"
  by (auto simp: ext_cmp_def)

lemma ext_ordered: "free_list xs \<Longrightarrow> ordered (ext_cmp a n) xs"
proof (induction xs)
  case (Cons e xs)
  have "ext_cmp a n e \<le> ext_cmp a n y" if "y \<in> set xs" for y
  proof -
    have "ext_end e < ext_start y" "ext_start e < ext_end e" "ext_start y < ext_end y"
      using Cons.prems that extent_ok_less by (auto simp: free_list_Cons free_list_def)
    then show ?thesis by (auto simp: ext_cmp_def)
  qed
  then show ?case using Cons by (simp add: ordered_def free_list_Cons)
qed (simp add: ordered_def)

lemma valid_bstr: "valid_ext (os_u64_to_bstr a, os_u64_to_bstr n) \<longleftrightarrow> 0 < n \<and> unat a + unat n < 2 ^ 64"
  using os_u64_size_bounds [of a] os_u64_size_bounds [of n]
  by (simp add: valid_ext_def valid_u64_def os_u64_to_bstr_val word_less_nat_alt)

lemma ext_collates:
  assumes "\<forall>e \<in> set xs. extent_ok e" "obj_flags oid s = Some fl" "fl AND 0xF = 4" "0 < n" "unat a + unat n < 2 ^ 64"
  shows "collates oid s (os_u64_to_bstr a) (os_u64_to_bstr n) (ext_cmp (unat a) (unat n)) xs"
proof -
  have "collate_key 4 (ekey e) (evalue e) (os_u64_to_bstr a) (os_u64_to_bstr n) = Some (ext_cmp (unat a) (unat n) e)"
    if "e \<in> set xs" for e
  proof -
    have "valid_ext (ekey e, evalue e)" using assms(1) that by (simp add: extent_ok_def)
    moreover have "valid_ext (os_u64_to_bstr a, os_u64_to_bstr n)" using assms(4,5) by (simp add: valid_bstr)
    ultimately show ?thesis
      using os_collate_extent_cmp [of "ekey e" "evalue e" "os_u64_to_bstr a" "os_u64_to_bstr n"]
      by (simp add: collate_key_def collate_rule_of_def ext_cmp_def ext_end_def ext_start_def os_u64_to_bstr_val)
  qed
  then show ?thesis using assms(2,3) by (auto simp: collates_def)
qed

abbreviation new_extent :: "u64 \<Rightarrow> u64 \<Rightarrow> ent" where
  "new_extent a n \<equiv> leaf_ent (os_u64_to_bstr a) (os_u64_to_bstr n)"

lemma new_extent_range: "ext_start (new_extent a n) = unat a" "ext_end (new_extent a n) = unat a + unat n"
  by (simp_all add: ext_start_def ext_end_def os_u64_to_bstr_val)

lemma new_extent_ok: "0 < n \<Longrightarrow> unat a + unat n < 2 ^ 64 \<Longrightarrow> unat n < 2 ^ 32 \<Longrightarrow> extent_ok (new_extent a n)"
  using valid_bstr [of a n] by (simp add: extent_ok_def os_u64_to_bstr_val)

lemma new_extent_size: "9 + length (os_u64_to_bstr a) + length (os_u64_to_bstr n) \<le> 25"
  using os_u64_size_bounds [of a] os_u64_size_bounds [of n] by simp

section \<open>Tables of extents\<close>

definition free_table :: "container \<Rightarrow> nat \<Rightarrow> nat \<Rightarrow> nat \<Rightarrow> nat \<Rightarrow> ent list \<Rightarrow> bool" where
  "free_table s hid oid c a es \<longleftrightarrow> flat_table s hid oid c a es \<and> free_list (entries es) \<and>
     (\<exists>fl. obj_flags oid s = Some fl \<and> fl AND 0xF = 4)"

lemma free_tableD:
  "free_table s hid oid c a es \<Longrightarrow> flat_table s hid oid c a es" "free_table s hid oid c a es \<Longrightarrow> free_list (entries es)"
  by (simp_all add: free_table_def)

lemma free_tableI:
  "free_table s hid oid c a es \<Longrightarrow> steady oid s s' \<Longrightarrow> flat_table s' hid oid c a es' \<Longrightarrow> free_list (entries es') \<Longrightarrow>
   free_table s' hid oid c a es'"
  by (simp add: free_table_def steady_def)

lemma ends_flat: "flat_table s hid oid c a es \<Longrightarrow> ends_with_end es"
  by (erule flat_tableD) (simp add: ib_rep_def)

lemma entries_butlast: "ends_with_end es \<Longrightarrow> entries es = butlast es"
  by (cases es rule: rev_cases) (auto simp: ends_with_end_def filter_id_conv)

lemma entries_split:
  assumes "ends_with_end es" "Suc i < length es"
  shows "entries es = entries (take i es) @ es ! i # entries (drop (Suc i) es)"
proof -
  have "i < length es" using assms(2) by simp
  moreover have "\<not> eend (es ! i)" using ends_with_end_nth [OF assms(1), of i] assms(2) by simp
  ultimately show ?thesis using id_take_nth_drop [of i es] by (metis (mono_tags, lifting) filter.simps(2) filter_append)
qed

text \<open>Reading the extent under the cursor.\<close>

lemma read_extent:
  assumes "on_entry s hid oid c es i" "extent_ok (es ! i)"
  shows "\<exists>ad len. ie_key_u64 hid s = Some ad \<and> ie_value_u32 hid s = Some len \<and> unat ad = ext_start (es ! i) \<and>
    unat ad + unat len = ext_end (es ! i) \<and> len \<noteq> 0"
proof -
  obtain m q where m: "tree_ie hid s = Some (m, q)" "GET_IE_KEY m q = ekey (es ! i)" "GET_IE_VALUE m q = evalue (es ! i)"
    using on_entry_ie [OF assms(1)] by blast
  let ?k = "ekey (es ! i)" and ?v = "evalue (es ! i)"
  have v: "valid_u64 ?k" "valid_u64 ?v" "0 < le_val ?v" "le_val ?v < 2 ^ 32"
    using assms(2) by (simp_all add: extent_ok_def valid_ext_def)
  then have b: "os_bstr_to_u64 ?k = Some (of_nat (le_val ?k))" "os_bstr_to_u64 ?v = Some (of_nat (le_val ?v))"
    by (simp_all add: valid_u64_def os_bstr_to_u64_Some)
  have u: "unat (of_nat (le_val ?k) :: u64) = le_val ?k" using v(1) by (intro unat_le_val_u64) (simp add: valid_u64_def)
  have w: "unat (ucast (of_nat (le_val ?v) :: u64) :: u32) = le_val ?v"
    using v(2,4) unat_le_val_u64 [of ?v]
    by (simp add: valid_u64_def unsigned_ucast_eq unsigned_take_bit_eq take_bit_nat_eq_self)
  then have "(ucast (of_nat (le_val ?v) :: u64) :: u32) \<noteq> 0" using v(3) by auto
  then show ?thesis using m b u w by (simp add: ie_key_u64_def ie_value_u32_def ext_start_def ext_end_def)
qed

context block_service
begin

text \<open>One more extent.\<close>

lemma insert_extent_ok:
  assumes tab: "free_table s hid oid c a es" and al: "can_alloc s" and x: "map_option oi_objid (objs s oid) = Some objid"
    and mem: "\<And>n. io_malloc (env s n)" and hid: "hid \<noteq> 0"
    and n: "0 < n" "unat ad + unat n < 2 ^ 64" "unat n < 2 ^ 32" and gap: "{unat ad - 1 .. unat ad + unat n} \<inter> blocks (entries es) = {}"
    and room: "33 + esizes es + 25 \<le> a"
  shows "\<exists>s' es'. insert_extent ops hid ad n s = Some (Inr (), s') \<and> free_table s' hid oid c a es' \<and>
    blocks (entries es') = blocks (entries es) \<union> {unat ad ..< unat ad + unat n} \<and> esizes es' \<le> esizes es + 25 \<and>
    can_alloc s' \<and> steady oid s s'"
proof -
  let ?k = "os_u64_to_bstr ad" and ?v = "os_u64_to_bstr n" and ?cmp = "ext_cmp (unat ad) (unat n)" and ?e = "new_extent ad n"
  note f = free_tableD [OF tab]
  obtain fl where fl: "obj_flags oid s = Some fl" "fl AND 0xF = 4" using tab by (auto simp: free_table_def)
  have ok: "\<forall>e \<in> set (entries es). extent_ok e" using f(2) unfolding free_list_def by blast
  have sz: "9 + length ?k + length ?v < 65536" "33 + esizes es + (9 + length ?k + length ?v) \<le> a"
    using new_extent_size [of ad n] room by simp_all
  have dj: "{unat ad ..< unat ad + unat n} \<inter> blocks (entries es) = {}" using gap by (auto simp: disjoint_iff)
  have new: "\<forall>e \<in> set (entries es). ?cmp e \<noteq> 0"
  proof
    fix e assume e: "e \<in> set (entries es)"
    then have le: "ext_start e < ext_end e" using ok extent_ok_less by blast
    show "?cmp e \<noteq> 0"
    proof
      assume "?cmp e = 0"
      then have "max (unat ad) (ext_start e) \<in> {unat ad ..< unat ad + unat n} \<inter> {ext_start e ..< ext_end e}"
        using n(1) le by (auto simp: ext_cmp_iff word_less_nat_alt)
      then have "max (unat ad) (ext_start e) \<in> {unat ad ..< unat ad + unat n} \<inter> blocks (entries es)"
        using e unfolding blocks_def by blast
      with dj show False by simp
    qed
  qed
  obtain s' es' L R where 1: "index_insert_key_nolock ops hid ?k ?v s = Some (Inr (), s')" "flat_table s' hid oid c a es'"
    "can_alloc s'" "steady oid s s'" "esizes es' = esizes es + (9 + length ?k + length ?v)"
    "entries es = L @ R" "entries es' = L @ ?e # R" "\<forall>e \<in> set L. ?cmp e < 0" "\<forall>e \<in> set R. 0 < ?cmp e"
    using flat_insert [OF f(1) hid os_u64_to_bstr_not_Nil sz(1) ext_collates [OF ok fl n(1,2)] ext_ordered [OF f(2)] new mem sz(2) al x]
    by blast
  have out: "b < unat ad - 1 \<or> unat ad + unat n < b" if "b \<in> blocks (entries es)" for b
  proof (rule ccontr)
    assume "\<not> ?thesis"
    then have "b \<in> {unat ad - 1 .. unat ad + unat n}" by auto
    with gap that show False by blast
  qed
  have end_in: "ext_end e - 1 \<in> blocks (entries es)" "ext_start e \<in> blocks (entries es)" "ext_start e < ext_end e"
    if "e \<in> set (entries es)" for e
  proof -
    show lt: "ext_start e < ext_end e" using extent_ok_less ok that by blast
    then have "ext_end e - 1 \<in> {ext_start e ..< ext_end e}" "ext_start e \<in> {ext_start e ..< ext_end e}" by auto
    then show "ext_end e - 1 \<in> blocks (entries es)" "ext_start e \<in> blocks (entries es)"
      using that unfolding blocks_def by blast+
  qed
  have "ext_end e < unat ad" if "e \<in> set L" for e
  proof -
    have e: "e \<in> set (entries es)" "ext_end e \<le> unat ad" using that 1(6,8) by (auto simp: ext_cmp_iff)
    show ?thesis using out [OF end_in(1) [OF e(1)]] end_in(3) [OF e(1)] e(2) by linarith
  qed
  moreover have "unat ad + unat n < ext_start e" if "e \<in> set R" for e
  proof -
    have e: "e \<in> set (entries es)" "unat ad + unat n \<le> ext_start e" using that 1(6,9) by (auto simp: ext_cmp_iff)
    show ?thesis using out [OF end_in(2) [OF e(1)]] e(2) by linarith
  qed
  ultimately have "free_list (entries es')"
    using f(2) 1(6,7) new_extent_ok [OF n] by (auto simp: free_list_append free_list_Cons new_extent_range)
  then have "free_table s' hid oid c a es'" using free_tableI [OF tab 1(4,2)] by simp
  moreover have "blocks (entries es') = blocks (entries es) \<union> {unat ad ..< unat ad + unat n}"
    using 1(6,7) by (auto simp: new_extent_range)
  ultimately show ?thesis
    using 1 new_extent_size [of ad n] by (intro exI [of _ s'] exI [of _ es']) (simp add: insert_extent_def)
qed

text \<open>The extent under the cursor is taken out.\<close>

lemma remove_extent_ok:
  assumes tab: "free_table s hid oid c a es" and on: "on_entry s hid oid c es i" and i: "Suc i < length es"
    and al: "can_alloc s" and x: "map_option oi_objid (objs s oid) = Some objid"
  shows "\<exists>s' es'. tree_remove_ie ops hid s = Some (Inr (), s') \<and> es' = take i es @ drop (Suc i) es \<and>
    free_table s' hid oid c a es' \<and> on_entry s' hid oid c es' i \<and> can_alloc s' \<and> steady oid s s' \<and>
    blocks (entries es') = blocks (entries es) - {ext_start (es ! i) ..< ext_end (es ! i)} \<and>
    {ext_start (es ! i) ..< ext_end (es ! i)} \<subseteq> blocks (entries es) \<and> esizes es' \<le> esizes es \<and> extent_ok (es ! i) \<and>
    {ext_start (es ! i) - 1 .. ext_end (es ! i)} \<inter> blocks (entries es') = {}"
proof -
  note f = free_tableD [OF tab]
  let ?es = "take i es @ drop (Suc i) es"
  obtain s' where 1: "tree_remove_ie ops hid s = Some (Inr (), s')" "flat_table s' hid oid c a ?es"
    "on_entry s' hid oid c ?es i" "can_alloc s'" "steady oid s s'"
    using flat_remove [OF f(1) on i al x] by blast
  have il: "i < length es" using i by simp
  have es: "entries es = entries (take i es) @ es ! i # entries (drop (Suc i) es)"
    by (rule entries_split [OF ends_flat [OF f(1)] i])
  have fl: "free_list (entries (take i es) @ es ! i # entries (drop (Suc i) es))" using f(2) es by simp
  then have "free_list (entries ?es)" by (auto simp: free_list_append free_list_Cons)
  then have "free_table s' hid oid c a ?es" using free_tableI [OF tab 1(5,2)] by simp
  moreover have "blocks (entries ?es) = blocks (entries es) - {ext_start (es ! i) ..< ext_end (es ! i)}"
    using blocks_disjoint [OF fl] es by simp
  moreover have "{ext_start (es ! i) ..< ext_end (es ! i)} \<subseteq> blocks (entries es)" unfolding es by auto
  moreover have "esizes ?es \<le> esizes es"
    using esizes_take_drop [of i es] il by (simp add: Cons_nth_drop_Suc [symmetric])
  moreover have "extent_ok (es ! i)" using fl by (simp add: free_list_append free_list_Cons)
  moreover have "{ext_start (es ! i) - 1 .. ext_end (es ! i)} \<inter> blocks (entries ?es) = {}"
    using blocks_gap [OF fl] by simp
  ultimately show ?thesis using 1 by blast
qed

text \<open>Moving the handle changes nothing else.\<close>

lemma table_handle:
  assumes tab: "free_table s hid oid c a es" and al: "can_alloc s"
    and new: "flat_table (put_handle hid h s) hid oid c a es"
  shows "free_table (put_handle hid h s) hid oid c a es \<and> can_alloc (put_handle hid h s)"
proof -
  note f = free_tableD [OF tab]
  obtain x h0 where 0: "objs s oid = Some x" "handles s hid = Some h0" "h_obj_info h0 = oid" by (rule flat_tableD [OF f(1)])
  obtain h1 where "handles (put_handle hid h s) hid = Some h1" "h_obj_info h1 = oid" by (rule flat_tableD [OF new])
  then have "client_change oid hid s (put_handle hid h s)" using client_put_handle [OF 0(1,2), of h] 0(3) by simp
  moreover have "caches_ok s" using f(1) by (simp add: flat_table_def obj_ok_def)
  ultimately show ?thesis
    using alloc_kept [OF al] caches_ok_put_handle free_tableI [OF tab steady_put_handle new f(2)] by simp
qed

text \<open>The extent to allocate from.\<close>

lemma find_space_ok:
  assumes tab: "free_table s hid oid c a es" and al: "can_alloc s" and hid: "hid \<noteq> 0"
    and n: "cnt \<noteq> 0" "unat st + unat cnt < 2 ^ 64"
  shows "\<exists>h. let s' = put_handle hid h s in free_table s' hid oid c a es \<and> can_alloc s' \<and>
    (if entries es = [] then find_space ops hid st cnt s = Some (Inl INDEX_ERR_NO_FREE_BLOCKS, s')
     else \<exists>i st' ad. find_space ops hid st cnt s = Some (Inr (st', ad), s') \<and> on_entry s' hid oid c es i \<and>
       Suc i < length es \<and> unat ad = ext_start (es ! i) \<and> (st' = ad \<or> st' = st \<and> unat st < ext_end (es ! i)))"
proof -
  let ?k = "os_u64_to_bstr st" and ?v = "os_u64_to_bstr (ucast cnt)" and ?cmp = "ext_cmp (unat st) (unat cnt)"
  note f = free_tableD [OF tab]
  obtain fl where fl: "obj_flags oid s = Some fl" "fl AND 0xF = 4" using tab by (auto simp: free_table_def)
  have ok: "\<forall>e \<in> set (entries es). extent_ok e" using f(2) unfolding free_list_def by blast
  have uc: "unat (ucast cnt :: u64) = unat cnt" by (simp add: unat_ucast_up)
  then have n': "0 < (ucast cnt :: u64)" "unat st + unat (ucast cnt :: u64) < 2 ^ 64"
    using n unat_eq_zero [of cnt] by (simp_all add: word_less_nat_alt)
  have ep: "extent_ok (es ! i)" if "on_entry s1 hid oid c es i" "\<not> eend (es ! i)" for s1 i
  proof -
    have "i < length es" by (rule on_entryD [OF that(1)])
    then show ?thesis using ok that(2) by simp
  qed
  have at: "Suc i < length es \<longleftrightarrow> \<not> eend (es ! i)" if "on_entry s1 hid oid c es i" for s1 i
  proof -
    have "i < length es" by (rule on_entryD [OF that])
    then show ?thesis using ends_with_end_nth [OF ends_flat [OF f(1)], of i] by auto
  qed
  have keep: "free_table (put_handle hid h s) hid oid c a es \<and> can_alloc (put_handle hid h s)"
    if new: "flat_table (put_handle hid h s) hid oid c a es" for h
    by (rule table_handle [OF tab al new])
  obtain h i found where 1: "index_search_key_nolock hid ?k ?v s =
      Some (if found then Inr () else Inl INDEX_ERR_KEY_NOT_FOUND, put_handle hid h s)"
    "flat_table (put_handle hid h s) hid oid c a es" "on_entry (put_handle hid h s) hid oid c es i"
    "if found then \<not> eend (es ! i) \<and> ?cmp (es ! i) = 0
     else (\<forall>e \<in> set (take i es). ?cmp e < 0) \<and> (\<forall>e \<in> set (entries (drop i es)). 0 < ?cmp e)"
    using flat_search [OF f(1) hid os_u64_to_bstr_not_Nil ext_collates [OF ok fl n'] ext_ordered [OF f(2)]]
    unfolding uc by blast
  show ?thesis
  proof (cases "\<not> eend (es ! i)")
    case True
    then have "es ! i \<in> set (entries es)" using at [OF 1(3)] by simp
    then have ne: "entries es \<noteq> []" by (metis empty_iff empty_set)
    obtain ad len where r: "ie_key_u64 hid (put_handle hid h s) = Some ad" "unat ad = ext_start (es ! i)"
      using read_extent [OF 1(3) ep [OF 1(3) True]] by blast
    have "found \<Longrightarrow> unat st < ext_end (es ! i)" using 1(4) by (simp add: ext_cmp_iff)
    then show ?thesis
      using 1(1,3) True keep [OF 1(2)] ne r at [OF 1(3)] on_entry_test(1) [OF 1(3)]
      by (intro exI [of _ h]) (auto simp: find_space_def Let_def)
  next
    case False
    have "i < length es" by (rule on_entryD [OF 1(3)])
    then have e: "Suc i = length es" using False at [OF 1(3)] by simp
    have nf: "\<not> found" using 1(4) False by auto
    obtain h2 where 2: "walk_tree ops hid INDEX_GET_FIRST (put_handle hid h s) =
        Some (if length es = 1 then Inl INDEX_ERR_ROOT else Inr (), put_handle hid h2 s)"
      "flat_table (put_handle hid h2 s) hid oid c a es" "on_entry (put_handle hid h2 s) hid oid c es 0"
      using flat_first [OF 1(2)] by auto
    have l: "length es = Suc (length (entries es))"
      using entries_butlast [OF ends_flat [OF f(1)]] ends_flat [OF f(1)] by (cases es) (auto simp: ends_with_end_def)
    show ?thesis
    proof (cases "entries es = []")
      case True
      then show ?thesis using 1(1) nf e 2(1) l keep [OF 2(2)] on_entry_test(1) [OF 1(3)]
        by (intro exI [of _ h2]) (simp add: find_space_def Let_def)
    next
      case False
      then have lt: "Suc 0 < length es" using l by simp
      obtain ad len where r: "ie_key_u64 hid (put_handle hid h2 s) = Some ad" "unat ad = ext_start (es ! 0)"
        using read_extent [OF 2(3) ep [OF 2(3)]] at [OF 2(3)] lt by blast
      have "find_space ops hid st cnt s = Some (Inr (ad, ad), put_handle hid h2 s)"
        using 1(1) nf e 2(1) lt r on_entry_test(1) [OF 1(3)] by (simp add: find_space_def Let_def)
      then show ?thesis unfolding Let_def using keep [OF 2(2)] False 2(3) lt r(2) by auto
    qed
  qed
qed

text \<open>What is left of the extent under the cursor when its first blocks are taken, and when it is cut
  at \<open>st\<close>.\<close>

lemma take_front:
  fixes cnt len :: u32 and ad :: u64
  assumes tab: "free_table s hid oid c a es" and al: "can_alloc s" and x: "map_option oi_objid (objs s oid) = Some objid"
    and mem: "\<And>n. io_malloc (env s n)" and hid: "hid \<noteq> 0" and room: "33 + esizes es + 25 \<le> a" and n: "cnt \<noteq> 0"
    and y: "unat ad + unat len \<le> 2 ^ 63" "len \<noteq> 0" and gap: "{unat ad - 1 .. unat ad + unat len} \<inter> blocks (entries es) = {}"
  shows "\<exists>s' es' m. (if ad + ucast cnt < ad + ucast len
      then ret_if_err (insert_extent ops hid (ad + ucast cnt) (ad + ucast len - (ad + ucast cnt)) s)
        (\<lambda>_ s. Some (Inr (ucast (ad + ucast cnt - ad), ad), s))
      else Some (Inr (len, ad), s)) = Some (Inr (m, ad), s') \<and>
    free_table s' hid oid c a es' \<and> can_alloc s' \<and> steady oid s s' \<and> 0 < unat m \<and> unat m \<le> unat cnt \<and> unat m \<le> unat len \<and>
    blocks (entries es') = blocks (entries es) \<union> {unat ad + unat m ..< unat ad + unat len}"
proof -
  have ends: "unat (ad + ucast cnt) = unat ad + unat cnt" "unat (ad + ucast len) = unat ad + unat len"
    using unat_add_u32 [of ad cnt] unat_add_u32 [of ad len] y by simp_all
  have n0: "0 < unat cnt" "0 < unat len" using n y(2) by (simp_all add: unat_gt_0)
  show ?thesis
  proof (cases "ad + ucast cnt < ad + ucast len")
    case True
    then have lt: "unat cnt < unat len" using ends by (simp add: word_less_nat_alt)
    let ?l = "ad + ucast len - (ad + ucast cnt)"
    have l: "unat ?l = unat len - unat cnt" using unat_sub_u64 [of "ad + ucast cnt" "ad + ucast len"] ends lt by simp
    have "0 < ?l" "unat (ad + ucast cnt) + unat ?l < 2 ^ 64" "unat ?l < 2 ^ 32"
      using l lt ends y unat_u32_less [of len] by (simp_all add: word_less_nat_alt)
    moreover have r: "unat (ad + ucast cnt) = unat ad + unat cnt" "unat ad + unat cnt + unat ?l = unat ad + unat len"
      using l lt ends by simp_all
    moreover have "{unat ad + unat cnt - 1 .. unat ad + unat len} \<inter> blocks (entries es) = {}" by (rule disjoint_ivl [OF gap]) simp_all
    ultimately obtain s2 es2 where i2: "insert_extent ops hid (ad + ucast cnt) ?l s = Some (Inr (), s2)"
      "free_table s2 hid oid c a es2" "can_alloc s2" "steady oid s s2"
      "blocks (entries es2) = blocks (entries es) \<union> {unat ad + unat cnt ..< unat ad + unat len}"
      using insert_extent_ok [OF tab al x mem hid _ _ _ _ room, of ?l "ad + ucast cnt"] unfolding r by blast
    have "(ucast (ad + ucast cnt - ad) :: u32) = cnt" by (simp add: ucast_ucast_u32)
    then show ?thesis using i2 True lt n0 by (intro exI [of _ s2] exI [of _ es2] exI [of _ cnt]) simp
  next
    case False
    then have "unat len \<le> unat cnt" using ends by (simp add: word_less_nat_alt)
    then show ?thesis using False tab al n0 by (intro exI [of _ s] exI [of _ es] exI [of _ len]) simp
  qed
qed

lemma take_behind:
  fixes cnt len :: u32 and ad st :: u64
  assumes tab: "free_table s hid oid c a es" and al: "can_alloc s" and x: "map_option oi_objid (objs s oid) = Some objid"
    and mem: "\<And>n. io_malloc (env s n)" and hid: "hid \<noteq> 0" and room: "33 + esizes es + 50 \<le> a" and n: "cnt \<noteq> 0"
    and y: "unat ad + unat len \<le> 2 ^ 63" and st: "unat ad < unat st" "unat st < unat ad + unat len"
    and gap: "{unat ad - 1 .. unat ad + unat len} \<inter> blocks (entries es) = {}"
  shows "\<exists>s' es' m. ret_if_err (insert_extent ops hid ad (st - ad) s) (\<lambda>_ s.
      if st + ucast cnt < ad + ucast len
      then ret_if_err (insert_extent ops hid (st + ucast cnt) (ad + ucast len - (st + ucast cnt)) s)
        (\<lambda>_ s. Some (Inr (cnt, st), s))
      else Some (Inr (ucast (ad + ucast len - st), st), s)) = Some (Inr (m, st), s') \<and>
    free_table s' hid oid c a es' \<and> can_alloc s' \<and> steady oid s s' \<and> 0 < unat m \<and> unat m \<le> unat cnt \<and>
    unat st + unat m \<le> unat ad + unat len \<and>
    blocks (entries es') = blocks (entries es) \<union> {unat ad ..< unat st} \<union> {unat st + unat m ..< unat ad + unat len}"
proof -
  have ends: "unat (st + ucast cnt) = unat st + unat cnt" "unat (ad + ucast len) = unat ad + unat len"
    using unat_add_u32 [of st cnt] unat_add_u32 [of ad len] y st by simp_all
  have n0: "0 < unat cnt" using n by (simp add: unat_gt_0)
  have l: "unat (st - ad) = unat st - unat ad" using unat_sub_u64 [of ad st] st by simp
  have "0 < st - ad" "unat ad + unat (st - ad) < 2 ^ 64" "unat (st - ad) < 2 ^ 32"
    using l st y unat_u32_less [of len] by (simp_all add: word_less_nat_alt)
  moreover have r: "unat ad + unat (st - ad) = unat st" using l st by simp
  moreover have "{unat ad - 1 .. unat st} \<inter> blocks (entries es) = {}" by (rule disjoint_ivl [OF gap]) (use st in simp_all)
  moreover have "33 + esizes es + 25 \<le> a" using room by simp
  ultimately obtain s2 es2 where i2: "insert_extent ops hid ad (st - ad) s = Some (Inr (), s2)"
    "free_table s2 hid oid c a es2" "can_alloc s2" "steady oid s s2" "esizes es2 \<le> esizes es + 25"
    "blocks (entries es2) = blocks (entries es) \<union> {unat ad ..< unat st}"
    using insert_extent_ok [OF tab al x mem hid, of "st - ad" ad] unfolding r by blast
  have x2: "map_option oi_objid (objs s2 oid) = Some objid" and mem2: "\<And>n. io_malloc (env s2 n)"
    using i2(4) x mem by (simp_all add: steady_def)
  show ?thesis
  proof (cases "st + ucast cnt < ad + ucast len")
    case True
    then have lt: "unat st + unat cnt < unat ad + unat len" using ends by (simp add: word_less_nat_alt)
    let ?l = "ad + ucast len - (st + ucast cnt)"
    have l: "unat ?l = unat ad + unat len - (unat st + unat cnt)"
      using unat_sub_u64 [of "st + ucast cnt" "ad + ucast len"] ends lt by simp
    have "0 < ?l" "unat (st + ucast cnt) + unat ?l < 2 ^ 64" "unat ?l < 2 ^ 32"
      using l lt ends y st unat_u32_less [of len] by (simp_all add: word_less_nat_alt)
    moreover have r: "unat (st + ucast cnt) = unat st + unat cnt" "unat st + unat cnt + unat ?l = unat ad + unat len"
      using l lt ends by simp_all
    moreover have "{unat st + unat cnt - 1 .. unat ad + unat len} \<inter> blocks (entries es2) = {}"
    proof -
      have "{unat st + unat cnt - 1 .. unat ad + unat len} \<inter> blocks (entries es) = {}"
        by (rule disjoint_ivl [OF gap]) (use st n0 in simp_all)
      moreover have "{unat st + unat cnt - 1 .. unat ad + unat len} \<inter> {unat ad ..< unat st} = {}" using n0 by auto
      ultimately show ?thesis unfolding i2(6) by blast
    qed
    moreover have "33 + esizes es2 + 25 \<le> a" using i2(5) room by simp
    ultimately obtain s3 es3 where i3: "insert_extent ops hid (st + ucast cnt) ?l s2 = Some (Inr (), s3)"
      "free_table s3 hid oid c a es3" "can_alloc s3" "steady oid s2 s3"
      "blocks (entries es3) = blocks (entries es2) \<union> {unat st + unat cnt ..< unat ad + unat len}"
      using insert_extent_ok [OF i2(2,3) x2 mem2 hid, of ?l "st + ucast cnt"] unfolding r by blast
    show ?thesis using i2(1,6) i3 True lt n0 steady_trans [OF i2(4) i3(4)]
      by (intro exI [of _ s3] exI [of _ es3] exI [of _ cnt]) simp
  next
    case False
    let ?m = "ucast (ad + ucast len - st) :: u32"
    have "unat (ad + ucast len - st) = unat ad + unat len - unat st"
      using unat_sub_u64 [of st "ad + ucast len"] ends st by simp
    moreover have "unat ad + unat len - unat st < 2 ^ 32" using st unat_u32_less [of len] by simp
    ultimately have m: "unat ?m = unat ad + unat len - unat st" by (simp add: unat_ucast_u32)
    have "unat ad + unat len - unat st \<le> unat cnt" using False ends by (simp add: word_less_nat_alt)
    then show ?thesis using i2 False m st by (intro exI [of _ s2] exI [of _ es2] exI [of _ ?m]) simp
  qed
qed

lemma alloc_space_ok:
  assumes tab: "free_table s hid oid c a es" and al: "can_alloc s" and x: "map_option oi_objid (objs s oid) = Some objid"
    and mem: "\<And>n. io_malloc (env s n)" and hid: "hid \<noteq> 0" and n: "cnt \<noteq> 0" "unat st \<le> 2 ^ 63"
    and small: "blocks (entries es) \<subseteq> {..<2 ^ 63}" and room: "33 + esizes es + 50 \<le> a"
  shows "\<exists>s' es'. free_table s' hid oid c a es' \<and> can_alloc s' \<and> steady oid s s' \<and>
    (if entries es = [] then alloc_space ops hid st cnt s = Some (Inl INDEX_ERR_NO_FREE_BLOCKS, s') \<and> es' = es
     else \<exists>m v. alloc_space ops hid st cnt s = Some (Inr (m, v), s') \<and> 0 < unat m \<and> unat m \<le> unat cnt \<and>
       {unat v ..< unat v + unat m} \<subseteq> blocks (entries es) \<and>
       blocks (entries es') = blocks (entries es) - {unat v ..< unat v + unat m})"
proof -
  have "unat st + unat cnt < 2 ^ 64" using n(2) unat_u32_less [of cnt] by simp
  from find_space_ok [OF tab al hid n(1) this] obtain h where h: "free_table (put_handle hid h s) hid oid c a es"
    "can_alloc (put_handle hid h s)"
    "if entries es = [] then find_space ops hid st cnt s = Some (Inl INDEX_ERR_NO_FREE_BLOCKS, put_handle hid h s)
     else \<exists>i st' ad. find_space ops hid st cnt s = Some (Inr (st', ad), put_handle hid h s) \<and>
       on_entry (put_handle hid h s) hid oid c es i \<and> Suc i < length es \<and> unat ad = ext_start (es ! i) \<and>
       (st' = ad \<or> st' = st \<and> unat st < ext_end (es ! i))" by (auto simp: Let_def)
  show ?thesis
  proof (cases "entries es = []")
    case True
    then have "alloc_space ops hid st cnt s = Some (Inl INDEX_ERR_NO_FREE_BLOCKS, put_handle hid h s)"
      using h(3) n(1) by (simp add: alloc_space_def)
    then show ?thesis using True h(1,2) steady_put_handle by (intro exI [of _ "put_handle hid h s"] exI [of _ es]) simp
  next
    case ne: False
    define s0 where "s0 = put_handle hid h s"
    note h = h [folded s0_def]
    obtain i st' ad where f: "find_space ops hid st cnt s = Some (Inr (st', ad), s0)" "on_entry s0 hid oid c es i"
      "Suc i < length es" "unat ad = ext_start (es ! i)" "st' = ad \<or> st' = st \<and> unat st < ext_end (es ! i)"
      using h(3) ne by auto
    have st0: "steady oid s s0" and x0: "map_option oi_objid (objs s0 oid) = Some objid" using x by (simp_all add: s0_def)
    obtain s1 es1 where r: "tree_remove_ie ops hid s0 = Some (Inr (), s1)" "free_table s1 hid oid c a es1" "can_alloc s1"
      "steady oid s0 s1" "blocks (entries es1) = blocks (entries es) - {ext_start (es ! i) ..< ext_end (es ! i)}"
      "{ext_start (es ! i) ..< ext_end (es ! i)} \<subseteq> blocks (entries es)" "esizes es1 \<le> esizes es" "extent_ok (es ! i)"
      "{ext_start (es ! i) - 1 .. ext_end (es ! i)} \<inter> blocks (entries es1) = {}"
      using remove_extent_ok [OF h(1) f(2,3) h(2) x0] by blast
    obtain ad' :: u64 and len where e: "ie_value_u32 hid s0 = Some len" "unat ad' = ext_start (es ! i)"
      "unat ad' + unat len = ext_end (es ! i)" "len \<noteq> 0" using read_extent [OF f(2) r(8)] by blast
    have "ad' = ad" using e(2) f(4) by (simp add: word_unat_eq_iff)
    note e = e [unfolded this]
    note r = r [folded e(2,3)]
    have "0 < unat len" using e(4) by (simp add: unat_gt_0)
    then have "unat ad + unat len - 1 \<in> {unat ad ..< unat ad + unat len}" by auto
    then have "unat ad + unat len - 1 \<in> blocks (entries es)" using r(6) by blast
    then have "unat ad + unat len - 1 < 2 ^ 63" using small by blast
    then have y: "unat ad + unat len \<le> 2 ^ 63" by simp
    have st1: "steady oid s s1" by (rule steady_trans [OF st0 r(4)])
    have m1: "\<And>n. io_malloc (env s1 n)" and x1: "map_option oi_objid (objs s1 oid) = Some objid"
      using st1 mem x by (simp_all add: steady_def)
    have room1: "33 + esizes es1 + 25 \<le> a" "33 + esizes es1 + 50 \<le> a" using r(7) room by simp_all
    show ?thesis
    proof (cases "st' \<le> ad")
      case True
      obtain s2 es2 m where t: "(if ad + ucast cnt < ad + ucast len
          then ret_if_err (insert_extent ops hid (ad + ucast cnt) (ad + ucast len - (ad + ucast cnt)) s1)
            (\<lambda>_ s. Some (Inr (ucast (ad + ucast cnt - ad), ad), s))
          else Some (Inr (len, ad), s1)) = Some (Inr (m, ad), s2)"
        "free_table s2 hid oid c a es2" "can_alloc s2" "steady oid s1 s2" "0 < unat m" "unat m \<le> unat cnt" "unat m \<le> unat len"
        "blocks (entries es2) = blocks (entries es1) \<union> {unat ad + unat m ..< unat ad + unat len}"
        using take_front [OF r(2,3) x1 m1 hid room1(1) n(1) y e(4) r(9)] by blast
      have "alloc_space ops hid st cnt s = Some (Inr (m, ad), s2)"
        using f(1) n(1) e(1,4) r(1) True t(1) by (simp add: alloc_space_def Let_def)
      moreover note ivl_cut_front [OF r(6) t(7)]
      ultimately show ?thesis
        using ne t r(5) steady_trans [OF st1 t(4)] by (intro exI [of _ s2] exI [of _ es2]) auto
    next
      case False
      then have st: "st' = st" "unat ad < unat st" "unat st < unat ad + unat len"
        using f(5) e(3) by (auto simp: word_le_nat_alt)
      have "unat (ad + ucast len) = unat ad + unat len" by (rule unat_add_u32) (use y in simp)
      then have ss: "st < ad + ucast len" using st(3) by (simp add: word_less_nat_alt)
      obtain s2 es2 m where t: "ret_if_err (insert_extent ops hid ad (st - ad) s1) (\<lambda>_ s.
          if st + ucast cnt < ad + ucast len
          then ret_if_err (insert_extent ops hid (st + ucast cnt) (ad + ucast len - (st + ucast cnt)) s)
            (\<lambda>_ s. Some (Inr (cnt, st), s))
          else Some (Inr (ucast (ad + ucast len - st), st), s)) = Some (Inr (m, st), s2)"
        "free_table s2 hid oid c a es2" "can_alloc s2" "steady oid s1 s2" "0 < unat m" "unat m \<le> unat cnt"
        "unat st + unat m \<le> unat ad + unat len"
        "blocks (entries es2) = blocks (entries es1) \<union> {unat ad ..< unat st} \<union> {unat st + unat m ..< unat ad + unat len}"
        using take_behind [OF r(2,3) x1 m1 hid room1(2) n(1) y st(2,3) r(9)] by blast
      have "alloc_space ops hid st cnt s = Some (Inr (m, st), s2)"
        using f(1) n(1) e(1,4) r(1) False st(1) ss t(1) by (simp add: alloc_space_def Let_def)
      moreover note ivl_cut_middle [OF r(6) less_imp_le [OF st(2)] t(7)]
      ultimately show ?thesis
        using ne t r(5) steady_trans [OF st1 t(4)] by (intro exI [of _ s2] exI [of _ es2]) auto
    qed
  qed
qed

lemma on_entry_ok:
  assumes "free_table s hid oid c a es" "on_entry s1 hid oid c es i" "Suc i < length es"
  shows "extent_ok (es ! i)" "\<not> eend (es ! i)" "es ! i \<in> set (entries es)"
proof -
  have i: "i < length es" using assms(3) by simp
  show e: "\<not> eend (es ! i)" using ends_with_end_nth [OF ends_flat [OF free_tableD(1) [OF assms(1)]] i] assms(3) by simp
  show s: "es ! i \<in> set (entries es)" using e i by simp
  show "extent_ok (es ! i)" using free_tableD(2) [OF assms(1)] s unfolding free_list_def by blast
qed

text \<open>The entries before and from the cursor.\<close>

lemma entries_cases:
  "e \<in> set (entries es) \<Longrightarrow> e \<in> set (take i es) \<or> e \<in> set (entries (drop i es))"
  using set_append [of "take i es" "drop i es"] by auto

text \<open>The extent behind the freed blocks.\<close>

lemma merge_next_ok:
  assumes tab: "free_table s hid oid c a es" and on: "on_entry s hid oid c es i" and al: "can_alloc s"
    and x: "map_option oi_objid (objs s oid) = Some objid"
    and v: "unat v + unat cnt < 2 ^ 64" and below: "\<forall>e \<in> set (take i es). ext_end e \<le> unat v"
    and above: "\<forall>e \<in> set (entries (drop i es)). unat v + unat cnt \<le> ext_start e"
    and dj: "{unat v ..< unat v + unat cnt} \<inter> blocks (entries es) = {}"
    and bound: "card (blocks (entries es) \<union> {unat v ..< unat v + unat cnt}) < 2 ^ 32"
  shows "\<exists>s' es' cnt'. merge_next ops hid v cnt s = Some (Inr cnt', s') \<and> free_table s' hid oid c a es' \<and>
    on_entry s' hid oid c es' i \<and> take i es' = take i es \<and> can_alloc s' \<and> steady oid s s' \<and> esizes es' \<le> esizes es \<and>
    cnt \<le> cnt' \<and> {unat v ..< unat v + unat cnt'} \<inter> blocks (entries es') = {} \<and> unat v + unat cnt' < 2 ^ 64 \<and>
    unat v + unat cnt' \<notin> blocks (entries es') \<and> set (drop i es') \<subseteq> set (drop i es) \<and>
    blocks (entries es') \<union> {unat v ..< unat v + unat cnt'} = blocks (entries es) \<union> {unat v ..< unat v + unat cnt}"
proof (cases "Suc i = length es")
  case True
  then have "merge_next ops hid v cnt s = Some (Inr cnt, s)" using on_entry_test(1) [OF on] by (simp add: merge_next_def)
  moreover have "unat v + unat cnt \<notin> blocks (entries es)"
  proof (rule not_in_blocks)
    fix e assume "e \<in> set (entries es)"
    moreover have "es ! i = last es" using True by (metis Suc_neq_Zero diff_Suc_1 last_conv_nth length_0_conv)
    then have "eend (es ! i)" using ends_flat [OF free_tableD(1) [OF tab]] by (simp add: ends_with_end_def)
    then have "entries (drop i es) = []" using True by (simp add: Cons_nth_drop_Suc [symmetric])
    ultimately have "e \<in> set (take i es)" using entries_cases [of e es i] by simp
    then show "ext_end e \<le> unat v + unat cnt \<or> unat v + unat cnt < ext_start e" using below by fastforce
  qed
  ultimately show ?thesis using tab on al v dj by (intro exI [of _ s] exI [of _ es] exI [of _ cnt]) simp
next
  case False
  have "i < length es" by (rule on_entryD [OF on])
  then have i: "Suc i < length es" using False by simp
  let ?x = "ext_start (es ! i)" and ?y = "ext_end (es ! i)"
  note ok = on_entry_ok [OF tab on i]
  obtain ad len where e: "ie_key_u64 hid s = Some ad" "ie_value_u32 hid s = Some len" "unat ad = ?x" "unat ad + unat len = ?y"
    using read_extent [OF on ok(1)] by blast
  have u32: "unat (ucast cnt :: u64) = unat cnt" by (simp add: unat_ucast_up)
  then have ve: "unat (v + ucast cnt) = unat v + unat cnt" using v by (simp add: unat_word_ariths)
  have spl: "entries (drop i es) = es ! i # entries (drop (Suc i) es)"
    using ok(2) i by (simp add: Cons_nth_drop_Suc [symmetric])
  then have above_i: "unat v + unat cnt \<le> ?x" using above by simp
  then have ge: "\<not> ad < v + ucast cnt" using e(3) ve by (simp add: word_less_nat_alt)
  show ?thesis
  proof (cases "ad = v + ucast cnt")
    case True
    then have xv: "?x = unat v + unat cnt" using e(3) ve by simp
    obtain s1 es1 where r: "tree_remove_ie ops hid s = Some (Inr (), s1)" "es1 = take i es @ drop (Suc i) es"
      "free_table s1 hid oid c a es1" "on_entry s1 hid oid c es1 i" "can_alloc s1"
      "steady oid s s1" "blocks (entries es1) = blocks (entries es) - {?x ..< ?y}"
      "{?x ..< ?y} \<subseteq> blocks (entries es)" "esizes es1 \<le> esizes es" "{?x - 1 .. ?y} \<inter> blocks (entries es1) = {}"
      using remove_extent_ok [OF tab on i al x] by blast
    have "{unat v ..< ?y} \<subseteq> blocks (entries es) \<union> {unat v ..< unat v + unat cnt}" using r(8) xv by auto
    then have "card {unat v ..< ?y} \<le> card (blocks (entries es) \<union> {unat v ..< unat v + unat cnt})" by (intro card_mono) auto
    then have "?y - unat v < 2 ^ 32" using bound by simp
    then have cl: "unat (cnt + len) = unat cnt + unat len" using e(3,4) xv by (simp add: unat_word_ariths)
    then have vy: "unat v + unat (cnt + len) = ?y" using e(3,4) xv by simp
    have "merge_next ops hid v cnt s = Some (Inr (cnt + len), s1)"
      using on_entry_test(1) [OF on] False e(1,2) True r(1) by (simp add: merge_next_def)
    moreover have "take i es1 = take i es" using r(2) i by simp
    moreover have "?y < 2 ^ 64" by (rule extent_ok_bounds(2) [OF ok(1)])
    moreover have "cnt \<le> cnt + len" using cl by (simp add: word_le_nat_alt)
    moreover have "{unat v ..< ?y} \<inter> blocks (entries es1) = {}"
    proof -
      have "{unat v ..< ?y} = {unat v ..< unat v + unat cnt} \<union> {?x ..< ?y}"
        using xv extent_ok_less [OF ok(1)] by auto
      then show ?thesis using r(7) dj by blast
    qed
    moreover have "blocks (entries es1) \<union> {unat v ..< ?y} = blocks (entries es) \<union> {unat v ..< unat v + unat cnt}"
      using r(7,8) xv e(3,4) by auto
    moreover have "?y \<notin> blocks (entries es1)" using r(10) extent_ok_less [OF ok(1)] by (auto simp: disjoint_iff)
    moreover have "set (drop i es1) \<subseteq> set (drop i es)" using r(2) i by (simp add: set_drop_subset_set_drop)
    ultimately show ?thesis using r(3-6,9) unfolding vy [symmetric] by (intro exI [of _ s1] exI [of _ es1] exI [of _ "cnt + len"]) simp
  next
    case ne: False
    then have "merge_next ops hid v cnt s = Some (Inr cnt, s)"
      using on_entry_test(1) [OF on] False e(1,2) ge by (simp add: merge_next_def)
    moreover have "unat v + unat cnt \<notin> blocks (entries es)"
    proof (rule not_in_blocks)
      fix f assume "f \<in> set (entries es)"
      have "unat v + unat cnt < ?x" using ne above_i e(3) ve by (metis le_neq_implies_less word_unat_eq_iff)
      moreover have "free_list (es ! i # entries (drop (Suc i) es))"
        using free_tableD(2) [OF tab] entries_split [OF ends_flat [OF free_tableD(1) [OF tab]] i] by (simp add: free_list_append)
      ultimately have "unat v + unat cnt < ext_start g" if "g \<in> set (entries (drop i es))" for g
        using that extent_ok_less [OF ok(1)] unfolding spl by (fastforce simp: free_list_Cons)
      then show "ext_end f \<le> unat v + unat cnt \<or> unat v + unat cnt < ext_start f"
        using entries_cases [OF \<open>f \<in> set (entries es)\<close>, of i] below by fastforce
    qed
    ultimately show ?thesis using tab on al v dj by (intro exI [of _ s] exI [of _ es] exI [of _ cnt]) simp
  qed
qed

text \<open>The extent before them.\<close>

lemma merge_prev_ok:
  assumes tab: "free_table s hid oid c a es" and on: "on_entry s hid oid c es i" and al: "can_alloc s"
    and x: "map_option oi_objid (objs s oid) = Some objid"
    and v: "unat v + unat cnt < 2 ^ 64" "0 < unat cnt" and below: "\<forall>e \<in> set (take i es). ext_end e \<le> unat v"
    and above: "\<forall>e \<in> set (entries (drop i es)). unat v \<le> ext_start e"
    and dj: "{unat v ..< unat v + unat cnt} \<inter> blocks (entries es) = {}" and behind: "unat v + unat cnt \<notin> blocks (entries es)"
    and bound: "card (blocks (entries es) \<union> {unat v ..< unat v + unat cnt}) < 2 ^ 32"
  shows "\<exists>s' es' v' cnt'. merge_prev ops hid v cnt s = Some (Inr (v', cnt'), s') \<and> free_table s' hid oid c a es' \<and>
    can_alloc s' \<and> steady oid s s' \<and> esizes es' \<le> esizes es \<and> cnt \<le> cnt' \<and>
    {unat v' - 1 .. unat v' + unat cnt'} \<inter> blocks (entries es') = {} \<and> unat v' + unat cnt' < 2 ^ 64 \<and>
    blocks (entries es') \<union> {unat v' ..< unat v' + unat cnt'} = blocks (entries es) \<union> {unat v ..< unat v + unat cnt}"
proof -
  note f = free_tableD [OF tab]
  have keep: "free_table (put_handle hid h s) hid oid c a es \<and> can_alloc (put_handle hid h s)"
    if new: "flat_table (put_handle hid h s) hid oid c a es" for h
    by (rule table_handle [OF tab al new])
  have same: ?thesis if "flat_table (put_handle hid h s) hid oid c a es"
    "merge_prev ops hid v cnt s = Some (Inr (v, cnt), put_handle hid h s)"
    "\<And>e. e \<in> set (take i es) \<Longrightarrow> e \<in> set (entries es) \<Longrightarrow> ext_end e < unat v" for h
  proof -
    have "unat v - 1 \<notin> blocks (entries es)"
    proof (cases "unat v = 0")
      case True
      then have "unat v - 1 \<in> {unat v ..< unat v + unat cnt}" using v(2) by simp
      with dj show ?thesis by blast
    next
      case False
      show ?thesis
      proof (rule not_in_blocks)
        fix e assume e: "e \<in> set (entries es)"
        then show "ext_end e \<le> unat v - 1 \<or> unat v - 1 < ext_start e"
          using entries_cases [OF e, of i] that(3) [OF _ e] above False by fastforce
      qed
    qed
    moreover have "{unat v - 1 .. unat v + unat cnt} \<subseteq> {unat v - 1, unat v + unat cnt} \<union> {unat v ..< unat v + unat cnt}" by auto
    ultimately have "{unat v - 1 .. unat v + unat cnt} \<inter> blocks (entries es) = {}" using dj behind by blast
    with that(1,2) keep [OF that(1)] v show ?thesis by (intro exI [of _ "put_handle hid h s"] exI [of _ es] exI [of _ v] exI [of _ cnt]) simp
  qed
  show ?thesis
  proof (cases i)
    case 0
    obtain h where "walk_tree ops hid INDEX_GET_PREV s = Some (Inl INDEX_ERR_ROOT, put_handle hid h s)"
      "flat_table (put_handle hid h s) hid oid c a es" using flat_prev_first [OF f(1) on [unfolded 0], where ops = ops] by blast
    then show ?thesis using same [of h] 0 by (simp add: merge_prev.simps)
  next
    case (Suc j)
    obtain h where w: "walk_tree ops hid INDEX_GET_PREV s = Some (Inr (), put_handle hid h s)"
      "flat_table (put_handle hid h s) hid oid c a es" "on_entry (put_handle hid h s) hid oid c es j"
      using flat_prev [OF f(1) on [unfolded Suc], where ops = ops] by blast
    define s0 where "s0 = put_handle hid h s"
    note w = w [folded s0_def]
    have s0: "free_table s0 hid oid c a es" "can_alloc s0" "steady oid s s0" "map_option oi_objid (objs s0 oid) = Some objid"
      using keep w(2) x by (simp_all add: s0_def)
    have il: "i < length es" by (rule on_entryD [OF on])
    then have j: "Suc j < length es" using Suc by simp
    let ?x = "ext_start (es ! j)" and ?y = "ext_end (es ! j)"
    note ok = on_entry_ok [OF tab w(3) j]
    have yv: "?y \<le> unat v"
    proof -
      have "es ! j \<in> set (take i es)" using Suc il by (auto simp: in_set_conv_nth intro!: exI [of _ j])
      then show ?thesis using below by blast
    qed
    obtain ad len where e: "ie_key_u64 hid s0 = Some ad" "ie_value_u32 hid s0 = Some len" "unat ad = ?x" "unat ad + unat len = ?y"
      using read_extent [OF w(3) ok(1)] by blast
    have u32: "unat (ucast len :: u64) = unat len" by (simp add: unat_ucast_up)
    have en: "unat (ad + ucast len) = ?y" using e(4) extent_ok_bounds(2) [OF ok(1)] u32 by (simp add: unat_word_ariths)
    have ge: "\<not> v < ad + ucast len" using yv en by (simp add: word_less_nat_alt)
    show ?thesis
    proof (cases "ad + ucast len = v")
      case True
      then have vy: "unat v = ?y" using en by simp
      obtain s1 es1 where r: "tree_remove_ie ops hid s0 = Some (Inr (), s1)"
        "free_table s1 hid oid c a es1" "can_alloc s1"
        "steady oid s0 s1" "blocks (entries es1) = blocks (entries es) - {?x ..< ?y}"
        "{?x ..< ?y} \<subseteq> blocks (entries es)" "esizes es1 \<le> esizes es" "{?x - 1 .. ?y} \<inter> blocks (entries es1) = {}"
        using remove_extent_ok [OF s0(1) w(3) j s0(2,4)] by blast
      have "{?x ..< unat v + unat cnt} \<subseteq> blocks (entries es) \<union> {unat v ..< unat v + unat cnt}" using r(6) vy by auto
      then have "card {?x ..< unat v + unat cnt} \<le> card (blocks (entries es) \<union> {unat v ..< unat v + unat cnt})" by (intro card_mono) auto
      then have "unat v + unat cnt - ?x < 2 ^ 32" using bound by simp
      then have cl: "unat (cnt + len) = unat cnt + unat len" using e(3,4) vy by (simp add: unat_word_ariths)
      then have ae: "unat ad + unat (cnt + len) = unat v + unat cnt" using e(3,4) vy by simp
      have "merge_prev ops hid v cnt s = Some (Inr (ad, cnt + len), s1)"
        using w(1) e(1,2) True r(1) by (simp add: merge_prev.simps)
      moreover have "cnt \<le> cnt + len" using cl by (simp add: word_le_nat_alt)
      moreover have "{unat ad - 1 .. unat v + unat cnt} \<inter> blocks (entries es1) = {}"
      proof -
        have "{unat ad - 1 .. unat v + unat cnt} \<subseteq> {?x - 1 .. ?y} \<union> {unat v ..< unat v + unat cnt} \<union> {unat v + unat cnt}"
          using vy e(3) by auto
        then show ?thesis using r(5,8) dj behind by blast
      qed
      moreover have "blocks (entries es1) \<union> {unat ad ..< unat v + unat cnt} = blocks (entries es) \<union> {unat v ..< unat v + unat cnt}"
        using r(5,6) vy e(3,4) by auto
      ultimately show ?thesis using r(2,3,7) steady_trans [OF s0(3) r(4)] v unfolding ae [symmetric]
        by (intro exI [of _ s1] exI [of _ es1] exI [of _ ad] exI [of _ "cnt + len"]) simp
    next
      case False
      then have "merge_prev ops hid v cnt s = Some (Inr (v, cnt), s0)"
        using w(1) e(1,2) ge by (simp add: merge_prev.simps)
      moreover have "ext_end e < unat v" if "e \<in> set (take i es)" "e \<in> set (entries es)" for e
      proof (cases "e = es ! j")
        case True
        then show ?thesis using yv False en by (metis le_neq_implies_less word_unat_eq_iff)
      next
        case ne: False
        have "free_list (entries (take j es) @ es ! j # entries (drop (Suc j) es))"
          using f(2) entries_split [OF ends_flat [OF f(1)] j] by simp
        moreover have "e \<in> set (entries (take j es))" using that ne Suc il by (auto simp: take_Suc_conv_app_nth)
        ultimately show ?thesis using yv extent_ok_less [OF ok(1)] by (fastforce simp: free_list_append)
      qed
      ultimately show ?thesis using same [of h] w(2) by (simp add: s0_def)
    qed
  qed
qed

text \<open>Freeing blocks that are not free.\<close>

lemma free_space_ok:
  assumes tab: "free_table s hid oid c a es" and al: "can_alloc s" and x: "map_option oi_objid (objs s oid) = Some objid"
    and mem: "\<And>n. io_malloc (env s n)" and hid: "hid \<noteq> 0" and n: "cnt \<noteq> 0" "unat v + unat cnt \<le> 2 ^ 63"
    and dj: "{unat v ..< unat v + unat cnt} \<inter> blocks (entries es) = {}"
    and bound: "card (blocks (entries es) \<union> {unat v ..< unat v + unat cnt}) < 2 ^ 32" and room: "33 + esizes es + 25 \<le> a"
  shows "\<exists>s' es'. free_space ops hid v cnt s = Some (Inr (), s') \<and> free_table s' hid oid c a es' \<and> can_alloc s' \<and>
    steady oid s s' \<and> blocks (entries es') = blocks (entries es) \<union> {unat v ..< unat v + unat cnt}"
proof -
  let ?k = "os_u64_to_bstr v" and ?v = "os_u64_to_bstr (ucast cnt)" and ?cmp = "ext_cmp (unat v) (unat cnt)"
  note f = free_tableD [OF tab]
  obtain fl where fl: "obj_flags oid s = Some fl" "fl AND 0xF = 4" using tab by (auto simp: free_table_def)
  have ok: "\<forall>e \<in> set (entries es). extent_ok e" using f(2) unfolding free_list_def by blast
  have v64: "unat v + unat cnt < 2 ^ 64" using n(2) by simp
  have n': "0 < (ucast cnt :: u64)" "unat v + unat (ucast cnt :: u64) < 2 ^ 64"
    using n(1) v64 unat_ucast_u64 [of cnt] unat_eq_zero [of cnt] by (simp_all add: word_less_nat_alt)
  obtain h i found where 1: "index_search_key_nolock hid ?k ?v s =
      Some (if found then Inr () else Inl INDEX_ERR_KEY_NOT_FOUND, put_handle hid h s)"
    "flat_table (put_handle hid h s) hid oid c a es" "on_entry (put_handle hid h s) hid oid c es i"
    "if found then \<not> eend (es ! i) \<and> ?cmp (es ! i) = 0
     else (\<forall>e \<in> set (take i es). ?cmp e < 0) \<and> (\<forall>e \<in> set (entries (drop i es)). 0 < ?cmp e)"
    using flat_search [OF f(1) hid os_u64_to_bstr_not_Nil ext_collates [OF ok fl n'] ext_ordered [OF f(2)]]
    unfolding unat_ucast_u64 by blast
  define s0 where "s0 = put_handle hid h s"
  note 1 = 1 [folded s0_def]
  have s0: "free_table s0 hid oid c a es" "can_alloc s0" "steady oid s s0" "map_option oi_objid (objs s0 oid) = Some objid"
    using table_handle [OF tab al, of h] 1(2) x by (simp_all add: s0_def)
  have il: "i < length es" by (rule on_entryD [OF 1(3)])
  have nf: "\<not> found"
  proof
    assume found
    then have e: "\<not> eend (es ! i)" "?cmp (es ! i) = 0" using 1(4) by auto
    then have m: "es ! i \<in> set (entries es)" using il by simp
    then have "ext_start (es ! i) < ext_end (es ! i)" using ok extent_ok_less by blast
    then have "max (unat v) (ext_start (es ! i)) \<in> {unat v ..< unat v + unat cnt} \<inter> {ext_start (es ! i) ..< ext_end (es ! i)}"
      using e(2) n(1) by (auto simp: ext_cmp_iff unat_gt_0)
    then have "max (unat v) (ext_start (es ! i)) \<in> {unat v ..< unat v + unat cnt} \<inter> blocks (entries es)"
      using m unfolding blocks_def by blast
    with dj show False by simp
  qed
  then have sp: "\<forall>e \<in> set (take i es). ?cmp e < 0" "\<forall>e \<in> set (entries (drop i es)). 0 < ?cmp e" using 1(4) by simp_all
  have above: "\<forall>e \<in> set (entries (drop i es)). unat v + unat cnt \<le> ext_start e" using sp(2) by (simp add: ext_cmp_iff)
  have below0: "\<forall>e \<in> set (take i es). ext_end e \<le> unat v" using sp(1) by (simp add: ext_cmp_iff)
  obtain s1 es1 cnt1 where m1: "merge_next ops hid v cnt s0 = Some (Inr cnt1, s1)" "free_table s1 hid oid c a es1"
    "on_entry s1 hid oid c es1 i" "take i es1 = take i es" "can_alloc s1" "steady oid s0 s1" "esizes es1 \<le> esizes es"
    "cnt \<le> cnt1" "{unat v ..< unat v + unat cnt1} \<inter> blocks (entries es1) = {}" "unat v + unat cnt1 < 2 ^ 64"
    "blocks (entries es1) \<union> {unat v ..< unat v + unat cnt1} = blocks (entries es) \<union> {unat v ..< unat v + unat cnt}"
    "unat v + unat cnt1 \<notin> blocks (entries es1)" "set (drop i es1) \<subseteq> set (drop i es)"
    using merge_next_ok [OF s0(1) 1(3) s0(2,4) v64 below0 above dj bound] by blast
  have x1: "map_option oi_objid (objs s1 oid) = Some objid" using s0(4) m1(6) by (simp add: steady_def)
  have below: "\<forall>e \<in> set (take i es1). ext_end e \<le> unat v" using below0 m1(4) by simp
  have above1: "\<forall>e \<in> set (entries (drop i es1)). unat v \<le> ext_start e" using above m1(13) by fastforce
  have c1: "0 < unat cnt1" using m1(8) n(1) by (auto simp: word_le_nat_alt word_unat_eq_iff)
  obtain s2 es2 v2 cnt2 where m2: "merge_prev ops hid v cnt1 s1 = Some (Inr (v2, cnt2), s2)" "free_table s2 hid oid c a es2"
    "can_alloc s2" "steady oid s1 s2" "esizes es2 \<le> esizes es1" "cnt1 \<le> cnt2"
    "{unat v2 - 1 .. unat v2 + unat cnt2} \<inter> blocks (entries es2) = {}" "unat v2 + unat cnt2 < 2 ^ 64"
    "blocks (entries es2) \<union> {unat v2 ..< unat v2 + unat cnt2} = blocks (entries es1) \<union> {unat v ..< unat v + unat cnt1}"
    using merge_prev_ok [OF m1(2,3,5) x1 m1(10) c1 below above1 m1(9,12) bound [folded m1(11)]] by blast
  have st2: "steady oid s s2" by (rule steady_trans [OF steady_trans [OF s0(3) m1(6)] m2(4)])
  then have x2: "map_option oi_objid (objs s2 oid) = Some objid" and mem2: "\<And>n. io_malloc (env s2 n)"
    using x mem by (simp_all add: steady_def)
  have c2: "cnt2 \<noteq> 0" using m1(8) m2(6) n(1) by (auto simp: word_le_nat_alt word_unat_eq_iff)
  then have "0 < (ucast cnt2 :: u64)" "unat (ucast cnt2 :: u64) < 2 ^ 32" "unat v2 + unat (ucast cnt2 :: u64) < 2 ^ 64"
    "{unat v2 - 1 .. unat v2 + unat (ucast cnt2 :: u64)} \<inter> blocks (entries es2) = {}" "33 + esizes es2 + 25 \<le> a"
    using m2(5,7,8) m1(7) room unat_u32_less [of cnt2] unat_gt_0 [of cnt2] by (simp_all add: unat_ucast_u64 word_less_nat_alt)
  then obtain s3 es3 where i3: "insert_extent ops hid v2 (ucast cnt2) s2 = Some (Inr (), s3)" "free_table s3 hid oid c a es3"
    "blocks (entries es3) = blocks (entries es2) \<union> {unat v2 ..< unat v2 + unat cnt2}" "can_alloc s3" "steady oid s2 s3"
    using insert_extent_ok [OF m2(2,3) x2 mem2 hid, of "ucast cnt2" v2] by (auto simp: unat_ucast_u64)
  have "free_space ops hid v cnt s = Some (Inr (), s3)"
    using 1(1) nf m1(1) m2(1) i3(1) by (simp add: free_space_def)
  then show ?thesis using i3(2-4) steady_trans [OF st2 i3(5)] m1(11) m2(9)
    by (intro exI [of _ s3] exI [of _ es3]) simp
qed

end

end
