(* ===== verification/BaseSpace.thy ===== *)
theory BaseSpace
  imports FreeSpace
begin

text \<open>
  The space manager of the base blocks, \<open>bsm\<close>: its counters and its table agree on the set of free
  blocks, every allocation takes blocks out of the set and every release puts them back, and over any
  sequence of both no block has two owners.
\<close>

section \<open>The state of the manager\<close>

definition base_has :: "container \<Rightarrow> nat \<Rightarrow> u64 \<Rightarrow> nat \<Rightarrow> nat \<Rightarrow> nat set \<Rightarrow> bool" where
  "base_has s oid objid c a F \<longleftrightarrow> (\<exists>es. free_table s (sm_space_obj (ct_bsm s)) oid c a es \<and> blocks (entries es) = F) \<and>
     base_alloc objid s \<and> map_option oi_objid (objs s oid) = Some objid \<and> sm_space_obj (ct_bsm s) \<noteq> 0 \<and>
     (\<forall>n. io_malloc (env s n)) \<and> F \<subseteq> {..<2 ^ 63} \<and> unat (sm_first_free_block (ct_bsm s)) \<le> 2 ^ 63 \<and>
     unat (sm_total_free_blocks (ct_bsm s)) = card F"

text \<open>Room for an extent for every free block and for two more.\<close>

definition room_for_blocks :: "nat \<Rightarrow> nat set \<Rightarrow> bool" where
  "room_for_blocks a F \<longleftrightarrow> finite F \<and> 92 + 25 * card F \<le> a \<and> card F < 2 ^ 32"

lemma room_for_blocks_mono: "room_for_blocks a F \<Longrightarrow> G \<subseteq> F \<Longrightarrow> room_for_blocks a G"
  using card_mono [of F G] finite_subset [of G F] by (fastforce simp: room_for_blocks_def)

lemma extent_size: "extent_ok e \<Longrightarrow> esize e \<le> 25"
  by (simp add: extent_ok_def valid_ext_def valid_u64_def esize_def)

lemma extents_size: "\<forall>e \<in> set xs. extent_ok e \<Longrightarrow> esizes xs \<le> 25 * length xs"
proof (induction xs)
  case (Cons e xs)
  then show ?case using extent_size [of e] by simp
qed simp

lemma free_table_size:
  assumes "free_table s hid oid c a es" shows "esizes es \<le> 9 + 25 * card (blocks (entries es))"
proof -
  note f = free_tableD [OF assms]
  have e: "ends_with_end es" by (rule ends_flat [OF f(1)])
  then have es: "es = entries es @ [last es]" using entries_butlast by (auto simp: ends_with_end_def)
  have "\<forall>e \<in> set es. echild e = None" by (rule flat_tableD [OF f(1)])
  then have "esize (last es) = 9" using e by (auto simp: ends_with_end_def esize_def)
  then have "esizes es = esizes (entries es) + 9" by (subst es) simp
  moreover have "esizes (entries es) \<le> 25 * length (entries es)"
    using f(2) by (intro extents_size) (simp add: free_list_def)
  ultimately show ?thesis using length_le_blocks [OF f(2)] by simp
qed

text \<open>The counters of the manager are not part of its table.\<close>

definition put_bsm :: "space_manager \<Rightarrow> container \<Rightarrow> container" where "put_bsm sm s = s\<lparr> ct_bsm := sm \<rparr>"

lemma put_bsm_sel [simp]:
  "handles (put_bsm sm s) = handles s" "objs (put_bsm sm s) = objs s" "caches (put_bsm sm s) = caches s"
  "bufs (put_bsm sm s) = bufs s" "ct_metadata_cache (put_bsm sm s) = ct_metadata_cache s" "env (put_bsm sm s) = env s"
  "next_id (put_bsm sm s) = next_id s" "ct_bsm (put_bsm sm s) = sm" "ct_base_blk (put_bsm sm s) = ct_base_blk s"
  by (simp_all add: put_bsm_def)

lemma put_bsm_same [simp]:
  "cache_block (put_bsm sm s) c = cache_block s c" "obj_flags oid (put_bsm sm s) = obj_flags oid s"
  "cache_key (put_bsm sm s) c = cache_key s c"
  by (simp_all add: cache_block_def obj_flags_def cache_key_def)

lemma caches_ok_put_bsm: "caches_ok s \<Longrightarrow> caches_ok (put_bsm sm s)"
  by (rule caches_ok_mono) (auto dest: caches_okD(2,5,6))

lemma flat_put_bsm: "flat_table s hid oid c a es \<Longrightarrow> flat_table (put_bsm sm s) hid oid c a es"
proof -
  assume f: "flat_table s hid oid c a es"
  have "keeps s (put_bsm sm s) {c}" by (simp add: keeps_def)
  then have "table_on (put_bsm sm s) oid {c} (Bt es [])"
    using f tree_on_keeps by (auto simp: flat_table_def table_on_def is_table_def)
  moreover have "obj_ok (put_bsm sm s) oid {c}"
    using f caches_ok_put_bsm by (auto simp: flat_table_def obj_ok_def own_def cached_vbns_def cache_buf_def [abs_def])
  ultimately show ?thesis using f by (simp add: flat_table_def)
qed

lemma base_has_put_bsm:
  assumes tab: "free_table s (sm_space_obj (ct_bsm s)) oid c a es" and b: "base_alloc objid s"
    and x: "map_option oi_objid (objs s oid) = Some objid" and mem: "\<And>n. io_malloc (env s n)"
    and sm: "sm_space_obj sm = sm_space_obj (ct_bsm s)" "sm_space_obj sm \<noteq> 0" "unat (sm_first_free_block sm) \<le> 2 ^ 63"
      "unat (sm_total_free_blocks sm) = card (blocks (entries es))"
    and F: "blocks (entries es) \<subseteq> {..<2 ^ 63}"
  shows "base_has (put_bsm sm s) oid objid c a (blocks (entries es))"
proof -
  have "free_table (put_bsm sm s) (sm_space_obj sm) oid c a es"
    using tab flat_put_bsm sm(1) by (auto simp: free_table_def)
  moreover have "base_alloc objid (put_bsm sm s)"
    using b sm(1) by (auto simp: base_alloc_def space_objid_def get_sm_def cached_vbns_def)
  ultimately show ?thesis using assms by (auto simp: base_has_def)
qed

interpretation base_level: block_service "space_ops_at (Suc n)" objid oid hid "base_alloc objid" "base_free objid"
  for n :: nat and objid :: u64 and oid hid :: nat
proof
  fix s v assume "base_free objid s" "caches_ok s" "v \<noteq> 0" "v \<notin> cached_vbns s"
  then show "\<exists>s'. OFS_FREE_BLOCK (space_ops_at (Suc n)) objid v s = Some (Inr (), s') \<and> base_alloc objid s' \<and> served oid hid s s'"
    using served_base(1) [where s = s and oid = oid and hid = hid and v = v] served_base(2) [where s = s and v = v]
    by (intro exI [of _ "s\<lparr> ct_base_blk := v \<rparr>"])
      (simp add: base_free_def base_alloc_def OFS_FREE_BLOCK_def ofs_free_space_def space_objid_def get_sm_def)
next
  fix s assume "base_alloc objid s" "caches_ok s"
  then show "\<exists>v s'. OFS_ALLOC_BLOCK (space_ops_at (Suc n)) objid s = Some (Inr v, s') \<and> v \<noteq> 0 \<and> v \<notin> cached_vbns s' \<and>
        base_free objid s' \<and> served oid hid s s'"
    using served_base(1) [where s = s and oid = oid and hid = hid and v = 0] served_base(2) [where s = s and v = 0]
    by (intro exI [of _ "ct_base_blk s"] exI [of _ "s\<lparr> ct_base_blk := 0 \<rparr>"])
      (simp add: base_free_def base_alloc_def OFS_ALLOC_BLOCK_def ofs_alloc_space_def space_objid_def get_sm_def)
qed (auto simp: base_alloc_def base_free_def client_change_base)

section \<open>Allocating and freeing\<close>

text \<open>A run of blocks.\<close>

definition run :: "u64 \<Rightarrow> u32 \<Rightarrow> nat set" where
  "run v m = {unat v ..< unat v + unat m}"

lemma card_run [simp]: "card (run v m) = unat m" and finite_run [simp]: "finite (run v m)"
  by (simp_all add: run_def)

lemma base_alloc_step:
  assumes has: "base_has s oid objid c a F" and room: "room_for_blocks a F" and n: "cnt \<noteq> 0"
  shows "if F = {} then sm_alloc_space (space_ops_at (Suc n)) False cnt s = Some (Inl INDEX_ERR_NO_FREE_BLOCKS, s)
    else \<exists>m v s'. sm_alloc_space (space_ops_at (Suc n)) False cnt s = Some (Inr (m, v), s') \<and> 0 < unat m \<and>
      unat m \<le> unat cnt \<and> run v m \<subseteq> F \<and> base_has s' oid objid c a (F - run v m)"
proof -
  let ?ops = "space_ops_at (Suc n)" and ?sm = "ct_bsm s"
  obtain es where es: "free_table s (sm_space_obj ?sm) oid c a es" "blocks (entries es) = F" using has by (auto simp: base_has_def)
  from has have h: "base_alloc objid s" "map_option oi_objid (objs s oid) = Some objid" "sm_space_obj ?sm \<noteq> 0"
    "\<And>n. io_malloc (env s n)" "blocks (entries es) \<subseteq> {..<2 ^ 63}" "unat (sm_first_free_block ?sm) \<le> 2 ^ 63"
    "unat (sm_total_free_blocks ?sm) = card F" using es(2) by (auto simp: base_has_def)
  have fin: "finite F" using es(2) finite_blocks [of "entries es"] by simp
  show ?thesis
  proof (cases "F = {}")
    case True
    then have "sm_total_free_blocks ?sm = 0" using h(7) by (simp add: unat_eq_zero)
    then show ?thesis using True by (simp add: sm_alloc_space_def get_sm_def)
  next
    case False
    then have t: "sm_total_free_blocks ?sm \<noteq> 0" using h(7) fin by (metis card_eq_0_iff unat_0)
    have ne: "entries es \<noteq> []" using False es(2) by auto
    have room': "33 + esizes es + 50 \<le> a" using free_table_size [OF es(1)] room es(2) by (simp add: room_for_blocks_def)
    obtain s1 es1 m v where 1: "free_table s1 (sm_space_obj ?sm) oid c a es1" "base_alloc objid s1" "steady oid s s1"
      "alloc_space ?ops (sm_space_obj ?sm) (sm_first_free_block ?sm) cnt s = Some (Inr (m, v), s1)"
      "0 < unat m" "unat m \<le> unat cnt" "{unat v ..< unat v + unat m} \<subseteq> blocks (entries es)"
      "blocks (entries es1) = blocks (entries es) - {unat v ..< unat v + unat m}"
      using base_level.alloc_space_ok [OF es(1) h(1,2,4,3) n h(6,5) room', of n] ne by auto
    have sm1: "ct_bsm s1 = ?sm" using 1(3) by (simp add: steady_def)
    have x1: "map_option oi_objid (objs s1 oid) = Some objid" and m1: "\<And>n. io_malloc (env s1 n)"
      using 1(3) h(2,4) by (simp_all add: steady_def)
    have sub: "run v m \<subseteq> F" using 1(7) es(2) by (simp add: run_def)
    have top: "unat v + unat m \<le> 2 ^ 63"
    proof -
      have "unat v + unat m - 1 \<in> {unat v ..< unat v + unat m}" using 1(5) by auto
      then have "unat v + unat m - 1 < 2 ^ 63" using 1(7) h(5) by blast
      then show ?thesis by simp
    qed
    have le: "unat m \<le> card F" using card_mono [OF fin sub] by simp
    let ?sm1 = "?sm\<lparr> sm_first_free_block := v + ucast m, sm_total_free_blocks := sm_total_free_blocks ?sm - ucast m \<rparr>"
    have cnt: "unat (sm_total_free_blocks ?sm - ucast m) = card (F - run v m)"
      using unat_sub_u64 [of "ucast m" "sm_total_free_blocks ?sm"] le h(7) card_Diff_subset [OF finite_run sub]
      by (simp add: unat_ucast_u64)
    have fst: "unat (v + ucast m) \<le> 2 ^ 63" using unat_add_u32 [of v m] top by simp
    have "\<not> sm_total_free_blocks ?sm < ucast m" using le h(7) by (simp add: word_less_nat_alt unat_ucast_u64)
    then have "sm_alloc_space ?ops False cnt s = Some (Inr (m, v), put_bsm ?sm1 s1)"
      using t 1(4) sm1 by (simp add: sm_alloc_space_def get_sm_def put_sm_def put_bsm_def Let_def)
    moreover have "base_has (put_bsm ?sm1 s1) oid objid c a (blocks (entries es1))"
      using base_has_put_bsm [OF 1(1) [folded sm1] 1(2) x1 m1, of ?sm1] sm1 h(3,5) fst cnt 1(8) es(2)
      by (auto simp: run_def)
    moreover have "blocks (entries es1) = F - run v m" using 1(8) es(2) by (simp add: run_def)
    ultimately show ?thesis using False 1(5,6) sub by auto
  qed
qed

lemma base_free_step:
  assumes has: "base_has s oid objid c a F" and room: "room_for_blocks a (F \<union> run v m)" and n: "m \<noteq> 0"
    and dj: "run v m \<inter> F = {}" and top: "run v m \<subseteq> {..<2 ^ 63}"
  shows "\<exists>s'. sm_free_space (space_ops_at (Suc n)) False v m s = Some (Inr (), s') \<and> base_has s' oid objid c a (F \<union> run v m)"
proof -
  let ?ops = "space_ops_at (Suc n)" and ?sm = "ct_bsm s"
  obtain es where es: "free_table s (sm_space_obj ?sm) oid c a es" "blocks (entries es) = F" using has by (auto simp: base_has_def)
  from has have h: "base_alloc objid s" "map_option oi_objid (objs s oid) = Some objid" "sm_space_obj ?sm \<noteq> 0"
    "\<And>n. io_malloc (env s n)" "F \<subseteq> {..<2 ^ 63}" "unat (sm_first_free_block ?sm) \<le> 2 ^ 63"
    "unat (sm_total_free_blocks ?sm) = card F" by (auto simp: base_has_def)
  have fin: "finite F" using es(2) finite_blocks [of "entries es"] by simp
  have m0: "0 < unat m" using n by (simp add: unat_gt_0)
  then have "unat v + unat m - 1 \<in> run v m" by (auto simp: run_def)
  then have "unat v + unat m - 1 < 2 ^ 63" using top by blast
  then have top': "unat v + unat m \<le> 2 ^ 63" by simp
  have "33 + esizes es + 25 \<le> a"
    using free_table_size [OF es(1)] room_for_blocks_mono [OF room, of F] es(2) by (simp add: room_for_blocks_def)
  moreover have "card (blocks (entries es) \<union> {unat v ..< unat v + unat m}) < 2 ^ 32"
    using room es(2) by (simp add: room_for_blocks_def run_def)
  moreover have "{unat v ..< unat v + unat m} \<inter> blocks (entries es) = {}" using dj es(2) by (simp add: run_def)
  ultimately obtain s1 es1 where 1: "free_space ?ops (sm_space_obj ?sm) v m s = Some (Inr (), s1)"
    "free_table s1 (sm_space_obj ?sm) oid c a es1" "base_alloc objid s1" "steady oid s s1"
    "blocks (entries es1) = blocks (entries es) \<union> {unat v ..< unat v + unat m}"
    using base_level.free_space_ok [OF es(1) h(1,2,4,3) n top', of n] by blast
  have sm1: "ct_bsm s1 = ?sm" using 1(4) by (simp add: steady_def)
  have x1: "map_option oi_objid (objs s1 oid) = Some objid" and m1: "\<And>n. io_malloc (env s1 n)"
    using 1(4) h(2,4) by (simp_all add: steady_def)
  let ?sm1 = "?sm\<lparr> sm_total_free_blocks := sm_total_free_blocks ?sm + ucast m \<rparr>"
  have b1: "blocks (entries es1) = F \<union> run v m" using 1(5) es(2) by (simp add: run_def)
  have cu: "card (F \<union> run v m) = card F + unat m" using card_Un_disjoint [of F "run v m"] dj fin by (simp add: Int_commute)
  have "card F \<le> 2 ^ 63" using cu room by (simp add: room_for_blocks_def)
  then have cnt: "unat (sm_total_free_blocks ?sm + ucast m) = card (blocks (entries es1))"
    using unat_add_u32 [of "sm_total_free_blocks ?sm" m] h(7) cu b1 by simp
  have "sm_free_space ?ops False v m s = Some (Inr (), put_bsm ?sm1 s1)"
    using 1(1) sm1 by (simp add: sm_free_space_def get_sm_def put_sm_def put_bsm_def Let_def)
  moreover have "base_has (put_bsm ?sm1 s1) oid objid c a (blocks (entries es1))"
    using base_has_put_bsm [OF 1(2) [folded sm1] 1(3) x1 m1, of ?sm1] sm1 h(3,5,6) cnt top b1 by simp
  ultimately show ?thesis using b1 by auto
qed

section \<open>Runs\<close>

text \<open>
  Any sequence of allocations and releases: \<open>ps\<close> are the runs that were allocated and not yet freed;
  only those are freed.
\<close>

inductive space_step :: "space_ops \<Rightarrow> container \<times> (u64 \<times> u32) list \<Rightarrow> container \<times> (u64 \<times> u32) list \<Rightarrow> bool" for ops where
  take: "cnt \<noteq> 0 \<Longrightarrow> sm_alloc_space ops False cnt s = Some (Inr (m, v), s') \<Longrightarrow> space_step ops (s, ps) (s', (v, m) # ps)"
| full: "cnt \<noteq> 0 \<Longrightarrow> sm_alloc_space ops False cnt s = Some (Inl e, s') \<Longrightarrow> space_step ops (s, ps) (s', ps)"
| give: "sm_free_space ops False v m s = Some (r, s') \<Longrightarrow> space_step ops (s, ps @ (v, m) # qs) (s', ps @ qs)"

inductive_cases space_stepE: "space_step ops (s, ps) (s', ps')"

definition owned :: "(u64 \<times> u32) list \<Rightarrow> nat set" where
  "owned ps = (\<Union>(v, m) \<in> set ps. run v m)"

definition one_owner :: "(u64 \<times> u32) list \<Rightarrow> bool" where
  "one_owner ps \<longleftrightarrow> sorted_wrt (\<lambda>(v, m) (v', m'). run v m \<inter> run v' m' = {}) ps \<and> (\<forall>(v, m) \<in> set ps. m \<noteq> 0)"

lemma owned_simps [simp]: "owned [] = {}" "owned ((v, m) # ps) = run v m \<union> owned ps" "owned (ps @ qs) = owned ps \<union> owned qs"
  by (auto simp: owned_def)

lemma one_owner_Nil [simp]: "one_owner []"
  by (simp add: one_owner_def)

lemma one_owner_Cons [simp]: "one_owner ((v, m) # ps) \<longleftrightarrow> m \<noteq> 0 \<and> run v m \<inter> owned ps = {} \<and> one_owner ps"
  by (auto simp: one_owner_def owned_def)

lemma one_owner_append: "one_owner (ps @ qs) \<longleftrightarrow> one_owner ps \<and> one_owner qs \<and> owned ps \<inter> owned qs = {}"
  by (induction ps) (auto simp: Int_Un_distrib2)

definition shared :: "container \<Rightarrow> nat \<Rightarrow> u64 \<Rightarrow> nat \<Rightarrow> nat \<Rightarrow> nat set \<Rightarrow> (u64 \<times> u32) list \<Rightarrow> bool" where
  "shared s oid objid c a T ps \<longleftrightarrow> (\<exists>F. base_has s oid objid c a F \<and> F \<inter> owned ps = {} \<and> F \<union> owned ps = T \<and> one_owner ps)"

lemma shared_free:
  assumes "shared s oid objid c a T (ps @ (v, m) # qs)" "room_for_blocks a T" "T \<subseteq> {..<2 ^ 63}"
  shows "\<exists>s'. sm_free_space (space_ops_at (Suc n)) False v m s = Some (Inr (), s') \<and> shared s' oid objid c a T (ps @ qs)"
proof -
  obtain F where F: "base_has s oid objid c a F" "F \<inter> owned (ps @ (v, m) # qs) = {}" "F \<union> owned (ps @ (v, m) # qs) = T"
    "one_owner (ps @ (v, m) # qs)" using assms(1) by (auto simp: shared_def)
  have sub: "F \<union> run v m \<subseteq> T" "run v m \<inter> F = {}" "m \<noteq> 0" using F by (auto simp: one_owner_append)
  then have "run v m \<subseteq> {..<2 ^ 63}" using assms(3) by blast
  then obtain s' where s': "sm_free_space (space_ops_at (Suc n)) False v m s = Some (Inr (), s')"
    "base_has s' oid objid c a (F \<union> run v m)"
    using base_free_step [OF F(1) room_for_blocks_mono [OF assms(2) sub(1)] sub(3,2), of n] by blast
  have d: "run v m \<inter> owned (ps @ qs) = {}" "one_owner (ps @ qs)" using F(4) by (auto simp: one_owner_append)
  have "shared s' oid objid c a T (ps @ qs)"
    unfolding shared_def by (rule exI [of _ "F \<union> run v m"]) (use F(2,3) d s'(2) in auto)
  then show ?thesis using s'(1) by blast
qed

lemma shared_alloc:
  assumes "shared s oid objid c a T ps" "room_for_blocks a T" "cnt \<noteq> 0"
  shows "sm_alloc_space (space_ops_at (Suc n)) False cnt s = Some (Inl INDEX_ERR_NO_FREE_BLOCKS, s) \<and> owned ps = T \<or>
    (\<exists>m v s'. sm_alloc_space (space_ops_at (Suc n)) False cnt s = Some (Inr (m, v), s') \<and> shared s' oid objid c a T ((v, m) # ps))"
proof -
  obtain F where F: "base_has s oid objid c a F" "F \<inter> owned ps = {}" "F \<union> owned ps = T" "one_owner ps"
    using assms(1) by (auto simp: shared_def)
  have "room_for_blocks a F" by (rule room_for_blocks_mono [OF assms(2)]) (use F(3) in auto)
  note st = base_alloc_step [OF F(1) this assms(3), of n]
  show ?thesis
  proof (cases "F = {}")
    case True
    then show ?thesis using st F(3) by simp
  next
    case False
    then obtain m v s' where r: "sm_alloc_space (space_ops_at (Suc n)) False cnt s = Some (Inr (m, v), s')" "0 < unat m"
      "run v m \<subseteq> F" "base_has s' oid objid c a (F - run v m)" using st by auto
    have "m \<noteq> 0" using r(2) by (simp add: unat_gt_0)
    then have "shared s' oid objid c a T ((v, m) # ps)"
      unfolding shared_def by (intro exI [of _ "F - run v m"]) (use F r in auto)
    then show ?thesis using r(1) by blast
  qed
qed

lemma space_step_shared:
  assumes "space_step (space_ops_at (Suc n)) (s, ps) (s', ps')" "shared s oid objid c a T ps" "room_for_blocks a T" "T \<subseteq> {..<2 ^ 63}"
  shows "shared s' oid objid c a T ps'"
  using assms(1)
proof (cases rule: space_step.cases)
  case (take cnt m v)
  then show ?thesis using shared_alloc [OF assms(2,3) take(2), of n] take by auto
next
  case (full cnt e)
  then show ?thesis using shared_alloc [OF assms(2,3) full(2), of n] full assms(2) by auto
next
  case (give v m r qs rs)
  then show ?thesis using shared_free [OF assms(2) [unfolded give(1)] assms(3,4), of n] give by auto
qed

lemma space_steps_shared:
  assumes "(space_step (space_ops_at (Suc n)))\<^sup>*\<^sup>* (s, ps) (s', ps')" "shared s oid objid c a T ps" "room_for_blocks a T"
    "T \<subseteq> {..<2 ^ 63}"
  shows "shared s' oid objid c a T ps'"
  using assms(1)
proof (induction "(s', ps')" arbitrary: s' ps' rule: rtranclp_induct)
  case base
  then show ?case using assms(2) by simp
next
  case (step y)
  obtain s1 ps1 where y: "y = (s1, ps1)" by (metis prod.exhaust)
  show ?case using space_step_shared [OF step(2) [unfolded y] step(3) [OF y] assms(3,4)] .
qed

section \<open>Freeing twice\<close>

text \<open>Blocks that are free already are counted again.\<close>

lemma base_free_overlap:
  assumes has: "base_has s oid objid c a F" and n: "m \<noteq> 0" "unat v + unat m \<le> 2 ^ 63" and ov: "run v m \<inter> F \<noteq> {}"
  shows "\<exists>s' es. sm_free_space ops False v m s = Some (Inr (), s') \<and>
    free_table s' (sm_space_obj (ct_bsm s')) oid c a es \<and> blocks (entries es) = F \<and>
    sm_total_free_blocks (ct_bsm s') = sm_total_free_blocks (ct_bsm s) + ucast m"
proof -
  let ?sm = "ct_bsm s" and ?k = "os_u64_to_bstr v" and ?v = "os_u64_to_bstr (ucast m)" and ?cmp = "ext_cmp (unat v) (unat m)"
  obtain es where es: "free_table s (sm_space_obj ?sm) oid c a es" "blocks (entries es) = F" using has by (auto simp: base_has_def)
  have hid: "sm_space_obj ?sm \<noteq> 0" using has by (simp add: base_has_def)
  note f = free_tableD [OF es(1)]
  obtain fl where fl: "obj_flags oid s = Some fl" "fl AND 0xF = 4" using es(1) by (auto simp: free_table_def)
  have ok: "\<forall>e \<in> set (entries es). extent_ok e" using f(2) unfolding free_list_def by blast
  have n': "0 < (ucast m :: u64)" "unat v + unat (ucast m :: u64) < 2 ^ 64"
    using n unat_ucast_u64 [of m] unat_eq_zero [of m] by (simp_all add: word_less_nat_alt)
  obtain h i found where 1: "index_search_key_nolock (sm_space_obj ?sm) ?k ?v s =
      Some (if found then Inr () else Inl INDEX_ERR_KEY_NOT_FOUND, put_handle (sm_space_obj ?sm) h s)"
    "flat_table (put_handle (sm_space_obj ?sm) h s) (sm_space_obj ?sm) oid c a es"
    "if found then \<not> eend (es ! i) \<and> ?cmp (es ! i) = 0
     else (\<forall>e \<in> set (take i es). ?cmp e < 0) \<and> (\<forall>e \<in> set (entries (drop i es)). 0 < ?cmp e)"
    using flat_search [OF f(1) hid os_u64_to_bstr_not_Nil ext_collates [OF ok fl n'] ext_ordered [OF f(2)]]
    unfolding unat_ucast_u64 by blast
  have found
  proof (rule ccontr)
    assume "\<not> found"
    then have "?cmp e \<noteq> 0" if "e \<in> set (take i es) \<or> e \<in> set (entries (drop i es))" for e using 1(3) that by auto
    moreover have "set es = set (take i es) \<union> set (drop i es)" by (metis append_take_drop_id set_append)
    ultimately have "?cmp e \<noteq> 0" if "e \<in> set (entries es)" for e using that by auto
    then have "ext_end e \<le> unat v \<or> unat v + unat m \<le> ext_start e" if "e \<in> set (entries es)" for e
      using that by (auto simp: ext_cmp_iff not_less)
    then have "run v m \<inter> F = {}" unfolding es(2) [symmetric] blocks_def run_def by fastforce
    with ov show False by blast
  qed
  then have "free_space ops (sm_space_obj ?sm) v m s = Some (Inr (), put_handle (sm_space_obj ?sm) h s)"
    using 1(1) by (simp add: free_space_def)
  then have "sm_free_space ops False v m s =
      Some (Inr (), put_bsm (?sm\<lparr> sm_total_free_blocks := sm_total_free_blocks ?sm + ucast m \<rparr>) (put_handle (sm_space_obj ?sm) h s))"
    by (simp add: sm_free_space_def get_sm_def put_sm_def put_bsm_def Let_def)
  moreover have "free_table (put_handle (sm_space_obj ?sm) h s) (sm_space_obj ?sm) oid c a es"
    by (rule free_tableI [OF es(1) steady_put_handle 1(2) f(2)])
  then have "free_table (put_bsm sm (put_handle (sm_space_obj ?sm) h s)) (sm_space_obj ?sm) oid c a es" for sm
    using flat_put_bsm by (auto simp: free_table_def)
  ultimately show ?thesis using es(2) by (intro exI [of _ _] exI [of _ es] conjI) auto
qed

section \<open>An example\<close>

text \<open>A container whose base blocks 100 to 107 are free.\<close>

definition sp_ents :: "ent list" where "sp_ents = [leaf_ent [100] [8], end_ent None]"

definition sp_obj :: object_info where
  "sp_obj = ex_obj\<lparr> oi_caches := \<lparr> avl_root = ANode ANil 4 0 ANil, avl_numnodes = 1 \<rparr> \<rparr>"

definition sp_state :: container where
  "sp_state = ex_state\<lparr> bufs := [1 \<mapsto> put16 (mk_block blank_root 374 0 sp_ents) 364 0x4004],
     caches := [1 \<mapsto> \<lparr> c_vbn = 10, c_state = CLEAN, c_ib = (1, 374) \<rparr>, 4 \<mapsto> \<lparr> c_vbn = 10, c_state = CLEAN, c_ib = (1, 0) \<rparr>],
     objs := [1 \<mapsto> sp_obj], ct_metadata_cache := oi_caches sp_obj, ct_base_blk := 20,
     ct_bsm := \<lparr> sm_space_obj = 1, sm_first_free_block = 102, sm_total_free_blocks = 8 \<rparr> \<rparr>"

lemma sp_sel [simp]:
  "caches sp_state = [1 \<mapsto> \<lparr> c_vbn = 10, c_state = CLEAN, c_ib = (1, 374) \<rparr>, 4 \<mapsto> \<lparr> c_vbn = 10, c_state = CLEAN, c_ib = (1, 0) \<rparr>]"
  "objs sp_state = [1 \<mapsto> sp_obj]" "handles sp_state = [1 \<mapsto> ex_handle]" "next_id sp_state = 5" "env sp_state = (\<lambda>_. io_ok)"
  "ct_bsm sp_state = \<lparr> sm_space_obj = 1, sm_first_free_block = 102, sm_total_free_blocks = 8 \<rparr>" "ct_base_blk sp_state = 20"
  "bufs sp_state = [1 \<mapsto> put16 (mk_block blank_root 374 0 sp_ents) 364 0x4004]"
  "ct_metadata_cache sp_state = \<lparr> avl_root = ANode ANil 4 0 ANil, avl_numnodes = 1 \<rparr>"
  by (simp_all add: sp_state_def ex_state_def sp_obj_def)

lemma sp_obj_sel [simp]: "oi_root_cache sp_obj = 1" "oi_inode_cache sp_obj = 4" "oi_attr_record sp_obj = (1, 362)"
  "oi_objid sp_obj = 200" "oi_caches sp_obj = \<lparr> avl_root = ANode ANil 4 0 ANil, avl_numnodes = 1 \<rparr>"
  by (simp_all add: sp_obj_def ex_obj_def)

lemma sp_key [simp]: "cache_key sp_state 1 = 10" "cache_key sp_state 4 = 10"
  by (simp_all add: cache_key_def)

lemma sp_block: "cache_block sp_state 1 = Some (1, put16 (mk_block blank_root 374 0 sp_ents) 364 0x4004, 374)"
  by (simp add: cache_block_def)

lemma sp_rep: "ib_rep (put16 (mk_block blank_root 374 0 sp_ents) 364 0x4004) 374 sp_ents"
proof -
  let ?m = "mk_block blank_root 374 0 sp_ents"
  have r: "ib_rep ?m 374 sp_ents"
    by (rule mk_block_rep) (simp_all add: sp_ents_def ends_with_end_def end_ent_def esize_def)
  have "rd (put16 ?m 364 0x4004) b n = rd ?m b n" if "366 \<le> b" for b n
    by (rule rd_eqI) (use that in \<open>simp add: put16_out\<close>)
  then show ?thesis
    using r by (simp add: ib_rep_def ents_at_def ib_first_entry_off_def bh_real_size_def get16_def get32_def
        ib_node_type_def put16_out)
qed

lemma sp_alloc_size: "unat (bh_alloc_size (put16 (mk_block blank_root 374 0 sp_ents) 364 0x4004) 374) = 3722"
  using mk_block_alloc [of blank_root 374 0 sp_ents]
  by (simp add: blank_root_def bh_alloc_size_def buf_simps)

lemma sp_caches_ok: "caches_ok sp_state"
proof -
  have "cache_tree sp_state (oi_caches sp_obj)"
    by (auto simp: cache_tree_def avl_inv_def members_def)
  then show ?thesis by (auto simp: caches_ok_def members_def split: if_splits)
qed

lemma sp_flags: "obj_flags 1 sp_state = Some 0x4004"
  by (simp add: obj_flags_def buf_simps)

lemma sp_free_table: "free_table sp_state 1 1 1 3722 sp_ents"
proof -
  have "tree_on sp_state 1 1 {1} (Bt sp_ents [])"
    by (rule tree_on.on_leaf [OF sp_block sp_rep]) (simp add: sp_ents_def end_ent_def)
  moreover have "is_table 1 sp_state" using sp_flags by (simp add: is_table_def FLAG_TABLE_def)
  ultimately have t: "table_on sp_state 1 {1} (Bt sp_ents [])" by (simp add: table_on_def bt_height.simps)
  have "obj_ok sp_state 1 {1}"
    using sp_caches_ok by (simp add: obj_ok_def own_def cached_vbns_def members_def)
  then have "flat_table sp_state 1 1 1 3722 sp_ents"
    using t sp_block sp_alloc_size ex_handle_at(2) by (simp add: flat_table_def)
  moreover have "free_list (entries sp_ents)"
    by (simp add: sp_ents_def end_ent_def free_list_def extent_ok_def valid_ext_def valid_u64_def)
  ultimately show ?thesis using sp_flags by (simp add: free_table_def)
qed

lemma sp_blocks: "blocks (entries sp_ents) = {100..<108}"
  by (simp add: sp_ents_def end_ent_def ext_start_def ext_end_def)

lemma sp_base_has: "base_has sp_state 1 200 1 3722 {100..<108}"
proof -
  have "base_alloc 200 sp_state"
    using ex_handle_at(2) by (simp add: base_alloc_def space_objid_def get_sm_def cached_vbns_def members_def)
  then show ?thesis using sp_free_table sp_blocks by (auto simp: base_has_def io_ok_def)
qed

lemma sp_room: "room_for_blocks 3722 {100..<108}"
  by (simp add: room_for_blocks_def)

lemma level_2: "space_ops_at 2 = space_ops_at (Suc 1)"
  by (simp only: Suc_1)

section \<open>Properties\<close>

text \<open>C4: allocating base blocks: with a free block the call returns, gives between one and the wanted number of
  neighbouring blocks that were free, and leaves exactly the others free, with the counter right; without
  one it returns \<open>INDEX_ERR_NO_FREE_BLOCKS\<close> and changes nothing.\<close>

theorem base_space_alloc:
  assumes "base_has s oid objid c a F" "room_for_blocks a F" "cnt \<noteq> 0"
  shows "if F = {} then sm_alloc_space (space_ops_at (Suc n)) False cnt s = Some (Inl INDEX_ERR_NO_FREE_BLOCKS, s)
    else \<exists>m v s'. sm_alloc_space (space_ops_at (Suc n)) False cnt s = Some (Inr (m, v), s') \<and> 0 < unat m \<and>
      unat m \<le> unat cnt \<and> run v m \<subseteq> F \<and> base_has s' oid objid c a (F - run v m)"
  by (rule base_alloc_step [OF assms])

theorem base_space_alloc_witness:
  "\<exists>m v s'. sm_alloc_space (space_ops_at 2) False 3 sp_state = Some (Inr (m, v), s') \<and> run v m \<subseteq> {100..<108} \<and>
     base_has s' 1 200 1 3722 ({100..<108} - run v m)"
  unfolding level_2 using base_space_alloc [OF sp_base_has sp_room, of 3 1] by (auto simp del: space_ops_at.simps One_nat_def)

text \<open>C5: freeing base blocks that are not free: the call succeeds, exactly those blocks are free in addition and
  the counter is right. Extents that touch are merged: in the table afterwards, as before, the extents are
  sorted and there is a used block between any two.\<close>

theorem base_space_free:
  assumes "base_has s oid objid c a F" "room_for_blocks a (F \<union> run v m)" "m \<noteq> 0" "run v m \<inter> F = {}" "run v m \<subseteq> {..<2 ^ 63}"
  shows "\<exists>s' es. sm_free_space (space_ops_at (Suc n)) False v m s = Some (Inr (), s') \<and>
    base_has s' oid objid c a (F \<union> run v m) \<and> free_table s' (sm_space_obj (ct_bsm s')) oid c a es \<and>
    blocks (entries es) = F \<union> run v m \<and> sorted_wrt (\<lambda>e f. ext_end e < ext_start f) (entries es)"
proof -
  obtain s' where s': "sm_free_space (space_ops_at (Suc n)) False v m s = Some (Inr (), s')"
    "base_has s' oid objid c a (F \<union> run v m)" using base_free_step [OF assms] by blast
  then obtain es where "free_table s' (sm_space_obj (ct_bsm s')) oid c a es" "blocks (entries es) = F \<union> run v m"
    by (auto simp: base_has_def)
  moreover from this have "sorted_wrt (\<lambda>e f. ext_end e < ext_start f) (entries es)"
    using free_tableD(2) by (auto simp: free_list_def)
  ultimately show ?thesis using s' by blast
qed

theorem base_space_free_witness:
  "\<exists>s' es. sm_free_space (space_ops_at 2) False 108 4 sp_state = Some (Inr (), s') \<and>
     base_has s' 1 200 1 3722 {100..<112} \<and> blocks (entries es) = {100..<112} \<and>
     sorted_wrt (\<lambda>e f. ext_end e < ext_start f) (entries es)"
proof -
  have r: "run 108 4 = {108..<112}" by (simp add: run_def)
  then have u: "{100..<108} \<union> run 108 4 = {100..<112}" by auto
  have "room_for_blocks 3722 ({100..<108} \<union> run 108 4)" unfolding u by (simp add: room_for_blocks_def)
  moreover have "run 108 4 \<inter> {100..<108} = {}" "run 108 4 \<subseteq> {..<2 ^ 63}" using r by auto
  ultimately show ?thesis unfolding level_2 using base_space_free [OF sp_base_has, of 108 4 1] u
    by (auto simp del: space_ops_at.simps One_nat_def)
qed

text \<open>C3: over any sequence of allocations and releases of base blocks, every block that was free at the start is
  either free or has exactly one owner, two allocations never share a block, and no call aborts: from every
  reachable state an allocation returns and the release of an allocated run succeeds.\<close>

theorem base_blocks_one_owner:
  assumes "base_has s oid objid c a T" "room_for_blocks a T"
    and "(space_step (space_ops_at (Suc n)))\<^sup>*\<^sup>* (s, []) (s', ps)"
  shows "\<exists>F. base_has s' oid objid c a F \<and> F \<inter> owned ps = {} \<and> F \<union> owned ps = T \<and> one_owner ps \<and>
    (\<forall>cnt. cnt \<noteq> 0 \<longrightarrow> (\<exists>r s''. sm_alloc_space (space_ops_at (Suc n)) False cnt s' = Some (r, s''))) \<and>
    (\<forall>(v, m) \<in> set ps. \<exists>s''. sm_free_space (space_ops_at (Suc n)) False v m s' = Some (Inr (), s''))"
proof -
  have T: "T \<subseteq> {..<2 ^ 63}" using assms(1) by (simp add: base_has_def)
  have "shared s oid objid c a T []" using assms(1) by (auto simp: shared_def)
  from space_steps_shared [OF assms(3) this assms(2) T] have sh: "shared s' oid objid c a T ps" .
  have "\<exists>s''. sm_free_space (space_ops_at (Suc n)) False v m s' = Some (Inr (), s'')" if vm: "(v, m) \<in> set ps" for v m
  proof -
    obtain qs rs where "ps = qs @ (v, m) # rs" using split_list [OF vm] by blast
    then show ?thesis using shared_free [of s' oid objid c a T qs v m rs n] sh assms(2) T by blast
  qed
  moreover have "\<exists>r s''. sm_alloc_space (space_ops_at (Suc n)) False cnt s' = Some (r, s'')" if "cnt \<noteq> 0" for cnt
    using shared_alloc [OF sh assms(2) that, of n] by blast
  ultimately show ?thesis using sh unfolding shared_def by blast
qed

theorem base_blocks_one_owner_witness:
  "\<exists>m v s' F. sm_alloc_space (space_ops_at 2) False 3 sp_state = Some (Inr (m, v), s') \<and> m \<noteq> 0 \<and>
     base_has s' 1 200 1 3722 F \<and> F \<inter> run v m = {} \<and> F \<union> run v m = {100..<108}"
proof -
  obtain m v s' where r: "sm_alloc_space (space_ops_at (Suc 1)) False 3 sp_state = Some (Inr (m, v), s')"
    using base_alloc_step [OF sp_base_has sp_room, of 3 1] by (auto simp del: space_ops_at.simps)
  then have "space_step (space_ops_at (Suc 1)) (sp_state, []) (s', [(v, m)])" by (intro space_step.take) simp_all
  then have "(space_step (space_ops_at (Suc 1)))\<^sup>*\<^sup>* (sp_state, []) (s', [(v, m)])" by (rule r_into_rtranclp)
  from base_blocks_one_owner [OF sp_base_has sp_room this] show ?thesis
    unfolding level_2 using r by (auto simp del: space_ops_at.simps One_nat_def)
qed

text \<open>C16: freeing base blocks some of which are free already is reported as a success: the table stays as it is,
  but the counter of free blocks grows by the number given, so it no longer agrees with the table.\<close>

theorem base_free_twice:
  assumes "base_has s oid objid c a F" "m \<noteq> 0" "unat v + unat m \<le> 2 ^ 63" "run v m \<inter> F \<noteq> {}"
  shows "\<exists>s' es. sm_free_space ops False v m s = Some (Inr (), s') \<and>
    free_table s' (sm_space_obj (ct_bsm s')) oid c a es \<and> blocks (entries es) = F \<and>
    sm_total_free_blocks (ct_bsm s') = sm_total_free_blocks (ct_bsm s) + ucast m"
  by (rule base_free_overlap [OF assms])

theorem base_free_twice_witness:
  "\<exists>s' es. sm_free_space ct_ops False 104 2 sp_state = Some (Inr (), s') \<and>
     blocks (entries es) = {100..<108} \<and> sm_total_free_blocks (ct_bsm s') = 10"
proof -
  have "104 \<in> run 104 2 \<inter> {100..<108}" by (simp add: run_def)
  then have "run 104 2 \<inter> {100..<108} \<noteq> {}" by blast
  from base_free_twice [OF sp_base_has _ _ this, of ct_ops] show ?thesis by auto
qed

end
