(* ===== verification/Ini.thy ===== *)
theory Ini
  imports Utils
begin

text \<open>
  Ini files, \<open>public/ini.c\<close>: a file is read into a buffer of \<open>INI_MAX_FILE_SIZE\<close> bytes, whose rest is
  what \<open>malloc\<close> left there; sections and keys are found by index. Reading or writing outside a buffer has no
  result. Of the two versions of \<open>ParseFile\<close> the one that is compiled is modelled.
\<close>

section \<open>Buffers and characters\<close>

definition INI_MAX_FILE_SIZE :: nat where "INI_MAX_FILE_SIZE = 1024 * 16"
definition INT_VALUE_LEN :: nat where "INT_VALUE_LEN = 32"

definition LEFT_BRACE :: u8 where "LEFT_BRACE = 0x5B"
definition RIGHT_BRACE :: u8 where "RIGHT_BRACE = 0x5D"
definition LINE_CHANGE :: u8 where "LINE_CHANGE = 0x0A"
definition LINE_END :: u8 where "LINE_END = 0x0D"
definition EQUALS :: u8 where "EQUALS = 0x3D"
definition COMMENT :: u8 where "COMMENT = 0x3B"

lemmas ini_chars = LEFT_BRACE_def RIGHT_BRACE_def LINE_CHANGE_def LINE_END_def EQUALS_def COMMENT_def

definition IsNewLine :: "u8 \<Rightarrow> bool" where "IsNewLine c \<longleftrightarrow> c = LINE_CHANGE \<or> c = LINE_END"
definition IsStrEnd :: "u8 \<Rightarrow> bool" where "IsStrEnd c \<longleftrightarrow> c = 0"
definition IsLeftBrace :: "u8 \<Rightarrow> bool" where "IsLeftBrace c \<longleftrightarrow> c = LEFT_BRACE"
definition IsRightBrace :: "u8 \<Rightarrow> bool" where "IsRightBrace c \<longleftrightarrow> c = RIGHT_BRACE"

lemmas ini_tests = IsNewLine_def IsStrEnd_def IsLeftBrace_def IsRightBrace_def c_isspace_def

datatype ini_err = INI_ERR_OPEN_FILE_FOR_READ | INI_ERR_OPEN_FILE_FOR_WRITE | INI_ERR_WRITE_FILE
  | INI_ERR_LOAD_FILE | INI_ERR_PARSE_FILE | INI_ERR_MALLOC | INI_ERR_FILE_TOO_LARGE
  | INI_ERR_NO_FILE_NAME | INI_ERR_NO_SECTION | INI_ERR_NO_KEY | INI_ERR_NO_VALUE

text \<open>A return code: 0, a positive one (the default was used) or a negative one.\<close>

datatype ini_ret = Ret_ok | Ret_default ini_err | Ret_err ini_err

text \<open>\<open>memcpy\<close> into a buffer.\<close>

definition copy_to :: "u8 list \<Rightarrow> nat \<Rightarrow> u8 list \<Rightarrow> u8 list option" where
  "copy_to buf off bs =
     (if off + length bs \<le> length buf then Some (take off buf @ bs @ drop (off + length bs) buf) else None)"

text \<open>The files by name. What the system does: two \<open>malloc\<close>s, opening for writing, writing, what a failed write left.\<close>

type_synonym ini_fs = "u8 list \<rightharpoonup> u8 list"

record ini_io =
  io_mem :: bool
  io_mem2 :: bool
  io_open_w :: bool
  io_puts :: bool
  io_left :: "u8 list"
  io_junk :: "u8 list"

section \<open>Reading and writing the file\<close>

fun load_chars :: "u8 list \<Rightarrow> nat \<Rightarrow> u8 list \<Rightarrow> ini_err + u8 list \<times> nat" where
  "load_chars buf i [] = Inr (buf[i := 0], i)"
| "load_chars buf i (c # cs) =
     (if c = 0xFF then Inr (buf[i := 0], i)
      else if INI_MAX_FILE_SIZE \<le> Suc i then Inl INI_ERR_FILE_TOO_LARGE
      else load_chars (buf[i := c]) (Suc i) cs)"

definition LoadIniFile :: "ini_fs \<Rightarrow> u8 list \<Rightarrow> u8 list \<Rightarrow> ini_err + u8 list \<times> nat" where
  "LoadIniFile fs name buf =
     (case fs name of None \<Rightarrow> Inl INI_ERR_OPEN_FILE_FOR_READ | Some bs \<Rightarrow> load_chars buf 0 bs)"

text \<open>\<open>fputs\<close> writes up to the zero byte, which must be in the buffer.\<close>

definition SaveIniFile :: "ini_io \<Rightarrow> ini_fs \<Rightarrow> u8 list \<Rightarrow> u8 list \<Rightarrow> (ini_ret \<times> ini_fs) option" where
  "SaveIniFile io fs name buf =
     (if \<not> io_open_w io then Some (Ret_err INI_ERR_OPEN_FILE_FOR_WRITE, fs)
      else if 0 \<notin> set buf then None
      else if io_puts io then Some (Ret_ok, fs(name \<mapsto> takeWhile (\<lambda>c. c \<noteq> 0) buf))
      else Some (Ret_err INI_ERR_WRITE_FILE, fs(name \<mapsto> io_left io)))"

section \<open>Finding a section and a key\<close>

text \<open>The first index from \<open>i\<close> on with a byte that satisfies \<open>P\<close>.\<close>

function seek :: "(u8 \<Rightarrow> bool) \<Rightarrow> u8 list \<Rightarrow> nat \<Rightarrow> nat option" where
  "seek P p i = (if i < length p then if P (p ! i) then Some i else seek P p (Suc i) else None)"
  by pat_completeness auto
termination by (relation "measure (\<lambda>(P, p, i). length p - i)") auto

definition seek_brace :: "u8 list \<Rightarrow> nat \<Rightarrow> nat option" where
  "seek_brace = seek (\<lambda>c. IsRightBrace c \<or> IsStrEnd c)"
definition skip_space :: "u8 list \<Rightarrow> nat \<Rightarrow> nat option" where
  "skip_space = seek (\<lambda>c. \<not> c_isspace c)"
definition line_end :: "u8 list \<Rightarrow> nat \<Rightarrow> nat option" where
  "line_end = seek (\<lambda>c. IsNewLine c \<or> IsStrEnd c)"

text \<open>The key of the line from \<open>start\<close> to \<open>e\<close>: \<open>Some (Some j)\<close> when it is \<open>key\<close> with the sign at \<open>j\<close>.\<close>

function key_scan :: "u8 list \<Rightarrow> u8 list \<Rightarrow> nat \<Rightarrow> nat \<Rightarrow> nat \<Rightarrow> nat option option" where
  "key_scan p key start j e =
     (if j < e then
        if length p \<le> Suc j then None
        else if p ! j = EQUALS then Some None
        else if p ! Suc j = EQUALS \<and> take (Suc j - start) (drop start p) = key then Some (Some (Suc j))
        else key_scan p key start (Suc j) e
      else Some None)"
  by pat_completeness auto
termination by (relation "measure (\<lambda>(p, key, start, j, e). e - j)") auto

declare seek.simps [simp del]

lemma seek_ge: "seek P p i = Some e \<Longrightarrow> i \<le> e \<and> e < length p"
proof (induction P p i rule: seek.induct)
  case (1 P p i)
  then show ?case using seek.simps [of P p i] by (auto split: if_splits)
qed

declare key_scan.simps [simp del]

text \<open>The lines of a section: where they end, or the start of the line, its sign and its end.\<close>

function section_lines :: "u8 list \<Rightarrow> u8 list \<Rightarrow> nat \<Rightarrow> (nat + nat \<times> nat \<times> nat) option" where
  "section_lines p key i =
     (if i = 0 \<or> length p \<le> i then None
      else if IsNewLine (p ! (i - 1)) \<and> IsLeftBrace (p ! i) \<or> IsStrEnd (p ! i) then Some (Inl i)
      else case line_end p i of
        None \<Rightarrow> None
      | Some e \<Rightarrow>
          (case (if p ! i = COMMENT then Some None else key_scan p key i i e) of
             None \<Rightarrow> None
           | Some (Some j) \<Rightarrow> Some (Inr (i, j, e))
           | Some None \<Rightarrow> section_lines p key (Suc e)))"
  by pat_completeness auto
termination
  by (relation "measure (\<lambda>(p, key, i). length p - i)") (auto simp: line_end_def dest!: seek_ge)

declare section_lines.simps [simp del]

lemma section_lines_ge: "section_lines p key i = Some (Inl i') \<Longrightarrow> i \<le> i' \<and> i' < length p"
proof (induction p key i rule: section_lines.induct)
  case (1 p key i)
  show ?case
  proof (cases "i = 0 \<or> length p \<le> i \<or> IsNewLine (p ! (i - 1)) \<and> IsLeftBrace (p ! i) \<or> IsStrEnd (p ! i)")
    case True
    then show ?thesis using 1(2) by (subst (asm) (1) section_lines.simps) (auto split: if_splits)
  next
    case False
    then obtain e where e: "line_end p i = Some e" and
      "(if p ! i = COMMENT then Some None else key_scan p key i i e) = Some None" and
      "section_lines p key (Suc e) = Some (Inl i')"
      using 1(2) by (subst (asm) (1) section_lines.simps) (simp split: option.splits if_splits)
    then have "Suc e \<le> i' \<and> i' < length p" using 1(1) False by simp
    then show ?thesis using e seek_ge unfolding line_end_def by fastforce
  qed
qed

record ini_pos =
  ip_sec :: "(nat \<times> nat) option"
  ip_key :: "(nat \<times> nat \<times> nat \<times> nat) option"

function parse_file_loop :: "u8 list \<Rightarrow> u8 list \<Rightarrow> u8 list \<Rightarrow> nat \<Rightarrow> ini_pos \<Rightarrow> (bool \<times> ini_pos) option" where
  "parse_file_loop p sec key i r =
     (if length p \<le> i then None
      else if IsStrEnd (p ! i) then Some (False, r)
      else if (i = 0 \<or> IsNewLine (p ! (i - 1))) \<and> IsLeftBrace (p ! i) then
        (case seek_brace p (Suc i) of
           None \<Rightarrow> None
         | Some e \<Rightarrow>
             if take (e - Suc i) (drop (Suc i) p) = sec then
               (case skip_space p (Suc e) of
                  None \<Rightarrow> None
                | Some b \<Rightarrow>
                    (case section_lines p key b of
                       None \<Rightarrow> None
                     | Some (Inr (k, j, v)) \<Rightarrow>
                         Some (True, \<lparr> ip_sec = Some (Suc i, b), ip_key = Some (k, j - 1, Suc j, v) \<rparr>)
                     | Some (Inl i') \<Rightarrow> parse_file_loop p sec key i' (r\<lparr> ip_sec := Some (Suc i, b) \<rparr>)))
             else parse_file_loop p sec key e r)
      else parse_file_loop p sec key (Suc i) r)"
  by pat_completeness auto
termination
  by (relation "measure (\<lambda>(p, sec, key, i, r). length p - i)")
     (auto simp: seek_brace_def skip_space_def dest!: seek_ge section_lines_ge)

declare parse_file_loop.simps [simp del]

definition ParseFile :: "u8 list \<Rightarrow> u8 list \<Rightarrow> u8 list \<Rightarrow> (bool \<times> ini_pos) option" where
  "ParseFile p sec key =
     (if sec = [] \<or> key = [] then None else parse_file_loop p sec key 0 \<lparr> ip_sec = None, ip_key = None \<rparr>)"

section \<open>The interface\<close>

text \<open>\<open>strncpy\<close>: padded with zeros, not ended by one when the string is too long.\<close>

definition strncpy :: "u8 list \<Rightarrow> u8 list \<Rightarrow> nat \<Rightarrow> u8 list option" where
  "strncpy val str n = copy_to val 0 (take n (str @ replicate n 0))"

text \<open>A pointer argument is \<open>None\<close> for NULL; strings are without their final zero byte.\<close>

definition or_default :: "u8 list option \<Rightarrow> u8 list \<Rightarrow> nat \<Rightarrow> ini_err \<Rightarrow> (ini_ret \<times> u8 list) option" where
  "or_default dflt val n err =
     (case dflt of
        Some d \<Rightarrow> map_option (\<lambda>val. (Ret_default err, val)) (strncpy val d n)
      | None \<Rightarrow> Some (Ret_err err, val))"

definition IniReadString :: "ini_io \<Rightarrow> ini_fs \<Rightarrow> u8 list option \<Rightarrow> u8 list option \<Rightarrow> u8 list option \<Rightarrow>
    u8 list option \<Rightarrow> int \<Rightarrow> u8 list option \<Rightarrow> (ini_ret \<times> u8 list) option" where
  "IniReadString io fs name sec key val vsize dflt =
     (let out = case_option [] id val in
      if name = None \<or> name = Some [] then Some (Ret_err INI_ERR_NO_FILE_NAME, out)
      else if sec = None \<or> sec = Some [] then Some (Ret_err INI_ERR_NO_SECTION, out)
      else if key = None \<or> key = Some [] then Some (Ret_err INI_ERR_NO_KEY, out)
      else if val = None \<or> vsize \<le> 0 then Some (Ret_err INI_ERR_NO_VALUE, out)
      else if \<not> io_mem io then Some (Ret_err INI_ERR_MALLOC, out)
      else case LoadIniFile fs (the name) (io_junk io) of
        Inl _ \<Rightarrow> or_default dflt out (nat vsize) INI_ERR_LOAD_FILE
      | Inr (p, n) \<Rightarrow>
          (case ParseFile p (the sec) (the key) of
             None \<Rightarrow> None
           | Some (False, _) \<Rightarrow> or_default dflt out (nat vsize) INI_ERR_PARSE_FILE
           | Some (True, r) \<Rightarrow>
               (case ip_key r of
                  None \<Rightarrow> None
                | Some (_, _, v, e) \<Rightarrow>
                    (let cnt = min (e - v) (nat vsize - 1) in
                     map_option (\<lambda>val. (Ret_ok, val)) (copy_to out 0 (take cnt (drop v p) @ [0]))))))"

text \<open>\<open>sprintf\<close> and the three \<open>memcpy\<close> cases; the positions are known only after a successful load.\<close>

definition key_line :: "u8 list \<Rightarrow> u8 list \<Rightarrow> u8 list" where
  "key_line key v = key @ [EQUALS] @ v @ [LINE_CHANGE]"

definition section_text :: "u8 list \<Rightarrow> u8 list \<Rightarrow> u8 list \<Rightarrow> u8 list" where
  "section_text sec key v = [LEFT_BRACE] @ sec @ [RIGHT_BRACE, LINE_CHANGE] @ key_line key v"

definition new_text :: "u8 list \<Rightarrow> nat \<Rightarrow> ini_pos \<Rightarrow> u8 list \<Rightarrow> u8 list \<Rightarrow> u8 list \<Rightarrow> u8 list option" where
  "new_text p n r sec key v =
     (let w = replicate INI_MAX_FILE_SIZE 0 in
      case ip_sec r of
        None \<Rightarrow>
          if n = 0 then copy_to w 0 (section_text sec key v @ [0])
          else Option.bind (copy_to w 0 (take n p))
            (\<lambda>w. copy_to w n ([LINE_CHANGE] @ section_text sec key v @ [0]))
      | Some (_, b) \<Rightarrow>
          (case ip_key r of
             None \<Rightarrow>
               if n < b then None
               else Option.bind (copy_to w 0 (take b p))
                 (\<lambda>w. Option.bind (copy_to w b (key_line key v @ [0]))
                   (\<lambda>w. copy_to w (b + length key + length v + 2) (take (n - b) (drop b p))))
           | Some (_, _, vs, ve) \<Rightarrow>
               if n < ve then None
               else Option.bind (copy_to w 0 (take vs p))
                 (\<lambda>w. Option.bind (copy_to w vs v)
                   (\<lambda>w. copy_to w (vs + length v) (take (n - ve) (drop ve p))))))"

definition IniWriteString :: "ini_io \<Rightarrow> ini_fs \<Rightarrow> u8 list option \<Rightarrow> u8 list option \<Rightarrow> u8 list option \<Rightarrow>
    u8 list option \<Rightarrow> (ini_ret \<times> ini_fs) option" where
  "IniWriteString io fs name sec key val =
     (if val = None then None
      else if name = None \<or> name = Some [] then Some (Ret_err INI_ERR_NO_FILE_NAME, fs)
      else if sec = None \<or> sec = Some [] then Some (Ret_err INI_ERR_NO_SECTION, fs)
      else if key = None \<or> key = Some [] then Some (Ret_err INI_ERR_NO_KEY, fs)
      else if \<not> io_mem io \<or> \<not> io_mem2 io then Some (Ret_err INI_ERR_MALLOC, fs)
      else
        let loaded = (case LoadIniFile fs (the name) (io_junk io) of
              Inl _ \<Rightarrow> Some (io_junk io, 0, \<lparr> ip_sec = None, ip_key = None \<rparr>)
            | Inr (p, n) \<Rightarrow> map_option (\<lambda>(_, r). (p, n, r)) (ParseFile p (the sec) (the key)))
        in Option.bind loaded (\<lambda>(p, n, r).
           Option.bind (new_text p n r (the sec) (the key) (the val)) (\<lambda>w.
             SaveIniFile io fs (the name) w)))"

text \<open>\<open>atoi\<close> of the C library; outside the range of \<open>int\<close> it has no result.\<close>

definition digits_val :: "u8 list \<Rightarrow> nat" where
  "digits_val ds = foldl (\<lambda>n d. 10 * n + (unat d - 48)) 0 ds"

definition atoi :: "u8 list \<Rightarrow> int option" where
  "atoi str =
     (let s = dropWhile c_isspace str;
          neg = s \<noteq> [] \<and> hd s = 0x2D;
          s = (if s \<noteq> [] \<and> (hd s = 0x2D \<or> hd s = 0x2B) then tl s else s);
          n = int (digits_val (takeWhile (\<lambda>c. 0x30 \<le> c \<and> c \<le> 0x39) s));
          z = (if neg then - n else n)
      in if - (2 ^ 31) \<le> z \<and> z < 2 ^ 31 then Some z else None)"

definition IniReadInt :: "ini_io \<Rightarrow> ini_fs \<Rightarrow> u8 list option \<Rightarrow> u8 list option \<Rightarrow> u8 list option \<Rightarrow> int \<Rightarrow> int option" where
  "IniReadInt io fs name sec key dflt =
     (case IniReadString io fs name sec key (Some (replicate INT_VALUE_LEN 0)) (int INT_VALUE_LEN) None of
        None \<Rightarrow> None
      | Some (Ret_ok, val) \<Rightarrow> atoi val
      | Some (_, val) \<Rightarrow> Some dflt)"

end
