(* ===== verification/IniSpec.thy ===== *)
theory IniSpec
  imports Ini
begin

text \<open>
  What \<open>public/ini.c\<close> promises: a file is a preamble and sections of lines \<open>key=value\<close>; reading looks a key
  up in the sections, writing replaces or adds it.
\<close>

section \<open>Ini files as data\<close>

text \<open>A section is its name and the text from the closing brace to the next section.\<close>

type_synonym ini_section = "u8 list \<times> u8 list"
type_synonym ini = "u8 list \<times> ini_section list"

definition render_section :: "ini_section \<Rightarrow> u8 list" where
  "render_section s = LEFT_BRACE # fst s @ RIGHT_BRACE # snd s"
definition render :: "ini \<Rightarrow> u8 list" where
  "render f = fst f @ concat (map render_section (snd f))"

text \<open>Text without zero bytes, 0xFF and lines that open a section; \<open>s\<close> tells whether a line starts.\<close>

fun quiet :: "bool \<Rightarrow> u8 list \<Rightarrow> bool" where
  "quiet s [] = True"
| "quiet s (c # cs) = (c \<noteq> 0 \<and> c \<noteq> 0xFF \<and> \<not> (s \<and> IsLeftBrace c) \<and> quiet (IsNewLine c) cs)"

definition ended :: "u8 list \<Rightarrow> bool" where "ended t \<longleftrightarrow> t \<noteq> [] \<and> IsNewLine (last t)"
definition plain :: "u8 list \<Rightarrow> bool" where "plain t \<longleftrightarrow> 0 \<notin> set t \<and> 0xFF \<notin> set t"

text \<open>The blanks behind the closing brace, and what follows them.\<close>

abbreviation gap :: "u8 list \<Rightarrow> u8 list" where "gap b \<equiv> takeWhile c_isspace b"
abbreviation entries :: "u8 list \<Rightarrow> u8 list" where "entries b \<equiv> dropWhile c_isspace b"

definition section_ok :: "ini_section \<Rightarrow> bool" where
  "section_ok s \<longleftrightarrow> plain (fst s) \<and> RIGHT_BRACE \<notin> set (fst s) \<and> quiet True (entries (snd s)) \<and> ended (snd s)"
definition ini_ok :: "ini \<Rightarrow> bool" where
  "ini_ok f \<longleftrightarrow> quiet True (fst f) \<and> (fst f = [] \<or> ended (fst f)) \<and> list_all section_ok (snd f)"

text \<open>A line that gives \<open>key\<close> a value, and the first such line of a text: before the key, the value, the rest.\<close>

definition entry_line :: "u8 list \<Rightarrow> u8 list \<Rightarrow> bool" where
  "entry_line key l \<longleftrightarrow> l \<noteq> [] \<and> hd l \<noteq> COMMENT \<and> key \<noteq> [] \<and> EQUALS \<in> set l \<and>
     takeWhile (\<lambda>c. c \<noteq> EQUALS) l = key"

function find_line :: "u8 list \<Rightarrow> u8 list \<Rightarrow> (u8 list \<times> u8 list \<times> u8 list) option" where
  "find_line key t =
     (if t = [] then None
      else let l = takeWhile (\<lambda>c. \<not> IsNewLine c) t; y = dropWhile (\<lambda>c. \<not> IsNewLine c) t in
        if entry_line key l then Some ([], tl (dropWhile (\<lambda>c. c \<noteq> EQUALS) l), y)
        else map_option (\<lambda>(x, v, z). (l @ take 1 y @ x, v, z)) (find_line key (tl y)))"
  by pat_completeness auto
termination
proof (relation "measure (\<lambda>(key, t). length t)", goal_cases)
  case (2 key t l y)
  then have "length y \<le> length t" by (simp add: length_dropWhile_le)
  moreover have "0 < length t" using 2 by simp
  ultimately show ?case by (simp only: in_measure prod.case length_tl)
qed simp

declare find_line.simps [simp del]

text \<open>The first section of the name that has the key gives the value.\<close>

fun get_in :: "u8 list \<Rightarrow> u8 list \<Rightarrow> ini_section list \<Rightarrow> u8 list option" where
  "get_in sec key [] = None"
| "get_in sec key ((n, b) # ss) =
     (if n = sec then
        (case find_line key (entries b) of Some (x, v, y) \<Rightarrow> Some v | None \<Rightarrow> get_in sec key ss)
      else get_in sec key ss)"

definition get_value :: "u8 list \<Rightarrow> u8 list \<Rightarrow> ini \<Rightarrow> u8 list option" where
  "get_value sec key f = get_in sec key (snd f)"

text \<open>Replacing that value; adding a line to the last section of the name; adding a section.\<close>

fun replace_in :: "u8 list \<Rightarrow> u8 list \<Rightarrow> u8 list \<Rightarrow> ini_section list \<Rightarrow> ini_section list" where
  "replace_in sec key v [] = []"
| "replace_in sec key v ((n, b) # ss) =
     (case (if n = sec then find_line key (entries b) else None) of
        Some (x, _, y) \<Rightarrow> (n, gap b @ x @ key @ [EQUALS] @ v @ y) # ss
      | None \<Rightarrow> (n, b) # replace_in sec key v ss)"

fun insert_in :: "u8 list \<Rightarrow> u8 list \<Rightarrow> u8 list \<Rightarrow> ini_section list \<Rightarrow> ini_section list" where
  "insert_in sec key v [] = []"
| "insert_in sec key v ((n, b) # ss) =
     (if n = sec \<and> sec \<notin> fst ` set ss then (n, gap b @ key_line key v @ entries b) # ss
      else (n, b) # insert_in sec key v ss)"

fun add_line_end :: "ini_section list \<Rightarrow> ini_section list" where
  "add_line_end [] = []"
| "add_line_end [(n, b)] = [(n, b @ [LINE_CHANGE])]"
| "add_line_end (s # ss) = s # add_line_end ss"

definition add_section :: "u8 list \<Rightarrow> u8 list \<Rightarrow> u8 list \<Rightarrow> ini \<Rightarrow> ini" where
  "add_section sec key v f =
     (let s = (sec, LINE_CHANGE # key_line key v) in
      if snd f = [] then (if fst f = [] then [] else fst f @ [LINE_CHANGE], [s])
      else (fst f, add_line_end (snd f) @ [s]))"

definition put_value :: "u8 list \<Rightarrow> u8 list \<Rightarrow> u8 list \<Rightarrow> ini \<Rightarrow> ini" where
  "put_value sec key v f =
     (if get_value sec key f \<noteq> None then (fst f, replace_in sec key v (snd f))
      else if sec \<in> fst ` set (snd f) then (fst f, insert_in sec key v (snd f))
      else add_section sec key v f)"

text \<open>Section names, keys and values that can be written.\<close>

definition key_ok :: "u8 list \<Rightarrow> bool" where
  "key_ok key \<longleftrightarrow> key \<noteq> [] \<and> plain key \<and> EQUALS \<notin> set key \<and> (\<forall>c\<in>set key. \<not> IsNewLine c) \<and>
     hd key \<noteq> COMMENT \<and> \<not> IsLeftBrace (hd key) \<and> \<not> c_isspace (hd key)"
definition value_ok :: "u8 list \<Rightarrow> bool" where
  "value_ok v \<longleftrightarrow> plain v \<and> (\<forall>c\<in>set v. \<not> IsNewLine c)"
definition name_ok :: "u8 list \<Rightarrow> bool" where
  "name_ok n \<longleftrightarrow> n \<noteq> [] \<and> plain n \<and> RIGHT_BRACE \<notin> set n"

section \<open>Text\<close>

lemma char_classes [simp]:
  "\<not> IsNewLine EQUALS" "IsNewLine LINE_CHANGE" "\<not> IsLeftBrace EQUALS" "\<not> IsLeftBrace LINE_CHANGE"
  "EQUALS \<noteq> 0" "EQUALS \<noteq> 255" "LINE_CHANGE \<noteq> 0" "LINE_CHANGE \<noteq> 255" "c_isspace LINE_CHANGE"
  "\<not> IsNewLine RIGHT_BRACE" "\<not> c_isspace LEFT_BRACE" "\<not> c_isspace 0" "IsRightBrace RIGHT_BRACE" "IsLeftBrace LEFT_BRACE"
  by (simp_all add: ini_tests ini_chars c_isspace_def)

lemma newline_class: "IsNewLine n \<Longrightarrow> \<not> IsLeftBrace n \<and> n \<noteq> EQUALS"
  by (auto simp: ini_tests ini_chars)

lemma quiet_append: "quiet s (a @ b) \<longleftrightarrow> quiet s a \<and> quiet (if a = [] then s else IsNewLine (last a)) b"
  by (induction a arbitrary: s) auto

lemma quiet_mono: "quiet True t \<Longrightarrow> quiet s t"
  by (cases t) auto

lemma quiet_plain: "quiet s t \<Longrightarrow> plain t"
  by (induction s t rule: quiet.induct) (auto simp: plain_def)

lemma plain_quiet: "plain t \<Longrightarrow> \<forall>c\<in>set t. \<not> IsNewLine c \<Longrightarrow> quiet False t"
  by (induction t) (auto simp: plain_def)

lemma plain_simps [simp]:
  "plain []" "plain (c # t) \<longleftrightarrow> c \<noteq> 0 \<and> c \<noteq> 0xFF \<and> plain t" "plain (a @ b) \<longleftrightarrow> plain a \<and> plain b"
  by (auto simp: plain_def)

lemma plain_concat [simp]: "plain (concat tt) \<longleftrightarrow> (\<forall>t\<in>set tt. plain t)"
  by (auto simp: plain_def)

lemma quiet_gap: "\<forall>c\<in>set g. c_isspace c \<Longrightarrow> quiet s g"
proof (induction g arbitrary: s)
  case (Cons c g)
  then have "c_isspace c" "quiet (IsNewLine c) g" by simp_all
  then show ?case by (auto simp: c_isspace_def IsLeftBrace_def ini_chars)
qed simp

lemma quiet_body: "quiet True (entries b) \<Longrightarrow> quiet s b"
  by (subst takeWhile_dropWhile_id [of c_isspace b, symmetric], subst quiet_append)
     (auto intro: quiet_gap quiet_mono dest: set_takeWhileD)

lemma render_plain: "ini_ok f \<Longrightarrow> plain (render f)"
  by (auto simp: ini_ok_def render_def render_section_def section_ok_def list_all_iff ini_chars
      dest: quiet_plain quiet_body [of _ False])

lemma first_line:
  assumes "ended t"
  obtains l n r where "t = l @ n # r" "\<forall>c\<in>set l. \<not> IsNewLine c" "IsNewLine n"
    "takeWhile (\<lambda>c. \<not> IsNewLine c) t = l" "dropWhile (\<lambda>c. \<not> IsNewLine c) t = n # r" "r = [] \<or> ended r"
proof -
  let ?l = "takeWhile (\<lambda>c. \<not> IsNewLine c) t" and ?y = "dropWhile (\<lambda>c. \<not> IsNewLine c) t"
  have ne: "?y \<noteq> []" using assms last_in_set by (fastforce simp: ended_def)
  have t: "t = ?l @ hd ?y # tl ?y" using ne by simp
  show ?thesis
  proof (rule that [OF t])
    show "tl ?y = [] \<or> ended (tl ?y)"
      using assms ne t by (metis ended_def last_ConsR last_appendR list.distinct(1))
    show "IsNewLine (hd ?y)" using ne hd_dropWhile by blast
  qed (use ne in \<open>auto dest: set_takeWhileD\<close>)
qed

lemma find_line_Nil [simp]: "find_line key [] = None"
  by (simp add: find_line.simps)

lemma find_line_step:
  assumes "\<forall>c\<in>set l. \<not> IsNewLine c" "IsNewLine n"
  shows "find_line key (l @ n # r) =
    (if entry_line key l then Some ([], tl (dropWhile (\<lambda>c. c \<noteq> EQUALS) l), n # r)
     else map_option (\<lambda>(x, v, z). (l @ n # x, v, z)) (find_line key r))"
proof -
  have "takeWhile (\<lambda>c. \<not> IsNewLine c) (l @ n # r) = l" "dropWhile (\<lambda>c. \<not> IsNewLine c) (l @ n # r) = n # r"
    using assms by (simp_all add: takeWhile_tail dropWhile_append3)
  then show ?thesis by (subst find_line.simps) (simp add: Let_def case_prod_unfold)
qed

lemma ended_induct [consumes 1, case_names Nil line]:
  assumes "t = [] \<or> ended t" "P []"
    and "\<And>l n r. \<forall>c\<in>set l. \<not> IsNewLine c \<Longrightarrow> IsNewLine n \<Longrightarrow> r = [] \<or> ended r \<Longrightarrow> P r \<Longrightarrow> P (l @ n # r)"
  shows "P t"
  using assms(1)
proof (induction "length t" arbitrary: t rule: less_induct)
  case less
  show ?case
  proof (cases "t = []")
    case False
    then have "ended t" using less.prems by simp
    then obtain l n r where t: "t = l @ n # r" and h: "\<forall>c\<in>set l. \<not> IsNewLine c" "IsNewLine n" "r = [] \<or> ended r"
      by (rule first_line)
    have "P r" using less.hyps [of r] h(3) t by simp
    then show ?thesis using assms(3) [OF h] t by simp
  qed (simp add: assms(2))
qed

text \<open>An entry line is the key, the sign and the value.\<close>

lemma entry_line_split:
  assumes "entry_line key l"
  shows "l = key @ EQUALS # tl (dropWhile (\<lambda>c. c \<noteq> EQUALS) l)"
proof -
  have "dropWhile (\<lambda>c. c \<noteq> EQUALS) l \<noteq> []" using assms by (simp add: entry_line_def)
  then have "hd (dropWhile (\<lambda>c. c \<noteq> EQUALS) l) = EQUALS" using hd_dropWhile by blast
  then show ?thesis using assms \<open>dropWhile _ l \<noteq> []\<close> unfolding entry_line_def
    by (metis list.collapse takeWhile_dropWhile_id)
qed

lemma entry_lineI: "key_ok key \<Longrightarrow> entry_line key (key @ EQUALS # v)"
  by (cases key) (auto simp: entry_line_def key_ok_def takeWhile_tail)

lemma entry_line_key: "entry_line key (key' @ EQUALS # v) \<Longrightarrow> EQUALS \<notin> set key' \<Longrightarrow> key = key'"
  by (auto simp: entry_line_def takeWhile_tail)

lemma find_line_split:
  assumes "t = [] \<or> ended t" "find_line key t = Some (x, v, y)"
  shows "t = x @ key @ EQUALS # v @ y \<and> ended y \<and> (\<forall>c\<in>set v. \<not> IsNewLine c) \<and> IsNewLine (hd y) \<and>
    (x = [] \<or> ended x) \<and> (\<forall>c\<in>set key. \<not> IsNewLine c) \<and> EQUALS \<notin> set key \<and> key \<noteq> [] \<and> hd key \<noteq> COMMENT"
  using assms
proof (induction t arbitrary: x rule: ended_induct)
  case (line l n r)
  show ?case
  proof (cases "entry_line key l")
    case True
    have l: "l = key @ EQUALS # tl (dropWhile (\<lambda>c. c \<noteq> EQUALS) l)" by (rule entry_line_split [OF True])
    have k: "key \<noteq> []" "hd l \<noteq> COMMENT" "takeWhile (\<lambda>c. c \<noteq> EQUALS) l = key" using True by (auto simp: entry_line_def)
    have "EQUALS \<notin> set key" using k(3) by (metis (mono_tags) set_takeWhileD)
    moreover have "hd key = hd l" using k(1) l by (metis hd_append2)
    moreover have "x = []" "v = tl (dropWhile (\<lambda>c. c \<noteq> EQUALS) l)" "y = n # r"
      using line(5) True by (simp_all add: find_line_step line(1,2))
    ultimately show ?thesis using l k(1,2) line(1-3)
      by (metis (no_types, lifting) append.left_neutral append_Cons append_assoc ended_def in_set_conv_decomp
          last_ConsL last_ConsR list.sel(1) list.distinct(1) Un_iff set_append list.set_intros(2))
  next
    case False
    then obtain x' where x: "x = l @ n # x'" and f: "find_line key r = Some (x', v, y)"
      using line(5) by (auto simp: find_line_step line(1,2))
    show ?thesis using line(4) [OF f] x line(2) by (auto simp: ended_def)
  qed
qed simp

section \<open>The laws of reading and writing\<close>

definition line_value :: "u8 list \<Rightarrow> u8 list \<Rightarrow> u8 list option" where
  "line_value key t = map_option (\<lambda>(x, v, y). v) (find_line key t)"

lemma find_line_append:
  "t1 = [] \<or> ended t1 \<Longrightarrow> find_line key (t1 @ t2) =
    (case find_line key t1 of Some (x, v, y) \<Rightarrow> Some (x, v, y @ t2)
     | None \<Rightarrow> map_option (\<lambda>(x, v, y). (t1 @ x, v, y)) (find_line key t2))"
proof (induction t1 rule: ended_induct)
  case Nil
  then show ?case by (cases "find_line key t2") auto
next
  case (line l n r)
  then show ?case
    by (cases "find_line key t2") (auto simp: find_line_step split: option.splits)
qed

lemma line_value_append:
  "t1 = [] \<or> ended t1 \<Longrightarrow> line_value key (t1 @ t2) =
    (case line_value key t1 of Some v \<Rightarrow> Some v | None \<Rightarrow> line_value key t2)"
  by (auto simp: line_value_def find_line_append option.map_comp comp_def case_prod_unfold split: option.splits)

lemma find_line_before:
  assumes "t = [] \<or> ended t" "find_line key t = Some (x, v, y)"
  shows "find_line key x = None"
  using assms
proof (induction t arbitrary: x rule: ended_induct)
  case (line l n r)
  then show ?case by (auto simp: find_line_step split: if_splits)
qed simp

lemma line_value_line:
  assumes "\<forall>c\<in>set key. \<not> IsNewLine c" "\<forall>c\<in>set v. \<not> IsNewLine c" "EQUALS \<notin> set key" "key \<noteq> []" "hd key \<noteq> COMMENT"
    "IsNewLine n"
  shows "line_value key' (key @ EQUALS # v @ n # r) = (if key' = key then Some v else line_value key' r)"
proof -
  have l: "find_line key' ((key @ EQUALS # v) @ n # r) =
    (if entry_line key' (key @ EQUALS # v) then Some ([], tl (dropWhile (\<lambda>c. c \<noteq> EQUALS) (key @ EQUALS # v)), n # r)
     else map_option (\<lambda>(x, v', z). ((key @ EQUALS # v) @ n # x, v', z)) (find_line key' r))"
    using assms by (intro find_line_step) (auto simp: IsNewLine_def ini_chars)
  have e: "entry_line key' (key @ EQUALS # v) \<longleftrightarrow> key' = key"
    using assms by (cases key) (auto simp: entry_line_def takeWhile_tail)
  have d: "tl (dropWhile (\<lambda>c. c \<noteq> EQUALS) (key @ EQUALS # v)) = v"
  proof -
    have "\<forall>c\<in>set key. c \<noteq> EQUALS" using assms(3) by auto
    then show ?thesis by (simp add: dropWhile_append2)
  qed
  show ?thesis using l unfolding e d by (auto simp: line_value_def option.map_comp comp_def case_prod_unfold)
qed

lemma entries_gap [simp]: "entries (gap b @ entries b) = entries b"
  by simp

lemma entries_append: "t \<noteq> [] \<Longrightarrow> \<not> c_isspace (hd t) \<Longrightarrow> entries (gap b @ t) = t"
  by (cases t) (auto dest: set_takeWhileD simp: dropWhile_append3)

lemma gap_append: "t \<noteq> [] \<Longrightarrow> \<not> c_isspace (hd t) \<Longrightarrow> gap (gap b @ t) = gap b"
  by (cases t) (auto dest: set_takeWhileD simp: takeWhile_tail)

lemma entries_ended: "ended b \<Longrightarrow> entries b = [] \<or> ended (entries b)"
  unfolding ended_def by (metis last_appendR takeWhile_dropWhile_id)

text \<open>The text of a section in which the value of \<open>key\<close> was replaced, or a line was added.\<close>

lemma replaced_entries:
  assumes "ended b" "find_line key (entries b) = Some (x, v0, y)"
  shows "entries (gap b @ x @ key @ EQUALS # v @ y) = x @ key @ EQUALS # v @ y"
    "gap (gap b @ x @ key @ EQUALS # v @ y) = gap b"
proof -
  have s: "entries b = x @ key @ EQUALS # v0 @ y" "key \<noteq> []"
    using find_line_split [OF entries_ended [OF assms(1)] assms(2)] by simp_all
  then have "entries b \<noteq> []" by simp
  then have "\<not> c_isspace (hd (entries b))" using hd_dropWhile by blast
  then have "\<not> c_isspace (hd (x @ key @ EQUALS # v @ y))" using s by (cases x) (auto simp: hd_append)
  moreover have "x @ key @ EQUALS # v @ y \<noteq> []" by simp
  ultimately show "entries (gap b @ x @ key @ EQUALS # v @ y) = x @ key @ EQUALS # v @ y"
    "gap (gap b @ x @ key @ EQUALS # v @ y) = gap b" by (metis entries_append, metis gap_append)
qed

lemma line_value_replaced:
  assumes "ended b" "find_line key (entries b) = Some (x, v0, y)" "\<forall>c\<in>set v. \<not> IsNewLine c"
  shows "line_value key' (entries (gap b @ x @ key @ EQUALS # v @ y)) =
    (if key' = key then Some v else line_value key' (entries b))"
proof -
  let ?s = "entries b"
  have e: "?s = [] \<or> ended ?s" by (rule entries_ended [OF assms(1)])
  note s = find_line_split [OF e assms(2)] and f = find_line_before [OF e assms(2)]
  then obtain n r where y: "y = n # r" "IsNewLine n" by (cases y) (auto simp: ended_def)
  have "line_value key' (x @ key @ EQUALS # w @ y) =
      (case line_value key' x of Some v \<Rightarrow> Some v | None \<Rightarrow> if key' = key then Some w else line_value key' r)"
    if "\<forall>c\<in>set w. \<not> IsNewLine c" for w
    using s y that line_value_line [of key w n key' r]
    by (auto simp: line_value_append split: option.split)
  from this [OF assms(3)] this [of v0] show ?thesis
    using s f unfolding replaced_entries(1) [OF assms(1,2)] by (auto simp: line_value_def split: option.splits)
qed

lemma key_line_facts:
  assumes "key_ok key"
  shows "entries (gap b @ key_line key v @ r) = key_line key v @ r"
  using assms by (intro entries_append) (auto simp: key_line_def key_ok_def)

lemma line_value_key_line:
  "key_ok key \<Longrightarrow> value_ok v \<Longrightarrow>
   line_value key' (key_line key v @ r) = (if key' = key then Some v else line_value key' r)"
  using line_value_line [of key v "LINE_CHANGE" key' r]
  by (simp add: key_line_def key_ok_def value_ok_def IsNewLine_def)

lemma get_in_step:
  "get_in sec key ((n, b) # ss) =
    (case (if n = sec then line_value key (entries b) else None) of Some v \<Rightarrow> Some v | None \<Rightarrow> get_in sec key ss)"
  by (auto simp: line_value_def split: option.splits)

lemma get_in_append:
  "get_in sec key (ss @ tt) = (case get_in sec key ss of Some v \<Rightarrow> Some v | None \<Rightarrow> get_in sec key tt)"
  by (induction sec key ss rule: get_in.induct) (auto split: option.splits)

lemma get_in_none: "sec \<notin> fst ` set ss \<Longrightarrow> get_in sec key ss = None"
  by (induction sec key ss rule: get_in.induct) auto

lemma section_ok_pair: "section_ok (n, b) \<longleftrightarrow> plain n \<and> RIGHT_BRACE \<notin> set n \<and> quiet True (entries b) \<and> ended b"
  by (simp add: section_ok_def)

lemma list_pair_induct [case_names Nil Cons]:
  "P [] \<Longrightarrow> (\<And>a b xs. P xs \<Longrightarrow> P ((a, b) # xs)) \<Longrightarrow> P xs"
  by (induction xs) auto

lemma get_replace:
  assumes "list_all section_ok ss" "\<forall>c\<in>set v. \<not> IsNewLine c" "get_in sec key ss \<noteq> None"
  shows "get_in sec' key' (replace_in sec key v ss) =
    (if sec' = sec \<and> key' = key then Some v else get_in sec' key' ss)"
  using assms(1,3)
proof (induction ss rule: list_pair_induct)
  case (Cons n b ss)
  show ?case
  proof (cases "n = sec \<and> find_line key (entries b) \<noteq> None")
    case True
    then obtain x v0 y where f: "find_line key (entries b) = Some (x, v0, y)" by auto
    have "ended b" using Cons by (simp add: section_ok_pair)
    note r = line_value_replaced [OF this f assms(2), of key']
    show ?thesis using f True r
      by (auto simp del: get_in.simps simp: get_in_step split: option.split)
  next
    case False
    then show ?thesis using Cons
      by (auto simp del: get_in.simps simp: get_in_step line_value_def split: if_splits option.splits)
  qed
qed simp

lemma get_insert:
  assumes "sec \<in> fst ` set ss" "key_ok key" "value_ok v" "get_in sec key ss = None"
  shows "get_in sec' key' (insert_in sec key v ss) =
    (if sec' = sec \<and> key' = key then Some v else get_in sec' key' ss)"
  using assms(1,4)
proof (induction ss rule: list_pair_induct)
  case (Cons n b ss)
  note get_in.simps(2) [simp del]
  show ?case
  proof (cases "n = sec \<and> sec \<notin> fst ` set ss")
    case True
    have "get_in sec k ss = None" for k using get_in_none True by blast
    moreover have "line_value k (entries (gap b @ key_line key v @ entries b)) =
      (if k = key then Some v else line_value k (entries b))" for k
      unfolding key_line_facts [OF assms(2)] by (rule line_value_key_line [OF assms(2,3)])
    ultimately show ?thesis using True Cons(3) by (simp add: get_in_step)
  next
    case False
    then have m: "sec \<in> fst ` set ss" and g: "get_in sec key ss = None"
      and b: "n = sec \<Longrightarrow> line_value key (entries b) = None"
      using Cons(2,3) by (auto simp: get_in_step split: if_splits option.splits)
    have i: "get_in sec' key' (insert_in sec key v ((n, b) # ss)) =
      (case (if n = sec' then line_value key' (entries b) else None) of Some v \<Rightarrow> Some v
       | None \<Rightarrow> get_in sec' key' (insert_in sec key v ss))"
    proof -
      have "insert_in sec key v ((n, b) # ss) = (n, b) # insert_in sec key v ss" using False by auto
      then show ?thesis by (simp only: get_in_step)
    qed
    show ?thesis unfolding i get_in_step [of sec' key' n b] Cons(1) [OF m g]
      using b by (auto split: option.splits)
  qed
qed simp

lemma entries_line_end:
  "line_value key (entries (b @ [LINE_CHANGE])) = line_value key (entries b)" if "ended b"
proof (cases "entries b = []")
  case True
  then have "\<forall>c\<in>set (b @ [LINE_CHANGE]). c_isspace c"
    by (simp add: dropWhile_eq_Nil_conv c_isspace_def ini_chars)
  then have "entries (b @ [LINE_CHANGE]) = []" by (simp only: dropWhile_eq_Nil_conv)
  then show ?thesis using True by (simp only:)
next
  case False
  then have "entries (b @ [LINE_CHANGE]) = entries b @ [LINE_CHANGE]"
    by (metis dropWhile_append1 dropWhile_eq_Nil_conv)
  moreover have "line_value key [LINE_CHANGE] = None"
    using find_line_step [of "[]" LINE_CHANGE key "[]"]
    by (simp add: line_value_def entry_line_def IsNewLine_def)
  ultimately show ?thesis
    using entries_ended [OF that] by (simp add: line_value_append split: option.splits)
qed

lemma get_line_end: "list_all section_ok ss \<Longrightarrow> get_in sec key (add_line_end ss) = get_in sec key ss"
  by (induction ss rule: add_line_end.induct)
     (auto simp del: get_in.simps(2) simp: get_in_step section_ok_pair entries_line_end split: option.splits)

lemma line_end_names: "fst ` set (add_line_end ss) = fst ` set ss"
  by (induction ss rule: add_line_end.induct) auto

lemma get_put:
  assumes "ini_ok f" "key_ok key" "value_ok v"
  shows "get_value sec' key' (put_value sec key v f) =
    (if sec' = sec \<and> key' = key then Some v else get_value sec' key' f)"
proof -
  have ok: "list_all section_ok (snd f)" and v: "\<forall>c\<in>set v. \<not> IsNewLine c"
    using assms by (auto simp: ini_ok_def value_ok_def)
  have new: "get_in sec' key' [(sec, LINE_CHANGE # key_line key v)] = (if sec' = sec \<and> key' = key then Some v else None)"
  proof -
    have "entries (LINE_CHANGE # key_line key v) = key_line key v @ []"
      using assms(2) by (cases key) (auto simp: key_line_def key_ok_def c_isspace_def ini_chars)
    then show ?thesis using line_value_key_line [OF assms(2,3), of key' "[]"]
      by (auto simp del: get_in.simps(2) simp: get_in_step line_value_def)
  qed
  consider "get_in sec key (snd f) \<noteq> None" | "get_in sec key (snd f) = None" "sec \<in> fst ` set (snd f)"
    | "sec \<notin> fst ` set (snd f)" by blast
  then show ?thesis
  proof cases
    case 1
    then show ?thesis using get_replace [OF ok v] by (simp add: get_value_def put_value_def)
  next
    case 2
    then show ?thesis using get_insert [OF 2(2) assms(2,3) 2(1)] by (simp add: get_value_def put_value_def)
  next
    case 3
    have g: "get_in sec key (snd f) = None" by (rule get_in_none [OF 3])
    show ?thesis
      using 3 g new get_line_end [OF ok] get_in_none [OF 3]
      by (auto simp del: get_in.simps(2) simp: get_value_def put_value_def add_section_def Let_def get_in_append split: option.splits)
  qed
qed

text \<open>Writing keeps the file well formed.\<close>

lemma quiet_value:
  assumes "quiet s (p @ EQUALS # v0 @ n # r)" "IsNewLine n" "value_ok v"
  shows "quiet s (p @ EQUALS # v @ n # r)"
proof -
  have "quiet False v" using assms(3) by (simp add: value_ok_def plain_quiet)
  then show ?thesis using assms(1,2) by (auto simp: quiet_append newline_class)
qed

lemma replace_ok:
  assumes "value_ok v"
  shows "list_all section_ok ss \<Longrightarrow> list_all section_ok (replace_in sec key v ss)"
proof (induction ss rule: list_pair_induct)
  case (Cons n b ss)
  then have b: "ended b" "quiet True (entries b)" by (simp_all add: section_ok_pair)
  show ?case
  proof (cases "n = sec \<and> find_line key (entries b) \<noteq> None")
    case True
    then obtain x v0 y where f: "find_line key (entries b) = Some (x, v0, y)" by auto
    note s = find_line_split [OF entries_ended [OF b(1)] f]
    then obtain c r where y: "y = c # r" "IsNewLine c" by (cases y) (auto simp: ended_def)
    have "quiet True ((x @ key) @ EQUALS # v @ c # r)"
      by (rule quiet_value [OF _ y(2) assms]) (use b(2) s y in \<open>simp only: append_assoc\<close>)
    then show ?thesis
      using Cons True f s y replaced_entries(1) [OF b(1) f, of v] by (auto simp: section_ok_pair ended_def)
  next
    case False
    then show ?thesis using Cons by (auto split: option.split)
  qed
qed simp

lemma key_line_quiet:
  assumes "key_ok key" "value_ok v"
  shows "quiet s (key_line key v)"
proof -
  have "quiet False key" "quiet False v" "key \<noteq> []" "\<not> IsLeftBrace (hd key)" "\<not> IsNewLine (last key)"
    using assms by (simp_all add: key_ok_def value_ok_def plain_quiet)
  then show ?thesis
    by (cases key) (auto simp: key_line_def quiet_append IsNewLine_def IsLeftBrace_def ini_chars)
qed

lemma key_line_last: "key_line key v \<noteq> []" "last (key_line key v) = LINE_CHANGE"
  by (simp_all add: key_line_def)

lemma insert_ok:
  assumes "key_ok key" "value_ok v"
  shows "list_all section_ok ss \<Longrightarrow> list_all section_ok (insert_in sec key v ss)"
proof (induction ss rule: list_pair_induct)
  case (Cons n b ss)
  have q: "quiet True (key_line key v @ entries b)"
    using Cons key_line_quiet [OF assms]
    by (simp add: quiet_append key_line_last section_ok_pair)
  have l: "ended (gap b @ key_line key v @ entries b)"
    using entries_ended [of b] Cons
    by (cases "entries b = []") (auto simp: ended_def section_ok_pair key_line_last last_append)
  show ?case using Cons q l by (auto simp: section_ok_pair key_line_facts [OF assms(1)])
qed simp

lemma line_end_ok: "list_all section_ok ss \<Longrightarrow> list_all section_ok (add_line_end ss)"
proof (induction ss rule: add_line_end.induct)
  case (2 n b)
  have "quiet True (entries (b @ [LINE_CHANGE]))"
  proof (cases "\<forall>c\<in>set b. c_isspace c")
    case True
    then show ?thesis by (simp add: dropWhile_append2)
  next
    case False
    then have "entries (b @ [LINE_CHANGE]) = entries b @ [LINE_CHANGE]" by (meson dropWhile_append1)
    then show ?thesis using 2 by (simp add: section_ok_pair quiet_append)
  qed
  then show ?case using 2 by (simp add: section_ok_pair ended_def)
qed auto

lemma put_ok:
  assumes "ini_ok f" "name_ok sec" "key_ok key" "value_ok v"
  shows "ini_ok (put_value sec key v f)"
proof -
  have "entries (LINE_CHANGE # key_line key v) = key_line key v"
    using assms(3) by (cases key) (auto simp: key_line_def key_ok_def c_isspace_def ini_chars)
  then have "section_ok (sec, LINE_CHANGE # key_line key v)"
    using assms(2) key_line_quiet [OF assms(3,4)] key_line_last
    by (auto simp: section_ok_pair name_ok_def ended_def)
  moreover have "quiet True (fst f @ [LINE_CHANGE])"
    using assms(1) by (auto simp: ini_ok_def quiet_append IsLeftBrace_def ini_chars)
  ultimately show ?thesis
    using assms(1) replace_ok [OF assms(4)] insert_ok [OF assms(3,4)] line_end_ok
    by (auto simp: ini_ok_def put_value_def add_section_def Let_def ended_def)
qed

end
