(* ===== verification/IniFile.thy ===== *)
theory IniFile
  imports IniSpec
begin

text \<open>
  \<open>public/ini.c\<close> implements the specification of \<open>IniSpec\<close>: parsing finds the positions of the value, reading
  returns it, writing leaves the file that renders the updated sections.
\<close>

section \<open>Scanning\<close>

lemma seek_at:
  "\<forall>x\<in>set t. \<not> P x \<Longrightarrow> P c \<Longrightarrow> seek P (u @ t @ c # rest) (length u) = Some (length u + length t)"
proof (induction t arbitrary: u)
  case Nil
  then show ?case by (simp add: seek.simps)
next
  case (Cons a t)
  have "seek P (u @ (a # t) @ c # rest) (length u) = seek P ((u @ [a]) @ t @ c # rest) (length (u @ [a]))"
    using Cons by (subst seek.simps) simp
  then show ?case using Cons(1) [of "u @ [a]"] Cons(2,3) by simp
qed

lemma key_scan_at:
  assumes "EQUALS \<notin> set l1" "l2 = [] \<or> l1 = [] \<or> hd l2 \<noteq> EQUALS" "key \<noteq> []" "l1 = [] \<longrightarrow> hd (l2 @ [0]) \<noteq> COMMENT"
    "l1 \<noteq> [] \<longrightarrow> hd l1 \<noteq> COMMENT" "n \<noteq> EQUALS"
  shows "key_scan (u @ l1 @ l2 @ n # rest) key (length u) (length u + length l1) (length u + length l1 + length l2) =
    Some (if entry_line key (l1 @ l2) then Some (length u + length key) else None)"
  using assms(1,2,4,5)
proof (induction l2 arbitrary: l1)
  case Nil
  then show ?case by (simp add: key_scan.simps entry_line_def)
next
  case (Cons c l2)
  let ?p = "u @ l1 @ (c # l2) @ n # rest" and ?j = "length u + length l1"
  have c: "?p ! ?j = c" by (simp add: nth_append)
  have d: "?p ! Suc ?j = hd (l2 @ [n])" by (cases l2) (simp_all add: nth_append)
  have k: "take (Suc ?j - length u) (drop (length u) ?p) = l1 @ [c]" by simp
  have "length ?p > Suc ?j" by simp
  show ?case
  proof (cases "c = EQUALS")
    case True
    then have "l1 = []" using Cons(3) by simp
    then show ?thesis using True c \<open>length ?p > Suc ?j\<close> assms(3) by (subst key_scan.simps) (simp add: entry_line_def)
  next
    case False
    show ?thesis
    proof (cases "l2 \<noteq> [] \<and> hd l2 = EQUALS")
      case True
      then obtain l3 where l2: "l2 = EQUALS # l3" by (cases l2) auto
      have e: "entry_line key (l1 @ c # l2) \<longleftrightarrow> key = l1 @ [c]"
      proof -
        have "\<forall>x\<in>set (l1 @ [c]). x \<noteq> EQUALS" using Cons(2) False by auto
        then have "takeWhile (\<lambda>c. c \<noteq> EQUALS) ((l1 @ [c]) @ l2) = l1 @ [c]"
          unfolding l2 by (subst takeWhile_append2) auto
        then show ?thesis using Cons(4,5) l2 assms(3) by (cases l1) (auto simp: entry_line_def)
      qed
      have "key_scan ?p key (length u) (Suc ?j) (?j + length (c # l2)) = Some None"
      proof -
        have "?p ! Suc ?j = EQUALS" using d l2 by simp
        then show ?thesis by (subst key_scan.simps) (use l2 in simp)
      qed
      then show ?thesis
        using e False c d k l2 by (subst key_scan.simps) (auto simp del: append.simps append_assoc)
    next
      case nf: False
      have d': "?p ! Suc ?j \<noteq> EQUALS" using d nf assms(6) by (cases l2) auto
      have "key_scan ?p key (length u) ?j (?j + length (c # l2)) =
          key_scan (u @ (l1 @ [c]) @ l2 @ n # rest) key (length u) (length u + length (l1 @ [c]))
            (length u + length (l1 @ [c]) + length l2)"
        using False c d' \<open>length ?p > Suc ?j\<close> by (subst key_scan.simps) simp
      also have "\<dots> = Some (if entry_line key ((l1 @ [c]) @ l2) then Some (length u + length key) else None)"
        by (rule Cons(1)) (use Cons(2-5) False nf in \<open>auto simp: hd_append\<close>)
      finally show ?thesis by simp
    qed
  qed
qed

text \<open>A whole line, with the comment test of the caller.\<close>

lemma scan_line:
  assumes "key \<noteq> []" "IsNewLine n \<or> n = 0"
  shows "(if (u @ l @ n # rest) ! length u = COMMENT then Some None
      else key_scan (u @ l @ n # rest) key (length u) (length u) (length u + length l)) =
    Some (if entry_line key l then Some (length u + length key) else None)"
proof (cases "l \<noteq> [] \<and> hd l = COMMENT")
  case True
  then show ?thesis by (cases l) (auto simp: entry_line_def nth_append)
next
  case False
  have "n \<noteq> COMMENT" "n \<noteq> EQUALS" using assms(2) by (auto simp: ini_tests ini_chars)
  then have "(u @ l @ n # rest) ! length u \<noteq> COMMENT" using False by (cases l) (auto simp: nth_append)
  moreover have "key_scan (u @ [] @ l @ n # rest) key (length u) (length u + length ([] :: u8 list))
      (length u + length ([] :: u8 list) + length l) =
    Some (if entry_line key ([] @ l) then Some (length u + length key) else None)"
    by (rule key_scan_at) (use False assms \<open>n \<noteq> EQUALS\<close> in \<open>auto simp: hd_append COMMENT_def\<close>)
  ultimately show ?thesis by simp
qed

lemma section_lines_step:
  assumes "0 < i" "i < length p" "\<not> (IsNewLine (p ! (i - 1)) \<and> IsLeftBrace (p ! i))" "p ! i \<noteq> 0"
    "line_end p i = Some e" "(if p ! i = COMMENT then Some None else key_scan p key i i e) = Some r"
  shows "section_lines p key i = (case r of Some j \<Rightarrow> Some (Inr (i, j, e)) | None \<Rightarrow> section_lines p key (Suc e))"
proof -
  have "section_lines p key i = (case (if p ! i = COMMENT then Some None else key_scan p key i i e) of
      None \<Rightarrow> None | Some None \<Rightarrow> section_lines p key (Suc e) | Some (Some j) \<Rightarrow> Some (Inr (i, j, e)))"
  proof -
    have "(i = 0 \<or> length p \<le> i) = False"
      "(IsNewLine (p ! (i - 1)) \<and> IsLeftBrace (p ! i) \<or> IsStrEnd (p ! i)) = False"
      using assms(1-4) by (auto simp: IsStrEnd_def)
    then show ?thesis by (subst section_lines.simps) (simp only: assms(5) if_False option.case)
  qed
  then show ?thesis unfolding assms(6) by (cases r) simp_all
qed

lemma section_lines_text:
  assumes "t = [] \<or> ended t" "quiet (IsNewLine (last u)) t" "u \<noteq> []" "t = [] \<longrightarrow> IsNewLine (last u)"
    "c = 0 \<or> c = LEFT_BRACE" "key \<noteq> []"
  shows "section_lines (u @ t @ c # rest) key (length u) = Some
    (case find_line key t of None \<Rightarrow> Inl (length u + length t)
     | Some (x, v, y) \<Rightarrow> Inr (length (u @ x), length (u @ x @ key), length (u @ x @ key) + 1 + length v))"
  using assms(1-4)
proof (induction t arbitrary: u rule: ended_induct)
  case Nil
  then show ?case using assms(5)
    by (subst section_lines.simps) (auto simp: nth_append last_conv_nth IsStrEnd_def)
next
  case (line l n r)
  let ?p = "u @ (l @ n # r) @ c # rest" and ?i = "length u"
  have u: "?p ! (?i - 1) = last u" using line(6) by (simp add: nth_append last_conv_nth)
  have h: "?p ! ?i = hd (l @ [n])" by (cases l) (simp_all add: nth_append)
  have q: "\<not> (IsNewLine (last u) \<and> IsLeftBrace (hd (l @ [n])))" "hd (l @ [n]) \<noteq> 0"
    using line(5) by (cases l; simp)+
  have e: "line_end ?p ?i = Some (?i + length l)"
    using seek_at [of l "\<lambda>c. IsNewLine c \<or> IsStrEnd c" n u "r @ c # rest"] line(1,2,5)
      quiet_plain [OF line(5)] unfolding line_end_def by (auto simp: IsStrEnd_def plain_def)
  have k: "(if ?p ! ?i = COMMENT then Some None else key_scan ?p key ?i ?i (?i + length l)) =
    Some (if entry_line key l then Some (?i + length key) else None)"
    using scan_line [OF assms(6) disjI1 [OF line(2)], of u l "r @ c # rest"] by (simp only: append_assoc append_Cons)
  have s: "section_lines ?p key ?i = (if entry_line key l
      then Some (Inr (?i, ?i + length key, ?i + length l)) else section_lines ?p key (Suc (?i + length l)))"
    using section_lines_step [OF _ _ _ _ e k] line(6) q unfolding u h by simp
  show ?case
  proof (cases "entry_line key l")
    case True
    have "length l = length key + 1 + length (tl (dropWhile (\<lambda>c. c \<noteq> EQUALS) l))"
      using arg_cong [OF entry_line_split [OF True], of length] by simp
    then show ?thesis using True s by (simp add: find_line_step line(1,2) del: append_assoc)
  next
    case False
    have "quiet (IsNewLine (last (u @ l @ [n]))) r" using line(5) by (auto simp: quiet_append)
    then have "section_lines ((u @ l @ [n]) @ r @ c # rest) key (length (u @ l @ [n])) = Some
      (case find_line key r of None \<Rightarrow> Inl (length (u @ l @ [n]) + length r)
       | Some (x, v, y) \<Rightarrow> Inr (length ((u @ l @ [n]) @ x), length ((u @ l @ [n]) @ x @ key),
          length ((u @ l @ [n]) @ x @ key) + 1 + length v))"
      by (intro line(4)) (use line(2) in auto)
    then show ?thesis using False s by (auto simp: find_line_step line(1,2) split: option.split)
  qed
qed

section \<open>The sections\<close>

lemma parse_step:
  assumes "i < length p" "p ! i \<noteq> 0" "\<not> ((i = 0 \<or> IsNewLine (p ! (i - 1))) \<and> IsLeftBrace (p ! i))"
  shows "parse_file_loop p sec key i r = parse_file_loop p sec key (Suc i) r"
  using assms by (subst parse_file_loop.simps) (auto simp: IsStrEnd_def)

lemma quiet_skip:
  "quiet (u = [] \<or> IsNewLine (last u)) t \<Longrightarrow>
   parse_file_loop (u @ t @ rest) sec key (length u) r = parse_file_loop (u @ t @ rest) sec key (length (u @ t)) r"
proof (induction t arbitrary: u)
  case (Cons c t)
  let ?p = "u @ (c # t) @ rest"
  have "parse_file_loop ?p sec key (length u) r = parse_file_loop ?p sec key (Suc (length u)) r"
    using Cons(2) by (intro parse_step) (auto simp: nth_append last_conv_nth)
  also have "\<dots> = parse_file_loop ((u @ [c]) @ t @ rest) sec key (length (u @ [c])) r" by simp
  also have "\<dots> = parse_file_loop ((u @ [c]) @ t @ rest) sec key (length ((u @ [c]) @ t)) r"
    by (rule Cons(1)) (use Cons(2) in simp)
  finally show ?case by simp
qed simp

text \<open>What parsing the sections from index \<open>i\<close> on finds.\<close>

fun pos_in :: "u8 list \<Rightarrow> u8 list \<Rightarrow> nat \<Rightarrow> ini_section list \<Rightarrow> ini_pos \<Rightarrow> bool \<times> ini_pos" where
  "pos_in sec key i [] r = (False, r)"
| "pos_in sec key i ((n, b) # ss) r =
     (let g = i + length n + 2 + length (gap b); i' = i + length (render_section (n, b)) in
      if n = sec then
        (case find_line key (entries b) of
           Some (x, v, y) \<Rightarrow> (True, \<lparr> ip_sec = Some (Suc i, g), ip_key = Some (g + length x, g + length x + length key - 1,
             Suc (g + length x + length key), g + length x + length key + 1 + length v) \<rparr>)
         | None \<Rightarrow> pos_in sec key i' ss (r\<lparr> ip_sec := Some (Suc i, g) \<rparr>))
      else pos_in sec key i' ss r)"

lemma parse_open:
  assumes "u = [] \<or> IsNewLine (last u)" "plain n" "RIGHT_BRACE \<notin> set n"
  shows "parse_file_loop (u @ LEFT_BRACE # n @ RIGHT_BRACE # t) sec key (length u) r =
    (let p = u @ LEFT_BRACE # n @ RIGHT_BRACE # t; i = length u; e = Suc (length u + length n) in
     if n = sec then
       (case skip_space p (Suc e) of
          None \<Rightarrow> None
        | Some b \<Rightarrow>
            (case section_lines p key b of
               None \<Rightarrow> None
             | Some (Inr (k, j, v)) \<Rightarrow> Some (True, \<lparr> ip_sec = Some (Suc i, b), ip_key = Some (k, j - 1, Suc j, v) \<rparr>)
             | Some (Inl i') \<Rightarrow> parse_file_loop p sec key i' (r\<lparr> ip_sec := Some (Suc i, b) \<rparr>)))
     else parse_file_loop p sec key e r)"
proof -
  let ?p = "u @ LEFT_BRACE # n @ RIGHT_BRACE # t" and ?i = "length u"
  have e: "seek_brace ?p (Suc ?i) = Some (Suc (?i + length n))"
    using seek_at [of n "\<lambda>c. IsRightBrace c \<or> IsStrEnd c" RIGHT_BRACE "u @ [LEFT_BRACE]" t] assms(2,3)
    unfolding seek_brace_def by (auto simp: IsRightBrace_def IsStrEnd_def plain_def)
  have n: "take (Suc (?i + length n) - Suc ?i) (drop (Suc ?i) ?p) = n" by simp
  have a: "(?i = 0 \<or> IsNewLine (?p ! (?i - 1))) \<and> IsLeftBrace (?p ! ?i)"
    using assms(1) by (cases "u = []") (auto simp: nth_append last_conv_nth)
  have s: "\<not> length ?p \<le> ?i" "\<not> IsStrEnd (?p ! ?i)" by (simp_all add: IsStrEnd_def nth_append LEFT_BRACE_def)
  show ?thesis unfolding Let_def
    by (subst parse_file_loop.simps) (simp only: s a e n if_False simp_thms if_True option.case)
qed

lemma parse_sections:
  assumes "list_all section_ok ss" "u = [] \<or> IsNewLine (last u)" "key \<noteq> []"
  shows "parse_file_loop (u @ concat (map render_section ss) @ 0 # rest) sec key (length u) r =
    Some (pos_in sec key (length u) ss r)"
  using assms(1,2)
proof (induction ss arbitrary: u r rule: list_pair_induct)
  case Nil
  then show ?case by (subst parse_file_loop.simps) (simp add: IsStrEnd_def)
next
  case (Cons n b ss)
  define t where "t = concat (map render_section ss) @ 0 # rest"
  obtain c t' where t: "t = c # t'" "c = 0 \<or> c = LEFT_BRACE"
    by (cases ss) (auto simp: t_def render_section_def)
  have p: "u @ concat (map render_section ((n, b) # ss)) @ 0 # rest = u @ LEFT_BRACE # n @ RIGHT_BRACE # b @ t"
    by (simp add: t_def render_section_def)
  have n: "plain n" "RIGHT_BRACE \<notin> set n" and b: "quiet True (entries b)" "ended b" and ss: "list_all section_ok ss"
    using Cons(2) by (simp_all add: section_ok_pair)
  let ?p = "u @ LEFT_BRACE # n @ RIGHT_BRACE # b @ t"
  let ?u = "u @ LEFT_BRACE # n @ RIGHT_BRACE # b" and ?h = "u @ LEFT_BRACE # n @ [RIGHT_BRACE]"
  have l: "IsNewLine (last ?u)" using b(2) by (simp add: ended_def)
  have ih: "parse_file_loop ?p sec key (length ?u) r' = Some (pos_in sec key (length ?u) ss r')" for r'
    using Cons(1) [OF ss, of ?u r'] l by (simp add: t_def)
  have e: "parse_file_loop ?p sec key (Suc (length u + length n)) r = parse_file_loop ?p sec key (length ?u) r"
  proof -
    have "quiet False (RIGHT_BRACE # b)" using quiet_body [OF b(1)] by (simp add: RIGHT_BRACE_def)
    then have "parse_file_loop ((u @ LEFT_BRACE # n) @ (RIGHT_BRACE # b) @ t) sec key (length (u @ LEFT_BRACE # n)) r =
        parse_file_loop ((u @ LEFT_BRACE # n) @ (RIGHT_BRACE # b) @ t) sec key (length ((u @ LEFT_BRACE # n) @ RIGHT_BRACE # b)) r"
      by (intro quiet_skip) (auto intro: quiet_mono simp: IsLeftBrace_def ini_chars)
    then show ?thesis by simp
  qed
  have g: "skip_space ?p (Suc (Suc (length u + length n))) = Some (length (?h @ gap b))"
  proof -
    obtain d t2 where d: "entries b @ t = d # t2" "\<not> c_isspace d"
      using t hd_dropWhile [of c_isspace b] by (cases "entries b") auto
    have "?p = ?h @ gap b @ d # t2"
      using d(1) by (metis append.assoc append_Cons append_Nil takeWhile_dropWhile_id)
    moreover have "seek (\<lambda>c. \<not> c_isspace c) (?h @ gap b @ d # t2) (length ?h) = Some (length ?h + length (gap b))"
      by (rule seek_at) (use d(2) in \<open>auto dest: set_takeWhileD\<close>)
    ultimately show ?thesis by (simp add: skip_space_def)
  qed
  have lines: "section_lines ?p key (length (?h @ gap b)) = Some
      (case find_line key (entries b) of None \<Rightarrow> Inl (length (?h @ gap b) + length (entries b))
       | Some (x, v, y) \<Rightarrow> Inr (length ((?h @ gap b) @ x), length ((?h @ gap b) @ x @ key),
           length ((?h @ gap b) @ x @ key) + 1 + length v))"
  proof -
    have "?p = (?h @ gap b) @ entries b @ c # t'" unfolding t(1) [symmetric] by simp
    moreover have "IsNewLine (last (?h @ gap b))" if "entries b = []"
      using that b(2) takeWhile_dropWhile_id [of c_isspace b] unfolding ended_def
      by (metis append.right_neutral last_appendR)
    ultimately show ?thesis
      using section_lines_text [OF entries_ended [OF b(2)] _ _ _ t(2) assms(3), of "?h @ gap b" t'] quiet_mono [OF b(1)]
      by simp
  qed
  have "length (gap b) + length (entries b) = length b" by (metis length_append takeWhile_dropWhile_id)
  then have len: "length (?h @ gap b) + length (entries b) = length ?u" by simp
  have hd: "length (?h @ gap b) = length u + length n + 2 + length (gap b)" by simp
  show ?case unfolding p parse_open [OF Cons(3) n] Let_def g option.case lines len
    using e ih
    by (auto simp: render_section_def hd Let_def split: option.split simp del: append.simps append_assoc)
qed

lemma parse_file:
  assumes "ini_ok f" "sec \<noteq> []" "key \<noteq> []"
  shows "ParseFile (render f @ 0 # rest) sec key =
    Some (pos_in sec key (length (fst f)) (snd f) \<lparr> ip_sec = None, ip_key = None \<rparr>)"
proof -
  have f: "quiet True (fst f)" "fst f = [] \<or> IsNewLine (last (fst f))" "list_all section_ok (snd f)"
    using assms(1) by (auto simp: ini_ok_def ended_def)
  show ?thesis
    using quiet_skip [of "[]" "fst f" "concat (map render_section (snd f)) @ 0 # rest" sec key]
      parse_sections [OF f(3,2) assms(3), of rest sec] f(1) assms(2,3)
    by (simp add: ParseFile_def render_def)
qed

text \<open>The positions, in terms of the text: around the value, or where a line can be added.\<close>

abbreviation sections_text :: "ini_section list \<Rightarrow> u8 list" where
  "sections_text ss \<equiv> concat (map render_section ss)"

lemma pos_found:
  assumes "list_all section_ok ss" "get_in sec key ss = Some v"
  obtains X Y s b k ke where
    "pos_in sec key i ss r = (True, \<lparr> ip_sec = Some (s, b), ip_key = Some (k, ke, i + length X, i + length X + length v) \<rparr>)"
    "sections_text ss = X @ v @ Y" "\<And>v'. sections_text (replace_in sec key v' ss) = X @ v' @ Y"
  using assms
proof (induction ss arbitrary: i r thesis rule: list_pair_induct)
  case (Cons n b ss)
  have b: "ended b" and ss: "list_all section_ok ss" using Cons(3) by (simp_all add: section_ok_pair)
  show ?case
  proof (cases "n = sec \<and> find_line key (entries b) \<noteq> None")
    case True
    then obtain x v0 y where f: "find_line key (entries b) = Some (x, v0, y)" by auto
    have e: "entries b = x @ key @ EQUALS # v0 @ y" using find_line_split [OF entries_ended [OF b] f] by simp
    have "b = gap b @ x @ key @ EQUALS # v0 @ y" using e by (metis takeWhile_dropWhile_id)
    then have r: "render_section (n, b) = (LEFT_BRACE # n @ RIGHT_BRACE # gap b @ x @ key @ [EQUALS]) @ v0 @ y"
      unfolding render_section_def by (metis append.assoc append_Cons append_Nil fst_conv snd_conv)
    have v: "v0 = v" using Cons(4) True f by simp
    let ?X = "LEFT_BRACE # n @ RIGHT_BRACE # gap b @ x @ key @ [EQUALS]"
    show ?thesis
    proof (rule Cons(2))
      show "pos_in sec key i ((n, b) # ss) r = (True, \<lparr> ip_sec = Some (Suc i, i + length n + 2 + length (gap b)),
          ip_key = Some (i + length n + 2 + length (gap b) + length x,
            i + length n + 2 + length (gap b) + length x + length key - 1,
            i + length ?X, i + length ?X + length v) \<rparr>)"
        using True f v by (simp add: Let_def)
      show "sections_text ((n, b) # ss) = ?X @ v @ y @ sections_text ss" using r v by simp
      show "sections_text (replace_in sec key v' ((n, b) # ss)) = ?X @ v' @ y @ sections_text ss" for v'
        using True f by (simp add: render_section_def)
    qed
  next
    case False
    then have g: "get_in sec key ss = Some v" using Cons(4) by (auto split: if_splits option.splits)
    have f: "n = sec \<Longrightarrow> find_line key (entries b) = None" using False by blast
    obtain r' where p: "pos_in sec key i ((n, b) # ss) r = pos_in sec key (i + length (render_section (n, b))) ss r'"
      using f by (cases "n = sec") (auto simp: Let_def)
    obtain X Y s b' k ke where q: "pos_in sec key (i + length (render_section (n, b))) ss r' =
        (True, \<lparr> ip_sec = Some (s, b'), ip_key = Some (k, ke, i + length (render_section (n, b)) + length X,
          i + length (render_section (n, b)) + length X + length v) \<rparr>)"
      "sections_text ss = X @ v @ Y" "\<And>v'. sections_text (replace_in sec key v' ss) = X @ v' @ Y"
      by (rule Cons(1) [OF that ss g])
    show ?thesis
    proof (rule Cons(2))
      show "pos_in sec key i ((n, b) # ss) r = (True, \<lparr> ip_sec = Some (s, b'),
          ip_key = Some (k, ke, i + length (render_section (n, b) @ X), i + length (render_section (n, b) @ X) + length v) \<rparr>)"
        unfolding p q(1) by simp
      show "sections_text ((n, b) # ss) = (render_section (n, b) @ X) @ v @ Y" using q(2) by simp
      show "sections_text (replace_in sec key v' ((n, b) # ss)) = (render_section (n, b) @ X) @ v' @ Y" for v'
        using False q(3) by (auto split: option.split)
    qed
  qed
qed simp

lemma pos_none: "sec \<notin> fst ` set ss \<Longrightarrow> pos_in sec key i ss r = (False, r)"
  by (induction ss arbitrary: i rule: list_pair_induct) (auto simp: Let_def)

lemma pos_section:
  assumes "get_in sec key ss = None" "sec \<in> fst ` set ss"
  obtains X Y s where "pos_in sec key i ss r = (False, r\<lparr> ip_sec := Some (s, i + length X) \<rparr>)"
    "sections_text ss = X @ Y" "\<And>v. sections_text (insert_in sec key v ss) = X @ key_line key v @ Y"
  using assms
proof (induction ss arbitrary: i r thesis rule: list_pair_induct)
  case (Cons n b ss)
  have g: "get_in sec key ss = None" and f: "n = sec \<Longrightarrow> find_line key (entries b) = None"
    using Cons(3) by (auto split: if_splits option.splits)
  show ?case
  proof (cases "n = sec \<and> sec \<notin> fst ` set ss")
    case True
    show ?thesis
    proof (rule Cons(2))
      show "pos_in sec key i ((n, b) # ss) r =
          (False, r\<lparr> ip_sec := Some (Suc i, i + length (LEFT_BRACE # n @ RIGHT_BRACE # gap b)) \<rparr>)"
        using True f pos_none [of sec ss] by (simp add: Let_def)
      show "sections_text ((n, b) # ss) = (LEFT_BRACE # n @ RIGHT_BRACE # gap b) @ entries b @ sections_text ss"
        by (simp add: render_section_def)
      show "sections_text (insert_in sec key v ((n, b) # ss)) =
          (LEFT_BRACE # n @ RIGHT_BRACE # gap b) @ key_line key v @ entries b @ sections_text ss" for v
        using True by (simp add: render_section_def)
    qed
  next
    case False
    then have m: "sec \<in> fst ` set ss" using Cons(4) by auto
    obtain r' where p: "pos_in sec key i ((n, b) # ss) r = pos_in sec key (i + length (render_section (n, b))) ss r'"
      "\<And>x. r'\<lparr> ip_sec := x \<rparr> = r\<lparr> ip_sec := x \<rparr>"
      using f by (cases "n = sec") (auto simp: Let_def)
    obtain X Y s where q: "pos_in sec key (i + length (render_section (n, b))) ss r' =
        (False, r'\<lparr> ip_sec := Some (s, i + length (render_section (n, b)) + length X) \<rparr>)"
      "sections_text ss = X @ Y" "\<And>v. sections_text (insert_in sec key v ss) = X @ key_line key v @ Y"
      by (rule Cons(1) [OF that g m])
    show ?thesis
    proof (rule Cons(2))
      show "pos_in sec key i ((n, b) # ss) r =
          (False, r\<lparr> ip_sec := Some (s, i + length (render_section (n, b) @ X)) \<rparr>)"
        unfolding p(1) q(1) by (simp add: p(2))
      show "sections_text ((n, b) # ss) = (render_section (n, b) @ X) @ Y" using q(2) by simp
      show "sections_text (insert_in sec key v ((n, b) # ss)) = (render_section (n, b) @ X) @ key_line key v @ Y" for v
        using False q(3) by auto
    qed
  qed
qed simp

section \<open>The buffers\<close>

lemma load_chars_text:
  "0xFF \<notin> set cs \<Longrightarrow> i + length cs < INI_MAX_FILE_SIZE \<Longrightarrow> length buf = INI_MAX_FILE_SIZE \<Longrightarrow>
   load_chars buf i cs = Inr (take i buf @ cs @ 0 # drop (Suc (i + length cs)) buf, i + length cs)"
proof (induction buf i cs rule: load_chars.induct)
  case (1 buf i)
  then show ?case by (simp add: upd_conv_take_nth_drop)
next
  case (2 buf i c cs)
  have "take (Suc i) (buf[i := c]) = take i buf @ [c]" using 2(3,4) by (simp add: take_Suc_conv_app_nth)
  then show ?case using 2 by simp
qed

definition zeros_behind :: "u8 list \<Rightarrow> u8 list" where
  "zeros_behind t = t @ replicate (INI_MAX_FILE_SIZE - length t) 0"

lemma copy_behind:
  assumes "length t + length b \<le> INI_MAX_FILE_SIZE"
  shows "copy_to (zeros_behind t) (length t) b = Some (zeros_behind (t @ b))"
  using assms by (simp add: copy_to_def zeros_behind_def)

lemma copy_string:
  assumes "length t + length b < INI_MAX_FILE_SIZE"
  shows "copy_to (zeros_behind t) (length t) (b @ [0]) = Some (zeros_behind (t @ b))"
proof -
  have "INI_MAX_FILE_SIZE - (length t + length b) = Suc (INI_MAX_FILE_SIZE - Suc (length t + length b))"
    using assms by simp
  then have "zeros_behind ((t @ b) @ [0]) = zeros_behind (t @ b)"
    by (simp add: zeros_behind_def)
  then show ?thesis using copy_behind [of t "b @ [0]"] assms by simp
qed

lemma zeros_behind_0: "replicate INI_MAX_FILE_SIZE 0 = zeros_behind []"
  by (simp add: zeros_behind_def)

lemma new_text_copy:
  fixes T :: "u8 list"
  assumes "length T < INI_MAX_FILE_SIZE" "n = length t"
  shows
    "t = X @ v0 @ Y \<Longrightarrow> T = X @ v @ Y \<Longrightarrow> ip_sec r = Some (s, b) \<Longrightarrow>
     ip_key r = Some (k, ke, length X, length X + length v0) \<Longrightarrow>
     new_text (t @ rest) n r sec key v = Some (zeros_behind T)"
    "t = X @ Y \<Longrightarrow> T = X @ key_line key v @ Y \<Longrightarrow> ip_sec r = Some (s, length X) \<Longrightarrow> ip_key r = None \<Longrightarrow>
     new_text (t @ rest) n r sec key v = Some (zeros_behind T)"
    "t \<noteq> [] \<Longrightarrow> T = t @ LINE_CHANGE # section_text sec key v \<Longrightarrow> ip_sec r = None \<Longrightarrow>
     new_text (t @ rest) n r sec key v = Some (zeros_behind T)"
    "t = [] \<Longrightarrow> T = section_text sec key v \<Longrightarrow> ip_sec r = None \<Longrightarrow>
     new_text p n r sec key v = Some (zeros_behind T)"
proof -
  have start: "copy_to (zeros_behind []) 0 x = Some (zeros_behind x)" if "length x \<le> INI_MAX_FILE_SIZE" for x
    using copy_behind [of "[]" x] that by simp
  show "new_text (t @ rest) n r sec key v = Some (zeros_behind T)"
    if "t = X @ v0 @ Y" "T = X @ v @ Y" "ip_sec r = Some (s, b)" "ip_key r = Some (k, ke, length X, length X + length v0)"
    using that assms copy_behind [of X v] copy_behind [of "X @ v" Y] start [of X]
    by (simp add: new_text_def zeros_behind_0)
  show "new_text (t @ rest) n r sec key v = Some (zeros_behind T)"
    if "t = X @ Y" "T = X @ key_line key v @ Y" "ip_sec r = Some (s, length X)" "ip_key r = None"
  proof -
    have k: "length X + length key + length v + 2 = length (X @ key_line key v)" by (simp add: key_line_def)
    show ?thesis unfolding new_text_def zeros_behind_0 Let_def that(3,4) option.case prod.case k
      using that assms copy_string [of X "key_line key v"] copy_behind [of "X @ key_line key v" Y] start [of X]
      by simp
  qed
  show "new_text (t @ rest) n r sec key v = Some (zeros_behind T)"
    if "t \<noteq> []" "T = t @ LINE_CHANGE # section_text sec key v" "ip_sec r = None"
    using that assms start [of t] copy_string [of t "LINE_CHANGE # section_text sec key v"]
    by (simp add: new_text_def zeros_behind_0)
  show "new_text p n r sec key v = Some (zeros_behind T)"
    if "t = []" "T = section_text sec key v" "ip_sec r = None"
    using that assms copy_string [of "[]" "section_text sec key v"]
    by (simp add: new_text_def zeros_behind_0)
qed

lemma save_zeros:
  assumes "plain T" "length T < INI_MAX_FILE_SIZE"
  shows "SaveIniFile io fs name (zeros_behind T) =
    (if \<not> io_open_w io then Some (Ret_err INI_ERR_OPEN_FILE_FOR_WRITE, fs)
     else if io_puts io then Some (Ret_ok, fs(name \<mapsto> T)) else Some (Ret_err INI_ERR_WRITE_FILE, fs(name \<mapsto> io_left io)))"
proof -
  obtain m where "INI_MAX_FILE_SIZE - length T = Suc m" using assms(2) by (metis Suc_diff_Suc)
  then have "zeros_behind T = T @ 0 # replicate m 0" by (simp add: zeros_behind_def)
  moreover have "takeWhile (\<lambda>c. c \<noteq> 0) (T @ 0 # replicate m 0) = T" using assms(1) by (auto simp: plain_def takeWhile_tail)
  ultimately show ?thesis by (simp add: SaveIniFile_def)
qed

section \<open>Reading and writing\<close>

lemma load_render:
  assumes "fs name = Some t" "plain t" "length t < INI_MAX_FILE_SIZE" "length junk = INI_MAX_FILE_SIZE"
  shows "LoadIniFile fs name junk = Inr (t @ 0 # drop (Suc (length t)) junk, length t)"
  using assms load_chars_text [of t 0 junk] by (simp add: LoadIniFile_def plain_def)

definition ini_there :: "ini_io \<Rightarrow> ini_fs \<Rightarrow> u8 list \<Rightarrow> ini \<Rightarrow> bool" where
  "ini_there io fs name f \<longleftrightarrow> ini_ok f \<and> fs name = Some (render f) \<and> length (render f) < INI_MAX_FILE_SIZE \<and>
     length (io_junk io) = INI_MAX_FILE_SIZE \<and> io_mem io"

definition read_result :: "u8 list option \<Rightarrow> u8 list \<Rightarrow> nat \<Rightarrow> u8 list option \<Rightarrow> (ini_ret \<times> u8 list) option" where
  "read_result v out n dflt =
     (case v of
        Some v \<Rightarrow> Some (Ret_ok, take (n - 1) v @ 0 # drop (Suc (min (n - 1) (length v))) out)
      | None \<Rightarrow> or_default dflt out n INI_ERR_PARSE_FILE)"

lemma read_lookup:
  assumes "ini_there io fs name f" "name \<noteq> []" "sec \<noteq> []" "key \<noteq> []" "0 < n" "nat n \<le> length out"
  shows "IniReadString io fs (Some name) (Some sec) (Some key) (Some out) n dflt =
    read_result (get_value sec key f) out (nat n) dflt"
proof -
  let ?r = "\<lparr> ip_sec = None, ip_key = None \<rparr>" and ?rest = "drop (Suc (length (render f))) (io_junk io)"
  have f: "ini_ok f" "list_all section_ok (snd f)" using assms(1) by (auto simp: ini_there_def ini_ok_def)
  have l: "LoadIniFile fs name (io_junk io) = Inr (render f @ 0 # ?rest, length (render f))"
    using assms(1) load_render render_plain by (auto simp: ini_there_def)
  have p: "ParseFile (render f @ 0 # ?rest) sec key = Some (pos_in sec key (length (fst f)) (snd f) ?r)"
    by (rule parse_file [OF f(1) assms(3,4)])
  show ?thesis
  proof (cases "get_value sec key f")
    case None
    then have "fst (pos_in sec key (length (fst f)) (snd f) ?r) = False"
    proof (cases "sec \<in> fst ` set (snd f)")
      case True
      show ?thesis by (rule pos_section [of sec key "snd f" "length (fst f)" ?r]) (use None True in \<open>simp_all add: get_value_def\<close>)
    qed (simp add: pos_none)
    then show ?thesis using assms l p None
      by (cases "pos_in sec key (length (fst f)) (snd f) ?r") (simp add: IniReadString_def read_result_def ini_there_def)
  next
    case (Some v)
    then have g: "get_in sec key (snd f) = Some v" by (simp add: get_value_def)
    obtain X Y s b k ke where q: "pos_in sec key (length (fst f)) (snd f) ?r = (True, \<lparr> ip_sec = Some (s, b),
        ip_key = Some (k, ke, length (fst f) + length X, length (fst f) + length X + length v) \<rparr>)"
      and t: "sections_text (snd f) = X @ v @ Y"
      by (rule pos_found [OF f(2) g, of "length (fst f)" ?r])
    have "render f @ 0 # ?rest = fst f @ X @ v @ Y @ 0 # ?rest" by (simp add: render_def t)
    then have v: "take (min (length v) (nat n - 1)) (drop (length (fst f) + length X) (render f @ 0 # ?rest)) = take (nat n - 1) v"
      by (simp add: min_def)
    have "copy_to out 0 (take (nat n - 1) v @ [0]) =
        Some (take (nat n - 1) v @ 0 # drop (Suc (min (nat n - 1) (length v))) out)"
      using assms(5,6) by (auto simp: copy_to_def min_def)
    then have c: "copy_to out 0 (take (min (length v) (nat n - 1))
          (drop (length (fst f) + length X) (render f @ 0 # ?rest)) @ [0]) =
        Some (take (nat n - 1) v @ 0 # drop (Suc (min (nat n - 1) (length v))) out)"
      unfolding v .
    have "\<not> n \<le> 0" "io_mem io" using assms(1,5) by (simp_all add: ini_there_def)
    then show ?thesis using assms(2-4) c unfolding IniReadString_def read_result_def Some
      by (simp add: l p q del: drop_append take_append)
  qed
qed

text \<open>The text before the write: a missing file counts as an empty one.\<close>

definition ini_before :: "ini_io \<Rightarrow> ini_fs \<Rightarrow> u8 list \<Rightarrow> ini \<Rightarrow> bool" where
  "ini_before io fs name f \<longleftrightarrow> (fs name = None \<and> f = ([], []) \<and> length (io_junk io) = INI_MAX_FILE_SIZE \<and> io_mem io
     \<or> ini_there io fs name f) \<and> io_mem2 io"

lemma render_put:
  "get_value sec key f = Some v0 \<Longrightarrow> render (put_value sec key v f) = fst f @ sections_text (replace_in sec key v (snd f))"
  "get_value sec key f = None \<Longrightarrow> sec \<in> fst ` set (snd f) \<Longrightarrow>
   render (put_value sec key v f) = fst f @ sections_text (insert_in sec key v (snd f))"
  by (simp_all add: put_value_def render_def)

lemma line_end_text: "ss \<noteq> [] \<Longrightarrow> sections_text (add_line_end ss) = sections_text ss @ [LINE_CHANGE]"
  by (induction ss rule: add_line_end.induct) (auto simp: render_section_def)

lemma render_add:
  "sec \<notin> fst ` set (snd f) \<Longrightarrow>
   render (put_value sec key v f) = render f @ (if render f = [] then [] else [LINE_CHANGE]) @ section_text sec key v"
  by (cases "snd f") (auto simp: put_value_def get_value_def get_in_none add_section_def render_def
      section_text_def line_end_text render_section_def)

lemma write_text:
  assumes "ini_there io fs name f" "sec \<noteq> []" "key \<noteq> []" "length (render (put_value sec key v f)) < INI_MAX_FILE_SIZE"
  obtains rest r where "LoadIniFile fs name (io_junk io) = Inr (render f @ rest, length (render f))"
    "map_option snd (ParseFile (render f @ rest) sec key) = Some r"
    "new_text (render f @ rest) (length (render f)) r sec key v = Some (zeros_behind (render (put_value sec key v f)))"
proof -
  let ?r = "\<lparr> ip_sec = None, ip_key = None \<rparr>" and ?rest = "0 # drop (Suc (length (render f))) (io_junk io)"
  let ?q = "pos_in sec key (length (fst f)) (snd f) ?r"
  have f: "ini_ok f" "list_all section_ok (snd f)" using assms(1) by (auto simp: ini_there_def ini_ok_def)
  have l: "LoadIniFile fs name (io_junk io) = Inr (render f @ ?rest, length (render f))"
    using assms(1) load_render render_plain by (auto simp: ini_there_def)
  have p: "map_option snd (ParseFile (render f @ ?rest) sec key) = Some (snd ?q)"
    using parse_file [OF f(1) assms(2,3)] by simp
  have "new_text (render f @ ?rest) (length (render f)) (snd ?q) sec key v =
    Some (zeros_behind (render (put_value sec key v f)))"
  proof (cases "get_value sec key f")
    case (Some v0)
    then have g: "get_in sec key (snd f) = Some v0" by (simp add: get_value_def)
    obtain X Y s b k ke where "?q = (True, \<lparr> ip_sec = Some (s, b),
        ip_key = Some (k, ke, length (fst f) + length X, length (fst f) + length X + length v0) \<rparr>)"
      "sections_text (snd f) = X @ v0 @ Y" "\<And>v'. sections_text (replace_in sec key v' (snd f)) = X @ v' @ Y"
      by (rule pos_found [OF f(2) g that])
    then show ?thesis using render_put(1) [OF Some, of v]
      by (intro new_text_copy(1) [OF assms(4) refl, where X = "fst f @ X" and Y = Y]) (simp_all add: render_def)
  next
    case None
    then have g: "get_in sec key (snd f) = None" by (simp add: get_value_def)
    show ?thesis
    proof (cases "sec \<in> fst ` set (snd f)")
      case True
      obtain X Y s where "?q = (False, ?r\<lparr> ip_sec := Some (s, length (fst f) + length X) \<rparr>)"
        "sections_text (snd f) = X @ Y" "\<And>v. sections_text (insert_in sec key v (snd f)) = X @ key_line key v @ Y"
        by (rule pos_section [OF g True that])
      then show ?thesis using render_put(2) [OF None True, of v]
        by (intro new_text_copy(2) [OF assms(4) refl, where X = "fst f @ X" and Y = Y]) (simp_all add: render_def)
    next
      case False
      then show ?thesis using new_text_copy(3,4) [OF assms(4) refl] render_add [OF False, of key v]
        by (cases "render f = []") (simp_all add: pos_none)
    qed
  qed
  then show thesis using that l p by blast
qed

definition saved :: "ini_io \<Rightarrow> ini_fs \<Rightarrow> u8 list \<Rightarrow> u8 list \<Rightarrow> ini_ret \<times> ini_fs" where
  "saved io fs name T =
    (if \<not> io_open_w io then (Ret_err INI_ERR_OPEN_FILE_FOR_WRITE, fs)
     else if io_puts io then (Ret_ok, fs(name \<mapsto> T)) else (Ret_err INI_ERR_WRITE_FILE, fs(name \<mapsto> io_left io)))"

lemma write_put:
  assumes "ini_before io fs name f" "name \<noteq> []" "name_ok sec" "key_ok key" "value_ok v"
    "length (render (put_value sec key v f)) < INI_MAX_FILE_SIZE"
  shows "IniWriteString io fs (Some name) (Some sec) (Some key) (Some v) =
    Some (saved io fs name (render (put_value sec key v f)))"
proof -
  have n: "sec \<noteq> []" "key \<noteq> []" using assms(3,4) by (auto simp: name_ok_def key_ok_def)
  have "ini_ok f" using assms(1) by (auto simp: ini_before_def ini_there_def ini_ok_def)
  then have "plain (render (put_value sec key v f))" by (intro render_plain put_ok assms)
  then have s: "SaveIniFile io fs name (zeros_behind (render (put_value sec key v f))) =
      Some (saved io fs name (render (put_value sec key v f)))"
    using save_zeros assms(6) by (simp add: saved_def)
  show ?thesis
  proof (cases "ini_there io fs name f")
    case True
    obtain rest r where w: "LoadIniFile fs name (io_junk io) = Inr (render f @ rest, length (render f))"
      "map_option snd (ParseFile (render f @ rest) sec key) = Some r"
      "new_text (render f @ rest) (length (render f)) r sec key v = Some (zeros_behind (render (put_value sec key v f)))"
      by (rule write_text [OF True n assms(6)])
    then show ?thesis using assms(1,2) True n s
      by (auto simp: IniWriteString_def ini_before_def ini_there_def Let_def)
  next
    case False
    then have h: "fs name = None" "f = ([], [])" "io_mem io" "io_mem2 io" using assms(1) by (auto simp: ini_before_def)
    have "render (put_value sec key v f) = section_text sec key v"
      using render_add [of sec f key v] h(2) by (simp add: render_def)
    then have "new_text (io_junk io) 0 \<lparr> ip_sec = None, ip_key = None \<rparr> sec key v =
        Some (zeros_behind (render (put_value sec key v f)))"
      using assms(6) by (intro new_text_copy(4) [of _ _ "[]"]) simp_all
    then show ?thesis using h assms(2) n s by (simp add: IniWriteString_def LoadIniFile_def)
  qed
qed

section \<open>Properties\<close>

text \<open>A small file: two sections, a comment, an entry in each.\<close>

definition sample :: ini where
  "sample = ([], [([97], [10, 59, 99, 10, 107, 61, 49, 50, 10]), ([98], [10, 107, 61, 51, 10])])"

definition sample_io :: ini_io where
  "sample_io = \<lparr> io_mem = True, io_mem2 = True, io_open_w = True, io_puts = True, io_left = [],
     io_junk = replicate INI_MAX_FILE_SIZE 7 \<rparr>"

definition sample_fs :: ini_fs where "sample_fs = (\<lambda>_. None)([102] \<mapsto> render sample)"

lemmas sample_simps = sample_def sample_io_def sample_fs_def ini_there_def ini_before_def ini_ok_def section_ok_def
  ended_def render_def render_section_def plain_def name_ok_def key_ok_def value_ok_def ini_tests ini_chars
  c_isspace_def INI_MAX_FILE_SIZE_def

lemma sample_there: "ini_there sample_io sample_fs [102] sample"
  by (simp add: sample_simps)

lemma sample_entry:
  "find_line [107] [59, 99, 10, 107, 61, 49, 50, 10] = Some ([59, 99, 10], [49, 50], [10])"
  "find_line [107] [107, 61, 51, 10] = Some ([], [51], [10])"
  by (simp_all add: find_line.simps Let_def entry_line_def ini_tests ini_chars)

lemma sample_values: "get_value [97] [107] sample = Some [49, 50]" "get_value [98] [107] sample = Some [51]"
  "get_value [99] [107] sample = None"
  by (simp_all add: get_value_def sample_def c_isspace_def sample_entry)

lemma sample_put:
  "put_value [97] [107] [57] sample = ([], [([97], [10, 59, 99, 10, 107, 61, 57, 10]), ([98], [10, 107, 61, 51, 10])])"
  using sample_values(1) by (simp add: put_value_def) (simp add: sample_def c_isspace_def sample_entry EQUALS_def)

text \<open>C14: Reading a key of a well-formed file gives the value of the first section of that name that has it, cut to
  the size of the buffer, or the default when there is none.\<close>

theorem ini_read_value:
  assumes "ini_there io fs name f" "name \<noteq> []" "sec \<noteq> []" "key \<noteq> []" "0 < n" "nat n \<le> length out"
  shows "IniReadString io fs (Some name) (Some sec) (Some key) (Some out) n dflt =
    (case get_value sec key f of
       Some v \<Rightarrow> Some (Ret_ok, take (nat n - 1) v @ 0 # drop (Suc (min (nat n - 1) (length v))) out)
     | None \<Rightarrow> or_default dflt out (nat n) INI_ERR_PARSE_FILE)"
  using read_lookup [OF assms] by (simp add: read_result_def)

theorem ini_read_value_witness:
  "IniReadString sample_io sample_fs (Some [102]) (Some [97]) (Some [107]) (Some [1, 1, 1, 1]) 4 None =
    Some (Ret_ok, [49, 50, 0, 1]) \<and>
   IniReadString sample_io sample_fs (Some [102]) (Some [99]) (Some [107]) (Some [1, 1, 1, 1]) 4 (Some [48]) =
    Some (Ret_default INI_ERR_PARSE_FILE, [48, 0, 0, 0])"
  using ini_read_value [OF sample_there, of "[97]" "[107]" 4 "[1, 1, 1, 1]" None]
    ini_read_value [OF sample_there, of "[99]" "[107]" 4 "[1, 1, 1, 1]" "Some [48]"]
  by (simp add: sample_values or_default_def strncpy_def copy_to_def numeral_eq_Suc)

text \<open>C13: Writing a key leaves the file that renders the updated sections: the value replaced where it was found, else
  a line added to the last section of the name, else a section added; a failure gives its error.\<close>

theorem ini_write_value:
  assumes "ini_before io fs name f" "name \<noteq> []" "name_ok sec" "key_ok key" "value_ok v"
    "length (render (put_value sec key v f)) < INI_MAX_FILE_SIZE"
  shows "IniWriteString io fs (Some name) (Some sec) (Some key) (Some v) =
    Some (if \<not> io_open_w io then (Ret_err INI_ERR_OPEN_FILE_FOR_WRITE, fs)
      else if io_puts io then (Ret_ok, fs(name \<mapsto> render (put_value sec key v f)))
      else (Ret_err INI_ERR_WRITE_FILE, fs(name \<mapsto> io_left io)))"
  using write_put [OF assms] by (simp add: saved_def)

theorem ini_write_value_witness:
  "\<exists>fs'. IniWriteString sample_io sample_fs (Some [102]) (Some [97]) (Some [107]) (Some [57]) = Some (Ret_ok, fs') \<and>
     fs' [102] = Some [91, 97, 93, 10, 59, 99, 10, 107, 61, 57, 10, 91, 98, 93, 10, 107, 61, 51, 10]"
proof -
  have r: "render (put_value [97] [107] [57] sample) =
      [91, 97, 93, 10, 59, 99, 10, 107, 61, 57, 10, 91, 98, 93, 10, 107, 61, 51, 10]"
    unfolding sample_put by (simp add: render_def render_section_def ini_chars)
  have "ini_before sample_io sample_fs [102] sample" "name_ok [97]" "key_ok [107]" "value_ok [57]"
    "io_open_w sample_io" "io_puts sample_io"
    using sample_there by (simp_all add: ini_before_def sample_io_def sample_simps(11-))
  with ini_write_value [of sample_io sample_fs "[102]" sample "[97]" "[107]" "[57]"] show ?thesis
    unfolding r by (simp add: INI_MAX_FILE_SIZE_def)
qed

text \<open>C12: After a key was written, reading it gives the value written, and every other key of the file reads as before.\<close>

theorem ini_write_then_read:
  assumes "ini_before io fs name f" "name \<noteq> []" "name_ok sec" "key_ok key" "value_ok v"
    "length (render (put_value sec key v f)) < INI_MAX_FILE_SIZE" "io_open_w io" "io_puts io"
    "sec' \<noteq> []" "key' \<noteq> []" "0 < n" "nat n \<le> length out"
  shows "\<exists>fs'. IniWriteString io fs (Some name) (Some sec) (Some key) (Some v) = Some (Ret_ok, fs') \<and>
    IniReadString io fs' (Some name) (Some sec) (Some key) (Some out) n dflt =
      Some (Ret_ok, take (nat n - 1) v @ 0 # drop (Suc (min (nat n - 1) (length v))) out) \<and>
    (fs name \<noteq> None \<and> (sec' \<noteq> sec \<or> key' \<noteq> key) \<longrightarrow>
      IniReadString io fs' (Some name) (Some sec') (Some key') (Some out) n dflt =
      IniReadString io fs (Some name) (Some sec') (Some key') (Some out) n dflt)"
proof -
  let ?f = "put_value sec key v f" and ?fs = "fs(name \<mapsto> render (put_value sec key v f))"
  have f: "ini_ok f" and n: "sec \<noteq> []" "key \<noteq> []"
    using assms(1,3,4) by (auto simp: ini_before_def ini_there_def ini_ok_def name_ok_def key_ok_def)
  have t: "ini_there io ?fs name ?f"
    using assms(1,6) put_ok [OF f assms(3-5)] by (auto simp: ini_before_def ini_there_def)
  have r: "IniReadString io ?fs (Some name) (Some s) (Some k) (Some out) n dflt =
      read_result (if s = sec \<and> k = key then Some v else get_value s k f) out (nat n) dflt"
    if "s \<noteq> []" "k \<noteq> []" for s k
    unfolding read_lookup [OF t assms(2) that assms(11,12)] get_put [OF f assms(4,5)] by (rule refl)
  have "fs name \<noteq> None \<and> (sec' \<noteq> sec \<or> key' \<noteq> key) \<longrightarrow>
      IniReadString io ?fs (Some name) (Some sec') (Some key') (Some out) n dflt =
      IniReadString io fs (Some name) (Some sec') (Some key') (Some out) n dflt"
  proof
    assume a: "fs name \<noteq> None \<and> (sec' \<noteq> sec \<or> key' \<noteq> key)"
    then have "ini_there io fs name f" using assms(1) by (auto simp: ini_before_def)
    then show "IniReadString io ?fs (Some name) (Some sec') (Some key') (Some out) n dflt =
        IniReadString io fs (Some name) (Some sec') (Some key') (Some out) n dflt"
      using a by (simp only: r [OF assms(9,10)] read_lookup [OF _ assms(2,9-12)]) auto
  qed
  moreover have "IniReadString io ?fs (Some name) (Some sec) (Some key) (Some out) n dflt =
      Some (Ret_ok, take (nat n - 1) v @ 0 # drop (Suc (min (nat n - 1) (length v))) out)"
    using r [OF n] by (simp add: read_result_def)
  moreover have "IniWriteString io fs (Some name) (Some sec) (Some key) (Some v) = Some (Ret_ok, ?fs)"
    using write_put [OF assms(1-6)] assms(7,8) by (simp add: saved_def)
  ultimately show ?thesis by blast
qed

theorem ini_write_then_read_witness:
  "\<exists>fs'. IniWriteString sample_io sample_fs (Some [102]) (Some [97]) (Some [107]) (Some [57]) = Some (Ret_ok, fs') \<and>
     IniReadString sample_io fs' (Some [102]) (Some [97]) (Some [107]) (Some [1, 1, 1, 1]) 4 None = Some (Ret_ok, [57, 0, 1, 1]) \<and>
     IniReadString sample_io fs' (Some [102]) (Some [98]) (Some [107]) (Some [1, 1, 1, 1]) 4 None =
     IniReadString sample_io sample_fs (Some [102]) (Some [98]) (Some [107]) (Some [1, 1, 1, 1]) 4 None"
proof -
  have "length (render (put_value [97] [107] [57] sample)) < INI_MAX_FILE_SIZE"
    unfolding sample_put by (simp add: render_def render_section_def INI_MAX_FILE_SIZE_def)
  moreover have "ini_before sample_io sample_fs [102] sample" "name_ok [97]" "key_ok [107]" "value_ok [57]"
    "io_open_w sample_io" "io_puts sample_io" "sample_fs [102] \<noteq> None"
    using sample_there by (simp_all add: ini_before_def sample_io_def sample_simps(11-) sample_fs_def)
  ultimately show ?thesis
    using ini_write_then_read [of sample_io sample_fs "[102]" sample "[97]" "[107]" "[57]" "[98]" "[107]" 4 "[1, 1, 1, 1]" None]
    by simp
qed

lemma find_key_line:
  assumes "key_ok key" "value_ok v"
  shows "find_line key (key_line key v) = Some ([], v, [LINE_CHANGE])"
proof -
  have e: "entry_line key (key @ EQUALS # v)" by (rule entry_lineI [OF assms(1)])
  have "find_line key ((key @ EQUALS # v) @ LINE_CHANGE # []) =
      Some ([], tl (dropWhile (\<lambda>c. c \<noteq> EQUALS) (key @ EQUALS # v)), [LINE_CHANGE])"
    by (subst find_line_step) (use assms e in \<open>auto simp: key_ok_def value_ok_def\<close>)
  moreover have "\<forall>c\<in>set key. c \<noteq> EQUALS" using assms(1) by (auto simp: key_ok_def)
  ultimately show ?thesis by (simp add: key_line_def dropWhile_append2)
qed

text \<open>A last line without its end: what follows the zero byte in the buffer is read as the next line.\<close>

definition stale_io :: "ini_io \<Rightarrow> u8 list \<Rightarrow> u8 list \<Rightarrow> u8 list \<Rightarrow> bool" where
  "stale_io io t key v \<longleftrightarrow> io_mem io \<and> length (io_junk io) = INI_MAX_FILE_SIZE \<and>
     (\<exists>z. drop (Suc (length t)) (io_junk io) = key_line key v @ 0 # z)"

lemma parse_stale:
  assumes "name_ok sec" "key_ok key" "value_ok v" "l \<noteq> []" "plain l" "\<forall>c\<in>set l. \<not> IsNewLine c" "\<not> c_isspace (hd l)"
    "hd l \<noteq> LEFT_BRACE" "\<not> entry_line key l" "t = LEFT_BRACE # sec @ RIGHT_BRACE # LINE_CHANGE # l"
  obtains s k ke where "ParseFile (t @ 0 # key_line key v @ 0 # z) sec key =
    Some (True, \<lparr> ip_sec = s, ip_key = Some (k, ke, length t + 2 + length key, length t + 2 + length key + length v) \<rparr>)"
proof -
  let ?u = "LEFT_BRACE # sec @ RIGHT_BRACE # [LINE_CHANGE]" and ?r = "\<lparr> ip_sec = None, ip_key = None \<rparr>"
  let ?p = "t @ 0 # key_line key v @ 0 # z"
  have n: "sec \<noteq> []" "plain sec" "RIGHT_BRACE \<notin> set sec" "key \<noteq> []" using assms(1,2) by (auto simp: name_ok_def key_ok_def)
  obtain a l' where l: "l = a # l'" "\<not> c_isspace a" "a \<noteq> LEFT_BRACE" "a \<noteq> 0"
    using assms(4,5,7,8) by (cases l) (auto simp: plain_def)
  have p: "?p = ?u @ l @ 0 # key_line key v @ 0 # z" by (simp add: assms(10))
  have lt: "length t = length ?u + length l" by (simp add: assms(10))
  have g: "skip_space ?p (Suc (Suc (length sec))) = Some (length ?u)"
    using seek_at [of "[LINE_CHANGE]" "\<lambda>c. \<not> c_isspace c" a "LEFT_BRACE # sec @ [RIGHT_BRACE]" "l' @ 0 # key_line key v @ 0 # z"]
      l by (simp add: skip_space_def assms(10))
  have e: "line_end ?p (length ?u) = Some (length t)"
    using seek_at [of l "\<lambda>c. IsNewLine c \<or> IsStrEnd c" 0 ?u "key_line key v @ 0 # z"] assms(5,6)
    unfolding line_end_def p by (auto simp: IsStrEnd_def plain_def assms(10))
  have sc: "(if ?p ! length ?u = COMMENT then Some None else key_scan ?p key (length ?u) (length ?u) (length t)) = Some None"
    using scan_line [OF n(4) disjI2 [OF refl], of ?u l "key_line key v @ 0 # z"]
    unfolding p lt by (simp only: assms(9) if_False)
  have "section_lines ?p key (length ?u) = section_lines ?p key (Suc (length t))"
    using section_lines_step [OF _ _ _ _ e sc] l by (simp add: assms(10) nth_append IsLeftBrace_def)
  also have "\<dots> = Some (Inr (Suc (length t), Suc (length t + length key), Suc (length t + length key) + 1 + length v))"
    using section_lines_text [of "key_line key v" "t @ [0]" 0 key z] key_line_quiet [OF assms(2,3)] n(4)
      find_key_line [OF assms(2,3)] key_line_last [of key v] by (simp add: ended_def)
  finally have lines: "section_lines ?p key (length ?u) =
    Some (Inr (Suc (length t), Suc (length t + length key), Suc (length t + length key) + 1 + length v))" .
  have "parse_file_loop ([] @ LEFT_BRACE # sec @ RIGHT_BRACE # LINE_CHANGE # l @ 0 # key_line key v @ 0 # z) sec key (length ([] :: u8 list)) ?r =
      Some (True, \<lparr> ip_sec = Some (1, length ?u), ip_key = Some (Suc (length t), length t + length key,
        Suc (Suc (length t + length key)), Suc (length t + length key) + 1 + length v) \<rparr>)"
    using parse_open [of "[]" sec "LINE_CHANGE # l @ 0 # key_line key v @ 0 # z" sec key ?r] n g lines
    by (simp add: assms(10))
  then show thesis using that n by (simp add: ParseFile_def assms(10))
qed

text \<open>C15: When the last line of the section has no line end, the search runs past the end of the text: a key
  the file does not have is found in what the buffer happens to hold behind it.\<close>

theorem ini_stale_value:
  assumes "name \<noteq> []" "name_ok sec" "key_ok key" "value_ok v" "0 < n" "nat n \<le> length out"
    "l \<noteq> []" "plain l" "\<forall>c\<in>set l. \<not> IsNewLine c" "\<not> c_isspace (hd l)" "hd l \<noteq> LEFT_BRACE" "\<not> entry_line key l"
    "t = LEFT_BRACE # sec @ RIGHT_BRACE # LINE_CHANGE # l" "fs name = Some t" "length t < INI_MAX_FILE_SIZE"
    "stale_io io t key v"
  shows "IniReadString io fs (Some name) (Some sec) (Some key) (Some out) n dflt =
    Some (Ret_ok, take (nat n - 1) v @ 0 # drop (Suc (min (nat n - 1) (length v))) out)"
proof -
  obtain z where z: "drop (Suc (length t)) (io_junk io) = key_line key v @ 0 # z"
    and io: "io_mem io" "length (io_junk io) = INI_MAX_FILE_SIZE" using assms(16) by (auto simp: stale_io_def)
  have "plain t" using assms(2,8,13) by (simp add: name_ok_def ini_chars)
  then have ld: "LoadIniFile fs name (io_junk io) = Inr (t @ 0 # key_line key v @ 0 # z, length t)"
    using load_render [of fs name t "io_junk io"] assms(14,15) io(2) z by simp
  obtain s k ke where p: "ParseFile (t @ 0 # key_line key v @ 0 # z) sec key =
      Some (True, \<lparr> ip_sec = s, ip_key = Some (k, ke, length t + 2 + length key, length t + 2 + length key + length v) \<rparr>)"
    by (rule parse_stale [OF assms(2-4,7-13)])
  have "t @ 0 # key_line key v @ 0 # z = (t @ [0] @ key @ [EQUALS]) @ v @ LINE_CHANGE # 0 # z"
    by (simp add: key_line_def)
  then have v: "take (min (length v) (nat n - 1)) (drop (length t + 2 + length key) (t @ 0 # key_line key v @ 0 # z)) =
      take (nat n - 1) v" by (simp add: min_def)
  have "copy_to out 0 (take (nat n - 1) v @ [0]) =
      Some (take (nat n - 1) v @ 0 # drop (Suc (min (nat n - 1) (length v))) out)"
    using assms(5,6) by (auto simp: copy_to_def min_def)
  then have c: "copy_to out 0 (take (min (length v) (nat n - 1))
        (drop (length t + 2 + length key) (t @ 0 # key_line key v @ 0 # z)) @ [0]) =
      Some (take (nat n - 1) v @ 0 # drop (Suc (min (nat n - 1) (length v))) out)"
    unfolding v .
  have "sec \<noteq> []" "key \<noteq> []" "\<not> n \<le> 0" using assms(2,3,5) by (auto simp: name_ok_def key_ok_def)
  then show ?thesis using assms(1) io(1) c unfolding IniReadString_def
    by (simp add: ld p del: drop_append take_append)
qed

theorem ini_stale_value_witness:
  "let junk = replicate 6 7 @ [107, 61, 49, 10, 0] @ replicate (INI_MAX_FILE_SIZE - 11) 7 in
   IniReadString (sample_io\<lparr> io_junk := junk \<rparr>) [[102] \<mapsto> [91, 97, 93, 10, 120]] (Some [102]) (Some [97]) (Some [107])
     (Some [1, 1, 1, 1]) 4 None = Some (Ret_ok, [49, 0, 1, 1])"
proof -
  let ?io = "sample_io\<lparr> io_junk := replicate 6 7 @ [107, 61, 49, 10, 0] @ replicate (INI_MAX_FILE_SIZE - 11) 7 \<rparr>"
  have "stale_io ?io [91, 97, 93, 10, 120] [107] [49]"
    by (simp add: stale_io_def sample_io_def key_line_def ini_chars INI_MAX_FILE_SIZE_def)
  moreover have "name_ok [97]" "key_ok [107]" "value_ok [49]" "\<not> entry_line [107] [120]"
    by (simp_all add: sample_simps entry_line_def)
  ultimately show ?thesis
    using ini_stale_value [of "[102]" "[97]" "[107]" "[49]" 4 "[1, 1, 1, 1]" "[120]" "[91, 97, 93, 10, 120]"
        "[[102] \<mapsto> [91, 97, 93, 10, 120]]" ?io None]
    by (simp add: Let_def ini_tests ini_chars c_isspace_def INI_MAX_FILE_SIZE_def [symmetric])
       (simp add: INI_MAX_FILE_SIZE_def)
qed

text \<open>A file that does not fit into the buffer is not read; writing a key replaces it by the new section alone.\<close>

lemma load_too_large:
  "0xFF \<notin> set cs \<Longrightarrow> INI_MAX_FILE_SIZE \<le> i + length cs \<Longrightarrow> cs \<noteq> [] \<Longrightarrow> i < INI_MAX_FILE_SIZE \<Longrightarrow>
   load_chars buf i cs = Inl INI_ERR_FILE_TOO_LARGE"
proof (induction buf i cs rule: load_chars.induct)
  case (2 buf i c cs)
  then show ?case by (cases "cs = []") auto
qed simp

theorem ini_write_large_file:
  assumes "fs name = Some t" "0xFF \<notin> set t" "INI_MAX_FILE_SIZE \<le> length t" "name \<noteq> []" "name_ok sec" "key_ok key"
    "value_ok v" "length (section_text sec key v) < INI_MAX_FILE_SIZE" "io_mem io" "io_mem2 io" "io_open_w io" "io_puts io"
  shows "IniWriteString io fs (Some name) (Some sec) (Some key) (Some v) = Some (Ret_ok, fs(name \<mapsto> section_text sec key v))"
proof -
  have "t \<noteq> []" using assms(3) by (auto simp: INI_MAX_FILE_SIZE_def)
  then have l: "LoadIniFile fs name (io_junk io) = Inl INI_ERR_FILE_TOO_LARGE"
    using assms(1-3) load_too_large [of t 0] by (simp add: LoadIniFile_def INI_MAX_FILE_SIZE_def)
  have "plain (section_text sec key v)"
    using assms(5-7) by (simp add: section_text_def key_line_def name_ok_def key_ok_def value_ok_def ini_chars)
  moreover have "new_text (io_junk io) 0 \<lparr> ip_sec = None, ip_key = None \<rparr> sec key v = Some (zeros_behind (section_text sec key v))"
    using assms(8) by (intro new_text_copy(4) [of _ _ "[]"]) simp_all
  moreover have "sec \<noteq> []" "key \<noteq> []" using assms(5,6) by (auto simp: name_ok_def key_ok_def)
  ultimately show ?thesis using assms(4,8-) l save_zeros by (simp add: IniWriteString_def)
qed

text \<open>A number is read by \<open>atoi\<close>, which stops at the zero byte.\<close>

lemma atoi_end: "atoi (v @ 0 # r) = atoi v"
proof -
  have d: "dropWhile c_isspace (v @ 0 # r) = dropWhile c_isspace v @ 0 # r"
    by (induction v) auto
  have t: "takeWhile (\<lambda>c. 0x30 \<le> c \<and> c \<le> 0x39) (w @ 0 # r) = takeWhile (\<lambda>c. 0x30 \<le> c \<and> c \<le> 0x39) w" for w :: "u8 list"
    by (induction w) auto
  show ?thesis
  proof (cases "dropWhile c_isspace v")
    case Nil
    then show ?thesis unfolding atoi_def d Nil by (simp add: digits_val_def Let_def)
  next
    case (Cons a w)
    have "takeWhile (\<lambda>c. 0x30 \<le> c \<and> c \<le> 0x39) (a # w @ 0 # r) = takeWhile (\<lambda>c. 0x30 \<le> c \<and> c \<le> 0x39) (a # w)"
      using t [of "a # w"] by simp
    then show ?thesis unfolding atoi_def d Cons by (simp add: Let_def t)
  qed
qed

lemma ini_read_int:
  assumes "ini_there io fs name f" "name \<noteq> []" "sec \<noteq> []" "key \<noteq> []"
  shows "IniReadInt io fs (Some name) (Some sec) (Some key) dflt =
    (case get_value sec key f of Some v \<Rightarrow> atoi (take 31 v) | None \<Rightarrow> Some dflt)"
  using read_lookup [OF assms, of "int INT_VALUE_LEN" "replicate INT_VALUE_LEN 0" None]
  by (cases "get_value sec key f") (simp_all add: IniReadInt_def read_result_def or_default_def INT_VALUE_LEN_def atoi_end)

end
