(* ===== verification/Radix.thy ===== *)
theory Radix
  imports OfsPrelude
begin

text \<open>
  The radix tree of \<open>public/radix_tree.c\<close>: a node has 256 child pointers, indexed by the distance of a character
  from \<open>'0'\<close>, and a string. \<open>char\<close> is signed. A NULL dereference and an index outside the array have no result.
  The strings of a tree, in the order of a walk, are what was inserted, sorted.
\<close>

section \<open>Operations\<close>

definition CHILD_NUM :: nat where "CHILD_NUM = 256"

datatype RADIX_NODE = RADIX_NODE (childs: "RADIX_NODE option list") (node_str: "u8 list option")

text \<open>A node fresh from \<open>calloc\<close>; \<open>mem\<close> tells how many more calls succeed, a failed one is not noticed.\<close>

definition new_node :: RADIX_NODE where "new_node = RADIX_NODE (replicate CHILD_NUM None) None"

fun insert_from :: "nat \<Rightarrow> RADIX_NODE \<Rightarrow> u8 list \<Rightarrow> u8 list \<Rightarrow> (int \<times> RADIX_NODE \<times> nat) option" where
  "insert_from mem (RADIX_NODE cs s) [] w = Some (0, RADIX_NODE cs (Some w), mem)"
| "insert_from mem (RADIX_NODE cs s) (c # r) w =
     (let key = sint c - 0x30 in
      if int CHILD_NUM \<le> key then Some (- 1, RADIX_NODE cs s, mem)
      else if key < 0 then None
      else case cs ! nat key of
          Some n \<Rightarrow> map_option (\<lambda>(ret, n, mem). (ret, RADIX_NODE (cs[nat key := Some n]) s, mem)) (insert_from mem n r w)
        | None \<Rightarrow>
            if mem = 0 then None
            else map_option (\<lambda>(ret, n, mem). (ret, RADIX_NODE (cs[nat key := Some n]) s, mem)) (insert_from (mem - 1) new_node r w))"

definition RadixInsert :: "nat \<Rightarrow> RADIX_NODE \<Rightarrow> u8 list \<Rightarrow> (int \<times> RADIX_NODE \<times> nat) option" where
  "RadixInsert mem node w = insert_from mem node w w"

text \<open>A callback gets the string of a node, NULL for most of them, and works on a state of its own.\<close>

type_synonym 'a radix_cb = "u8 list option \<Rightarrow> 'a \<Rightarrow> int \<times> 'a"

fun walk_node :: "'a radix_cb option \<Rightarrow> RADIX_NODE \<Rightarrow> 'a \<Rightarrow> int \<times> 'a"
and walk_childs :: "'a radix_cb option \<Rightarrow> RADIX_NODE option list \<Rightarrow> 'a \<Rightarrow> int \<times> 'a" where
  "walk_node cb (RADIX_NODE cs s) x =
     (case cb of
        None \<Rightarrow> walk_childs cb cs x
      | Some f \<Rightarrow> (let (ret, x) = f s x in if ret < 0 then (ret, x) else walk_childs cb cs x))"
| "walk_childs cb [] x = (0, x)"
| "walk_childs cb (None # cs) x = walk_childs cb cs x"
| "walk_childs cb (Some n # cs) x =
     (let (ret, x) = walk_node cb n x in if ret < 0 then (ret, x) else walk_childs cb cs x)"

definition RadixWalkAll :: "'a radix_cb option \<Rightarrow> RADIX_NODE option \<Rightarrow> 'a \<Rightarrow> int \<times> 'a" where
  "RadixWalkAll cb node x = (case node of None \<Rightarrow> (0, x) | Some n \<Rightarrow> walk_node cb n x)"

text \<open>The release calls back before the children are released and frees the node after them; \<open>k\<close> counts the frees.\<close>

fun release_node :: "'a radix_cb option \<Rightarrow> RADIX_NODE \<Rightarrow> 'a \<times> nat \<Rightarrow> 'a \<times> nat"
and release_childs :: "'a radix_cb option \<Rightarrow> RADIX_NODE option list \<Rightarrow> 'a \<times> nat \<Rightarrow> 'a \<times> nat" where
  "release_node cb (RADIX_NODE cs s) (x, k) =
     (let x = (case cb of None \<Rightarrow> x | Some f \<Rightarrow> snd (f s x));
          (x, k) = release_childs cb cs (x, k)
      in (x, k + 1))"
| "release_childs cb [] xk = xk"
| "release_childs cb (None # cs) xk = release_childs cb cs xk"
| "release_childs cb (Some n # cs) xk = release_childs cb cs (release_node cb n xk)"

definition RadixRelease :: "'a radix_cb option \<Rightarrow> RADIX_NODE option \<Rightarrow> 'a \<times> nat \<Rightarrow> 'a \<times> nat" where
  "RadixRelease cb node xk = (case node of None \<Rightarrow> xk | Some n \<Rightarrow> release_node cb n xk)"

section \<open>The strings of a tree\<close>

text \<open>The string fields of all nodes in the order of a walk, and the strings among them.\<close>

primrec node_fields :: "RADIX_NODE \<Rightarrow> u8 list option list" where
  "node_fields (RADIX_NODE cs s) = s # concat (map (case_option [] id) (map (map_option node_fields) cs))"

definition child_fields :: "RADIX_NODE option list \<Rightarrow> u8 list option list" where
  "child_fields cs = concat (map (case_option [] node_fields) cs)"

lemma node_fields_eq [simp]: "node_fields (RADIX_NODE cs s) = s # child_fields cs"
  by (simp add: child_fields_def comp_def) (rule arg_cong [of _ _ concat], simp split: option.split)

declare node_fields.simps [simp del]

lemma child_fields_simps [simp]:
  "child_fields [] = []" "child_fields (None # cs) = child_fields cs"
  "child_fields (Some n # cs) = node_fields n @ child_fields cs" "child_fields (cs @ ds) = child_fields cs @ child_fields ds"
  by (simp_all add: child_fields_def)

definition strings :: "u8 list option list \<Rightarrow> u8 list list" where
  "strings xs = map the (filter (\<lambda>s. s \<noteq> None) xs)"

lemma strings_simps [simp]:
  "strings [] = []" "strings (None # xs) = strings xs" "strings (Some w # xs) = w # strings xs"
  "strings (xs @ ys) = strings xs @ strings ys"
  by (simp_all add: strings_def)

lemma child_fields_new [simp]: "child_fields (replicate k None) = []"
  by (induction k) auto

text \<open>Every string is the path to its node; characters from \<open>'0'\<close> to 127.\<close>

definition key_char :: "nat \<Rightarrow> u8" where "key_char k = of_nat (k + 48)"

inductive radix_ok :: "u8 list \<Rightarrow> RADIX_NODE \<Rightarrow> bool" where
  "length cs = CHILD_NUM \<Longrightarrow> s = None \<or> s = Some p \<Longrightarrow>
   (\<forall>k < CHILD_NUM. \<forall>n. cs ! k = Some n \<longrightarrow> k < 80 \<and> radix_ok (p @ [key_char k]) n) \<Longrightarrow>
   radix_ok p (RADIX_NODE cs s)"

inductive_simps radix_ok_node: "radix_ok p (RADIX_NODE cs s)"

definition radix_char :: "u8 \<Rightarrow> bool" where "radix_char c \<longleftrightarrow> 48 \<le> c \<and> c < 128"

lemma radix_char_key:
  assumes "radix_char c"
  shows "sint c - 48 = int (unat c - 48)" "unat c - 48 < 80" "key_char (unat c - 48) = c"
proof -
  have c: "48 \<le> unat c" "unat c < 128" using assms by (simp_all add: radix_char_def word_le_nat_alt word_less_nat_alt)
  have "uint c < 128" using c(2) by (metis of_nat_less_iff of_nat_numeral uint_nat)
  then have "sint c = uint c"
    using signed_take_bit_int_eq_self [of 7 "uint c"] uint_nonnegative [of c] by (simp add: sint_uint)
  then show "sint c - 48 = int (unat c - 48)" using c(1) by simp
  show "unat c - 48 < 80" using c by simp
  show "key_char (unat c - 48) = c" using c by (simp add: key_char_def)
qed

lemma new_node_ok: "radix_ok p new_node"
  by (simp add: new_node_def radix_ok_node)

section \<open>Inserting\<close>

lemma child_fields_update:
  assumes "k < length cs"
  shows "child_fields cs = child_fields (take k cs) @ (case cs ! k of None \<Rightarrow> [] | Some n \<Rightarrow> node_fields n) @ child_fields (drop (Suc k) cs)"
    "child_fields (cs[k := Some n]) = child_fields (take k cs) @ node_fields n @ child_fields (drop (Suc k) cs)"
proof -
  have "child_fields cs = child_fields (take k cs @ cs ! k # drop (Suc k) cs)" using assms by (simp add: id_take_nth_drop [symmetric])
  then show "child_fields cs = child_fields (take k cs) @ (case cs ! k of None \<Rightarrow> [] | Some n \<Rightarrow> node_fields n) @ child_fields (drop (Suc k) cs)"
    by (cases "cs ! k") simp_all
  show "child_fields (cs[k := Some n]) = child_fields (take k cs) @ node_fields n @ child_fields (drop (Suc k) cs)"
    using assms by (simp add: upd_conv_take_nth_drop)
qed

lemma insert_from_ok:
  assumes "radix_ok p node" "\<forall>c\<in>set r. radix_char c" "length r \<le> mem"
  shows "\<exists>node' mem'. insert_from mem node r (p @ r) = Some (0, node', mem') \<and> mem - length r \<le> mem' \<and> radix_ok p node' \<and>
    set (strings (node_fields node')) = insert (p @ r) (set (strings (node_fields node)))"
  using assms
proof (induction r arbitrary: p node mem)
  case Nil
  then show ?case by (cases node) (auto simp: radix_ok_node)
next
  case (Cons c r)
  obtain cs s where node: "node = RADIX_NODE cs s" by (cases node)
  have cs: "length cs = 256" "s = None \<or> s = Some p"
    and sub: "\<And>k n. k < 256 \<Longrightarrow> cs ! k = Some n \<Longrightarrow> k < 80 \<and> radix_ok (p @ [key_char k]) n"
    using Cons(2) by (auto simp: node radix_ok_node CHILD_NUM_def)
  define k where "k = unat c - 48"
  have k: "sint c - 48 = int k" "k < 80" "key_char k = c" using radix_char_key [of c] Cons(3) by (simp_all add: k_def)
  define n0 where "n0 = (case cs ! k of Some n \<Rightarrow> n | None \<Rightarrow> new_node)"
  define mem0 where "mem0 = (if cs ! k = None then mem - 1 else mem)"
  have "radix_ok (p @ [c]) n0" using sub [of k] k new_node_ok by (auto simp: n0_def split: option.split)
  moreover have "length r \<le> mem0" using Cons(4) by (auto simp: mem0_def)
  ultimately obtain n' mem' where n': "insert_from mem0 n0 r (p @ c # r) = Some (0, n', mem')" "mem0 - length r \<le> mem'"
    "radix_ok (p @ [c]) n'" "set (strings (node_fields n')) = insert (p @ c # r) (set (strings (node_fields n0)))"
    using Cons(1) [of "p @ [c]" n0 mem0] Cons(3) by auto
  have e: "insert_from mem node (c # r) (p @ c # r) = Some (0, RADIX_NODE (cs[k := Some n']) s, mem')"
    using n'(1) k Cons(4) by (auto simp: node Let_def CHILD_NUM_def n0_def mem0_def split: option.splits)
  have ok: "radix_ok p (RADIX_NODE (cs[k := Some n']) s)"
    using cs sub n'(3) k by (auto simp: radix_ok_node CHILD_NUM_def nth_list_update)
  have f0: "node_fields new_node = [None]" by (simp add: new_node_def)
  have "set (strings (node_fields (RADIX_NODE (cs[k := Some n']) s))) = insert (p @ c # r) (set (strings (node_fields node)))"
    using child_fields_update [of k cs] cs k n'(4) f0 unfolding node
    by (cases s; cases "cs ! k") (auto simp: n0_def)
  then show ?case using e ok n'(2) Cons(4) by (auto simp: mem0_def split: if_splits)
qed

lemma below_0:
  assumes "sint c < 48"
  shows "RadixInsert mem node (c # r) = None"
  using assms by (cases node) (simp add: RadixInsert_def Let_def CHILD_NUM_def)

section \<open>Walking\<close>

text \<open>Walking and releasing are loops over the fields.\<close>

fun call_all :: "'a radix_cb \<Rightarrow> u8 list option list \<Rightarrow> 'a \<Rightarrow> int \<times> 'a" where
  "call_all f [] x = (0, x)"
| "call_all f (s # ss) x = (let (ret, x) = f s x in if ret < 0 then (ret, x) else call_all f ss x)"

lemma call_all_append:
  "call_all f (xs @ ys) x = (let (ret, x) = call_all f xs x in if ret < 0 then (ret, x) else call_all f ys x)"
  by (induction xs arbitrary: x) (auto split: prod.split)

lemma walk_calls_all:
  "walk_node (Some f) n x = call_all f (node_fields n) x"
  "walk_childs (Some f) cs x = call_all f (child_fields cs) x"
  by (induction "Some f" n x and "Some f" cs x rule: walk_node_walk_childs.induct)
     (auto simp: call_all_append split: prod.split)

definition call_release :: "'a radix_cb option \<Rightarrow> u8 list option \<Rightarrow> 'a \<Rightarrow> 'a" where
  "call_release cb s x = (case cb of None \<Rightarrow> x | Some f \<Rightarrow> snd (f s x))"

lemma release_calls_all:
  "release_node cb n xk = (fold (call_release cb) (node_fields n) (fst xk), snd xk + length (node_fields n))"
  "release_childs cb cs xk = (fold (call_release cb) (child_fields cs) (fst xk), snd xk + length (child_fields cs))"
  by (induction cb n xk and cb cs xk rule: release_node_release_childs.induct)
     (auto simp: call_release_def Let_def split: option.split)

section \<open>Order\<close>

text \<open>All strings of a tree begin with its path, and come in increasing order.\<close>

lemma key_char_less: "i < j \<Longrightarrow> j < 80 \<Longrightarrow> key_char i < key_char j"
  by (simp add: key_char_def word_less_nat_alt unat_of_nat del: of_nat_add)

lemma list_less_prefix: "p < p @ (c :: u8) # r"
  by (induction p) simp_all

lemma list_less_branch: "c < d \<Longrightarrow> p @ (c :: u8) # r < p @ d # r'"
  by (induction p) simp_all

lemma child_fields_nth: "child_fields cs = concat (map (\<lambda>k. case cs ! k of None \<Rightarrow> [] | Some n \<Rightarrow> node_fields n) [0..<length cs])"
  unfolding child_fields_def by (rule arg_cong [of _ _ concat], rule nth_equalityI) auto

lemma strings_concat: "strings (concat xss) = concat (map strings xss)"
  by (induction xss) auto

lemma sorted_wrt_concat:
  "\<forall>xs\<in>set xss. sorted_wrt P xs \<Longrightarrow> sorted_wrt (\<lambda>xs ys. \<forall>x\<in>set xs. \<forall>y\<in>set ys. P x y) xss \<Longrightarrow> sorted_wrt P (concat xss)"
  by (induction xss) (auto simp: sorted_wrt_append)

lemma strings_prefix: "radix_ok p n \<Longrightarrow> w \<in> set (strings (node_fields n)) \<Longrightarrow> \<exists>r. w = p @ r"
proof (induction arbitrary: w rule: radix_ok.induct)
  case (1 cs s p)
  then consider "s = Some w" | "w \<in> set (strings (child_fields cs))" by (cases s) auto
  then show ?case
  proof cases
    case 2
    then obtain k n where "k < length cs" "cs ! k = Some n" "w \<in> set (strings (node_fields n))"
      by (auto simp: child_fields_nth strings_concat split: option.splits)
    then show ?thesis using 1(1,3) by fastforce
  qed (use 1 in auto)
qed

lemma strings_sorted: "radix_ok p n \<Longrightarrow> sorted_wrt (<) (strings (node_fields n))"
proof (induction rule: radix_ok.induct)
  case (1 cs s p)
  let ?f = "\<lambda>k. strings (case cs ! k of None \<Rightarrow> [] | Some n \<Rightarrow> node_fields n)"
  have f: "strings (child_fields cs) = concat (map ?f [0..<length cs])"
    unfolding child_fields_nth strings_concat by (simp add: comp_def)
  have pre: "\<exists>r. w = p @ key_char k # r" "k < 80" if "k < length cs" "w \<in> set (?f k)" for k w
    using that 1(1,3) strings_prefix [of "p @ [key_char k]" _ w] by (auto split: option.splits)
  have "sorted_wrt (<) (strings (child_fields cs))" unfolding f
  proof (rule sorted_wrt_concat)
    show "\<forall>xs\<in>set (map ?f [0..<length cs]). sorted_wrt (<) xs" using 1(1,3) by (auto split: option.split)
    have "?f i = ?f i \<and> (\<forall>x\<in>set (?f i). \<forall>y\<in>set (?f j). x < y)" if "i < j" "j < length cs" for i j
    proof (intro conjI ballI refl)
      have ij: "i < length cs" "j < length cs" using that by simp_all
      fix x y
      assume "x \<in> set (?f i)" "y \<in> set (?f j)"
      then obtain r r' where "x = p @ key_char i # r" "y = p @ key_char j # r'" "j < 80"
        using pre [of i x] pre [of j y] ij by auto
      then show "x < y" using key_char_less [OF that(1)] list_less_branch by blast
    qed
    then show "sorted_wrt (\<lambda>xs ys. \<forall>x\<in>set xs. \<forall>y\<in>set ys. x < y) (map ?f [0..<length cs])"
      by (simp add: sorted_wrt_iff_nth_less)
  qed
  moreover have "p < w" if "w \<in> set (strings (child_fields cs))" for w
    using that pre list_less_prefix unfolding f by fastforce
  ultimately show ?case using 1(2) by auto
qed

section \<open>Properties\<close>

text \<open>Inserting one string after the other, as long as it succeeds.\<close>

fun insert_strings :: "nat \<Rightarrow> RADIX_NODE \<Rightarrow> u8 list list \<Rightarrow> RADIX_NODE option" where
  "insert_strings mem n [] = Some n"
| "insert_strings mem n (w # ws) =
     (case RadixInsert mem n w of Some (ret, n, mem) \<Rightarrow> if ret = 0 then insert_strings mem n ws else None | None \<Rightarrow> None)"

definition collect :: "u8 list list radix_cb" where
  "collect s acc = (0, case s of None \<Rightarrow> acc | Some w \<Rightarrow> acc @ [w])"

lemma collect_all: "call_all collect ss acc = (0, acc @ strings ss)"
  by (induction ss arbitrary: acc) (auto simp: collect_def split: option.split)

lemma insert_strings_ok:
  "radix_ok [] n \<Longrightarrow> \<forall>w\<in>set ws. \<forall>c\<in>set w. radix_char c \<Longrightarrow> sum_list (map length ws) \<le> mem \<Longrightarrow>
   \<exists>n'. insert_strings mem n ws = Some n' \<and> radix_ok [] n' \<and>
     set (strings (node_fields n')) = set ws \<union> set (strings (node_fields n))"
proof (induction ws arbitrary: n mem)
  case (Cons w ws)
  obtain n1 mem1 where n1: "RadixInsert mem n w = Some (0, n1, mem1)" "mem - length w \<le> mem1" "radix_ok [] n1"
    "set (strings (node_fields n1)) = insert w (set (strings (node_fields n)))"
    using insert_from_ok [of "[]" n w mem] Cons(2-4) by (auto simp: RadixInsert_def)
  have "sum_list (map length ws) \<le> mem1" using n1(2) Cons(4) by simp
  then show ?case using Cons(1) [OF n1(3), of mem1] Cons(3) n1 by auto
qed auto

text \<open>C35: After inserting strings of characters from '0' to 127 into an empty tree, a walk calls back with each of them
  once, in increasing order, and returns 0; a release calls back for and frees every node once.\<close>

theorem radix_walk_sorted:
  assumes "\<forall>w\<in>set ws. \<forall>c\<in>set w. radix_char c" "sum_list (map length ws) \<le> mem"
  shows "\<exists>n. insert_strings mem new_node ws = Some n \<and>
    RadixWalkAll (Some collect) (Some n) [] = (0, sorted_list_of_set (set ws)) \<and>
    RadixRelease (Some collect) (Some n) ([], 0) = (sorted_list_of_set (set ws), length (node_fields n))"
proof -
  obtain n where n: "insert_strings mem new_node ws = Some n" "radix_ok [] n" "set (strings (node_fields n)) = set ws"
    using insert_strings_ok [OF new_node_ok assms] by (auto simp: new_node_def)
  have "sorted_wrt (<) (strings (node_fields n))" by (rule strings_sorted [OF n(2)])
  then have s: "strings (node_fields n) = sorted_list_of_set (set ws)"
    using n(3) strict_sorted_equal by (metis List.finite_set set_sorted_list_of_set sorted_list_of_set.strict_sorted_key_list_of_set)
  have "fold (call_release (Some collect)) ss acc = acc @ strings ss" for ss acc
    by (induction ss arbitrary: acc) (auto simp: call_release_def collect_def split: option.split)
  then show ?thesis
    using n(1) s by (simp add: RadixWalkAll_def RadixRelease_def walk_calls_all collect_all release_calls_all)
qed

theorem radix_walk_sorted_witness:
  "\<exists>n. insert_strings 5 new_node [[0x41, 0x42], [0x41], [0x30, 0x7A]] = Some n \<and>
    RadixWalkAll (Some collect) (Some n) [] = (0, sorted_list_of_set {[0x41, 0x42], [0x41], [0x30, 0x7A]})"
  using radix_walk_sorted [of "[[0x41, 0x42], [0x41], [0x30, 0x7A]]" 5]
  by (auto simp: radix_char_def)

text \<open>A character below '0' indexes before the array; only the upper bound is checked.\<close>

theorem radix_char_below:
  "RadixInsert mem node (0x20 # w) = None"
  by (rule below_0) simp

end
