(* ===== verification/Tools.thy ===== *)
theory Tools
  imports ContainerSystem CmdUi Utils
begin

text \<open>
  The tools (\<open>tools/ofs_tools_if.c\<close>, \<open>ofs_tools_debug.c\<close>, \<open>ofs_tools_tree.c\<close>, \<open>ofs_tools_list.c\<close>,
  \<open>ofs_tools_dump.c\<close>, \<open>ofs_tools_performace.c\<close>, \<open>ofs_tools_main.c\<close>): a command line is split, its command
  chosen, its parameters parsed, and the command works on the opened containers. Messages are left out; of a
  dump the lines are kept. The threads of \<open>perf\<close> run one after the other.
\<close>

section \<open>Parameters\<close>

definition TMP_BUF_SIZE :: nat where "TMP_BUF_SIZE = 32"
definition KEY_MAX_SIZE :: nat where "KEY_MAX_SIZE = 256"
definition VALUE_MAX_SIZE :: nat where "VALUE_MAX_SIZE = 1024"

definition TOOLS_FLAGS_HIDE :: u32 where "TOOLS_FLAGS_HIDE = 1"
definition TOOLS_FLAGS_REVERSE :: u32 where "TOOLS_FLAGS_REVERSE = 2"
definition TOOLS_FLAGS_SB :: u32 where "TOOLS_FLAGS_SB = 4"

record ifs_tools_para =
  tp_ct_name :: "u8 list"
  tp_key :: "u8 list"
  tp_value :: "u8 list"
  tp_objid :: u64
  tp_total_sectors :: u64
  tp_threads_num :: u32
  tp_keys_num :: u64
  tp_flags :: u32

text \<open>What a buffer holds after \<open>os_parse_para\<close>, and the number in \<open>tmp\<close>.\<close>

definition text_para :: "u8 list list \<Rightarrow> u8 list \<Rightarrow> nat \<Rightarrow> u8 list option" where
  "text_para argv para n = do {
     (ret, c) \<leftarrow> os_parse_para argv para True n;
     Some (if ret < 0 then [] else case_option [] id c) }"

definition number_para :: "u8 list list \<Rightarrow> u8 list \<Rightarrow> u64 \<Rightarrow> u64 option" where
  "number_para argv para dflt = do {
     (ret, c) \<leftarrow> os_parse_para argv para True TMP_BUF_SIZE;
     if ret \<noteq> 0 then Some dflt
     else do { (v, _) \<leftarrow> strtoull (case_option [] id c) 0; Some v } }"

definition parse_container_para :: "u8 list list \<Rightarrow> ifs_tools_para \<Rightarrow> ifs_tools_para option" where
  "parse_container_para argv para = do {
     name \<leftarrow> text_para argv [0x2D, 0x63, 0x74] OFS_NAME_SIZE;
     sectors \<leftarrow> number_para argv [0x2D, 0x73] 1000;
     Some (para\<lparr> tp_ct_name := name, tp_total_sectors := sectors \<rparr>) }"

definition parse_object_para :: "u8 list list \<Rightarrow> ifs_tools_para \<Rightarrow> ifs_tools_para option" where
  "parse_object_para argv para = do {
     objid \<leftarrow> number_para argv [0x2D, 0x6F] INVALID_OBJID;
     key \<leftarrow> text_para argv [0x2D, 0x6B] KEY_MAX_SIZE;
     value \<leftarrow> text_para argv [0x2D, 0x76] VALUE_MAX_SIZE;
     Some (para\<lparr> tp_objid := objid, tp_key := key, tp_value := value \<rparr>) }"

definition flag_para :: "u8 list list \<Rightarrow> u8 list \<Rightarrow> u32 \<Rightarrow> ifs_tools_para \<Rightarrow> ifs_tools_para option" where
  "flag_para argv para flag p = do {
     (ret, _) \<leftarrow> os_parse_para argv para False 0;
     Some (if ret = 0 then p\<lparr> tp_flags := tp_flags p OR flag \<rparr> else p) }"

definition parse_all_para :: "u8 list list \<Rightarrow> ifs_tools_para option" where
  "parse_all_para argv = do {
     p \<leftarrow> parse_container_para argv \<lparr> tp_ct_name = [], tp_key = [], tp_value = [], tp_objid = 0,
            tp_total_sectors = 0, tp_threads_num = 0, tp_keys_num = 0, tp_flags = 0 \<rparr>;
     p \<leftarrow> parse_object_para argv p;
     n \<leftarrow> number_para argv [0x2D, 0x6E] 0;
     kn \<leftarrow> number_para argv [0x2D, 0x6B, 0x6E] 10;
     p \<leftarrow> flag_para argv [0x2D, 0x72] TOOLS_FLAGS_REVERSE (p\<lparr> tp_threads_num := ucast n, tp_keys_num := kn \<rparr>);
     p \<leftarrow> flag_para argv [0x2D, 0x68] TOOLS_FLAGS_HIDE p;
     flag_para argv [0x2D, 0x73, 0x62] TOOLS_FLAGS_SB p }"

section \<open>Commands\<close>

datatype cmd_ret = Cmd_ok | Cmd_code int | Cmd_err ofs_err

definition ret_of :: "ofs_err + 'a \<Rightarrow> cmd_ret" where
  "ret_of r = (case r of Inl e \<Rightarrow> Cmd_err e | Inr _ \<Rightarrow> Cmd_ok)"

text \<open>A call on an opened container.\<close>

definition on_container :: "nat \<Rightarrow> (container \<Rightarrow> 'a res) \<Rightarrow> system \<Rightarrow> ((ofs_err + 'a) \<times> system) option" where
  "on_container n f y = do {
     x \<leftarrow> sys_cts y n;
     (ret, s) \<leftarrow> f (on_ct x);
     Some (ret, y\<lparr> sys_cts := (sys_cts y)(n \<mapsto> x\<lparr> on_ct := s \<rparr>) \<rparr>) }"

definition CR_ANSI_flags :: u16 where "CR_ANSI_flags = FLAG_TABLE OR 1 OR push_bit 4 1"

definition cmd_create :: "ifs_tools_para \<Rightarrow> system \<Rightarrow> (cmd_ret \<times> system) option" where
  "cmd_create para y =
     (if tp_ct_name para = [] then Some (Cmd_code (- 1), y)
      else if tp_objid para = INVALID_OBJID then do {
        (ret, y) \<leftarrow> ofs_create_container (tp_ct_name para) (tp_total_sectors para) y;
        Some (ret_of ret, y) }
      else do {
        ct \<leftarrow> ofs_get_container_handle (tp_ct_name para) y;
        case ct of
          None \<Rightarrow> Some (Cmd_code (- 2), y)
        | Some n \<Rightarrow> do {
            (ret, y) \<leftarrow> on_container n (ofs_create_object (tp_objid para) CR_ANSI_flags) y;
            Some (ret_of ret, y) } })"

definition cmd_open :: "ifs_tools_para \<Rightarrow> system \<Rightarrow> (cmd_ret \<times> system) option" where
  "cmd_open para y =
     (if tp_ct_name para = [] then Some (Cmd_code (- 1), y)
      else if tp_objid para = INVALID_OBJID then do {
        (ret, y) \<leftarrow> ofs_open_container (tp_ct_name para) y;
        Some (ret_of ret, y) }
      else do {
        ct \<leftarrow> ofs_get_container_handle (tp_ct_name para) y;
        case ct of
          None \<Rightarrow> Some (Cmd_code (- 2), y)
        | Some n \<Rightarrow> do {
            (ret, y) \<leftarrow> on_container n (ofs_open_object (tp_objid para)) y;
            Some (ret_of ret, y) } })"

definition cmd_close :: "ifs_tools_para \<Rightarrow> system \<Rightarrow> (cmd_ret \<times> system) option" where
  "cmd_close para y =
     (if tp_ct_name para = [] then Some (Cmd_code (- 1), y)
      else do {
        ct \<leftarrow> ofs_get_container_handle (tp_ct_name para) y;
        case ct of
          None \<Rightarrow> Some (Cmd_code (- 2), y)
        | Some n \<Rightarrow>
            if tp_objid para = INVALID_OBJID then do {
              (ret, y) \<leftarrow> ofs_close_container n y;
              Some (ret_of ret, y) }
            else do {
              x \<leftarrow> sys_cts y n;
              obj \<leftarrow> ofs_get_object_handle (tp_objid para) (on_ct x);
              case obj of
                None \<Rightarrow> Some (Cmd_code (- 2), y)
              | Some hid \<Rightarrow> do {
                  (ret, y) \<leftarrow> on_container n (ofs_close_object hid) y;
                  Some (ret_of ret, y) } } })"

text \<open>The rest of \<open>cmd_delete\<close> is behind a \<open>return\<close>.\<close>

definition cmd_delete :: "ifs_tools_para \<Rightarrow> system \<Rightarrow> (cmd_ret \<times> system) option" where
  "cmd_delete para y = Some (Cmd_ok, y)"

text \<open>Opening a container and an object of it for \<open>f\<close>, and closing both.\<close>

definition with_object :: "ifs_tools_para \<Rightarrow> (container \<Rightarrow> nat res) \<Rightarrow> (nat \<Rightarrow> nat \<Rightarrow> system \<Rightarrow> ('a \<times> system) option) \<Rightarrow>
    system \<Rightarrow> ((ofs_err + 'a) \<times> system) option" where
  "with_object para get f y = do {
     (ret, y) \<leftarrow> ofs_open_container (tp_ct_name para) y;
     case ret of
       Inl e \<Rightarrow> Some (Inl e, y)
     | Inr n \<Rightarrow> do {
         (ret, y) \<leftarrow> on_container n get y;
         case ret of
           Inl e \<Rightarrow> do { (_, y) \<leftarrow> ofs_close_container n y; Some (Inl e, y) }
         | Inr hid \<Rightarrow> do {
             (a, y) \<leftarrow> f n hid y;
             (_, y) \<leftarrow> on_container n (ofs_close_object hid) y;
             (_, y) \<leftarrow> ofs_close_container n y;
             Some (Inr a, y) } } }"

definition cmd_insert_key :: "ifs_tools_para \<Rightarrow> system \<Rightarrow> (cmd_ret \<times> system) option" where
  "cmd_insert_key para y =
     (if tp_ct_name para = [] \<or> tp_objid para = INVALID_OBJID then Some (Cmd_code (- 1), y)
      else if tp_key para = [] \<or> tp_value para = [] then Some (Cmd_code (- 1), y)
      else do {
        (ret, y) \<leftarrow> with_object para (ofs_open_object (tp_objid para))
          (\<lambda>n hid. on_container n (index_insert_key ct_ops hid (tp_key para) (tp_value para))) y;
        Some (case ret of Inl e \<Rightarrow> Cmd_err e | Inr r \<Rightarrow> ret_of r, y) })"

definition cmd_remove_key :: "ifs_tools_para \<Rightarrow> system \<Rightarrow> (cmd_ret \<times> system) option" where
  "cmd_remove_key para y =
     (if tp_ct_name para = [] \<or> tp_objid para = INVALID_OBJID then Some (Cmd_code (- 1), y)
      else if tp_key para = [] then Some (Cmd_code (- 1), y)
      else do {
        (ret, y) \<leftarrow> with_object para (ofs_open_object (tp_objid para))
          (\<lambda>n hid. on_container n (index_remove_key ct_ops hid (tp_key para))) y;
        Some (case ret of Inl e \<Rightarrow> Cmd_err e | Inr r \<Rightarrow> ret_of r, y) })"

text \<open>Printing the super block asserts that a name was given; the other lists change nothing.\<close>

definition print_super_block :: "u8 list \<Rightarrow> system \<Rightarrow> (cmd_ret \<times> system) option" where
  "print_super_block ct_name y =
     (if ct_name = [] then None
      else do {
        (ret, y) \<leftarrow> ofs_open_container ct_name y;
        case ret of
          Inl e \<Rightarrow> Some (Cmd_err e, y)
        | Inr n \<Rightarrow> do { (_, y) \<leftarrow> ofs_close_container n y; Some (Cmd_ok, y) } })"

definition cmd_list :: "u8 list \<Rightarrow> u64 \<Rightarrow> system \<Rightarrow> (cmd_ret \<times> system) option" where
  "cmd_list ct_name objid y =
     (if ct_name = [] then (if g_container_list y = None then None else Some (Cmd_ok, y))
      else do {
        ct \<leftarrow> ofs_get_container_handle ct_name y;
        case ct of
          None \<Rightarrow> Some (Cmd_code (- 2), y)
        | Some n \<Rightarrow>
            if objid = INVALID_OBJID then Some (Cmd_ok, y)
            else do { x \<leftarrow> sys_cts y n; _ \<leftarrow> ofs_get_object_info objid (on_ct x); Some (Cmd_ok, y) } })"

definition list_cmd :: "ifs_tools_para \<Rightarrow> system \<Rightarrow> (cmd_ret \<times> system) option" where
  "list_cmd para y =
     (if tp_flags para AND TOOLS_FLAGS_SB \<noteq> 0 then print_super_block (tp_ct_name para) y
      else cmd_list (tp_ct_name para) (tp_objid para) y)"

text \<open>A line of a dump: its number, the key and the value, each printed by its collation rule.\<close>

definition hex_digit :: "nat \<Rightarrow> u8" where
  "hex_digit d = of_nat (if d < 10 then 48 + d else 55 + d)"

definition print_lld :: "u64 \<Rightarrow> u8 list" where
  "print_lld w = (if sint w < 0 then 0x2D # dec_digits (nat (- sint w)) else dec_digits (nat (sint w)))"

definition print_field :: "u16 \<Rightarrow> u8 list \<Rightarrow> u8 list option" where
  "print_field cr bs =
     (if cr = 1 then Some bs
      else if cr = 3 \<or> cr = 4 then map_option print_lld (os_bstr_to_u64 bs)
      else Some (concat (map (\<lambda>b. [hex_digit (unat b div 16), hex_digit (unat b mod 16)]) bs)))"

type_synonym dump_line = "u32 \<times> u8 list \<times> u8 list"

definition dump_callback :: "nat \<Rightarrow> u32 \<times> dump_line list \<Rightarrow> container \<Rightarrow> (u32 \<times> dump_line list) res" where
  "dump_callback hid para s = do {
     flags \<leftarrow> attr_flags hid s;
     (m, q) \<leftarrow> tree_ie hid s;
     let no = fst para + 1;
     key \<leftarrow> print_field (flags AND 15) (GET_IE_KEY m q);
     value \<leftarrow> print_field (drop_bit 4 flags AND 15) (GET_IE_VALUE m q);
     Some (Inr (no, snd para @ [(no, key, value)]), s) }"

definition dump_key :: "bool \<Rightarrow> nat \<Rightarrow> container \<Rightarrow> (u32 \<times> dump_line list) res" where
  "dump_key reverse hid s = index_walk_all ct_ops hid reverse 0 dump_callback (0, []) s"

definition dump_cmd :: "ifs_tools_para \<Rightarrow> system \<Rightarrow> (dump_line list \<times> system) option" where
  "dump_cmd para y =
     (if tp_ct_name para = [] then Some ([], y)
      else
        let objid = (if tp_objid para = INVALID_OBJID then OBJID_OBJ_ID else tp_objid para) in do {
        (ret, y) \<leftarrow> with_object para (ofs_open_object objid)
          (\<lambda>n hid. on_container n (dump_key (tp_flags para AND TOOLS_FLAGS_REVERSE \<noteq> 0) hid)) y;
        Some (case ret of Inr (Inr (_, ls)) \<Rightarrow> ls | _ \<Rightarrow> [], y) })"

section \<open>The performance test\<close>

definition TEST_VALUE :: "u8 list" where "TEST_VALUE = replicate 20 0x88"
definition CR_BINARY_flags :: u16 where "CR_BINARY_flags = FLAG_TABLE OR 0 OR push_bit 4 1"

text \<open>The keys are the numbers below \<open>keys_num\<close> as 8 bytes; the first error ends the loop. \<open>cnt\<close> keys are left.\<close>

fun key_loop :: "(u8 list \<Rightarrow> container \<Rightarrow> unit res) \<Rightarrow> nat \<Rightarrow> nat \<Rightarrow> nat \<Rightarrow> system \<Rightarrow> (unit \<times> system) option" where
  "key_loop f n k 0 y = Some ((), y)"
| "key_loop f n k (Suc cnt) y = do {
     (ret, y) \<leftarrow> on_container n (f (bytes_le 8 k)) y;
     case ret of Inl e \<Rightarrow> Some ((), y) | Inr _ \<Rightarrow> key_loop f n (k + 1) cnt y }"

definition test_insert_key_performance :: "ifs_tools_para \<Rightarrow> system \<Rightarrow> system option" where
  "test_insert_key_performance para y =
     map_option snd (with_object para (ofs_create_object (tp_objid para) CR_BINARY_flags)
       (\<lambda>n hid. key_loop (\<lambda>key. index_insert_key ct_ops hid key TEST_VALUE) n 0 (unat (tp_keys_num para))) y)"

definition test_remove_key_performance :: "ifs_tools_para \<Rightarrow> system \<Rightarrow> system option" where
  "test_remove_key_performance para y =
     map_option snd (with_object para (ofs_open_object (tp_objid para))
       (\<lambda>n hid. key_loop (\<lambda>key. index_remove_key ct_ops hid key) n 0 (unat (tp_keys_num para))) y)"

fun run_threads :: "(system \<Rightarrow> system option) \<Rightarrow> nat \<Rightarrow> system \<Rightarrow> system option" where
  "run_threads f 0 y = Some y"
| "run_threads f (Suc n) y = Option.bind (f y) (run_threads f n)"

definition performance_cmd :: "ifs_tools_para \<Rightarrow> system \<Rightarrow> (cmd_ret \<times> system) option" where
  "performance_cmd para y =
     (if tp_ct_name para = [] \<or> tp_objid para = INVALID_OBJID then Some (Cmd_code (- 2), y)
      else do {
        let n = (if tp_threads_num para = 0 then 1 else unat (tp_threads_num para));
        y \<leftarrow> run_threads (test_insert_key_performance para) n y;
        y \<leftarrow> run_threads (test_remove_key_performance para) n y;
        Some (Cmd_ok, y) })"

section \<open>Sessions\<close>

text \<open>The body that all \<open>do_..._cmd\<close> share: memory for the parameters, parsing, the command.\<close>

definition do_cmd :: "(ifs_tools_para \<Rightarrow> system \<Rightarrow> ('a \<times> system) option) \<Rightarrow> u8 list list \<Rightarrow> system \<Rightarrow> ('a option \<times> system) option" where
  "do_cmd f argv y =
     (let t = sys_tick y; y = y\<lparr> sys_tick := t + 1 \<rparr> in
      if \<not> sys_malloc y t then Some (None, y)
      else do { para \<leftarrow> parse_all_para argv; (a, y) \<leftarrow> f para y; Some (Some a, y) })"

definition ifs_cmd_list :: "os_cmd list" where
  "ifs_cmd_list =
     [\<lparr> cmd_func = 0, cmd_level = [[0x63, 0x72, 0x65, 0x61, 0x74, 0x65]] \<rparr>,
      \<lparr> cmd_func = 1, cmd_level = [[0x6F, 0x70, 0x65, 0x6E]] \<rparr>,
      \<lparr> cmd_func = 2, cmd_level = [[0x63, 0x6C, 0x6F, 0x73, 0x65]] \<rparr>,
      \<lparr> cmd_func = 3, cmd_level = [[0x64, 0x65, 0x6C, 0x65, 0x74, 0x65]] \<rparr>,
      \<lparr> cmd_func = 4, cmd_level = [[0x6C, 0x69, 0x73, 0x74]] \<rparr>,
      \<lparr> cmd_func = 5, cmd_level = [[0x64, 0x75, 0x6D, 0x70]] \<rparr>,
      \<lparr> cmd_func = 6, cmd_level = [[0x69, 0x6E, 0x73, 0x65, 0x72, 0x74]] \<rparr>,
      \<lparr> cmd_func = 7, cmd_level = [[0x72, 0x65, 0x6D, 0x6F, 0x76, 0x65]] \<rparr>,
      \<lparr> cmd_func = 8, cmd_level = [[0x70, 0x65, 0x72, 0x66]] \<rparr>]"

definition run_cmd :: "nat \<Rightarrow> u8 list list \<Rightarrow> system \<Rightarrow> system option" where
  "run_cmd k argv y =
     (if k = 0 then map_option snd (do_cmd cmd_create argv y)
      else if k = 1 then map_option snd (do_cmd cmd_open argv y)
      else if k = 2 then map_option snd (do_cmd cmd_close argv y)
      else if k = 3 then map_option snd (do_cmd cmd_delete argv y)
      else if k = 4 then map_option snd (do_cmd list_cmd argv y)
      else if k = 5 then map_option snd (do_cmd dump_cmd argv y)
      else if k = 6 then map_option snd (do_cmd cmd_insert_key argv y)
      else if k = 7 then map_option snd (do_cmd cmd_remove_key argv y)
      else map_option snd (do_cmd performance_cmd argv y))"

text \<open>A line in the buffer of \<open>os_cmd_ui\<close>; true if the user quits.\<close>

definition run_line :: "buf \<Rightarrow> system \<Rightarrow> (bool \<times> system) option" where
  "run_line m y =
     (let t = sys_tick y; ok = sys_malloc y t; y = y\<lparr> sys_tick := t + 1 \<rparr> in do {
      act \<leftarrow> parse_and_exec_cmd ok m ifs_cmd_list;
      case act of
        Some Quit \<Rightarrow> Some (True, y)
      | Some (Call k argv) \<Rightarrow> do { y \<leftarrow> run_cmd k argv y; Some (False, y) }
      | _ \<Rightarrow> Some (False, y) })"

text \<open>The loop over the lines the user enters, until one quits or they end.\<close>

fun os_cmd_ui :: "buf list \<Rightarrow> system \<Rightarrow> system option" where
  "os_cmd_ui [] y = Some y"
| "os_cmd_ui (m # ms) y = do { (quit, y) \<leftarrow> run_line m y; if quit then Some y else os_cmd_ui ms y }"

definition tools_main :: "buf list \<Rightarrow> system \<Rightarrow> system option" where
  "tools_main lines y =
     (case ofs_init_system y of
        (Inl e, y) \<Rightarrow> Some y
      | (Inr _, y) \<Rightarrow>
          (let t = sys_tick y; ok = sys_malloc y t; y = y\<lparr> sys_tick := t + 1 \<rparr> in
           do { y \<leftarrow> (if ok then os_cmd_ui lines y else Some y); ofs_exit_system y }))"

section \<open>Sessions keep the list of opened containers\<close>

definition sys_inv :: "system \<Rightarrow> bool" where "sys_inv y \<longleftrightarrow> sys_down y \<or> sys_ok y"

definition keeps_inv :: "(system \<Rightarrow> ('a \<times> system) option) \<Rightarrow> bool" where
  "keeps_inv f \<longleftrightarrow> (\<forall>y a y'. sys_inv y \<longrightarrow> f y = Some (a, y') \<longrightarrow> sys_inv y')"

lemma keeps_invI: "(\<And>y a y'. sys_inv y \<Longrightarrow> f y = Some (a, y') \<Longrightarrow> sys_inv y') \<Longrightarrow> keeps_inv f"
  by (simp add: keeps_inv_def)

lemma keeps_invD: "keeps_inv f \<Longrightarrow> f y = Some (a, y') \<Longrightarrow> sys_inv y \<Longrightarrow> sys_inv y'"
  by (simp add: keeps_inv_def)

lemma sys_inv_step: "sys_step y y' \<Longrightarrow> sys_inv y \<Longrightarrow> sys_inv y'"
  using sys_step_down sys_step_ok unfolding sys_inv_def by blast

lemma sys_ok_tick [simp]: "sys_ok (y\<lparr> sys_tick := t \<rparr>) \<longleftrightarrow> sys_ok y"
proof
  have "same_list (y\<lparr> sys_tick := t \<rparr>) y" by (simp add: same_list_def)
  then show "sys_ok (y\<lparr> sys_tick := t \<rparr>) \<Longrightarrow> sys_ok y" by (rule same_list_ok)
qed (erule same_list_ok [rotated], simp)

lemma sys_inv_tick [simp]: "sys_inv (y\<lparr> sys_tick := t \<rparr>) \<longleftrightarrow> sys_inv y"
  by (simp add: sys_inv_def sys_down_def)

lemma keeps_return [simp]: "keeps_inv (\<lambda>y. Some (a, y))" "keeps_inv (\<lambda>y. None)"
  "keeps_inv (\<lambda>y. if b y then None else Some (a, y))"
  by (simp_all add: keeps_inv_def)

lemma keeps_bind:
  assumes "keeps_inv f" "\<And>a. keeps_inv (g a)"
  shows "keeps_inv (\<lambda>y. do { (a, y) \<leftarrow> f y; g a y })"
proof (rule keeps_invI)
  fix y b y'
  assume "sys_inv y" "do { (a, y) \<leftarrow> f y; g a y } = Some (b, y')"
  then show "sys_inv y'"
    by (cases "f y") (auto dest: keeps_invD [OF assms(1)] keeps_invD [OF assms(2)])
qed

lemma keeps_lookup:
  assumes "\<And>a. keeps_inv (g a)"
  shows "keeps_inv (\<lambda>y. do { a \<leftarrow> f y; g a y })"
proof (rule keeps_invI)
  fix y b y'
  assume "sys_inv y" "do { a \<leftarrow> f y; g a y } = Some (b, y')"
  then show "sys_inv y'" by (cases "f y") (auto dest: keeps_invD [OF assms])
qed

lemma keeps_api:
  "keeps_inv (on_container n h)" "keeps_inv (ofs_close_container n)"
  "name \<noteq> [] \<Longrightarrow> keeps_inv (ofs_open_container name)" "name \<noteq> [] \<Longrightarrow> keeps_inv (ofs_create_container name sectors)"
proof -
  show "keeps_inv (on_container n h)"
  proof (rule keeps_invI)
    fix y a y' assume y: "sys_inv y" "on_container n h y = Some (a, y')"
    then obtain x s where x: "sys_cts y n = Some x" "y' = y\<lparr> sys_cts := (sys_cts y)(n \<mapsto> x\<lparr> on_ct := s \<rparr>) \<rparr>"
      by (auto simp: on_container_def bind_eq_Some_conv)
    then have "same_list y y'" by (simp add: same_list_def)
    then show "sys_inv y'" using y(1) same_list_ok x by (auto simp: sys_inv_def sys_down_def)
  qed
qed (auto intro!: keeps_invI dest: sys_inv_step [OF sys_step.close] sys_inv_step [OF sys_step.open_ct]
    sys_inv_step [OF sys_step.create])

lemma keeps_if: "(b \<Longrightarrow> keeps_inv f) \<Longrightarrow> (\<not> b \<Longrightarrow> keeps_inv g) \<Longrightarrow> keeps_inv (\<lambda>y. if b then f y else g y)"
  by (cases b) simp_all

lemma keeps_case:
  "(\<And>e. keeps_inv (f e)) \<Longrightarrow> (\<And>a. keeps_inv (g a)) \<Longrightarrow> keeps_inv (\<lambda>y. case r of Inl e \<Rightarrow> f e y | Inr a \<Rightarrow> g a y)"
  "keeps_inv f' \<Longrightarrow> (\<And>a. keeps_inv (g a)) \<Longrightarrow> keeps_inv (\<lambda>y. case ro of None \<Rightarrow> f' y | Some a \<Rightarrow> g a y)"
  by (cases r; simp) (cases ro; simp)

lemmas keeps_intros = keeps_return keeps_api keeps_bind keeps_lookup keeps_if keeps_case

lemma keeps_with_object:
  "tp_ct_name para \<noteq> [] \<Longrightarrow> (\<And>n hid. keeps_inv (f n hid)) \<Longrightarrow> keeps_inv (with_object para get f)"
  unfolding with_object_def by (intro keeps_intros)

lemma keeps_create: "keeps_inv (cmd_create para)"
  unfolding cmd_create_def by (intro keeps_intros keeps_with_object) simp_all

lemma keeps_open: "keeps_inv (cmd_open para)"
  unfolding cmd_open_def by (intro keeps_intros keeps_with_object) simp_all

lemma keeps_close: "keeps_inv (cmd_close para)"
  unfolding cmd_close_def by (intro keeps_intros)

lemma keeps_delete: "keeps_inv (cmd_delete para)"
  unfolding cmd_delete_def by (intro keeps_intros)

lemma keeps_insert_key: "keeps_inv (cmd_insert_key para)"
  unfolding cmd_insert_key_def by (intro keeps_intros keeps_with_object) simp_all

lemma keeps_remove_key: "keeps_inv (cmd_remove_key para)"
  unfolding cmd_remove_key_def by (intro keeps_intros keeps_with_object) simp_all

lemma keeps_list: "keeps_inv (list_cmd para)"
  unfolding list_cmd_def cmd_list_def print_super_block_def by (intro keeps_intros) simp_all

lemma keeps_dump: "keeps_inv (dump_cmd para)"
  unfolding dump_cmd_def Let_def by (intro keeps_intros keeps_with_object) simp_all

lemma keeps_key_loop: "keeps_inv (key_loop f n k cnt)"
proof (induction cnt arbitrary: k)
  case (Suc cnt)
  then show ?case unfolding key_loop.simps by (intro keeps_intros)
qed (simp add: keeps_inv_def)

definition keeps_sys :: "(system \<Rightarrow> system option) \<Rightarrow> bool" where
  "keeps_sys f \<longleftrightarrow> (\<forall>y y'. sys_inv y \<longrightarrow> f y = Some y' \<longrightarrow> sys_inv y')"

lemma keeps_sysD: "keeps_sys f \<Longrightarrow> f y = Some y' \<Longrightarrow> sys_inv y \<Longrightarrow> sys_inv y'"
  by (simp add: keeps_sys_def)

lemma keeps_sys_snd: "keeps_inv f \<Longrightarrow> keeps_sys (\<lambda>y. map_option snd (f y))"
  by (auto simp: keeps_sys_def keeps_inv_def)

lemma keeps_threads: "keeps_sys f \<Longrightarrow> keeps_sys (run_threads f n)"
proof (induction n)
  case (Suc n)
  then have h: "keeps_sys f" "keeps_sys (run_threads f n)" by simp_all
  show ?case unfolding keeps_sys_def
  proof (intro allI impI)
    fix y y' assume y: "sys_inv y" "run_threads f (Suc n) y = Some y'"
    then obtain y1 where "f y = Some y1" "run_threads f n y1 = Some y'" by (auto simp: bind_eq_Some_conv)
    then show "sys_inv y'" using h y(1) keeps_sysD by blast
  qed
qed (simp add: keeps_sys_def)

lemma keeps_perf: "keeps_inv (performance_cmd para)"
proof (cases "tp_ct_name para = [] \<or> tp_objid para = INVALID_OBJID")
  case False
  then have "keeps_sys (test_insert_key_performance para)" "keeps_sys (test_remove_key_performance para)"
    unfolding test_insert_key_performance_def test_remove_key_performance_def
    by (auto intro!: keeps_sys_snd keeps_with_object keeps_key_loop)
  then have "keeps_sys (run_threads (test_insert_key_performance para) n)"
    "keeps_sys (run_threads (test_remove_key_performance para) n)" for n by (simp_all add: keeps_threads)
  note threads = keeps_sysD [OF this(1)] keeps_sysD [OF this(2)]
  show ?thesis
    using False by (auto simp: performance_cmd_def Let_def bind_eq_Some_conv intro!: keeps_invI dest!: threads)
qed (auto simp: performance_cmd_def keeps_inv_def)

lemma keeps_do_cmd:
  assumes "\<And>para. keeps_inv (f para)"
  shows "keeps_inv (do_cmd f argv)"
proof (rule keeps_invI)
  fix y a y' assume y: "sys_inv y" "do_cmd f argv y = Some (a, y')"
  let ?y = "y\<lparr> sys_tick := sys_tick y + 1 \<rparr>"
  have "y' = ?y \<or> (\<exists>para b. f para ?y = Some (b, y'))"
    using y(2) by (auto simp: do_cmd_def Let_def bind_eq_Some_conv split: if_splits)
  then show "sys_inv y'" using keeps_invD [OF assms] y(1) by (metis sys_inv_tick)
qed

lemma keeps_run_cmd: "keeps_sys (run_cmd k argv)"
proof -
  note c = keeps_do_cmd [OF keeps_create] keeps_do_cmd [OF keeps_open] keeps_do_cmd [OF keeps_close]
    keeps_do_cmd [OF keeps_delete] keeps_do_cmd [OF keeps_list] keeps_do_cmd [OF keeps_dump]
    keeps_do_cmd [OF keeps_insert_key] keeps_do_cmd [OF keeps_remove_key] keeps_do_cmd [OF keeps_perf]
  show ?thesis unfolding keeps_sys_def run_cmd_def by (auto split: if_splits dest: c [THEN keeps_invD])
qed

lemma keeps_line: "run_line m y = Some (quit, y') \<Longrightarrow> sys_inv y \<Longrightarrow> sys_inv y'"
proof -
  assume l: "run_line m y = Some (quit, y')" and y: "sys_inv y"
  let ?y = "y\<lparr> sys_tick := Suc (sys_tick y) \<rparr>"
  obtain act where "(case act of
        Some Quit \<Rightarrow> Some (True, ?y)
      | Some (Call k argv) \<Rightarrow> do { y \<leftarrow> run_cmd k argv ?y; Some (False, y) }
      | _ \<Rightarrow> Some (False, ?y)) = Some (quit, y')"
    using l by (auto simp: run_line_def Let_def bind_eq_Some_conv)
  then have "y' = ?y \<or> (\<exists>k argv. run_cmd k argv ?y = Some y')"
    by (cases act; cases "the act") (auto simp: bind_eq_Some_conv)
  then show "sys_inv y'" using keeps_sysD [OF keeps_run_cmd] y by (metis sys_inv_tick)
qed

lemma keeps_ui: "os_cmd_ui ms y = Some y' \<Longrightarrow> sys_inv y \<Longrightarrow> sys_inv y'"
proof (induction ms y rule: os_cmd_ui.induct)
  case (2 m ms y)
  then obtain quit y1 where l: "run_line m y = Some (quit, y1)" "if quit then y' = y1 else os_cmd_ui ms y1 = Some y'"
    by (auto simp: bind_eq_Some_conv split: if_splits)
  have "sys_inv y1" by (rule keeps_line [OF l(1) 2(3)])
  then show ?case using 2(1) [OF l(1) refl] l(2) by (auto split: if_splits)
qed simp

text \<open>Whatever lines are entered, a session keeps the list of opened containers, and leaves none behind.\<close>

theorem tools_session:
  assumes "sys_down y"
  shows "ofs_init_system y = (r, y1) \<Longrightarrow> os_cmd_ui lines y1 = Some y2 \<Longrightarrow> sys_down y2 \<or> sys_ok y2"
    "tools_main lines y = Some y3 \<Longrightarrow> sys_down y3"
proof -
  have i: "sys_inv y1" if "ofs_init_system y = (r, y1)" for r y1
    using sys_inv_step [OF sys_step.init [OF that]] assms by (simp add: sys_inv_def)
  show "ofs_init_system y = (r, y1) \<Longrightarrow> os_cmd_ui lines y1 = Some y2 \<Longrightarrow> sys_down y2 \<or> sys_ok y2"
    using keeps_ui i unfolding sys_inv_def by blast
  show "sys_down y3" if t: "tools_main lines y = Some y3"
  proof -
    obtain r y1 where y1: "ofs_init_system y = (r, y1)" by (cases "ofs_init_system y")
    show ?thesis
    proof (cases r)
      case (Inl e)
      then show ?thesis using t y1 assms
        by (auto simp: tools_main_def ofs_init_system_def sys_down_def Let_def split: if_splits)
    next
      case (Inr u)
      let ?y = "y1\<lparr> sys_tick := sys_tick y1 + 1 \<rparr>"
      obtain y2 where y2: "y2 = ?y \<or> os_cmd_ui lines ?y = Some y2" "ofs_exit_system y2 = Some y3"
        using t y1 Inr by (auto simp: tools_main_def Let_def bind_eq_Some_conv split: if_splits)
      have "sys_inv ?y" using i [OF y1] by simp
      then have "sys_inv y2" using y2(1) keeps_ui by blast
      then show ?thesis using y2(2) using ofs_exit_system_down by (auto simp: sys_inv_def ofs_exit_system_def sys_down_def)
    qed
  qed
qed

section \<open>Opening and closing from the command line\<close>

text \<open>A line of words with one blank between them.\<close>

definition holds_line :: "buf \<Rightarrow> u8 list list \<Rightarrow> bool" where
  "holds_line m ws \<longleftrightarrow> (let t = gap_text (zip (0 # replicate (length ws - 1) 1) ws) in
     rd m 0 (length t) = t \<and> m (length t) \<in> {0, 10, 13})"

lemma holds_line_wr:
  "gap_text (zip (0 # replicate (length ws - 1) 1) ws) = t \<Longrightarrow> holds_line (wr (\<lambda>_. 0) 0 t) ws"
  by (simp add: holds_line_def rd_wr_prefix) (simp add: wr_def)

lemma holds_line_3:
  assumes "holds_line m [a, b, c]" "is_word a" "is_word b" "is_word c"
  shows "\<exists>argv m'. parse_cmd m CMD_MAX_ARGS = Some (argv, m') \<and> c_strings m' argv = Some [a, b, c]"
  using split_line_gaps [of m "[(0, a), (1, b), (1, c)]"] assms gaps_ok_words [of "[(0, a), (1, b), (1, c)]"]
  by (auto simp: holds_line_def numeral_2_eq_2 split_line_def bind_eq_Some_conv CMD_MAX_ARGS_def)

definition w_open :: "u8 list" where "w_open = [0x6F, 0x70, 0x65, 0x6E]"
definition w_close :: "u8 list" where "w_close = [0x63, 0x6C, 0x6F, 0x73, 0x65]"
definition w_ct :: "u8 list" where "w_ct = [0x2D, 0x63, 0x74]"

lemma chosen:
  "execute_cmd [w_open, w_ct, name] ifs_cmd_list = Some (Call 1 [w_open, w_ct, name])"
  "execute_cmd [w_close, w_ct, name] ifs_cmd_list = Some (Call 2 [w_close, w_ct, name])"
  by (simp_all add: execute_cmd_def ifs_cmd_list_def w_open_def w_close_def cmd_help_def cmd_quit_def
      MAX_CMD_LEVEL_def numeral_3_eq_3)

lemma words: "is_word w_open" "is_word w_close" "is_word w_ct"
  by (simp_all add: is_word_def stop_byte_def w_open_def w_close_def w_ct_def)

definition name_para :: "u8 list \<Rightarrow> ifs_tools_para" where
  "name_para name = \<lparr> tp_ct_name = name, tp_key = [], tp_value = [], tp_objid = INVALID_OBJID,
     tp_total_sectors = 1000, tp_threads_num = 0, tp_keys_num = 10, tp_flags = 0 \<rparr>"

lemma no_para: "para \<notin> set argv \<Longrightarrow> os_parse_para argv para b n = Some (- 2, None)"
  by (simp add: os_parse_para_def Let_def) (metis (mono_tags, lifting) takeWhile_eq_all_conv)

lemma ct_para:
  "c \<noteq> w_ct \<Longrightarrow> 0 < n \<Longrightarrow> os_parse_para [c, w_ct, name] w_ct True n = Some (0, Some (take (n - 1) name))"
  by (simp add: os_parse_para_def)

lemma parsed:
  assumes "hd name \<noteq> 0x2D" "name \<noteq> []" "length name < OFS_NAME_SIZE" "c = w_open \<or> c = w_close"
  shows "parse_all_para [c, w_ct, name] = Some (name_para name)"
proof -
  have no: "os_parse_para [c, w_ct, name] (0x2D # f) b n = Some (- 2, None)" if "0x2D # f \<noteq> w_ct" for f b n
    by (rule no_para) (use assms that in \<open>auto simp: w_open_def w_close_def\<close>)
  have ct: "os_parse_para [c, w_ct, name] w_ct True OFS_NAME_SIZE = Some (0, Some name)"
    using assms ct_para [of c OFS_NAME_SIZE name] by (auto simp: w_open_def w_close_def w_ct_def OFS_NAME_SIZE_def)
  show ?thesis
    unfolding parse_all_para_def parse_container_para_def parse_object_para_def text_para_def
      number_para_def flag_para_def name_para_def
    by (simp add: no [unfolded w_ct_def] ct [unfolded w_ct_def] w_ct_def)
qed

lemma run_open:
  assumes "sys_malloc y = (\<lambda>_. True)" "holds_line m [w_open, w_ct, name]" "is_word name" "hd name \<noteq> 0x2D"
    "length name < OFS_NAME_SIZE" "ofs_open_container name (y\<lparr> sys_tick := sys_tick y + 2 \<rparr>) = Some (r, y')"
  shows "run_line m y = Some (False, y')"
proof -
  have n: "name \<noteq> []" using assms(3) by (simp add: is_word_def)
  obtain argv m' where p: "parse_cmd m CMD_MAX_ARGS = Some (argv, m')" "c_strings m' argv = Some [w_open, w_ct, name]"
    using holds_line_3 [OF assms(2) words(1,3) assms(3)] by blast
  then have "argv \<noteq> []" by auto
  then have "parse_and_exec_cmd True m ifs_cmd_list = Some (Some (Call 1 [w_open, w_ct, name]))"
    using p chosen(1) by (simp add: parse_and_exec_cmd_def)
  moreover have "run_cmd 1 [w_open, w_ct, name] (y\<lparr> sys_tick := sys_tick y + 1 \<rparr>) = Some y'"
    using parsed [OF assms(4) n assms(5) disjI1 [OF refl]] n assms(1,6)
    by (simp add: run_cmd_def do_cmd_def cmd_open_def name_para_def Let_def)
  ultimately show ?thesis using assms(1) by (simp add: run_line_def Let_def)
qed

lemma run_close:
  assumes "sys_malloc y = (\<lambda>_. True)" "holds_line m [w_close, w_ct, name]" "is_word name" "hd name \<noteq> 0x2D"
    "length name < OFS_NAME_SIZE" "ofs_get_container_handle name (y\<lparr> sys_tick := sys_tick y + 2 \<rparr>) = Some (Some n)"
    "ofs_close_container n (y\<lparr> sys_tick := sys_tick y + 2 \<rparr>) = Some (r, y')"
  shows "run_line m y = Some (False, y')"
proof -
  have n: "name \<noteq> []" using assms(3) by (simp add: is_word_def)
  obtain argv m' where p: "parse_cmd m CMD_MAX_ARGS = Some (argv, m')" "c_strings m' argv = Some [w_close, w_ct, name]"
    using holds_line_3 [OF assms(2) words(2,3) assms(3)] by blast
  then have "argv \<noteq> []" by auto
  then have "parse_and_exec_cmd True m ifs_cmd_list = Some (Some (Call 2 [w_close, w_ct, name]))"
    using p chosen(2) by (simp add: parse_and_exec_cmd_def)
  moreover have "run_cmd 2 [w_close, w_ct, name] (y\<lparr> sys_tick := sys_tick y + 1 \<rparr>) = Some y'"
    using parsed [OF assms(4) n assms(5) disjI2 [OF refl]] n assms(1,6,7)
    by (simp add: run_cmd_def do_cmd_def cmd_close_def name_para_def Let_def)
  ultimately show ?thesis using assms(1) by (simp add: run_line_def Let_def)
qed

text \<open>C23: The line \<open>open -ct\<close> and a name, in any case, of an opened container counts it once more, and the line
  \<open>close -ct\<close> with it undoes that exactly: both lines are split, their commands chosen and their parameters parsed.\<close>

theorem tools_open_close:
  assumes "sys_ok y" "sys_cts y n = Some x" "0 < on_ref_cnt x" "on_ref_cnt x + 1 \<noteq> 0" "sys_malloc y = (\<lambda>_. True)"
    "ansi_order name = ansi_order (on_name x)" "is_word name" "hd name \<noteq> 0x2D"
    "holds_line m1 [w_open, w_ct, name]" "holds_line m2 [w_close, w_ct, name]"
  shows "os_cmd_ui [m1] y = Some (put_opened n (x\<lparr> on_ref_cnt := on_ref_cnt x + 1 \<rparr>) (y\<lparr> sys_tick := sys_tick y + 2 \<rparr>)) \<and>
    os_cmd_ui [m1, m2] y = Some (y\<lparr> sys_tick := sys_tick y + 4 \<rparr>)"
proof -
  let ?x = "x\<lparr> on_ref_cnt := on_ref_cnt x + 1 \<rparr>" and ?y = "\<lambda>k. y\<lparr> sys_tick := sys_tick y + k \<rparr>"
  have ne: "name \<noteq> []" using assms(7) by (simp add: is_word_def)
  have "length name = length (on_name x)" using arg_cong [OF assms(6), of length] by (simp add: ansi_order_def)
  then have len: "length name < OFS_NAME_SIZE" "n \<noteq> 0" using assms(1,2) by (auto simp: sys_ok_def)
  have ok: "sys_ok (?y k)" "sys_cts (?y k) n = Some x" for k using assms(1,2) by simp_all
  have "ofs_open_container name (?y 2) = Some (Inr n, put_opened n ?x (?y 2))"
    using find_container_Some [OF ok assms(6) ne, of 2] assms(2) len(1) by (simp add: ofs_open_container_def ofs_open_nolock_def)
  then have o: "run_line m1 y = Some (False, put_opened n ?x (?y 2))"
    by (rule run_open [OF assms(5,9,7,8) len(1)])
  let ?z = "put_opened n ?x (?y 2)"
  have z: "?z\<lparr> sys_tick := sys_tick ?z + 2 \<rparr> = put_opened n ?x (?y 4)" by (simp add: put_opened_def)
  have "sys_ok (put_opened n ?x (?y 4))"
    by (rule same_list_ok [OF same_list_put [OF ok(2)] ok(1)]) simp
  then have g: "ofs_get_container_handle name (put_opened n ?x (?y 4)) = Some (Some n)"
    using find_container_Some [of "put_opened n ?x (?y 4)" n ?x name] assms(6) ne
    by (simp add: ofs_get_container_handle_def put_opened_def)
  have y: "(sys_cts y)(n \<mapsto> x) = sys_cts y" using assms(2) by (simp add: map_upd_triv)
  have c: "ofs_close_container n (put_opened n ?x (?y 4)) = Some (Inr (), ?y 4)"
    using len(2) assms(4) assms(3) [unfolded word_gt_0] y
    by (simp add: ofs_close_container_def ofs_close_nolock_def put_opened_def Let_def)
  have "run_line m2 ?z = Some (False, ?y 4)"
  proof (rule run_close)
    show "ofs_get_container_handle name (?z\<lparr> sys_tick := sys_tick ?z + 2 \<rparr>) = Some (Some n)" unfolding z by (rule g)
    show "ofs_close_container n (?z\<lparr> sys_tick := sys_tick ?z + 2 \<rparr>) = Some (Inr (), ?y 4)" unfolding z by (rule c)
  qed (use assms(5,7,8,10) len(1) in \<open>simp_all add: put_opened_def\<close>)
  then show ?thesis using o by simp
qed

theorem tools_open_close_witness:
  "\<exists>y'. os_cmd_ui [wr (\<lambda>_. 0) 0 [0x6F, 0x70, 0x65, 0x6E, 32, 0x2D, 0x63, 0x74, 32, 65]] ex_up = Some y' \<and>
    map_option on_ref_cnt (sys_cts y' 1) = Some 2"
proof -
  let ?m1 = "wr (\<lambda>_. 0) 0 [0x6F, 0x70, 0x65, 0x6E, 32, 0x2D, 0x63, 0x74, 32, 65]"
  let ?m2 = "wr (\<lambda>_. 0) 0 [0x63, 0x6C, 0x6F, 0x73, 0x65, 32, 0x2D, 0x63, 0x74, 32, 65]"
  have l: "holds_line ?m1 [w_open, w_ct, [65]]" "holds_line ?m2 [w_close, w_ct, [65]]"
    by (rule holds_line_wr, simp add: w_open_def w_close_def w_ct_def numeral_2_eq_2)+
  have "sys_cts ex_up 1 = Some (new_opened [97] ex_system)" "sys_malloc ex_up = (\<lambda>_. True)"
    by (simp_all add: ex_up_def ex_system_def)
  moreover have "ansi_order [65] = ansi_order [97]" by (simp add: ansi_order_def os_to_upper_def)
  ultimately show ?thesis
    using tools_open_close [OF ex_up_ok, of 1 "new_opened [97] ex_system" "[65]" ?m1 ?m2] l
    by (simp add: new_opened_def is_word_def stop_byte_def put_opened_def)
qed

end
