(* ===== verification/Spec2Isabelle.thy ===== *)
theory Spec2Isabelle
  imports OfsPrelude Collate BlockRw Avl IndexBlock OfsState MetaCache BTree SpaceManager ObjectManager
    Cursor TreeWalk TreeSearch Tables TableUpdate NodeIndex CacheIndex Flush FileFrame Container ContainerSystem
    RingBuffer Hashtab CmdUi AvlDestroy DoubleList MemAccount Utils CopyOnWrite CopyUpdate LeafTable FreeSpace BaseSpace Ini IniSpec IniFile Radix Tools
begin

text \<open>
  Verification of the object storage system of this repository (the C code under \<open>src/\<close>).

  \<^bold>\<open>The program.\<close> A container is a file. It holds objects, each with an inode of one block; an object may
  be a table, a B+ tree whose root is inside the inode and whose other nodes are index blocks of the file.
  Block numbers come from two space managers, themselves tables of free extents: one for all objects, one
  for the blocks of the first one's table, which in turn takes its blocks from a single reserved one. All
  blocks go through a copy on write cache of the container, ordered by block number in AVL trees, one of
  the container and one of each object; a flush writes the dirty blocks and then the super block, of which
  eight versions are written in turn.

  \<^bold>\<open>Theories, and the code they model.\<close>
    \<^item> \<open>OfsPrelude\<close>: bytes, little endian fields (\<open>buf\<close>, \<open>rd\<close>, \<open>wr\<close>, \<open>get16\<close>, \<open>put16\<close>, ...), the error
      codes and their lemmas, shared by all.
    \<^item> \<open>Collate\<close> (\<open>ofs_collate.c\<close>): the key orders of tables.
    \<^item> \<open>BlockRw\<close> (\<open>ofs_block_rw.c\<close>, \<open>file_if.c\<close>, \<open>disk_if.h\<close>): reading and writing blocks with the
      update sequence (fixup) and the eight super block versions, over a file of bytes; what the
      operating system does in a call (memory, seeks, how many bytes are written) is the argument \<open>io\<close>.
    \<^item> \<open>Avl\<close> (\<open>avl.c\<close>, \<open>avl.h\<close>): trees with positions. A pointer to a node is the path to it (a list of
      contexts) with its subtree, so parent pointers are the path.
    \<^item> \<open>IndexBlock\<close> (\<open>ofs_btree.c\<close>, \<open>ofs_tree.h\<close>): index entries and index blocks as bytes.
    \<^item> \<open>OfsState\<close>: the memory of an opened container as one record: byte buffers, caches, object
      information, handles by number (0 is NULL), the file, and the environment by a counter of calls.
    \<^item> \<open>MetaCache\<close> (\<open>ofs_metadata_cache.c\<close>), \<open>BTree\<close> (\<open>ofs_btree.c\<close>), \<open>SpaceManager\<close>
      (\<open>ofs_space_manager.c\<close>), \<open>ObjectManager\<close> (\<open>ofs_object_manager.c\<close>), \<open>Container\<close>
      (\<open>ofs_container_manager.c\<close>): the operations of each, with the names of the code, on that record.
      The table operations take the space operations as an argument (\<open>space_ops\<close>) and \<open>SpaceManager\<close>
      ties the knot level by level, as the code recurses from user objects to the base object.
    \<^item> \<open>Cursor\<close>, \<open>TreeWalk\<close>, \<open>TreeSearch\<close>, \<open>Tables\<close>, \<open>TableUpdate\<close>: an abstract table (a tree of entries), when a
      container holds one, and the cursor operations, walks, searches, insertions and removals over it.
      \<open>CopyOnWrite\<close>, \<open>CopyUpdate\<close>: updates of a table whose blocks are clean, by copying the path to the
      root, over any provider of blocks (the locale \<open>block_service\<close>, interpreted on the reserved block).
    \<^item> \<open>LeafTable\<close>, \<open>FreeSpace\<close>, \<open>BaseSpace\<close>: tables of one block; tables of free extents, with gaps between
      them, as sets of block numbers; the space manager of the base blocks as a state machine of allocations and releases.
    \<^item> \<open>NodeIndex\<close>, \<open>CacheIndex\<close>, \<open>Flush\<close>: intrusive AVL lists by numbers, the invariant of the cache trees,
      the operations of the cache, and flushing.
    \<^item> \<open>FileFrame\<close>, \<open>ContainerSystem\<close>: that each operation but a commit leaves the file alone; runs of
      operations of one container and of the process, as step relations, and their invariants.
    \<^item> \<open>RingBuffer\<close> (\<open>ring_buffer.h\<close>, \<open>queue.h\<close>, \<open>stack.h\<close>), \<open>Hashtab\<close> (\<open>hashtab.c\<close>), \<open>CmdUi\<close>
      (\<open>cmd_ui.c\<close>): the small containers and the command line.
    \<^item> \<open>AvlDestroy\<close> (\<open>avl.c\<close>): taking trees apart and updating nodes. \<open>DoubleList\<close> (\<open>dlist.h\<close>): linked
      lists over a memory of nodes. \<open>MemAccount\<close> (\<open>cmm.c\<close>): the accounting allocator. \<open>Utils\<close>
      (\<open>utils.c\<close>): conversions.
    \<^item> \<open>Ini\<close> (\<open>ini.c\<close>): ini files in a buffer; \<open>IniSpec\<close>: sections of lines \<open>key=value\<close> as data; \<open>IniFile\<close>:
      that the operations on the buffer implement those on the data. \<open>Radix\<close> (\<open>radix_tree.c\<close>): radix trees.
    \<^item> \<open>Tools\<close> (\<open>tools/\<close>): the commands of the tool, over the process of \<open>Container\<close>, and sessions of lines,
      which tie the command line of \<open>CmdUi\<close> to the containers.

  \<^bold>\<open>Results.\<close> Every operation returns \<open>None\<close> for undefined behaviour (a NULL or freed block, a failed
  \<open>ASSERT\<close>, an access outside a buffer, a loop that does not end), else the error or the result. So a
  theorem that an operation gives \<open>Some\<close> states that it returns and does nothing undefined. Loops with no
  evident bound are \<open>partial_function (option)\<close>; no fuel is used.

  \<^bold>\<open>What is shown.\<close> Of the file: torn or failed super block writes lose at most the last version, a block
  written and read back is the same, a flush writes only dirty blocks and makes them durable, but commits
  after a failed write. Of the cache: its trees keep order, nesting and disjointness under allocation,
  copy on write and release; hits do no I/O; a failed read becomes a hit. Of tables: searching, walking and
  counting over trees of any height of cached blocks; inserting into and removing
  from a leaf as one element of the entries in order, also when the blocks are clean: then exactly the blocks
  on the path to the root become dirty and get new numbers, and in the base table a number freed on the path
  is given out again in the same call; inserting, removing and splitting in one block
  refine lists of entries. Of free space: allocating base blocks takes free blocks out of the set of free blocks,
  freeing puts them back and merges extents, so no block ever has two owners; freeing a block twice is
  accepted and counted. Of containers: nothing but a commit writes the file, the list of opened containers
  stays well-formed, reopening and closing undo each other, and a missing file leaves nothing behind. Of AVL trees: insert, remove, find and walk refine ordered lists and keep
  balance, so the trees that the operations make are searched in logarithmic time. Of collation: each rule is the order it is meant to be, and the encodings round trip. Of the
  small containers: refinement of bounded lists and finite maps. Of the command line: words, and which
  command is run. Of ini files: reading is looking up and writing is putting, each key by itself, except
  that a file without a final line end is read beyond its end. Of radix trees: walks are sorted. Of the tool:
  whatever lines are entered, the list of opened containers stays well-formed and nothing is left open.

  \<^bold>\<open>Not modelled.\<close> The buffering of the C library between \<open>fwrite\<close> and the disk (the file is what the file
  layer shows), locks and threads (each operation runs under one lock of the container), logging, the
  kernel branches, the messages of the tools, the threads of their performance test, the server, code disabled with \<open>#if 0\<close>. Block and
  memory contents that the code leaves uninitialised are arguments (\<open>junk\<close>). Table
  insertion that splits blocks and removal that collapses them are modelled, but proved for one block
  each only; copy on write and the allocation of blocks are proved for the base table, not for the tables
  above it, whose blocks come from another table. The table of free base blocks is one block with room
  for an extent for every free block: the constants of the code keep about ten base blocks free.
\<close>

end
